(* ===== verification/Prelude.thy ===== *)
theory Prelude
  imports Main "HOL-Library.Word"
begin

text \<open>
  Shared vocabulary of the development: the fixed-width integer types of the kernel, the result
  type of code that can panic, and the generic facts on words and lists that every component
  uses.

  A kernel routine that can fail is a function into \<open>'a res\<close>. \<open>Inl\<close> carries the reason why control
  never comes back to the caller (a call of \<open>panic\<close>, a null or wild pointer, a loop that does not
  end); \<open>Inr\<close> carries the returned value and the new state. Error codes that the C code returns
  (\<open>-1\<close>, \<open>0\<close>) are ordinary values on the \<open>Inr\<close> side.
\<close>

unbundle bit_operations_syntax

section \<open>Types\<close>

type_synonym u8 = "8 word"
type_synonym u16 = "16 word"
type_synonym u32 = "32 word"

datatype fault =
    Panic string      \<comment> \<open>\<open>panic(msg)\<close>\<close>
  | NullDeref         \<comment> \<open>a null pointer is dereferenced\<close>
  | OutOfBounds       \<comment> \<open>an array is accessed outside its bounds\<close>
  | Diverge           \<comment> \<open>a loop whose exit condition is never met\<close>
  | Sleeps string     \<comment> \<open>the caller sleeps until another process acts\<close>
  | PageFault u32     \<comment> \<open>the kernel touches an address that is not mapped\<close>
  | Undefined         \<comment> \<open>the value of an uninitialised variable is used\<close>

type_synonym 'a res = "fault + 'a"

section \<open>Sequencing\<close>

definition bindr :: "'e + 'a \<Rightarrow> ('a \<Rightarrow> 'e + 'b) \<Rightarrow> 'e + 'b" where
  "bindr m f = (case m of Inl e \<Rightarrow> Inl e | Inr x \<Rightarrow> f x)"

lemma bindr_Inl [simp]: "bindr (Inl e) f = Inl e"
  by (simp add: bindr_def)

lemma bindr_Inr [simp]: "bindr (Inr x) f = f x"
  by (simp add: bindr_def)

lemma bindr_assoc: "bindr (bindr m f) g = bindr m (\<lambda>x. bindr (f x) g)"
  by (cases m) simp_all

lemma bindr_eq_Inr: "bindr m f = Inr y \<longleftrightarrow> (\<exists>x. m = Inr x \<and> f x = Inr y)"
  by (cases m) auto

lemma bindr_eq_Inl: "bindr m f = Inl e \<longleftrightarrow> m = Inl e \<or> (\<exists>x. m = Inr x \<and> f x = Inl e)"
  by (cases m) auto

lemma bindrE [elim!]:
  assumes "bindr m f = Inr y"
  obtains x where "m = Inr x" "f x = Inr y"
  using assms by (auto simp: bindr_eq_Inr)

lemma bindr_cong [fundef_cong]:
  assumes "m = m'" and "\<And>x. m' = Inr x \<Longrightarrow> f x = f' x"
  shows "bindr m f = bindr m' f'"
  using assms by (cases m') auto

lemma bindr_if: "bindr (if b then m else n) f = (if b then bindr m f else bindr n f)"
  by simp

text \<open>Reading an array element; outside the array the C code reads whatever lies there.\<close>

definition at :: "'a list \<Rightarrow> nat \<Rightarrow> 'a res" where
  "at xs i = (if i < length xs then Inr (xs ! i) else Inl OutOfBounds)"

lemma at_in [simp]: "i < length xs \<Longrightarrow> at xs i = Inr (xs ! i)"
  by (simp add: at_def)

lemma at_out [simp]: "length xs \<le> i \<Longrightarrow> at xs i = Inl OutOfBounds"
  by (simp add: at_def)

lemma at_eq_Inr: "at xs i = Inr x \<longleftrightarrow> i < length xs \<and> xs ! i = x"
  by (simp add: at_def)

text \<open>Following a pointer that may be null.\<close>

definition deref :: "'a option \<Rightarrow> 'a res" where
  "deref p = (case p of None \<Rightarrow> Inl NullDeref | Some x \<Rightarrow> Inr x)"

lemma deref_Some [simp]: "deref (Some x) = Inr x"
  by (simp add: deref_def)

lemma deref_None [simp]: "deref None = Inl NullDeref"
  by (simp add: deref_def)

lemma deref_eq_Inr: "deref p = Inr x \<longleftrightarrow> p = Some x"
  by (cases p) simp_all

section \<open>Words\<close>

text \<open>Bit-level facts on the constants of the source; \<open>flag_bits\<close> turns masks into conditions on
  single bits.\<close>

named_theorems flag_bits

lemma bit_4095 [flag_bits]: "bit (4095 :: u32) n \<longleftrightarrow> n < 12"
proof -
  have "(4095 :: u32) = mask 12" by (simp add: mask_eq_exp_minus_1)
  then have "bit (4095 :: u32) n \<longleftrightarrow> bit (mask 12 :: u32) n" by (rule arg_cong)
  also have "\<dots> \<longleftrightarrow> n < 12" by (auto simp: bit_mask_iff)
  finally show ?thesis .
qed

lemma bit_1023 [flag_bits]: "bit (1023 :: u32) n \<longleftrightarrow> n < 10"
proof -
  have "(1023 :: u32) = mask 10" by (simp add: mask_eq_exp_minus_1)
  then have "bit (1023 :: u32) n \<longleftrightarrow> bit (mask 10 :: u32) n" by (rule arg_cong)
  also have "\<dots> \<longleftrightarrow> n < 10" by (auto simp: bit_mask_iff)
  finally show ?thesis .
qed

lemma bit_4095_int [flag_bits]: "bit (4095 :: int) n \<longleftrightarrow> n < 12"
proof -
  have "(4095 :: int) = mask 12" by (simp add: mask_eq_exp_minus_1)
  then have "bit (4095 :: int) n \<longleftrightarrow> bit (mask 12 :: int) n" by (rule arg_cong)
  then show ?thesis by (simp add: bit_mask_iff)
qed

lemma bit_1023_int [flag_bits]: "bit (1023 :: int) n \<longleftrightarrow> n < 10"
proof -
  have "(1023 :: int) = mask 10" by (simp add: mask_eq_exp_minus_1)
  then have "bit (1023 :: int) n \<longleftrightarrow> bit (mask 10 :: int) n" by (rule arg_cong)
  then show ?thesis by (simp add: bit_mask_iff)
qed

lemma bit_255 [flag_bits]: "bit (255 :: int) n \<longleftrightarrow> n < 8"
proof -
  have "(255 :: int) = mask 8" by (simp add: mask_eq_exp_minus_1)
  then have "bit (255 :: int) n \<longleftrightarrow> bit (mask 8 :: int) n" by (rule arg_cong)
  then show ?thesis by (simp add: bit_mask_iff)
qed

lemma bit_power_int [flag_bits]:
  "bit (2 :: int) n \<longleftrightarrow> n = 1" "bit (4 :: int) n \<longleftrightarrow> n = 2" "bit (32 :: int) n \<longleftrightarrow> n = 5"
  "bit (512 :: int) n \<longleftrightarrow> n = 9" "bit (1024 :: int) n \<longleftrightarrow> n = 10"
  using bit_exp_iff [where 'a = int, of 1 n] bit_exp_iff [where 'a = int, of 2 n]
    bit_exp_iff [where 'a = int, of 5 n] bit_exp_iff [where 'a = int, of 9 n]
    bit_exp_iff [where 'a = int, of 10 n] by auto

lemma bit_1 [flag_bits]: "bit (1 :: u32) n \<longleftrightarrow> n = 0"
  by (simp add: bit_1_iff)

lemma bit_2 [flag_bits]: "bit (2 :: u32) n \<longleftrightarrow> n = 1"
  using bit_exp_iff [where 'a = u32, of 1 n] by (auto simp: possible_bit_word)

lemma bit_4 [flag_bits]: "bit (4 :: u32) n \<longleftrightarrow> n = 2"
  using bit_exp_iff [where 'a = u32, of 2 n] by (auto simp: possible_bit_word)

lemma bit_32 [flag_bits]: "bit (32 :: u32) n \<longleftrightarrow> n = 5"
  using bit_exp_iff [where 'a = u32, of 5 n] by (auto simp: possible_bit_word)

lemma bit_512 [flag_bits]: "bit (512 :: u32) n \<longleftrightarrow> n = 9"
  using bit_exp_iff [where 'a = u32, of 9 n] by (auto simp: possible_bit_word)

lemma bit_1024 [flag_bits]: "bit (1024 :: u32) n \<longleftrightarrow> n = 10"
  using bit_exp_iff [where 'a = u32, of 10 n] by (auto simp: possible_bit_word)

lemma and_1_iff [flag_bits]: "(x :: u32) AND 1 = 0 \<longleftrightarrow> \<not> bit x 0"
  using and_exp_eq_0_iff_not_bit [of x 0] by simp

lemma and_2_iff [flag_bits]: "(x :: u32) AND 2 = 0 \<longleftrightarrow> \<not> bit x 1"
  using and_exp_eq_0_iff_not_bit [of x 1] by simp

lemma and_4_iff [flag_bits]: "(x :: u32) AND 4 = 0 \<longleftrightarrow> \<not> bit x 2"
  using and_exp_eq_0_iff_not_bit [of x 2] by simp

lemma and_32_iff [flag_bits]: "(x :: u32) AND 32 = 0 \<longleftrightarrow> \<not> bit x 5"
  using and_exp_eq_0_iff_not_bit [of x 5] by simp

lemma and_512_iff [flag_bits]: "(x :: u32) AND 512 = 0 \<longleftrightarrow> \<not> bit x 9"
  using and_exp_eq_0_iff_not_bit [of x 9] by simp

lemma and_1024_iff [flag_bits]: "(x :: u32) AND 1024 = 0 \<longleftrightarrow> \<not> bit x 10"
  using and_exp_eq_0_iff_not_bit [of x 10] by simp

text \<open>Masks that clear one flag.\<close>

lemma bit_NOT_u32: "bit (NOT m :: u32) n \<longleftrightarrow> n < 32 \<and> \<not> bit m n"
  by (simp add: bit_not_iff possible_bit_word)

lemma bit_clear_flag [flag_bits]:
  "bit (- 2 :: u32) n \<longleftrightarrow> n < 32 \<and> n \<noteq> 0" "bit (- 3 :: u32) n \<longleftrightarrow> n < 32 \<and> n \<noteq> 1"
  "bit (- 5 :: u32) n \<longleftrightarrow> n < 32 \<and> n \<noteq> 2" "bit (- 33 :: u32) n \<longleftrightarrow> n < 32 \<and> n \<noteq> 5"
  "bit (- 513 :: u32) n \<longleftrightarrow> n < 32 \<and> n \<noteq> 9" "bit (- 1025 :: u32) n \<longleftrightarrow> n < 32 \<and> n \<noteq> 10"
  using bit_NOT_u32 [of 1 n] bit_NOT_u32 [of 2 n] bit_NOT_u32 [of 4 n] bit_NOT_u32 [of 32 n]
    bit_NOT_u32 [of 512 n] bit_NOT_u32 [of 1024 n] by (auto simp: flag_bits)

lemma bit_clear_flag_int [flag_bits]:
  "bit (- 2 :: int) n \<longleftrightarrow> n \<noteq> 0" "bit (- 3 :: int) n \<longleftrightarrow> n \<noteq> 1" "bit (- 5 :: int) n \<longleftrightarrow> n \<noteq> 2"
  "bit (- 33 :: int) n \<longleftrightarrow> n \<noteq> 5" "bit (- 513 :: int) n \<longleftrightarrow> n \<noteq> 9" "bit (- 1025 :: int) n \<longleftrightarrow> n \<noteq> 10"
  using bit_not_int_iff [of 1 n] bit_not_int_iff [of 2 n] bit_not_int_iff [of 4 n] bit_not_int_iff [of 32 n]
    bit_not_int_iff [of 512 n] bit_not_int_iff [of 1024 n] by (auto simp: flag_bits bit_1_iff)

lemma bit_6 [flag_bits]: "bit (6 :: int) n \<longleftrightarrow> n = 1 \<or> n = 2" "bit (6 :: u32) n \<longleftrightarrow> n = 1 \<or> n = 2"
proof -
  have "(6 :: int) = 2 OR 4" by simp
  then have "bit (6 :: int) n \<longleftrightarrow> bit (2 OR 4 :: int) n" by (rule arg_cong)
  also have "\<dots> \<longleftrightarrow> n = 1 \<or> n = 2" unfolding bit_or_iff flag_bits ..
  finally show i: "bit (6 :: int) n \<longleftrightarrow> n = 1 \<or> n = 2" .
  show "bit (6 :: u32) n \<longleftrightarrow> n = 1 \<or> n = 2" using i by auto
qed

lemma bit_and_clear: "bit (x AND NOT m :: u32) n \<longleftrightarrow> bit x n \<and> \<not> bit m n"
  using bit_imp_le_length [of x n] by (auto simp: bit_and_iff bit_NOT_u32)

lemma bit_minus_4096 [flag_bits]: "bit (- 4096 :: u32) n \<longleftrightarrow> 12 \<le> n \<and> n < 32"
proof -
  have "(- 4096 :: u32) = NOT 4095" by simp
  then have "bit (- 4096 :: u32) n \<longleftrightarrow> bit (NOT 4095 :: u32) n" by (rule arg_cong)
  also have "\<dots> \<longleftrightarrow> 12 \<le> n \<and> n < 32"
    unfolding bit_not_iff possible_bit_word bit_4095 by auto
  finally show ?thesis .
qed

lemma bit_minus_4096_int [flag_bits]: "bit (- 4096 :: int) n \<longleftrightarrow> 12 \<le> n"
proof -
  have "(- 4096 :: int) = NOT 4095" by simp
  then have "bit (- 4096 :: int) n \<longleftrightarrow> bit (NOT 4095 :: int) n" by (rule arg_cong)
  also have "\<dots> \<longleftrightarrow> 12 \<le> n"
    unfolding bit_not_iff possible_bit_int bit_4095_int by auto
  finally show ?thesis .
qed

text \<open>Masking off the low twelve bits is rounding down to a multiple of 4096.\<close>

lemma unat_and_4095: "unat (x AND 4095 :: u32) = unat x mod 4096"
proof -
  have "x AND 4095 = take_bit 12 x"
    by (simp add: take_bit_eq_mask mask_eq_exp_minus_1)
  then show ?thesis by (simp add: take_bit_eq_mod unat_mod)
qed

lemma and_minus_4096_eq: "(x :: u32) AND - 4096 = x - (x AND 4095)"
proof -
  have "(x AND 4095) OR (x AND - 4096) = x"
    by (rule bit_word_eqI) (auto simp: bit_simps flag_bits)
  moreover have "(x AND 4095) AND (x AND - 4096) = 0"
    by (rule bit_word_eqI) (auto simp: bit_simps flag_bits)
  ultimately have "(x AND 4095) + (x AND - 4096) = x"
    by (metis disjunctive_add_eq_or)
  then show ?thesis by (simp add: algebra_simps)
qed

lemma unat_and_minus_4096: "unat (x AND - 4096 :: u32) = unat x - unat x mod 4096"
proof -
  have le: "x AND 4095 \<le> x" by (simp add: word_and_le2)
  show ?thesis
    unfolding and_minus_4096_eq by (simp only: unat_sub [OF le] unat_and_4095)
qed

lemma unat_u32_bound: "unat (x :: u32) < 4294967296"
  using unsigned_less [of x] by simp

lemma unat_add_nowrap: "unat (a :: u32) + unat b < 4294967296 \<Longrightarrow> unat (a + b) = unat a + unat b"
  by (simp add: unat_word_ariths)

lemma unat_add_mod_4096: "unat (a + b :: u32) mod 4096 = (unat a + unat b) mod 4096"
proof -
  have "unat (a + b) = (unat a + unat b) mod (4096 * 1048576)"
    by (simp add: unat_word_ariths)
  then show ?thesis by (simp only: mod_mult2_eq) simp
qed

lemma unat_eq_imp: "unat (a :: u32) = n \<Longrightarrow> a = word_of_nat n"
  by auto

lemma unat_sub_nowrap: "unat b \<le> unat a \<Longrightarrow> unat (a - b) = unat a - unat (b :: u32)"
  by (rule unat_sub) (simp add: word_le_nat_alt)

lemma unat_word_of_nat: "n < 4294967296 \<Longrightarrow> unat (word_of_nat n :: u32) = n"
  by (simp add: unat_of_nat take_bit_nat_eq_self)

end
