(* ===== verification/Mmu.thy ===== *)
theory Mmu
  imports Prelude
begin

text \<open>
  The address arithmetic of \<open>mmu.h\<close> and \<open>memlayout.h\<close>: page sizes and limits, the page-directory
  and page-table indices of a virtual address, rounding to pages, the flag bits and the address
  part of a page-table entry, the direct map between physical addresses and kernel addresses, and
  the packed segment and gate descriptors.

  The lemmas say that an address is put together again from its three parts, that an entry is its
  address part and its flags and nothing else, what rounding does to the numeric value (with the
  wrap-around of \<open>PGROUNDUP\<close> at the top of the address space), and that the descriptor macros lose
  no bit of the base address.
\<close>

unbundle bit_operations_syntax

section \<open>Constants\<close>

abbreviation (input) PGSIZE :: u32 where "PGSIZE \<equiv> 4096"
abbreviation (input) NPDENTRIES :: nat where "NPDENTRIES \<equiv> 1024"
abbreviation (input) NPTENTRIES :: nat where "NPTENTRIES \<equiv> 1024"
abbreviation (input) EXTMEM :: u32 where "EXTMEM \<equiv> 0x100000"
abbreviation (input) PHYSTOP :: u32 where "PHYSTOP \<equiv> 0xE000000"
abbreviation (input) DEVSPACE :: u32 where "DEVSPACE \<equiv> 0xFE000000"
abbreviation (input) KERNBASE :: u32 where "KERNBASE \<equiv> 0x80000000"
abbreviation (input) KERNLINK :: u32 where "KERNLINK \<equiv> KERNBASE + EXTMEM"

abbreviation (input) PTE_P :: u32 where "PTE_P \<equiv> 0x001"
abbreviation (input) PTE_W :: u32 where "PTE_W \<equiv> 0x002"
abbreviation (input) PTE_U :: u32 where "PTE_U \<equiv> 0x004"
abbreviation (input) PTE_A :: u32 where "PTE_A \<equiv> 0x020"
abbreviation (input) PTE_PG :: u32 where "PTE_PG \<equiv> 0x200"
abbreviation (input) PTE_COW :: u32 where "PTE_COW \<equiv> 0x400"

section \<open>Macros\<close>

definition PDX :: "u32 \<Rightarrow> nat" where
  "PDX va = unat (drop_bit 22 va AND 0x3FF)"

definition PTX :: "u32 \<Rightarrow> nat" where
  "PTX va = unat (drop_bit 12 va AND 0x3FF)"

definition PGADDR :: "u32 \<Rightarrow> u32 \<Rightarrow> u32 \<Rightarrow> u32" where
  "PGADDR d t off = push_bit 22 d OR push_bit 12 t OR off"

definition PGROUNDUP :: "u32 \<Rightarrow> u32" where
  "PGROUNDUP sz = (sz + PGSIZE - 1) AND NOT (PGSIZE - 1)"

definition PGROUNDDOWN :: "u32 \<Rightarrow> u32" where
  "PGROUNDDOWN a = a AND NOT (PGSIZE - 1)"

definition PTE_ADDR :: "u32 \<Rightarrow> u32" where
  "PTE_ADDR pte = pte AND NOT 0xFFF"

definition PTE_FLAGS :: "u32 \<Rightarrow> u32" where
  "PTE_FLAGS pte = pte AND 0xFFF"

definition V2P :: "u32 \<Rightarrow> u32" where
  "V2P a = a - KERNBASE"

definition P2V :: "u32 \<Rightarrow> u32" where
  "P2V a = a + KERNBASE"

section \<open>Addresses\<close>

lemma V2P_P2V [simp]: "V2P (P2V a) = a" and P2V_V2P [simp]: "P2V (V2P a) = a"
  by (simp_all add: V2P_def P2V_def)

lemma V2P_inj [simp]: "V2P a = V2P b \<longleftrightarrow> a = b"
  by (simp add: V2P_def)

lemma P2V_inj [simp]: "P2V a = P2V b \<longleftrightarrow> a = b"
  by (simp add: P2V_def)

lemma V2P_add: "V2P (a + b) = V2P a + b" and P2V_add: "P2V (a + b) = P2V a + b"
  by (simp_all add: V2P_def P2V_def)

lemma V2P_mono:
  assumes "KERNBASE \<le> a" "a \<le> b"
  shows "V2P a \<le> V2P b"
proof -
  have "KERNBASE \<le> b" using assms by (rule order_trans)
  then show ?thesis
    using assms by (simp add: V2P_def word_le_nat_alt unat_sub)
qed

lemma aligned_V2P [simp]: "unat (V2P v) mod 4096 = unat v mod 4096"
proof -
  have "V2P v = v + 0x80000000" by (simp add: V2P_def)
  then have "unat (V2P v) mod 4096 = (unat v + unat (0x80000000 :: u32)) mod 4096"
    by (simp only: unat_add_mod_4096)
  also have "\<dots> = unat v mod 4096"
    by (simp add: mod_add_eq [symmetric])
  finally show ?thesis .
qed

lemma PDX_bound [simp]: "PDX va < 1024" and PTX_bound [simp]: "PTX va < 1024"
proof -
  have "unat (w AND 0x3FF :: u32) < 1024" for w
  proof -
    have "w AND 0x3FF \<le> (0x3FF :: u32)" by (simp add: word_and_le1)
    then have "unat (w AND 0x3FF) \<le> unat (0x3FF :: u32)" by (simp only: word_le_nat_alt)
    then show ?thesis by simp
  qed
  then show "PDX va < 1024" "PTX va < 1024" by (simp_all add: PDX_def PTX_def)
qed

lemma PDX_div: "PDX va = unat va div 4194304"
proof -
  have "drop_bit 22 va AND 0x3FF = drop_bit 22 va"
    by (rule bit_word_eqI) (auto simp: bit_simps flag_bits dest: bit_imp_le_length)
  then show ?thesis by (simp add: PDX_def drop_bit_eq_div unat_div)
qed

lemma PTX_div: "PTX va = (unat va div 4096) mod 1024"
proof -
  have "(x :: u32) AND 0x3FF = x mod 1024" for x
    using take_bit_eq_mask [of 10 x] take_bit_eq_mod [of 10 x]
    by (simp add: mask_eq_exp_minus_1)
  then show ?thesis by (simp add: PTX_def unat_mod drop_bit_eq_div unat_div)
qed


lemma same_page: "PDX a = PDX b \<and> PTX a = PTX b \<longleftrightarrow> unat a div 4096 = unat b div 4096"
proof
  assume "unat a div 4096 = unat b div 4096"
  moreover have "x div 4194304 = x div 4096 div 1024" for x :: nat
    by (simp add: div_mult2_eq [symmetric])
  ultimately show "PDX a = PDX b \<and> PTX a = PTX b" by (simp add: PDX_div PTX_div)
next
  assume "PDX a = PDX b \<and> PTX a = PTX b"
  then have "unat a div 4096 div 1024 = unat b div 4096 div 1024"
    and "(unat a div 4096) mod 1024 = (unat b div 4096) mod 1024"
    by (simp_all add: PDX_div PTX_div div_mult2_eq [symmetric])
  then show "unat a div 4096 = unat b div 4096"
    by (metis div_mult_mod_eq)
qed

lemma unat_PGROUNDDOWN: "unat (PGROUNDDOWN a) = unat a - unat a mod 4096"
  using unat_and_minus_4096 [of a] by (simp add: PGROUNDDOWN_def)

lemma unat_PTE_ADDR: "unat (PTE_ADDR a) = unat a - unat a mod 4096"
  using unat_and_minus_4096 [of a] by (simp add: PTE_ADDR_def)

lemma unat_PGROUNDUP:
  assumes "unat sz + 4095 < 4294967296"
  shows "unat (PGROUNDUP sz) = unat sz + 4095 - (unat sz + 4095) mod 4096"
proof -
  have "unat (sz + 4095) = unat sz + 4095"
    using unat_add_nowrap [of sz 4095] assms by simp
  then show ?thesis
    using unat_and_minus_4096 [of "sz + 4095"] by (simp add: PGROUNDUP_def add.commute)
qed

lemma PGROUNDUP_wraps:
  assumes "4294967296 \<le> unat sz + 4095"
  shows "PGROUNDUP sz = 0"
proof -
  have "unat (sz + 4095) = (unat sz + 4095) mod 4294967296"
    by (simp add: unat_word_ariths)
  also have "\<dots> = unat sz + 4095 - 4294967296"
    using assms unat_u32_bound [of sz] by (simp add: mod_if)
  finally have "unat (sz + 4095) < 4096" using unat_u32_bound [of sz] by simp
  then have "unat (PGROUNDUP sz) = 0"
    using unat_and_minus_4096 [of "sz + 4095"] by (simp add: PGROUNDUP_def add.commute)
  then show ?thesis by (simp add: unat_eq_zero)
qed

lemma aligned_PGROUNDDOWN [simp]: "unat (PGROUNDDOWN a) mod 4096 = 0"
  by (simp add: unat_PGROUNDDOWN minus_mod_eq_mult_div)

lemma aligned_PTE_ADDR [simp]: "unat (PTE_ADDR a) mod 4096 = 0"
  by (simp add: unat_PTE_ADDR minus_mod_eq_mult_div)

lemma aligned_PGROUNDUP [simp]: "unat (PGROUNDUP a) mod 4096 = 0"
proof (cases "unat a + 4095 < 4294967296")
  case True
  then show ?thesis by (simp add: unat_PGROUNDUP minus_mod_eq_mult_div del: mod_add_self2)
next
  case False
  then show ?thesis by (simp add: PGROUNDUP_wraps)
qed

lemma PGROUNDDOWN_div [simp]: "unat (PGROUNDDOWN a) div 4096 = unat a div 4096"
  by (simp add: unat_PGROUNDDOWN minus_mod_eq_mult_div)

lemma PGROUNDDOWN_aligned: "unat a mod 4096 = 0 \<Longrightarrow> PGROUNDDOWN a = a"
  using unat_PGROUNDDOWN [of a] by (simp add: word_unat_eq_iff)

lemma PGROUNDUP_aligned:
  assumes "unat a mod 4096 = 0"
  shows "PGROUNDUP a = a"
proof -
  obtain k where "unat a = 4096 * k" using assms by (metis dvd_def mod_0_imp_dvd)
  then have "unat a \<le> 4294963200" using unat_u32_bound [of a] by simp
  moreover have "(unat a + 4095) mod 4096 = 4095"
    using assms mod_add_left_eq [of "unat a" 4096 4095] by simp
  ultimately show ?thesis using unat_PGROUNDUP [of a] by (simp add: word_unat_eq_iff)
qed

lemma PTE_ADDR_aligned: "unat a mod 4096 = 0 \<Longrightarrow> PTE_ADDR a = a"
  using unat_PTE_ADDR [of a] by (simp add: word_unat_eq_iff)

text \<open>Bits of aligned addresses, of the address part and of the flag part.\<close>

lemma aligned_bits: "unat (a :: u32) mod 4096 = 0 \<Longrightarrow> n < 12 \<Longrightarrow> \<not> bit a n"
proof -
  assume "unat a mod 4096 = 0" and "n < 12"
  then have "a AND 4095 = 0"
    using unat_and_4095 [of a] by (simp add: unat_eq_zero)
  then have "\<not> bit (a AND 4095) n" by simp
  then show "\<not> bit a n" using \<open>n < 12\<close> by (auto simp: bit_and_iff flag_bits)
qed

lemma bit_PTE_ADDR [flag_bits]: "bit (PTE_ADDR p) n \<longleftrightarrow> 12 \<le> n \<and> bit p n"
  by (auto simp: PTE_ADDR_def bit_and_iff flag_bits dest: bit_imp_le_length)

lemma bit_PTE_FLAGS [flag_bits]: "bit (PTE_FLAGS p) n \<longleftrightarrow> n < 12 \<and> bit p n"
  by (auto simp: PTE_FLAGS_def bit_and_iff flag_bits)

text \<open>A page-table entry built from an aligned physical address and flag bits.\<close>

definition flags_only :: "u32 \<Rightarrow> bool" where
  "flags_only f \<longleftrightarrow> (f AND NOT 0xFFF = 0)"

lemma flags_only_bit: "flags_only f \<Longrightarrow> bit f n \<Longrightarrow> n < 12"
proof -
  assume "flags_only f" and b: "bit f n"
  then have "\<not> bit (f AND - 4096) n" by (simp add: flags_only_def)
  then show "n < 12"
    using b bit_imp_le_length [OF b] by (auto simp: bit_and_iff flag_bits)
qed

lemma flags_only_PTE_FLAGS [simp]: "flags_only (PTE_FLAGS p)"
proof -
  have "(p AND 4095) AND - 4096 = 0"
    by (rule bit_word_eqI) (auto simp: bit_and_iff flag_bits)
  then show ?thesis by (simp add: flags_only_def PTE_FLAGS_def)
qed

lemma PTE_ADDR_or:
  assumes "unat a mod 4096 = 0" and "flags_only f"
  shows "PTE_ADDR (a OR f) = a"
proof (rule bit_word_eqI)
  fix n
  show "bit (PTE_ADDR (a OR f)) n \<longleftrightarrow> bit a n"
    using flags_only_bit [OF assms(2), of n] aligned_bits [OF assms(1), of n]
    by (cases "n < 12") (auto simp: flag_bits bit_or_iff)
qed

lemma bit_or_flag:
  assumes "unat (a :: u32) mod 4096 = 0" and "n < 12"
  shows "bit (a OR f) n \<longleftrightarrow> bit f n"
  using aligned_bits [OF assms] by (simp add: bit_or_iff)


lemma bit_ge_32: "32 \<le> n \<Longrightarrow> \<not> bit (x :: u32) n"
  using bit_imp_le_length [of x n] by auto

lemma word_of_PDX: "word_of_nat (PDX va) = drop_bit 22 va AND 0x3FF"
  and word_of_PTX: "word_of_nat (PTX va) = drop_bit 12 va AND 0x3FF"
  by (simp_all add: PDX_def PTX_def)

lemma PGADDR_parts: "PGADDR (word_of_nat (PDX va)) (word_of_nat (PTX va)) (va AND 0xFFF) = va"
proof (rule bit_word_eqI)
  fix n :: nat
  assume "n < LENGTH(32)"
  then consider "n < 12" | "12 \<le> n" "n < 22" | "22 \<le> n" "n < 32" by fastforce
  then show "bit (PGADDR (word_of_nat (PDX va)) (word_of_nat (PTX va)) (va AND 0xFFF)) n = bit va n"
    unfolding PGADDR_def word_of_PDX word_of_PTX bit_or_iff bit_push_bit_iff bit_and_iff
      bit_drop_bit_eq comp_def
    by cases (auto simp: flag_bits)
qed

section \<open>Segment and gate descriptors\<close>

record segdesc =
  lim_15_0 :: u16
  base_15_0 :: u16
  base_23_16 :: u8
  seg_type :: "4 word"
  seg_s :: "1 word"
  seg_dpl :: "2 word"
  seg_p :: "1 word"
  lim_19_16 :: "4 word"
  seg_avl :: "1 word"
  seg_rsv1 :: "1 word"
  seg_db :: "1 word"
  seg_g :: "1 word"
  base_31_24 :: u8

definition SEG :: "4 word \<Rightarrow> u32 \<Rightarrow> u32 \<Rightarrow> 2 word \<Rightarrow> segdesc" where
  "SEG type base lim dpl =
     \<lparr>lim_15_0 = ucast (drop_bit 12 lim AND 0xffff), base_15_0 = ucast (base AND 0xffff),
      base_23_16 = ucast (drop_bit 16 base AND 0xff), seg_type = type, seg_s = 1, seg_dpl = dpl,
      seg_p = 1, lim_19_16 = ucast (drop_bit 28 lim), seg_avl = 0, seg_rsv1 = 0, seg_db = 1,
      seg_g = 1, base_31_24 = ucast (drop_bit 24 base)\<rparr>"

definition SEG16 :: "4 word \<Rightarrow> u32 \<Rightarrow> u32 \<Rightarrow> 2 word \<Rightarrow> segdesc" where
  "SEG16 type base lim dpl =
     \<lparr>lim_15_0 = ucast (lim AND 0xffff), base_15_0 = ucast (base AND 0xffff),
      base_23_16 = ucast (drop_bit 16 base AND 0xff), seg_type = type, seg_s = 1, seg_dpl = dpl,
      seg_p = 1, lim_19_16 = ucast (drop_bit 16 lim), seg_avl = 0, seg_rsv1 = 0, seg_db = 1,
      seg_g = 0, base_31_24 = ucast (drop_bit 24 base)\<rparr>"

record gatedesc =
  off_15_0 :: u16
  gate_cs :: u16
  gate_args :: "5 word"
  gate_rsv1 :: "3 word"
  gate_type :: "4 word"
  gate_s :: "1 word"
  gate_dpl :: "2 word"
  gate_p :: "1 word"
  off_31_16 :: u16

definition SETGATE :: "bool \<Rightarrow> u16 \<Rightarrow> u32 \<Rightarrow> 2 word \<Rightarrow> gatedesc" where
  "SETGATE istrap sel off d =
     \<lparr>off_15_0 = ucast (off AND 0xffff), gate_cs = sel, gate_args = 0, gate_rsv1 = 0,
      gate_type = (if istrap then 0xF else 0xE), gate_s = 0, gate_dpl = d, gate_p = 1,
      off_31_16 = ucast (drop_bit 16 off)\<rparr>"

text \<open>What the processor reads back from a descriptor: the base, the limit (in 4096-byte units when
  the granularity bit is set) and the entry point.\<close>

definition seg_base :: "segdesc \<Rightarrow> u32" where
  "seg_base d = ucast (base_15_0 d) OR push_bit 16 (ucast (base_23_16 d)) OR
     push_bit 24 (ucast (base_31_24 d))"

definition seg_limit :: "segdesc \<Rightarrow> u32" where
  "seg_limit d =
     (let l = ucast (lim_15_0 d) OR push_bit 16 (ucast (lim_19_16 d))
      in if seg_g d = 1 then push_bit 12 l OR 0xFFF else l)"

definition gate_off :: "gatedesc \<Rightarrow> u32" where
  "gate_off g = ucast (off_15_0 g) OR push_bit 16 (ucast (off_31_16 g))"

lemma bit_65535_int [flag_bits]: "bit (65535 :: int) n \<longleftrightarrow> n < 16"
proof -
  have "(65535 :: int) = mask 16" by (simp add: mask_eq_exp_minus_1)
  then have "bit (65535 :: int) n \<longleftrightarrow> bit (mask 16 :: int) n" by (rule arg_cong)
  then show ?thesis by (simp add: bit_mask_iff)
qed

lemma bit_255_int [flag_bits]: "bit (255 :: int) n \<longleftrightarrow> n < 8"
proof -
  have "(255 :: int) = mask 8" by (simp add: mask_eq_exp_minus_1)
  then have "bit (255 :: int) n \<longleftrightarrow> bit (mask 8 :: int) n" by (rule arg_cong)
  then show ?thesis by (simp add: bit_mask_iff)
qed

lemma seg_base_parts:
  "(ucast (ucast (b AND 0xffff :: u32) :: u16) :: u32) OR
     push_bit 16 (ucast (ucast (drop_bit 16 b AND 0xff) :: u8)) OR
     push_bit 24 (ucast (ucast (drop_bit 24 b) :: u8)) = b"
proof (rule bit_word_eqI)
  fix n :: nat
  assume "n < LENGTH(32)"
  then consider "n < 16" | "16 \<le> n" "n < 24" | "24 \<le> n" "n < 32" by fastforce
  then show "bit ((ucast (ucast (b AND 0xffff) :: u16) :: u32) OR
     push_bit 16 (ucast (ucast (drop_bit 16 b AND 0xff) :: u8)) OR
     push_bit 24 (ucast (ucast (drop_bit 24 b) :: u8))) n = bit b n"
    by cases (auto simp: bit_simps flag_bits)
qed

lemma seg_base_SEG: "seg_base (SEG t b l d) = b"
  by (simp only: seg_base_def SEG_def segdesc.simps seg_base_parts)

lemma seg_base_SEG16: "seg_base (SEG16 t b l d) = b"
  by (simp only: seg_base_def SEG16_def segdesc.simps seg_base_parts)

lemma seg_limit_SEG: "seg_limit (SEG t b l d) = l OR 0xFFF"
proof -
  have "push_bit 12 ((ucast (ucast (drop_bit 12 l AND 0xffff :: u32) :: u16) :: u32) OR
      push_bit 16 (ucast (ucast (drop_bit 28 l) :: 4 word))) OR 0xFFF = l OR 0xFFF"
  proof (rule bit_word_eqI)
    fix n :: nat
    assume "n < LENGTH(32)"
    then consider "n < 12" | "12 \<le> n" "n < 28" | "28 \<le> n" "n < 32" by fastforce
    then show "bit (push_bit 12 ((ucast (ucast (drop_bit 12 l AND 0xffff) :: u16) :: u32) OR
      push_bit 16 (ucast (ucast (drop_bit 28 l) :: 4 word))) OR 0xFFF) n = bit (l OR 0xFFF) n"
      by cases (auto simp: bit_simps flag_bits)
  qed
  then show ?thesis
    by (simp only: seg_limit_def SEG_def segdesc.simps Let_def if_True refl)
qed

lemma gate_off_SETGATE: "gate_off (SETGATE t c off d) = off"
proof -
  have "(ucast (ucast (off AND 0xffff :: u32) :: u16) :: u32) OR
      push_bit 16 (ucast (ucast (drop_bit 16 off) :: u16)) = off"
  proof (rule bit_word_eqI)
    fix n :: nat
    assume "n < LENGTH(32)"
    then consider "n < 16" | "16 \<le> n" "n < 32" by fastforce
    then show "bit ((ucast (ucast (off AND 0xffff) :: u16) :: u32) OR
      push_bit 16 (ucast (ucast (drop_bit 16 off) :: u16))) n = bit off n"
      by cases (auto simp: bit_simps flag_bits)
  qed
  then show ?thesis by (simp only: gate_off_def SETGATE_def gatedesc.simps)
qed

end
