(* ===== verification/Kalloc.thy ===== *)
theory Kalloc
  imports Mmu
begin

text \<open>
  The physical page allocator, \<open>kalloc.c\<close>. Physical memory is a map from the base address of a
  frame to its 1024 words. The free list is threaded through the first word of the free frames
  (\<open>struct run\<close>), exactly as in the code, and every frame has a reference counter for
  copy-on-write sharing.

  \<open>E\<close> is the address of the linker symbol \<open>end\<close>, the first address after the kernel image. The spin
  lock is the flag \<open>kmem_locked\<close> (held by this processor): taking it twice or releasing it when it
  is not held panics, as \<open>acquire\<close> and \<open>release\<close> do.

  The lemmas give the effect of every routine on every branch, the invariant \<open>kmem_ok\<close> that ties
  the linked list to the counters, and the interface \<open>frame_store\<close> on which the clients of the
  allocator rely.
\<close>

unbundle bit_operations_syntax

section \<open>State\<close>

record phys =
  pmem :: "u32 \<Rightarrow> nat \<Rightarrow> u32"             \<comment> \<open>frame base, word index\<close>
  freelist :: u32                          \<comment> \<open>kernel address of the first free page, or 0\<close>
  use_lock :: bool
  kmem_locked :: bool
  referenceCounters :: "nat \<Rightarrow> u32"        \<comment> \<open>indexed by frame number\<close>
  total_system_pages :: u32
  system_free_pages :: u32

abbreviation (input) NFRAMES :: nat where "NFRAMES \<equiv> 57344"   \<comment> \<open>\<open>PHYSTOP/PGSIZE\<close>\<close>

definition frame :: "u32 \<Rightarrow> nat" where
  "frame v = unat (V2P v) div 4096"

definition acquire_kmem :: "'a phys_scheme \<Rightarrow> (unit \<times> 'a phys_scheme) res" where
  "acquire_kmem s = (if kmem_locked s then Inl (Panic ''acquire'') else Inr ((), s\<lparr>kmem_locked := True\<rparr>))"

definition release_kmem :: "'a phys_scheme \<Rightarrow> (unit \<times> 'a phys_scheme) res" where
  "release_kmem s = (if kmem_locked s then Inr ((), s\<lparr>kmem_locked := False\<rparr>) else Inl (Panic ''release''))"

definition lock_kmem :: "'a phys_scheme \<Rightarrow> (unit \<times> 'a phys_scheme) res" where
  "lock_kmem s = (if use_lock s then acquire_kmem s else Inr ((), s))"

definition unlock_kmem :: "'a phys_scheme \<Rightarrow> (unit \<times> 'a phys_scheme) res" where
  "unlock_kmem s = (if use_lock s then release_kmem s else Inr ((), s))"

section \<open>Operations\<close>

text \<open>\<open>memset\<close> of a whole page with the byte \<open>c\<close>.\<close>

definition fill_page :: "u8 \<Rightarrow> nat \<Rightarrow> u32" where
  "fill_page c = (\<lambda>_. ucast c OR push_bit 8 (ucast c) OR push_bit 16 (ucast c) OR push_bit 24 (ucast c))"

definition freeable :: "u32 \<Rightarrow> u32 \<Rightarrow> bool" where
  "freeable E v \<longleftrightarrow> v mod PGSIZE = 0 \<and> E \<le> v \<and> V2P v < PHYSTOP"

definition kfree :: "u32 \<Rightarrow> u32 \<Rightarrow> 'a phys_scheme \<Rightarrow> (unit \<times> 'a phys_scheme) res" where
  "kfree E v s =
    (if v mod PGSIZE \<noteq> 0 \<or> v < E \<or> V2P v \<ge> PHYSTOP then Inl (Panic ''kfree'')
     else bindr (lock_kmem s) (\<lambda>(_, s).
       if use_lock s \<and> referenceCounters s (frame v) = 0
       then Inl (Panic ''kfree: ref is 0 and tried to kfree v'')
       else
         let s = (if referenceCounters s (frame v) > 0
                  then s\<lparr>referenceCounters := (referenceCounters s)(frame v := referenceCounters s (frame v) - 1)\<rparr>
                  else s);
             s = (if referenceCounters s (frame v) = 0
                  then s\<lparr>pmem := (pmem s)(V2P v := (fill_page 1)(0 := freelist s)),
                         freelist := v,
                         system_free_pages := system_free_pages s + 1\<rparr>
                  else s)
         in unlock_kmem s))"

definition kalloc :: "'a phys_scheme \<Rightarrow> (u32 \<times> 'a phys_scheme) res" where
  "kalloc s =
     bindr (lock_kmem s) (\<lambda>(_, s).
     let r = freelist s;
         s = (if r \<noteq> 0
              then s\<lparr>freelist := pmem s (V2P r) 0,
                     system_free_pages := system_free_pages s - 1,
                     referenceCounters := (referenceCounters s)(frame r := 1)\<rparr>
              else s)
     in bindr (unlock_kmem s) (\<lambda>(_, s). Inr (r, s)))"

definition incrementRef :: "u32 \<Rightarrow> u32 \<Rightarrow> 'a phys_scheme \<Rightarrow> (unit \<times> 'a phys_scheme) res" where
  "incrementRef E v s =
    (if V2P v < V2P E \<or> V2P v \<ge> PHYSTOP then Inl (Panic ''incrementRef'')
     else bindr (lock_kmem s) (\<lambda>(_, s).
       unlock_kmem (s\<lparr>referenceCounters := (referenceCounters s)(frame v := referenceCounters s (frame v) + 1)\<rparr>)))"

definition decrementRef :: "u32 \<Rightarrow> u32 \<Rightarrow> 'a phys_scheme \<Rightarrow> (unit \<times> 'a phys_scheme) res" where
  "decrementRef E v s =
    (if V2P v < V2P E \<or> V2P v \<ge> PHYSTOP then Inl (Panic ''decrementRef'')
     else bindr (lock_kmem s) (\<lambda>(_, s).
       unlock_kmem (s\<lparr>referenceCounters := (referenceCounters s)(frame v := referenceCounters s (frame v) - 1)\<rparr>)))"

text \<open>\<open>getRef\<close> has no range check: past the end of the array it reads foreign memory.\<close>

definition getRef :: "u32 \<Rightarrow> 'a phys_scheme \<Rightarrow> (u32 \<times> 'a phys_scheme) res" where
  "getRef v s =
     bindr (lock_kmem s) (\<lambda>(_, s).
     if frame v < NFRAMES
     then let res = referenceCounters s (frame v)
          in bindr (unlock_kmem s) (\<lambda>(_, s). Inr (res, s))
     else Inl OutOfBounds)"

text \<open>The loop of \<open>freerange\<close> stops at \<open>vend\<close>, or at the first address that \<open>kfree\<close> refuses.\<close>

lemma kfree_range: "kfree E p s = Inr r \<Longrightarrow> freeable E p"
  by (auto simp: kfree_def freeable_def not_less not_le split: if_splits)

lemma freerange_step:
  assumes "freeable E p"
  shows "unat (PHYSTOP - V2P (p + PGSIZE)) < unat (PHYSTOP - V2P p)"
proof -
  have lt: "V2P p < PHYSTOP" and "unat (V2P p) mod 4096 = 0"
    using assms unat_mod [of p 4096] by (simp_all add: freeable_def)
  then obtain k where k: "unat (V2P p) = 4096 * k" by (metis dvd_def mod_0_imp_dvd)
  have "unat (V2P p) < 234881024" using lt by (simp add: word_less_nat_alt)
  then have "k < 57344" using k by simp
  have d: "unat (PHYSTOP - V2P p) = 4096 * (57344 - k)"
    using lt k by (simp add: unat_sub diff_mult_distrib2)
  then have ge: "4096 \<le> unat (PHYSTOP - V2P p)" using \<open>k < 57344\<close> by simp
  then have "PGSIZE \<le> PHYSTOP - V2P p" by (simp add: word_le_nat_alt)
  then have "unat (PHYSTOP - V2P p - PGSIZE) = unat (PHYSTOP - V2P p) - unat PGSIZE"
    by (rule unat_sub)
  moreover have "PHYSTOP - V2P p - PGSIZE = PHYSTOP - V2P (p + PGSIZE)" by (simp add: V2P_add)
  ultimately have "unat (PHYSTOP - V2P (p + PGSIZE)) = unat (PHYSTOP - V2P p) - 4096" by simp
  then show ?thesis using ge by linarith
qed

function freerange_from :: "u32 \<Rightarrow> u32 \<Rightarrow> u32 \<Rightarrow> 'a phys_scheme \<Rightarrow> (unit \<times> 'a phys_scheme) res" where
  "freerange_from E p vend s =
    (if p + PGSIZE \<le> vend
     then bindr (kfree E p s) (\<lambda>(_, s). freerange_from E (p + PGSIZE) vend s)
     else Inr ((), s))"
  by pat_completeness auto
termination
proof (relation "measure (\<lambda>(E, p, vend, s). unat (PHYSTOP - V2P p))")
  fix E p vend :: u32 and s :: "'a phys_scheme" and r x s'
  assume "p + PGSIZE \<le> vend" "kfree E p s = Inr r" "(x, s') = r"
  then show "((E, p + PGSIZE, vend, s'), E, p, vend, s) \<in> measure (\<lambda>(E, p, vend, s). unat (PHYSTOP - V2P p))"
    using freerange_step [OF kfree_range] by auto
qed simp

declare freerange_from.simps [simp del]

definition freerange :: "u32 \<Rightarrow> u32 \<Rightarrow> u32 \<Rightarrow> 'a phys_scheme \<Rightarrow> (unit \<times> 'a phys_scheme) res" where
  "freerange E vstart vend s = freerange_from E (PGROUNDUP vstart) vend s"

definition kinit1 :: "u32 \<Rightarrow> u32 \<Rightarrow> u32 \<Rightarrow> 'a phys_scheme \<Rightarrow> (unit \<times> 'a phys_scheme) res" where
  "kinit1 E vstart vend s =
     bindr (freerange E vstart vend (s\<lparr>kmem_locked := False, use_lock := False\<rparr>)) (\<lambda>(_, s).
     Inr ((), s\<lparr>total_system_pages := (PGROUNDDOWN vend - PGROUNDUP vstart) div PGSIZE\<rparr>))"

definition kinit2 :: "u32 \<Rightarrow> u32 \<Rightarrow> u32 \<Rightarrow> 'a phys_scheme \<Rightarrow> (unit \<times> 'a phys_scheme) res" where
  "kinit2 E vstart vend s =
     bindr (freerange E vstart vend s) (\<lambda>(_, s).
     let s = s\<lparr>total_system_pages := total_system_pages s + (PGROUNDDOWN vend - PGROUNDUP vstart) div PGSIZE\<rparr>;
         s = s\<lparr>use_lock := True\<rparr>
     in Inr ((), s\<lparr>system_free_pages := total_system_pages s\<rparr>))"

section \<open>Shape of the guards\<close>

lemma freeable_aligned: "freeable E v \<Longrightarrow> unat v mod 4096 = 0"
  using unat_mod [of v 4096] by (simp add: freeable_def)

lemma frame_eq_iff:
  assumes "freeable E v" and "freeable E w"
  shows "frame v = frame w \<longleftrightarrow> v = w"
proof
  assume "frame v = frame w"
  moreover have "unat (V2P v) mod 4096 = unat (V2P w) mod 4096"
    using assms by (simp add: freeable_aligned)
  ultimately have "unat (V2P v) = unat (V2P w)"
    unfolding frame_def by (metis div_mult_mod_eq)
  then show "v = w" by (simp add: word_unat_eq_iff [symmetric])
qed simp

lemma frame_bound:
  assumes "V2P v < PHYSTOP"
  shows "frame v < NFRAMES"
  using assms by (simp add: frame_def word_less_nat_alt less_mult_imp_div_less)


lemma not_freeable: "\<not> freeable E v \<Longrightarrow> kfree E v s = Inl (Panic ''kfree'')"
  by (auto simp: kfree_def freeable_def not_less not_le)

lemma freeable_nonzero: "freeable E v \<Longrightarrow> v \<noteq> 0"
  by (auto simp: freeable_def V2P_def)

section \<open>The invariant\<close>

text \<open>The chain of \<open>struct run\<close> records that starts at \<open>p\<close> holds exactly the pages \<open>xs\<close>, in this
  order, and ends with a null pointer.\<close>

primrec flist :: "(u32 \<Rightarrow> nat \<Rightarrow> u32) \<Rightarrow> u32 \<Rightarrow> u32 list \<Rightarrow> bool" where
  "flist m p [] \<longleftrightarrow> p = 0"
| "flist m p (x # xs) \<longleftrightarrow> p = x \<and> x \<noteq> 0 \<and> flist m (m (V2P x) 0) xs"

lemma flist_upd_other [simp]: "v \<notin> set xs \<Longrightarrow> flist (m(V2P v := pg)) p xs = flist m p xs"
  by (induction xs arbitrary: p) auto

lemma flist_unique: "flist m p xs \<Longrightarrow> flist m p ys \<Longrightarrow> xs = ys"
proof (induction xs arbitrary: p ys)
  case Nil
  then show ?case by (cases ys) auto
next
  case (Cons x xs)
  then show ?case by (cases ys) auto
qed

definition refs :: "'a phys_scheme \<Rightarrow> u32 \<Rightarrow> nat" where
  "refs s v = unat (referenceCounters s (frame v))"

text \<open>After boot: the lock is in use and not held, the list holds each of its pages once, and a
  page that can be handed out is on the list exactly when its counter is zero.\<close>

definition kmem_ok :: "u32 \<Rightarrow> 'a phys_scheme \<Rightarrow> u32 list \<Rightarrow> bool" where
  "kmem_ok E s xs \<longleftrightarrow>
     use_lock s \<and> \<not> kmem_locked s \<and> flist (pmem s) (freelist s) xs \<and> distinct xs \<and>
     (\<forall>v \<in> set xs. freeable E v) \<and> (\<forall>v. freeable E v \<longrightarrow> (v \<in> set xs \<longleftrightarrow> refs s v = 0))"

lemma kmem_okD:
  assumes "kmem_ok E s xs"
  shows "use_lock s" "\<not> kmem_locked s" "flist (pmem s) (freelist s) xs" "distinct xs"
    "\<And>v. v \<in> set xs \<Longrightarrow> freeable E v" "\<And>v. freeable E v \<Longrightarrow> v \<in> set xs \<longleftrightarrow> refs s v = 0"
  using assms by (auto simp: kmem_ok_def)

lemma kmem_ok_refs_pos: "kmem_ok E s xs \<Longrightarrow> 0 < refs s v \<Longrightarrow> freeable E v \<Longrightarrow> v \<notin> set xs"
  by (auto simp: kmem_ok_def)

lemma kmem_ok_unique: "kmem_ok E s xs \<Longrightarrow> kmem_ok E s ys \<Longrightarrow> xs = ys"
  by (auto simp: kmem_ok_def intro: flist_unique)

lemma locking [simp]:
  assumes "use_lock s" "\<not> kmem_locked s"
  shows "lock_kmem s = Inr ((), s\<lparr>kmem_locked := True\<rparr>)"
  using assms by (simp add: lock_kmem_def acquire_kmem_def)

lemma unlocking [simp]:
  assumes "use_lock s" "kmem_locked s"
  shows "unlock_kmem s = Inr ((), s\<lparr>kmem_locked := False\<rparr>)"
  using assms by (simp add: unlock_kmem_def release_kmem_def)

lemma kmem_restore [simp]: "\<not> kmem_locked s \<Longrightarrow> s\<lparr>kmem_locked := False\<rparr> = s"
  by simp

section \<open>Effect of the operations\<close>

lemma kalloc_empty:
  assumes "kmem_ok E s []"
  shows "kalloc s = Inr (0, s)"
  using kmem_okD(1-3) [OF assms] by (simp add: kalloc_def)

definition took :: "u32 \<Rightarrow> 'a phys_scheme \<Rightarrow> 'a phys_scheme" where
  "took r s = s\<lparr>freelist := pmem s (V2P r) 0, system_free_pages := system_free_pages s - 1,
                referenceCounters := (referenceCounters s)(frame r := 1)\<rparr>"

lemma kalloc_Cons:
  assumes "kmem_ok E s (x # xs)"
  shows "kalloc s = Inr (x, took x s)"
  using kmem_okD(1-3) [OF assms] by (simp add: kalloc_def took_def)

lemma refs_upd:
  assumes "freeable E v" "freeable E w"
  shows "refs (s\<lparr>referenceCounters := (referenceCounters s)(frame v := c)\<rparr>) w =
    (if w = v then unat c else refs s w)"
  using frame_eq_iff [OF assms(2,1)] by (auto simp: refs_def)

lemma took_ok:
  assumes ok: "kmem_ok E s (x # xs)"
  shows "kmem_ok E (took x s) xs" "refs (took x s) x = 1"
    "\<And>w. freeable E w \<Longrightarrow> w \<noteq> x \<Longrightarrow> refs (took x s) w = refs s w"
proof -
  have fx: "freeable E x" using kmem_okD(5) [OF ok] by simp
  have r: "refs (took x s) w = (if w = x then 1 else refs s w)" if "freeable E w" for w
    using frame_eq_iff [OF that fx] by (auto simp: refs_def took_def)
  then show "refs (took x s) x = 1"
    and "\<And>w. freeable E w \<Longrightarrow> w \<noteq> x \<Longrightarrow> refs (took x s) w = refs s w"
    using fx by simp_all
  show "kmem_ok E (took x s) xs"
    unfolding kmem_ok_def
  proof (intro conjI allI impI)
    fix v assume "freeable E v"
    then show "v \<in> set xs \<longleftrightarrow> refs (took x s) v = 0"
      using kmem_okD(4,6) [OF ok] r [of v] by auto
  qed (use kmem_okD [OF ok] in \<open>auto simp: took_def\<close>)
qed

definition dropped :: "u32 \<Rightarrow> 'a phys_scheme \<Rightarrow> 'a phys_scheme" where
  "dropped v s = s\<lparr>referenceCounters := (referenceCounters s)(frame v := referenceCounters s (frame v) - 1)\<rparr>"

definition pushed :: "u32 \<Rightarrow> 'a phys_scheme \<Rightarrow> 'a phys_scheme" where
  "pushed v s = s\<lparr>pmem := (pmem s)(V2P v := (fill_page 1)(0 := freelist s)), freelist := v,
                  system_free_pages := system_free_pages s + 1\<rparr>"

lemma kfree_shared:
  assumes "kmem_ok E s xs" "freeable E v" "1 < refs s v"
  shows "kfree E v s = Inr ((), dropped v s)"
proof -
  have "referenceCounters s (frame v) \<noteq> 0" "referenceCounters s (frame v) \<noteq> 1"
    using assms(3) by (auto simp: refs_def)
  then show ?thesis
    using kmem_okD(1,2) [OF assms(1)] assms(2)
    by (auto simp: kfree_def freeable_def dropped_def word_neq_0_conv Let_def)
qed

lemma kfree_last:
  assumes "kmem_ok E s xs" "freeable E v" "refs s v = 1"
  shows "kfree E v s = Inr ((), pushed v (dropped v s))"
proof -
  have "referenceCounters s (frame v) = 1"
    using assms(3) by (simp add: refs_def word_unat_eq_iff)
  then show ?thesis
    using kmem_okD(1,2) [OF assms(1)] assms(2)
    by (auto simp: kfree_def freeable_def dropped_def pushed_def word_neq_0_conv Let_def)
qed

lemma kfree_unreferenced:
  assumes "kmem_ok E s xs" "freeable E v" "refs s v = 0"
  shows "kfree E v s = Inl (Panic ''kfree: ref is 0 and tried to kfree v'')"
proof -
  have "referenceCounters s (frame v) = 0"
    using assms(3) by (simp add: refs_def unat_eq_zero)
  then show ?thesis
    using kmem_okD(1,2) [OF assms(1)] assms(2)
    by (auto simp: kfree_def freeable_def Let_def)
qed


lemma dropped_ok:
  assumes ok: "kmem_ok E s xs" and fv: "freeable E v" and r: "1 < refs s v"
  shows "kmem_ok E (dropped v s) xs"
    "\<And>w. freeable E w \<Longrightarrow> refs (dropped v s) w = (if w = v then refs s v - 1 else refs s w)"
proof -
  have d: "unat (referenceCounters s (frame v) - 1) = refs s v - 1"
    using r unat_minus_one [of "referenceCounters s (frame v)"] 
    by (cases "referenceCounters s (frame v) = 0") (auto simp: refs_def)
  show rr: "refs (dropped v s) w = (if w = v then refs s v - 1 else refs s w)" if "freeable E w" for w
    using frame_eq_iff [OF that fv] d by (auto simp: refs_def dropped_def)
  show "kmem_ok E (dropped v s) xs"
    unfolding kmem_ok_def
  proof (intro conjI allI impI)
    fix w assume "freeable E w"
    then show "w \<in> set xs \<longleftrightarrow> refs (dropped v s) w = 0"
      using kmem_okD(6) [OF ok] rr [of w] r fv by auto
  qed (use kmem_okD [OF ok] in \<open>auto simp: dropped_def\<close>)
qed

lemma pushed_ok:
  assumes ok: "kmem_ok E s xs" and fv: "freeable E v" and r: "refs s v = 1"
  shows "kmem_ok E (pushed v (dropped v s)) (v # xs)"
    "\<And>w. freeable E w \<Longrightarrow> refs (pushed v (dropped v s)) w = (if w = v then 0 else refs s w)"
proof -
  have d: "referenceCounters s (frame v) = 1"
    using r by (simp add: refs_def word_unat_eq_iff)
  show rr: "refs (pushed v (dropped v s)) w = (if w = v then 0 else refs s w)"
    if "freeable E w" for w
    using frame_eq_iff [OF that fv] d by (auto simp: refs_def pushed_def dropped_def)
  have v: "v \<notin> set xs" using kmem_okD(6) [OF ok fv] r by simp
  show "kmem_ok E (pushed v (dropped v s)) (v # xs)"
    unfolding kmem_ok_def
  proof (intro conjI allI impI)
    fix w assume "freeable E w"
    then show "w \<in> set (v # xs) \<longleftrightarrow> refs (pushed v (dropped v s)) w = 0"
      using kmem_okD(6) [OF ok] rr [of w] by auto
  qed (use kmem_okD [OF ok] fv v freeable_nonzero [OF fv] in \<open>auto simp: dropped_def pushed_def\<close>)
qed

definition gained :: "u32 \<Rightarrow> 'a phys_scheme \<Rightarrow> 'a phys_scheme" where
  "gained v s = s\<lparr>referenceCounters := (referenceCounters s)(frame v := referenceCounters s (frame v) + 1)\<rparr>"

lemma incrementRef_shared:
  assumes "kmem_ok E s xs" "freeable E v" "KERNBASE \<le> E"
  shows "incrementRef E v s = Inr ((), gained v s)"
proof -
  have "V2P E \<le> V2P v"
    using assms(2,3) by (simp add: freeable_def V2P_mono)
  then show ?thesis
    using kmem_okD(1,2) [OF assms(1)] assms(2)
    by (auto simp: incrementRef_def gained_def freeable_def)
qed

lemma gained_ok:
  assumes ok: "kmem_ok E s xs" and fv: "freeable E v" and r: "0 < refs s v"
    and b: "refs s v + 1 < 4294967296"
  shows "kmem_ok E (gained v s) xs"
    "\<And>w. freeable E w \<Longrightarrow> refs (gained v s) w = (if w = v then refs s v + 1 else refs s w)"
proof -
  have d: "unat (referenceCounters s (frame v) + 1) = refs s v + 1"
    using b unat_add_nowrap [of "referenceCounters s (frame v)" 1] by (simp add: refs_def)
  show rr: "refs (gained v s) w = (if w = v then refs s v + 1 else refs s w)" if "freeable E w" for w
    using frame_eq_iff [OF that fv] d by (auto simp: refs_def gained_def)
  show "kmem_ok E (gained v s) xs"
    unfolding kmem_ok_def
  proof (intro conjI allI impI)
    fix w assume "freeable E w"
    then show "w \<in> set xs \<longleftrightarrow> refs (gained v s) w = 0"
      using kmem_okD(6) [OF ok] rr [of w] r fv by auto
  qed (use kmem_okD [OF ok] in \<open>auto simp: gained_def\<close>)
qed


section \<open>The interface of the allocator\<close>

text \<open>What the rest of the kernel relies on: a page handed out had no holder, a page that is held
  can be given back or shared, and nothing else changes the number of holders of a page.\<close>

locale frame_store =
  fixes ok :: "'s \<Rightarrow> bool"
    and usable :: "u32 \<Rightarrow> bool"
    and cnt :: "'s \<Rightarrow> u32 \<Rightarrow> nat"
    and alloc :: "'s \<Rightarrow> (u32 \<times> 's) res"
    and free :: "u32 \<Rightarrow> 's \<Rightarrow> (unit \<times> 's) res"
    and share :: "u32 \<Rightarrow> 's \<Rightarrow> (unit \<times> 's) res"
  assumes null_unusable: "\<not> usable 0"
    and alloc_spec: "ok s \<Longrightarrow> \<exists>p s'. alloc s = Inr (p, s') \<and> ok s' \<and>
      (if p = 0 then s' = s \<and> (\<forall>v. usable v \<longrightarrow> 0 < cnt s v)
       else usable p \<and> cnt s p = 0 \<and> (\<forall>v. usable v \<longrightarrow> cnt s' v = (if v = p then 1 else cnt s v)))"
    and free_spec: "ok s \<Longrightarrow> usable v \<Longrightarrow> 0 < cnt s v \<Longrightarrow> \<exists>s'. free v s = Inr ((), s') \<and> ok s' \<and>
      (\<forall>w. usable w \<longrightarrow> cnt s' w = (if w = v then cnt s v - 1 else cnt s w))"
    and share_spec: "ok s \<Longrightarrow> usable v \<Longrightarrow> 0 < cnt s v \<Longrightarrow> cnt s v + 1 < 4294967296 \<Longrightarrow>
      \<exists>s'. share v s = Inr ((), s') \<and> ok s' \<and>
      (\<forall>w. usable w \<longrightarrow> cnt s' w = (if w = v then cnt s v + 1 else cnt s w))"

text \<open>A client of the allocator is a sequence of requests. It keeps the list of the references it
  owns and only gives back or shares what it owns.\<close>

datatype frame_op = FAlloc | FFree u32 | FShare u32

fun run_frames :: "('s \<Rightarrow> (u32 \<times> 's) res) \<Rightarrow> (u32 \<Rightarrow> 's \<Rightarrow> (unit \<times> 's) res) \<Rightarrow>
    (u32 \<Rightarrow> 's \<Rightarrow> (unit \<times> 's) res) \<Rightarrow> frame_op list \<Rightarrow> u32 list \<Rightarrow> 's \<Rightarrow> (u32 list \<times> 's) res" where
  "run_frames alloc free share [] hs s = Inr (hs, s)"
| "run_frames alloc free share (FAlloc # ops) hs s =
     bindr (alloc s) (\<lambda>(p, s). run_frames alloc free share ops (if p = 0 then hs else p # hs) s)"
| "run_frames alloc free share (FFree v # ops) hs s =
     (if v \<in> set hs
      then bindr (free v s) (\<lambda>(_, s). run_frames alloc free share ops (remove1 v hs) s)
      else run_frames alloc free share ops hs s)"
| "run_frames alloc free share (FShare v # ops) hs s =
     (if v \<in> set hs
      then bindr (share v s) (\<lambda>(_, s). run_frames alloc free share ops (v # hs) s)
      else run_frames alloc free share ops hs s)"

text \<open>The books balance: every counter is the number of references owned by this client plus the
  number \<open>b v\<close> owned by everybody else.\<close>

definition ledger :: "(u32 \<Rightarrow> bool) \<Rightarrow> ('s \<Rightarrow> u32 \<Rightarrow> nat) \<Rightarrow> (u32 \<Rightarrow> nat) \<Rightarrow> u32 list \<Rightarrow> 's \<Rightarrow> bool" where
  "ledger usable cnt b hs s \<longleftrightarrow>
     (\<forall>v \<in> set hs. usable v) \<and> (\<forall>v. usable v \<longrightarrow> cnt s v = b v + count_list hs v)"

lemma count_list_remove1: "count_list (remove1 v hs) w = (if w = v then count_list hs v - 1 else count_list hs w)"
  by (induction hs) auto

lemma count_list_pos: "v \<in> set hs \<longleftrightarrow> 0 < count_list hs v"
  by (induction hs) auto

lemma count_list_le_length: "count_list hs v \<le> length hs"
  by (induction hs) auto

context frame_store
begin

lemma run_frames_balanced:
  assumes "ok s" "ledger usable cnt b hs s" "\<forall>v. b v + length hs + length ops < 4294967296"
  shows "\<exists>hs' s'. run_frames alloc free share ops hs s = Inr (hs', s') \<and> ok s' \<and> ledger usable cnt b hs' s'"
  using assms
proof (induction ops arbitrary: hs s)
  case Nil
  then show ?case by simp
next
  case (Cons op ops)
  note L = Cons.prems(2) [unfolded ledger_def]
  have bound: "b v + length hs + length ops < 4294967295" for v
    using Cons.prems(3) by simp
  show ?case
  proof (cases op)
    case FAlloc
    from alloc_spec [OF Cons.prems(1)] obtain p s' where a: "alloc s = Inr (p, s')" "ok s'"
      and p: "if p = 0 then s' = s \<and> (\<forall>v. usable v \<longrightarrow> 0 < cnt s v)
       else usable p \<and> cnt s p = 0 \<and> (\<forall>v. usable v \<longrightarrow> cnt s' v = (if v = p then 1 else cnt s v))"
      by blast
    have "ledger usable cnt b (if p = 0 then hs else p # hs) s'"
      using p L by (auto simp: ledger_def split: if_splits)
    moreover have "\<forall>v. b v + length (if p = 0 then hs else p # hs) + length ops < 4294967296"
      using bound by (auto intro: less_trans)
    ultimately show ?thesis
      using Cons.IH [OF a(2)] FAlloc a(1) by auto
  next
    case (FFree v)
    show ?thesis
    proof (cases "v \<in> set hs")
      case True
      then have v: "usable v" "0 < cnt s v" using L by (auto simp: count_list_pos)
      from free_spec [OF Cons.prems(1) v] obtain s' where f: "free v s = Inr ((), s')" "ok s'"
        and c: "\<forall>w. usable w \<longrightarrow> cnt s' w = (if w = v then cnt s v - 1 else cnt s w)" by blast
      have "ledger usable cnt b (remove1 v hs) s'"
        using c L True v(1) by (auto simp: ledger_def count_list_remove1 count_list_pos dest: notin_set_remove1 [rotated])
      moreover have "\<forall>v'. b v' + length (remove1 v hs) + length ops < 4294967296"
      proof
        fix v'
        show "b v' + length (remove1 v hs) + length ops < 4294967296"
          using bound [of v'] length_remove1 [of v hs] by (simp split: if_splits)
      qed
      ultimately show ?thesis using Cons.IH [OF f(2)] FFree True f(1) by auto
    next
      case False
      moreover have "\<forall>v. b v + length hs + length ops < 4294967296"
        using bound by (auto intro: less_trans)
      ultimately show ?thesis using Cons.IH [OF Cons.prems(1,2)] FFree by auto
    qed
  next
    case (FShare v)
    show ?thesis
    proof (cases "v \<in> set hs")
      case True
      have "cnt s v + 1 < 4294967296"
        using L True Cons.prems(3) [rule_format, of v] count_list_le_length [of hs v] by auto
      then have v: "usable v" "0 < cnt s v" "cnt s v + 1 < 4294967296"
        using L True by (auto simp: count_list_pos)
      from share_spec [OF Cons.prems(1) v] obtain s' where f: "share v s = Inr ((), s')" "ok s'"
        and c: "\<forall>w. usable w \<longrightarrow> cnt s' w = (if w = v then cnt s v + 1 else cnt s w)" by blast
      have "ledger usable cnt b (v # hs) s'"
        using c L v(1) by (auto simp: ledger_def)
      then show ?thesis using Cons.IH [OF f(2)] Cons.prems(3) FShare True f(1) by auto
    next
      case False
      moreover have "\<forall>v. b v + length hs + length ops < 4294967296"
        using bound by (auto intro: less_trans)
      ultimately show ?thesis using Cons.IH [OF Cons.prems(1,2)] FShare by auto
    qed
  qed
qed

end

text \<open>\<open>kalloc\<close>, \<open>kfree\<close> and \<open>incrementRef\<close> provide this interface, for every place \<open>e\<close> in the direct
  map where the kernel image ends.\<close>

definition kmem_inv :: "u32 \<Rightarrow> 'a phys_scheme \<Rightarrow> bool" where
  "kmem_inv E s \<longleftrightarrow> (\<exists>xs. kmem_ok E s xs)"

definition kend :: "u32 \<Rightarrow> u32" where
  "kend e = (if KERNBASE \<le> e then e else KERNBASE)"

lemma kend_ge: "KERNBASE \<le> kend e"
  by (simp add: kend_def)

interpretation kframes: frame_store "kmem_inv (kend e)" "freeable (kend e)" refs kalloc "kfree (kend e)"
    "incrementRef (kend e)"
proof
  show "\<not> freeable (kend e) 0" by (auto dest: freeable_nonzero)
next
  fix s :: "'a phys_scheme"
  assume "kmem_inv (kend e) s"
  then obtain xs where xs: "kmem_ok (kend e) s xs" by (auto simp: kmem_inv_def)
  show "\<exists>p s'. kalloc s = Inr (p, s') \<and> kmem_inv (kend e) s' \<and>
      (if p = 0 then s' = s \<and> (\<forall>v. freeable (kend e) v \<longrightarrow> 0 < refs s v)
       else freeable (kend e) p \<and> refs s p = 0 \<and>
         (\<forall>v. freeable (kend e) v \<longrightarrow> refs s' v = (if v = p then 1 else refs s v)))"
  proof (cases xs)
    case Nil
    then show ?thesis
      using xs kalloc_empty [of _ s] kmem_okD(6) [OF xs] by (auto simp: kmem_inv_def)
  next
    case (Cons x ys)
    then have ok: "kmem_ok (kend e) s (x # ys)" and x: "freeable (kend e) x"
      using xs kmem_okD(5) [OF xs] by auto
    then show ?thesis
      using kalloc_Cons [OF ok] took_ok [OF ok] freeable_nonzero [OF x] kmem_okD(6) [OF ok x]
      by (auto simp: kmem_inv_def)
  qed
next
  fix s :: "'a phys_scheme" and v
  assume "kmem_inv (kend e) s" and v: "freeable (kend e) v" "0 < refs s v"
  then obtain xs where xs: "kmem_ok (kend e) s xs" by (auto simp: kmem_inv_def)
  show "\<exists>s'. kfree (kend e) v s = Inr ((), s') \<and> kmem_inv (kend e) s' \<and>
      (\<forall>w. freeable (kend e) w \<longrightarrow> refs s' w = (if w = v then refs s v - 1 else refs s w))"
  proof (cases "refs s v = 1")
    case True
    then show ?thesis
      using kfree_last [OF xs v(1) True] pushed_ok [OF xs v(1) True] by (auto simp: kmem_inv_def)
  next
    case False
    then have "1 < refs s v" using v(2) by simp
    then show ?thesis
      using kfree_shared [OF xs v(1)] dropped_ok [OF xs v(1)] by (auto simp: kmem_inv_def)
  qed
next
  fix s :: "'a phys_scheme" and v
  assume "kmem_inv (kend e) s" and v: "freeable (kend e) v" "0 < refs s v" "refs s v + 1 < 4294967296"
  then obtain xs where xs: "kmem_ok (kend e) s xs" by (auto simp: kmem_inv_def)
  show "\<exists>s'. incrementRef (kend e) v s = Inr ((), s') \<and> kmem_inv (kend e) s' \<and>
      (\<forall>w. freeable (kend e) w \<longrightarrow> refs s' w = (if w = v then refs s v + 1 else refs s w))"
    using incrementRef_shared [OF xs v(1) kend_ge] gained_ok [OF xs v] by (auto simp: kmem_inv_def)
qed


section \<open>Boot\<close>

text \<open>While the allocator is being filled (\<open>use_lock\<close> is off): the list is well formed and none of
  its pages has a holder.\<close>

definition boot_ok :: "u32 \<Rightarrow> 'a phys_scheme \<Rightarrow> u32 list \<Rightarrow> bool" where
  "boot_ok E s xs \<longleftrightarrow>
     \<not> use_lock s \<and> flist (pmem s) (freelist s) xs \<and> distinct xs \<and>
     (\<forall>v \<in> set xs. freeable E v \<and> refs s v = 0)"

lemma kfree_boot:
  assumes "boot_ok E s xs" "freeable E v" "refs s v = 0" "v \<notin> set xs"
  shows "kfree E v s = Inr ((), pushed v s)" "boot_ok E (pushed v s) (v # xs)"
proof -
  have "referenceCounters s (frame v) = 0"
    using assms(3) by (simp add: refs_def unat_eq_zero)
  then show "kfree E v s = Inr ((), pushed v s)"
    using assms(1,2) by (auto simp: kfree_def freeable_def boot_ok_def lock_kmem_def unlock_kmem_def
      pushed_def Let_def)
  show "boot_ok E (pushed v s) (v # xs)"
    using assms freeable_nonzero [OF assms(2)] by (auto simp: boot_ok_def pushed_def refs_def)
qed

definition pages_from :: "u32 \<Rightarrow> nat \<Rightarrow> u32 list" where
  "pages_from p n = map (\<lambda>i. p + word_of_nat (4096 * i)) [0..<n]"

lemma pages_from_Suc: "pages_from p (Suc n) = p # pages_from (p + PGSIZE) n"
proof -
  have "[0..<Suc n] = 0 # map Suc [0..<n]" by (simp add: map_Suc_upt upt_conv_Cons)
  then show ?thesis by (simp add: pages_from_def algebra_simps del: upt_Suc)
qed

lemma pages_from_0 [simp]: "pages_from p 0 = []"
  by (simp add: pages_from_def)

lemma length_pages_from [simp]: "length (pages_from p n) = n"
  by (simp add: pages_from_def)

lemma freerange_fills:
  assumes "boot_ok E s xs" "distinct (pages_from p n)" "set (pages_from p n) \<inter> set xs = {}"
    and "\<forall>v \<in> set (pages_from p n). freeable E v \<and> refs s v = 0"
    and "unat vend = unat p + 4096 * n + k" "k < 4096" "unat vend < 4294963200"
  shows "\<exists>s'. freerange_from E p vend s = Inr ((), s') \<and> boot_ok E s' (rev (pages_from p n) @ xs) \<and>
    referenceCounters s' = referenceCounters s \<and> total_system_pages s' = total_system_pages s \<and>
    kmem_locked s' = kmem_locked s"
  using assms
proof (induction n arbitrary: p s xs)
  case 0
  have "unat (p + PGSIZE) = unat p + 4096"
    using "0.prems"(5,7) unat_add_nowrap [of p PGSIZE] by simp
  then have "\<not> p + PGSIZE \<le> vend"
    using "0.prems"(5,6) by (simp add: word_le_nat_alt)
  then show ?case using "0.prems"(1) by (simp add: freerange_from.simps)
next
  case (Suc n)
  have st: "freeable E p" "refs s p = 0" "p \<notin> set xs" "p \<notin> set (pages_from (p + PGSIZE) n)"
    using Suc.prems(2-4) by (auto simp: pages_from_Suc)
  note push = kfree_boot [OF Suc.prems(1) st(1-3)]
  have up: "unat (p + PGSIZE) = unat p + 4096"
    using Suc.prems(5,7) unat_add_nowrap [of p PGSIZE] by simp
  then have le: "p + PGSIZE \<le> vend"
    using Suc.prems(5) by (simp add: word_le_nat_alt)
  have "refs (pushed p s) v = refs s v" for v by (simp add: refs_def pushed_def)
  then obtain s' where s': "freerange_from E (p + PGSIZE) vend (pushed p s) = Inr ((), s')"
    "boot_ok E s' (rev (pages_from (p + PGSIZE) n) @ p # xs)"
    "referenceCounters s' = referenceCounters (pushed p s)"
    "total_system_pages s' = total_system_pages (pushed p s)"
    "kmem_locked s' = kmem_locked (pushed p s)"
    using Suc.IH [OF push(2), of "p + PGSIZE"] Suc.prems(2-7) st(4) up by (auto simp: pages_from_Suc)
  then show ?case
    using push(1) le by (simp add: freerange_from.simps [of E p] pages_from_Suc pushed_def)
qed

text \<open>\<open>kinit2\<close>, called with page-aligned bounds as \<open>main\<close> does, adds every page of the range to the
  list and establishes the invariant.\<close>

lemma kinit2_result:
  assumes boot: "boot_ok E s xs" "\<not> kmem_locked s"
    and al: "unat vstart mod 4096 = 0" "unat vend mod 4096 = 0"
    and rng: "unat vend = unat vstart + 4096 * n" "unat vend < 4294963200"
    and fresh: "distinct (pages_from vstart n)" "set (pages_from vstart n) \<inter> set xs = {}"
      "\<forall>v \<in> set (pages_from vstart n). freeable E v \<and> refs s v = 0"
    and all: "\<forall>v. freeable E v \<and> refs s v = 0 \<longrightarrow> v \<in> set xs \<or> v \<in> set (pages_from vstart n)"
  shows "\<exists>s'. kinit2 E vstart vend s = Inr ((), s') \<and>
    kmem_ok E s' (rev (pages_from vstart n) @ xs) \<and>
    system_free_pages s' = total_system_pages s + word_of_nat n"
proof -
  have up: "PGROUNDUP vstart = vstart" using al(1) by (rule PGROUNDUP_aligned)
  have down: "PGROUNDDOWN vend = vend" using al(2) by (rule PGROUNDDOWN_aligned)
  have "vstart \<le> vend" using rng by (simp add: word_le_nat_alt)
  then have "unat ((vend - vstart) div PGSIZE) = n"
    using rng by (simp add: unat_div unat_sub)
  then have cnt: "(vend - vstart) div PGSIZE = word_of_nat n" by (rule unat_eq_imp)
  from freerange_fills [OF boot(1) fresh, of vend 0] rng obtain s' where
    s': "freerange_from E vstart vend s = Inr ((), s')" "boot_ok E s' (rev (pages_from vstart n) @ xs)"
    "referenceCounters s' = referenceCounters s" "total_system_pages s' = total_system_pages s"
    "kmem_locked s' = kmem_locked s"
    by auto
  let ?t = "s'\<lparr>total_system_pages := total_system_pages s + word_of_nat n, use_lock := True,
    system_free_pages := total_system_pages s + word_of_nat n\<rparr>"
  have "kinit2 E vstart vend s = Inr ((), ?t)"
    using s'(1,4) by (simp add: kinit2_def freerange_def up down cnt Let_def)
  moreover have "refs ?t v = refs s v" for v using s'(3) by (simp add: refs_def)
  then have "kmem_ok E ?t (rev (pages_from vstart n) @ xs)"
    using s'(2,5) boot all fresh(3) by (simp add: kmem_ok_def boot_ok_def) blast
  ultimately show ?thesis by auto
qed

section \<open>A small machine\<close>

text \<open>A machine whose kernel image ends sixteen pages below \<open>PHYSTOP\<close>, with all sixteen pages free,
  on which the hypotheses of the theorems can be checked.\<close>

abbreviation (input) demo_end :: u32 where "demo_end \<equiv> 2382299136"   \<comment> \<open>0x8DFF0000\<close>

definition demo_pages :: "u32 list" where
  "demo_pages = [0x8DFF0000, 0x8DFF1000, 0x8DFF2000, 0x8DFF3000, 0x8DFF4000, 0x8DFF5000, 0x8DFF6000, 0x8DFF7000,
    0x8DFF8000, 0x8DFF9000, 0x8DFFA000, 0x8DFFB000, 0x8DFFC000, 0x8DFFD000, 0x8DFFE000, 0x8DFFF000]"

definition demo_mem :: "u32 \<Rightarrow> nat \<Rightarrow> u32" where
  "demo_mem pa i = (if i = 0 \<and> 0xDFF0000 \<le> pa \<and> pa < 0xDFFF000 then P2V (pa + PGSIZE) else 0)"

definition demo_phys :: phys where
  "demo_phys = \<lparr>pmem = demo_mem, freelist = 0x8DFF0000, use_lock = True, kmem_locked = False,
     referenceCounters = (\<lambda>_. 0), total_system_pages = 16, system_free_pages = 16\<rparr>"

lemma demo_freeable: "freeable demo_end v \<longleftrightarrow> v \<in> set demo_pages"
proof
  assume f: "freeable demo_end v"
  then obtain k where k: "unat v = 4096 * k" using freeable_aligned by (metis dvd_def mod_0_imp_dvd)
  have lo: "2382299136 \<le> unat v" using f by (simp add: freeable_def word_le_nat_alt)
  have "unat (V2P v) < 234881024" using f by (simp add: freeable_def word_less_nat_alt)
  moreover have "unat (V2P v) = unat v - 2147483648"
    unfolding V2P_def using lo by (subst unat_sub) (simp_all add: word_le_nat_alt)
  ultimately have k': "k = 581616 + (k - 581616)" "k - 581616 < 16" using lo k by auto
  have "v = word_of_nat (4096 * k)" using k by (rule unat_eq_imp)
  then have v: "v = word_of_nat (4096 * (581616 + (k - 581616)))" using k'(1) by metis
  have m: "demo_pages = map (\<lambda>j. word_of_nat (4096 * (581616 + j))) [0..<16]"
    by (simp add: demo_pages_def upt_rec)
  show "v \<in> set demo_pages" unfolding m set_map using v by (rule image_eqI) (use k'(2) in simp)
next
  assume "v \<in> set demo_pages"
  then show "freeable demo_end v" by (auto simp: demo_pages_def freeable_def V2P_def)
qed

lemma demo_ok: "kmem_ok demo_end demo_phys demo_pages"
proof -
  have "flist demo_mem 0x8DFF0000 demo_pages"
    by (simp add: demo_pages_def demo_mem_def V2P_def P2V_def)
  moreover have "distinct demo_pages" by (simp add: demo_pages_def)
  ultimately show ?thesis
    by (simp add: kmem_ok_def demo_freeable demo_phys_def refs_def)
qed

section \<open>Correctness of the allocator\<close>

text \<open>Property C1 (safety of the allocator for its clients). Whatever sequence of \<open>kalloc\<close>, \<open>kfree\<close> and
  \<open>incrementRef\<close> calls a client makes, as long as it frees and shares only pages it holds a reference
  to, no call panics, the allocator invariant holds afterwards, and every reference counter is the
  number of references held by the client plus those held by others: no page is handed out while
  somebody holds it and no page is lost.\<close>

theorem kalloc_client_safe:
  assumes "kmem_inv (kend e) s" "ledger (freeable (kend e)) refs b hs s"
    and "\<forall>v. b v + length hs + length ops < 4294967296"
  shows "\<exists>hs' s'. run_frames kalloc (kfree (kend e)) (incrementRef (kend e)) ops hs s = Inr (hs', s') \<and>
    kmem_inv (kend e) s' \<and> ledger (freeable (kend e)) refs b hs' s'"
  using assms by (rule kframes.run_frames_balanced)

lemma kalloc_client_safe_witness:
  "\<exists>hs' s'. run_frames kalloc (kfree (kend demo_end)) (incrementRef (kend demo_end))
      [FAlloc, FShare 0x8DFF0000, FFree 0x8DFF0000] [] demo_phys = Inr (hs', s') \<and>
    kmem_inv (kend demo_end) s' \<and> ledger (freeable (kend demo_end)) refs (\<lambda>_. 0) hs' s'"
proof (rule kalloc_client_safe)
  have e: "kend demo_end = demo_end" by (simp add: kend_def)
  show "kmem_inv (kend demo_end) demo_phys" using demo_ok by (auto simp: kmem_inv_def e)
  show "ledger (freeable (kend demo_end)) refs (\<lambda>_. 0) [] demo_phys"
    by (simp add: ledger_def refs_def demo_phys_def)
qed simp

text \<open>Property C28 (\<open>kfree\<close> on every branch). On a sound allocator \<open>kfree\<close> panics on an address that is not
  a page of free-able memory and on a page nobody holds; it drops one reference of a shared page
  and leaves the free list alone; and it puts a page whose last reference goes on the front of the
  list, filled with ones.\<close>

theorem kfree_cases:
  assumes "kmem_ok E s xs"
  shows "if \<not> freeable E v then kfree E v s = Inl (Panic ''kfree'')
     else if refs s v = 0 then kfree E v s = Inl (Panic ''kfree: ref is 0 and tried to kfree v'')
     else if refs s v = 1 then kfree E v s = Inr ((), pushed v (dropped v s)) \<and>
       kmem_ok E (pushed v (dropped v s)) (v # xs)
     else kfree E v s = Inr ((), dropped v s) \<and> kmem_ok E (dropped v s) xs"
  using kfree_unreferenced [OF assms] kfree_last [OF assms] kfree_shared [OF assms] not_freeable
    pushed_ok(1) [OF assms] dropped_ok(1) [OF assms]
  by auto

lemma kfree_cases_witness:
  "kfree demo_end 0x8DFF0000 demo_phys = Inl (Panic ''kfree: ref is 0 and tried to kfree v'')"
  using kfree_cases [OF demo_ok, where v = "0x8DFF0000"] by (simp add: demo_freeable demo_pages_def refs_def demo_phys_def)

text \<open>Property C29 (the second phase of boot). \<open>kinit2\<close> on a page-aligned range of unheld pages terminates,
  puts all of them on the free list and establishes the allocator invariant. The free-page count
  it publishes is the total number of pages ever managed: it exceeds the length of the free list by
  exactly the \<open>k\<close> pages that were taken between the two phases.\<close>

theorem kinit2_establishes:
  assumes "boot_ok E s xs" "\<not> kmem_locked s" "unat vstart mod 4096 = 0" "unat vend mod 4096 = 0"
    and "unat vend = unat vstart + 4096 * n" "unat vend < 4294963200"
    and "distinct (pages_from vstart n)" "set (pages_from vstart n) \<inter> set xs = {}"
    and "\<forall>v \<in> set (pages_from vstart n). freeable E v \<and> refs s v = 0"
    and "\<forall>v. freeable E v \<and> refs s v = 0 \<longrightarrow> v \<in> set xs \<or> v \<in> set (pages_from vstart n)"
    and total: "unat (total_system_pages s) = length xs + k" "length xs + k + n < 4294967296"
  shows "\<exists>s' ys. kinit2 E vstart vend s = Inr ((), s') \<and> kmem_ok E s' ys \<and>
    set ys = set xs \<union> set (pages_from vstart n) \<and> unat (system_free_pages s') = length ys + k"
proof -
  obtain s' where s': "kinit2 E vstart vend s = Inr ((), s')"
    "kmem_ok E s' (rev (pages_from vstart n) @ xs)"
    "system_free_pages s' = total_system_pages s + word_of_nat n"
    using kinit2_result [OF assms(1-10)] by blast
  have n: "unat (word_of_nat n :: u32) = n"
    using total(2) by (simp add: unat_of_nat take_bit_nat_eq_self)
  have "unat (total_system_pages s + word_of_nat n) = length xs + k + n"
    using total n unat_add_nowrap [of "total_system_pages s" "word_of_nat n"] by simp
  then show ?thesis using s' by (intro exI [of _ s'] exI [of _ "rev (pages_from vstart n) @ xs"]) auto
qed

text \<open>One page was taken after \<open>kinit1\<close>: fifteen pages are free and sixteen are reported.\<close>

definition boot_phys :: phys where
  "boot_phys = \<lparr>pmem = (\<lambda>_ _. 0), freelist = 0, use_lock = False, kmem_locked = False,
     referenceCounters = (\<lambda>f. if f = 57328 then 1 else 0), total_system_pages = 1, system_free_pages = 0\<rparr>"

lemma kinit2_establishes_witness:
  "\<exists>s' ys. kinit2 demo_end 0x8DFF1000 0x8E000000 boot_phys = Inr ((), s') \<and> kmem_ok demo_end s' ys \<and>
    set ys = set [] \<union> set (pages_from 0x8DFF1000 15) \<and> unat (system_free_pages s') = length ys + 1"
proof (rule kinit2_establishes)
  have p: "pages_from 0x8DFF1000 15 = tl demo_pages"
    by (simp add: pages_from_def demo_pages_def upt_rec)
  have r: "refs boot_phys v = (if v = 0x8DFF0000 then 1 else 0)" if "v \<in> set demo_pages" for v
    using that by (auto simp: demo_pages_def refs_def boot_phys_def frame_def V2P_def)
  have t: "set (tl demo_pages) = set demo_pages - {0x8DFF0000}" by (simp add: demo_pages_def insert_Diff_if)
  show "boot_ok demo_end boot_phys []" by (simp add: boot_ok_def boot_phys_def)
  show "distinct (pages_from 0x8DFF1000 15)" unfolding p by (simp add: demo_pages_def)
  show "\<forall>v \<in> set (pages_from 0x8DFF1000 15). freeable demo_end v \<and> refs boot_phys v = 0"
    unfolding p demo_freeable t using r by auto
  show "\<forall>v. freeable demo_end v \<and> refs boot_phys v = 0 \<longrightarrow>
      v \<in> set [] \<or> v \<in> set (pages_from 0x8DFF1000 15)"
    unfolding p demo_freeable t using r by auto
qed (simp_all add: boot_phys_def)

end
