(* ===== verification/Blocks.thy ===== *)
theory Blocks
  imports Kalloc
begin

text \<open>
  Disk blocks as the file system sees them, and the transactions of \<open>log.c\<close> around them. A block is
  512 bytes; \<open>blocks\<close> gives the contents that \<open>bread\<close> returns, that is the buffer cache over the log
  over the disk. The on-disk structures (\<open>struct superblock\<close>, \<open>struct dinode\<close>, \<open>struct dirent\<close>) are
  little-endian byte sequences inside blocks, read and written through \<open>rd16\<close>, \<open>rd32\<close>, \<open>wr16\<close>, \<open>wr32\<close>.

  \<open>begin_op\<close>, \<open>log_write\<close> and \<open>end_op\<close> keep the bookkeeping of the current transaction with the guards
  and panics of the code. The lemmas are the round trips of the encodings and the effect of the
  operations.
\<close>

unbundle bit_operations_syntax

section \<open>Bytes and little-endian integers\<close>

type_synonym block = "nat \<Rightarrow> u8"

abbreviation (input) BSIZE :: nat where "BSIZE \<equiv> 512"

definition rd16 :: "block \<Rightarrow> nat \<Rightarrow> u16" where
  "rd16 b o0 = ucast (b o0) OR push_bit 8 (ucast (b (o0 + 1)))"

definition rd32 :: "block \<Rightarrow> nat \<Rightarrow> u32" where
  "rd32 b o0 = ucast (b o0) OR push_bit 8 (ucast (b (o0 + 1))) OR push_bit 16 (ucast (b (o0 + 2))) OR
     push_bit 24 (ucast (b (o0 + 3)))"

definition wr16 :: "nat \<Rightarrow> u16 \<Rightarrow> block \<Rightarrow> block" where
  "wr16 o0 v b = b(o0 := ucast v, o0 + 1 := ucast (drop_bit 8 v))"

definition wr32 :: "nat \<Rightarrow> u32 \<Rightarrow> block \<Rightarrow> block" where
  "wr32 o0 v b = b(o0 := ucast v, o0 + 1 := ucast (drop_bit 8 v), o0 + 2 := ucast (drop_bit 16 v),
     o0 + 3 := ucast (drop_bit 24 v))"

definition put_at :: "nat \<Rightarrow> u8 list \<Rightarrow> block \<Rightarrow> block" where
  "put_at o0 bs b = (\<lambda>i. if o0 \<le> i \<and> i < o0 + length bs then bs ! (i - o0) else b i)"

definition get_at :: "nat \<Rightarrow> nat \<Rightarrow> block \<Rightarrow> u8 list" where
  "get_at o0 n b = map (\<lambda>i. b (o0 + i)) [0..<n]"

lemma rd16_wr16_same: "rd16 (wr16 o0 v b) o0 = v"
proof (rule bit_word_eqI)
  fix n assume "n < LENGTH(16)"
  then show "bit (rd16 (wr16 o0 v b) o0) n \<longleftrightarrow> bit v n"
    by (auto simp: rd16_def wr16_def bit_simps)
qed

lemma bit_bytes4:
  fixes b0 b1 b2 b3 :: u8
  assumes "n < 8"
  shows "bit (ucast b0 OR push_bit 8 (ucast b1) OR push_bit 16 (ucast b2) OR push_bit 24 (ucast b3) :: u32) n = bit b0 n"
    "bit (ucast b0 OR push_bit 8 (ucast b1) OR push_bit 16 (ucast b2) OR push_bit 24 (ucast b3) :: u32) (8 + n) = bit b1 n"
    "bit (ucast b0 OR push_bit 8 (ucast b1) OR push_bit 16 (ucast b2) OR push_bit 24 (ucast b3) :: u32) (16 + n) = bit b2 n"
    "bit (ucast b0 OR push_bit 8 (ucast b1) OR push_bit 16 (ucast b2) OR push_bit 24 (ucast b3) :: u32) (24 + n) = bit b3 n"
proof -
  have far: "\<not> bit (b :: u8) (8 + m)" for b m by (auto dest: bit_imp_le_length)
  show "bit (ucast b0 OR push_bit 8 (ucast b1) OR push_bit 16 (ucast b2) OR push_bit 24 (ucast b3) :: u32) n = bit b0 n"
    using assms by (simp add: bit_or_iff bit_push_bit_iff bit_unsigned_iff)
  show "bit (ucast b0 OR push_bit 8 (ucast b1) OR push_bit 16 (ucast b2) OR push_bit 24 (ucast b3) :: u32) (8 + n) = bit b1 n"
    using assms far [of b0 n] by (simp add: bit_or_iff bit_push_bit_iff bit_unsigned_iff)
  show "bit (ucast b0 OR push_bit 8 (ucast b1) OR push_bit 16 (ucast b2) OR push_bit 24 (ucast b3) :: u32) (16 + n) = bit b2 n"
    using assms far [of b0 "8 + n"] far [of b1 n] by (simp add: bit_or_iff bit_push_bit_iff bit_unsigned_iff)
  show "bit (ucast b0 OR push_bit 8 (ucast b1) OR push_bit 16 (ucast b2) OR push_bit 24 (ucast b3) :: u32) (24 + n) = bit b3 n"
    using assms far [of b0 "16 + n"] far [of b1 "8 + n"] far [of b2 n]
    by (simp add: bit_or_iff bit_push_bit_iff bit_unsigned_iff)
qed

lemma byte_of_bit:
  fixes n :: nat
  assumes "n < 32"
  obtains k where "k < 8" "n = k \<or> n = 8 + k \<or> n = 16 + k \<or> n = 24 + k"
proof -
  have "n = 8 * (n div 8) + n mod 8" by simp
  moreover have "n div 8 < 4" using assms by (simp add: div_less_iff_less_mult)
  moreover have "q = 0 \<or> q = 1 \<or> q = 2 \<or> q = 3" if "q < 4" for q :: nat using that by linarith
  ultimately have "n = n mod 8 \<or> n = 8 + n mod 8 \<or> n = 16 + n mod 8 \<or> n = 24 + n mod 8" by fastforce
  then show ?thesis using that [of "n mod 8"] by simp
qed

lemma rd32_wr32_same: "rd32 (wr32 o0 v b) o0 = v"
proof (rule bit_word_eqI)
  fix n assume "n < LENGTH(32)"
  then obtain k where k: "k < 8" "n = k \<or> n = 8 + k \<or> n = 16 + k \<or> n = 24 + k" using byte_of_bit [of n] by auto
  show "bit (rd32 (wr32 o0 v b) o0) n \<longleftrightarrow> bit v n"
    using k(2) bit_bytes4 [OF k(1)] k(1)
    by (elim disjE) (simp_all add: rd32_def wr32_def bit_unsigned_iff bit_drop_bit_eq)
qed

lemma wr_other [simp]:
  "i < o0 \<or> o0 + 2 \<le> i \<Longrightarrow> wr16 o0 v b i = b i"
  "i < o0 \<or> o0 + 4 \<le> i \<Longrightarrow> wr32 o0 w b i = b i"
  by (auto simp: wr16_def wr32_def)

lemma rd_cong:
  "b o0 = c o0 \<Longrightarrow> b (o0 + 1) = c (o0 + 1) \<Longrightarrow> rd16 b o0 = rd16 c o0"
  "b o0 = c o0 \<Longrightarrow> b (o0 + 1) = c (o0 + 1) \<Longrightarrow> b (o0 + 2) = c (o0 + 2) \<Longrightarrow> b (o0 + 3) = c (o0 + 3) \<Longrightarrow>
    rd32 b o0 = rd32 c o0"
  by (simp_all add: rd16_def rd32_def)

lemma rd_wr_other [simp]:
  "k + 2 \<le> o0 \<or> o0 + 2 \<le> k \<Longrightarrow> rd16 (wr16 o0 v b) k = rd16 b k"
  "k + 4 \<le> o0 \<or> o0 + 2 \<le> k \<Longrightarrow> rd32 (wr16 o0 v b) k = rd32 b k"
  "k + 2 \<le> o0 \<or> o0 + 4 \<le> k \<Longrightarrow> rd16 (wr32 o0 w b) k = rd16 b k"
  "k + 4 \<le> o0 \<or> o0 + 4 \<le> k \<Longrightarrow> rd32 (wr32 o0 w b) k = rd32 b k"
  by (auto intro!: rd_cong)

lemma length_get_at [simp]: "length (get_at o0 n b) = n"
  by (simp add: get_at_def)

lemma nth_get_at [simp]: "i < n \<Longrightarrow> get_at o0 n b ! i = b (o0 + i)"
  by (simp add: get_at_def)

lemma put_at_in: "o0 \<le> i \<Longrightarrow> i < o0 + length bs \<Longrightarrow> put_at o0 bs b i = bs ! (i - o0)"
  by (simp add: put_at_def)

lemma put_at_out: "i < o0 \<or> o0 + length bs \<le> i \<Longrightarrow> put_at o0 bs b i = b i"
  by (auto simp: put_at_def)

section \<open>The state of the block layer\<close>

record superblock =
  sb_size :: u32
  nblocks :: u32
  ninodes :: u32
  nlog :: u32
  logstart :: u32
  inodestart :: u32
  bmapstart :: u32

record inode =
  i_dev :: u32
  i_num :: u32
  i_ref :: int
  i_lock :: bool          \<comment> \<open>the sleep lock is held\<close>
  i_valid :: bool
  i_type :: u16
  i_major :: u16
  i_minor :: u16
  i_nlink :: u16
  i_size :: u32
  i_addrs :: "u32 list"   \<comment> \<open>\<open>NDIRECT+1\<close> entries\<close>

abbreviation (input) NDIRECT :: nat where "NDIRECT \<equiv> 12"
abbreviation (input) NINDIRECT :: nat where "NINDIRECT \<equiv> 128"
abbreviation (input) MAXFILE_BYTES :: u32 where "MAXFILE_BYTES \<equiv> 71680"   \<comment> \<open>\<open>MAXFILE*BSIZE\<close>\<close>
abbreviation (input) NINODE :: nat where "NINODE \<equiv> 50"
abbreviation (input) IPB :: u32 where "IPB \<equiv> 8"
abbreviation (input) BPB :: u32 where "BPB \<equiv> 4096"
abbreviation (input) ROOTDEV :: u32 where "ROOTDEV \<equiv> 1"
abbreviation (input) ROOTINO :: u32 where "ROOTINO \<equiv> 1"
abbreviation (input) DIRSIZ :: nat where "DIRSIZ \<equiv> 14"
abbreviation (input) T_DIR :: u16 where "T_DIR \<equiv> 1"
abbreviation (input) T_FILE :: u16 where "T_FILE \<equiv> 2"
abbreviation (input) T_DEV :: u16 where "T_DEV \<equiv> 3"
abbreviation (input) MAXOPBLOCKS :: int where "MAXOPBLOCKS \<equiv> 10"
abbreviation (input) LOGSIZE :: int where "LOGSIZE \<equiv> 30"

record fsys = phys +
  blocks :: "u32 \<times> u32 \<Rightarrow> block"       \<comment> \<open>device, block number\<close>
  sb :: superblock
  log_size :: int
  outstanding :: int
  committing :: bool
  lh_block :: "u32 list"               \<comment> \<open>\<open>log.lh\<close>: its \<open>n\<close> block numbers\<close>
  icache :: "inode list"               \<comment> \<open>\<open>NINODE\<close> entries\<close>

section \<open>Transactions\<close>

definition begin_op :: "'a fsys_scheme \<Rightarrow> (unit \<times> 'a fsys_scheme) res" where
  "begin_op s =
    (if committing s then Inl (Sleeps ''log'')
     else if int (length (lh_block s)) + (outstanding s + 1) * MAXOPBLOCKS > LOGSIZE then Inl (Sleeps ''log'')
     else Inr ((), s\<lparr>outstanding := outstanding s + 1\<rparr>))"

text \<open>When the last operation ends the transaction is committed; the contents of the blocks, as \<open>bread\<close>
  sees them, do not change.\<close>

definition end_op :: "'a fsys_scheme \<Rightarrow> (unit \<times> 'a fsys_scheme) res" where
  "end_op s =
    (let s = s\<lparr>outstanding := outstanding s - 1\<rparr> in
     if committing s then Inl (Panic ''log.committing'')
     else if outstanding s = 0 then Inr ((), s\<lparr>lh_block := []\<rparr>)
     else Inr ((), s))"

text \<open>\<open>log_write\<close> of the buffer of block \<open>b\<close> whose data has been changed to \<open>d\<close>.\<close>

definition log_write :: "u32 \<Rightarrow> u32 \<Rightarrow> block \<Rightarrow> 'a fsys_scheme \<Rightarrow> (unit \<times> 'a fsys_scheme) res" where
  "log_write dev b d s =
    (if int (length (lh_block s)) \<ge> LOGSIZE \<or> int (length (lh_block s)) \<ge> log_size s - 1
     then Inl (Panic ''too big a transaction'')
     else if outstanding s < 1 then Inl (Panic ''log_write outside of trans'')
     else Inr ((), s\<lparr>blocks := (blocks s)((dev, b) := d),
                     lh_block := (if b \<in> set (lh_block s) then lh_block s else lh_block s @ [b])\<rparr>))"

text \<open>A transaction has room for \<open>k\<close> more blocks.\<close>

definition log_room :: "nat \<Rightarrow> 'a fsys_scheme \<Rightarrow> bool" where
  "log_room k s \<longleftrightarrow> 1 \<le> outstanding s \<and> int (length (lh_block s) + k) \<le> LOGSIZE \<and>
     int (length (lh_block s) + k) \<le> log_size s - 1 \<and> \<not> committing s"

definition logged :: "u32 \<Rightarrow> u32 \<Rightarrow> block \<Rightarrow> 'a fsys_scheme \<Rightarrow> 'a fsys_scheme" where
  "logged dev b d s = s\<lparr>blocks := (blocks s)((dev, b) := d),
     lh_block := (if b \<in> set (lh_block s) then lh_block s else lh_block s @ [b])\<rparr>"

lemma log_write_room:
  assumes "log_room (Suc k) s"
  shows "log_write dev b d s = Inr ((), logged dev b d s)" "log_room k (logged dev b d s)"
    "b \<in> set (lh_block s) \<Longrightarrow> log_room (Suc k) (logged dev b d s)"
  using assms by (auto simp: log_write_def log_room_def logged_def)

lemma log_room_mono: "log_room k s \<Longrightarrow> j \<le> k \<Longrightarrow> log_room j s"
  by (simp add: log_room_def)

text \<open>Between operations the log is empty, and a new operation has the ten blocks promised to it.\<close>

lemma begin_op_idle:
  assumes "\<not> committing s" "outstanding s = 0" "lh_block s = []" "11 \<le> log_size s"
  shows "begin_op s = Inr ((), s\<lparr>outstanding := 1\<rparr>)" "log_room 10 (s\<lparr>outstanding := 1\<rparr>)"
  using assms by (simp_all add: begin_op_def log_room_def)

lemma end_op_last:
  assumes "\<not> committing s" "outstanding s = 1"
  shows "end_op s = Inr ((), s\<lparr>outstanding := 0, lh_block := []\<rparr>)"
  using assms by (simp add: end_op_def)

end
