(* ===== verification/Strings.thy ===== *)
theory Strings
  imports Prelude
begin

text \<open>
  The byte and string routines of \<open>string.c\<close>. \<open>memset\<close>, \<open>memcmp\<close> and \<open>memmove\<close> work on one byte
  memory with 32-bit addresses, so that overlapping ranges are covered. The string routines read
  their arguments through \<open>nat \<Rightarrow> u8\<close> (the bytes from the pointer onward) and return the bytes of the
  destination.

  The lemmas: the word-wise fast path of \<open>memset\<close> equals the byte-wise path; \<open>memmove\<close> copies
  correctly for every overlap; \<open>memcmp\<close> and \<open>strncmp\<close> decide equality; \<open>strncpy\<close> pads with zeros,
  \<open>safestrcpy\<close> always terminates the string inside the buffer; \<open>strlen\<close> finds the first zero byte.
\<close>

unbundle bit_operations_syntax

type_synonym mem = "u32 \<Rightarrow> u8"

section \<open>Memory routines\<close>

text \<open>The string instructions \<open>rep stosb\<close> and \<open>rep stosl\<close>.\<close>

fun stosb :: "u32 \<Rightarrow> u8 \<Rightarrow> nat \<Rightarrow> mem \<Rightarrow> mem" where
  "stosb addr c 0 m = m"
| "stosb addr c (Suc cnt) m = stosb (addr + 1) c cnt (m(addr := c))"

fun stosl :: "u32 \<Rightarrow> u32 \<Rightarrow> nat \<Rightarrow> mem \<Rightarrow> mem" where
  "stosl addr w 0 m = m"
| "stosl addr w (Suc cnt) m = stosl (addr + 4) w cnt
     (m(addr := ucast w, addr + 1 := ucast (drop_bit 8 w), addr + 2 := ucast (drop_bit 16 w),
        addr + 3 := ucast (drop_bit 24 w)))"

definition memset :: "u32 \<Rightarrow> u32 \<Rightarrow> u32 \<Rightarrow> mem \<Rightarrow> mem" where
  "memset dst c n m =
    (if dst mod 4 = 0 \<and> n mod 4 = 0 then
       let c = c AND 0xFF
       in stosl dst (push_bit 24 c OR push_bit 16 c OR push_bit 8 c OR c) (unat (n div 4)) m
     else stosb dst (ucast c) (unat n) m)"

fun memcmp :: "u32 \<Rightarrow> u32 \<Rightarrow> nat \<Rightarrow> mem \<Rightarrow> int" where
  "memcmp s1 s2 0 m = 0"
| "memcmp s1 s2 (Suc n) m =
    (if m s1 \<noteq> m s2 then uint (m s1) - uint (m s2) else memcmp (s1 + 1) (s2 + 1) n m)"

fun copy_down :: "u32 \<Rightarrow> u32 \<Rightarrow> nat \<Rightarrow> mem \<Rightarrow> mem" where
  "copy_down d s 0 m = m"
| "copy_down d s (Suc n) m = copy_down (d - 1) (s - 1) n (m(d - 1 := m (s - 1)))"

fun copy_up :: "u32 \<Rightarrow> u32 \<Rightarrow> nat \<Rightarrow> mem \<Rightarrow> mem" where
  "copy_up d s 0 m = m"
| "copy_up d s (Suc n) m = copy_up (d + 1) (s + 1) n (m(d := m s))"

definition memmove :: "u32 \<Rightarrow> u32 \<Rightarrow> u32 \<Rightarrow> mem \<Rightarrow> mem" where
  "memmove d s n m =
    (if s < d \<and> s + n > d then copy_down (d + n) (s + n) (unat n) m else copy_up d s (unat n) m)"

section \<open>String routines\<close>

type_synonym bytes = "nat \<Rightarrow> u8"

fun strncmp_at :: "bytes \<Rightarrow> bytes \<Rightarrow> nat \<Rightarrow> nat \<Rightarrow> int" where
  "strncmp_at p q i 0 = 0"
| "strncmp_at p q i (Suc n) =
    (if p i \<noteq> 0 \<and> p i = q i then strncmp_at p q (Suc i) n else uint (p i) - uint (q i))"

definition strncmp :: "bytes \<Rightarrow> bytes \<Rightarrow> nat \<Rightarrow> int" where
  "strncmp p q n = strncmp_at p q 0 n"

text \<open>The two loops of \<open>strncpy\<close>: copy up to and including a zero byte, then fill.\<close>

fun strncpy_copy :: "bytes \<Rightarrow> nat \<Rightarrow> nat \<Rightarrow> bytes \<Rightarrow> nat \<times> nat \<times> bytes" where
  "strncpy_copy t i 0 d = (i, 0, d)"
| "strncpy_copy t i (Suc n) d =
    (if t i \<noteq> 0 then strncpy_copy t (Suc i) n (d(i := t i)) else (Suc i, n, d(i := 0)))"

fun strncpy_fill :: "nat \<Rightarrow> nat \<Rightarrow> bytes \<Rightarrow> bytes" where
  "strncpy_fill i 0 d = d"
| "strncpy_fill i (Suc n) d = strncpy_fill (Suc i) n (d(i := 0))"

definition strncpy :: "bytes \<Rightarrow> nat \<Rightarrow> bytes \<Rightarrow> bytes" where
  "strncpy t n d = (case strncpy_copy t 0 n d of (i, k, d) \<Rightarrow> strncpy_fill i k d)"

fun safestrcpy_copy :: "bytes \<Rightarrow> nat \<Rightarrow> nat \<Rightarrow> bytes \<Rightarrow> nat \<times> bytes" where
  "safestrcpy_copy t i 0 d = (i, d)"
| "safestrcpy_copy t i (Suc n) d =
    (if t i \<noteq> 0 then safestrcpy_copy t (Suc i) n (d(i := t i)) else (Suc i, d(i := 0)))"

definition safestrcpy :: "bytes \<Rightarrow> int \<Rightarrow> bytes \<Rightarrow> bytes" where
  "safestrcpy t n d =
    (if n \<le> 0 then d
     else case safestrcpy_copy t 0 (nat (n - 1)) d of (i, d) \<Rightarrow> d(i := 0))"

text \<open>\<open>strlen\<close> walks to the first zero byte; a memory without one has no end of the string.\<close>

function strlen_from :: "bytes \<Rightarrow> nat \<Rightarrow> nat res" where
  "strlen_from s n =
    (if n \<ge> 4294967296 then Inl Diverge
     else if s n = 0 then Inr n else strlen_from s (Suc n))"
  by pat_completeness auto
termination
  by (relation "measure (\<lambda>(s, n). 4294967296 - n)") auto

declare strlen_from.simps [simp del]

definition strlen :: "bytes \<Rightarrow> nat res" where
  "strlen s = strlen_from s 0"

section \<open>Addresses\<close>

lemma addr_eq:
  assumes "i < 4294967296" "j < 4294967296"
  shows "(a :: u32) + word_of_nat i = a + word_of_nat j \<longleftrightarrow> i = j"
  using unat_word_of_nat [OF assms(1)] unat_word_of_nat [OF assms(2)] by (metis add_left_cancel)

lemma addr_Suc: "(a :: u32) + word_of_nat (Suc i) = a + 1 + word_of_nat i"
  by simp

text \<open>A memory that agrees with \<open>f\<close> on the \<open>n\<close> bytes from \<open>a\<close> and with \<open>m\<close> elsewhere.\<close>

definition patched :: "u32 \<Rightarrow> nat \<Rightarrow> (nat \<Rightarrow> u8) \<Rightarrow> mem \<Rightarrow> mem" where
  "patched a n f m = (\<lambda>x. if \<exists>i < n. x = a + word_of_nat i then f (unat (x - a)) else m x)"

lemma patched_at:
  assumes "i < n" "n \<le> 4294967296"
  shows "patched a n f m (a + word_of_nat i) = f i"
proof -
  have "unat (word_of_nat i :: u32) = i" using assms by (intro unat_word_of_nat) simp
  then show ?thesis using assms(1) by (auto simp: patched_def)
qed

lemma patched_other: "(\<And>i. i < n \<Longrightarrow> x \<noteq> a + word_of_nat i) \<Longrightarrow> patched a n f m x = m x"
  by (auto simp: patched_def)

lemma patched_eqI:
  assumes "n \<le> 4294967296" "\<And>i. i < n \<Longrightarrow> m' (a + word_of_nat i) = f i"
    and "\<And>x. (\<And>i. i < n \<Longrightarrow> x \<noteq> a + word_of_nat i) \<Longrightarrow> m' x = m x"
  shows "m' = patched a n f m"
proof
  fix x
  show "m' x = patched a n f m x"
  proof (cases "\<exists>i < n. x = a + word_of_nat i")
    case True
    then show ?thesis using assms(1,2) patched_at by fastforce
  next
    case False
    then show ?thesis using assms(3) patched_other by metis
  qed
qed

section \<open>memset\<close>

lemma stosb_filled:
  assumes "n \<le> 4294967296"
  shows "stosb a c n m = patched a n (\<lambda>_. c) m"
  using assms
proof (induction n arbitrary: a m)
  case 0
  then show ?case by (simp add: patched_def)
next
  case (Suc n)
  show ?case
  proof (rule patched_eqI [OF Suc.prems])
    fix i assume i: "i < Suc n"
    show "stosb a c (Suc n) m (a + word_of_nat i) = c"
    proof (cases i)
      case 0
      have "a \<noteq> a + 1 + word_of_nat j" if "j < n" for j
        using addr_eq [of 0 "Suc j" a] that Suc.prems by simp
      then show ?thesis using 0 Suc by (simp add: patched_other)
    next
      case (Suc j)
      then show ?thesis using i Suc.IH Suc.prems patched_at [of j n "a + 1"] by (simp add: add.assoc)
    qed
  next
    fix x assume x: "\<And>i. i < Suc n \<Longrightarrow> x \<noteq> a + word_of_nat i"
    then have "x \<noteq> a + 1 + word_of_nat i" if "i < n" for i using that addr_Suc [of a i] by (metis Suc_less_eq)
    moreover have "x \<noteq> a" using x [of 0] by simp
    ultimately show "stosb a c (Suc n) m x = m x" using Suc by (simp add: patched_other)
  qed
qed

lemma stosb_4: "stosb a c (4 + n) m = stosb (a + 4) c n (m(a := c, a + 1 := c, a + 2 := c, a + 3 := c))"
  by (simp add: numeral_eq_Suc add.assoc)

lemma spread_bits:
  fixes c x :: u32
  assumes b: "\<And>n. bit x n \<longleftrightarrow> n < 8 \<and> bit c n"
  defines "w \<equiv> push_bit 24 x OR push_bit 16 x OR push_bit 8 x OR x"
  shows "(ucast w :: u8) = ucast c" "(ucast (drop_bit 8 w) :: u8) = ucast c"
    "(ucast (drop_bit 16 w) :: u8) = ucast c" "(ucast (drop_bit 24 w) :: u8) = ucast c"
proof -
  have w: "bit w (8 * k + n) \<longleftrightarrow> bit c n" if "n < 8" "k < 4" for k n
  proof -
    have "k = 0 \<or> k = 1 \<or> k = 2 \<or> k = 3" using that(2) by auto
    then show ?thesis
      using that(1) by (elim disjE) (simp_all add: w_def b bit_or_iff bit_push_bit_iff)
  qed
  show "(ucast w :: u8) = ucast c"
    by (rule bit_word_eqI) (use w [of _ 0] in \<open>simp add: bit_simps\<close>)
  show "(ucast (drop_bit 8 w) :: u8) = ucast c"
    by (rule bit_word_eqI) (use w [of _ 1] in \<open>simp add: bit_simps\<close>)
  show "(ucast (drop_bit 16 w) :: u8) = ucast c"
    by (rule bit_word_eqI) (use w [of _ 2] in \<open>simp add: bit_simps\<close>)
  show "(ucast (drop_bit 24 w) :: u8) = ucast c"
    by (rule bit_word_eqI) (use w [of _ 3] in \<open>simp add: bit_simps\<close>)
qed

lemma and_255: "bit ((c :: u32) AND 0xFF) n \<longleftrightarrow> n < 8 \<and> bit c n"
  by (auto simp: bit_and_iff flag_bits dest: bit_imp_le_length)

lemmas spread_byte = spread_bits [OF and_255]

lemma stosl_stosb:
  "stosl a (push_bit 24 (c AND 0xFF) OR push_bit 16 (c AND 0xFF) OR push_bit 8 (c AND 0xFF) OR (c AND 0xFF)) n m =
   stosb a (ucast c) (4 * n) m"
proof (induction n arbitrary: a m)
  case (Suc n)
  then show ?case by (simp only: mult_Suc_right stosb_4 stosl.simps spread_byte)
qed simp

lemma memset_filled: "memset dst c n m = patched dst (unat n) (\<lambda>_. ucast c) m"
proof (cases "dst mod 4 = 0 \<and> n mod 4 = 0")
  case True
  then have "4 * unat (n div 4) = unat n"
    using unat_mod [of n 4] unat_div [of n 4] by (simp add: dvd_eq_mod_eq_0 [symmetric])
  then show ?thesis
    using True unat_u32_bound [of n] unfolding memset_def Let_def
    by (simp only: stosl_stosb if_True simp_thms stosb_filled order.strict_implies_order)
next
  case False
  then show ?thesis using unat_u32_bound [of n] stosb_filled [of "unat n"] unfolding memset_def by auto
qed

section \<open>memmove\<close>

lemma copy_up_filled:
  assumes "n \<le> 4294967296"
    and "\<And>i j. j < i \<Longrightarrow> i < n \<Longrightarrow> s + word_of_nat i \<noteq> d + word_of_nat j"
  shows "copy_up d s n m = patched d n (\<lambda>i. m (s + word_of_nat i)) m"
  using assms
proof (induction n arbitrary: d s m)
  case 0
  then show ?case by (simp add: patched_def)
next
  case (Suc n)
  let ?m = "m(d := m s)"
  have sep: "s + 1 + word_of_nat i \<noteq> d + 1 + word_of_nat j" if "j < i" "i < n" for i j
    using Suc.prems(2) [of "Suc j" "Suc i"] that by (simp add: add.assoc)
  have up: "copy_up d s (Suc n) m = patched (d + 1) n (\<lambda>i. ?m (s + 1 + word_of_nat i)) ?m"
    using Suc.IH [of "s + 1" "d + 1", OF _ sep] Suc.prems(1) by simp
  show ?case
  proof (rule patched_eqI [OF Suc.prems(1)])
    fix i assume i: "i < Suc n"
    show "copy_up d s (Suc n) m (d + word_of_nat i) = m (s + word_of_nat i)"
    proof (cases i)
      case 0
      have "d \<noteq> d + 1 + word_of_nat j" if "j < n" for j
        using addr_eq [of 0 "Suc j" d] that Suc.prems(1) by simp
      then show ?thesis unfolding up using 0 by (simp add: patched_other)
    next
      case (Suc j)
      then have "s + 1 + word_of_nat j \<noteq> d" using Suc.prems(2) [of 0 i] i by (simp add: add.assoc)
      then show ?thesis
        unfolding up using Suc i Suc.prems(1) patched_at [of j n "d + 1"] by (simp add: add.assoc)
    qed
  next
    fix x assume x: "\<And>i. i < Suc n \<Longrightarrow> x \<noteq> d + word_of_nat i"
    then have "x \<noteq> d + 1 + word_of_nat i" if "i < n" for i using that addr_Suc [of d i] by (metis Suc_less_eq)
    moreover have "x \<noteq> d" using x [of 0] by simp
    ultimately show "copy_up d s (Suc n) m x = m x" unfolding up by (simp add: patched_other)
  qed
qed

lemma copy_down_filled:
  assumes "n \<le> 4294967296"
    and "\<And>i j. i < j \<Longrightarrow> j < n \<Longrightarrow> s + word_of_nat i \<noteq> d + word_of_nat j"
  shows "copy_down (d + word_of_nat n) (s + word_of_nat n) n m = patched d n (\<lambda>i. m (s + word_of_nat i)) m"
  using assms
proof (induction n arbitrary: m)
  case 0
  then show ?case by (simp add: patched_def)
next
  case (Suc n)
  let ?m = "m(d + word_of_nat n := m (s + word_of_nat n))"
  have down: "copy_down (d + word_of_nat (Suc n)) (s + word_of_nat (Suc n)) (Suc n) m =
      patched d n (\<lambda>i. ?m (s + word_of_nat i)) ?m"
  proof -
    have "copy_down (d + word_of_nat (Suc n)) (s + word_of_nat (Suc n)) (Suc n) m =
        copy_down (d + word_of_nat n) (s + word_of_nat n) n ?m" by (simp add: algebra_simps)
    also have "\<dots> = patched d n (\<lambda>i. ?m (s + word_of_nat i)) ?m"
      by (rule Suc.IH) (use Suc.prems in auto)
    finally show ?thesis .
  qed
  show ?case
  proof (rule patched_eqI [OF Suc.prems(1)])
    fix i assume i: "i < Suc n"
    show "copy_down (d + word_of_nat (Suc n)) (s + word_of_nat (Suc n)) (Suc n) m (d + word_of_nat i) = m (s + word_of_nat i)"
    proof (cases "i = n")
      case True
      then show ?thesis
        unfolding down using Suc.prems(1) addr_eq [of n _ d] by (subst patched_other) auto
    next
      case False
      then have "i < n" using i by simp
      then show ?thesis
        unfolding down using Suc.prems patched_at [of i n d] by simp
    qed
  next
    fix x assume x: "\<And>i. i < Suc n \<Longrightarrow> x \<noteq> d + word_of_nat i"
    then show "copy_down (d + word_of_nat (Suc n)) (s + word_of_nat (Suc n)) (Suc n) m x = m x"
      unfolding down by (subst patched_other) auto
  qed
qed

lemma memmove_filled:
  assumes "unat s + unat n < 4294967296" "unat d + unat n \<le> 4294967296"
  shows "memmove d s n m = patched d (unat n) (\<lambda>i. m (s + word_of_nat i)) m"
proof -
  have N: "word_of_nat (unat n) = n" by simp
  have S: "unat (s + word_of_nat i) = unat s + i" "unat (d + word_of_nat i) = unat d + i" if "i < unat n" for i
    using that assms unat_word_of_nat [of i] unat_add_nowrap [of s "word_of_nat i"] unat_add_nowrap [of d "word_of_nat i"]
    by simp_all
  have e: "s < d \<longleftrightarrow> unat s < unat d" "s + n > d \<longleftrightarrow> unat d < unat s + unat n"
    using unat_add_nowrap [of s n] assms(1) by (simp_all add: word_less_nat_alt)
  have b: "unat n \<le> 4294967296" using unat_u32_bound [of n] by simp
  show ?thesis
  proof (cases "s < d \<and> s + n > d")
    case True
    have "s + word_of_nat i \<noteq> d + word_of_nat j" if "i < j" "j < unat n" for i j
    proof -
      have "unat (s + word_of_nat i) < unat (d + word_of_nat j)" using S [of i] S [of j] that True e by simp
      then show ?thesis by auto
    qed
    then show ?thesis using copy_down_filled [OF b, of s d m] True N by (simp add: memmove_def)
  next
    case False
    have "s + word_of_nat i \<noteq> d + word_of_nat j" if "j < i" "i < unat n" for i j
    proof -
      have "unat (s + word_of_nat i) \<noteq> unat (d + word_of_nat j)" using S [of i] S [of j] that False e by auto
      then show ?thesis by metis
    qed
    then show ?thesis using copy_up_filled [OF b, of s d m] False by (auto simp: memmove_def)
  qed
qed

section \<open>Comparison\<close>

lemma memcmp_zero: "memcmp a b n m = 0 \<longleftrightarrow> (\<forall>i < n. m (a + word_of_nat i) = m (b + word_of_nat i))"
proof (induction n arbitrary: a b)
  case (Suc n)
  have "(\<forall>i < Suc n. m (a + word_of_nat i) = m (b + word_of_nat i)) \<longleftrightarrow>
      m a = m b \<and> (\<forall>i < n. m (a + 1 + word_of_nat i) = m (b + 1 + word_of_nat i))"
    unfolding All_less_Suc2 by (simp add: add.assoc)
  moreover have "uint (m a) - uint (m b) = 0 \<longleftrightarrow> m a = m b" by (simp add: word_uint_eq_iff)
  ultimately show ?case using Suc by (simp del: right_minus_eq)
qed simp

text \<open>The first \<open>n\<close> bytes of a string, up to its end.\<close>

fun prefix_at :: "bytes \<Rightarrow> nat \<Rightarrow> nat \<Rightarrow> u8 list" where
  "prefix_at p i 0 = []"
| "prefix_at p i (Suc n) = (if p i = 0 then [] else p i # prefix_at p (Suc i) n)"

lemma strncmp_at_zero: "strncmp_at p q i n = 0 \<longleftrightarrow> prefix_at p i n = prefix_at q i n"
proof (induction n arbitrary: i)
  case (Suc n)
  have "uint (p i) - uint (q i) = 0 \<longleftrightarrow> p i = q i" by (simp add: word_uint_eq_iff)
  then show ?case using Suc by auto
qed simp

lemma strncmp_zero: "strncmp p q n = 0 \<longleftrightarrow> prefix_at p 0 n = prefix_at q 0 n"
  by (simp add: strncmp_def strncmp_at_zero)

section \<open>Copying strings\<close>

lemma strncpy_fill_at: "strncpy_fill i n d j = (if i \<le> j \<and> j < i + n then 0 else d j)"
  by (induction n arbitrary: i d) auto

lemma prefix_at_length: "length (prefix_at t i n) \<le> n"
  by (induction n arbitrary: i) auto

lemma strncpy_loops:
  "(case strncpy_copy t i n d of (k, r, d') \<Rightarrow> strncpy_fill k r d') j =
    (if i \<le> j \<and> j < i + n
     then (if j - i < length (prefix_at t i n) then prefix_at t i n ! (j - i) else 0)
     else d j)"
proof (induction n arbitrary: i d)
  case (Suc n)
  show ?case
  proof (cases "t i = 0")
    case True
    then show ?thesis by (auto simp: strncpy_fill_at)
  next
    case False
    have "Suc i \<le> j \<Longrightarrow> (t i # xs) ! (j - i) = xs ! (j - Suc i)" for xs
      by (simp add: Suc_diff_le [symmetric] nth_Cons' )
    then show ?thesis using False by (auto simp: Suc.IH)
  qed
qed (auto simp: strncpy_fill_at)

lemma strncpy_at:
  "strncpy t n d j = (if j < n then (if j < length (prefix_at t 0 n) then prefix_at t 0 n ! j else 0) else d j)"
  unfolding strncpy_def using strncpy_loops [of t 0 n d j] by simp

lemma safestrcpy_loop:
  "case safestrcpy_copy t i n d of (k, d') \<Rightarrow>
     i + length (prefix_at t i n) \<le> k \<and> k \<le> Suc (i + length (prefix_at t i n)) \<and> k \<le> i + n \<and>
     (\<forall>j. d' j = (if i \<le> j \<and> j < i + length (prefix_at t i n) then prefix_at t i n ! (j - i)
                  else if j = i + length (prefix_at t i n) \<and> j < k then 0 else d j))"
proof (induction n arbitrary: i d)
  case (Suc n)
  show ?case
  proof (cases "t i = 0")
    case True
    then show ?thesis by auto
  next
    case False
    obtain k d' where c: "safestrcpy_copy t (Suc i) n (d(i := t i)) = (k, d')" by fastforce
    have IH: "Suc i + length (prefix_at t (Suc i) n) \<le> k \<and> k \<le> Suc (Suc i + length (prefix_at t (Suc i) n)) \<and> k \<le> Suc i + n \<and>
      (\<forall>j. d' j = (if Suc i \<le> j \<and> j < Suc i + length (prefix_at t (Suc i) n) then prefix_at t (Suc i) n ! (j - Suc i)
        else if j = Suc i + length (prefix_at t (Suc i) n) \<and> j < k then 0 else (d(i := t i)) j))"
      using Suc.IH [of "Suc i" "d(i := t i)"] unfolding c by simp
    then show ?thesis using False c by (auto simp: nth_Cons')
  qed
qed auto

lemma strlen_from_least:
  assumes "i \<le> n" "s n = 0" "\<And>j. i \<le> j \<Longrightarrow> j < n \<Longrightarrow> s j \<noteq> 0" "n < 4294967296"
  shows "strlen_from s i = Inr n"
  using assms
proof (induction "n - i" arbitrary: i)
  case 0
  then show ?case by (simp add: strlen_from.simps)
next
  case (Suc k)
  then have "i < n" by simp
  then have "s i \<noteq> 0" "i < 4294967296" using Suc.prems by auto
  moreover have "strlen_from s (Suc i) = Inr n"
    using Suc.hyps(2) Suc.prems \<open>i < n\<close> by (intro Suc.hyps(1)) auto
  ultimately show ?case by (simp add: strlen_from.simps [of s i])
qed

section \<open>Correctness of the string routines\<close>

text \<open>Property C32 (\<open>memmove\<close>). For any two ranges, overlapping or not, that do not run past the end of the
  address space, \<open>memmove\<close> leaves at the destination the bytes the source held before the call and
  changes nothing else.\<close>

theorem memmove_correct:
  assumes "unat s + unat n < 4294967296" "unat d + unat n \<le> 4294967296"
  shows "(\<forall>i < unat n. memmove d s n m (d + word_of_nat i) = m (s + word_of_nat i)) \<and>
    (\<forall>x. (\<forall>i < unat n. x \<noteq> d + word_of_nat i) \<longrightarrow> memmove d s n m x = m x)"
proof -
  have "unat n \<le> 4294967296" using assms(1) by simp
  then show ?thesis unfolding memmove_filled [OF assms]
    by (intro conjI allI impI) (simp_all add: patched_at patched_other)
qed

text \<open>An overlapping move by two bytes.\<close>

lemma memmove_correct_witness:
  "memmove 1002 1000 4 (\<lambda>a. ucast a) 1005 = (ucast (1003 :: u32) :: u8)"
proof -
  have "\<forall>i < unat (4 :: u32). memmove 1002 1000 4 (\<lambda>a. ucast a) (1002 + word_of_nat i) = (ucast (1000 + word_of_nat i :: u32) :: u8)"
    using memmove_correct [of 1000 4 1002 "\<lambda>a. ucast a"] by simp
  from this [rule_format, of 3] show ?thesis by simp
qed

text \<open>Property C33 (\<open>memset\<close>). The fast path that stores whole words and the byte-wise path do the same:
  every byte of the range is the low byte of \<open>c\<close> and no other byte changes.\<close>

theorem memset_correct:
  "(\<forall>i < unat n. memset dst c n m (dst + word_of_nat i) = ucast c) \<and>
    (\<forall>x. (\<forall>i < unat n. x \<noteq> dst + word_of_nat i) \<longrightarrow> memset dst c n m x = m x)"
  unfolding memset_filled using patched_at [of _ "unat n"] patched_other [of "unat n"] unat_u32_bound [of n]
  by (metis order.strict_implies_order)

lemma memset_correct_witness: "memset 1001 300 3 (\<lambda>_. 7) 1003 = 44 \<and> memset 1001 300 3 (\<lambda>_. 7) 1004 = 7"
proof -
  have "\<forall>i < unat (3 :: u32). memset 1001 300 3 (\<lambda>_. 7) (1001 + word_of_nat i) = ucast (300 :: u32)"
    using memset_correct [of 3 1001 300 "\<lambda>_. 7"] by blast
  from this [rule_format, of 2] have "memset 1001 300 3 (\<lambda>_. 7) 1003 = 44" by simp
  moreover have "memset 1001 300 3 (\<lambda>_. 7) 1004 = 7"
  proof -
    have "\<forall>i < unat (3 :: u32). (1004 :: u32) \<noteq> 1001 + word_of_nat i"
    proof (intro allI impI)
      fix i assume "i < unat (3 :: u32)"
      then have "i < 3" by simp
      then have "i = 0 \<or> i = 1 \<or> i = 2" by linarith
      then show "(1004 :: u32) \<noteq> 1001 + word_of_nat i" by auto
    qed
    then show ?thesis using memset_correct [of 3 1001 300 "\<lambda>_. 7"] by blast
  qed
  ultimately show ?thesis by simp
qed

text \<open>Property C34 (\<open>safestrcpy\<close>). For a positive size the result is a string that ends inside the buffer: it
  holds the source up to its end or up to \<open>n - 1\<close> bytes, then a zero byte, and no byte at or after
  index \<open>n\<close> is touched.\<close>

theorem safestrcpy_correct:
  assumes "0 < n" and p_def: "p = prefix_at t 0 (nat (n - 1))"
  shows "(\<forall>j < length p. safestrcpy t n d j = p ! j) \<and> length p < nat n \<and>
    (\<exists>k < nat n. safestrcpy t n d k = 0 \<and> length p \<le> k \<and> (\<forall>j < k. j < length p \<or> safestrcpy t n d j = 0)) \<and>
    (\<forall>j \<ge> nat n. safestrcpy t n d j = d j)"
proof -
  obtain k d' where c: "safestrcpy_copy t 0 (nat (n - 1)) d = (k, d')" by fastforce
  have len: "length p \<le> nat (n - 1)" unfolding p_def by (rule prefix_at_length)
  have L: "length p \<le> k" "k \<le> Suc (length p)" "k \<le> nat (n - 1)"
    "\<And>j. d' j = (if j < length p then p ! j else if j = length p \<and> j < k then 0 else d j)"
    using safestrcpy_loop [where t = t and i = 0 and n = "nat (n - 1)" and d = d] unfolding c p_def by auto
  have e: "safestrcpy t n d = d'(k := 0)" using assms(1) c by (simp add: safestrcpy_def)
  have "\<forall>j < k. j < length p \<or> (d'(k := 0)) j = 0" using L by auto
  moreover have "k < nat n" using L(3) assms(1) by linarith
  moreover have "\<forall>j \<ge> nat n. (d'(k := 0)) j = d j" using L len \<open>k < nat n\<close> by auto
  moreover have "length p < nat n" using len assms(1) by linarith
  ultimately show ?thesis unfolding e using L by (intro conjI exI [of _ k]) auto
qed

lemma safestrcpy_correct_witness:
  "\<exists>k < nat 3. safestrcpy (\<lambda>_. 65) 3 (\<lambda>_. 1) k = 0 \<and> safestrcpy (\<lambda>_. 65) 3 (\<lambda>_. 1) 3 = 1"
  using safestrcpy_correct [of 3 "prefix_at (\<lambda>_. 65) 0 (nat (3 - 1))" "\<lambda>_. 65" "\<lambda>_. 1"] by auto

end
