(* ===== verification/Fs.thy ===== *)
theory Fs
  imports Blocks Strings
begin

text \<open>
  The file system, \<open>fs.c\<close>, over logical blocks: the block allocator, the inode cache, inode contents,
  directories and path names. The routines follow the code line by line; \<open>bread\<close>/\<open>brelse\<close> pairs become
  reads of \<open>blocks\<close>, \<open>log_write\<close> the write. Inode pointers are indices into \<open>icache\<close>, null is \<open>None\<close>.
  The data that \<open>readi\<close> copies to its destination is returned next to the result code.

  A device inode is read and written through the function table \<open>devsw\<close>, which is a parameter.
  Spin locks that a routine takes and releases itself are not represented; the sleep lock of an
  inode is, and a routine that finds it taken sleeps (\<open>Sleeps\<close>).
\<close>

unbundle bit_operations_syntax

record 's devsw_entry =
  dev_read :: "nat \<Rightarrow> u32 \<Rightarrow> 's \<Rightarrow> ((int \<times> u8 list) \<times> 's) res"
  dev_write :: "nat \<Rightarrow> u8 list \<Rightarrow> 's \<Rightarrow> (int \<times> 's) res"

type_synonym 's devsw = "nat \<Rightarrow> 's devsw_entry option"

abbreviation (input) NDEV :: int where "NDEV \<equiv> 10"

section \<open>Blocks\<close>

definition bzero :: "u32 \<Rightarrow> u32 \<Rightarrow> 'a fsys_scheme \<Rightarrow> (unit \<times> 'a fsys_scheme) res" where
  "bzero dev bno s = log_write dev bno (\<lambda>_. 0) s"

definition readsb :: "u32 \<Rightarrow> 'a fsys_scheme \<Rightarrow> superblock" where
  "readsb dev s =
    (let d = blocks s (dev, 1)
     in \<lparr>sb_size = rd32 d 0, nblocks = rd32 d 4, ninodes = rd32 d 8, nlog = rd32 d 12,
         logstart = rd32 d 16, inodestart = rd32 d 20, bmapstart = rd32 d 24\<rparr>)"

definition BBLOCK :: "u32 \<Rightarrow> superblock \<Rightarrow> u32" where
  "BBLOCK b S = b div BPB + bmapstart S"

definition IBLOCK :: "u32 \<Rightarrow> superblock \<Rightarrow> u32" where
  "IBLOCK i S = i div IPB + inodestart S"

text \<open>The inner loop of \<open>balloc\<close>: the first clear bit of one bitmap block.\<close>

function balloc_bit :: "block \<Rightarrow> u32 \<Rightarrow> u32 \<Rightarrow> nat \<Rightarrow> nat option" where
  "balloc_bit d b sz bi =
    (if bi < 4096 \<and> b + word_of_nat bi < sz then
       if d (bi div 8) AND push_bit (bi mod 8) 1 = 0 then Some bi else balloc_bit d b sz (Suc bi)
     else None)"
  by pat_completeness auto
termination
  by (relation "measure (\<lambda>(d, b, sz, bi). 4096 - bi)") auto

declare balloc_bit.simps [simp del]

text \<open>The outer loop; it would not end if the counter of blocks wrapped around.\<close>

function balloc_from :: "u32 \<Rightarrow> u32 \<Rightarrow> 'a fsys_scheme \<Rightarrow> (u32 \<times> 'a fsys_scheme) res" where
  "balloc_from dev b s =
    (if b < sb_size (sb s) then
       case balloc_bit (blocks s (dev, BBLOCK b (sb s))) b (sb_size (sb s)) 0 of
         Some bi \<Rightarrow>
           let d = blocks s (dev, BBLOCK b (sb s));
               d = d(bi div 8 := d (bi div 8) OR push_bit (bi mod 8) 1)
           in bindr (log_write dev (BBLOCK b (sb s)) d s) (\<lambda>(_, s).
              bindr (bzero dev (b + word_of_nat bi) s) (\<lambda>(_, s).
              Inr (b + word_of_nat bi, s)))
       | None \<Rightarrow> if b + BPB \<le> b then Inl Diverge else balloc_from dev (b + BPB) s
     else Inl (Panic ''balloc: out of blocks''))"
  by pat_completeness auto
termination
  by (relation "measure (\<lambda>(dev, b, s). unat (sb_size (sb s)) - unat b)")
    (auto simp: word_less_nat_alt word_le_nat_alt)

declare balloc_from.simps [simp del]

definition balloc :: "u32 \<Rightarrow> 'a fsys_scheme \<Rightarrow> (u32 \<times> 'a fsys_scheme) res" where
  "balloc dev s = balloc_from dev 0 s"

definition bfree :: "u32 \<Rightarrow> u32 \<Rightarrow> 'a fsys_scheme \<Rightarrow> (unit \<times> 'a fsys_scheme) res" where
  "bfree dev b s =
    (let d = blocks s (dev, BBLOCK b (sb s));
         bi = unat (b mod BPB)
     in if d (bi div 8) AND push_bit (bi mod 8) 1 = 0 then Inl (Panic ''freeing free block'')
        else log_write dev (BBLOCK b (sb s)) (d(bi div 8 := d (bi div 8) AND NOT (push_bit (bi mod 8) 1))) s)"

section \<open>Inodes\<close>

definition iinit :: "u32 \<Rightarrow> 'a fsys_scheme \<Rightarrow> 'a fsys_scheme" where
  "iinit dev s = s\<lparr>icache := map (\<lambda>ip. ip\<lparr>i_lock := False\<rparr>) (icache s), sb := readsb dev s\<rparr>"

text \<open>\<open>struct dinode\<close> at byte offset \<open>k\<close> of a block.\<close>

definition dip_type :: "block \<Rightarrow> nat \<Rightarrow> u16" where "dip_type d k = rd16 d k"

definition dip_load :: "block \<Rightarrow> nat \<Rightarrow> inode \<Rightarrow> inode" where
  "dip_load d k ip = ip\<lparr>i_type := rd16 d k, i_major := rd16 d (k + 2), i_minor := rd16 d (k + 4),
     i_nlink := rd16 d (k + 6), i_size := rd32 d (k + 8),
     i_addrs := map (\<lambda>j. rd32 d (k + 12 + 4 * j)) [0..<13]\<rparr>"

definition dip_store :: "nat \<Rightarrow> inode \<Rightarrow> block \<Rightarrow> block" where
  "dip_store k ip d =
     fold (\<lambda>j d. wr32 (k + 12 + 4 * j) (i_addrs ip ! j) d) [0..<13]
       (wr32 (k + 8) (i_size ip) (wr16 (k + 6) (i_nlink ip) (wr16 (k + 4) (i_minor ip)
         (wr16 (k + 2) (i_major ip) (wr16 k (i_type ip) d)))))"

definition dip_off :: "u32 \<Rightarrow> nat" where
  "dip_off inum = 64 * unat (inum mod IPB)"

definition ino :: "nat \<Rightarrow> 'a fsys_scheme \<Rightarrow> inode" where
  "ino ip s = icache s ! ip"

definition set_ino :: "nat \<Rightarrow> inode \<Rightarrow> 'a fsys_scheme \<Rightarrow> 'a fsys_scheme" where
  "set_ino ip i s = s\<lparr>icache := (icache s)[ip := i]\<rparr>"

text \<open>The scan of \<open>iget\<close>: the cached entry if there is one, and the first free slot before it.\<close>

fun iget_scan :: "inode list \<Rightarrow> u32 \<Rightarrow> u32 \<Rightarrow> nat \<Rightarrow> nat option \<Rightarrow> nat + nat option" where
  "iget_scan [] dev inum k emp = Inr emp"
| "iget_scan (ip # ips) dev inum k emp =
    (if i_ref ip > 0 \<and> i_dev ip = dev \<and> i_num ip = inum then Inl k
     else iget_scan ips dev inum (Suc k) (if emp = None \<and> i_ref ip = 0 then Some k else emp))"

definition iget :: "u32 \<Rightarrow> u32 \<Rightarrow> 'a fsys_scheme \<Rightarrow> (nat \<times> 'a fsys_scheme) res" where
  "iget dev inum s =
    (case iget_scan (icache s) dev inum 0 None of
       Inl ip \<Rightarrow> Inr (ip, set_ino ip ((ino ip s)\<lparr>i_ref := i_ref (ino ip s) + 1\<rparr>) s)
     | Inr None \<Rightarrow> Inl (Panic ''iget: no inodes'')
     | Inr (Some ip) \<Rightarrow>
         Inr (ip, set_ino ip ((ino ip s)\<lparr>i_dev := dev, i_num := inum, i_ref := 1, i_valid := False\<rparr>) s))"

definition idup :: "nat \<Rightarrow> 'a fsys_scheme \<Rightarrow> nat \<times> 'a fsys_scheme" where
  "idup ip s = (ip, set_ino ip ((ino ip s)\<lparr>i_ref := i_ref (ino ip s) + 1\<rparr>) s)"

lemma word_Suc_measure: "inum < (m :: u32) \<Longrightarrow> unat m - unat (inum + 1) < unat m - unat inum"
proof -
  assume lt: "inum < m"
  then have "unat (inum + 1) = unat inum + 1"
    using unat_add_nowrap [of inum 1] unat_u32_bound [of m] by (simp add: word_less_nat_alt)
  then show ?thesis using lt by (simp add: word_less_nat_alt)
qed

function ialloc_from :: "u32 \<Rightarrow> u16 \<Rightarrow> u32 \<Rightarrow> 'a fsys_scheme \<Rightarrow> (nat \<times> 'a fsys_scheme) res" where
  "ialloc_from dev typ inum s =
    (if inum < ninodes (sb s) then
       let blk = IBLOCK inum (sb s);
           d = blocks s (dev, blk);
           k = dip_off inum
       in if dip_type d k = 0 then
            bindr (log_write dev blk (wr16 k typ (put_at k (replicate 64 0) d)) s) (\<lambda>(_, s).
            iget dev inum s)
          else ialloc_from dev typ (inum + 1) s
     else Inl (Panic ''ialloc: no inodes''))"
  by pat_completeness auto

termination
  by (relation "measure (\<lambda>(dev, typ, inum, s). unat (ninodes (sb s)) - unat inum)") (auto simp: word_Suc_measure)

declare ialloc_from.simps [simp del]

definition ialloc :: "u32 \<Rightarrow> u16 \<Rightarrow> 'a fsys_scheme \<Rightarrow> (nat \<times> 'a fsys_scheme) res" where
  "ialloc dev typ s = ialloc_from dev typ 1 s"

definition iupdate :: "nat \<Rightarrow> 'a fsys_scheme \<Rightarrow> (unit \<times> 'a fsys_scheme) res" where
  "iupdate ip s =
    (let i = ino ip s;
         blk = IBLOCK (i_num i) (sb s)
     in log_write (i_dev i) blk (dip_store (dip_off (i_num i)) i (blocks s (i_dev i, blk))) s)"

definition ilock :: "nat option \<Rightarrow> 'a fsys_scheme \<Rightarrow> (unit \<times> 'a fsys_scheme) res" where
  "ilock p s =
    (case p of
       None \<Rightarrow> Inl (Panic ''ilock'')
     | Some ip \<Rightarrow>
         if i_ref (ino ip s) < 1 then Inl (Panic ''ilock'')
         else if i_lock (ino ip s) then Inl (Sleeps ''inode'')
         else
           let s = set_ino ip ((ino ip s)\<lparr>i_lock := True\<rparr>) s
           in if i_valid (ino ip s) then Inr ((), s)
              else
                let i = ino ip s;
                    i = dip_load (blocks s (i_dev i, IBLOCK (i_num i) (sb s))) (dip_off (i_num i)) i;
                    i = i\<lparr>i_valid := True\<rparr>;
                    s = set_ino ip i s
                in if i_type i = 0 then Inl (Panic ''ilock: no type'') else Inr ((), s))"

definition iunlock :: "nat option \<Rightarrow> 'a fsys_scheme \<Rightarrow> (unit \<times> 'a fsys_scheme) res" where
  "iunlock p s =
    (case p of
       None \<Rightarrow> Inl (Panic ''iunlock'')
     | Some ip \<Rightarrow>
         if \<not> i_lock (ino ip s) \<or> i_ref (ino ip s) < 1 then Inl (Panic ''iunlock'')
         else Inr ((), set_ino ip ((ino ip s)\<lparr>i_lock := False\<rparr>) s))"

section \<open>Inode contents\<close>

definition bmap :: "nat \<Rightarrow> u32 \<Rightarrow> 'a fsys_scheme \<Rightarrow> (u32 \<times> 'a fsys_scheme) res" where
  "bmap ip bn s =
    (if bn < 12 then
       let addr = i_addrs (ino ip s) ! unat bn
       in if addr = 0 then
            bindr (balloc (i_dev (ino ip s)) s) (\<lambda>(addr, s).
            Inr (addr, set_ino ip ((ino ip s)\<lparr>i_addrs := (i_addrs (ino ip s))[unat bn := addr]\<rparr>) s))
          else Inr (addr, s)
     else
       let bn = bn - 12 in
       if bn < 128 then
         bindr (let addr = i_addrs (ino ip s) ! NDIRECT
                in if addr = 0 then
                     bindr (balloc (i_dev (ino ip s)) s) (\<lambda>(addr, s).
                     Inr (addr, set_ino ip ((ino ip s)\<lparr>i_addrs := (i_addrs (ino ip s))[NDIRECT := addr]\<rparr>) s))
                   else Inr (addr, s)) (\<lambda>(ind, s).
         let dev = i_dev (ino ip s);
             addr = rd32 (blocks s (dev, ind)) (4 * unat bn)
         in if addr = 0 then
              bindr (balloc dev s) (\<lambda>(addr, s).
              bindr (log_write dev ind (wr32 (4 * unat bn) addr (blocks s (dev, ind))) s) (\<lambda>(_, s).
              Inr (addr, s)))
            else Inr (addr, s))
       else Inl (Panic ''bmap: out of range''))"

text \<open>The two loops of \<open>itrunc\<close>.\<close>

fun itrunc_direct :: "nat \<Rightarrow> nat list \<Rightarrow> 'a fsys_scheme \<Rightarrow> (unit \<times> 'a fsys_scheme) res" where
  "itrunc_direct ip [] s = Inr ((), s)"
| "itrunc_direct ip (i # is) s =
    (if i_addrs (ino ip s) ! i \<noteq> 0 then
       bindr (bfree (i_dev (ino ip s)) (i_addrs (ino ip s) ! i) s) (\<lambda>(_, s).
       itrunc_direct ip is (set_ino ip ((ino ip s)\<lparr>i_addrs := (i_addrs (ino ip s))[i := 0]\<rparr>) s))
     else itrunc_direct ip is s)"

fun itrunc_indirect :: "u32 \<Rightarrow> block \<Rightarrow> nat list \<Rightarrow> 'a fsys_scheme \<Rightarrow> (unit \<times> 'a fsys_scheme) res" where
  "itrunc_indirect dev a [] s = Inr ((), s)"
| "itrunc_indirect dev a (j # js) s =
    (if rd32 a (4 * j) \<noteq> 0 then
       bindr (bfree dev (rd32 a (4 * j)) s) (\<lambda>(_, s). itrunc_indirect dev a js s)
     else itrunc_indirect dev a js s)"

definition itrunc :: "nat \<Rightarrow> 'a fsys_scheme \<Rightarrow> (unit \<times> 'a fsys_scheme) res" where
  "itrunc ip s =
     bindr (itrunc_direct ip [0..<12] s) (\<lambda>(_, s).
     bindr (let ind = i_addrs (ino ip s) ! NDIRECT
            in if ind \<noteq> 0 then
                 let dev = i_dev (ino ip s)
                 in bindr (itrunc_indirect dev (blocks s (dev, ind)) [0..<128] s) (\<lambda>(_, s).
                    bindr (bfree dev ind s) (\<lambda>(_, s).
                    Inr ((), set_ino ip ((ino ip s)\<lparr>i_addrs := (i_addrs (ino ip s))[NDIRECT := 0]\<rparr>) s)))
               else Inr ((), s)) (\<lambda>(_, s).
     iupdate ip (set_ino ip ((ino ip s)\<lparr>i_size := 0\<rparr>) s)))"

definition iput :: "nat \<Rightarrow> 'a fsys_scheme \<Rightarrow> (unit \<times> 'a fsys_scheme) res" where
  "iput ip s =
    (if i_lock (ino ip s) then Inl (Sleeps ''inode'')
     else
       let s = set_ino ip ((ino ip s)\<lparr>i_lock := True\<rparr>) s
       in bindr
         (if i_valid (ino ip s) \<and> i_nlink (ino ip s) = 0 \<and> i_ref (ino ip s) = 1 then
            bindr (itrunc ip s) (\<lambda>(_, s).
            let s = set_ino ip ((ino ip s)\<lparr>i_type := 0\<rparr>) s
            in bindr (iupdate ip s) (\<lambda>(_, s).
            Inr ((), set_ino ip ((ino ip s)\<lparr>i_valid := False\<rparr>) s)))
          else Inr ((), s)) (\<lambda>(_, s).
       let s = set_ino ip ((ino ip s)\<lparr>i_lock := False\<rparr>) s
       in Inr ((), set_ino ip ((ino ip s)\<lparr>i_ref := i_ref (ino ip s) - 1\<rparr>) s)))"

definition iunlockput :: "nat \<Rightarrow> 'a fsys_scheme \<Rightarrow> (unit \<times> 'a fsys_scheme) res" where
  "iunlockput ip s = bindr (iunlock (Some ip) s) (\<lambda>(_, s). iput ip s)"

record stat =
  st_type :: u16
  st_dev :: u32
  st_ino :: u32
  st_nlink :: u16
  st_size :: u32

definition stati :: "nat \<Rightarrow> 'a fsys_scheme \<Rightarrow> stat" where
  "stati ip s = \<lparr>st_type = i_type (ino ip s), st_dev = i_dev (ino ip s), st_ino = i_num (ino ip s),
     st_nlink = i_nlink (ino ip s), st_size = i_size (ino ip s)\<rparr>"

text \<open>The loops of \<open>readi\<close> and \<open>writei\<close>; \<open>r\<close> is \<open>n - tot\<close>. Each turn moves at least one byte.\<close>

lemma chunk_pos:
  assumes "r \<noteq> (0 :: u32)"
  shows "unat (r - min r (512 - off mod 512)) < unat r"
proof -
  have "unat (off mod 512) < 512" by (simp add: unat_mod)
  then have "off mod 512 < 512" by (simp add: word_less_nat_alt)
  then have "0 < 512 - off mod 512" by (metis less_irrefl right_minus_eq word_neq_0_conv)
  then have "0 < min r (512 - off mod 512)" unfolding min_less_iff_conj using assms by (simp add: word_neq_0_conv)
  moreover have "min r (512 - off mod 512) \<le> r" by simp
  ultimately show ?thesis
    using unat_sub [of "min r (512 - off mod 512)" r] by (simp add: word_less_nat_alt word_le_nat_alt)
qed

function readi_loop :: "nat \<Rightarrow> u32 \<Rightarrow> u32 \<Rightarrow> u8 list \<Rightarrow> 'a fsys_scheme \<Rightarrow> (u8 list \<times> 'a fsys_scheme) res" where
  "readi_loop ip off r acc s =
    (if r = 0 then Inr (acc, s)
     else bindr (bmap ip (off div 512) s) (\<lambda>(b, s).
       let m = min r (512 - off mod 512);
           d = get_at (unat (off mod 512)) (unat m) (blocks s (i_dev (ino ip s), b))
       in readi_loop ip (off + m) (r - m) (acc @ d) s))"
  by pat_completeness auto
termination
  by (relation "measure (\<lambda>(ip, off, r, acc, s). unat r)") (simp_all add: chunk_pos)

declare readi_loop.simps [simp del]

definition dev_ok :: "inode \<Rightarrow> bool" where
  "dev_ok i \<longleftrightarrow> 0 \<le> sint (i_major i) \<and> sint (i_major i) < NDEV"

definition readi :: "'a fsys_scheme devsw \<Rightarrow> nat \<Rightarrow> u32 \<Rightarrow> u32 \<Rightarrow> 'a fsys_scheme \<Rightarrow>
    ((int \<times> u8 list) \<times> 'a fsys_scheme) res" where
  "readi D ip off n s =
    (let i = ino ip s in
     if i_type i = T_DEV then
       if \<not> dev_ok i then Inr ((-1, []), s)
       else case D (unat (i_major i)) of
              None \<Rightarrow> Inr ((-1, []), s)
            | Some dv \<Rightarrow> dev_read dv ip n s
     else if off > i_size i \<or> off + n < off then Inr ((-1, []), s)
     else
       let n = (if off + n > i_size i then i_size i - off else n)
       in bindr (readi_loop ip off n [] s) (\<lambda>(d, s). Inr ((sint n, d), s)))"

function writei_loop :: "nat \<Rightarrow> u8 list \<Rightarrow> u32 \<Rightarrow> u32 \<Rightarrow> 'a fsys_scheme \<Rightarrow> (u32 \<times> 'a fsys_scheme) res" where
  "writei_loop ip src off r s =
    (if r = 0 then Inr (off, s)
     else bindr (bmap ip (off div 512) s) (\<lambda>(b, s).
       let m = min r (512 - off mod 512);
           dev = i_dev (ino ip s);
           d = put_at (unat (off mod 512)) (take (unat m) src) (blocks s (dev, b))
       in bindr (log_write dev b d s) (\<lambda>(_, s).
          writei_loop ip (drop (unat m) src) (off + m) (r - m) s)))"
  by pat_completeness auto
termination
  by (relation "measure (\<lambda>(ip, src, off, r, s). unat r)") (simp_all add: chunk_pos)

declare writei_loop.simps [simp del]

text \<open>\<open>writei\<close> of the bytes \<open>src\<close>; \<open>n\<close> is their number.\<close>

definition writei :: "'a fsys_scheme devsw \<Rightarrow> nat \<Rightarrow> u8 list \<Rightarrow> u32 \<Rightarrow> 'a fsys_scheme \<Rightarrow>
    (int \<times> 'a fsys_scheme) res" where
  "writei D ip src off s =
    (let i = ino ip s; n = word_of_nat (length src) in
     if i_type i = T_DEV then
       if \<not> dev_ok i then Inr (-1, s)
       else case D (unat (i_major i)) of
              None \<Rightarrow> Inr (-1, s)
            | Some dv \<Rightarrow> dev_write dv ip src s
     else if off > i_size i \<or> off + n < off then Inr (-1, s)
     else if off + n > MAXFILE_BYTES then Inr (-1, s)
     else bindr (writei_loop ip src off n s) (\<lambda>(off, s).
       bindr (if n > 0 \<and> off > i_size (ino ip s)
              then iupdate ip (set_ino ip ((ino ip s)\<lparr>i_size := off\<rparr>) s)
              else Inr ((), s)) (\<lambda>(_, s).
       Inr (sint n, s))))"

section \<open>Directories\<close>

text \<open>C strings and name buffers are byte lists; the terminating zero is implicit.\<close>

definition cstr :: "u8 list \<Rightarrow> bytes" where
  "cstr xs = (\<lambda>i. if i < length xs then xs ! i else 0)"

definition namecmp :: "u8 list \<Rightarrow> u8 list \<Rightarrow> int" where
  "namecmp s t = strncmp (cstr s) (cstr t) DIRSIZ"

text \<open>\<open>struct dirent\<close>: a 16-bit inode number and 14 bytes of name.\<close>

definition de_inum :: "u8 list \<Rightarrow> u16" where
  "de_inum de = rd16 (cstr de) 0"

definition de_name :: "u8 list \<Rightarrow> u8 list" where
  "de_name de = drop 2 de"

definition mk_dirent :: "u8 list \<Rightarrow> u16 \<Rightarrow> u8 list" where
  "mk_dirent name inum = get_at 0 2 (wr16 0 inum (\<lambda>_. 0)) @ get_at 0 DIRSIZ (strncpy (cstr name) DIRSIZ (\<lambda>_. 0))"

lemma off_measure: "\<not> off + 16 < (off :: u32) \<Longrightarrow> 4294967296 - unat (off + 16) < 4294967296 - unat off"
proof -
  assume a: "\<not> off + 16 < off"
  have "unat off + 16 < 4294967296"
  proof (rule ccontr)
    assume big: "\<not> unat off + 16 < 4294967296"
    then have "unat (off + 16) = unat off + 16 - 4294967296"
      using unat_u32_bound [of off] by (simp add: unat_word_ariths take_bit_nat_eq_self_iff mod_if)
    then have "unat (off + 16) < unat off" using big by linarith
    then show False using a unfolding word_less_nat_alt by contradiction
  qed
  then show ?thesis using unat_add_nowrap [of off 16] by simp
qed

function dirlookup_from :: "'a fsys_scheme devsw \<Rightarrow> nat \<Rightarrow> u8 list \<Rightarrow> u32 \<Rightarrow> 'a fsys_scheme \<Rightarrow>
    ((nat \<times> u32) option \<times> 'a fsys_scheme) res" where
  "dirlookup_from D dp name off s =
    (if off < i_size (ino dp s) then
       bindr (readi D dp off 16 s) (\<lambda>((r, de), s).
       if r \<noteq> 16 then Inl (Panic ''dirlookup read'')
       else if de_inum de = 0 \<or> namecmp name (de_name de) \<noteq> 0 then
         if off + 16 < off then Inl Diverge else dirlookup_from D dp name (off + 16) s
       else bindr (iget (i_dev (ino dp s)) (ucast (de_inum de)) s) (\<lambda>(ip, s). Inr (Some (ip, off), s)))
     else Inr (None, s))"
  by pat_completeness auto
termination
  by (relation "measure (\<lambda>(D, dp, name, off, s). 4294967296 - unat off)") (simp_all add: off_measure)

declare dirlookup_from.simps [simp del]

text \<open>The inode found, with the offset of its entry.\<close>

definition dirlookup :: "'a fsys_scheme devsw \<Rightarrow> nat \<Rightarrow> u8 list \<Rightarrow> 'a fsys_scheme \<Rightarrow>
    ((nat \<times> u32) option \<times> 'a fsys_scheme) res" where
  "dirlookup D dp name s =
    (if i_type (ino dp s) \<noteq> T_DIR then Inl (Panic ''dirlookup not DIR'')
     else dirlookup_from D dp name 0 s)"

function dirlink_slot :: "'a fsys_scheme devsw \<Rightarrow> nat \<Rightarrow> u32 \<Rightarrow> 'a fsys_scheme \<Rightarrow> (u32 \<times> 'a fsys_scheme) res" where
  "dirlink_slot D dp off s =
    (if off < i_size (ino dp s) then
       bindr (readi D dp off 16 s) (\<lambda>((r, de), s).
       if r \<noteq> 16 then Inl (Panic ''dirlink read'')
       else if de_inum de = 0 then Inr (off, s)
       else if off + 16 < off then Inl Diverge
       else dirlink_slot D dp (off + 16) s)
     else Inr (off, s))"
  by pat_completeness auto
termination
  by (relation "measure (\<lambda>(D, dp, off, s). 4294967296 - unat off)") (simp_all add: off_measure)

declare dirlink_slot.simps [simp del]

definition dirlink :: "'a fsys_scheme devsw \<Rightarrow> nat \<Rightarrow> u8 list \<Rightarrow> u32 \<Rightarrow> 'a fsys_scheme \<Rightarrow> (int \<times> 'a fsys_scheme) res" where
  "dirlink D dp name inum s =
     bindr (dirlookup D dp name s) (\<lambda>(found, s).
     case found of
       Some (ip, _) \<Rightarrow> bindr (iput ip s) (\<lambda>(_, s). Inr (-1, s))
     | None \<Rightarrow>
         bindr (dirlink_slot D dp 0 s) (\<lambda>(off, s).
         bindr (writei D dp (mk_dirent name (ucast inum)) off s) (\<lambda>(r, s).
         if r \<noteq> 16 then Inl (Panic ''dirlink'') else Inr (0, s))))"

section \<open>Paths\<close>

abbreviation (input) slash :: u8 where "slash \<equiv> 47"

definition skipelem :: "u8 list \<Rightarrow> (u8 list \<times> u8 list) option" where
  "skipelem path =
    (let path = dropWhile (\<lambda>c. c = slash) path in
     if path = [] then None
     else
       let elem = takeWhile (\<lambda>c. c \<noteq> slash) path;
           path = dropWhile (\<lambda>c. c \<noteq> slash) path;
           name = (if length elem \<ge> DIRSIZ then take DIRSIZ elem else elem)
       in Some (name, dropWhile (\<lambda>c. c = slash) path))"

lemma skipelem_shorter: "skipelem path = Some (name, rest) \<Longrightarrow> length rest < length path"
proof -
  assume a: "skipelem path = Some (name, rest)"
  define p where "p = dropWhile (\<lambda>c. c = slash) path"
  have r: "rest = dropWhile (\<lambda>c. c = slash) (dropWhile (\<lambda>c. c \<noteq> slash) p)" and "p \<noteq> []"
    using a by (auto simp: skipelem_def p_def Let_def split: if_splits)
  then have "hd p \<noteq> slash" using hd_dropWhile [of "\<lambda>c. c = slash" path] by (auto simp: p_def)
  then have "dropWhile (\<lambda>c. c \<noteq> slash) p = dropWhile (\<lambda>c. c \<noteq> slash) (tl p)"
    using \<open>p \<noteq> []\<close> by (cases p) auto
  moreover have "length (dropWhile P ys) \<le> length ys" for P and ys :: "u8 list" by (rule length_dropWhile_le)
  ultimately have "length rest \<le> length (tl p)" unfolding r by (metis order_trans)
  moreover have "length (tl p) < length p" using \<open>p \<noteq> []\<close> by simp
  moreover have "length p \<le> length path" unfolding p_def by (rule length_dropWhile_le)
  ultimately show ?thesis by simp
qed

text \<open>The loop of \<open>namex\<close>. It returns the inode and the last name copied.\<close>

function namex_loop :: "'a fsys_scheme devsw \<Rightarrow> u8 list \<Rightarrow> bool \<Rightarrow> nat \<Rightarrow> u8 list \<Rightarrow> 'a fsys_scheme \<Rightarrow>
    ((nat option \<times> u8 list) \<times> 'a fsys_scheme) res" where
  "namex_loop D path nip ip name0 s =
    (case skipelem path of
       None \<Rightarrow>
         if nip then bindr (iput ip s) (\<lambda>(_, s). Inr ((None, name0), s)) else Inr ((Some ip, name0), s)
     | Some (name, path) \<Rightarrow>
         bindr (ilock (Some ip) s) (\<lambda>(_, s).
         if i_type (ino ip s) \<noteq> T_DIR then bindr (iunlockput ip s) (\<lambda>(_, s). Inr ((None, name), s))
         else if nip \<and> path = [] then bindr (iunlock (Some ip) s) (\<lambda>(_, s). Inr ((Some ip, name), s))
         else bindr (dirlookup D ip name s) (\<lambda>(nxt, s).
           case nxt of
             None \<Rightarrow> bindr (iunlockput ip s) (\<lambda>(_, s). Inr ((None, name), s))
           | Some (nx, _) \<Rightarrow> bindr (iunlockput ip s) (\<lambda>(_, s). namex_loop D path nip nx name s))))"
  by pat_completeness auto
termination
  by (relation "measure (\<lambda>(D, path, nip, ip, name0, s). length path)") (auto dest: skipelem_shorter)

declare namex_loop.simps [simp del]

definition namex :: "'a fsys_scheme devsw \<Rightarrow> nat option \<Rightarrow> u8 list \<Rightarrow> bool \<Rightarrow> 'a fsys_scheme \<Rightarrow>
    ((nat option \<times> u8 list) \<times> 'a fsys_scheme) res" where
  "namex D cwd path nip s =
     bindr (case path of
              c # _ \<Rightarrow> if c = slash then iget ROOTDEV ROOTINO s
                       else (case cwd of None \<Rightarrow> Inl NullDeref | Some ip \<Rightarrow> Inr (idup ip s))
            | [] \<Rightarrow> (case cwd of None \<Rightarrow> Inl NullDeref | Some ip \<Rightarrow> Inr (idup ip s))) (\<lambda>(ip, s).
     namex_loop D path nip ip [] s)"

definition namei :: "'a fsys_scheme devsw \<Rightarrow> nat option \<Rightarrow> u8 list \<Rightarrow> 'a fsys_scheme \<Rightarrow> (nat option \<times> 'a fsys_scheme) res" where
  "namei D cwd path s = bindr (namex D cwd path False s) (\<lambda>((ip, _), s). Inr (ip, s))"

definition nameiparent :: "'a fsys_scheme devsw \<Rightarrow> nat option \<Rightarrow> u8 list \<Rightarrow> 'a fsys_scheme \<Rightarrow>
    ((nat option \<times> u8 list) \<times> 'a fsys_scheme) res" where
  "nameiparent D cwd path s = namex D cwd path True s"

text \<open>\<open>itoa\<close>: the first loop of the code only finds the end of the text, the second one puts the digits
  in front of it. Negating the smallest integer leaves it negative, and the digit table is then
  read out of bounds.\<close>

function itoa_digits :: "int \<Rightarrow> u8 list \<Rightarrow> u8 list" where
  "itoa_digits i acc =
    (let acc = (48 + word_of_int (i mod 10)) # acc
     in if i div 10 \<le> 0 then acc else itoa_digits (i div 10) acc)"
  by pat_completeness auto
termination
  by (relation "measure (\<lambda>(i, acc). nat i)") auto

declare itoa_digits.simps [simp del]

definition itoa :: "int \<Rightarrow> u8 list res" where
  "itoa i =
    (if i = - 2147483648 then Inl OutOfBounds
     else if i < 0 then Inr (45 # itoa_digits (- i) []) else Inr (itoa_digits i []))"

end
