(* ===== verification/Pagetable.thy ===== *)
theory Pagetable
  imports Kalloc
begin

text \<open>
  The two-level page tables of \<open>vm.c\<close>: \<open>walkpgdir\<close>, \<open>mappages\<close>, \<open>clearpteu\<close>, \<open>uva2ka\<close>, \<open>copyout\<close> and the
  helpers of the paging code that read or change the flags of one entry. Page directories and page
  tables are frames of physical memory like any other; a pointer to an entry is the frame and the
  index in it.

  \<open>pte_of\<close> is the entry the hardware finds for an address. \<open>pt_ok\<close> says that a page directory is a
  proper tree: its tables are distinct allocated frames. The lemmas say that \<open>walkpgdir\<close> finds or
  makes the right entry without changing any translation, that writing an entry changes the
  translation of one page only, that \<open>mappages\<close> maps exactly the requested pages (or stops when
  memory is exhausted), that other page tables and other frames are untouched, and that \<open>copyout\<close>
  stores exactly the requested bytes.
\<close>

unbundle bit_operations_syntax

section \<open>Bytes of physical memory\<close>

definition get_byte :: "(nat \<Rightarrow> u32) \<Rightarrow> nat \<Rightarrow> u8" where
  "get_byte pg k = ucast (drop_bit (8 * (k mod 4)) (pg (k div 4)))"

definition put_byte :: "nat \<Rightarrow> u8 \<Rightarrow> (nat \<Rightarrow> u32) \<Rightarrow> nat \<Rightarrow> u32" where
  "put_byte k b pg = pg(k div 4 :=
     (pg (k div 4) AND NOT (push_bit (8 * (k mod 4)) 0xFF)) OR push_bit (8 * (k mod 4)) (ucast b))"

fun put_bytes :: "nat \<Rightarrow> u8 list \<Rightarrow> (nat \<Rightarrow> u32) \<Rightarrow> nat \<Rightarrow> u32" where
  "put_bytes k [] pg = pg"
| "put_bytes k (b # bs) pg = put_bytes (Suc k) bs (put_byte k b pg)"

definition get_bytes :: "(nat \<Rightarrow> u32) \<Rightarrow> nat \<Rightarrow> nat \<Rightarrow> u8 list" where
  "get_bytes pg k n = map (\<lambda>i. get_byte pg (k + i)) [0..<n]"

lemma get_put_byte: "get_byte (put_byte k b pg) j = (if j = k then b else get_byte pg j)"
proof (cases "j div 4 = k div 4")
  case False
  then have "j \<noteq> k" by auto
  with False show ?thesis by (simp add: get_byte_def put_byte_def)
next
  case True
  have jk: "j = k \<longleftrightarrow> j mod 4 = k mod 4"
    using True by (metis mod_mult_div_eq)
  show ?thesis
  proof (rule bit_word_eqI)
    fix n assume "n < LENGTH(8)"
    then have n: "n < 8" by simp
    have m: "j mod 4 < 4" "k mod 4 < 4" by simp_all
    then have "8 * (j mod 4) + n < 32" using n by linarith
    moreover have "8 * (k mod 4) \<le> 8 * (j mod 4) + n \<and> 8 * (j mod 4) + n - 8 * (k mod 4) < 8 \<longleftrightarrow> j = k"
      unfolding jk using n by linarith
    ultimately show "bit (get_byte (put_byte k b pg) j) n \<longleftrightarrow> bit (if j = k then b else get_byte pg j) n"
      using True n by (auto simp: get_byte_def put_byte_def bit_simps bit_255 dest: bit_imp_le_length)
  qed
qed

lemma get_put_bytes:
  "get_byte (put_bytes k bs pg) j = (if k \<le> j \<and> j < k + length bs then bs ! (j - k) else get_byte pg j)"
  by (induction bs arbitrary: k pg) (auto simp: get_put_byte nth_Cons' )

lemma length_get_bytes [simp]: "length (get_bytes pg k n) = n"
  by (simp add: get_bytes_def)

lemma nth_get_bytes [simp]: "i < n \<Longrightarrow> get_bytes pg k n ! i = get_byte pg (k + i)"
  by (simp add: get_bytes_def)

section \<open>Walking and mapping\<close>

type_synonym pte_ptr = "u32 \<times> nat"    \<comment> \<open>frame, index\<close>

definition load :: "pte_ptr \<Rightarrow> 'a phys_scheme \<Rightarrow> u32" where
  "load r s = pmem s (fst r) (snd r)"

definition store :: "pte_ptr \<Rightarrow> u32 \<Rightarrow> 'a phys_scheme \<Rightarrow> 'a phys_scheme" where
  "store r v s = s\<lparr>pmem := (pmem s)(fst r := (pmem s (fst r))(snd r := v))\<rparr>"

definition walkpgdir :: "u32 \<Rightarrow> u32 \<Rightarrow> bool \<Rightarrow> 'a phys_scheme \<Rightarrow> (pte_ptr option \<times> 'a phys_scheme) res" where
  "walkpgdir pgdir va alloc s =
    (let pde = (V2P pgdir, PDX va) in
     if load pde s AND PTE_P \<noteq> 0 then Inr (Some (PTE_ADDR (load pde s), PTX va), s)
     else if \<not> alloc then Inr (None, s)
     else bindr (kalloc s) (\<lambda>(pgtab, s).
       if pgtab = 0 then Inr (None, s)
       else
         let s = s\<lparr>pmem := (pmem s)(V2P pgtab := fill_page 0)\<rparr>;
             s = store pde (V2P pgtab OR PTE_P OR PTE_W OR PTE_U) s
         in Inr (Some (V2P pgtab, PTX va), s)))"

text \<open>The loop of \<open>mappages\<close>. Both \<open>a\<close> and \<open>lst\<close> (\<open>last\<close>) are page addresses, so it ends when they meet; from
  any other start it would go round the address space for ever.\<close>

lemma mappages_step:
  assumes "(lst - a) AND 0xFFF = 0" and "a \<noteq> (lst :: u32)"
  shows "unat (lst - (a + PGSIZE)) < unat (lst - a)"
proof -
  have "unat (lst - a) mod 4096 = 0"
    using assms(1) unat_and_4095 [of "lst - a"] by simp
  then obtain k where k: "unat (lst - a) = 4096 * k" by (metis dvd_def mod_0_imp_dvd)
  moreover have "unat (lst - a) \<noteq> 0" using assms(2) unat_eq_zero [of "lst - a"] by simp
  ultimately have ge: "4096 \<le> unat (lst - a)" by simp
  have "unat (lst - (a + PGSIZE)) = unat (lst - a) - unat PGSIZE"
    unfolding diff_diff_eq [symmetric] using ge unat_sub_nowrap [of PGSIZE "lst - a"] by simp
  then show ?thesis using ge by simp
qed

function mappages_from :: "u32 \<Rightarrow> u32 \<Rightarrow> u32 \<Rightarrow> u32 \<Rightarrow> u32 \<Rightarrow> 'a phys_scheme \<Rightarrow> (int \<times> 'a phys_scheme) res" where
  "mappages_from pgdir a lst pa perm s =
    (if (lst - a) AND 0xFFF \<noteq> 0 then Inl Diverge
     else bindr (walkpgdir pgdir a True s) (\<lambda>(pte, s).
       case pte of
         None \<Rightarrow> Inr (-1, s)
       | Some pte \<Rightarrow>
           if load pte s AND PTE_P \<noteq> 0 then Inl (Panic ''remap'')
           else
             let s = store pte (pa OR perm OR PTE_P) s
             in if a = lst then Inr (0, s)
                else mappages_from pgdir (a + PGSIZE) lst (pa + PGSIZE) perm s))"
  by pat_completeness auto
termination
  by (relation "measure (\<lambda>(pgdir, a, lst, pa, perm, s). unat (lst - a))") (auto simp: mappages_step)

declare mappages_from.simps [simp del]

definition mappages :: "u32 \<Rightarrow> u32 \<Rightarrow> u32 \<Rightarrow> u32 \<Rightarrow> u32 \<Rightarrow> 'a phys_scheme \<Rightarrow> (int \<times> 'a phys_scheme) res" where
  "mappages pgdir va sz pa perm s =
     mappages_from pgdir (PGROUNDDOWN va) (PGROUNDDOWN (va + sz - 1)) pa perm s"

section \<open>Single entries\<close>

definition clearpteu :: "u32 \<Rightarrow> u32 \<Rightarrow> 'a phys_scheme \<Rightarrow> (unit \<times> 'a phys_scheme) res" where
  "clearpteu pgdir uva s =
     bindr (walkpgdir pgdir uva False s) (\<lambda>(pte, s).
     case pte of
       None \<Rightarrow> Inl (Panic ''clearpteu'')
     | Some pte \<Rightarrow> Inr ((), store pte (load pte s AND NOT PTE_U) s))"

definition uva2ka :: "u32 \<Rightarrow> u32 \<Rightarrow> 'a phys_scheme \<Rightarrow> (u32 \<times> 'a phys_scheme) res" where
  "uva2ka pgdir uva s =
     bindr (walkpgdir pgdir uva False s) (\<lambda>(pte, s).
     case pte of
       None \<Rightarrow> Inl NullDeref
     | Some pte \<Rightarrow>
         if load pte s AND PTE_P = 0 then Inr (0, s)
         else if load pte s AND PTE_U = 0 then Inr (0, s)
         else Inr (P2V (PTE_ADDR (load pte s)), s))"

definition setFlagsOnSwap :: "u32 \<Rightarrow> u32 \<Rightarrow> bool \<Rightarrow> 'a phys_scheme \<Rightarrow> (unit \<times> 'a phys_scheme) res" where
  "setFlagsOnSwap pgdir virtAddr swapIn s =
     bindr (walkpgdir pgdir virtAddr False s) (\<lambda>(pte, s).
     case pte of
       None \<Rightarrow> Inl (Panic ''setFlagsOnSwap: pte == 0'')
     | Some pte \<Rightarrow>
         if swapIn then
           let s = store pte (load pte s AND NOT PTE_PG) s
           in Inr ((), store pte (load pte s OR PTE_P) s)
         else
           let s = store pte (load pte s AND NOT PTE_P) s
           in Inr ((), store pte (load pte s OR PTE_PG) s))"

definition is_PTE_A :: "u32 \<Rightarrow> u32 \<Rightarrow> 'a phys_scheme \<Rightarrow> (u32 \<times> 'a phys_scheme) res" where
  "is_PTE_A pgdir virtualAddr s =
     bindr (walkpgdir pgdir virtualAddr False s) (\<lambda>(pte, s).
     case pte of
       None \<Rightarrow> Inl (Panic ''is_PTE_A: fail'')
     | Some pte \<Rightarrow> Inr (if load pte s AND PTE_A \<noteq> 0 then 1 else 0, s))"

definition PTE_A_off :: "u32 \<Rightarrow> u32 \<Rightarrow> 'a phys_scheme \<Rightarrow> (unit \<times> 'a phys_scheme) res" where
  "PTE_A_off pgdir virtualAddr s =
     bindr (walkpgdir pgdir virtualAddr False s) (\<lambda>(pte, s).
     case pte of
       None \<Rightarrow> Inl (Panic ''PTE_A_off: fail'')
     | Some pte \<Rightarrow> Inr ((), store pte (load pte s AND NOT PTE_A) s))"

lemma page_offset: "unat (va - PGROUNDDOWN va) = unat va mod 4096"
proof -
  have "va - PGROUNDDOWN va = va AND 0xFFF"
    using and_minus_4096_eq [of va] by (simp add: PGROUNDDOWN_def)
  then show ?thesis by (simp add: unat_and_4095)
qed

text \<open>\<open>copyout\<close> writes the bytes of \<open>buf\<close> page by page; \<open>len\<close> is their number.\<close>

function copyout :: "u32 \<Rightarrow> u32 \<Rightarrow> u8 list \<Rightarrow> 'a phys_scheme \<Rightarrow> (int \<times> 'a phys_scheme) res" where
  "copyout pgdir va buf s =
    (if buf = [] then Inr (0, s)
     else
       let va0 = PGROUNDDOWN va
       in bindr (uva2ka pgdir va0 s) (\<lambda>(pa0, s).
         if pa0 = 0 then Inr (-1, s)
         else
           let n = min (4096 - unat (va - va0)) (length buf);
               s = s\<lparr>pmem := (pmem s)(V2P pa0 := put_bytes (unat (va - va0)) (take n buf) (pmem s (V2P pa0)))\<rparr>
           in copyout pgdir (va0 + PGSIZE) (drop n buf) s))"
  by pat_completeness auto

termination
  by (relation "measure (\<lambda>(pgdir, va, buf, s). length buf)")
    (auto simp: page_offset min_def diff_less_mono2 dest: mod_less_divisor)

declare copyout.simps [simp del]

section \<open>The view of the hardware\<close>

definition pde_of :: "u32 \<Rightarrow> nat \<Rightarrow> 'a phys_scheme \<Rightarrow> u32" where
  "pde_of pgdir i s = pmem s (V2P pgdir) i"

definition pte_of :: "u32 \<Rightarrow> u32 \<Rightarrow> 'a phys_scheme \<Rightarrow> u32" where
  "pte_of pgdir va s =
    (if bit (pde_of pgdir (PDX va) s) 0 then pmem s (PTE_ADDR (pde_of pgdir (PDX va) s)) (PTX va) else 0)"

text \<open>The page tables of a directory, as kernel addresses, and the frames of the whole tree.\<close>

definition tab :: "u32 \<Rightarrow> 'a phys_scheme \<Rightarrow> nat \<Rightarrow> u32" where
  "tab pgdir s i = P2V (PTE_ADDR (pde_of pgdir i s))"

definition present :: "u32 \<Rightarrow> 'a phys_scheme \<Rightarrow> nat set" where
  "present pgdir s = {i. i < 1024 \<and> bit (pde_of pgdir i s) 0}"

definition pt_frames :: "u32 \<Rightarrow> 'a phys_scheme \<Rightarrow> u32 set" where
  "pt_frames pgdir s = insert pgdir (tab pgdir s ` present pgdir s)"

definition pt_ok :: "u32 \<Rightarrow> u32 \<Rightarrow> 'a phys_scheme \<Rightarrow> bool" where
  "pt_ok E pgdir s \<longleftrightarrow>
     (\<forall>v \<in> pt_frames pgdir s. freeable E v \<and> 0 < refs s v) \<and>
     inj_on (tab pgdir s) (present pgdir s) \<and> pgdir \<notin> tab pgdir s ` present pgdir s"

text \<open>What an operation on one page table may do to the rest of memory: it takes unheld pages for
  new tables and writes only to tables of this directory.\<close>

definition pt_evolves :: "u32 \<Rightarrow> u32 \<Rightarrow> 'a phys_scheme \<Rightarrow> 'a phys_scheme \<Rightarrow> bool" where
  "pt_evolves E pgdir s s' \<longleftrightarrow>
     pt_frames pgdir s \<subseteq> pt_frames pgdir s' \<and>
     (\<forall>v \<in> pt_frames pgdir s'. v \<in> pt_frames pgdir s \<or> refs s v = 0) \<and>
     (\<forall>v. freeable E v \<and> 0 < refs s v \<longrightarrow>
        refs s' v = refs s v \<and> (v \<notin> pt_frames pgdir s \<longrightarrow> pmem s' (V2P v) = pmem s (V2P v))) \<and>
     (\<forall>pa. \<not> freeable E (P2V pa) \<longrightarrow> pmem s' pa = pmem s pa) \<and>
     phys.more s' = phys.more s"

lemma pt_evolves_refl [simp]: "pt_evolves E pgdir s s"
  by (simp add: pt_evolves_def)

lemma pt_evolves_trans:
  assumes "pt_evolves E pgdir s s'" "pt_evolves E pgdir s' s''"
    and "\<forall>v \<in> pt_frames pgdir s''. freeable E v"
  shows "pt_evolves E pgdir s s''"
  unfolding pt_evolves_def
proof (intro conjI ballI allI impI)
  show "pt_frames pgdir s \<subseteq> pt_frames pgdir s''" using assms(1,2) by (auto simp: pt_evolves_def)
next
  fix v assume v: "v \<in> pt_frames pgdir s''"
  show "v \<in> pt_frames pgdir s \<or> refs s v = 0"
  proof (cases "refs s v = 0")
    case False
    then have "refs s' v = refs s v" using assms(1,3) v by (auto simp: pt_evolves_def)
    then have "v \<in> pt_frames pgdir s'" using assms(2) v False by (auto simp: pt_evolves_def)
    then show ?thesis using assms(1) by (auto simp: pt_evolves_def)
  qed simp
next
  fix v assume v: "freeable E v \<and> 0 < refs s v"
  then have r: "refs s' v = refs s v" using assms(1) by (auto simp: pt_evolves_def)
  then show "refs s'' v = refs s v" using assms(2) v by (auto simp: pt_evolves_def)
  assume n: "v \<notin> pt_frames pgdir s"
  then have "v \<notin> pt_frames pgdir s'" using assms(1) v by (auto simp: pt_evolves_def)
  then show "pmem s'' (V2P v) = pmem s (V2P v)" using assms(1,2) v r n by (auto simp: pt_evolves_def)
qed (use assms in \<open>auto simp: pt_evolves_def\<close>)

lemma refs_pmem [simp]: "refs (s\<lparr>pmem := m\<rparr>) v = refs s v"
  by (simp add: refs_def)

lemma refs_store [simp]: "refs (store r w s) v = refs s v"
  by (simp add: store_def)

lemma kmem_ok_write:
  assumes "kmem_ok E s xs" "v \<notin> set xs"
  shows "kmem_ok E (s\<lparr>pmem := (pmem s)(V2P v := pg)\<rparr>) xs"
  using assms by (simp add: kmem_ok_def)

lemma store_frame: "store (V2P v, i) w s = s\<lparr>pmem := (pmem s)(V2P v := (pmem s (V2P v))(i := w))\<rparr>"
  by (simp add: store_def)

lemma kmem_ok_store:
  assumes "kmem_ok E s xs" "v \<notin> set xs"
  shows "kmem_ok E (store (V2P v, i) w s) xs"
  unfolding store_frame by (rule kmem_ok_write [OF assms])

lemma walk_found:
  "bit (pde_of pgdir (PDX va) s) 0 \<Longrightarrow>
   walkpgdir pgdir va al s = Inr (Some (V2P (tab pgdir s (PDX va)), PTX va), s)"
  by (simp add: walkpgdir_def load_def pde_of_def tab_def flag_bits Let_def)

lemma walk_absent:
  "\<not> bit (pde_of pgdir (PDX va) s) 0 \<Longrightarrow> walkpgdir pgdir va False s = Inr (None, s)"
  by (simp add: walkpgdir_def load_def pde_of_def flag_bits Let_def)

lemma load_pte_of:
  "bit (pde_of pgdir (PDX va) s) 0 \<Longrightarrow> load (V2P (tab pgdir s (PDX va)), PTX va) s = pte_of pgdir va s"
  by (simp add: load_def pte_of_def tab_def)

lemma present_PDX: "PDX va \<in> present pgdir s \<longleftrightarrow> bit (pde_of pgdir (PDX va) s) 0"
  by (simp add: present_def)

lemma pt_okD:
  assumes "pt_ok E pgdir s"
  shows "freeable E pgdir" "0 < refs s pgdir"
    "\<And>i. i \<in> present pgdir s \<Longrightarrow> freeable E (tab pgdir s i) \<and> 0 < refs s (tab pgdir s i) \<and> tab pgdir s i \<noteq> pgdir"
    "\<And>i j. i \<in> present pgdir s \<Longrightarrow> j \<in> present pgdir s \<Longrightarrow> tab pgdir s i = tab pgdir s j \<Longrightarrow> i = j"
  using assms by (auto simp: pt_ok_def pt_frames_def inj_on_def) (metis image_eqI)

text \<open>Writing the entry of \<open>va\<close>.\<close>

definition set_pte :: "u32 \<Rightarrow> u32 \<Rightarrow> u32 \<Rightarrow> 'a phys_scheme \<Rightarrow> 'a phys_scheme" where
  "set_pte pgdir va w s = store (V2P (tab pgdir s (PDX va)), PTX va) w s"

lemma set_pte_pde:
  assumes "pt_ok E pgdir s" "PDX va \<in> present pgdir s"
  shows "pde_of pgdir i (set_pte pgdir va w s) = pde_of pgdir i s"
  using pt_okD(3) [OF assms] by (auto simp: set_pte_def store_def pde_of_def)

lemma pmem_set_pte:
  "pmem (set_pte pgdir va w s) pa i =
    (if pa = PTE_ADDR (pde_of pgdir (PDX va) s) \<and> i = PTX va then w else pmem s pa i)"
  by (simp add: set_pte_def store_def tab_def)

lemma set_pte_tree:
  assumes "pt_ok E pgdir s" "PDX va \<in> present pgdir s"
  shows "tab pgdir (set_pte pgdir va w s) = tab pgdir s"
    "present pgdir (set_pte pgdir va w s) = present pgdir s"
    "pt_frames pgdir (set_pte pgdir va w s) = pt_frames pgdir s"
  by (auto simp: tab_def present_def pt_frames_def set_pte_pde [OF assms])

lemma set_pte_ok:
  assumes "pt_ok E pgdir s" "PDX va \<in> present pgdir s"
  shows "pt_ok E pgdir (set_pte pgdir va w s)"
  using assms(1) by (simp add: pt_ok_def set_pte_tree [OF assms]) (simp add: set_pte_def)

lemma pte_of_set_pte:
  assumes "pt_ok E pgdir s" "PDX va \<in> present pgdir s"
  shows "pte_of pgdir va' (set_pte pgdir va w s) =
    (if unat va' div 4096 = unat va div 4096 then w else pte_of pgdir va' s)"
proof -
  show ?thesis
  proof (cases "PDX va' \<in> present pgdir s")
    case False
    then have "PDX va' \<noteq> PDX va" using assms(2) by metis
    then show ?thesis
      using False same_page [of va' va] by (auto simp: pte_of_def set_pte_pde [OF assms] present_PDX)
  next
    case True
    have "PTE_ADDR (pde_of pgdir (PDX va') s) = PTE_ADDR (pde_of pgdir (PDX va) s) \<longleftrightarrow> PDX va' = PDX va"
      using pt_okD(4) [OF assms(1) True assms(2)] by (auto simp: tab_def)
    then show ?thesis
      using True same_page [of va' va]
      by (auto simp: pte_of_def set_pte_pde [OF assms] present_PDX pmem_set_pte)
  qed
qed

lemma set_pte_evolves:
  assumes "pt_ok E pgdir s" "PDX va \<in> present pgdir s"
  shows "pt_evolves E pgdir s (set_pte pgdir va w s)"
proof -
  have t: "tab pgdir s (PDX va) \<in> pt_frames pgdir s" "freeable E (tab pgdir s (PDX va))"
    using assms pt_okD(3) [OF assms] by (auto simp: pt_frames_def)
  then have "pmem (set_pte pgdir va w s) (V2P v) = pmem s (V2P v)" if "v \<notin> pt_frames pgdir s" for v
    using that by (auto simp: set_pte_def store_def)
  moreover have "pmem (set_pte pgdir va w s) pa = pmem s pa" if "\<not> freeable E (P2V pa)" for pa
    using that t by (auto simp: set_pte_def store_def)
  ultimately show ?thesis
    by (auto simp: pt_evolves_def set_pte_tree [OF assms]) (simp_all add: set_pte_def store_def)
qed

lemma set_pte_kmem:
  assumes "kmem_ok E s xs" "pt_ok E pgdir s" "PDX va \<in> present pgdir s"
  shows "kmem_ok E (set_pte pgdir va w s) xs"
  unfolding set_pte_def using pt_okD(3) [OF assms(2,3)] kmem_ok_refs_pos [OF assms(1)]
  by (auto intro: kmem_ok_store [OF assms(1)])

section \<open>Making a page table\<close>

definition new_tab :: "u32 \<Rightarrow> u32 \<Rightarrow> nat \<Rightarrow> 'a phys_scheme \<Rightarrow> 'a phys_scheme" where
  "new_tab pgdir x d s = store (V2P pgdir, d) (V2P x OR 7)
     ((took x s)\<lparr>pmem := (pmem s)(V2P x := fill_page 0)\<rparr>)"

lemma walk_full:
  assumes "kmem_ok E s []" "\<not> bit (pde_of pgdir (PDX va) s) 0"
  shows "walkpgdir pgdir va True s = Inr (None, s)"
  using assms(2) kalloc_empty [OF assms(1)] by (simp add: walkpgdir_def load_def pde_of_def flag_bits Let_def)

lemma fill_page_0 [simp]: "fill_page 0 i = 0"
  by (simp add: fill_page_def)

lemma walk_new:
  assumes "kmem_ok E s (x # xs)" "\<not> bit (pde_of pgdir (PDX va) s) 0"
  shows "walkpgdir pgdir va True s = Inr (Some (V2P x, PTX va), new_tab pgdir x (PDX va) s)"
proof -
  have "x \<noteq> 0" using kmem_okD(5) [OF assms(1)] freeable_nonzero by auto
  moreover have "pmem (took x s) = pmem s" by (simp add: took_def)
  ultimately show ?thesis
    using assms(2) kalloc_Cons [OF assms(1)]
    by (simp add: walkpgdir_def load_def pde_of_def flag_bits Let_def new_tab_def or.assoc)
qed

lemma new_tab_pmem:
  "x \<noteq> pgdir \<Longrightarrow> pmem (new_tab pgdir x d s) pa i =
    (if pa = V2P pgdir \<and> i = d then V2P x OR 7
     else if pa = V2P x then 0 else pmem s pa i)"
  by (simp add: new_tab_def store_def)

lemma flags_only_7 [simp]: "flags_only 7"
  by (simp add: flags_only_def)

lemma bit_or_7: "bit (a OR 7 :: u32) 0"
  by (simp add: bit_or_iff)

lemma unheld_distinct:
  assumes "kmem_ok E s (x # xs)" "pt_ok E pgdir s"
  shows "x \<notin> pt_frames pgdir s" "freeable E x" "refs s x = 0" "x \<noteq> pgdir"
  using kmem_okD(5,6) [OF assms(1)] assms(2) by (fastforce simp: pt_ok_def pt_frames_def)+

lemma new_tab_pde:
  assumes "kmem_ok E s (x # xs)" "pt_ok E pgdir s"
  shows "pde_of pgdir i (new_tab pgdir x d s) = (if i = d then V2P x OR 7 else pde_of pgdir i s)"
  using unheld_distinct [OF assms] by (auto simp: pde_of_def new_tab_pmem)

lemma new_tab_tree:
  assumes "kmem_ok E s (x # xs)" "pt_ok E pgdir s" "d < 1024"
  shows "tab pgdir (new_tab pgdir x d s) i = (if i = d then x else tab pgdir s i)"
    "present pgdir (new_tab pgdir x d s) = insert d (present pgdir s)"
proof -
  have "PTE_ADDR (V2P x OR 7) = V2P x"
    using freeable_aligned [OF unheld_distinct(2) [OF assms(1,2)]] by (simp add: PTE_ADDR_or)
  then show "tab pgdir (new_tab pgdir x d s) i = (if i = d then x else tab pgdir s i)"
    by (simp add: tab_def new_tab_pde [OF assms(1,2)])
  show "present pgdir (new_tab pgdir x d s) = insert d (present pgdir s)"
    using assms(3) by (auto simp: present_def new_tab_pde [OF assms(1,2)] bit_or_7)
qed

lemma new_tab_frames:
  assumes "kmem_ok E s (x # xs)" "pt_ok E pgdir s" "d < 1024" "d \<notin> present pgdir s"
  shows "pt_frames pgdir (new_tab pgdir x d s) = insert x (pt_frames pgdir s)"
  using assms(4) by (auto simp: pt_frames_def new_tab_tree [OF assms(1-3)] image_iff)

lemma refs_new_tab [simp]: "refs (new_tab pgdir x d s) v = refs (took x s) v"
  by (simp add: new_tab_def)

lemma new_tab_ok:
  assumes k: "kmem_ok E s (x # xs)" and p: "pt_ok E pgdir s" and d: "d < 1024" "d \<notin> present pgdir s"
  shows "kmem_ok E (new_tab pgdir x d s) xs" "pt_ok E pgdir (new_tab pgdir x d s)"
    "pt_evolves E pgdir s (new_tab pgdir x d s)"
proof -
  note x = unheld_distinct [OF k p] and T = took_ok [OF k]
  have "x \<notin> set xs" "pgdir \<notin> set xs"
    using kmem_okD(4) [OF k] pt_okD(1,2) [OF p] kmem_ok_refs_pos [OF k] by auto
  then show "kmem_ok E (new_tab pgdir x d s) xs"
    using kmem_ok_store [OF kmem_ok_write [OF T(1)], of x pgdir] by (simp add: new_tab_def took_def)
  have r: "refs (took x s) v = (if v = x then 1 else refs s v)" if "freeable E v" for v
    using T(2,3) that by simp
  have "inj_on (tab pgdir (new_tab pgdir x d s)) (insert d (present pgdir s))"
    using p x(1) d(2) by (auto simp: inj_on_def new_tab_tree [OF k p d(1)] pt_ok_def pt_frames_def)
  moreover have "\<forall>v \<in> pt_frames pgdir s. freeable E v \<and> 0 < refs s v" using p by (simp add: pt_ok_def)
  ultimately show "pt_ok E pgdir (new_tab pgdir x d s)"
    using p x d r by (auto simp: pt_ok_def new_tab_frames [OF k p d] new_tab_tree [OF k p d(1)])
  have "pmem (new_tab pgdir x d s) pa = pmem s pa" if "pa \<noteq> V2P pgdir" "pa \<noteq> V2P x" for pa
    using that x(4) by (auto simp: new_tab_pmem fun_eq_iff)
  then show "pt_evolves E pgdir s (new_tab pgdir x d s)"
    using x r pt_okD(1) [OF p]
    by (auto simp: pt_evolves_def new_tab_frames [OF k p d]) (auto simp: pt_frames_def new_tab_def store_def took_def)
qed

lemma pte_of_new_tab:
  assumes k: "kmem_ok E s (x # xs)" and p: "pt_ok E pgdir s" and d: "d < 1024" "d \<notin> present pgdir s"
  shows "pte_of pgdir va (new_tab pgdir x d s) = pte_of pgdir va s"
proof -
  note x = unheld_distinct [OF k p]
  have a: "PTE_ADDR (V2P x OR 7) = V2P x"
    using freeable_aligned [OF x(2)] by (simp add: PTE_ADDR_or)
  show ?thesis
  proof (cases "PDX va = d")
    case True
    then have "\<not> bit (pde_of pgdir (PDX va) s) 0" using d(2) present_PDX by metis
    then show ?thesis
      using True x(4) a by (simp add: pte_of_def new_tab_pde [OF k p] new_tab_pmem bit_or_7)
  next
    case False
    have "P2V (PTE_ADDR (pde_of pgdir (PDX va) s)) \<in> pt_frames pgdir s"
      if "bit (pde_of pgdir (PDX va) s) 0"
      using that by (auto simp: pt_frames_def tab_def present_PDX)
    moreover have "P2V (PTE_ADDR (pde_of pgdir (PDX va) s)) \<noteq> pgdir" if "bit (pde_of pgdir (PDX va) s) 0"
      using pt_okD(3) [OF p, of "PDX va"] that by (auto simp: tab_def present_PDX)
    ultimately show ?thesis
      using False x(1,4) by (auto simp: pte_of_def new_tab_pde [OF k p] new_tab_pmem)
  qed
qed

text \<open>Both cases of \<open>walkpgdir\<close> with allocation, for the callers.\<close>

lemma walk_alloc:
  assumes k: "kmem_ok E s xs" and p: "pt_ok E pgdir s"
  obtains (full) "walkpgdir pgdir va True s = Inr (None, s)" "xs = []"
  | (got) s' ys where
      "walkpgdir pgdir va True s = Inr (Some (V2P (tab pgdir s' (PDX va)), PTX va), s')"
      "kmem_ok E s' ys" "pt_ok E pgdir s'" "pt_evolves E pgdir s s'" "PDX va \<in> present pgdir s'"
      "\<And>va'. pte_of pgdir va' s' = pte_of pgdir va' s" "length xs \<le> Suc (length ys)"
proof (cases "bit (pde_of pgdir (PDX va) s) 0")
  case True
  then show thesis using got [OF walk_found k p] by (simp add: present_PDX)
next
  case False
  show thesis
  proof (cases xs)
    case Nil
    then show thesis using full walk_full [OF _ False] k by auto
  next
    case (Cons x ys)
    then have k': "kmem_ok E s (x # ys)" using k by simp
    have d: "PDX va < 1024" "PDX va \<notin> present pgdir s" using False by (simp_all add: present_PDX)
    show thesis
      using got [of "new_tab pgdir x (PDX va) s" ys] walk_new [OF k' False] new_tab_ok [OF k' p d]
        pte_of_new_tab [OF k' p d] Cons by (simp add: new_tab_tree [OF k' p d(1)])
  qed
qed

section \<open>Mapping a range\<close>

text \<open>The pages of a range: the \<open>i\<close>-th page after \<open>a\<close>.\<close>

definition pg_at :: "u32 \<Rightarrow> nat \<Rightarrow> u32" where
  "pg_at a i = a + word_of_nat (4096 * i)"

lemma pg_at_0 [simp]: "pg_at a 0 = a"
  by (simp add: pg_at_def)

lemma pg_at_Suc: "pg_at a (Suc i) = pg_at (a + PGSIZE) i"
  by (simp add: pg_at_def algebra_simps)

lemma unat_pg_at:
  assumes "unat a + 4096 * i < 4294967296"
  shows "unat (pg_at a i) = unat a + 4096 * i"
proof -
  have "unat (word_of_nat (4096 * i) :: u32) = 4096 * i"
    using assms by (intro unat_word_of_nat) simp
  then show ?thesis using assms unat_add_nowrap [of a "word_of_nat (4096 * i)"] by (simp add: pg_at_def)
qed

lemma pg_at_page:
  assumes "unat a + 4096 * i < 4294967296"
  shows "unat (pg_at a i) div 4096 = unat a div 4096 + i"
  using unat_pg_at [OF assms] by simp

text \<open>After a complete run every page of the range is mapped to the corresponding frame and no other
  translation has changed; a run that is cut short did so for a prefix and left no free page.\<close>

definition mapped_upto :: "u32 \<Rightarrow> u32 \<Rightarrow> u32 \<Rightarrow> u32 \<Rightarrow> nat \<Rightarrow> 'a phys_scheme \<Rightarrow> 'a phys_scheme \<Rightarrow> bool" where
  "mapped_upto pgdir a pa perm k s s' \<longleftrightarrow>
    (\<forall>va. pte_of pgdir va s' =
      (if unat a div 4096 \<le> unat va div 4096 \<and> unat va div 4096 < unat a div 4096 + k
       then pg_at pa (unat va div 4096 - unat a div 4096) OR perm OR PTE_P
       else pte_of pgdir va s))"

lemma mapped_upto_0 [simp]: "mapped_upto pgdir a pa perm 0 s s' \<longleftrightarrow> (\<forall>va. pte_of pgdir va s' = pte_of pgdir va s)"
  by (auto simp: mapped_upto_def)

lemma mapped_upto_Suc:
  assumes u: "unat a + 4096 < 4294967296"
    and "\<And>va. pte_of pgdir va s1 = (if unat va div 4096 = unat a div 4096 then pa OR perm OR PTE_P else pte_of pgdir va s)"
    and "mapped_upto pgdir (a + PGSIZE) (pa + PGSIZE) perm k s1 s'"
  shows "mapped_upto pgdir a pa perm (Suc k) s s'"
proof -
  have n: "unat (a + PGSIZE) div 4096 = Suc (unat a div 4096)"
    using u unat_add_nowrap [of a PGSIZE] by simp
  have "pg_at (pa + PGSIZE) (unat va div 4096 - Suc (unat a div 4096)) = pg_at pa (unat va div 4096 - unat a div 4096)"
    if "Suc (unat a div 4096) \<le> unat va div 4096" for va
    using that by (simp add: pg_at_Suc [symmetric] Suc_diff_Suc)
  note shift = this
  show ?thesis unfolding mapped_upto_def
  proof
    fix va :: u32
    consider "unat va div 4096 = unat a div 4096" | "Suc (unat a div 4096) \<le> unat va div 4096"
      | "unat va div 4096 < unat a div 4096" by linarith
    then show "pte_of pgdir va s' = (if unat a div 4096 \<le> unat va div 4096 \<and> unat va div 4096 < unat a div 4096 + Suc k
       then pg_at pa (unat va div 4096 - unat a div 4096) OR perm OR PTE_P else pte_of pgdir va s)"
      using assms(2) [of va] assms(3) [unfolded mapped_upto_def n, rule_format, of va] shift [of va]
      by cases simp_all
  qed
qed

lemma mappages_from_spec:
  assumes "kmem_ok E s xs" "pt_ok E pgdir s"
    and "unat lst = unat a + 4096 * n" "unat a mod 4096 = 0"
    and "\<And>i. i \<le> n \<Longrightarrow> pte_of pgdir (pg_at a i) s AND PTE_P = 0"
  shows "\<exists>r s' k ys. mappages_from pgdir a lst pa perm s = Inr (r, s') \<and>
    kmem_ok E s' ys \<and> pt_ok E pgdir s' \<and> pt_evolves E pgdir s s' \<and>
    mapped_upto pgdir a pa perm k s s' \<and>
    (r = 0 \<and> k = Suc n \<or> r = -1 \<and> k \<le> n \<and> ys = []) \<and> length xs \<le> Suc n + length ys"
  using assms
proof (induction n arbitrary: a pa s xs)
  case 0
  then have "lst = a" by (simp add: word_unat_eq_iff)
  from "0.prems"(1,2) show ?case
  proof (cases rule: walk_alloc [where va = a])
    case full
    then show ?thesis using "0.prems"(1,2) \<open>lst = a\<close>
      by (intro exI [of _ "-1"] exI [of _ s] exI [of _ 0] exI [of _ "[]"])
        (simp add: mappages_from.simps [of pgdir a a])
  next
    case (got s1 ys)
    note g = got(1-6) and W = got(3,5)
    have "load (V2P (tab pgdir s1 (PDX a)), PTX a) s1 AND PTE_P = 0"
      using "0.prems"(5) [of 0] g(5,6) by (simp add: load_pte_of present_PDX)
    then have "mappages_from pgdir a lst pa perm s = Inr (0, set_pte pgdir a (pa OR perm OR PTE_P) s1)"
      using g(1) \<open>lst = a\<close> by (simp add: mappages_from.simps [of pgdir a a] set_pte_def)
    moreover have "pt_evolves E pgdir s (set_pte pgdir a (pa OR perm OR PTE_P) s1)"
      using pt_evolves_trans [OF g(4) set_pte_evolves [OF W]] set_pte_ok [OF W] by (auto simp: pt_ok_def)
    moreover have "mapped_upto pgdir a pa perm (Suc 0) s (set_pte pgdir a (pa OR perm OR PTE_P) s1)"
      using g(6) by (auto simp: mapped_upto_def pte_of_set_pte [OF W])
    ultimately show ?thesis
      using set_pte_ok [OF W] set_pte_kmem [OF g(2) W] got(7)
      by (intro exI [of _ 0] exI [of _ "set_pte pgdir a (pa OR perm OR PTE_P) s1"] exI [of _ "Suc 0"] exI [of _ ys]) simp
  qed
next
  case (Suc n)
  have fit: "unat a + 4096 < 4294967296"
    using Suc.prems(3) unat_u32_bound [of lst] by simp
  have nxt: "unat (a + PGSIZE) = unat a + 4096" using fit unat_add_nowrap [of a PGSIZE] by simp
  have ne: "a \<noteq> lst" using Suc.prems(3) by auto
  have al: "(lst - a) AND 0xFFF = 0"
    using Suc.prems(3) unat_sub_nowrap [of a lst] unat_and_4095 [of "lst - a"]
    by (simp add: unat_eq_zero [symmetric])
  from Suc.prems(1,2) show ?case
  proof (cases rule: walk_alloc [where va = a])
    case full
    then show ?thesis using Suc.prems(1,2) al
      by (intro exI [of _ "-1"] exI [of _ s] exI [of _ 0] exI [of _ "[]"])
        (simp add: mappages_from.simps [of pgdir a lst])
  next
    case (got s1 ys)
    note g = got(1-6) and W = got(3,5)
    let ?s2 = "set_pte pgdir a (pa OR perm OR PTE_P) s1"
    have "load (V2P (tab pgdir s1 (PDX a)), PTX a) s1 AND PTE_P = 0"
      using Suc.prems(5) [of 0] g(5,6) by (simp add: load_pte_of present_PDX)
    then have run: "mappages_from pgdir a lst pa perm s = mappages_from pgdir (a + PGSIZE) lst (pa + PGSIZE) perm ?s2"
      using g(1) ne al by (simp add: mappages_from.simps [of pgdir a lst] set_pte_def)
    have v: "pte_of pgdir va ?s2 = (if unat va div 4096 = unat a div 4096 then pa OR perm OR PTE_P else pte_of pgdir va s)" for va
      using g(6) by (simp add: pte_of_set_pte [OF W])
    have un: "pte_of pgdir (pg_at (a + PGSIZE) i) ?s2 AND PTE_P = 0" if "i \<le> n" for i
    proof -
      have "unat (pg_at a (Suc i)) div 4096 = unat a div 4096 + Suc i"
        using that Suc.prems(3) unat_u32_bound [of lst] by (intro pg_at_page) auto
      then show ?thesis using Suc.prems(5) [of "Suc i"] that v by (simp add: pg_at_Suc)
    qed
    have "unat lst = unat (a + PGSIZE) + 4096 * n" "unat (a + PGSIZE) mod 4096 = 0"
      using Suc.prems(3,4) nxt by simp_all
    from Suc.IH [OF set_pte_kmem [OF g(2) W] set_pte_ok [OF W] this un, of "pa + PGSIZE"]
    obtain r s' k zs where R: "mappages_from pgdir (a + PGSIZE) lst (pa + PGSIZE) perm ?s2 = Inr (r, s')"
      "kmem_ok E s' zs" "pt_ok E pgdir s'" "pt_evolves E pgdir ?s2 s'"
      "mapped_upto pgdir (a + PGSIZE) (pa + PGSIZE) perm k ?s2 s'"
      "r = 0 \<and> k = Suc n \<or> r = - 1 \<and> k \<le> n \<and> zs = []" "length ys \<le> Suc n + length zs" by auto
    have F: "\<forall>v \<in> pt_frames pgdir s'. freeable E v" "\<forall>v \<in> pt_frames pgdir ?s2. freeable E v"
      using R(3) set_pte_ok [OF W] by (auto simp: pt_ok_def)
    have "pt_evolves E pgdir s s'"
      using pt_evolves_trans [OF pt_evolves_trans [OF g(4) set_pte_evolves [OF W] F(2)] R(4) F(1)] .
    moreover have "mapped_upto pgdir a pa perm (Suc k) s s'"
      using mapped_upto_Suc [OF fit v R(5)] .
    moreover have "length xs \<le> Suc (Suc n) + length zs" using R(7) got(7) by simp
    ultimately show ?thesis
      using run R(1-3,6) by (intro exI [of _ r] exI [of _ s'] exI [of _ "Suc k"] exI [of _ zs]) auto
  qed
qed

lemma mappages_spec:
  assumes "kmem_ok E s xs" "pt_ok E pgdir s"
    and sz: "0 < unat sz" "unat va + unat sz \<le> 4294967296"
    and n: "n = (unat va + unat sz - 1) div 4096 - unat va div 4096"
    and free: "\<And>i. i \<le> n \<Longrightarrow> pte_of pgdir (pg_at (PGROUNDDOWN va) i) s AND PTE_P = 0"
  shows "\<exists>r s' k ys. mappages pgdir va sz pa perm s = Inr (r, s') \<and>
    kmem_ok E s' ys \<and> pt_ok E pgdir s' \<and> pt_evolves E pgdir s s' \<and>
    mapped_upto pgdir va pa perm k s s' \<and>
    (r = 0 \<and> k = Suc n \<or> r = -1 \<and> k \<le> n \<and> ys = []) \<and> length xs \<le> Suc n + length ys"
proof -
  have "unat (va + (sz - 1)) = unat va + (unat sz - 1)"
    using sz unat_sub_nowrap [of 1 sz] unat_add_nowrap [of va "sz - 1"] by simp
  then have e: "unat (va + sz - 1) = unat va + unat sz - 1" using sz(1) by (simp add: algebra_simps)
  have q: "unat (PGROUNDDOWN x) = 4096 * (unat x div 4096)" for x
    by (simp add: unat_PGROUNDDOWN minus_mod_eq_mult_div)
  have "unat va div 4096 \<le> (unat va + unat sz - 1) div 4096" using sz(1) by (intro div_le_mono) simp
  then have "unat (PGROUNDDOWN (va + sz - 1)) = unat (PGROUNDDOWN va) + 4096 * n"
    unfolding q e n by (simp add: diff_mult_distrib2)
  from mappages_from_spec [OF assms(1,2) this _ free, of pa perm]
  moreover have "mapped_upto pgdir (PGROUNDDOWN va) pa perm k s s' = mapped_upto pgdir va pa perm k s s'" for k and s' :: "'a phys_scheme"
    by (simp only: mapped_upto_def PGROUNDDOWN_div)
  ultimately show ?thesis by (simp only: mappages_def aligned_PGROUNDDOWN)
qed

text \<open>The translations of another, separate page directory do not change.\<close>

lemma evolves_other:
  assumes ev: "pt_evolves E pgdir s s'" and d: "pt_ok E d s" and dis: "pt_frames d s \<inter> pt_frames pgdir s = {}"
  shows "pte_of d va s' = pte_of d va s" "pt_ok E d s'" "pt_frames d s' = pt_frames d s"
    "pt_frames d s' \<inter> pt_frames pgdir s' = {}"
proof -
  have keep: "pmem s' (V2P v) = pmem s (V2P v)" "refs s' v = refs s v" if "v \<in> pt_frames d s" for v
    using ev d dis that by (auto simp: pt_evolves_def pt_ok_def)
  have "d \<in> pt_frames d s" by (simp add: pt_frames_def)
  then have pde: "pde_of d i s' = pde_of d i s" for i by (simp add: pde_of_def keep(1))
  then have t: "tab d s' = tab d s" "present d s' = present d s" by (auto simp: tab_def present_def)
  then show f: "pt_frames d s' = pt_frames d s" by (simp add: pt_frames_def)
  then show "pt_ok E d s'" using d keep(2) by (simp add: pt_ok_def t)
  have "tab d s (PDX va) \<in> pt_frames d s" if "bit (pde_of d (PDX va) s) 0"
    using that by (auto simp: pt_frames_def present_PDX)
  then show "pte_of d va s' = pte_of d va s"
    using keep(1) [of "tab d s (PDX va)"] by (simp add: pte_of_def pde tab_def)
  show "pt_frames d s' \<inter> pt_frames pgdir s' = {}"
    using ev d dis unfolding f by (fastforce simp: pt_evolves_def pt_ok_def)
qed

section \<open>Copying to user memory\<close>

definition ubyte :: "u32 \<Rightarrow> u32 \<Rightarrow> 'a phys_scheme \<Rightarrow> u8" where
  "ubyte pgdir va s = get_byte (pmem s (PTE_ADDR (pte_of pgdir va s))) (unat va mod 4096)"

lemma uva2ka_user:
  assumes "bit (pte_of pgdir va s) 0" "bit (pte_of pgdir va s) 2"
  shows "uva2ka pgdir va s = Inr (P2V (PTE_ADDR (pte_of pgdir va s)), s)"
proof -
  have "bit (pde_of pgdir (PDX va) s) 0" using assms(1) by (auto simp: pte_of_def split: if_splits)
  then show ?thesis using assms by (simp add: uva2ka_def walk_found load_pte_of flag_bits)
qed

lemma pte_of_data_write:
  assumes "v \<notin> pt_frames pgdir s"
  shows "pte_of pgdir va (s\<lparr>pmem := (pmem s)(V2P v := pg)\<rparr>) = pte_of pgdir va s"
    "pt_frames pgdir (s\<lparr>pmem := (pmem s)(V2P v := pg)\<rparr>) = pt_frames pgdir s"
proof -
  have "v \<noteq> pgdir" using assms by (auto simp: pt_frames_def)
  then have pde: "pde_of pgdir i (s\<lparr>pmem := (pmem s)(V2P v := pg)\<rparr>) = pde_of pgdir i s" for i
    by (simp add: pde_of_def)
  have "bit (pde_of pgdir (PDX va) s) 0 \<Longrightarrow> v \<noteq> P2V (PTE_ADDR (pde_of pgdir (PDX va) s))"
    using assms present_PDX by (fastforce simp: pt_frames_def tab_def)
  then show "pte_of pgdir va (s\<lparr>pmem := (pmem s)(V2P v := pg)\<rparr>) = pte_of pgdir va s"
    by (auto simp: pte_of_def pde)
  show "pt_frames pgdir (s\<lparr>pmem := (pmem s)(V2P v := pg)\<rparr>) = pt_frames pgdir s"
    by (auto simp: pt_frames_def tab_def present_def pde)
qed

text \<open>The frame behind a user address, and the condition under which user code may reach it.\<close>

definition uframe :: "u32 \<Rightarrow> u32 \<Rightarrow> 'a phys_scheme \<Rightarrow> u32" where
  "uframe pgdir va s = P2V (PTE_ADDR (pte_of pgdir va s))"

definition user_at :: "u32 \<Rightarrow> u32 \<Rightarrow> u32 \<Rightarrow> 'a phys_scheme \<Rightarrow> bool" where
  "user_at E pgdir va s \<longleftrightarrow> bit (pte_of pgdir va s) 0 \<and> bit (pte_of pgdir va s) 2 \<and>
     freeable E (uframe pgdir va s) \<and> uframe pgdir va s \<notin> pt_frames pgdir s"

text \<open>A range of user bytes on pages of its own.\<close>

definition user_range :: "u32 \<Rightarrow> u32 \<Rightarrow> u32 \<Rightarrow> nat \<Rightarrow> 'a phys_scheme \<Rightarrow> bool" where
  "user_range E pgdir va n s \<longleftrightarrow> unat va + n \<le> 4294967296 \<and>
     (\<forall>a b. unat va \<le> unat a \<and> unat a < unat va + n \<and> unat va \<le> unat b \<and> unat b < unat va + n \<longrightarrow>
        user_at E pgdir a s \<and> (uframe pgdir a s = uframe pgdir b s \<longrightarrow> unat a div 4096 = unat b div 4096))"

lemma user_rangeD:
  assumes "user_range E pgdir va n s" "unat va \<le> unat a" "unat a < unat va + n"
  shows "user_at E pgdir a s"
    "unat va \<le> unat b \<Longrightarrow> unat b < unat va + n \<Longrightarrow> uframe pgdir a s = uframe pgdir b s \<Longrightarrow>
      unat a div 4096 = unat b div 4096"
  using assms unfolding user_range_def by blast+

lemma pte_of_same_page: "unat a div 4096 = unat b div 4096 \<Longrightarrow> pte_of pgdir a s = pte_of pgdir b s"
  unfolding same_page [symmetric] by (simp only: pte_of_def)

lemma uframe_same_page: "unat a div 4096 = unat b div 4096 \<Longrightarrow> uframe pgdir a s = uframe pgdir b s"
  unfolding uframe_def by (drule pte_of_same_page) (rule arg_cong)

text \<open>What \<open>copyout\<close> achieves: the bytes are there, and every other byte of memory is as before.\<close>

definition wrote :: "u32 \<Rightarrow> u32 \<Rightarrow> u8 list \<Rightarrow> 'a phys_scheme \<Rightarrow> 'a phys_scheme \<Rightarrow> bool" where
  "wrote pgdir va bs s s' \<longleftrightarrow>
     (\<forall>a. pte_of pgdir a s' = pte_of pgdir a s) \<and>
     (\<forall>a. unat va \<le> unat a \<and> unat a < unat va + length bs \<longrightarrow> ubyte pgdir a s' = bs ! (unat a - unat va)) \<and>
     (\<forall>pa k. k < 4096 \<and> (\<forall>a. unat va \<le> unat a \<and> unat a < unat va + length bs \<longrightarrow>
          \<not> (V2P (uframe pgdir a s) = pa \<and> unat a mod 4096 = k)) \<longrightarrow>
        get_byte (pmem s' pa) k = get_byte (pmem s pa) k)"

definition write_user :: "u32 \<Rightarrow> u32 \<Rightarrow> u8 list \<Rightarrow> 'a phys_scheme \<Rightarrow> 'a phys_scheme" where
  "write_user pgdir va bs s = s\<lparr>pmem := (pmem s)(V2P (uframe pgdir va s) :=
     put_bytes (unat va mod 4096) bs (pmem s (V2P (uframe pgdir va s))))\<rparr>"

lemma copyout_turn:
  assumes "user_range E pgdir va (length buf) s" "buf \<noteq> []"
  shows "copyout pgdir va buf s =
    (let n = min (4096 - unat va mod 4096) (length buf)
     in copyout pgdir (PGROUNDDOWN va + PGSIZE) (drop n buf) (write_user pgdir va (take n buf) s))"
proof -
  have u: "user_at E pgdir va s" using user_rangeD(1) [OF assms(1), of va] assms(2) by simp
  then have "uframe pgdir va s \<noteq> 0" by (auto simp: user_at_def dest: freeable_nonzero)
  moreover have p: "pte_of pgdir (PGROUNDDOWN va) s = pte_of pgdir va s" by (rule pte_of_same_page) simp
  moreover have "uva2ka pgdir (PGROUNDDOWN va) s = Inr (uframe pgdir va s, s)"
    using u uva2ka_user [of pgdir "PGROUNDDOWN va" s] by (simp add: user_at_def uframe_def p)
  ultimately show ?thesis
    using assms(2) unfolding copyout.simps [of pgdir va buf s] page_offset write_user_def Let_def by simp
qed

lemma write_user_view:
  assumes "user_at E pgdir va s"
  shows "pte_of pgdir a (write_user pgdir va bs s) = pte_of pgdir a s"
    "pt_frames pgdir (write_user pgdir va bs s) = pt_frames pgdir s"
  using assms by (simp_all add: write_user_def user_at_def pte_of_data_write)

lemma write_user_range:
  assumes "user_at E pgdir va s"
  shows "user_range E pgdir a n (write_user pgdir va bs s) = user_range E pgdir a n s"
  by (simp add: user_range_def user_at_def uframe_def write_user_view [OF assms])

lemma write_user_byte:
  "get_byte (pmem (write_user pgdir va bs s) pa) k =
    (if pa = V2P (uframe pgdir va s) \<and> unat va mod 4096 \<le> k \<and> k < unat va mod 4096 + length bs
     then bs ! (k - unat va mod 4096) else get_byte (pmem s pa) k)"
  by (simp add: write_user_def get_put_bytes)

lemma mod_page_eq:
  assumes "unat (a :: u32) div 4096 = unat (va :: u32) div 4096"
  shows "unat a mod 4096 = unat va mod 4096 + (unat a - unat va) \<or> unat a < unat va"
proof -
  have lin: "x = 4096 * q + r \<Longrightarrow> y = 4096 * q + t \<Longrightarrow> r = t + (x - y) \<or> x < y" for x y q r t :: nat
    by linarith
  show ?thesis
    using mult_div_mod_eq [of 4096 "unat a"] mult_div_mod_eq [of 4096 "unat va"]
    by (intro lin [of _ "unat va div 4096"]) (simp_all only: assms)
qed

lemma in_page:
  assumes "v \<le> a" "a < v + n" "n \<le> 4096 - v mod (4096 :: nat)"
  shows "a div 4096 = v div 4096"
proof (rule div_nat_eqI)
  have v: "4096 * (v div 4096) + v mod 4096 = v" "v mod 4096 < 4096" by simp_all
  then show "4096 * (v div 4096) \<le> a" "a < 4096 * Suc (v div 4096)"
    unfolding mult_Suc_right using assms by linarith+
qed

lemma wrote_page:
  assumes u: "user_at E pgdir va s" and n: "length bs \<le> 4096 - unat va mod 4096"
  shows "wrote pgdir va bs s (write_user pgdir va bs s)"
  unfolding wrote_def
proof (intro conjI allI impI)
  fix a show "pte_of pgdir a (write_user pgdir va bs s) = pte_of pgdir a s"
    by (rule write_user_view(1) [OF u])
next
  fix a :: u32 assume a: "unat va \<le> unat a \<and> unat a < unat va + length bs"
  then have pg: "unat a div 4096 = unat va div 4096" using n by (intro in_page [of _ _ "length bs"]) auto
  have "PTE_ADDR (pte_of pgdir a (write_user pgdir va bs s)) = V2P (uframe pgdir va s)"
    using uframe_same_page [OF pg, of pgdir s] by (simp only: write_user_view(1) [OF u]) (simp add: uframe_def)
  moreover obtain d where d: "d = unat a - unat va" by simp
  then have "unat a mod 4096 = unat va mod 4096 + d" "d < length bs" using mod_page_eq [OF pg] a by linarith+
  ultimately show "ubyte pgdir a (write_user pgdir va bs s) = bs ! (unat a - unat va)"
    unfolding d [symmetric] by (simp add: ubyte_def write_user_byte)
next
  fix pa k assume k: "k < 4096 \<and> (\<forall>a. unat va \<le> unat a \<and> unat a < unat va + length bs \<longrightarrow>
          \<not> (V2P (uframe pgdir a s) = pa \<and> unat a mod 4096 = k))"
  show "get_byte (pmem (write_user pgdir va bs s) pa) k = get_byte (pmem s pa) k"
  proof (cases "pa = V2P (uframe pgdir va s) \<and> unat va mod 4096 \<le> k \<and> k < unat va mod 4096 + length bs")
    case True
    define d where "d = k - unat va mod 4096"
    have d: "d < length bs" "k = unat va mod 4096 + d" using True by (auto simp: d_def)
    have "4096 * (unat va div 4096) + unat va mod 4096 = unat va" by simp
    moreover have "unat va div 4096 < 1048576" using unat_u32_bound [of va] by (simp add: div_less_iff_less_mult)
    ultimately have fit: "unat va + d < 4294967296" using d k by linarith
    then have a: "unat (va + word_of_nat d) = unat va + d"
      using unat_add_nowrap [of va "word_of_nat d"] unat_word_of_nat [of d] by simp
    then have pg: "unat (va + word_of_nat d) div 4096 = unat va div 4096"
      using d n by (intro in_page [of _ _ "length bs"]) auto
    have "V2P (uframe pgdir (va + word_of_nat d) s) = pa" using True uframe_same_page [OF pg, of pgdir s] by metis
    moreover have "unat (va + word_of_nat d) mod 4096 = k" using mod_page_eq [OF pg] a d by linarith
    ultimately show ?thesis using k a d by (metis add_less_cancel_left le_add1)
  next
    case False
    then show ?thesis by (simp only: write_user_byte if_False)
  qed
qed

lemma wroteD:
  assumes "wrote pgdir va bs s s'"
  shows "pte_of pgdir a s' = pte_of pgdir a s"
    "unat va \<le> unat a \<Longrightarrow> unat a < unat va + length bs \<Longrightarrow> ubyte pgdir a s' = bs ! (unat a - unat va)"
    "k < 4096 \<Longrightarrow> (\<And>a. unat va \<le> unat a \<Longrightarrow> unat a < unat va + length bs \<Longrightarrow>
        V2P (uframe pgdir a s) = pa \<Longrightarrow> unat a mod 4096 \<noteq> k) \<Longrightarrow>
      get_byte (pmem s' pa) k = get_byte (pmem s pa) k"
  using assms unfolding wrote_def by simp_all

lemma wrote_append:
  assumes w1: "wrote pgdir va bs s s1" and w2: "wrote pgdir va1 cs s1 s2"
    and va1: "unat va1 = unat va + length bs"
    and sep: "\<And>a b. unat va \<le> unat a \<Longrightarrow> unat a < unat va1 \<Longrightarrow> unat va1 \<le> unat b \<Longrightarrow> unat b < unat va1 + length cs \<Longrightarrow>
      uframe pgdir a s \<noteq> uframe pgdir b s"
  shows "wrote pgdir va (bs @ cs) s s2"
proof -
  have p: "pte_of pgdir a s2 = pte_of pgdir a s" "pte_of pgdir a s1 = pte_of pgdir a s" for a
    using wroteD(1) [OF w1] wroteD(1) [OF w2] by simp_all
  then have f: "uframe pgdir a s1 = uframe pgdir a s" for a by (simp add: uframe_def)
  show ?thesis unfolding wrote_def
  proof (intro conjI allI impI)
    fix a :: u32 assume a: "unat va \<le> unat a \<and> unat a < unat va + length (bs @ cs)"
    show "ubyte pgdir a s2 = (bs @ cs) ! (unat a - unat va)"
    proof (cases "unat a < unat va1")
      case True
      have "get_byte (pmem s2 (V2P (uframe pgdir a s))) (unat a mod 4096) =
          get_byte (pmem s1 (V2P (uframe pgdir a s))) (unat a mod 4096)"
        using sep [OF _ True] a by (intro wroteD(3) [OF w2]) (simp_all add: f, metis)
      then have "ubyte pgdir a s2 = ubyte pgdir a s1" by (simp add: ubyte_def p uframe_def)
      then show ?thesis using wroteD(2) [OF w1, of a] a True va1 by (simp add: nth_append less_diff_conv2)
    next
      case False
      then obtain d where d: "d = unat a - unat va1" "unat a - unat va = length bs + d" using va1 by simp
      have "ubyte pgdir a s2 = cs ! (unat a - unat va1)"
        using False a va1 by (intro wroteD(2) [OF w2]) auto
      then show ?thesis unfolding d by simp
    qed
  next
    fix pa k assume k: "k < 4096 \<and> (\<forall>a. unat va \<le> unat a \<and> unat a < unat va + length (bs @ cs) \<longrightarrow>
          \<not> (V2P (uframe pgdir a s) = pa \<and> unat a mod 4096 = k))"
    have "get_byte (pmem s2 pa) k = get_byte (pmem s1 pa) k"
      by (rule wroteD(3) [OF w2]) (use k va1 f in auto)
    also have "\<dots> = get_byte (pmem s pa) k" by (rule wroteD(3) [OF w1]) (use k in auto)
    finally show "get_byte (pmem s2 pa) k = get_byte (pmem s pa) k" .
  qed (rule p(1))
qed

lemma user_range_tail:
  assumes r: "user_range E pgdir va (length buf) s" and n: "n = 4096 - unat va mod 4096" "n < length buf"
  shows "unat (PGROUNDDOWN va + PGSIZE) = unat va + n"
    "user_range E pgdir (PGROUNDDOWN va + PGSIZE) (length buf - n) s"
    "unat (PGROUNDDOWN va + PGSIZE) = Suc (unat va div 4096) * 4096"
proof -
  have m: "unat va mod 4096 < 4096" "4096 * (unat va div 4096) + unat va mod 4096 = unat va" by simp_all
  have q: "unat (PGROUNDDOWN va) = 4096 * (unat va div 4096)"
    by (simp add: unat_PGROUNDDOWN minus_mod_eq_mult_div)
  have fit: "unat va + length buf \<le> 4294967296" using r by (simp add: user_range_def)
  then have "unat (PGROUNDDOWN va) + 4096 < 4294967296" using q m n by linarith
  then have "unat (PGROUNDDOWN va + PGSIZE) = unat (PGROUNDDOWN va) + 4096"
    using unat_add_nowrap [of "PGROUNDDOWN va" PGSIZE] by simp
  then show e: "unat (PGROUNDDOWN va + PGSIZE) = unat va + n" using q m n by linarith
  show "user_range E pgdir (PGROUNDDOWN va + PGSIZE) (length buf - n) s"
    unfolding user_range_def e
  proof (intro conjI allI impI)
    show "unat va + n + (length buf - n) \<le> 4294967296" using fit n(2) by linarith
  qed (use n(2) in \<open>auto intro: user_rangeD [OF r]\<close>)
  show "unat (PGROUNDDOWN va + PGSIZE) = Suc (unat va div 4096) * 4096"
    unfolding e mult_Suc using m n(1) by linarith
qed

lemma copyout_spec:
  assumes "user_range E pgdir va (length buf) s"
  shows "\<exists>s'. copyout pgdir va buf s = Inr (0, s') \<and> wrote pgdir va buf s s'"
  using assms
proof (induction "length buf" arbitrary: va buf s rule: less_induct)
  case less
  show ?case
  proof (cases "buf = []")
    case True
    then show ?thesis by (auto simp: copyout.simps wrote_def)
  next
    case False
    define n where "n = min (4096 - unat va mod 4096) (length buf)"
    let ?s1 = "write_user pgdir va (take n buf) s" and ?va1 = "PGROUNDDOWN va + PGSIZE"
    note r = less.prems
    have u: "user_at E pgdir va s" using user_rangeD(1) [OF r, of va] False by simp
    have w1: "wrote pgdir va (take n buf) s ?s1" by (rule wrote_page [OF u]) (simp add: n_def)
    have run: "copyout pgdir va buf s = copyout pgdir ?va1 (drop n buf) ?s1"
      using copyout_turn [OF r False] by (simp add: n_def Let_def)
    show ?thesis
    proof (cases "n = length buf")
      case True
      then show ?thesis using run w1 by (simp add: copyout.simps)
    next
      case notall: False
      then have n: "n = 4096 - unat va mod 4096" "n < length buf" by (auto simp: n_def min_def split: if_splits)
      have m: "unat va mod 4096 < 4096" by simp
      note tail = user_range_tail [OF r n]
      have "user_range E pgdir ?va1 (length (drop n buf)) ?s1"
        using tail(2) by (simp add: write_user_range [OF u])
      moreover have "length (drop n buf) < length buf" using n m by simp
      ultimately obtain s' where s': "copyout pgdir ?va1 (drop n buf) ?s1 = Inr (0, s')"
        "wrote pgdir ?va1 (drop n buf) ?s1 s'" using less.hyps by blast
      have "wrote pgdir va (take n buf @ drop n buf) s s'"
      proof (rule wrote_append [OF w1 s'(2)])
        show "unat ?va1 = unat va + length (take n buf)" using tail(1) n(2) by simp
      next
        fix a b :: u32
        assume a: "unat va \<le> unat a" "unat a < unat ?va1" and b: "unat ?va1 \<le> unat b" "unat b < unat ?va1 + length (drop n buf)"
        have "unat a div 4096 < unat ?va1 div 4096"
          using a(2) unfolding tail(3) by (simp only: less_mult_imp_div_less nonzero_mult_div_cancel_right)
        then show "uframe pgdir a s \<noteq> uframe pgdir b s"
          using user_rangeD(2) [OF r a(1), of b] a b tail(1) n(2) div_le_mono [OF b(1), of 4096] by auto
      qed
      then show ?thesis using run s'(1) by simp
    qed
  qed
qed

text \<open>A page just taken, with contents \<open>pg\<close>; when it is cleared it is an empty page directory.\<close>

definition filled :: "u32 \<Rightarrow> (nat \<Rightarrow> u32) \<Rightarrow> 'a phys_scheme \<Rightarrow> 'a phys_scheme" where
  "filled x pg s = (took x s)\<lparr>pmem := (pmem s)(V2P x := pg)\<rparr>"

definition fresh_page :: "u32 \<Rightarrow> 'a phys_scheme \<Rightarrow> 'a phys_scheme" where
  "fresh_page x s = filled x (fill_page 0) s"

lemma filled_kmem:
  assumes k: "kmem_ok E s (x # xs)"
  shows "kmem_ok E (filled x pg s) xs" "refs (filled x pg s) x = 1"
    "\<And>w. freeable E w \<Longrightarrow> w \<noteq> x \<Longrightarrow> refs (filled x pg s) w = refs s w"
proof -
  note T = took_ok [OF k]
  have x: "x \<notin> set xs" using kmem_okD(4) [OF k] by auto
  show "kmem_ok E (filled x pg s) xs"
    using kmem_ok_write [OF T(1) x] by (simp add: filled_def took_def)
  show "refs (filled x pg s) x = 1" "\<And>w. freeable E w \<Longrightarrow> w \<noteq> x \<Longrightarrow> refs (filled x pg s) w = refs s w"
    using T(2,3) by (simp_all add: filled_def)
qed

lemma fresh_page_ok:
  assumes k: "kmem_ok E s (x # xs)"
  shows "kmem_ok E (fresh_page x s) xs" "pt_ok E x (fresh_page x s)" "pte_of x va (fresh_page x s) = 0"
    "pt_frames x (fresh_page x s) = {x}"
proof -
  have x: "freeable E x" using kmem_okD(5) [OF k] by auto
  show "kmem_ok E (fresh_page x s) xs" unfolding fresh_page_def by (rule filled_kmem(1) [OF k])
  have z: "pde_of x i (fresh_page x s) = 0" for i by (simp add: pde_of_def fresh_page_def filled_def)
  then show f: "pt_frames x (fresh_page x s) = {x}" by (simp add: pt_frames_def present_def)
  show "pte_of x va (fresh_page x s) = 0" by (simp add: pte_of_def z)
  have "refs (fresh_page x s) x = 1" unfolding fresh_page_def by (rule filled_kmem(2) [OF k])
  then show "pt_ok E x (fresh_page x s)" using x by (simp add: pt_ok_def f present_def z)
qed

lemma filled_evolves:
  assumes k: "kmem_ok E s (x # xs)" and d: "pt_ok E d s"
  shows "pt_ok E d (filled x pg s)" "pte_of d va (filled x pg s) = pte_of d va s"
    "pt_frames d (filled x pg s) = pt_frames d s" "pt_frames d s \<inter> {x} = {}" "tab d (filled x pg s) = tab d s"
    "present d (filled x pg s) = present d s"
proof -
  note x = unheld_distinct [OF k d]
  have r: "refs (filled x pg s) v = refs s v" if "v \<in> pt_frames d s" for v
    using that filled_kmem(3) [OF k] d x(1) by (auto simp: pt_ok_def)
  have w: "filled x pg s = (took x s)\<lparr>pmem := (pmem (took x s))(V2P x := pg)\<rparr>"
    by (simp add: filled_def took_def)
  have t: "pt_frames d (took x s) = pt_frames d s" "pte_of d va (took x s) = pte_of d va s"
    "present d (took x s) = present d s" "tab d (took x s) = tab d s"
    by (auto simp: pt_frames_def tab_def present_def pte_of_def pde_of_def took_def fun_eq_iff)
  show "pte_of d va (filled x pg s) = pte_of d va s" and f: "pt_frames d (filled x pg s) = pt_frames d s"
    unfolding w using pte_of_data_write [of x d "took x s"] x(1) t by simp_all
  have "pde_of d i (filled x pg s) = pde_of d i s" for i using x(4) by (simp add: pde_of_def filled_def)
  then show p: "present d (filled x pg s) = present d s" "tab d (filled x pg s) = tab d s"
    by (auto simp: present_def tab_def fun_eq_iff)
  then show "pt_ok E d (filled x pg s)" using d r unfolding pt_ok_def f by simp
  show "pt_frames d s \<inter> {x} = {}" using x(1) by simp
qed

section \<open>Correctness of the page-table routines\<close>

text \<open>Property C13 (\<open>mappages\<close>). On a proper page table and an unmapped range, \<open>mappages\<close> terminates without
  a panic. If it returns 0, each page of the range, and no other page, now translates to its frame
  with the requested permissions and \<open>PTE_P\<close>; if it returns \<open>-1\<close>, memory is exhausted and a proper
  prefix was mapped. It returns 0 when there are more free pages than pages to map. In all cases
  the tree stays proper, and the translations of every separate page directory and the contents of
  every page that was held before and is not a table of this directory stay the same.\<close>

theorem mappages_maps:
  assumes "kmem_ok E s xs" "pt_ok E pgdir s" "0 < unat sz" "unat va + unat sz \<le> 4294967296"
    and "n = (unat va + unat sz - 1) div 4096 - unat va div 4096"
    and "\<forall>i \<le> n. pte_of pgdir (pg_at (PGROUNDDOWN va) i) s AND PTE_P = 0"
  shows "\<exists>r s' k ys. mappages pgdir va sz pa perm s = Inr (r, s') \<and>
    kmem_ok E s' ys \<and> pt_ok E pgdir s' \<and> mapped_upto pgdir va pa perm k s s' \<and>
    (r = 0 \<and> k = Suc n \<or> r = -1 \<and> k \<le> n \<and> ys = []) \<and> (Suc n < length xs \<longrightarrow> r = 0) \<and>
    (\<forall>d a. pt_ok E d s \<and> pt_frames d s \<inter> pt_frames pgdir s = {} \<longrightarrow> pte_of d a s' = pte_of d a s) \<and>
    (\<forall>v. freeable E v \<and> 0 < refs s v \<and> v \<notin> pt_frames pgdir s \<longrightarrow> pmem s' (V2P v) = pmem s (V2P v))"
proof -
  obtain r s' k ys where R: "mappages pgdir va sz pa perm s = Inr (r, s')" "kmem_ok E s' ys" "pt_ok E pgdir s'"
    "pt_evolves E pgdir s s'" "mapped_upto pgdir va pa perm k s s'"
    "r = 0 \<and> k = Suc n \<or> r = -1 \<and> k \<le> n \<and> ys = []" "length xs \<le> Suc n + length ys"
    using mappages_spec [OF assms(1-5)] assms(6) by blast
  have "\<forall>d a. pt_ok E d s \<and> pt_frames d s \<inter> pt_frames pgdir s = {} \<longrightarrow> pte_of d a s' = pte_of d a s"
    using evolves_other(1) [OF R(4)] by blast
  moreover have "\<forall>v. freeable E v \<and> 0 < refs s v \<and> v \<notin> pt_frames pgdir s \<longrightarrow> pmem s' (V2P v) = pmem s (V2P v)"
    using R(4) by (auto simp: pt_evolves_def)
  moreover have "Suc n < length xs \<longrightarrow> r = 0" using R(6,7) by auto
  ultimately show ?thesis using R by blast
qed

text \<open>The first page of the small machine as an empty page directory.\<close>

definition demo_pt :: phys where
  "demo_pt = fresh_page 0x8DFF0000 demo_phys"

lemma demo_pt_ok:
  "kmem_ok demo_end demo_pt (tl demo_pages)" "pt_ok demo_end 0x8DFF0000 demo_pt" "pte_of 0x8DFF0000 va demo_pt = 0"
proof -
  have "kmem_ok demo_end demo_phys (0x8DFF0000 # tl demo_pages)"
    using demo_ok by (simp add: demo_pages_def)
  from fresh_page_ok [OF this] show "kmem_ok demo_end demo_pt (tl demo_pages)"
    "pt_ok demo_end 0x8DFF0000 demo_pt" "pte_of 0x8DFF0000 va demo_pt = 0"
    by (simp_all add: demo_pt_def)
qed

lemma mappages_maps_witness:
  "\<exists>s' k. mappages 0x8DFF0000 0x1800 0x1000 0xDFFF000 6 demo_pt = Inr (0, s') \<and>
     pt_ok demo_end 0x8DFF0000 s' \<and> mapped_upto 0x8DFF0000 0x1800 0xDFFF000 6 k demo_pt s' \<and> k = Suc 1"
proof -
  have "\<forall>i \<le> 1. pte_of 0x8DFF0000 (pg_at (PGROUNDDOWN 0x1800) i) demo_pt AND PTE_P = 0"
    by (simp add: demo_pt_ok(3))
  moreover have "Suc 1 < length (tl demo_pages)" by (simp add: demo_pages_def)
  ultimately show ?thesis
    using mappages_maps [OF demo_pt_ok(1,2), of "0x1000" "0x1800" 1 "0xDFFF000" 6]
    by auto
qed

text \<open>Property C14 (\<open>copyout\<close>). When all the pages of a user range are present, user-accessible pages of
  their own, \<open>copyout\<close> returns 0 after a finite number of turns, every byte of the buffer is found
  at its user address, all translations are the same and every other byte of physical memory is
  the same.\<close>

theorem copyout_writes:
  assumes "user_range E pgdir va (length buf) s"
  shows "\<exists>s'. copyout pgdir va buf s = Inr (0, s') \<and>
    (\<forall>a. pte_of pgdir a s' = pte_of pgdir a s) \<and>
    (\<forall>a. unat va \<le> unat a \<and> unat a < unat va + length buf \<longrightarrow> ubyte pgdir a s' = buf ! (unat a - unat va)) \<and>
    (\<forall>pa k. k < 4096 \<and> (\<forall>a. unat va \<le> unat a \<and> unat a < unat va + length buf \<longrightarrow>
          \<not> (V2P (uframe pgdir a s) = pa \<and> unat a mod 4096 = k)) \<longrightarrow>
        get_byte (pmem s' pa) k = get_byte (pmem s pa) k)"
  using copyout_spec [OF assms] unfolding wrote_def .

text \<open>Two adjacent user pages at 0x1000 and 0x2000.\<close>

definition demo_user :: phys where
  "demo_user = demo_phys\<lparr>pmem := (\<lambda>pa i.
     if pa = 0xDFF0000 \<and> i = 0 then 0xDFF1007
     else if pa = 0xDFF1000 \<and> i = 1 then 0xDFF2007
     else if pa = 0xDFF1000 \<and> i = 2 then 0xDFF3007 else 0)\<rparr>"

lemma demo_user_range: "user_range demo_end 0x8DFF0000 0x1FFE 4 demo_user"
proof -
  have fr: "pt_frames 0x8DFF0000 demo_user = {0x8DFF0000, 0x8DFF1000}"
  proof -
    have "present 0x8DFF0000 demo_user = {0}"
      by (auto simp: present_def pde_of_def demo_user_def V2P_def)
    then show ?thesis
      by (simp add: pt_frames_def tab_def pde_of_def demo_user_def V2P_def P2V_def PTE_ADDR_def)
  qed
  have A: "a = 0x1FFE \<or> a = 0x1FFF \<or> a = 0x2000 \<or> a = 0x2001"
    if "unat (0x1FFE :: u32) \<le> unat a" "unat a < unat (0x1FFE :: u32) + 4" for a :: u32
  proof -
    have "unat a = 0x1FFE \<or> unat a = 0x1FFF \<or> unat a = 0x2000 \<or> unat a = 0x2001" using that by simp linarith
    then show ?thesis using unat_eq_imp [of a] by fastforce
  qed
  have P: "pte_of 0x8DFF0000 0x1FFE demo_user = 0xDFF2007" "pte_of 0x8DFF0000 0x1FFF demo_user = 0xDFF2007"
    "pte_of 0x8DFF0000 0x2000 demo_user = 0xDFF3007" "pte_of 0x8DFF0000 0x2001 demo_user = 0xDFF3007"
    by (simp_all add: pte_of_def pde_of_def demo_user_def V2P_def PTE_ADDR_def PDX_def PTX_def)
  show ?thesis
    unfolding user_range_def
  proof (intro conjI allI impI)
    fix a b :: u32
    assume "unat (0x1FFE :: u32) \<le> unat a \<and> unat a < unat (0x1FFE :: u32) + 4 \<and>
      unat (0x1FFE :: u32) \<le> unat b \<and> unat b < unat (0x1FFE :: u32) + 4"
    then have ab: "a = 0x1FFE \<or> a = 0x1FFF \<or> a = 0x2000 \<or> a = 0x2001" "b = 0x1FFE \<or> b = 0x1FFF \<or> b = 0x2000 \<or> b = 0x2001"
      using A by blast+
    show "user_at demo_end 0x8DFF0000 a demo_user"
      using ab(1) by (auto simp: user_at_def uframe_def P fr demo_freeable demo_pages_def P2V_def PTE_ADDR_def)
    show "unat a div 4096 = unat b div 4096" if "uframe 0x8DFF0000 a demo_user = uframe 0x8DFF0000 b demo_user"
      using ab that by (auto simp: uframe_def P PTE_ADDR_def)
  qed simp
qed

lemma copyout_writes_witness:
  "\<exists>s'. copyout 0x8DFF0000 0x1FFE [10, 20, 30, 40] demo_user = Inr (0, s') \<and>
    ubyte 0x8DFF0000 0x1FFE s' = 10 \<and> ubyte 0x8DFF0000 0x2001 s' = 40"
proof -
  let ?bs = "[10, 20, 30, 40] :: u8 list"
  have l: "length ?bs = 4" by simp
  have "user_range demo_end 0x8DFF0000 0x1FFE (length ?bs) demo_user"
    unfolding l by (rule demo_user_range)
  from copyout_writes [OF this] obtain s' where c: "copyout 0x8DFF0000 0x1FFE ?bs demo_user = Inr (0, s')"
    and b: "\<forall>a. unat (0x1FFE :: u32) \<le> unat a \<and> unat a < unat (0x1FFE :: u32) + length ?bs \<longrightarrow>
      ubyte 0x8DFF0000 a s' = ?bs ! (unat a - unat (0x1FFE :: u32))"
    by blast
  show ?thesis using c b [rule_format, of "0x1FFE"] b [rule_format, of "0x2001"] by (intro exI [of _ s']) simp
qed

end
