(* ===== verification/Kstate.thy ===== *)
theory Kstate
  imports Fs Pagetable
begin

text \<open>
  The state of the kernel: processes with their paging data (\<open>proc.h\<close>), open files (\<open>file.h\<close>), pipes,
  the console input buffer and the global variables of \<open>vm.c\<close>, \<open>proc.c\<close> and \<open>trap.c\<close>, on top of
  physical memory and the file system. Pointers to processes, files, inodes and page links are
  array indices, null is \<open>None\<close>. The trap frame and the saved context of a process, which the code
  keeps at the top of its kernel stack page, are fields of the process here.

  The configuration \<open>conf\<close> holds what is fixed at build time: where the kernel image ends, where its
  data segment begins, where its task state, \<open>forkret\<close> and \<open>trapret\<close> are, the page-replacement policy \<open>SELECTION\<close> and the device table.
\<close>

unbundle bit_operations_syntax

section \<open>Processes\<close>

datatype policy = NFUA | LAPA | SCFIFO | AQ | NONE | LIFO

abbreviation (input) MAX_PSYC_PAGES :: u32 where "MAX_PSYC_PAGES \<equiv> 16"
abbreviation (input) MAX_TOTAL_PAGES :: nat where "MAX_TOTAL_PAGES \<equiv> 32"
abbreviation (input) NPROC :: nat where "NPROC \<equiv> 64"
abbreviation (input) NOFILE :: nat where "NOFILE \<equiv> 16"
abbreviation (input) NFILE :: nat where "NFILE \<equiv> 100"
abbreviation (input) KSTACKSIZE :: u32 where "KSTACKSIZE \<equiv> 4096"
abbreviation (input) PIPESIZE :: nat where "PIPESIZE \<equiv> 512"
abbreviation (input) INPUT_BUF :: nat where "INPUT_BUF \<equiv> 128"

datatype pagestate = NOT_USED | IN_MEMORY | IN_DISK

record page_meta_data =
  page_id :: u32
  pstate :: pagestate
  offset_in_file :: u32
  shiftCounter :: u32
  pindex :: u32

record page_link =
  pl_page :: page_meta_data
  pl_next :: "nat option"
  pl_prev :: "nat option"

datatype procstate = UNUSED | EMBRYO | SLEEPING | RUNNABLE | RUNNING | ZOMBIE

record trapframe =
  tf_edi :: u32  tf_esi :: u32  tf_ebp :: u32  tf_ebx :: u32  tf_edx :: u32  tf_ecx :: u32  tf_eax :: u32
  tf_gs :: u16  tf_fs :: u16  tf_es :: u16  tf_ds :: u16
  trapno :: u32  tf_err :: u32  tf_eip :: u32  tf_cs :: u16  tf_eflags :: u32  tf_esp :: u32  tf_ss :: u16

record kcontext =
  c_edi :: u32  c_esi :: u32  c_ebx :: u32  c_ebp :: u32  c_eip :: u32

text \<open>What a process can sleep on.\<close>

datatype chan = ChProc nat | ChTicks | ChLog | ChPipeR u32 | ChPipeW u32 | ChInput | ChLock nat

record proc =
  sz :: u32
  pgdir :: u32
  kstack :: u32
  p_state :: procstate
  pid :: int
  parent :: "nat option"
  p_tf :: trapframe
  p_context :: kcontext
  p_chan :: "chan option"
  killed :: bool
  ofile :: "nat option list"        \<comment> \<open>\<open>NOFILE\<close> entries\<close>
  cwd :: "nat option"
  p_name :: "u8 list"
  swapFile :: "nat option"
  pages_meta_data :: "page_link list"      \<comment> \<open>\<open>MAX_TOTAL_PAGES\<close> entries\<close>
  page_list_head_ram :: "nat option"
  num_pages_ram :: u32
  num_pages_disk :: u32
  available_Offsets :: "bool list"         \<comment> \<open>17 entries, true when taken\<close>
  num_of_page_faults :: u32
  num_of_page_outs :: u32

section \<open>Files, pipes, console input\<close>

datatype ftype = FD_NONE | FD_PIPE | FD_INODE

record kfile =
  f_type :: ftype
  f_ref :: int
  f_readable :: bool
  f_writable :: bool
  f_pipe :: u32
  f_ip :: "nat option"
  f_off :: u32

record pipe =
  p_data :: "nat \<Rightarrow> u8"
  nread :: u32
  nwrite :: u32
  readopen :: bool
  writeopen :: bool

record input =
  in_buf :: "nat \<Rightarrow> u8"
  in_r :: u32
  in_w :: u32
  in_e :: u32

section \<open>The processor\<close>

text \<open>The part of \<open>struct cpu\<close> that address-space switches use: the descriptor table and the fields of
  the task state that the kernel sets, and the task register.\<close>

record cpustate =
  gdt :: "segdesc list"            \<comment> \<open>\<open>NSEGS\<close> entries\<close>
  ts_esp0 :: u32
  ts_ss0 :: u16
  ts_iomb :: u16
  task_reg :: u16

section \<open>The kernel\<close>

record kernel = fsys +
  ptable :: "proc list"            \<comment> \<open>\<open>NPROC\<close> entries\<close>
  initproc :: "nat option"
  nextpid :: int
  curp :: "nat option"             \<comment> \<open>\<open>mycpu()->proc\<close>\<close>
  ftable :: "kfile list"            \<comment> \<open>\<open>NFILE\<close> entries\<close>
  pipes :: "u32 \<Rightarrow> pipe"           \<comment> \<open>by the address of the page that holds it\<close>
  console_in :: input
  console_out :: "int list"        \<comment> \<open>the arguments of \<open>consputc\<close> so far\<close>
  cr3 :: u32
  kpgdir :: u32
  global_pgdir_flag :: bool
  global_pgdir :: u32
  ticks :: u32
  cpu0 :: cpustate

record conf =
  conf_end :: u32
  conf_data :: u32
  conf_ts :: u32                   \<comment> \<open>\<open>&mycpu()->ts\<close>\<close>
  conf_forkret :: u32              \<comment> \<open>address of \<open>forkret\<close>\<close>
  conf_trapret :: u32              \<comment> \<open>address of \<open>trapret\<close>\<close>
  SELECTION :: policy
  conf_dev :: "kernel devsw"

type_synonym 'a kres = "('a \<times> kernel) res"

section \<open>The current process\<close>

definition myproc :: "kernel \<Rightarrow> nat res" where
  "myproc s = (case curp s of None \<Rightarrow> Inl NullDeref | Some p \<Rightarrow> Inr p)"

definition prc :: "nat \<Rightarrow> kernel \<Rightarrow> proc" where
  "prc p s = ptable s ! p"

definition upd_proc :: "nat \<Rightarrow> (proc \<Rightarrow> proc) \<Rightarrow> kernel \<Rightarrow> kernel" where
  "upd_proc p f s = s\<lparr>ptable := (ptable s)[p := f (ptable s ! p)]\<rparr>"

definition lcr3 :: "u32 \<Rightarrow> kernel \<Rightarrow> kernel" where
  "lcr3 v s = s\<lparr>cr3 := v\<rparr>"

lemma prc_upd [simp]: "p < length (ptable s) \<Longrightarrow> prc q (upd_proc p f s) = (if q = p then f (prc p s) else prc q s)"
  by (simp add: prc_def upd_proc_def)

lemma upd_proc_phys [simp]:
  "pmem (upd_proc p f s) = pmem s" "freelist (upd_proc p f s) = freelist s"
  "referenceCounters (upd_proc p f s) = referenceCounters s" "use_lock (upd_proc p f s) = use_lock s"
  "kmem_locked (upd_proc p f s) = kmem_locked s" "curp (upd_proc p f s) = curp s"
  "length (ptable (upd_proc p f s)) = length (ptable s)"
  "global_pgdir_flag (upd_proc p f s) = global_pgdir_flag s" "global_pgdir (upd_proc p f s) = global_pgdir s"
  "ftable (upd_proc p f s) = ftable s" "icache (upd_proc p f s) = icache s" "blocks (upd_proc p f s) = blocks s"
  "cr3 (upd_proc p f s) = cr3 s"
  by (simp_all add: upd_proc_def)

section \<open>What the memory routines leave alone\<close>

text \<open>The allocator and the page-table routines change physical memory only.\<close>

lemma lock_more: "lock_kmem s = Inr (u, t) \<Longrightarrow> phys.more t = phys.more s"
  by (auto simp: lock_kmem_def acquire_kmem_def split: if_splits)

lemma unlock_more: "unlock_kmem s = Inr (u, t) \<Longrightarrow> phys.more t = phys.more s"
  by (auto simp: unlock_kmem_def release_kmem_def split: if_splits)

lemma kalloc_more: "kalloc s = Inr (v, t) \<Longrightarrow> phys.more t = phys.more s"
  unfolding kalloc_def bindr_eq_Inr by (auto simp: Let_def bindr_eq_Inr split: if_splits dest!: lock_more unlock_more)

lemma kfree_more: "kfree E v s = Inr (u, t) \<Longrightarrow> phys.more t = phys.more s"
  unfolding kfree_def by (auto simp: Let_def bindr_eq_Inr split: if_splits dest!: lock_more unlock_more)

lemma incrementRef_more: "incrementRef E v s = Inr (u, t) \<Longrightarrow> phys.more t = phys.more s"
  unfolding incrementRef_def by (auto simp: Let_def bindr_eq_Inr split: if_splits dest!: lock_more unlock_more)

lemma decrementRef_more: "decrementRef E v s = Inr (u, t) \<Longrightarrow> phys.more t = phys.more s"
  unfolding decrementRef_def by (auto simp: Let_def bindr_eq_Inr split: if_splits dest!: lock_more unlock_more)

lemma getRef_more: "getRef v s = Inr (u, t) \<Longrightarrow> phys.more t = phys.more s"
  unfolding getRef_def by (auto simp: Let_def bindr_eq_Inr split: if_splits dest!: lock_more unlock_more)

lemma store_more [simp]: "phys.more (store r v s) = phys.more s"
  by (simp add: store_def)

lemma walkpgdir_more: "walkpgdir d va b s = Inr (r, t) \<Longrightarrow> phys.more t = phys.more s"
  unfolding walkpgdir_def by (auto simp: Let_def bindr_eq_Inr split: if_splits dest!: kalloc_more)

lemma mappages_from_more: "mappages_from d a l pa perm s = Inr (r, t) \<Longrightarrow> phys.more t = phys.more s"
proof (induction d a l pa perm s rule: mappages_from.induct)
  case (1 d a l pa perm s)
  have al: "(l - a) AND 0xFFF = 0"
    using 1(2) by (subst (asm) mappages_from.simps) (simp split: if_splits)
  then obtain pte s1 where w: "walkpgdir d a True s = Inr (pte, s1)"
    using 1(2) by (subst (asm) mappages_from.simps) (auto simp: bindr_eq_Inr)
  have m: "phys.more s1 = phys.more s" using walkpgdir_more [OF w] .
  show ?case
  proof (cases pte)
    case None
    then show ?thesis using 1(2) al w m by (subst (asm) mappages_from.simps) simp
  next
    case (Some e)
    have np: "\<not> load e s1 AND PTE_P \<noteq> 0"
      using 1(2) al w Some by (subst (asm) mappages_from.simps) (auto split: if_splits)
    show ?thesis
    proof (cases "a = l")
      case True
      then show ?thesis using 1(2) al w m Some np by (subst (asm) mappages_from.simps) (auto simp: Let_def)
    next
      case False
      then have r: "mappages_from d (a + PGSIZE) l (pa + PGSIZE) perm (store e (pa OR perm OR PTE_P) s1) = Inr (r, t)"
        using 1(2) al w Some np by (subst (asm) mappages_from.simps) (auto simp: Let_def)
      show ?thesis using 1(1) [OF _ w refl Some np refl False r] al m by simp
    qed
  qed
qed

lemma mappages_more: "mappages d va n pa perm s = Inr (r, t) \<Longrightarrow> phys.more t = phys.more s"
  unfolding mappages_def by (rule mappages_from_more)

lemma walk_then_more:
  assumes "bindr (walkpgdir d va False s) f = Inr (r, t)"
    and "\<And>pte s1. phys.more s1 = phys.more s \<Longrightarrow> f (pte, s1) = Inr (r, t) \<Longrightarrow> phys.more t = phys.more s1"
  shows "phys.more t = phys.more s"
proof -
  obtain pte s1 where w: "walkpgdir d va False s = Inr (pte, s1)" "f (pte, s1) = Inr (r, t)"
    using assms(1) by (auto simp: bindr_eq_Inr)
  then show ?thesis using walkpgdir_more [OF w(1)] assms(2) by metis
qed

lemma is_PTE_A_more: "is_PTE_A d va s = Inr (r, t) \<Longrightarrow> phys.more t = phys.more s"
  unfolding is_PTE_A_def by (erule walk_then_more) (simp split: option.splits)

lemma PTE_A_off_more: "PTE_A_off d va s = Inr (u, t) \<Longrightarrow> phys.more t = phys.more s"
  unfolding PTE_A_off_def by (erule walk_then_more) (auto split: option.splits)

lemma setFlagsOnSwap_more: "setFlagsOnSwap d va b s = Inr (u, t) \<Longrightarrow> phys.more t = phys.more s"
  unfolding setFlagsOnSwap_def by (erule walk_then_more) (auto simp: Let_def split: option.splits if_splits)

lemma clearpteu_more: "clearpteu d va s = Inr (u, t) \<Longrightarrow> phys.more t = phys.more s"
  unfolding clearpteu_def by (erule walk_then_more) (auto split: option.splits)

lemma kernel_more:
  fixes s t :: kernel
  assumes "phys.more t = phys.more s"
  shows "ptable t = ptable s" "curp t = curp s" "pipes t = pipes s" "ftable t = ftable s" "icache t = icache s"
    "blocks t = blocks s" "cr3 t = cr3 s" "global_pgdir_flag t = global_pgdir_flag s" "global_pgdir t = global_pgdir s"
    "prc p t = prc p s"
  using assms by (cases s; cases t; simp add: prc_def)+

end
