(* ===== verification/Pagelist.thy ===== *)
theory Pagelist
  imports Kstate
begin

text \<open>
  The bookkeeping of the pages of a process (the \<open>added functions\<close> part of \<open>vm.c\<close> and \<open>init_meta_data\<close>
  of \<open>proc.c\<close>): an array of 32 page links, of which those in memory form a doubly linked list, and the
  table of free page slots of the swap file.

  \<open>ram_list p xs\<close> says that the links of process \<open>p\<close> form the list of array indices \<open>xs\<close>, forwards and
  backwards. The lemmas say what the list operations do to \<open>xs\<close>; the interface \<open>page_queue\<close> collects
  them for the replacement policies. Walks along the list use 32 steps of fuel: a list without a
  cycle has at most 32 links, so the fuel only runs out where the code would not return.
\<close>

section \<open>Operations\<close>

definition init_link :: "policy \<Rightarrow> nat \<Rightarrow> page_link \<Rightarrow> page_link" where
  "init_link sel i l = l\<lparr>pl_page := (pl_page l)\<lparr>page_id := 0xFFFFFFFF, offset_in_file := -1, pstate := NOT_USED,
       pindex := word_of_nat i,
       shiftCounter := (if sel = LAPA then 0xFFFFFFFF else if sel = NFUA then 0 else shiftCounter (pl_page l))\<rparr>,
     pl_next := None, pl_prev := None\<rparr>"

definition init_meta_data :: "policy \<Rightarrow> proc \<Rightarrow> proc" where
  "init_meta_data sel p = p\<lparr>swapFile := None, page_list_head_ram := None, num_pages_disk := 0,
     num_pages_ram := 0, num_of_page_faults := 0, num_of_page_outs := 0,
     available_Offsets := replicate 17 False,
     pages_meta_data := map (\<lambda>(i, l). init_link sel i l) (enumerate 0 (pages_meta_data p))\<rparr>"

text \<open>Following \<open>next\<close> to the end of the list.\<close>

fun last_link :: "page_link list \<Rightarrow> nat \<Rightarrow> nat \<Rightarrow> nat res" where
  "last_link pl 0 i = Inl Diverge"
| "last_link pl (Suc k) i =
     bindr (at pl i) (\<lambda>l. case pl_next l of None \<Rightarrow> Inr i | Some j \<Rightarrow> last_link pl k j)"

fun find_from :: "('a \<Rightarrow> bool) \<Rightarrow> 'a list \<Rightarrow> nat \<Rightarrow> nat option" where
  "find_from P [] i = None"
| "find_from P (x # xs) i = (if P x then Some i else find_from P xs (Suc i))"

definition find_page :: "u32 \<Rightarrow> proc \<Rightarrow> nat option" where
  "find_page a p = find_from (\<lambda>l. page_id (pl_page l) = a) (pages_meta_data p) 0"

definition find_state :: "pagestate \<Rightarrow> proc \<Rightarrow> nat option" where
  "find_state st p = find_from (\<lambda>l. pstate (pl_page l) = st) (pages_meta_data p) 0"

definition upd_link :: "nat \<Rightarrow> (page_link \<Rightarrow> page_link) \<Rightarrow> proc \<Rightarrow> proc" where
  "upd_link i f p = p\<lparr>pages_meta_data := (pages_meta_data p)[i := f (pages_meta_data p ! i)]\<rparr>"

definition link :: "nat \<Rightarrow> proc \<Rightarrow> page_link" where
  "link i p = pages_meta_data p ! i"

text \<open>With no free entry the code links and fills the memory behind the array.\<close>

definition addPageToRam :: "policy \<Rightarrow> u32 \<Rightarrow> proc \<Rightarrow> proc res" where
  "addPageToRam sel addr p =
     bindr (case page_list_head_ram p of
              None \<Rightarrow> Inr (0, p\<lparr>page_list_head_ram := Some 0\<rparr>)
            | Some h \<Rightarrow>
                bindr (last_link (pages_meta_data p) MAX_TOTAL_PAGES h) (\<lambda>lst.
                case (case find_page (PTE_ADDR addr) p of Some i \<Rightarrow> Some i | None \<Rightarrow> find_state NOT_USED p) of
                  None \<Rightarrow> Inl OutOfBounds
                | Some i \<Rightarrow> Inr (i, upd_link i (\<lambda>l. l\<lparr>pl_prev := Some lst\<rparr>)
                               (upd_link lst (\<lambda>l. l\<lparr>pl_next := Some i\<rparr>) p)))) (\<lambda>(i, p).
     Inr ((upd_link i (\<lambda>l. l\<lparr>pl_next := None,
             pl_page := (pl_page l)\<lparr>page_id := PTE_ADDR addr, pindex := word_of_nat i, pstate := IN_MEMORY,
               offset_in_file := -1, shiftCounter := (if sel = LAPA then 0xFFFFFFFF else 0)\<rparr>\<rparr>) p)
          \<lparr>num_pages_ram := num_pages_ram p + 1\<rparr>))"

definition removePageFromList :: "nat \<Rightarrow> proc \<Rightarrow> proc" where
  "removePageFromList i p =
    (let p = (case pl_prev (link i p) of
                None \<Rightarrow>
                  let p = p\<lparr>page_list_head_ram := pl_next (link i p)\<rparr>
                  in (case pl_next (link i p) of
                        None \<Rightarrow> p
                      | Some n \<Rightarrow> upd_link n (\<lambda>l. l\<lparr>pl_prev := None\<rparr>) p)
              | Some pr \<Rightarrow>
                  let p = upd_link pr (\<lambda>l. l\<lparr>pl_next := pl_next (link i p)\<rparr>) p
                  in (case pl_next (link pr p) of
                        None \<Rightarrow> p
                      | Some n \<Rightarrow> upd_link n (\<lambda>l. l\<lparr>pl_prev := Some pr\<rparr>) p))
     in upd_link i (\<lambda>l. l\<lparr>pl_prev := None, pl_next := None\<rparr>) p)"

definition addPageToList :: "nat \<Rightarrow> proc \<Rightarrow> proc res" where
  "addPageToList i p =
    (let p = (if page_list_head_ram p = None
              then upd_link i (\<lambda>l. l\<lparr>pl_next := None, pl_prev := None\<rparr>) (p\<lparr>page_list_head_ram := Some i\<rparr>)
              else p)
     in bindr (last_link (pages_meta_data p) MAX_TOTAL_PAGES (the (page_list_head_ram p))) (\<lambda>lst.
        let p = upd_link lst (\<lambda>l. l\<lparr>pl_next := Some i\<rparr>) p
        in Inr (upd_link i (\<lambda>l. l\<lparr>pl_prev := Some lst, pl_next := None\<rparr>) p)))"

definition nextAvOffset :: "proc \<Rightarrow> nat option" where
  "nextAvOffset p = find_from (\<lambda>b. \<not> b) (take 17 (available_Offsets p)) 0"

section \<open>Searching\<close>

lemma find_from_Some:
  "find_from P xs k = Some i \<Longrightarrow> k \<le> i \<and> i - k < length xs \<and> P (xs ! (i - k)) \<and> (\<forall>j < i - k. \<not> P (xs ! j))"
proof (induction xs arbitrary: k)
  case (Cons x xs)
  show ?case
  proof (cases "P x")
    case False
    then have "find_from P xs (Suc k) = Some i" using Cons.prems by simp
    from Cons.IH [OF this] have "Suc k \<le> i" "i - Suc k < length xs" "P (xs ! (i - Suc k))" "\<forall>j < i - Suc k. \<not> P (xs ! j)"
      by auto
    moreover obtain d where "i - k = Suc d" "d = i - Suc k" using \<open>Suc k \<le> i\<close> by (metis Suc_diff_Suc Suc_le_lessD)
    ultimately show ?thesis using False by (auto simp: nth_Cons split: nat.splits)
  qed (use Cons.prems in auto)
qed simp

lemma find_from_None: "find_from P xs k = None \<longleftrightarrow> (\<forall>x \<in> set xs. \<not> P x)"
  by (induction xs arbitrary: k) auto

lemma find_page_Some:
  "find_page a p = Some i \<Longrightarrow> i < length (pages_meta_data p) \<and> page_id (pl_page (link i p)) = a"
  using find_from_Some unfolding find_page_def link_def by fastforce

lemma find_state_Some:
  "find_state st p = Some i \<Longrightarrow> i < length (pages_meta_data p) \<and> pstate (pl_page (link i p)) = st"
  using find_from_Some unfolding find_state_def link_def by fastforce

text \<open>A free slot of the swap file is found exactly when there is one, and it is free.\<close>

lemma nextAvOffset_Some:
  assumes "nextAvOffset p = Some i" "length (available_Offsets p) = 17"
  shows "i < 17 \<and> \<not> available_Offsets p ! i"
  using find_from_Some [of _ _ 0 i] assms unfolding nextAvOffset_def by fastforce

section \<open>The doubly linked list\<close>

fun dll :: "page_link list \<Rightarrow> nat option \<Rightarrow> nat option \<Rightarrow> nat list \<Rightarrow> bool" where
  "dll pl pr cur [] \<longleftrightarrow> cur = None"
| "dll pl pr cur (x # xs) \<longleftrightarrow>
     cur = Some x \<and> x < length pl \<and> pl_prev (pl ! x) = pr \<and> dll pl (Some x) (pl_next (pl ! x)) xs"

definition ram_list :: "proc \<Rightarrow> nat list \<Rightarrow> bool" where
  "ram_list p xs \<longleftrightarrow> length (pages_meta_data p) = MAX_TOTAL_PAGES \<and> distinct xs \<and>
     dll (pages_meta_data p) None (page_list_head_ram p) xs"

lemma dll_bound: "dll pl pr cur xs \<Longrightarrow> \<forall>x \<in> set xs. x < length pl"
  by (induction xs arbitrary: pr cur) auto

lemma dll_upd: "i \<notin> set xs \<Longrightarrow> dll (pl[i := l]) pr cur xs = dll pl pr cur xs"
  by (induction xs arbitrary: pr cur) auto

text \<open>The fuel is enough for every list of distinct links of the array.\<close>

lemma last_link_dll:
  assumes "dll pl pr (Some h) xs" "length xs \<le> k"
  shows "last_link pl k h = Inr (last xs)"
  using assms
proof (induction xs arbitrary: pr h k)
  case (Cons x xs)
  then obtain k' where k: "k = Suc k'" by (cases k) auto
  show ?case
  proof (cases xs)
    case Nil
    then show ?thesis using Cons.prems k by simp
  next
    case (Cons y ys)
    then show ?thesis using Cons.prems Cons.IH [of "Some x" y k'] k by simp
  qed
qed simp

lemma ram_list_length:
  assumes "ram_list p xs"
  shows "length xs \<le> MAX_TOTAL_PAGES"
proof -
  have "set xs \<subseteq> {..<32}" using assms dll_bound unfolding ram_list_def by fastforce
  then have "card (set xs) \<le> 32" using card_mono [of "{..<32 :: nat}" "set xs"] by simp
  then show ?thesis using assms by (simp add: ram_list_def distinct_card)
qed

lemma ram_list_unique: "ram_list p xs \<Longrightarrow> ram_list p ys \<Longrightarrow> xs = ys"
proof -
  have "dll pl pr cur xs \<Longrightarrow> dll pl pr' cur ys \<Longrightarrow> xs = ys" for pl pr pr' cur
  proof (induction xs arbitrary: pr pr' cur ys)
    case Nil
    then show ?case by (cases ys) auto
  next
    case (Cons x xs)
    then show ?case by (cases ys) auto
  qed
  then show "ram_list p xs \<Longrightarrow> ram_list p ys \<Longrightarrow> xs = ys" by (auto simp: ram_list_def)
qed

text \<open>Segments of the list: from the pair (previous, current) to such a pair.\<close>

fun seg :: "page_link list \<Rightarrow> nat option \<Rightarrow> nat option \<Rightarrow> nat list \<Rightarrow> nat option \<Rightarrow> nat option \<Rightarrow> bool" where
  "seg pl pr cur [] pr' cur' \<longleftrightarrow> pr = pr' \<and> cur = cur'"
| "seg pl pr cur (x # xs) pr' cur' \<longleftrightarrow>
     cur = Some x \<and> x < length pl \<and> pl_prev (pl ! x) = pr \<and> seg pl (Some x) (pl_next (pl ! x)) xs pr' cur'"

lemma seg_append: "seg pl pr cur (xs @ ys) pr' cur' \<longleftrightarrow> (\<exists>m c. seg pl pr cur xs m c \<and> seg pl m c ys pr' cur')"
  by (induction xs arbitrary: pr cur) auto

lemma seg_end: "seg pl pr cur xs pr' cur' \<Longrightarrow> pr' = (if xs = [] then pr else Some (last xs))"
  by (induction xs arbitrary: pr cur) auto

lemma seg_start: "seg pl pr cur xs pr' cur' \<Longrightarrow> cur = (if xs = [] then cur' else Some (hd xs))"
  by (cases xs) auto

lemma dll_seg: "dll pl pr cur xs \<longleftrightarrow> (\<exists>pr'. seg pl pr cur xs pr' None)"
  by (induction xs arbitrary: pr cur) auto

lemma seg_upd [simp]: "i \<notin> set xs \<Longrightarrow> seg (pl[i := l]) pr cur xs pr' cur' = seg pl pr cur xs pr' cur'"
  by (induction xs arbitrary: pr cur) auto

text \<open>Changing where the first link points back to, and where the last link points to.\<close>

lemma seg_relink_prev:
  assumes "seg pl pr cur xs pr' cur'" "distinct xs" "xs \<noteq> []" "pl_next l = pl_next (pl ! hd xs)" "pl_prev l = q"
  shows "seg (pl[hd xs := l]) q cur xs pr' cur'"
  using assms by (cases xs) auto

lemma seg_relink_next:
  assumes "seg pl pr cur (xs @ [y]) pr' cur'" "y \<notin> set xs" "pl_prev l = pl_prev (pl ! y)" "pl_next l = c"
  shows "seg (pl[y := l]) pr cur (xs @ [y]) pr' c"
  using assms by (auto simp: seg_append)

lemma upd_link_fields [simp]:
  "page_list_head_ram (upd_link i f p) = page_list_head_ram p" "length (pages_meta_data (upd_link i f p)) = length (pages_meta_data p)"
  "num_pages_ram (upd_link i f p) = num_pages_ram p" "num_pages_disk (upd_link i f p) = num_pages_disk p"
  "available_Offsets (upd_link i f p) = available_Offsets p" "pgdir (upd_link i f p) = pgdir p"
  "swapFile (upd_link i f p) = swapFile p" "pid (upd_link i f p) = pid p" "sz (upd_link i f p) = sz p"
  by (simp_all add: upd_link_def)

lemma link_upd: "i < length (pages_meta_data p) \<Longrightarrow> link j (upd_link i f p) = (if j = i then f (link i p) else link j p)"
  by (simp add: link_def upd_link_def)

lemma link_head [simp]: "link j (p\<lparr>page_list_head_ram := h\<rparr>) = link j p"
  by (simp add: link_def)

lemma pages_upd_link: "pages_meta_data (upd_link i f p) = (pages_meta_data p)[i := f (pages_meta_data p ! i)]"
  by (simp add: upd_link_def)

text \<open>Changing the data of a page does not touch the list.\<close>

lemma ram_list_data:
  assumes "\<And>l. pl_next (f l) = pl_next l" "\<And>l. pl_prev (f l) = pl_prev l"
  shows "ram_list (upd_link i f p) xs = ram_list p xs"
proof -
  have "dll (pl[i := f (pl ! i)]) pr cur ys = dll pl pr cur ys" for pl pr cur ys
  proof (induction ys arbitrary: pr cur)
    case (Cons y ys)
    then show ?case using assms by (cases "i = y") auto
  qed simp
  then show ?thesis by (simp add: ram_list_def pages_upd_link)
qed

text \<open>Taking a page out of the list removes exactly that page.\<close>

lemma removePageFromList_ok:
  assumes r: "ram_list p (as @ i # bs)"
  shows "ram_list (removePageFromList i p) (as @ bs)"
proof -
  let ?pl = "pages_meta_data p"
  obtain pr c q where A: "seg ?pl None (page_list_head_ram p) as pr (Some i)"
    and I: "i < length ?pl" "pl_prev (?pl ! i) = pr" "pl_next (?pl ! i) = c" and B: "seg ?pl (Some i) c bs q None"
    using r by (auto simp: ram_list_def dll_seg seg_append)
  have len: "length ?pl = 32" and d: "distinct as" "distinct bs" "i \<notin> set as" "i \<notin> set bs" "set as \<inter> set bs = {}"
    using r by (auto simp: ram_list_def)
  have pr: "pr = (if as = [] then None else Some (last as))" using seg_end [OF A] .
  have c: "c = (if bs = [] then None else Some (hd bs))" using seg_start [OF B] .
  define p1 where "p1 = (case pr of None \<Rightarrow> p\<lparr>page_list_head_ram := c\<rparr> | Some k \<Rightarrow> upd_link k (\<lambda>l. l\<lparr>pl_next := c\<rparr>) p)"
  define p2 where "p2 = (case c of None \<Rightarrow> p1 | Some n \<Rightarrow> upd_link n (\<lambda>l. l\<lparr>pl_prev := pr\<rparr>) p1)"
  have len1: "length (pages_meta_data p1) = 32" using len by (simp add: p1_def split: option.splits)
  have ne: "last as \<noteq> i" if "as \<noteq> []" using that d(3) last_in_set by metis
  have lk1: "pl_next (link i p1) = c"
    using I pr ne len unfolding p1_def by (auto simp: link_def pages_upd_link split: option.splits)
  have lk2: "pl_next (link k (upd_link k (\<lambda>l. l\<lparr>pl_next := c\<rparr>) p)) = c" if "pr = Some k" for k
  proof -
    have "k \<in> set as" using that pr by (auto split: if_splits)
    then have "k < length ?pl" using A dll_bound [of ?pl None _ "as @ i # bs"] r by (auto simp: ram_list_def)
    then show ?thesis by (simp add: link_upd)
  qed
  have rm: "removePageFromList i p = upd_link i (\<lambda>l. l\<lparr>pl_prev := None, pl_next := None\<rparr>) p2"
    using I(2,3) lk1 lk2 unfolding removePageFromList_def p2_def p1_def link_def
    by (auto simp: Let_def split: option.splits)
  have A1: "seg (pages_meta_data p1) None (page_list_head_ram p1) as pr c"
  proof (cases as rule: rev_cases)
    case Nil
    then show ?thesis using A pr by (simp add: p1_def)
  next
    case (snoc zs k)
    then show ?thesis
      using A pr d(1) seg_relink_next [of ?pl None "page_list_head_ram p" zs k pr "Some i" "(?pl ! k)\<lparr>pl_next := c\<rparr>" c]
      by (simp add: p1_def pages_upd_link)
  qed
  have B1: "seg (pages_meta_data p1) (Some i) c bs q None"
  proof (cases "as = []")
    case False
    then have "last as \<notin> set bs" using d(5) by (metis disjoint_iff last_in_set)
    then show ?thesis using B pr False by (simp add: p1_def pages_upd_link)
  qed (use B pr in \<open>simp add: p1_def\<close>)
  have A2: "seg (pages_meta_data p2) None (page_list_head_ram p2) as pr c"
  proof (cases "bs = []")
    case False
    then have "hd bs \<notin> set as" using d(5) by (metis disjoint_iff hd_in_set)
    then show ?thesis using A1 c False by (simp add: p2_def pages_upd_link)
  qed (use A1 c in \<open>simp add: p2_def\<close>)
  have B2: "\<exists>q'. seg (pages_meta_data p2) pr c bs q' None"
  proof (cases "bs = []")
    case True
    then show ?thesis using B c by (simp add: p2_def)
  next
    case False
    then show ?thesis
      using seg_relink_prev [OF B1 d(2), of "(pages_meta_data p1 ! hd bs)\<lparr>pl_prev := pr\<rparr>" pr] c
      by (auto simp: p2_def pages_upd_link)
  qed
  have "dll (pages_meta_data p2) None (page_list_head_ram p2) (as @ bs)"
    unfolding dll_seg seg_append using A2 B2 by blast
  then have "dll (pages_meta_data (removePageFromList i p)) None (page_list_head_ram (removePageFromList i p)) (as @ bs)"
    unfolding rm using d(3,4) by (simp add: pages_upd_link dll_upd)
  moreover have "length (pages_meta_data (removePageFromList i p)) = 32"
    unfolding rm p2_def using len1 by (simp split: option.splits)
  ultimately show ?thesis using d by (simp add: ram_list_def)
qed

text \<open>Operations on the links alone: the data of the pages and the other fields stay.\<close>

definition links_only :: "proc \<Rightarrow> proc \<Rightarrow> bool" where
  "links_only p p' \<longleftrightarrow> length (pages_meta_data p') = length (pages_meta_data p) \<and>
     (\<forall>j. pl_page (link j p') = pl_page (link j p)) \<and>
     p' = p\<lparr>pages_meta_data := pages_meta_data p', page_list_head_ram := page_list_head_ram p'\<rparr>"

lemma links_only_refl [simp]: "links_only p p"
  by (simp add: links_only_def)

lemma links_only_trans: "links_only p q \<Longrightarrow> links_only q r \<Longrightarrow> links_only p r"
  unfolding links_only_def by (metis (no_types, lifting) proc.surjective proc.update_convs(15,16))

lemma links_only_upd:
  assumes "\<And>l. pl_page (f l) = pl_page l"
  shows "links_only p (upd_link i f p)"
proof -
  have "pl_page ((pages_meta_data p)[i := f (pages_meta_data p ! i)] ! j) = pl_page (pages_meta_data p ! j)" for j
    using assms by (cases "i < length (pages_meta_data p)"; cases "i = j") (auto simp: not_less list_update_beyond)
  then show ?thesis by (simp add: links_only_def upd_link_def link_def)
qed

lemma links_only_head [simp]: "links_only p (p\<lparr>page_list_head_ram := h\<rparr>)"
  by (simp add: links_only_def)

lemma links_onlyD:
  assumes "links_only p p'"
  shows "pl_page (link j p') = pl_page (link j p)" "pgdir p' = pgdir p" "num_pages_ram p' = num_pages_ram p"
    "num_pages_disk p' = num_pages_disk p" "available_Offsets p' = available_Offsets p" "swapFile p' = swapFile p"
    "pid p' = pid p" "sz p' = sz p"
proof -
  have e: "p' = p\<lparr>pages_meta_data := pages_meta_data p', page_list_head_ram := page_list_head_ram p'\<rparr>"
    using assms by (simp add: links_only_def)
  show "pgdir p' = pgdir p" "num_pages_ram p' = num_pages_ram p" "num_pages_disk p' = num_pages_disk p"
    "available_Offsets p' = available_Offsets p" "swapFile p' = swapFile p" "pid p' = pid p" "sz p' = sz p"
    by (subst e, simp)+
  show "pl_page (link j p') = pl_page (link j p)" using assms by (simp add: links_only_def)
qed

lemma removePageFromList_links: "links_only p (removePageFromList i p)"
proof -
  have s: "links_only q (upd_link n (\<lambda>l. l\<lparr>pl_prev := x\<rparr>) q)" "links_only q (upd_link n (\<lambda>l. l\<lparr>pl_next := x\<rparr>) q)"
    "links_only q (upd_link n (\<lambda>l. l\<lparr>pl_prev := x, pl_next := y\<rparr>) q)" for q n x y
    by (rule links_only_upd, simp)+
  show ?thesis
    unfolding removePageFromList_def Let_def
    by (rule links_only_trans [OF _ s(3)])
      (auto split: option.splits intro: s links_only_trans [OF links_only_head s(1)] links_only_trans [OF s(2) s(1)])
qed

text \<open>Appending to a list that is not empty.\<close>

lemma addPageToList_ok:
  assumes r: "ram_list p xs" and ne: "xs \<noteq> []" and i: "i < MAX_TOTAL_PAGES" "i \<notin> set xs"
  shows "\<exists>p'. addPageToList i p = Inr p' \<and> ram_list p' (xs @ [i]) \<and> links_only p p'"
proof -
  let ?pl = "pages_meta_data p" and ?z = "last xs"
  have len: "length ?pl = 32" and d: "distinct xs" and l: "dll ?pl None (page_list_head_ram p) xs"
    using r by (auto simp: ram_list_def)
  obtain h where h: "page_list_head_ram p = Some h" using l ne by (cases xs) auto
  have lst: "last_link ?pl 32 h = Inr ?z"
    using last_link_dll [of ?pl None h xs 32] l h ram_list_length [OF r] by simp
  have z: "?z \<in> set xs" "?z \<noteq> i" using ne i(2) by auto
  define p1 where "p1 = upd_link ?z (\<lambda>l. l\<lparr>pl_next := Some i\<rparr>) p"
  define p2 where "p2 = upd_link i (\<lambda>l. l\<lparr>pl_prev := Some ?z, pl_next := None\<rparr>) p1"
  have run: "addPageToList i p = Inr p2"
    using h lst by (simp add: addPageToList_def p1_def p2_def Let_def)
  obtain q where S: "seg ?pl None (page_list_head_ram p) xs q None" using l by (auto simp: dll_seg)
  have split: "xs = butlast xs @ [?z]" "?z \<notin> set (butlast xs)"
    using ne d by (auto, metis append_butlast_last_id distinct_append not_distinct_conv_prefix distinct.simps(2) disjoint_iff list.set_intros(1))
  have "seg (pages_meta_data p1) None (page_list_head_ram p1) (butlast xs @ [?z]) q (Some i)"
    using seg_relink_next [of ?pl None "page_list_head_ram p" "butlast xs" ?z q None "(?pl ! ?z)\<lparr>pl_next := Some i\<rparr>" "Some i"]
      S split by (simp add: p1_def pages_upd_link)
  then have "seg (pages_meta_data p1) None (page_list_head_ram p1) xs q (Some i)" using split(1) by simp
  then have s2: "seg (pages_meta_data p2) None (page_list_head_ram p2) xs q (Some i)"
    using i(2) by (simp add: p2_def pages_upd_link)
  moreover have "q = Some ?z" using seg_end [OF S] ne by simp
  ultimately have "seg (pages_meta_data p2) None (page_list_head_ram p2) (xs @ [i]) (Some i) None"
    unfolding seg_append using i(1) len by (auto simp: p2_def p1_def pages_upd_link)
  then have "ram_list p2 (xs @ [i])"
    using len d i by (auto simp: ram_list_def dll_seg p2_def p1_def)
  moreover have "links_only p p2"
    unfolding p2_def p1_def by (rule links_only_trans [OF links_only_upd links_only_upd]) simp_all
  ultimately show ?thesis using run by blast
qed

text \<open>Appending to the empty list: the missing \<open>else\<close> makes the only link its own predecessor.\<close>

lemma addPageToList_empty:
  assumes "ram_list p []" "i < MAX_TOTAL_PAGES"
  shows "\<exists>p'. addPageToList i p = Inr p' \<and> page_list_head_ram p' = Some i \<and>
    pl_prev (link i p') = Some i \<and> pl_next (link i p') = None"
  using assms by (auto simp: addPageToList_def ram_list_def Let_def numeral_eq_Suc pages_upd_link link_def)

section \<open>The interface for the replacement policies\<close>

text \<open>A queue of page links: taking a link out, putting one at the end, and what both leave alone
  (\<open>same\<close>). A link can only be appended while the queue is not empty.\<close>

locale page_queue =
  fixes queue :: "'s \<Rightarrow> nat list \<Rightarrow> bool"
    and remove :: "nat \<Rightarrow> 's \<Rightarrow> 's"
    and append :: "nat \<Rightarrow> 's \<Rightarrow> 's res"
    and same :: "'s \<Rightarrow> 's \<Rightarrow> bool"
  assumes remove_law: "queue s (as @ i # bs) \<Longrightarrow> queue (remove i s) (as @ bs) \<and> same s (remove i s)"
    and append_law: "queue s xs \<Longrightarrow> xs \<noteq> [] \<Longrightarrow> i < MAX_TOTAL_PAGES \<Longrightarrow> i \<notin> set xs \<Longrightarrow>
      \<exists>s'. append i s = Inr s' \<and> queue s' (xs @ [i]) \<and> same s s'"
    and queue_distinct: "queue s xs \<Longrightarrow> distinct xs"
    and queue_bound: "queue s xs \<Longrightarrow> i \<in> set xs \<Longrightarrow> i < MAX_TOTAL_PAGES"
    and same_trans: "same s t \<Longrightarrow> same t u \<Longrightarrow> same s u"
begin

text \<open>Moving the first link of a queue of two or more to the end is a rotation.\<close>

lemma rotation:
  assumes "queue s xs" "2 \<le> length xs"
  shows "\<exists>s'. append (hd xs) (remove (hd xs) s) = Inr s' \<and> queue s' (rotate1 xs) \<and> same s s'"
proof -
  obtain x y ys where xs: "xs = x # y # ys"
    using assms(2) by (metis One_nat_def Suc_1 Suc_le_length_iff)
  have R: "queue (remove x s) (y # ys)" "same s (remove x s)"
    using remove_law [of s "[]" x "y # ys"] assms(1) xs by auto
  have "x < MAX_TOTAL_PAGES" "x \<notin> set (y # ys)"
    using queue_bound [OF assms(1), of x] queue_distinct [OF assms(1)] xs by auto
  from append_law [OF R(1) _ this] obtain s' where "append x (remove x s) = Inr s'" "queue s' ((y # ys) @ [x])" "same (remove x s) s'"
    by auto
  then show ?thesis using same_trans [OF R(2)] xs by auto
qed

end

interpretation plist: page_queue ram_list removePageFromList addPageToList links_only
proof
  show "ram_list (removePageFromList i s) (as @ bs) \<and> links_only s (removePageFromList i s)"
    if "ram_list s (as @ i # bs)" for s as i bs
    using removePageFromList_ok [OF that] removePageFromList_links by simp
  show "\<exists>s'. addPageToList i s = Inr s' \<and> ram_list s' (xs @ [i]) \<and> links_only s s'"
    if "ram_list s xs" "xs \<noteq> []" "i < MAX_TOTAL_PAGES" "i \<notin> set xs" for s xs i
    using addPageToList_ok [OF that] .
  show "distinct xs" if "ram_list s xs" for s xs using that by (simp add: ram_list_def)
  show "i < MAX_TOTAL_PAGES" if "ram_list s xs" "i \<in> set xs" for s xs i
    using that dll_bound by (fastforce simp: ram_list_def)
  show "links_only s u" if "links_only s t" "links_only t u" for s t u using that by (rule links_only_trans)
qed

section \<open>Entering a new page\<close>

lemma addPageToRam_ok:
  assumes r: "ram_list p xs" and ne: "xs \<noteq> []"
    and slot: "(case find_page (PTE_ADDR addr) p of Some i \<Rightarrow> Some i | None \<Rightarrow> find_state NOT_USED p) = Some i"
    and fresh: "i \<notin> set xs"
  shows "\<exists>p'. addPageToRam sel addr p = Inr p' \<and> ram_list p' (xs @ [i]) \<and>
    num_pages_ram p' = num_pages_ram p + 1 \<and>
    page_id (pl_page (link i p')) = PTE_ADDR addr \<and> pstate (pl_page (link i p')) = IN_MEMORY \<and>
    (\<forall>j. j \<noteq> i \<longrightarrow> pl_page (link j p') = pl_page (link j p))"
proof -
  let ?pl = "pages_meta_data p" and ?z = "last xs"
  have len: "length ?pl = 32" and d: "distinct xs" and l: "dll ?pl None (page_list_head_ram p) xs"
    using r by (auto simp: ram_list_def)
  have i: "i < 32"
    using slot find_page_Some [of "PTE_ADDR addr" p i] find_state_Some [of NOT_USED p i] len
    by (auto split: option.splits)
  obtain h where h: "page_list_head_ram p = Some h" using l ne by (cases xs) auto
  have lst: "last_link ?pl 32 h = Inr ?z"
    using last_link_dll [of ?pl None h xs 32] l h ram_list_length [OF r] by simp
  define f where "f = (\<lambda>l :: page_link. l\<lparr>pl_next := None, pl_page := (pl_page l)\<lparr>page_id := PTE_ADDR addr,
    pindex := word_of_nat i, pstate := IN_MEMORY, offset_in_file := -1, shiftCounter := (if sel = LAPA then 0xFFFFFFFF else 0)\<rparr>\<rparr>)"
  define p1 where "p1 = upd_link ?z (\<lambda>l. l\<lparr>pl_next := Some i\<rparr>) p"
  define p2 where "p2 = upd_link i (\<lambda>l. l\<lparr>pl_prev := Some ?z\<rparr>) p1"
  have run: "addPageToRam sel addr p = Inr ((upd_link i f p2)\<lparr>num_pages_ram := num_pages_ram p2 + 1\<rparr>)"
    using h lst slot by (simp add: addPageToRam_def p1_def p2_def f_def)
  obtain pa where pa: "addPageToList i p = Inr pa" "ram_list pa (xs @ [i])" "links_only p pa"
    using addPageToList_ok [OF r ne i fresh] by blast
  have pa_eq: "pa = upd_link i (\<lambda>l. l\<lparr>pl_prev := Some ?z, pl_next := None\<rparr>) p1"
    using pa(1) h lst by (simp add: addPageToList_def p1_def Let_def)
  define g where "g = (\<lambda>l :: page_link. l\<lparr>pl_page := pl_page (f l)\<rparr>)"
  have "upd_link i f p2 = upd_link i g pa"
    using i len by (simp add: p2_def pa_eq p1_def upd_link_def f_def g_def)
  moreover have "ram_list (upd_link i g pa) (xs @ [i]) = ram_list pa (xs @ [i])"
    by (rule ram_list_data) (simp_all add: g_def)
  ultimately have "ram_list (upd_link i f p2) (xs @ [i])" using pa(2) by simp
  then have "ram_list ((upd_link i f p2)\<lparr>num_pages_ram := num_pages_ram p2 + 1\<rparr>) (xs @ [i])"
    by (simp add: ram_list_def)
  moreover have "pl_page (link j (upd_link i f p2)) = (if j = i then pl_page (f (link i p2)) else pl_page (link j p))" for j
    using links_onlyD(1) [OF pa(3), of j] i len pa_eq
    by (auto simp: \<open>upd_link i f p2 = upd_link i g pa\<close> link_upd p1_def g_def f_def p2_def)
  ultimately show ?thesis
    using run by (simp add: f_def link_def p2_def p1_def)
qed

section \<open>Properties\<close>

definition demo_links :: "page_link list" where
  "demo_links = map (\<lambda>i. \<lparr>pl_page = \<lparr>page_id = of_nat i * 4096, pstate = (if i < 3 then IN_MEMORY else NOT_USED),
      offset_in_file = -1, shiftCounter = 0, pindex = word_of_nat i\<rparr>,
      pl_next = (if i < 2 then Some (Suc i) else None), pl_prev = (if i \<in> {1, 2} then Some (i - 1) else None)\<rparr>) [0..<32]"

definition demo_proc :: proc where
  "demo_proc = \<lparr>sz = 0x3000, pgdir = 0, kstack = 0, p_state = RUNNING, pid = 1, parent = None,
     p_tf = \<lparr>tf_edi = 0, tf_esi = 0, tf_ebp = 0, tf_ebx = 0, tf_edx = 0, tf_ecx = 0, tf_eax = 0,
       tf_gs = 0, tf_fs = 0, tf_es = 0, tf_ds = 0, trapno = 0, tf_err = 0, tf_eip = 0, tf_cs = 0, tf_eflags = 0,
       tf_esp = 0, tf_ss = 0\<rparr>,
     p_context = \<lparr>c_edi = 0, c_esi = 0, c_ebx = 0, c_ebp = 0, c_eip = 0\<rparr>, p_chan = None, killed = False,
     ofile = replicate 16 None, cwd = None, p_name = [], swapFile = None, pages_meta_data = demo_links,
     page_list_head_ram = Some 0, num_pages_ram = 3, num_pages_disk = 0, available_Offsets = replicate 17 False,
     num_of_page_faults = 0, num_of_page_outs = 0\<rparr>"

lemma demo_list: "ram_list demo_proc [0, 1, 2]"
  by (simp add: ram_list_def demo_proc_def demo_links_def)

text \<open>
  Property C15 (the linked list refines a sequence). If the links of a process form the sequence
  \<open>xs\<close> in both directions, then \<open>removePageFromList\<close> of any of its elements leaves the sequence without that
  element, and \<open>addPageToList\<close> of any link that is not on the list, whatever its own pointers are, returns and puts it at the
  end; likewise for the element that was just removed, as long as others are left. No call changes the page data of
  any link or the counters of the process.
\<close>

theorem page_list_refines:
  assumes "ram_list p (as @ i # bs)"
  shows "ram_list (removePageFromList i p) (as @ bs) \<and> links_only p (removePageFromList i p) \<and>
    (\<forall>j. j < MAX_TOTAL_PAGES \<and> j \<notin> set (as @ i # bs) \<longrightarrow>
       (\<exists>p'. addPageToList j p = Inr p' \<and> ram_list p' (as @ i # bs @ [j]) \<and> links_only p p')) \<and>
    (as @ bs \<noteq> [] \<longrightarrow> (\<exists>p'. addPageToList i (removePageFromList i p) = Inr p' \<and>
       ram_list p' (as @ bs @ [i]) \<and> links_only p p'))"
proof -
  have R: "ram_list (removePageFromList i p) (as @ bs)" "links_only p (removePageFromList i p)"
    using plist.remove_law [OF assms] by simp_all
  have A: "\<exists>p'. addPageToList j p = Inr p' \<and> ram_list p' (as @ i # bs @ [j]) \<and> links_only p p'"
    if "j < MAX_TOTAL_PAGES" "j \<notin> set (as @ i # bs)" for j
    using plist.append_law [OF assms _ that] by auto
  have "i < MAX_TOTAL_PAGES" "i \<notin> set (as @ bs)"
    using plist.queue_bound [OF assms, of i] plist.queue_distinct [OF assms] by auto
  then show ?thesis
    using R A plist.append_law [OF R(1), of i] plist.same_trans [OF R(2)] by auto
qed

theorem page_list_refines_witness:
  "ram_list (removePageFromList 1 demo_proc) [0, 2] \<and>
   (\<exists>p'. addPageToList 5 (upd_link 5 (\<lambda>l. l\<lparr>pl_next := Some 7\<rparr>) demo_proc) = Inr p' \<and> ram_list p' [0, 1, 2, 5])"
proof -
  have "ram_list (upd_link 5 (\<lambda>l. l\<lparr>pl_next := Some 7\<rparr>) demo_proc) ([0] @ 1 # [2])"
    using demo_list by (simp add: ram_list_def upd_link_def demo_proc_def demo_links_def)
  from page_list_refines [OF this]
  have "\<forall>j. j < 32 \<and> j \<notin> {0, 1, 2} \<longrightarrow> (\<exists>p'. addPageToList j (upd_link 5 (\<lambda>l. l\<lparr>pl_next := Some 7\<rparr>) demo_proc) = Inr p' \<and> ram_list p' [0, 1, 2, j])"
    by auto
  from spec [OF this, of 5] show ?thesis using page_list_refines [of demo_proc "[0]" 1 "[2]"] demo_list by auto
qed

text \<open>
  Property C27 (entering a page). \<open>addPageToRam\<close> on a nonempty list puts the page in the entry that already
  carries its address, or else in the first unused one, appends that entry to the list, marks it
  \<open>IN_MEMORY\<close>, counts it, and leaves the data of all other entries alone.
\<close>

theorem addPageToRam_appends:
  assumes "ram_list p xs" "xs \<noteq> []"
    and "(case find_page (PTE_ADDR addr) p of Some i \<Rightarrow> Some i | None \<Rightarrow> find_state NOT_USED p) = Some i"
    and "i \<notin> set xs"
  shows "\<exists>p'. addPageToRam sel addr p = Inr p' \<and> ram_list p' (xs @ [i]) \<and>
    num_pages_ram p' = num_pages_ram p + 1 \<and>
    page_id (pl_page (link i p')) = PTE_ADDR addr \<and> pstate (pl_page (link i p')) = IN_MEMORY \<and>
    (\<forall>j. j \<noteq> i \<longrightarrow> pl_page (link j p') = pl_page (link j p))"
  using addPageToRam_ok [OF assms] .

theorem addPageToRam_appends_witness:
  "\<exists>p'. addPageToRam SCFIFO 0x60123 demo_proc = Inr p' \<and> ram_list p' [0, 1, 2, 3] \<and> num_pages_ram p' = 4"
proof -
  have "find_page (PTE_ADDR 0x60123) demo_proc = None" "find_state NOT_USED demo_proc = Some 3"
    by (simp_all add: find_page_def find_state_def demo_proc_def demo_links_def PTE_ADDR_def upt_rec)
  then show ?thesis
    using addPageToRam_appends [OF demo_list, of "0x60123" 3 SCFIFO] by (auto simp: demo_proc_def)
qed

text \<open>
  Property C40 (the first page cannot be removed). \<open>addPageToList\<close> on an empty list makes the link its own
  predecessor, because the case of the empty list falls through to the general one. When that
  link is then removed, the list head still points to it: the page stays on the list.
\<close>

theorem sole_page_not_removed:
  assumes "ram_list p []" "i < MAX_TOTAL_PAGES"
  shows "\<exists>p'. addPageToList i p = Inr p' \<and> pl_prev (link i p') = Some i \<and>
    page_list_head_ram (removePageFromList i p') = Some i"
  using addPageToList_empty [OF assms]
  by (auto simp: removePageFromList_def Let_def upd_link_def split: option.splits)

theorem sole_page_not_removed_witness:
  "\<exists>p'. addPageToList 5 (demo_proc\<lparr>page_list_head_ram := None\<rparr>) = Inr p' \<and> page_list_head_ram (removePageFromList 5 p') = Some 5"
  using sole_page_not_removed [of "demo_proc\<lparr>page_list_head_ram := None\<rparr>" 5]
  by (auto simp: ram_list_def demo_proc_def demo_links_def)

end
