(* ===== verification/Sched.thy ===== *)
theory Sched
  imports Pagelist
begin

text \<open>
  Sleeping, waking and scheduling (\<open>proc.c\<close>) and the switch of address spaces (\<open>seginit\<close>, \<open>switchkvm\<close>,
  \<open>switchuvm\<close> of \<open>vm.c\<close>).

  A process that gives up the processor leaves the kernel function in the middle: \<open>sleep_begin\<close> is
  \<open>sleep\<close> up to its call of \<open>sched\<close>, \<open>sleep_end\<close> what it does when it is resumed. \<open>sched\<close> itself hands the
  state to the scheduler. One pass of the loop of \<open>scheduler\<close> over the process table is
  \<open>scheduler_pass\<close>; what a process does between being resumed and the next call of \<open>sched\<close> is
  the parameter \<open>run\<close>. The process-table lock is held across all of this, and the locks, \<open>ncli\<close> and \<open>intena\<close> are left out
  here; \<open>Sleepwake\<close> has \<open>sleep\<close>, \<open>wakeup\<close>, \<open>sched\<close> and \<open>yield\<close> with them, on several processors.

  The lemmas: a pass runs every process that stays runnable until its turn, in its own address space.
\<close>

unbundle bit_operations_syntax

section \<open>Address spaces\<close>

abbreviation (input) SEG_KCODE :: nat where "SEG_KCODE \<equiv> 1"
abbreviation (input) SEG_KDATA :: nat where "SEG_KDATA \<equiv> 2"
abbreviation (input) SEG_UCODE :: nat where "SEG_UCODE \<equiv> 3"
abbreviation (input) SEG_UDATA :: nat where "SEG_UDATA \<equiv> 4"
abbreviation (input) SEG_TSS :: nat where "SEG_TSS \<equiv> 5"
abbreviation (input) DPL_USER :: "2 word" where "DPL_USER \<equiv> 3"

definition seginit :: "kernel \<Rightarrow> kernel" where
  "seginit s = s\<lparr>cpu0 := (cpu0 s)\<lparr>gdt := (gdt (cpu0 s))
     [SEG_KCODE := SEG (0x8 OR 0x2) 0 0xffffffff 0,
      SEG_KDATA := SEG 0x2 0 0xffffffff 0,
      SEG_UCODE := SEG (0x8 OR 0x2) 0 0xffffffff DPL_USER,
      SEG_UDATA := SEG 0x2 0 0xffffffff DPL_USER]\<rparr>\<rparr>"

definition switchkvm :: "kernel \<Rightarrow> kernel" where
  "switchkvm s = lcr3 (V2P (kpgdir s)) s"

definition switchuvm :: "conf \<Rightarrow> nat option \<Rightarrow> kernel \<Rightarrow> unit kres" where
  "switchuvm C p s =
    (case p of
       None \<Rightarrow> Inl (Panic ''switchuvm: no process'')
     | Some p \<Rightarrow>
         if kstack (prc p s) = 0 then Inl (Panic ''switchuvm: no kstack'')
         else if pgdir (prc p s) = 0 then Inl (Panic ''switchuvm: no pgdir'')
         else
           let s = s\<lparr>cpu0 := (cpu0 s)
                 \<lparr>gdt := (gdt (cpu0 s))[SEG_TSS := (SEG16 0x9 (conf_ts C) (104 - 1) 0)\<lparr>seg_s := 0\<rparr>],
                  ts_ss0 := word_of_nat (8 * SEG_KDATA),
                  ts_esp0 := kstack (prc p s) + KSTACKSIZE,
                  ts_iomb := 0xFFFF,
                  task_reg := word_of_nat (8 * SEG_TSS)\<rparr>\<rparr>
           in Inr ((), lcr3 (V2P (pgdir (prc p s))) s))"

section \<open>Sleeping and waking\<close>

definition sched :: "nat \<Rightarrow> kernel \<Rightarrow> unit kres" where
  "sched p s = (if p_state (prc p s) = RUNNING then Inl (Panic ''sched running'') else Inr ((), s))"

definition yield :: "kernel \<Rightarrow> unit kres" where
  "yield s = bindr (myproc s) (\<lambda>p. sched p (upd_proc p (\<lambda>q. q\<lparr>p_state := RUNNABLE\<rparr>) s))"

definition sleep_begin :: "chan \<Rightarrow> kernel \<Rightarrow> unit kres" where
  "sleep_begin ch s =
    (case curp s of
       None \<Rightarrow> Inl (Panic ''sleep'')
     | Some p \<Rightarrow> sched p (upd_proc p (\<lambda>q. q\<lparr>p_chan := Some ch, p_state := SLEEPING\<rparr>) s))"

definition sleep_end :: "nat \<Rightarrow> kernel \<Rightarrow> kernel" where
  "sleep_end p s = upd_proc p (\<lambda>q. q\<lparr>p_chan := None\<rparr>) s"

definition wakeup1 :: "chan option \<Rightarrow> kernel \<Rightarrow> kernel" where
  "wakeup1 ch s = s\<lparr>ptable := map (\<lambda>p. if p_state p = SLEEPING \<and> p_chan p = ch then p\<lparr>p_state := RUNNABLE\<rparr> else p) (ptable s)\<rparr>"

definition wakeup :: "chan \<Rightarrow> kernel \<Rightarrow> kernel" where
  "wakeup ch s = wakeup1 (Some ch) s"

definition kill :: "int \<Rightarrow> kernel \<Rightarrow> int \<times> kernel" where
  "kill n s =
    (case find_from (\<lambda>p. pid p = n) (ptable s) 0 of
       None \<Rightarrow> (-1, s)
     | Some i \<Rightarrow> (0, upd_proc i (\<lambda>p. p\<lparr>killed := True, p_state := (if p_state p = SLEEPING then RUNNABLE else p_state p)\<rparr>) s))"

section \<open>The scheduler\<close>

text \<open>Handing the processor to process \<open>p\<close>, up to the context switch.\<close>

definition dispatch :: "conf \<Rightarrow> nat \<Rightarrow> kernel \<Rightarrow> unit kres" where
  "dispatch C p s =
     bindr (switchuvm C (Some p) (s\<lparr>curp := Some p\<rparr>)) (\<lambda>(_, s).
     Inr ((), upd_proc p (\<lambda>q. q\<lparr>p_state := RUNNING\<rparr>) s))"

fun scheduler_pass :: "conf \<Rightarrow> (nat \<Rightarrow> kernel \<Rightarrow> unit kres) \<Rightarrow> nat list \<Rightarrow> kernel \<Rightarrow> unit kres" where
  "scheduler_pass C run [] s = Inr ((), s)"
| "scheduler_pass C run (p # ps) s =
    (if p_state (prc p s) \<noteq> RUNNABLE then scheduler_pass C run ps s
     else bindr (dispatch C p s) (\<lambda>(_, s).
          bindr (run p s) (\<lambda>(_, s).
          scheduler_pass C run ps ((switchkvm s)\<lparr>curp := None\<rparr>))))"

text \<open>The loop of the scheduler, \<open>n\<close> passes of it.\<close>

fun scheduler :: "conf \<Rightarrow> (nat \<Rightarrow> kernel \<Rightarrow> unit kres) \<Rightarrow> nat \<Rightarrow> kernel \<Rightarrow> unit kres" where
  "scheduler C run 0 s = Inr ((), s)"
| "scheduler C run (Suc n) s = bindr (scheduler_pass C run [0..<NPROC] s) (\<lambda>(_, s). scheduler C run n s)"

section \<open>Wakeups\<close>

lemma ptable_wakeup1 [simp]: "length (ptable (wakeup1 ch s)) = length (ptable s)"
  by (simp add: wakeup1_def)

lemma prc_wakeup1:
  "i < length (ptable s) \<Longrightarrow> prc i (wakeup1 ch s) =
    (if p_state (prc i s) = SLEEPING \<and> p_chan (prc i s) = ch then (prc i s)\<lparr>p_state := RUNNABLE\<rparr> else prc i s)"
  by (simp add: prc_def wakeup1_def)

lemma wakeup_frame [simp]:
  "pmem (wakeup1 ch s) = pmem s" "freelist (wakeup1 ch s) = freelist s"
  "referenceCounters (wakeup1 ch s) = referenceCounters s" "curp (wakeup1 ch s) = curp s"
  "pipes (wakeup1 ch s) = pipes s" "ftable (wakeup1 ch s) = ftable s" "blocks (wakeup1 ch s) = blocks s"
  "icache (wakeup1 ch s) = icache s" "console_in (wakeup1 ch s) = console_in s"
  by (simp_all add: wakeup1_def)

lemma upd_proc_frame [simp]:
  "pipes (upd_proc p f s) = pipes s" "console_in (upd_proc p f s) = console_in s"
  by (simp_all add: upd_proc_def)

lemma switchuvm_frame:
  assumes "switchuvm C (Some p) s = Inr (u, t)"
  shows "ptable t = ptable s" "curp t = curp s" "cr3 t = V2P (pgdir (prc p s))"
    "ts_esp0 (cpu0 t) = kstack (prc p s) + KSTACKSIZE" "pmem t = pmem s"
  using assms by (auto simp: switchuvm_def lcr3_def Let_def prc_def split: if_splits)

lemma prc_ptable: "ptable t = ptable s \<Longrightarrow> prc p t = prc p s"
  by (simp add: prc_def)

text \<open>A process that is given the processor is the current one, in its own address space.\<close>

lemma dispatch_spec:
  assumes "p < length (ptable s)" "kstack (prc p s) \<noteq> 0" "pgdir (prc p s) \<noteq> 0"
  shows "\<exists>t. dispatch C p s = Inr ((), t) \<and> curp t = Some p \<and> p_state (prc p t) = RUNNING \<and>
    cr3 t = V2P (pgdir (prc p s)) \<and> ts_esp0 (cpu0 t) = kstack (prc p s) + KSTACKSIZE \<and>
    length (ptable t) = length (ptable s) \<and> (\<forall>q. q \<noteq> p \<longrightarrow> prc q t = prc q s)"
proof -
  have P: "prc q (s\<lparr>curp := Some p\<rparr>) = prc q s" for q by (simp add: prc_def)
  obtain t where t: "switchuvm C (Some p) (s\<lparr>curp := Some p\<rparr>) = Inr ((), t)"
    using assms P by (auto simp: switchuvm_def Let_def)
  have D: "dispatch C p s = Inr ((), upd_proc p (\<lambda>q. q\<lparr>p_state := RUNNING\<rparr>) t)"
    using t by (simp add: dispatch_def)
  note F = switchuvm_frame [OF t, unfolded P]
  have Q: "prc q t = prc q s" for q using F(1) by (simp add: prc_def)
  define w where "w = upd_proc p (\<lambda>q. q\<lparr>p_state := RUNNING\<rparr>) t"
  have L: "p < length (ptable t)" using F(1) assms(1) by simp
  have w: "curp w = curp t" "cr3 w = cr3 t" "cpu0 w = cpu0 t" "length (ptable w) = length (ptable t)"
    by (simp_all add: w_def upd_proc_def)
  have p: "prc p w = (prc p s)\<lparr>p_state := RUNNING\<rparr>" "\<And>q. q \<noteq> p \<Longrightarrow> prc q w = prc q s"
    using L Q by (simp_all add: w_def)
  show ?thesis
    by (intro exI [of _ w] conjI) (use D F w p in \<open>simp_all add: w_def [symmetric]\<close>)
qed

section \<open>Passes of the scheduler\<close>

lemma scheduler_pass_append:
  "scheduler_pass C run (ps @ qs) s = bindr (scheduler_pass C run ps s) (\<lambda>(_, s). scheduler_pass C run qs s)"
proof (induction ps arbitrary: s)
  case (Cons p ps)
  then show ?case by (auto simp: bindr_def split: sum.splits)
qed simp

text \<open>\<open>ready q\<close> is what a process needs to be run; the others must not take that away from it, and must
  come back.\<close>

definition ready :: "nat \<Rightarrow> kernel \<Rightarrow> bool" where
  "ready q s \<longleftrightarrow> q < length (ptable s) \<and> p_state (prc q s) = RUNNABLE \<and> kstack (prc q s) \<noteq> 0 \<and> pgdir (prc q s) \<noteq> 0"

definition table_ok :: "kernel \<Rightarrow> bool" where
  "table_ok s \<longleftrightarrow> length (ptable s) = NPROC \<and>
     (\<forall>i < NPROC. p_state (prc i s) = RUNNABLE \<longrightarrow> kstack (prc i s) \<noteq> 0 \<and> pgdir (prc i s) \<noteq> 0)"

definition cooperative :: "(nat \<Rightarrow> kernel \<Rightarrow> unit kres) \<Rightarrow> bool" where
  "cooperative run \<longleftrightarrow> (\<forall>p s. table_ok s \<longrightarrow> (\<exists>t. run p s = Inr ((), t) \<and> table_ok t \<and>
     (\<forall>q. q \<noteq> p \<longrightarrow> p_state (prc q s) = RUNNABLE \<longrightarrow> p_state (prc q t) = RUNNABLE)))"

lemma ready_table: "table_ok s \<Longrightarrow> q < NPROC \<Longrightarrow> p_state (prc q s) = RUNNABLE \<Longrightarrow> ready q s"
  by (simp add: table_ok_def ready_def)

lemma table_ok_cong: "ptable t = ptable s \<Longrightarrow> table_ok t = table_ok s"
  by (simp add: table_ok_def prc_def)

lemma table_ok_dispatch:
  assumes "table_ok s" "dispatch C p s = Inr (u, t)" "p < NPROC"
  shows "table_ok t"
proof -
  obtain t0 where t0: "switchuvm C (Some p) (s\<lparr>curp := Some p\<rparr>) = Inr ((), t0)"
    and t: "t = upd_proc p (\<lambda>q. q\<lparr>p_state := RUNNING\<rparr>) t0"
    using assms(2) by (auto simp: dispatch_def bindr_eq_Inr)
  have "ptable t0 = ptable s" using switchuvm_frame(1) [OF t0] by simp
  then show ?thesis using assms(1,3) t by (auto simp: table_ok_def prc_def upd_proc_def nth_list_update)
qed

lemma pass_keeps_ready:
  assumes "cooperative run" "table_ok s" "q \<notin> set ps" "set ps \<subseteq> {..<NPROC}" "q < NPROC"
    and "p_state (prc q s) = RUNNABLE"
  shows "\<exists>t. scheduler_pass C run ps s = Inr ((), t) \<and> table_ok t \<and> p_state (prc q t) = RUNNABLE"
  using assms(2-6)
proof (induction ps arbitrary: s)
  case (Cons p ps)
  show ?case
  proof (cases "p_state (prc p s) = RUNNABLE")
    case True
    have r: "ready p s" using True Cons.prems by (auto intro: ready_table)
    obtain t where t: "dispatch C p s = Inr ((), t)" "\<forall>q. q \<noteq> p \<longrightarrow> prc q t = prc q s"
      using dispatch_spec [of p s C] r by (auto simp: ready_def)
    have tt: "table_ok t" using table_ok_dispatch [OF Cons.prems(1) t(1)] Cons.prems(3) by simp
    obtain v where v: "run p t = Inr ((), v)" "table_ok v" "p_state (prc q v) = RUNNABLE"
      using assms(1) tt t(2) Cons.prems unfolding cooperative_def by (metis list.set_intros(1))
    define w where "w = (switchkvm v)\<lparr>curp := None\<rparr>"
    have w: "ptable w = ptable v" by (simp add: w_def switchkvm_def lcr3_def)
    show ?thesis
      using Cons.IH [of w] Cons.prems v t table_ok_cong [OF w] prc_ptable [OF w, of q] True
      by (simp add: w_def)
  qed (use Cons in simp)
qed simp

section \<open>Properties\<close>

definition demo_cpu :: cpustate where
  "demo_cpu = \<lparr>gdt = [], ts_esp0 = 0, ts_ss0 = 0, ts_iomb = 0, task_reg = 0\<rparr>"

definition demo_kernel :: kernel where
  "demo_kernel = \<lparr>pmem = \<lambda>_ _. 0, freelist = 0, use_lock = True, kmem_locked = False, referenceCounters = \<lambda>_. 0,
     total_system_pages = 0, system_free_pages = 0, blocks = \<lambda>_ _. 0,
     sb = \<lparr>sb_size = 1000, nblocks = 941, ninodes = 200, nlog = 30, logstart = 2, inodestart = 32, bmapstart = 58\<rparr>,
     log_size = 30, outstanding = 0, committing = False, lh_block = [], icache = [],
     ptable = replicate 64 (demo_proc\<lparr>p_state := RUNNABLE, kstack := 0x8DFF0000, pgdir := 0x8DFF1000\<rparr>),
     initproc = None, nextpid = 1, curp = None, ftable = [],
     pipes = \<lambda>_. \<lparr>p_data = \<lambda>_. 0, nread = 0, nwrite = 0, readopen = False, writeopen = False\<rparr>,
     console_in = \<lparr>in_buf = \<lambda>_. 0, in_r = 0, in_w = 0, in_e = 0\<rparr>, console_out = [], cr3 = 0, kpgdir = 0,
     global_pgdir_flag = False, global_pgdir = 0, ticks = 0, cpu0 = demo_cpu\<rparr>"

definition demo_conf :: conf where
  "demo_conf = \<lparr>conf_end = 0x8DFF0000, conf_data = 0x80109000, conf_ts = 0x80112000, conf_forkret = 0x80103a00,
     conf_trapret = 0x80105a00, SELECTION = SCFIFO,
     conf_dev = \<lambda>_. None\<rparr>"

text \<open>
  Property C22 (the scheduler is fair). If the processes that get the processor come back and do not make
  another runnable process unrunnable, then a pass of the scheduler gives the processor to every
  process \<open>q\<close> that is \<open>RUNNABLE\<close> when the pass begins: the pass reaches \<open>q\<close> with \<open>q\<close> still runnable,
  dispatches it (so that \<open>q\<close> runs as the current process in its own address space) and goes on with the
  processes behind it.
\<close>

theorem scheduler_fair:
  assumes "cooperative run" "table_ok s" "q < NPROC" "p_state (prc q s) = RUNNABLE"
  shows "\<exists>t u. scheduler_pass C run [0..<q] s = Inr ((), t) \<and> dispatch C q t = Inr ((), u) \<and>
    curp u = Some q \<and> p_state (prc q u) = RUNNING \<and> cr3 u = V2P (pgdir (prc q t)) \<and>
    scheduler_pass C run [0..<NPROC] s = bindr (run q u) (\<lambda>(_, v).
      scheduler_pass C run [Suc q..<NPROC] ((switchkvm v)\<lparr>curp := None\<rparr>))"
proof -
  have e: "[0..<NPROC] = [0..<q] @ q # [Suc q..<NPROC]"
    using assms(3) by (metis le0 less_imp_le_nat upt_add_eq_append upt_conv_Cons le_add_diff_inverse add_0)
  have "set [0..<q] \<subseteq> {..<NPROC}" using assms(3) by auto
  then obtain t where t: "scheduler_pass C run [0..<q] s = Inr ((), t)" "table_ok t" "p_state (prc q t) = RUNNABLE"
    using pass_keeps_ready [OF assms(1,2) _ _ assms(3,4), of "[0..<q]" C] by auto
  have "ready q t" using t assms(3) by (auto intro: ready_table)
  then obtain u where "dispatch C q t = Inr ((), u)" "curp u = Some q" "p_state (prc q u) = RUNNING"
      "cr3 u = V2P (pgdir (prc q t))"
    using dispatch_spec [of q t C] by (auto simp: ready_def)
  then show ?thesis using t unfolding e scheduler_pass_append by auto
qed

text \<open>A process that yields at once is cooperative.\<close>

definition yields :: "nat \<Rightarrow> kernel \<Rightarrow> unit kres" where
  "yields p s = Inr ((), if p < NPROC \<and> p_state (prc p s) = RUNNING \<and> kstack (prc p s) \<noteq> 0 \<and> pgdir (prc p s) \<noteq> 0
     then upd_proc p (\<lambda>q. q\<lparr>p_state := RUNNABLE\<rparr>) s else s)"

theorem scheduler_fair_witness:
  "\<exists>u v. dispatch demo_conf 63 u = Inr ((), v) \<and> curp v = Some 63 \<and> scheduler_pass demo_conf yields [0..<63] demo_kernel = Inr ((), u)"
proof -
  have "cooperative yields"
    by (auto simp: cooperative_def yields_def table_ok_def upd_proc_def prc_def nth_list_update)
  moreover have "table_ok demo_kernel" "p_state (prc 63 demo_kernel) = RUNNABLE"
    by (simp_all add: table_ok_def demo_kernel_def prc_def)
  ultimately show ?thesis using scheduler_fair [of yields demo_kernel 63 demo_conf] by auto
qed

end
