(* ===== verification/Ring.thy ===== *)
theory Ring
  imports Prelude
begin

text \<open>
  Ring buffers as the pipe and the console use them: an array of \<open>N\<close> bytes and free-running 32-bit
  counters of the bytes taken and put, indexed modulo \<open>N\<close>. The interface \<open>ring_buffer\<close> asks only that a
  proper \<open>N\<close> divides \<open>2 ^ 32\<close>, which is what makes the indices continue correctly when a counter wraps
  around. Its lemmas relate the array and the counters to the queue of bytes they hold.
\<close>

definition ring_len :: "u32 \<Rightarrow> u32 \<Rightarrow> nat" where
  "ring_len r w = unat (w - r)"

definition ring_list :: "nat \<Rightarrow> (nat \<Rightarrow> u8) \<Rightarrow> u32 \<Rightarrow> u32 \<Rightarrow> u8 list" where
  "ring_list N buf r w = map (\<lambda>i. buf (unat (r + word_of_nat i) mod N)) [0..<ring_len r w]"

lemma length_ring_list [simp]: "length (ring_list N buf r w) = ring_len r w"
  by (simp add: ring_list_def)

lemma ring_empty_iff: "ring_len r w = 0 \<longleftrightarrow> r = w"
  by (auto simp: ring_len_def unat_eq_zero)

lemma ring_len_bound: "ring_len r w < 4294967296"
  unfolding ring_len_def by (rule unat_u32_bound)

lemma ring_len_put:
  assumes "ring_len r w < 4294967295"
  shows "ring_len r (w + 1) = Suc (ring_len r w)"
proof -
  have e: "w + 1 - r = (w - r) + 1" by (simp add: algebra_simps)
  show ?thesis using assms unat_add_nowrap [of "w - r" 1] unfolding ring_len_def e by simp
qed

lemma ring_len_get:
  assumes "r \<noteq> w"
  shows "ring_len r w = Suc (ring_len (r + 1) w)"
proof -
  have "unat (w - r) \<noteq> 0" using assms ring_empty_iff [of r w] by (simp add: ring_len_def)
  then have "unat (w - r - 1) = unat (w - r) - 1" using unat_sub_nowrap [of 1 "w - r"] by simp
  then show ?thesis using \<open>unat (w - r) \<noteq> 0\<close> by (simp add: ring_len_def diff_diff_eq)
qed

text \<open>A full test in the style of the code: \<open>w == r + N\<close>.\<close>

lemma ring_full_iff:
  assumes "N < 4294967296"
  shows "w = r + word_of_nat N \<longleftrightarrow> ring_len r w = N"
proof
  assume "ring_len r w = N"
  then have "w - r = word_of_nat N" unfolding ring_len_def by (rule unat_eq_imp)
  then show "w = r + word_of_nat N" by (metis add.commute diff_add_cancel)
qed (simp add: ring_len_def unat_word_of_nat assms)

text \<open>Splitting a buffer at a counter in between, and its last byte.\<close>

lemma ring_len_split:
  assumes "ring_len r w + ring_len w e < 4294967296"
  shows "ring_len r e = ring_len r w + ring_len w e"
proof -
  have "e - r = (w - r) + (e - w)" by simp
  then show ?thesis using unat_add_nowrap [of "w - r" "e - w"] assms unfolding ring_len_def by simp
qed

lemma ring_len_diff:
  assumes "ring_len r w \<le> ring_len r e"
  shows "ring_len w e = ring_len r e - ring_len r w"
proof -
  have "e - w = (e - r) - (w - r)" by simp
  then show ?thesis
    using unat_sub_nowrap [OF assms [unfolded ring_len_def]] unfolding ring_len_def by (rule trans [OF arg_cong])
qed

lemma ring_list_split:
  assumes "ring_len r w + ring_len w e < 4294967296"
  shows "ring_list N buf r e = ring_list N buf r w @ ring_list N buf w e"
proof (rule nth_equalityI)
  note n = ring_len_split [OF assms]
  then show "length (ring_list N buf r e) = length (ring_list N buf r w @ ring_list N buf w e)" by simp
  have w: "w = r + word_of_nat (ring_len r w)" unfolding ring_len_def by simp
  fix i assume "i < length (ring_list N buf r e)"
  then have i: "i < ring_len r w + ring_len w e" using n by simp
  show "ring_list N buf r e ! i = (ring_list N buf r w @ ring_list N buf w e) ! i"
  proof (cases "i < ring_len r w")
    case False
    then have e: "r + word_of_nat i = w + word_of_nat (i - ring_len r w)"
      by (subst w) (simp add: add.assoc flip: of_nat_add)
    have "i - ring_len r w < ring_len w e" using False i by linarith
    then show ?thesis using False i n by (simp add: ring_list_def nth_append e)
  qed (use i n in \<open>simp add: ring_list_def nth_append\<close>)
qed

lemma ring_list_last:
  assumes "w \<noteq> e"
  shows "ring_list N buf w e = ring_list N buf w (e - 1) @ [buf (unat (e - 1) mod N)]"
proof -
  have "ring_len w e \<noteq> 0" using assms by (simp add: ring_empty_iff)
  then have "1 \<le> unat (e - w)" by (simp add: ring_len_def)
  then have "unat (e - w - 1) = unat (e - w) - 1" using unat_sub_nowrap [of 1 "e - w"] by simp
  moreover have e: "e - 1 - w = e - w - 1" by (simp add: diff_diff_eq add.commute)
  ultimately have n: "ring_len w e = Suc (ring_len w (e - 1))"
    using \<open>1 \<le> unat (e - w)\<close> unfolding ring_len_def e by linarith
  have "w + word_of_nat (ring_len w (e - 1)) = e - 1" unfolding ring_len_def by simp
  then show ?thesis unfolding ring_list_def n by simp
qed

locale ring_buffer =
  fixes N :: nat
  assumes pos: "0 < N" and wraps: "N dvd 4294967296" and lt: "N < 4294967296"
begin

lemma slot: "unat (r + word_of_nat i) mod N = (unat r + i) mod N" for r :: u32
proof -
  have m: "(x mod 4294967296) mod N = x mod N" for x using wraps by (simp add: mod_mod_cancel)
  have "unat (r + word_of_nat i) = (unat r + i) mod 4294967296"
    by (simp add: unat_word_ariths unat_of_nat take_bit_eq_mod mod_add_right_eq)
  then show ?thesis by (simp add: m)
qed

lemma slots_distinct_le:
  assumes "i \<le> j" "j < N" "(a + i) mod N = (a + j) mod N"
  shows "i = j"
proof -
  have "N dvd (a + j) - (a + i)" using assms(1,3) mod_eq_dvd_iff_nat [of "a + i" "a + j" N] by simp
  then have "N dvd j - i" by simp
  then have "j - i = 0" using assms(2) by (cases "j - i = 0") (auto dest: dvd_imp_le)
  then show ?thesis using assms(1) by simp
qed

lemma slots_distinct:
  assumes "i < N" "j < N" "unat ((r :: u32) + word_of_nat i) mod N = unat (r + word_of_nat j) mod N"
  shows "i = j"
  using slots_distinct_le [of i j "unat r"] slots_distinct_le [of j i "unat r"] assms
  unfolding slot by (cases "i \<le> j") auto

lemma put:
  assumes "ring_len r w < N"
  shows "ring_list N (buf(unat w mod N := c)) r (w + 1) = ring_list N buf r w @ [c]"
proof (rule nth_equalityI)
  have n: "ring_len r (w + 1) = Suc (ring_len r w)" using assms lt by (intro ring_len_put) simp
  then show "length (ring_list N (buf(unat w mod N := c)) r (w + 1)) = length (ring_list N buf r w @ [c])" by simp
  have w: "w = r + word_of_nat (ring_len r w)" unfolding ring_len_def by simp
  fix i assume "i < length (ring_list N (buf(unat w mod N := c)) r (w + 1))"
  then have i: "i < Suc (ring_len r w)" using n by simp
  show "ring_list N (buf(unat w mod N := c)) r (w + 1) ! i = (ring_list N buf r w @ [c]) ! i"
  proof (cases "i = ring_len r w")
    case True
    then show ?thesis using n w by (simp add: ring_list_def nth_append del: upt_Suc)
  next
    case False
    then have "unat (r + word_of_nat i) mod N \<noteq> unat w mod N"
      using slots_distinct [of i "ring_len r w" r] i assms w by auto
    then show ?thesis using False i n by (simp add: ring_list_def nth_append del: upt_Suc)
  qed
qed

lemma get:
  assumes "r \<noteq> w"
  shows "ring_list N buf r w = buf (unat r mod N) # ring_list N buf (r + 1) w"
proof -
  have "[0..<Suc n] = 0 # map Suc [0..<n]" for n by (simp add: map_Suc_upt upt_conv_Cons)
  then show ?thesis
    unfolding ring_list_def ring_len_get [OF assms] by (simp add: add.assoc del: upt_Suc)
qed

end

end
