(* ===== verification/Pipe.thy ===== *)
theory Pipe
  imports Sched Ring
begin

text \<open>
  Pipes, \<open>pipe.c\<close>. A pipe lives in a page of its own and is named by the address of that page. The
  lock of the pipe is held by each routine except while it sleeps, so a routine is atomic up to the
  point where it returns or goes to sleep: \<open>pipewrite_from\<close> reports which of the two happened and what
  is left to write, and is called again when the process is resumed.

  \<open>pipe_step\<close> is the interleaving of any number of writers and readers on one pipe with the rest
  of the kernel. Its invariant says that the bytes read so far followed by those in the ring
  buffer are exactly the bytes written, in order, that the buffer never overflows although its
  counters wrap around, and that no writer sleeps while there is room.
\<close>

section \<open>Operations\<close>

definition upd_pipe :: "u32 \<Rightarrow> (pipe \<Rightarrow> pipe) \<Rightarrow> kernel \<Rightarrow> kernel" where
  "upd_pipe a f s = s\<lparr>pipes := (pipes s)(a := f (pipes s a))\<rparr>"

definition pipeclose :: "u32 \<Rightarrow> u32 \<Rightarrow> bool \<Rightarrow> kernel \<Rightarrow> unit kres" where
  "pipeclose E a writable s =
    (let s = (if writable then wakeup (ChPipeR a) (upd_pipe a (\<lambda>p. p\<lparr>writeopen := False\<rparr>) s)
              else wakeup (ChPipeW a) (upd_pipe a (\<lambda>p. p\<lparr>readopen := False\<rparr>) s))
     in if \<not> readopen (pipes s a) \<and> \<not> writeopen (pipes s a) then kfree E a s else Inr ((), s))"

datatype wprogress = WDone | WFail | WWait "u8 list"   \<comment> \<open>asleep, with these bytes left to write\<close>

definition pipe_put :: "u8 \<Rightarrow> pipe \<Rightarrow> pipe" where
  "pipe_put c p = p\<lparr>p_data := (p_data p)(unat (nwrite p) mod PIPESIZE := c), nwrite := nwrite p + 1\<rparr>"

fun pipewrite_from :: "u32 \<Rightarrow> u8 list \<Rightarrow> kernel \<Rightarrow> wprogress kres" where
  "pipewrite_from a [] s = Inr (WDone, wakeup (ChPipeR a) s)"
| "pipewrite_from a (c # cs) s =
    (if nwrite (pipes s a) = nread (pipes s a) + 512 then
       bindr (if \<not> readopen (pipes s a) then Inr True else bindr (myproc s) (\<lambda>p. Inr (killed (prc p s)))) (\<lambda>stop.
       if stop then Inr (WFail, s)
       else bindr (sleep_begin (ChPipeW a) (wakeup (ChPipeR a) s)) (\<lambda>(_, s). Inr (WWait (c # cs), s)))
     else pipewrite_from a cs (upd_pipe a (pipe_put c) s))"

text \<open>The result of a blocking call: what it returns, or that the process is now asleep.\<close>

datatype 'a call = Returned 'a | Asleep

definition pipewrite :: "u32 \<Rightarrow> u8 list \<Rightarrow> kernel \<Rightarrow> int call kres" where
  "pipewrite a cs s =
     bindr (pipewrite_from a cs s) (\<lambda>(w, s).
     Inr (case w of WDone \<Rightarrow> Returned (int (length cs)) | WFail \<Rightarrow> Returned (-1) | WWait _ \<Rightarrow> Asleep, s))"

fun piperead_copy :: "u32 \<Rightarrow> nat \<Rightarrow> kernel \<Rightarrow> u8 list \<times> kernel" where
  "piperead_copy a 0 s = ([], s)"
| "piperead_copy a (Suc n) s =
    (if nread (pipes s a) = nwrite (pipes s a) then ([], s)
     else
       let c = p_data (pipes s a) (unat (nread (pipes s a)) mod PIPESIZE);
           (cs, s) = piperead_copy a n (upd_pipe a (\<lambda>p. p\<lparr>nread := nread p + 1\<rparr>) s)
       in (c # cs, s))"

definition piperead :: "u32 \<Rightarrow> nat \<Rightarrow> kernel \<Rightarrow> (int \<times> u8 list) call kres" where
  "piperead a n s =
    (if nread (pipes s a) = nwrite (pipes s a) \<and> writeopen (pipes s a) then
       bindr (myproc s) (\<lambda>p.
       if killed (prc p s) then Inr (Returned (-1, []), s)
       else bindr (sleep_begin (ChPipeR a) s) (\<lambda>(_, s). Inr (Asleep, s)))
     else
       let (cs, s) = piperead_copy a n s
       in Inr (Returned (int (length cs), cs), wakeup (ChPipeW a) s))"

section \<open>The ring buffer\<close>

interpretation pipe_ring: ring_buffer 512
  by unfold_locales simp_all

definition contents :: "pipe \<Rightarrow> u8 list" where
  "contents p = ring_list PIPESIZE (p_data p) (nread p) (nwrite p)"

definition pipe_full :: "pipe \<Rightarrow> bool" where
  "pipe_full p \<longleftrightarrow> nwrite p = nread p + 512"

lemma pipe_full_iff: "pipe_full p \<longleftrightarrow> length (contents p) = 512"
  using ring_full_iff [of 512 "nwrite p" "nread p"] by (simp add: pipe_full_def contents_def)

lemma pipe_empty_iff: "nread p = nwrite p \<longleftrightarrow> contents p = []"
  using ring_empty_iff [of "nread p" "nwrite p"] by (simp add: contents_def flip: length_0_conv)

lemma contents_put:
  assumes "length (contents p) \<le> 512" "\<not> pipe_full p"
  shows "contents (pipe_put c p) = contents p @ [c]"
  using assms pipe_ring.put [of "nread p" "nwrite p" "p_data p" c]
  unfolding pipe_full_iff by (simp add: contents_def pipe_put_def)

lemma contents_get:
  assumes "nread p \<noteq> nwrite p"
  shows "contents p = p_data p (unat (nread p) mod 512) # contents (p\<lparr>nread := nread p + 1\<rparr>)"
  using pipe_ring.get [OF assms, of "p_data p"] by (simp add: contents_def)

lemma contents_flags [simp]:
  "contents (p\<lparr>readopen := b\<rparr>) = contents p" "contents (p\<lparr>writeopen := b\<rparr>) = contents p"
  by (simp_all add: contents_def)

section \<open>Effect of the routines\<close>

lemma upd_pipe_simps [simp]:
  "pipes (upd_pipe a f s) = (pipes s)(a := f (pipes s a))" "ptable (upd_pipe a f s) = ptable s"
  "curp (upd_pipe a f s) = curp s" "prc p (upd_pipe a f s) = prc p s"
  "upd_pipe a g (upd_pipe a f s) = upd_pipe a (\<lambda>p. g (f p)) s" "upd_pipe a (\<lambda>p. p) s = s"
  by (simp_all add: upd_pipe_def prc_def)

text \<open>A writer puts a prefix of its bytes into the pipe and then is done, fails or sleeps.\<close>

definition asleep :: "nat \<Rightarrow> chan \<Rightarrow> kernel \<Rightarrow> kernel" where
  "asleep p ch s = upd_proc p (\<lambda>q. q\<lparr>p_chan := Some ch, p_state := SLEEPING\<rparr>) s"

lemma sleep_begin_asleep:
  "curp s = Some p \<Longrightarrow> p < length (ptable s) \<Longrightarrow> sleep_begin ch s = Inr ((), asleep p ch s)"
  by (simp add: sleep_begin_def sched_def asleep_def)

lemma killed_wakeup [simp]: "i < length (ptable s) \<Longrightarrow> killed (prc i (wakeup1 ch s)) = killed (prc i s)"
  by (simp add: prc_wakeup1)

lemma wakeup_upd_pipe: "wakeup ch (upd_pipe a f s) = upd_pipe a f (wakeup ch s)"
  by (simp add: wakeup_def wakeup1_def upd_pipe_def)

definition pipe_wrote :: "u32 \<Rightarrow> nat \<Rightarrow> u8 list \<Rightarrow> kernel \<Rightarrow> nat \<Rightarrow> pipe \<Rightarrow> wprogress \<Rightarrow> kernel \<Rightarrow> bool" where
  "pipe_wrote a p cs s k q w t \<longleftrightarrow> k \<le> length cs \<and>
    q = foldl (\<lambda>q c. pipe_put c q) (pipes s a) (take k cs) \<and>
    contents q = contents (pipes s a) @ take k cs \<and> length (contents q) \<le> 512 \<and>
    (case w of WDone \<Rightarrow> k = length cs \<and> t = wakeup (ChPipeR a) (upd_pipe a (\<lambda>_. q) s)
     | WFail \<Rightarrow> pipe_full q \<and> (\<not> readopen q \<or> killed (prc p s)) \<and> t = upd_pipe a (\<lambda>_. q) s
     | WWait rest \<Rightarrow> rest = drop k cs \<and> rest \<noteq> [] \<and> pipe_full q \<and> readopen q \<and> \<not> killed (prc p s) \<and>
         t = asleep p (ChPipeW a) (wakeup (ChPipeR a) (upd_pipe a (\<lambda>_. q) s)))"

lemma pipewrite_from_spec:
  assumes "length (contents (pipes s a)) \<le> 512" "curp s = Some p" "p < length (ptable s)"
  shows "\<exists>w k q t. pipewrite_from a cs s = Inr (w, t) \<and> pipe_wrote a p cs s k q w t"
  using assms
proof (induction cs arbitrary: s)
  case Nil
  have "upd_pipe a (\<lambda>_. pipes s a) s = s" by (simp add: upd_pipe_def)
  then show ?case using Nil by (intro exI [of _ WDone] exI [of _ 0]) (simp add: pipe_wrote_def)
next
  case (Cons c cs)
  have same: "upd_pipe a (\<lambda>_. pipes s a) s = s" by (simp add: upd_pipe_def)
  show ?case
  proof (cases "pipe_full (pipes s a)")
    case True
    then have full: "nwrite (pipes s a) = nread (pipes s a) + 512" by (simp add: pipe_full_def)
    show ?thesis
    proof (cases "\<not> readopen (pipes s a) \<or> killed (prc p s)")
      case stop: True
      then have "pipewrite_from a (c # cs) s = Inr (WFail, s)"
        using full Cons.prems by (auto simp: myproc_def)
      then show ?thesis using Cons.prems True stop same
        by (intro exI [of _ WFail] exI [of _ 0] exI [of _ "pipes s a"] exI [of _ s]) (simp add: pipe_wrote_def)
    next
      case go: False
      define t where "t = asleep p (ChPipeW a) (wakeup (ChPipeR a) s)"
      have "pipewrite_from a (c # cs) s = Inr (WWait (c # cs), t)"
        using full go Cons.prems sleep_begin_asleep [of "wakeup (ChPipeR a) s" p "ChPipeW a"]
        by (simp add: myproc_def wakeup_def t_def)
      then show ?thesis using Cons.prems True go same t_def
        by (intro exI [of _ "WWait (c # cs)"] exI [of _ 0] exI [of _ "pipes s a"] exI [of _ t]) (simp add: pipe_wrote_def)
    qed
  next
    case False
    define u where "u = upd_pipe a (pipe_put c) s"
    have run: "pipewrite_from a (c # cs) s = pipewrite_from a cs u"
      using False by (simp add: pipe_full_def u_def)
    have c: "contents (pipe_put c (pipes s a)) = contents (pipes s a) @ [c]"
      using contents_put Cons.prems(1) False by simp
    moreover have "length (contents (pipes s a)) \<noteq> 512" using False pipe_full_iff by blast
    ultimately have len: "length (contents (pipes u a)) \<le> 512" using Cons.prems(1) by (simp add: u_def)
    have up: "upd_pipe a (\<lambda>_. q) u = upd_pipe a (\<lambda>_. q) s" for q by (simp add: u_def)
    obtain w k q t where IH: "pipewrite_from a cs u = Inr (w, t)" "pipe_wrote a p cs u k q w t"
      using Cons.IH [of u] len Cons.prems by (auto simp: u_def)
    then have "pipe_wrote a p (c # cs) s (Suc k) q w t"
      using c unfolding pipe_wrote_def up by (auto simp: u_def split: wprogress.splits)
    then show ?thesis using IH(1) run by auto
  qed
qed

lemma pipewrite_keeps_open:
  "readopen (foldl (\<lambda>q c. pipe_put c q) p cs) = readopen p"
  "writeopen (foldl (\<lambda>q c. pipe_put c q) p cs) = writeopen p"
  by (induction cs arbitrary: p) (auto simp: pipe_put_def)

text \<open>A reader takes a prefix of the contents, as long as possible.\<close>

lemma piperead_copy_spec:
  "\<exists>q. piperead_copy a n s = (take n (contents (pipes s a)), upd_pipe a (\<lambda>_. q) s) \<and>
    contents q = drop n (contents (pipes s a)) \<and> readopen q = readopen (pipes s a) \<and> writeopen q = writeopen (pipes s a)"
proof (induction n arbitrary: s)
  case 0
  have "upd_pipe a (\<lambda>_. pipes s a) s = s" by (simp add: upd_pipe_def)
  then show ?case by (intro exI [of _ "pipes s a"]) simp
next
  case (Suc n)
  show ?case
  proof (cases "nread (pipes s a) = nwrite (pipes s a)")
    case True
    then have "contents (pipes s a) = []" using pipe_empty_iff by blast
    moreover have "upd_pipe a (\<lambda>_. pipes s a) s = s" by (simp add: upd_pipe_def)
    ultimately show ?thesis using True by (intro exI [of _ "pipes s a"]) simp
  next
    case False
    define u where "u = upd_pipe a (\<lambda>p. p\<lparr>nread := nread p + 1\<rparr>) s"
    have c: "contents (pipes s a) = p_data (pipes s a) (unat (nread (pipes s a)) mod 512) # contents (pipes u a)"
      using contents_get [OF False] by (simp add: u_def)
    obtain q where "piperead_copy a n u = (take n (contents (pipes u a)), upd_pipe a (\<lambda>_. q) u)"
      "contents q = drop n (contents (pipes u a))" "readopen q = readopen (pipes u a)" "writeopen q = writeopen (pipes u a)"
      using Suc.IH [of u] by blast
    then show ?thesis using False c by (intro exI [of _ q]) (simp add: u_def)
  qed
qed

section \<open>Sleepers\<close>

definition sleeping :: "nat \<Rightarrow> chan \<Rightarrow> kernel \<Rightarrow> bool" where
  "sleeping i ch s \<longleftrightarrow> i < length (ptable s) \<and> p_state (prc i s) = SLEEPING \<and> p_chan (prc i s) = Some ch"

lemma sleeping_wakeup [simp]: "sleeping i ch (wakeup ch' s) \<longleftrightarrow> sleeping i ch s \<and> ch \<noteq> ch'"
  by (auto simp: sleeping_def wakeup_def prc_wakeup1 split: if_splits)

lemma sleeping_upd_pipe [simp]: "sleeping i ch (upd_pipe a f s) = sleeping i ch s"
  by (simp add: sleeping_def)

lemma sleeping_asleep: "p < length (ptable s) \<Longrightarrow>
    sleeping i ch (asleep p ch' s) \<longleftrightarrow> (if i = p then ch = ch' else sleeping i ch s)"
  by (auto simp: sleeping_def asleep_def)

lemma sleeping_sleep_end: "p < length (ptable s) \<Longrightarrow> sleeping i ch (sleep_end p s) \<longleftrightarrow> i \<noteq> p \<and> sleeping i ch s"
  by (auto simp: sleeping_def sleep_end_def)

lemma asleep_frame [simp]: "pipes (asleep p ch s) = pipes s" "curp (asleep p ch s) = curp s"
  "length (ptable (asleep p ch s)) = length (ptable s)"
  by (simp_all add: asleep_def)

lemma sleep_end_frame [simp]: "pipes (sleep_end p s) = pipes s" "curp (sleep_end p s) = curp s"
  "length (ptable (sleep_end p s)) = length (ptable s)"
  by (simp_all add: sleep_end_def)

lemma wakeup_pipes [simp]: "pipes (wakeup ch s) = pipes s" "curp (wakeup ch s) = curp s"
  "length (ptable (wakeup ch s)) = length (ptable s)"
  by (simp_all add: wakeup_def)

section \<open>Interleavings\<close>

text \<open>A run of the system, seen from one pipe: the kernel, the bytes put into the pipe and taken
  from it so far, what each sleeping writer still has to write, and whether a write has failed.\<close>

record pipe_sys =
  ks :: kernel
  sent :: "u8 list"
  recv :: "u8 list"
  left :: "nat \<Rightarrow> u8 list option"
  wfailed :: bool

text \<open>A process enters a routine, or goes on with it after it slept.\<close>

definition enters :: "nat \<Rightarrow> kernel \<Rightarrow> kernel \<Rightarrow> bool" where
  "enters p s s0 \<longleftrightarrow> curp s = Some p \<and> p < length (ptable s) \<and> (s0 = s \<or> s0 = sleep_end p s)"

inductive pipe_step :: "u32 \<Rightarrow> pipe_sys \<Rightarrow> pipe_sys \<Rightarrow> bool" for a where
  writing: "enters p (ks c) s0 \<Longrightarrow> left c p = None \<or> left c p = Some bs \<Longrightarrow>
    pipewrite_from a bs s0 = Inr (w, t) \<Longrightarrow>
    pipe_step a c (c\<lparr>ks := t, sent := sent c @ take (unat (nwrite (pipes t a) - nwrite (pipes s0 a))) bs,
      left := (left c)(p := (case w of WWait rest \<Rightarrow> Some rest | _ \<Rightarrow> None)),
      wfailed := wfailed c \<or> w = WFail\<rparr>)"
| reading: "enters p (ks c) s0 \<Longrightarrow> piperead a n s0 = Inr (Returned (r, bs), t) \<Longrightarrow>
    pipe_step a c (c\<lparr>ks := t, recv := recv c @ bs\<rparr>)"
| read_sleep: "enters p (ks c) s0 \<Longrightarrow> piperead a n s0 = Inr (Asleep, t) \<Longrightarrow> pipe_step a c (c\<lparr>ks := t\<rparr>)"
| close: "pipeclose E a wr (ks c) = Inr (u, t) \<Longrightarrow> readopen (pipes t a) \<or> writeopen (pipes t a) \<Longrightarrow>
    pipe_step a c (c\<lparr>ks := t\<rparr>)"
| rest: "pipes t a = pipes (ks c) a \<Longrightarrow>
    (\<And>i ch. ch = ChPipeW a \<or> ch = ChPipeR a \<Longrightarrow> sleeping i ch t \<Longrightarrow> sleeping i ch (ks c)) \<Longrightarrow>
    pipe_step a c (c\<lparr>ks := t\<rparr>)"

definition pipe_inv :: "u32 \<Rightarrow> pipe_sys \<Rightarrow> bool" where
  "pipe_inv a c \<longleftrightarrow>
    (let q = pipes (ks c) a in
     sent c = recv c @ contents q \<and> length (contents q) \<le> 512 \<and>
     (\<forall>i. sleeping i (ChPipeW a) (ks c) \<longrightarrow> pipe_full q \<and> readopen q) \<and>
     (\<not> wfailed c \<longrightarrow> (\<forall>i. sleeping i (ChPipeR a) (ks c) \<longrightarrow> contents q = [] \<and> writeopen q)))"

definition pipe_start :: "u32 \<Rightarrow> pipe_sys \<Rightarrow> bool" where
  "pipe_start a c \<longleftrightarrow> nread (pipes (ks c) a) = 0 \<and> nwrite (pipes (ks c) a) = 0 \<and> sent c = [] \<and> recv c = [] \<and>
     (\<forall>i. \<not> sleeping i (ChPipeW a) (ks c) \<and> \<not> sleeping i (ChPipeR a) (ks c))"

lemma pipe_start_inv: "pipe_start a c \<Longrightarrow> pipe_inv a c"
  using pipe_empty_iff [of "pipes (ks c) a"] by (simp add: pipe_start_def pipe_inv_def)

lemma nwrite_puts: "nwrite (foldl (\<lambda>q c. pipe_put c q) p cs) = nwrite p + word_of_nat (length cs)"
  by (induction cs arbitrary: p) (simp_all add: pipe_put_def)

lemma unat_puts: "k \<le> 512 \<Longrightarrow> unat (nwrite p + word_of_nat k - nwrite p) = k"
  by (simp add: unat_word_of_nat)

lemma enters_frame:
  assumes "enters p s s0"
  shows "pipes s0 = pipes s" "curp s0 = Some p" "p < length (ptable s0)"
    "sleeping i ch s0 \<Longrightarrow> sleeping i ch s"
  using assms by (auto simp: enters_def sleeping_sleep_end)

lemma pipe_inv_write:
  assumes "pipe_inv a c" and e: "enters p (ks c) s0" and run: "pipewrite_from a bs s0 = Inr (w, t)"
  shows "pipe_inv a (c\<lparr>ks := t, sent := sent c @ take (unat (nwrite (pipes t a) - nwrite (pipes s0 a))) bs,
      left := l, wfailed := wfailed c \<or> w = WFail\<rparr>)"
proof -
  note I = assms(1)[unfolded pipe_inv_def Let_def] and F = enters_frame [OF e]
  obtain k q where R: "pipe_wrote a p bs s0 k q w t"
    using pipewrite_from_spec [of s0 a p bs] I F run by auto
  note k = R[unfolded pipe_wrote_def, THEN conjunct1] R[unfolded pipe_wrote_def, THEN conjunct2, THEN conjunct1]
    R[unfolded pipe_wrote_def, THEN conjunct2, THEN conjunct2, THEN conjunct1]
    R[unfolded pipe_wrote_def, THEN conjunct2, THEN conjunct2, THEN conjunct2, THEN conjunct1]
  note W = R[unfolded pipe_wrote_def, THEN conjunct2, THEN conjunct2, THEN conjunct2, THEN conjunct2]
  have q: "pipes t a = q" using W by (auto split: wprogress.splits)
  have "k \<le> 512" using k by simp
  then have n: "unat (nwrite q - nwrite (pipes s0 a)) = k"
    using unat_puts [of k "pipes s0 a"] k(1,2) by (simp add: nwrite_puts)
  have o: "readopen q = readopen (pipes s0 a)" using k(2) by (simp add: pipewrite_keeps_open)
  have full: "pipe_full q" if "sleeping i (ChPipeW a) s0" for i
    using I F(1) F(4) [OF that] k(3,4) by (auto simp: pipe_full_iff)
  have "sleeping i (ChPipeW a) t \<Longrightarrow> pipe_full q \<and> readopen q" for i
    using W full I F(1) F(4) [of i "ChPipeW a"] F(3) o by (auto simp: sleeping_asleep split: wprogress.splits if_splits)
  moreover have "w \<noteq> WFail \<Longrightarrow> \<not> sleeping i (ChPipeR a) t" for i
    using W F(3) by (auto simp: sleeping_asleep split: wprogress.splits if_splits)
  ultimately show ?thesis using I F(1) k q n by (auto simp: pipe_inv_def Let_def)
qed

lemma piperead_cases:
  assumes "curp s = Some p" "p < length (ptable s)" "piperead a n s = Inr (r, t)"
  shows "(r = Returned (-1, []) \<and> t = s) \<or>
    (r = Asleep \<and> contents (pipes s a) = [] \<and> writeopen (pipes s a) \<and> t = asleep p (ChPipeR a) s) \<or>
    (\<exists>q. r = Returned (int (min n (length (contents (pipes s a)))), take n (contents (pipes s a))) \<and>
      contents q = drop n (contents (pipes s a)) \<and> readopen q = readopen (pipes s a) \<and>
      writeopen q = writeopen (pipes s a) \<and> t = wakeup (ChPipeW a) (upd_pipe a (\<lambda>_. q) s))"
proof (cases "nread (pipes s a) = nwrite (pipes s a) \<and> writeopen (pipes s a)")
  case True
  then show ?thesis
    using assms sleep_begin_asleep [OF assms(1,2), of "ChPipeR a"] pipe_empty_iff [of "pipes s a"]
    by (auto simp: piperead_def myproc_def split: if_splits)
next
  case False
  obtain q where "piperead_copy a n s = (take n (contents (pipes s a)), upd_pipe a (\<lambda>_. q) s)"
    "contents q = drop n (contents (pipes s a))" "readopen q = readopen (pipes s a)" "writeopen q = writeopen (pipes s a)"
    using piperead_copy_spec by blast
  then show ?thesis using False assms(3) by (auto simp: piperead_def min.commute)
qed

lemma pipe_inv_read:
  assumes "pipe_inv a c" "enters p (ks c) s0" "piperead a n s0 = Inr (r, t)"
  shows "pipe_inv a (c\<lparr>ks := t, recv := recv c @ (case r of Returned (_, bs) \<Rightarrow> bs | Asleep \<Rightarrow> [])\<rparr>)"
proof -
  note I = assms(1)[unfolded pipe_inv_def Let_def] and F = enters_frame [OF assms(2)]
  let ?q = "pipes (ks c) a"
  have R: "contents ?q = [] \<and> writeopen ?q" if "\<not> wfailed c" "sleeping i (ChPipeR a) s0" for i
    using I F(4) [OF that(2)] that(1) by blast
  have W: "pipe_full ?q \<and> readopen ?q" if "sleeping i (ChPipeW a) s0" for i
    using I F(4) [OF that] by blast
  from piperead_cases [OF F(2,3) assms(3)] show ?thesis
  proof (elim disjE exE conjE)
    assume "r = Returned (-1, [])" "t = s0"
    then show ?thesis using I F(1) R W by (auto simp: pipe_inv_def Let_def)
  next
    assume r: "r = Asleep" "contents (pipes s0 a) = []" "writeopen (pipes s0 a)" "t = asleep p (ChPipeR a) s0"
    have "sleeping i (ChPipeW a) t \<Longrightarrow> sleeping i (ChPipeW a) s0" for i
      using sleeping_asleep [OF F(3)] r(4) by (simp split: if_splits)
    then show ?thesis using I F(1) W r by (auto simp: pipe_inv_def Let_def)
  next
    fix q assume r: "r = Returned (int (min n (length (contents (pipes s0 a)))), take n (contents (pipes s0 a)))"
      "contents q = drop n (contents (pipes s0 a))" "writeopen q = writeopen (pipes s0 a)"
      "t = wakeup (ChPipeW a) (upd_pipe a (\<lambda>_. q) s0)"
    then show ?thesis using I F(1) R by (auto simp: pipe_inv_def Let_def)
  qed
qed

lemma pipe_inv_close:
  assumes "pipe_inv a c" "pipeclose E a wr (ks c) = Inr (u, t)" "readopen (pipes t a) \<or> writeopen (pipes t a)"
  shows "pipe_inv a (c\<lparr>ks := t\<rparr>)"
proof -
  define v where "v = (if wr then wakeup (ChPipeR a) (upd_pipe a (\<lambda>p. p\<lparr>writeopen := False\<rparr>) (ks c))
              else wakeup (ChPipeW a) (upd_pipe a (\<lambda>p. p\<lparr>readopen := False\<rparr>) (ks c)))"
  have run: "(if \<not> readopen (pipes v a) \<and> \<not> writeopen (pipes v a) then kfree E a v else Inr ((), v)) = Inr (u, t)"
    using assms(2) unfolding pipeclose_def v_def Let_def .
  have "t = v"
  proof (cases "\<not> readopen (pipes v a) \<and> \<not> writeopen (pipes v a)")
    case True
    then have "kfree E a v = Inr (u, t)" using run by simp
    from kernel_more(3) [OF kfree_more [OF this]] show ?thesis using True assms(3) by simp
  qed (use run in auto)
  then show ?thesis using assms(1)
    by (cases wr) (simp_all add: pipe_inv_def Let_def v_def pipe_full_def)
qed

lemma pipe_inv_step: "pipe_step a c d \<Longrightarrow> pipe_inv a c \<Longrightarrow> pipe_inv a d"
proof (induction rule: pipe_step.induct)
  case (writing p c s0 bs w t)
  then show ?case using pipe_inv_write by blast
next
  case (reading p c s0 n r bs t)
  then show ?case using pipe_inv_read [of a c p s0 n "Returned (r, bs)" t] by simp
next
  case (read_sleep p c s0 n t)
  then show ?case using pipe_inv_read [of a c p s0 n Asleep t] by (simp add: pipe_inv_def)
next
  case (close E wr c u t)
  then show ?case using pipe_inv_close by blast
next
  case (rest t c)
  then show ?case by (auto simp: pipe_inv_def Let_def)
qed

section \<open>Properties\<close>

text \<open>
  Property C7 (a pipe is a FIFO queue under every interleaving). In every state that writers, readers and closers
  of a pipe, interleaved in any order with the rest of the kernel, can reach from a new pipe:
  the bytes read so far followed by the contents of the buffer are exactly the bytes written, in
  order; there are at most 512 in the buffer, also when the 32-bit counters wrap around; a writer
  sleeps only while the buffer is full and the read end is open; and, unless a write has failed, a
  reader sleeps only while the buffer is empty and the write end is open.
\<close>

theorem pipe_fifo:
  assumes "pipe_start a c0" "(pipe_step a)\<^sup>*\<^sup>* c0 c"
  shows "sent c = recv c @ contents (pipes (ks c) a) \<and> length (contents (pipes (ks c) a)) \<le> 512 \<and>
    (\<forall>i. sleeping i (ChPipeW a) (ks c) \<longrightarrow> pipe_full (pipes (ks c) a) \<and> readopen (pipes (ks c) a)) \<and>
    (\<not> wfailed c \<longrightarrow> (\<forall>i. sleeping i (ChPipeR a) (ks c) \<longrightarrow>
       contents (pipes (ks c) a) = [] \<and> writeopen (pipes (ks c) a)))"
proof -
  have "pipe_inv a c" using assms(2)
    by (induction rule: rtranclp_induct) (use assms(1) pipe_start_inv pipe_inv_step in blast)+
  then show ?thesis by (simp add: pipe_inv_def Let_def)
qed

text \<open>
  Property C39 (a killed writer can leave a reader asleep). A writer that has been killed and finds the pipe full
  returns \<open>-1\<close> without a wakeup, although it has just filled the pipe: a reader that was waiting on the
  empty pipe stays asleep while 512 bytes are available to it.
\<close>

theorem pipe_lost_wakeup:
  assumes "curp s = Some p" "p < length (ptable s)" "killed (prc p s)"
    and "contents (pipes s a) = []" "512 < length bs" "sleeping q (ChPipeR a) s"
  shows "\<exists>t. pipewrite_from a bs s = Inr (WFail, t) \<and> sleeping q (ChPipeR a) t \<and> pipe_full (pipes t a) \<and>
    contents (pipes t a) = take 512 bs"
proof -
  obtain w k r t where k: "pipewrite_from a bs s = Inr (w, t)" and R: "pipe_wrote a p bs s k r w t"
    using pipewrite_from_spec [of s a p bs] assms(1,2,4) by auto
  have "w = WFail" using R assms(3-5) by (auto simp: pipe_wrote_def split: wprogress.splits)
  moreover have "k = 512" using R assms(4,5) \<open>w = WFail\<close> by (auto simp: pipe_wrote_def pipe_full_iff)
  ultimately show ?thesis using R k assms(4,6) by (auto simp: pipe_wrote_def)
qed

definition demo_pipe_kernel :: kernel where
  "demo_pipe_kernel = (upd_proc 0 (\<lambda>p. p\<lparr>killed := True\<rparr>)
     (asleep 1 (ChPipeR 0x8DFF2000) (upd_pipe 0x8DFF2000 (\<lambda>p. p\<lparr>readopen := True, writeopen := True\<rparr>) demo_kernel)))
     \<lparr>curp := Some 0\<rparr>"

theorem pipe_lost_wakeup_witness:
  "\<exists>t. pipewrite_from 0x8DFF2000 (replicate 600 65) demo_pipe_kernel = Inr (WFail, t) \<and> sleeping 1 (ChPipeR 0x8DFF2000) t \<and>
     contents (pipes t 0x8DFF2000) = replicate 512 65"
proof -
  have "contents (pipes demo_pipe_kernel 0x8DFF2000) = []"
    by (simp add: demo_pipe_kernel_def demo_kernel_def contents_def ring_list_def ring_len_def)
  moreover have "curp demo_pipe_kernel = Some 0" "0 < length (ptable demo_pipe_kernel)"
    "killed (prc 0 demo_pipe_kernel)" "sleeping 1 (ChPipeR 0x8DFF2000) demo_pipe_kernel"
    by (simp_all add: demo_pipe_kernel_def demo_kernel_def sleeping_def prc_def upd_proc_def asleep_def upd_pipe_def nth_list_update)
  ultimately show ?thesis
    using pipe_lost_wakeup [of demo_pipe_kernel 0 "0x8DFF2000" "replicate 600 65" 1] by auto
qed

text \<open>A run of three steps: two bytes are written, the reader takes one, then the pipe is idle.\<close>

definition demo_pipe_start :: pipe_sys where
  "demo_pipe_start = \<lparr>ks = (upd_pipe 0x8DFF2000 (\<lambda>p. p\<lparr>readopen := True, writeopen := True\<rparr>) demo_kernel)\<lparr>curp := Some 0\<rparr>,
     sent = [], recv = [], left = \<lambda>_. None, wfailed = False\<rparr>"

theorem pipe_fifo_witness:
  "\<exists>c :: pipe_sys. (pipe_step 0x8DFF2000)\<^sup>*\<^sup>* demo_pipe_start c \<and> sent c = [65, 66] \<and> recv c = [65] \<and> contents (pipes (ks c) 0x8DFF2000) = [66]"
proof -
  let ?a = "0x8DFF2000 :: u32" and ?s = "ks demo_pipe_start"
  define t where "t = wakeup (ChPipeR ?a) (upd_pipe ?a (\<lambda>p. pipe_put 66 (pipe_put 65 p)) ?s)"
  define u where "u = wakeup (ChPipeW ?a) (upd_pipe ?a (\<lambda>p. p\<lparr>nread := nread p + 1\<rparr>) t)"
  have p: "pipes ?s ?a = \<lparr>p_data = \<lambda>_. 0, nread = 0, nwrite = 0, readopen = True, writeopen = True\<rparr>"
    by (simp add: demo_pipe_start_def demo_kernel_def)
  have e: "enters 0 ?s ?s" by (simp add: enters_def demo_pipe_start_def demo_kernel_def)
  have w: "pipewrite_from ?a [65, 66] ?s = Inr (WDone, t)"
    by (simp add: p t_def pipe_put_def)
  have e2: "enters 0 t t" using e by (simp add: enters_def t_def)
  have r: "piperead ?a (Suc 0) t = Inr (Returned (1, [65]), u)"
    by (simp add: piperead_def p t_def u_def pipe_put_def)
  define c1 where "c1 = demo_pipe_start\<lparr>ks := t, sent := [65, 66], left := (\<lambda>_. None)(0 := None), wfailed := False\<rparr>"
  define c where "c = c1\<lparr>ks := u, recv := [65]\<rparr>"
  have n: "unat (nwrite (pipes t ?a) - nwrite (pipes ?s ?a)) = 2" by (simp add: t_def p pipe_put_def)
  have l: "left demo_pipe_start = (\<lambda>_. None)" "sent demo_pipe_start = []" "recv demo_pipe_start = []"
    "wfailed demo_pipe_start = False"
    by (simp_all add: demo_pipe_start_def)
  have "pipe_step ?a demo_pipe_start c1"
    using pipe_step.writing [where c = demo_pipe_start and a = ?a, OF e _ w] by (simp add: n l c1_def)
  moreover have "pipe_step ?a c1 c"
    using pipe_step.reading [of 0 c1 t ?a "Suc 0" 1 "[65]" u] r e2 by (simp add: c_def c1_def l)
  ultimately have "(pipe_step ?a)\<^sup>*\<^sup>* demo_pipe_start c" by (rule converse_rtranclp_into_rtranclp [OF _ r_into_rtranclp])
  moreover have "pipe_start ?a demo_pipe_start"
    by (auto simp: pipe_start_def demo_pipe_start_def demo_kernel_def sleeping_def prc_def upd_pipe_def demo_proc_def)
  moreover note pipe_fifo [of ?a demo_pipe_start c]
  ultimately have "(pipe_step ?a)\<^sup>*\<^sup>* demo_pipe_start c" "sent c = recv c @ contents (pipes (ks c) ?a)" by blast+
  then have "(pipe_step ?a)\<^sup>*\<^sup>* demo_pipe_start c \<and> sent c = [65, 66] \<and> recv c = [65] \<and> contents (pipes (ks c) ?a) = [66]" by (simp add: c_def c1_def)
  then show ?thesis by (rule exI)
qed

end
