(* ===== verification/Swapfile.thy ===== *)
theory Swapfile
  imports File
begin

text \<open>
  Creating and removing directory entries (\<open>create\<close>, \<open>isdirempty\<close> of \<open>sysfile.c\<close>) and the swap files of
  the paging code (the last part of \<open>fs.c\<close>). The path of a swap file is \<open>/.swap\<close> and the process
  number, built in a buffer of 14 bytes.
\<close>

section \<open>Directory entries\<close>

definition kcwd :: "kernel \<Rightarrow> nat option" where
  "kcwd s = (case curp s of None \<Rightarrow> None | Some p \<Rightarrow> cwd (prc p s))"

function isdirempty_from :: "conf \<Rightarrow> nat \<Rightarrow> u32 \<Rightarrow> kernel \<Rightarrow> bool kres" where
  "isdirempty_from C dp off s =
    (if off < i_size (ino dp s) then
       bindr (readi (conf_dev C) dp off 16 s) (\<lambda>((r, de), s).
       if r \<noteq> 16 then Inl (Panic ''isdirempty: readi'')
       else if de_inum de \<noteq> 0 then Inr (False, s)
       else if off + 16 < off then Inl Diverge
       else isdirempty_from C dp (off + 16) s)
     else Inr (True, s))"
  by pat_completeness auto
termination
  by (relation "measure (\<lambda>(C, dp, off, s). 4294967296 - unat off)") (simp_all add: off_measure)

declare isdirempty_from.simps [simp del]

definition isdirempty :: "conf \<Rightarrow> nat \<Rightarrow> kernel \<Rightarrow> bool kres" where
  "isdirempty C dp s = isdirempty_from C dp 32 s"

definition upd_ino :: "nat \<Rightarrow> (inode \<Rightarrow> inode) \<Rightarrow> kernel \<Rightarrow> kernel" where
  "upd_ino ip f s = set_ino ip (f (ino ip s)) s"

definition dots :: "u8 list \<Rightarrow> bool" where
  "dots name \<longleftrightarrow> namecmp name [46] = 0 \<or> namecmp name [46, 46] = 0"

text \<open>Taking a name out of the directory \<open>dp\<close>, which is locked; the common part of \<open>sys_unlink\<close> and
  \<open>removeSwapFile\<close>, with its exit \<open>bad\<close>.\<close>

definition unlink_bad :: "nat \<Rightarrow> kernel \<Rightarrow> int kres" where
  "unlink_bad dp s =
     bindr (iunlockput dp s) (\<lambda>(_, s).
     bindr (end_op s) (\<lambda>(_, s). Inr (-1, s)))"

definition unlink_name :: "conf \<Rightarrow> nat \<Rightarrow> u8 list \<Rightarrow> kernel \<Rightarrow> int kres" where
  "unlink_name C dp name s =
    (if dots name then unlink_bad dp s
     else
       bindr (dirlookup (conf_dev C) dp name s) (\<lambda>(found, s).
       case found of
         None \<Rightarrow> unlink_bad dp s
       | Some (ip, off) \<Rightarrow>
           bindr (ilock (Some ip) s) (\<lambda>(_, s).
           if sint (i_nlink (ino ip s)) < 1 then Inl (Panic ''unlink: nlink < 1'')
           else
             bindr (if i_type (ino ip s) = T_DIR then isdirempty C ip s else Inr (True, s)) (\<lambda>(empty, s).
             if \<not> empty then bindr (iunlockput ip s) (\<lambda>(_, s). unlink_bad dp s)
             else
               bindr (writei (conf_dev C) dp (replicate 16 0) off s) (\<lambda>(r, s).
               if r \<noteq> 16 then Inl (Panic ''unlink: writei'')
               else
                 bindr (if i_type (ino ip s) = T_DIR
                        then iupdate dp (upd_ino dp (\<lambda>i. i\<lparr>i_nlink := i_nlink i - 1\<rparr>) s)
                        else Inr ((), s)) (\<lambda>(_, s).
                 bindr (iunlockput dp s) (\<lambda>(_, s).
                 bindr (iupdate ip (upd_ino ip (\<lambda>i. i\<lparr>i_nlink := i_nlink i - 1\<rparr>) s)) (\<lambda>(_, s).
                 bindr (iunlockput ip s) (\<lambda>(_, s).
                 bindr (end_op s) (\<lambda>(_, s). Inr (0, s)))))))))))"

definition create :: "conf \<Rightarrow> u8 list \<Rightarrow> u16 \<Rightarrow> u16 \<Rightarrow> u16 \<Rightarrow> kernel \<Rightarrow> nat option kres" where
  "create C path typ major minor s =
     bindr (nameiparent (conf_dev C) (kcwd s) path s) (\<lambda>((dp, name), s).
     case dp of
       None \<Rightarrow> Inr (None, s)
     | Some dp \<Rightarrow>
         bindr (ilock (Some dp) s) (\<lambda>(_, s).
         bindr (dirlookup (conf_dev C) dp name s) (\<lambda>(found, s).
         case found of
           Some (ip, _) \<Rightarrow>
             bindr (iunlockput dp s) (\<lambda>(_, s).
             bindr (ilock (Some ip) s) (\<lambda>(_, s).
             if typ = T_FILE \<and> i_type (ino ip s) = T_FILE then Inr (Some ip, s)
             else bindr (iunlockput ip s) (\<lambda>(_, s). Inr (None, s))))
         | None \<Rightarrow>
             bindr (ialloc (i_dev (ino dp s)) typ s) (\<lambda>(ip, s).
             bindr (ilock (Some ip) s) (\<lambda>(_, s).
             bindr (iupdate ip (upd_ino ip (\<lambda>i. i\<lparr>i_major := major, i_minor := minor, i_nlink := 1\<rparr>) s)) (\<lambda>(_, s).
             bindr (if typ = T_DIR then
                      bindr (iupdate dp (upd_ino dp (\<lambda>i. i\<lparr>i_nlink := i_nlink i + 1\<rparr>) s)) (\<lambda>(_, s).
                      bindr (dirlink (conf_dev C) ip [46] (i_num (ino ip s)) s) (\<lambda>(r, s).
                      if r < 0 then Inl (Panic ''create dots'')
                      else
                        bindr (dirlink (conf_dev C) ip [46, 46] (i_num (ino dp s)) s) (\<lambda>(r, s).
                        if r < 0 then Inl (Panic ''create dots'') else Inr ((), s))))
                    else Inr ((), s)) (\<lambda>(_, s).
             bindr (dirlink (conf_dev C) dp name (i_num (ino ip s)) s) (\<lambda>(r, s).
             if r < 0 then Inl (Panic ''create: dirlink'')
             else bindr (iunlockput dp s) (\<lambda>(_, s). Inr (Some ip, s))))))))))"

section \<open>Swap files\<close>

definition swap_path :: "int \<Rightarrow> u8 list res" where
  "swap_path n =
     bindr (itoa n) (\<lambda>d.
     if 6 + length d + 1 > 14 then Inl OutOfBounds else Inr ([47, 46, 115, 119, 97, 112] @ d))"

definition removeSwapFile :: "conf \<Rightarrow> nat \<Rightarrow> kernel \<Rightarrow> int kres" where
  "removeSwapFile C p s =
     bindr (swap_path (pid (prc p s))) (\<lambda>path.
     case swapFile (prc p s) of
       None \<Rightarrow> Inr (-1, s)
     | Some f \<Rightarrow>
         bindr (fileclose C f s) (\<lambda>(_, s).
         bindr (begin_op s) (\<lambda>(_, s).
         bindr (nameiparent (conf_dev C) (kcwd s) path s) (\<lambda>((dp, name), s).
         case dp of
           None \<Rightarrow> bindr (end_op s) (\<lambda>(_, s). Inr (-1, s))
         | Some dp \<Rightarrow> bindr (ilock (Some dp) s) (\<lambda>(_, s). unlink_name C dp name s)))))"

definition createSwapFile :: "conf \<Rightarrow> nat \<Rightarrow> kernel \<Rightarrow> int kres" where
  "createSwapFile C p s =
     bindr (swap_path (pid (prc p s))) (\<lambda>path.
     bindr (begin_op s) (\<lambda>(_, s).
     bindr (create C path T_FILE 0 0 s) (\<lambda>(ip, s).
     bindr (iunlock ip s) (\<lambda>(_, s).
     let (f, s) = filealloc s;
         s = upd_proc p (\<lambda>q. q\<lparr>swapFile := f\<rparr>) s
     in case f of
          None \<Rightarrow> Inl (Panic ''no slot for files on /store'')
        | Some f \<Rightarrow>
            bindr (end_op (upd_file f (\<lambda>x. x\<lparr>f_ip := ip, f_type := FD_INODE, f_off := 0,
                f_readable := True, f_writable := True\<rparr>) s)) (\<lambda>(_, s). Inr (0, s))))))"

definition writeToSwapFile :: "conf \<Rightarrow> nat \<Rightarrow> u8 list \<Rightarrow> u32 \<Rightarrow> kernel \<Rightarrow> int kres" where
  "writeToSwapFile C p buffer placeOnFile s =
    (case swapFile (prc p s) of
       None \<Rightarrow> Inl NullDeref
     | Some f \<Rightarrow> filewrite C f buffer (upd_file f (\<lambda>x. x\<lparr>f_off := placeOnFile\<rparr>) s))"

definition readFromSwapFile :: "conf \<Rightarrow> nat \<Rightarrow> u32 \<Rightarrow> nat \<Rightarrow> kernel \<Rightarrow> (int \<times> u8 list) kres" where
  "readFromSwapFile C p placeOnFile n s =
    (case swapFile (prc p s) of
       None \<Rightarrow> Inl NullDeref
     | Some f \<Rightarrow> fileread C f n (upd_file f (\<lambda>x. x\<lparr>f_off := placeOnFile\<rparr>) s))"

end
