(* ===== verification/Swap.thy ===== *)
theory Swap
  imports Swapfile Policy
begin

text \<open>
  Moving pages between memory and the swap file (\<open>moveToDisk\<close>, \<open>movePageToFile\<close>, \<open>getPageFromFile\<close>,
  \<open>deletePage\<close>, \<open>swapPages\<close> of \<open>vm.c\<close>). The kernel reads a page to be written out at its virtual
  address, that is through the page table in \<open>cr3\<close>.
\<close>

unbundle bit_operations_syntax

section \<open>Virtual memory\<close>

text \<open>A byte at a virtual address, through the current page table.\<close>

definition vpresent :: "u32 \<Rightarrow> kernel \<Rightarrow> bool" where
  "vpresent va s \<longleftrightarrow> pte_of (P2V (cr3 s)) va s AND PTE_P \<noteq> 0"

definition vbyte :: "u32 \<Rightarrow> kernel \<Rightarrow> u8" where
  "vbyte va s = get_byte (pmem s (PTE_ADDR (pte_of (P2V (cr3 s)) va s))) (unat va mod 4096)"

definition vread :: "u32 \<Rightarrow> nat \<Rightarrow> kernel \<Rightarrow> u8 list res" where
  "vread va n s =
    (case filter (\<lambda>i. \<not> vpresent (va + word_of_nat i) s) [0..<n] of
       [] \<Rightarrow> Inr (map (\<lambda>i. vbyte (va + word_of_nat i) s) [0..<n])
     | i # _ \<Rightarrow> Inl (PageFault (va + word_of_nat i)))"

section \<open>Operations\<close>

definition upd_page :: "nat \<Rightarrow> nat \<Rightarrow> (page_meta_data \<Rightarrow> page_meta_data) \<Rightarrow> kernel \<Rightarrow> kernel" where
  "upd_page p i f s = upd_proc p (upd_link i (\<lambda>l. l\<lparr>pl_page := f (pl_page l)\<rparr>)) s"

definition movePageToFile :: "conf \<Rightarrow> nat \<Rightarrow> nat \<Rightarrow> kernel \<Rightarrow> int kres" where
  "movePageToFile C p i s =
     bindr (cur_pgdir s) (\<lambda>d.
     bindr (walkpgdir d (vaddr p i s) False s) (\<lambda>(pte, s).
     case pte of
       None \<Rightarrow> Inl (Panic ''movePageToFile: page doesn't exist'')
     | Some pte \<Rightarrow>
         if load pte s AND PTE_P = 0 then Inl (Panic ''movePageToFile: page isn't present(2)'')
         else case nextAvOffset (prc p s) of
           None \<Rightarrow> Inl (Panic ''movePageToFile: swapFile is full!'')
         | Some off \<Rightarrow>
             bindr (vread (vaddr p i s) 4096 s) (\<lambda>bs.
             bindr (writeToSwapFile C p bs (PGSIZE * word_of_nat off) s) (\<lambda>(r, s).
             if r = -1 then Inr (-1, s)
             else
               let s = upd_page p i (\<lambda>g. g\<lparr>offset_in_file := PGSIZE * word_of_nat off\<rparr>) s;
                   s = upd_proc p (\<lambda>q. q\<lparr>available_Offsets := (available_Offsets q)[off := True]\<rparr>) s;
                   s = upd_page p i (\<lambda>g. g\<lparr>pstate := IN_DISK\<rparr>) s;
                   s = upd_proc p (\<lambda>q. q\<lparr>num_pages_disk := num_pages_disk q + 1\<rparr>) s
               in Inr (0, s)))))"

definition moveToDisk :: "conf \<Rightarrow> nat option \<Rightarrow> kernel \<Rightarrow> int kres" where
  "moveToDisk C toSwap s =
     bindr (cur_pgdir s) (\<lambda>d.
     case toSwap of
       None \<Rightarrow> Inl NullDeref
     | Some i \<Rightarrow>
         bindr (myproc s) (\<lambda>p.
         bindr (walkpgdir d (vaddr p i s) False s) (\<lambda>(pte, s).
         bindr (movePageToFile C p i s) (\<lambda>(r, s).
         if r = -1 then Inr (-1, s)
         else
           let s = upd_proc p (\<lambda>q. q\<lparr>num_of_page_outs := num_of_page_outs q + 1\<rparr>) s;
               s = upd_proc p (removePageFromList i) s
           in bindr (setFlagsOnSwap d (vaddr p i s) False s) (\<lambda>(_, s).
              case pte of
                None \<Rightarrow> Inl NullDeref
              | Some pte \<Rightarrow>
                  bindr (kfree (conf_end C) (P2V (PTE_ADDR (load pte s))) s) (\<lambda>(_, s).
                  let s = lcr3 (V2P d) s
                  in Inr (0, upd_proc p (\<lambda>q. q\<lparr>num_pages_ram := num_pages_ram q - 1\<rparr>) s)))))))"

text \<open>The test \<open>offset_in_file < 0\<close> at the beginning is on an unsigned field and never true.\<close>

definition getPageFromFile :: "conf \<Rightarrow> nat \<Rightarrow> nat \<Rightarrow> kernel \<Rightarrow> int kres" where
  "getPageFromFile C p i s =
     bindr (cur_pgdir s) (\<lambda>d.
     bindr (kalloc s) (\<lambda>(addr, s).
     if addr = 0 then Inl (Panic ''getPageFromFile: kalloc out of memory'')
     else
       bindr (mappages d (vaddr p i s) PGSIZE (V2P addr) (PTE_W OR PTE_U) s) (\<lambda>(_, s).
       bindr (readFromSwapFile C p (offset_in_file (pl_page (lnk p i s))) 4096 s) (\<lambda>((r, bs), s).
       let s = s\<lparr>pmem := (pmem s)(V2P addr := put_bytes 0 bs (pmem s (V2P addr)))\<rparr>
       in if r = -1 then Inr (-1, s)
          else
            bindr (setFlagsOnSwap d (vaddr p i s) True s) (\<lambda>(_, s).
            let slot = unat (offset_in_file (pl_page (lnk p i s)) div PGSIZE)
            in if slot \<ge> 17 then Inl OutOfBounds
               else
                 let s = upd_proc p (\<lambda>q. q\<lparr>available_Offsets := (available_Offsets q)[slot := False],
                           num_pages_ram := num_pages_ram q + 1, num_pages_disk := num_pages_disk q - 1\<rparr>) s;
                     s = upd_page p i (\<lambda>g. g\<lparr>offset_in_file := -1, pstate := IN_MEMORY\<rparr>) s
                 in bindr (addPageToList i (prc p s)) (\<lambda>q. Inr (0, upd_proc p (\<lambda>_. q) s)))))))"

definition deletePage :: "conf \<Rightarrow> nat \<Rightarrow> nat \<Rightarrow> kernel \<Rightarrow> unit kres" where
  "deletePage C p i s =
    (let s = (if num_pages_ram (prc p s) > 0
              then upd_proc p (\<lambda>q. q\<lparr>num_pages_ram := num_pages_ram q - 1\<rparr>) s else s);
         s = upd_page p i (\<lambda>g. g\<lparr>page_id := 0xFFFFFFFF, pstate := NOT_USED, offset_in_file := -1\<rparr>) s
     in if num_pages_disk (prc p s) > 0 then
          case find_state IN_DISK (prc p s) of
            None \<Rightarrow> Inr ((), s)
          | Some j \<Rightarrow> bindr (getPageFromFile C p j s) (\<lambda>(_, s). Inr ((), s))
        else Inr ((), s))"

definition swapPages :: "conf \<Rightarrow> u32 \<Rightarrow> kernel \<Rightarrow> int kres" where
  "swapPages C addr s =
     bindr (choosePageToSwap C s) (\<lambda>(outp, s).
     bindr (myproc s) (\<lambda>p.
     case find_page addr (prc p s) of
       None \<Rightarrow> Inr (-1, s)
     | Some inp \<Rightarrow>
         bindr (case outp of
                  None \<Rightarrow> Inr ((), s)
                | Some _ \<Rightarrow> bindr (moveToDisk C outp s) (\<lambda>(_, s). Inr ((), s))) (\<lambda>(_, s).
         bindr (getPageFromFile C p inp s) (\<lambda>(_, s). Inr (0, s)))))"

end
