(* ===== verification/Uvm.thy ===== *)
theory Uvm
  imports Swap
begin

text \<open>
  User address spaces (\<open>vm.c\<close>): building the kernel part of a page table, growing and shrinking user
  memory with the paging bookkeeping, freeing an address space, and the copy-on-write copy that
  \<open>fork\<close> uses. Loops over addresses that would go round the address space end in \<open>Diverge\<close>.
\<close>

unbundle bit_operations_syntax

section \<open>Shrinking\<close>

text \<open>\<open>pageFound\<close> of \<open>deallocuvm\<close> is not initialised and never reset; \<open>seen\<close> says that it has been set. When a
  page is not in the table, the first use of the flag is undefined, and a later one goes on with
  the link behind the end of the array.\<close>

definition page_entry :: "u32 \<Rightarrow> proc \<Rightarrow> bool \<Rightarrow> nat res" where
  "page_entry a q seen =
    (case find_page a q of
       Some i \<Rightarrow> Inr i
     | None \<Rightarrow> if seen then Inl OutOfBounds else Inl Undefined)"

definition dealloc_present :: "conf \<Rightarrow> u32 \<Rightarrow> u32 \<Rightarrow> bool \<Rightarrow> pte_ptr \<Rightarrow> kernel \<Rightarrow> bool kres" where
  "dealloc_present C d a seen pte s =
    (let pa = PTE_ADDR (load pte s) in
     if pa = 0 then Inl (Panic ''kfree (deallocuvm)'')
     else
       bindr (kfree (conf_end C) (P2V pa) s) (\<lambda>(_, s).
       let s = store pte 0 s
       in if SELECTION C = NONE then Inr (seen, s)
          else
            bindr (myproc s) (\<lambda>p.
            if pgdir (prc p s) \<noteq> d then Inr (seen, s)
            else
              bindr (page_entry a (prc p s) seen) (\<lambda>i.
              bindr (deletePage C p i s) (\<lambda>(_, s). Inr (True, s))))))"

definition dealloc_swapped :: "conf \<Rightarrow> u32 \<Rightarrow> u32 \<Rightarrow> bool \<Rightarrow> pte_ptr \<Rightarrow> kernel \<Rightarrow> bool kres" where
  "dealloc_swapped C d a seen pte s =
    (if SELECTION C = NONE \<or> load pte s AND PTE_PG = 0 then Inr (seen, s)
     else
       bindr (myproc s) (\<lambda>p.
       if pgdir (prc p s) \<noteq> d then Inr (seen, s)
       else
         bindr (page_entry (PTE_ADDR a) (prc p s) seen) (\<lambda>i.
         let slot = unat (offset_in_file (pl_page (lnk p i s)) div PGSIZE)
         in if slot \<ge> 17 then Inl OutOfBounds
            else
              let s = upd_proc p (\<lambda>q. q\<lparr>num_pages_disk := num_pages_disk q - 1,
                        available_Offsets := (available_Offsets q)[slot := False]\<rparr>) s;
                  s = upd_page p i (\<lambda>g. g\<lparr>page_id := 0xFFFFFFFF, offset_in_file := -1, pstate := NOT_USED\<rparr>) s
              in Inr (True, store pte 0 s))))"

definition next_table :: "u32 \<Rightarrow> u32" where
  "next_table a = PGADDR (word_of_nat (PDX a) + 1) 0 0 - PGSIZE"

function deallocuvm_from :: "conf \<Rightarrow> u32 \<Rightarrow> u32 \<Rightarrow> u32 \<Rightarrow> bool \<Rightarrow> kernel \<Rightarrow> unit kres" where
  "deallocuvm_from C d a oldsz seen s =
    (if a < oldsz then
       bindr (walkpgdir d a False s) (\<lambda>(pte, s).
       bindr (case pte of
                None \<Rightarrow> Inr ((next_table a, seen), s)
              | Some pte \<Rightarrow>
                  bindr (if load pte s AND PTE_P \<noteq> 0 then dealloc_present C d a seen pte s
                         else dealloc_swapped C d a seen pte s) (\<lambda>(seen, s). Inr ((a, seen), s))) (\<lambda>((a', seen), s).
       if a' + PGSIZE \<le> a then Inl Diverge else deallocuvm_from C d (a' + PGSIZE) oldsz seen s))
     else Inr ((), s))"
  by pat_completeness auto
termination
  by (relation "measure (\<lambda>(C, d, a, oldsz, seen, s). unat oldsz - unat a)")
    (auto simp: word_less_nat_alt word_le_nat_alt)

declare deallocuvm_from.simps [simp del]

definition deallocuvm :: "conf \<Rightarrow> u32 \<Rightarrow> u32 \<Rightarrow> u32 \<Rightarrow> kernel \<Rightarrow> u32 kres" where
  "deallocuvm C d oldsz newsz s =
    (if newsz \<ge> oldsz then Inr (oldsz, s)
     else bindr (deallocuvm_from C d (PGROUNDUP newsz) oldsz False s) (\<lambda>(_, s). Inr (newsz, s)))"

fun freevm_tables :: "u32 \<Rightarrow> u32 \<Rightarrow> nat list \<Rightarrow> kernel \<Rightarrow> unit kres" where
  "freevm_tables E d [] s = Inr ((), s)"
| "freevm_tables E d (i # is) s =
    (if pmem s (V2P d) i AND PTE_P \<noteq> 0
     then bindr (kfree E (P2V (PTE_ADDR (pmem s (V2P d) i))) s) (\<lambda>(_, s). freevm_tables E d is s)
     else freevm_tables E d is s)"

definition freevm :: "conf \<Rightarrow> u32 \<Rightarrow> kernel \<Rightarrow> unit kres" where
  "freevm C d s =
    (if d = 0 then Inl (Panic ''freevm: no pgdir'')
     else
       bindr (deallocuvm C d KERNBASE 0 (s\<lparr>global_pgdir_flag := True, global_pgdir := d\<rparr>)) (\<lambda>(_, s).
       bindr (freevm_tables (conf_end C) d [0..<NPDENTRIES] s) (\<lambda>(_, s).
       kfree (conf_end C) d (s\<lparr>global_pgdir := 0, global_pgdir_flag := False\<rparr>))))"

section \<open>The kernel part\<close>

definition kmap :: "conf \<Rightarrow> (u32 \<times> u32 \<times> u32 \<times> u32) list" where
  "kmap C =
    [(KERNBASE, 0, EXTMEM, PTE_W),
     (KERNLINK, V2P KERNLINK, V2P (conf_data C), 0),
     (conf_data C, V2P (conf_data C), PHYSTOP, PTE_W),
     (DEVSPACE, DEVSPACE, 0, PTE_W)]"

fun setupkvm_map :: "conf \<Rightarrow> u32 \<Rightarrow> (u32 \<times> u32 \<times> u32 \<times> u32) list \<Rightarrow> kernel \<Rightarrow> u32 kres" where
  "setupkvm_map C d [] s = Inr (d, s)"
| "setupkvm_map C d ((virt, phys_start, phys_end, perm) # kms) s =
     bindr (mappages d virt (phys_end - phys_start) phys_start perm s) (\<lambda>(r, s).
     if r < 0 then bindr (freevm C d s) (\<lambda>(_, s). Inr (0, s))
     else setupkvm_map C d kms s)"

definition setupkvm :: "conf \<Rightarrow> kernel \<Rightarrow> u32 kres" where
  "setupkvm C s =
     bindr (kalloc s) (\<lambda>(d, s).
     if d = 0 then Inr (0, s)
     else if P2V PHYSTOP > DEVSPACE then Inl (Panic ''PHYSTOP too high'')
     else setupkvm_map C d (kmap C) (s\<lparr>pmem := (pmem s)(V2P d := fill_page 0)\<rparr>))"

definition kvmalloc :: "conf \<Rightarrow> kernel \<Rightarrow> unit kres" where
  "kvmalloc C s = bindr (setupkvm C s) (\<lambda>(d, s). Inr ((), switchkvm (s\<lparr>kpgdir := d\<rparr>)))"

section \<open>Loading and growing\<close>

definition inituvm :: "u32 \<Rightarrow> u8 list \<Rightarrow> kernel \<Rightarrow> unit kres" where
  "inituvm d init s =
    (if length init \<ge> 4096 then Inl (Panic ''inituvm: more than a page'')
     else
       bindr (kalloc s) (\<lambda>(mem, s).
       if mem = 0 then Inl NullDeref
       else
         bindr (mappages d 0 PGSIZE (V2P mem) (PTE_W OR PTE_U) (s\<lparr>pmem := (pmem s)(V2P mem := fill_page 0)\<rparr>)) (\<lambda>(_, s).
         Inr ((), s\<lparr>pmem := (pmem s)(V2P mem := put_bytes 0 init (pmem s (V2P mem)))\<rparr>))))"

function loaduvm_from :: "conf \<Rightarrow> u32 \<Rightarrow> u32 \<Rightarrow> nat \<Rightarrow> u32 \<Rightarrow> u32 \<Rightarrow> u32 \<Rightarrow> kernel \<Rightarrow> int kres" where
  "loaduvm_from C d addr ip offset n i s =
    (if i < n then
       bindr (walkpgdir d (addr + i) False s) (\<lambda>(pte, s).
       case pte of
         None \<Rightarrow> Inl (Panic ''loaduvm: address should exist'')
       | Some pte \<Rightarrow>
           let pa = PTE_ADDR (load pte s);
               m = (if n - i < PGSIZE then n - i else PGSIZE)
           in bindr (readi (conf_dev C) ip (offset + i) m s) (\<lambda>((r, bs), s).
              let s = s\<lparr>pmem := (pmem s)(pa := put_bytes 0 bs (pmem s pa))\<rparr>
              in if word_of_int r \<noteq> m then Inr (-1, s)
                 else if i + PGSIZE \<le> i then Inl Diverge
                 else loaduvm_from C d addr ip offset n (i + PGSIZE) s))
     else Inr (0, s))"
  by pat_completeness auto
termination
  by (relation "measure (\<lambda>(C, d, addr, ip, offset, n, i, s). unat n - unat i)")
    (auto simp: word_less_nat_alt word_le_nat_alt)

declare loaduvm_from.simps [simp del]

definition loaduvm :: "conf \<Rightarrow> u32 \<Rightarrow> u32 \<Rightarrow> nat \<Rightarrow> u32 \<Rightarrow> u32 \<Rightarrow> kernel \<Rightarrow> int kres" where
  "loaduvm C d addr ip offset n s =
    (if addr mod PGSIZE \<noteq> 0 then Inl (Panic ''loaduvm: addr must be page aligned'')
     else loaduvm_from C d addr ip offset n 0 s)"

text \<open>Making room in memory before a page is added. The result says whether \<open>allocuvm\<close> goes on.\<close>

definition make_room :: "conf \<Rightarrow> kernel \<Rightarrow> bool kres" where
  "make_room C s =
    (if SELECTION C = NONE then Inr (True, s)
     else
       bindr (myproc s) (\<lambda>p.
       if pid (prc p s) > 2 \<and> num_pages_ram (prc p s) = MAX_PSYC_PAGES then
         if num_pages_disk (prc p s) + MAX_PSYC_PAGES = 32 then Inr (False, s)
         else
           bindr (if swapFile (prc p s) = None then bindr (createSwapFile C p s) (\<lambda>(_, s). Inr ((), s))
                  else Inr ((), s)) (\<lambda>(_, s).
           bindr (choosePageToSwap C s) (\<lambda>(victim, s).
           bindr (moveToDisk C victim s) (\<lambda>(r, s).
           Inr (r \<noteq> -1, s))))
       else Inr (True, s)))"

definition note_page :: "conf \<Rightarrow> u32 \<Rightarrow> kernel \<Rightarrow> unit kres" where
  "note_page C a s =
    (if SELECTION C = NONE then Inr ((), s)
     else
       bindr (myproc s) (\<lambda>p.
       if pid (prc p s) > 2
       then bindr (addPageToRam (SELECTION C) a (prc p s)) (\<lambda>q. Inr ((), upd_proc p (\<lambda>_. q) s))
       else Inr ((), s)))"

function allocuvm_from :: "conf \<Rightarrow> u32 \<Rightarrow> u32 \<Rightarrow> u32 \<Rightarrow> u32 \<Rightarrow> kernel \<Rightarrow> u32 kres" where
  "allocuvm_from C d a oldsz newsz s =
    (if a < newsz then
       bindr (make_room C s) (\<lambda>(ok, s).
       if \<not> ok then Inr (0, s)
       else
         bindr (kalloc s) (\<lambda>(mem, s).
         if mem = 0 then bindr (deallocuvm C d newsz oldsz s) (\<lambda>(_, s). Inr (0, s))
         else
           bindr (mappages d a PGSIZE (V2P mem) (PTE_W OR PTE_U) (s\<lparr>pmem := (pmem s)(V2P mem := fill_page 0)\<rparr>)) (\<lambda>(r, s).
           if r < 0 then
             bindr (deallocuvm C d newsz oldsz s) (\<lambda>(_, s).
             bindr (kfree (conf_end C) mem s) (\<lambda>(_, s). Inr (0, s)))
           else
             bindr (note_page C a s) (\<lambda>(_, s).
             if a + PGSIZE \<le> a then Inl Diverge else allocuvm_from C d (a + PGSIZE) oldsz newsz s))))
     else Inr (newsz, s))"
  by pat_completeness auto
termination
  by (relation "measure (\<lambda>(C, d, a, oldsz, newsz, s). unat newsz - unat a)")
    (auto simp: word_less_nat_alt word_le_nat_alt)

declare allocuvm_from.simps [simp del]

definition allocuvm :: "conf \<Rightarrow> u32 \<Rightarrow> u32 \<Rightarrow> u32 \<Rightarrow> kernel \<Rightarrow> u32 kres" where
  "allocuvm C d oldsz newsz s =
    (if newsz \<ge> KERNBASE then Inr (0, s)
     else if newsz < oldsz then Inr (oldsz, s)
     else allocuvm_from C d (PGROUNDUP oldsz) oldsz newsz s)"

section \<open>Copying\<close>

text \<open>Giving up a half-built copy.\<close>

definition copy_bad :: "conf \<Rightarrow> u32 \<Rightarrow> kernel \<Rightarrow> u32 kres" where
  "copy_bad C d s = bindr (freevm C d s) (\<lambda>(_, s). Inr (0, s))"

text \<open>A page that is in the swap file: the child gets its flags. A missing page table is made; when
  there is no memory for one the null pointer is used.\<close>

definition copy_swapped :: "u32 \<Rightarrow> u32 \<Rightarrow> u32 \<Rightarrow> kernel \<Rightarrow> unit kres" where
  "copy_swapped d i v s =
     bindr (walkpgdir d i True s) (\<lambda>(pte2, s).
     case pte2 of None \<Rightarrow> Inl NullDeref | Some pte2 \<Rightarrow> Inr ((), store pte2 (v AND 0xfff) s))"

definition cow_flags :: "u32 \<Rightarrow> u32" where
  "cow_flags v = (if v AND PTE_W \<noteq> 0 then (v AND NOT PTE_W) OR PTE_COW else v)"

function copyuvm_from :: "conf \<Rightarrow> u32 \<Rightarrow> u32 \<Rightarrow> u32 \<Rightarrow> u32 \<Rightarrow> kernel \<Rightarrow> u32 kres" where
  "copyuvm_from C d0 d n i s =
    (if i < n then
       bindr (walkpgdir d0 i False s) (\<lambda>(pte, s).
       case pte of
         None \<Rightarrow> Inl (Panic ''copyuvm: pte should exist'')
       | Some pte \<Rightarrow>
           if load pte s AND PTE_P = 0 \<and> load pte s AND PTE_PG = 0
           then Inl (Panic ''copyuvm COW: page not present in RAM or swap file'')
           else
             bindr (if load pte s AND PTE_P \<noteq> 0 then
                      let pa = PTE_ADDR (load pte s);
                          s = store pte (cow_flags (load pte s)) s
                      in bindr (mappages d i PGSIZE pa (PTE_FLAGS (load pte s)) s) (\<lambda>(r, s).
                         if r < 0 then Inr (False, s)
                         else bindr (incrementRef (conf_end C) (P2V pa) s) (\<lambda>(_, s). Inr (True, s)))
                    else bindr (copy_swapped d i (load pte s) s) (\<lambda>(_, s). Inr (True, s))) (\<lambda>(ok, s).
             if \<not> ok then copy_bad C d s
             else if i + PGSIZE \<le> i then Inl Diverge
             else copyuvm_from C d0 d n (i + PGSIZE) s))
     else Inr (d, lcr3 (V2P d0) s))"
  by pat_completeness auto
termination
  by (relation "measure (\<lambda>(C, d0, d, n, i, s). unat n - unat i)") (auto simp: word_less_nat_alt word_le_nat_alt)

declare copyuvm_from.simps [simp del]

definition copyuvm :: "conf \<Rightarrow> u32 \<Rightarrow> u32 \<Rightarrow> kernel \<Rightarrow> u32 kres" where
  "copyuvm C d0 n s =
     bindr (setupkvm C s) (\<lambda>(d, s). if d = 0 then Inr (0, s) else copyuvm_from C d0 d n 0 s)"

function copyuvm_no_COW_from :: "conf \<Rightarrow> u32 \<Rightarrow> u32 \<Rightarrow> u32 \<Rightarrow> u32 \<Rightarrow> kernel \<Rightarrow> u32 kres" where
  "copyuvm_no_COW_from C d0 d n i s =
    (if i < n then
       bindr (walkpgdir d0 i False s) (\<lambda>(pte, s).
       case pte of
         None \<Rightarrow> Inl (Panic ''copyuvm: pte should exist'')
       | Some pte \<Rightarrow>
           if load pte s AND PTE_P = 0 \<and> load pte s AND PTE_PG = 0
           then Inl (Panic ''copyuvm: page not present in RAM or swap file'')
           else
             bindr (if load pte s AND PTE_P \<noteq> 0 then
                      let pa = PTE_ADDR (load pte s);
                          flags = PTE_FLAGS (load pte s)
                      in bindr (kalloc s) (\<lambda>(mem, s).
                         if mem = 0 then Inr (False, s)
                         else
                           bindr (mappages d i PGSIZE (V2P mem) flags (s\<lparr>pmem := (pmem s)(V2P mem := pmem s pa)\<rparr>)) (\<lambda>(r, s).
                           if r < 0 then bindr (kfree (conf_end C) mem s) (\<lambda>(_, s). Inr (False, s))
                           else Inr (True, s)))
                    else bindr (copy_swapped d i (load pte s) s) (\<lambda>(_, s). Inr (True, s))) (\<lambda>(ok, s).
             if \<not> ok then copy_bad C d s
             else if i + PGSIZE \<le> i then Inl Diverge
             else copyuvm_no_COW_from C d0 d n (i + PGSIZE) s))
     else Inr (d, s))"
  by pat_completeness auto
termination
  by (relation "measure (\<lambda>(C, d0, d, n, i, s). unat n - unat i)") (auto simp: word_less_nat_alt word_le_nat_alt)

declare copyuvm_no_COW_from.simps [simp del]

definition copyuvm_no_COW :: "conf \<Rightarrow> u32 \<Rightarrow> u32 \<Rightarrow> kernel \<Rightarrow> u32 kres" where
  "copyuvm_no_COW C d0 n s =
     bindr (setupkvm C s) (\<lambda>(d, s). if d = 0 then Inr (0, s) else copyuvm_no_COW_from C d0 d n 0 s)"

end
