(* ===== verification/Pgfault.thy ===== *)
theory Pgfault
  imports Uvm
begin

text \<open>
  The page-fault branch of \<open>trap\<close> (\<open>trap.c\<close>) and the accesses of the kernel to user memory, which can
  take such a fault. \<open>pgfault\<close> says whether the fault has been handled; otherwise \<open>trap\<close> goes on at its
  label \<open>pg_fault\<close>, where a fault taken in the kernel panics.

  A faulting instruction is tried again after the handler. One handled fault makes the page
  accessible, or it never will be: three tries are followed, then the access counts as \<open>Diverge\<close>.
\<close>

unbundle bit_operations_syntax

section \<open>The handler\<close>

text \<open>A write to a page that is present: it is shared, or read-only.\<close>

definition cow_fault :: "conf \<Rightarrow> nat \<Rightarrow> u32 \<Rightarrow> pte_ptr \<Rightarrow> kernel \<Rightarrow> bool kres" where
  "cow_fault C p va pte s =
    (let pa = PTE_ADDR (load pte s) in
     bindr (getRef (P2V pa) s) (\<lambda>(ref, s).
     if ref = 1 then
       if load pte s AND PTE_COW \<noteq> 0 then
         let s = store pte (load pte s AND NOT PTE_COW) s;
             s = store pte (load pte s OR PTE_W) s
         in Inr (True, s)
       else Inr (True, s)
     else if ref > 1 then
       bindr (kalloc s) (\<lambda>(mem, s).
       bindr (acquire_kmem s) (\<lambda>(_, s).
       let flags = PTE_FLAGS (load pte s);
           flags = (if flags AND PTE_COW \<noteq> 0 then (flags AND NOT PTE_COW) OR PTE_W else flags)
       in bindr (if mem = 0 then Inr ((), upd_proc p (\<lambda>q. q\<lparr>killed := True\<rparr>) s)
                 else
                   bindr (vread (PGROUNDDOWN va) 4096 s) (\<lambda>bs.
                   let s = s\<lparr>pmem := (pmem s)(V2P mem := put_bytes 0 bs (pmem s (V2P mem)))\<rparr>;
                       s = store pte (V2P mem OR flags) s
                   in Inr ((), lcr3 (V2P (pgdir (prc p s))) s))) (\<lambda>(_, s).
          bindr (release_kmem s) (\<lambda>(_, s).
          bindr (decrementRef (conf_end C) (P2V pa) s) (\<lambda>(_, s). Inr (True, s))))))
     else Inr (False, s)))"

definition pgfault :: "conf \<Rightarrow> u32 \<Rightarrow> kernel \<Rightarrow> bool kres" where
  "pgfault C va s =
     bindr (myproc s) (\<lambda>p.
     let s = upd_proc p (\<lambda>q. q\<lparr>num_of_page_faults := num_of_page_faults q + 1\<rparr>) s
     in bindr (walkpgdir (pgdir (prc p s)) va False s) (\<lambda>(pte, s).
        case pte of
          None \<Rightarrow> Inl NullDeref
        | Some pte \<Rightarrow>
            if load pte s AND PTE_P = 0 \<and> (SELECTION C = NONE \<or> pid (prc p s) \<le> 2) then Inr (False, s)
            else
              bindr (if pid (prc p s) > 2 then update_meta_data C s else Inr ((), s)) (\<lambda>(_, s).
              if load pte s AND PTE_P \<noteq> 0 then cow_fault C p va pte s
              else if load pte s AND PTE_PG = 0 then Inr (False, s)
              else bindr (swapPages C (PGROUNDDOWN va) s) (\<lambda>(r, s). Inr (r \<noteq> -1, s)))))"

section \<open>Access to user memory\<close>

definition vaccess :: "bool \<Rightarrow> u32 \<Rightarrow> kernel \<Rightarrow> bool" where
  "vaccess wr va s \<longleftrightarrow> vpresent va s \<and> (wr \<longrightarrow> pte_of (P2V (cr3 s)) va s AND PTE_W \<noteq> 0)"

fun touch :: "nat \<Rightarrow> conf \<Rightarrow> bool \<Rightarrow> u32 \<Rightarrow> kernel \<Rightarrow> unit kres" where
  "touch 0 C wr va s = Inl Diverge"
| "touch (Suc k) C wr va s =
    (if vaccess wr va s then Inr ((), s)
     else bindr (pgfault C va s) (\<lambda>(ok, s). if ok then touch k C wr va s else Inl (Panic ''trap'')))"

fun user_get :: "conf \<Rightarrow> u32 \<Rightarrow> nat \<Rightarrow> kernel \<Rightarrow> u8 list kres" where
  "user_get C va 0 s = Inr ([], s)"
| "user_get C va (Suc n) s =
     bindr (touch 3 C False va s) (\<lambda>(_, s).
     let b = vbyte va s
     in bindr (user_get C (va + 1) n s) (\<lambda>(bs, s). Inr (b # bs, s)))"

definition vstore :: "u32 \<Rightarrow> u8 \<Rightarrow> kernel \<Rightarrow> kernel" where
  "vstore va b s =
    (let pa = PTE_ADDR (pte_of (P2V (cr3 s)) va s)
     in s\<lparr>pmem := (pmem s)(pa := put_byte (unat va mod 4096) b (pmem s pa))\<rparr>)"

fun user_put :: "conf \<Rightarrow> u32 \<Rightarrow> u8 list \<Rightarrow> kernel \<Rightarrow> unit kres" where
  "user_put C va [] s = Inr ((), s)"
| "user_put C va (b # bs) s =
     bindr (touch 3 C True va s) (\<lambda>(_, s). user_put C (va + 1) bs (vstore va b s))"

definition word_bytes :: "u32 \<Rightarrow> u8 list" where
  "word_bytes w = get_at 0 4 (wr32 0 w (\<lambda>_. 0))"

definition bytes_word :: "u8 list \<Rightarrow> u32" where
  "bytes_word bs = rd32 (cstr bs) 0"

end
