(* ===== verification/Proc.thy ===== *)
theory Proc
  imports Pgfault
begin

text \<open>
  The life of a process (\<open>proc.c\<close>): \<open>allocproc\<close>, \<open>userinit\<close>, \<open>growproc\<close>, \<open>fork\<close> with the copy of the paging
  data \<open>deepCopyProc\<close>, \<open>exit\<close>, \<open>wait\<close> and \<open>forkret\<close>. A process is an index into \<open>ptable\<close>. \<open>exit\<close> does not return:
  its result is the state in which it enters the scheduler; \<open>wait\<close> may go to sleep. Console output is
  not represented.
\<close>

unbundle bit_operations_syntax

section \<open>Creation\<close>

definition name_of :: "bytes \<Rightarrow> u8 list" where
  "name_of b = takeWhile (\<lambda>c. c \<noteq> 0) (map b [0..<16])"

definition set_name :: "u8 list \<Rightarrow> proc \<Rightarrow> proc" where
  "set_name t q = q\<lparr>p_name := name_of (safestrcpy (cstr t) 16 (cstr (p_name q)))\<rparr>"

text \<open>The new stack holds the trap frame, the return address \<open>trapret\<close> below it and the context.\<close>

definition allocproc :: "conf \<Rightarrow> kernel \<Rightarrow> nat option kres" where
  "allocproc C s =
    (case find_from (\<lambda>p. p_state p = UNUSED) (ptable s) 0 of
       None \<Rightarrow> Inr (None, s)
     | Some p \<Rightarrow>
         let s = upd_proc p (\<lambda>q. q\<lparr>p_state := EMBRYO, pid := nextpid s\<rparr>) s;
             s = s\<lparr>nextpid := nextpid s + 1\<rparr>
         in bindr (kalloc s) (\<lambda>(k, s).
            let s = upd_proc p (\<lambda>q. q\<lparr>kstack := k\<rparr>) s in
            if k = 0 then Inr (None, upd_proc p (\<lambda>q. q\<lparr>p_state := UNUSED\<rparr>) s)
            else
              let s = store (V2P k, 1004) (conf_trapret C) s;
                  s = upd_proc p (\<lambda>q. q\<lparr>p_context := \<lparr>c_edi = 0, c_esi = 0, c_ebx = 0, c_ebp = 0,
                        c_eip = conf_forkret C\<rparr>\<rparr>) s;
                  s = (if SELECTION C \<noteq> NONE \<and> pid (prc p s) > 2
                       then upd_proc p (init_meta_data (SELECTION C)) s else s)
              in Inr (Some p, s)))"

definition user_tf :: trapframe where
  "user_tf = \<lparr>tf_edi = 0, tf_esi = 0, tf_ebp = 0, tf_ebx = 0, tf_edx = 0, tf_ecx = 0, tf_eax = 0, tf_gs = 0, tf_fs = 0,
     tf_es = word_of_nat (8 * SEG_UDATA) OR 3, tf_ds = word_of_nat (8 * SEG_UDATA) OR 3, trapno = 0, tf_err = 0,
     tf_eip = 0, tf_cs = word_of_nat (8 * SEG_UCODE) OR 3, tf_eflags = 0x200, tf_esp = PGSIZE,
     tf_ss = word_of_nat (8 * SEG_UDATA) OR 3\<rparr>"

text \<open>\<open>initcode\<close> is the binary of \<open>initcode.S\<close> that is linked into the kernel.\<close>

definition userinit :: "conf \<Rightarrow> u8 list \<Rightarrow> kernel \<Rightarrow> unit kres" where
  "userinit C initcode s =
     bindr (allocproc C s) (\<lambda>(p, s).
     let s = s\<lparr>initproc := p\<rparr> in
     bindr (setupkvm C s) (\<lambda>(d, s).
     case p of
       None \<Rightarrow> Inl NullDeref
     | Some p \<Rightarrow>
         let s = upd_proc p (\<lambda>q. q\<lparr>pgdir := d\<rparr>) s in
         if d = 0 then Inl (Panic ''userinit: out of memory?'')
         else
           bindr (inituvm d initcode s) (\<lambda>(_, s).
           let s = upd_proc p (\<lambda>q. set_name (map (word_of_nat \<circ> of_char) ''initcode'') (q\<lparr>sz := PGSIZE, p_tf := user_tf\<rparr>)) s
           in bindr (namei (conf_dev C) (kcwd s) [47] s) (\<lambda>(ip, s).
              Inr ((), upd_proc p (\<lambda>q. q\<lparr>cwd := ip, p_state := RUNNABLE\<rparr>) s)))))"

definition growproc :: "conf \<Rightarrow> int \<Rightarrow> kernel \<Rightarrow> int kres" where
  "growproc C n s =
     bindr (myproc s) (\<lambda>p.
     let q = prc p s; z = sz q in
     bindr (if n > 0 then bindr (allocuvm C (pgdir q) z (z + word_of_int n) s) (\<lambda>(z, s). Inr ((z \<noteq> 0, z), s))
            else if n < 0 then bindr (deallocuvm C (pgdir q) z (z + word_of_int n) s) (\<lambda>(z, s). Inr ((z \<noteq> 0, z), s))
            else Inr ((True, z), s)) (\<lambda>((ok, z), s).
     if \<not> ok then Inr (-1, s)
     else
       bindr (switchuvm C (Some p) (upd_proc p (\<lambda>q. q\<lparr>sz := z\<rparr>) s)) (\<lambda>(_, s). Inr (0, s))))"

section \<open>Fork\<close>

text \<open>The loop that copies the swap file. The length of a file is at most 71680 bytes, so the read
  fails at the latest in the nineteenth turn.\<close>

fun copy_swapfile :: "nat \<Rightarrow> conf \<Rightarrow> nat \<Rightarrow> nat \<Rightarrow> u32 \<Rightarrow> kernel \<Rightarrow> unit kres" where
  "copy_swapfile 0 C father child off s = Inl Diverge"
| "copy_swapfile (Suc k) C father child off s =
     bindr (readFromSwapFile C father off 4096 s) (\<lambda>((r, bs), s).
     if r = -1 then Inr ((), s)
     else
       bindr (writeToSwapFile C child (bs @ replicate (4096 - length bs) 0) off s) (\<lambda>(_, s).
       copy_swapfile k C father child (off + PGSIZE) s))"

text \<open>The links are rebuilt from the \<open>index\<close> fields of the neighbours in the father's list.\<close>

definition relink :: "proc \<Rightarrow> nat option \<Rightarrow> nat option \<Rightarrow> nat option res" where
  "relink father nb old =
    (case nb of
       None \<Rightarrow> Inr old
     | Some j \<Rightarrow>
         let k = unat (pindex (pl_page (link j father)))
         in if k < MAX_TOTAL_PAGES then Inr (Some k) else Inl OutOfBounds)"

fun copy_links :: "proc \<Rightarrow> nat list \<Rightarrow> proc \<Rightarrow> proc res" where
  "copy_links father [] child = Inr child"
| "copy_links father (i # is) child =
     bindr (relink father (pl_prev (link i father)) (pl_prev (link i child))) (\<lambda>pr.
     bindr (relink father (pl_next (link i father)) (pl_next (link i child))) (\<lambda>nx.
     copy_links father is
       (upd_link i (\<lambda>l. l\<lparr>pl_page := pl_page (link i father), pl_prev := pr, pl_next := nx\<rparr>) child)))"

definition deepCopyProc :: "conf \<Rightarrow> nat \<Rightarrow> nat \<Rightarrow> kernel \<Rightarrow> unit kres" where
  "deepCopyProc C father child s =
     bindr (if swapFile (prc father s) \<noteq> None then
              bindr (if swapFile (prc child s) = None then bindr (createSwapFile C child s) (\<lambda>(_, s). Inr ((), s))
                     else Inr ((), s)) (\<lambda>(_, s).
              bindr (copy_swapfile 20 C father child 0 s) (\<lambda>(_, s).
              Inr ((), upd_proc child (\<lambda>q. q\<lparr>available_Offsets := available_Offsets (prc father s)\<rparr>) s)))
            else Inr ((), s)) (\<lambda>(_, s).
     bindr (copy_links (prc father s) [0..<MAX_TOTAL_PAGES] (prc child s)) (\<lambda>q.
     bindr (relink (prc father s) (page_list_head_ram (prc father s)) (page_list_head_ram q)) (\<lambda>h.
     let f = prc father s
     in Inr ((), upd_proc child (\<lambda>_. q\<lparr>page_list_head_ram := h, num_pages_disk := num_pages_disk f,
          num_pages_ram := num_pages_ram f\<rparr>) s))))"

fun dup_files :: "nat \<Rightarrow> nat \<Rightarrow> nat list \<Rightarrow> kernel \<Rightarrow> unit kres" where
  "dup_files p np [] s = Inr ((), s)"
| "dup_files p np (i # is) s =
    (case ofile (prc p s) ! i of
       None \<Rightarrow> dup_files p np is s
     | Some f \<Rightarrow>
         bindr (filedup f s) (\<lambda>(f, s).
         dup_files p np is (upd_proc np (\<lambda>q. q\<lparr>ofile := (ofile q)[i := Some f]\<rparr>) s)))"

definition fork :: "conf \<Rightarrow> kernel \<Rightarrow> int kres" where
  "fork C s =
     bindr (myproc s) (\<lambda>p.
     bindr (allocproc C s) (\<lambda>(np, s).
     case np of
       None \<Rightarrow> Inr (-1, s)
     | Some np \<Rightarrow>
         bindr (copyuvm C (pgdir (prc p s)) (sz (prc p s)) s) (\<lambda>(d, s).
         let s = upd_proc np (\<lambda>q. q\<lparr>pgdir := d\<rparr>) s in
         if d = 0 then
           bindr (kfree (conf_end C) (kstack (prc np s)) s) (\<lambda>(_, s).
           Inr (-1, upd_proc np (\<lambda>q. q\<lparr>kstack := 0, p_state := UNUSED\<rparr>) s))
         else
           let s = upd_proc np (\<lambda>q. q\<lparr>sz := sz (prc p s), parent := Some p, p_tf := p_tf (prc p s)\<rparr>) s
           in bindr (if SELECTION C \<noteq> NONE \<and> pid (prc p s) > 2 then deepCopyProc C p np s else Inr ((), s)) (\<lambda>(_, s).
              let s = upd_proc np (\<lambda>q. q\<lparr>num_of_page_faults := 0, num_of_page_outs := 0, p_tf := (p_tf q)\<lparr>tf_eax := 0\<rparr>\<rparr>) s
              in bindr (dup_files p np [0..<NOFILE] s) (\<lambda>(_, s).
                 bindr (the_ip (cwd (prc p s))) (\<lambda>ip.
                 let (ip, s) = idup ip s;
                     s = upd_proc np (\<lambda>q. set_name (p_name (prc p s)) (q\<lparr>cwd := Some ip\<rparr>)) s;
                     n = pid (prc np s)
                 in Inr (n, upd_proc np (\<lambda>q. q\<lparr>p_state := RUNNABLE\<rparr>) s)))))))"

section \<open>Exit and wait\<close>

fun close_files :: "conf \<Rightarrow> nat \<Rightarrow> nat list \<Rightarrow> kernel \<Rightarrow> unit kres" where
  "close_files C p [] s = Inr ((), s)"
| "close_files C p (fd # fds) s =
    (case ofile (prc p s) ! fd of
       None \<Rightarrow> close_files C p fds s
     | Some f \<Rightarrow>
         bindr (fileclose C f s) (\<lambda>(_, s).
         close_files C p fds (upd_proc p (\<lambda>q. q\<lparr>ofile := (ofile q)[fd := None]\<rparr>) s)))"

definition proc_chan :: "nat option \<Rightarrow> chan option" where
  "proc_chan p = (case p of None \<Rightarrow> None | Some p \<Rightarrow> Some (ChProc p))"

fun reparent :: "nat \<Rightarrow> nat list \<Rightarrow> kernel \<Rightarrow> kernel" where
  "reparent p [] s = s"
| "reparent p (i # is) s =
    (if parent (prc i s) = Some p then
       let s = upd_proc i (\<lambda>q. q\<lparr>parent := initproc s\<rparr>) s
       in reparent p is (if p_state (prc i s) = ZOMBIE then wakeup1 (proc_chan (initproc s)) s else s)
     else reparent p is s)"

definition exit :: "conf \<Rightarrow> kernel \<Rightarrow> unit kres" where
  "exit C s =
     bindr (myproc s) (\<lambda>p.
     if Some p = initproc s then Inl (Panic ''init exiting'')
     else
       bindr (close_files C p [0..<NOFILE] s) (\<lambda>(_, s).
       bindr (begin_op s) (\<lambda>(_, s).
       bindr (the_ip (cwd (prc p s))) (\<lambda>ip.
       bindr (iput ip s) (\<lambda>(_, s).
       bindr (end_op s) (\<lambda>(_, s).
       let s = upd_proc p (\<lambda>q. q\<lparr>cwd := None\<rparr>) s in
       bindr (if swapFile (prc p s) \<noteq> None \<and> SELECTION C \<noteq> NONE then
                bindr (removeSwapFile C p s) (\<lambda>(_, s).
                Inr ((), upd_proc p (\<lambda>q. q\<lparr>swapFile := None\<rparr>) s))
              else Inr ((), s)) (\<lambda>(_, s).
       let s = wakeup1 (proc_chan (parent (prc p s))) s;
           s = reparent p [0..<NPROC] s;
           s = upd_proc p (\<lambda>q. q\<lparr>p_state := ZOMBIE\<rparr>) s
       in sched p s)))))))"

text \<open>The scan of \<open>wait\<close>: whether there are children, and the first one that has exited.\<close>

fun wait_scan :: "nat \<Rightarrow> nat list \<Rightarrow> bool \<Rightarrow> kernel \<Rightarrow> bool \<times> nat option" where
  "wait_scan p [] kids s = (kids, None)"
| "wait_scan p (i # is) kids s =
    (if parent (prc i s) \<noteq> Some p then wait_scan p is kids s
     else if p_state (prc i s) = ZOMBIE then (True, Some i)
     else wait_scan p is True s)"

definition wait :: "conf \<Rightarrow> kernel \<Rightarrow> int call kres" where
  "wait C s =
     bindr (myproc s) (\<lambda>p.
     case wait_scan p [0..<NPROC] False s of
       (_, Some i) \<Rightarrow>
         let n = pid (prc i s) in
         bindr (kfree (conf_end C) (kstack (prc i s)) s) (\<lambda>(_, s).
         bindr (freevm C (pgdir (prc i s)) (upd_proc i (\<lambda>q. q\<lparr>kstack := 0\<rparr>) s)) (\<lambda>(_, s).
         Inr (Returned n, upd_proc i (\<lambda>q. q\<lparr>pid := 0, parent := None, p_name := [], killed := False, p_state := UNUSED\<rparr>) s)))
     | (kids, None) \<Rightarrow>
         if \<not> kids \<or> killed (prc p s) then Inr (Returned (-1), s)
         else bindr (sleep_begin (ChProc p) s) (\<lambda>(_, s). Inr (Asleep, s)))"

text \<open>The first process to be run initialises the file system and the log; at the level of logical
  blocks, recovery only sets the size of the log and empties its header.\<close>

definition mount_log :: "u32 \<Rightarrow> kernel \<Rightarrow> kernel" where
  "mount_log dev s = s\<lparr>log_size := sint (nlog (readsb dev s)), lh_block := []\<rparr>"

definition forkret :: "bool \<Rightarrow> kernel \<Rightarrow> bool \<times> kernel" where
  "forkret first s = (False, if first then mount_log ROOTDEV (iinit ROOTDEV s) else s)"

end
