(* ===== verification/Exec.thy ===== *)
theory Exec
  imports Proc
begin

text \<open>
  Replacing the image of a process, \<open>exec.c\<close>. The argument strings are given as byte lists. The steps
  of the routine are separate definitions; a step that jumps to the label \<open>bad\<close> returns \<open>None\<close> with the
  state there.

  \<open>backup_array\<close> is a local array that is filled only after the page directory has been set up, and
  whose pointers are set only where the process has one: its entries are \<open>option\<close> values here, and
  reading one that was never written is \<open>Undefined\<close>.
\<close>

unbundle bit_operations_syntax

section \<open>Executable files\<close>

record elfhdr =
  e_magic :: u32
  e_entry :: u32
  e_phoff :: u32
  e_phnum :: u16

record proghdr =
  ph_type :: u32
  ph_off :: u32
  ph_vaddr :: u32
  ph_filesz :: u32
  ph_memsz :: u32

abbreviation (input) ELF_MAGIC :: u32 where "ELF_MAGIC \<equiv> 0x464C457F"
abbreviation (input) ELF_PROG_LOAD :: u32 where "ELF_PROG_LOAD \<equiv> 1"
abbreviation (input) MAXARG :: nat where "MAXARG \<equiv> 32"

definition rd_elfhdr :: "u8 list \<Rightarrow> elfhdr" where
  "rd_elfhdr bs = \<lparr>e_magic = rd32 (cstr bs) 0, e_entry = rd32 (cstr bs) 24, e_phoff = rd32 (cstr bs) 28,
     e_phnum = rd16 (cstr bs) 44\<rparr>"

definition rd_proghdr :: "u8 list \<Rightarrow> proghdr" where
  "rd_proghdr bs = \<lparr>ph_type = rd32 (cstr bs) 0, ph_off = rd32 (cstr bs) 4, ph_vaddr = rd32 (cstr bs) 8,
     ph_filesz = rd32 (cstr bs) 16, ph_memsz = rd32 (cstr bs) 20\<rparr>"

section \<open>The paging data of the old image\<close>

type_synonym saved_link = "page_meta_data \<times> nat option \<times> nat option"   \<comment> \<open>\<open>None\<close>: not written\<close>

definition save_links :: "proc \<Rightarrow> saved_link list" where
  "save_links q = map (\<lambda>l. (pl_page l, pl_prev l, pl_next l)) (pages_meta_data q)"

definition restore_link :: "saved_link \<Rightarrow> page_link \<Rightarrow> page_link res" where
  "restore_link b l =
    (case b of (g, pr, nx) \<Rightarrow>
       if pr = None \<or> nx = None then Inl Undefined
       else Inr (l\<lparr>pl_page := g, pl_prev := pr, pl_next := nx\<rparr>))"

fun restore_links :: "saved_link list \<Rightarrow> page_link list \<Rightarrow> page_link list res" where
  "restore_links (b # bs) (l # ls) = bindr (restore_link b l) (\<lambda>l. bindr (restore_links bs ls) (\<lambda>ls. Inr (l # ls)))"
| "restore_links bs ls = Inr ls"

section \<open>Loading\<close>

text \<open>The loop over the program headers; \<open>k\<close> of them are left.\<close>

fun load_segments :: "nat \<Rightarrow> conf \<Rightarrow> u32 \<Rightarrow> nat \<Rightarrow> u32 \<Rightarrow> u32 \<Rightarrow> kernel \<Rightarrow> u32 option kres" where
  "load_segments 0 C d ip off z s = Inr (Some z, s)"
| "load_segments (Suc k) C d ip off z s =
     bindr (readi (conf_dev C) ip off 32 s) (\<lambda>((r, bs), s).
     if r \<noteq> 32 then Inr (None, s)
     else
       let ph = rd_proghdr bs in
       if ph_type ph \<noteq> ELF_PROG_LOAD then load_segments k C d ip (off + 32) z s
       else if ph_memsz ph < ph_filesz ph then Inr (None, s)
       else if ph_vaddr ph + ph_memsz ph < ph_vaddr ph then Inr (None, s)
       else
         bindr (allocuvm C d z (ph_vaddr ph + ph_memsz ph) s) (\<lambda>(z, s).
         if z = 0 then Inr (None, s)
         else if ph_vaddr ph mod PGSIZE \<noteq> 0 then Inr (None, s)
         else
           bindr (loaduvm C d (ph_vaddr ph) ip (ph_off ph) (ph_filesz ph) s) (\<lambda>(r, s).
           if r < 0 then Inr (None, s) else load_segments k C d ip (off + 32) z s)))"

text \<open>Pushing the argument strings; the addresses are collected for \<open>ustack\<close>.\<close>

fun push_args :: "u32 \<Rightarrow> u8 list list \<Rightarrow> nat \<Rightarrow> u32 \<Rightarrow> u32 list \<Rightarrow> kernel \<Rightarrow> (u32 \<times> u32 list) option kres" where
  "push_args d [] argc sp ptrs s = Inr (Some (sp, ptrs), s)"
| "push_args d (a # as) argc sp ptrs s =
    (if argc \<ge> MAXARG then Inr (None, s)
     else
       let sp = (sp - (word_of_nat (length a) + 1)) AND NOT 3
       in bindr (copyout d sp (a @ [0]) s) (\<lambda>(r, s).
          if r < 0 then Inr (None, s) else push_args d as (Suc argc) sp (ptrs @ [sp]) s))"

definition ustack :: "u32 list \<Rightarrow> u32 \<Rightarrow> u32 list" where
  "ustack ptrs sp = [0xffffffff, word_of_nat (length ptrs), sp - word_of_nat (4 * (length ptrs + 1))] @ ptrs @ [0]"

text \<open>The part of a path behind its last slash.\<close>

definition last_name :: "u8 list \<Rightarrow> u8 list" where
  "last_name path = rev (takeWhile (\<lambda>c. c \<noteq> slash) (rev path))"

section \<open>The routine\<close>

text \<open>The exit \<open>bad\<close>. \<open>d\<close> is the new page directory or 0, \<open>ip\<close> the locked inode if it has not been released.\<close>

definition exec_bad :: "conf \<Rightarrow> nat \<Rightarrow> u32 \<Rightarrow> nat option \<Rightarrow> saved_link list option \<Rightarrow> nat option \<Rightarrow> u32 \<Rightarrow> u32 \<Rightarrow>
    kernel \<Rightarrow> int kres" where
  "exec_bad C p d ip backup head nram ndisk s =
     bindr (if d \<noteq> 0 then freevm C d s else Inr ((), s)) (\<lambda>(_, s).
     bindr (case ip of
              None \<Rightarrow> Inr ((), s)
            | Some ip \<Rightarrow> bindr (iunlockput ip s) (\<lambda>(_, s). end_op s)) (\<lambda>(_, s).
     if SELECTION C = NONE then Inr (-1, s)
     else
       let s = upd_proc p (\<lambda>q. q\<lparr>num_pages_ram := nram, num_pages_disk := ndisk, page_list_head_ram := head\<rparr>) s
       in case backup of
            None \<Rightarrow> Inl Undefined
          | Some bs \<Rightarrow>
              bindr (restore_links bs (pages_meta_data (prc p s))) (\<lambda>ls.
              Inr (-1, upd_proc p (\<lambda>q. q\<lparr>pages_meta_data := ls\<rparr>) s))))"

text \<open>Replacing the old image once the new one is complete.\<close>

definition exec_commit :: "conf \<Rightarrow> nat \<Rightarrow> u8 list \<Rightarrow> u32 \<Rightarrow> u32 \<Rightarrow> u32 \<Rightarrow> u32 \<Rightarrow> kernel \<Rightarrow> int kres" where
  "exec_commit C p path d z entry sp s =
    (let old = pgdir (prc p s);
         s = upd_proc p (\<lambda>q. (set_name (last_name path) q)\<lparr>pgdir := d, sz := z,
               p_tf := (p_tf q)\<lparr>tf_eip := entry, tf_esp := sp\<rparr>\<rparr>) s
     in bindr (if SELECTION C \<noteq> NONE \<and> swapFile (prc p s) \<noteq> None then
                 bindr (removeSwapFile C p s) (\<lambda>(_, s).
                 bindr (createSwapFile C p s) (\<lambda>(_, s). Inr ((), s)))
               else Inr ((), s)) (\<lambda>(_, s).
        bindr (switchuvm C (Some p) s) (\<lambda>(_, s).
        bindr (freevm C old s) (\<lambda>(_, s). Inr (0, s)))))"

text \<open>The stack: two pages behind the program, the first without user access.\<close>

definition exec_stack :: "conf \<Rightarrow> u32 \<Rightarrow> u32 \<Rightarrow> u8 list list \<Rightarrow> kernel \<Rightarrow> (u32 \<times> u32) option kres" where
  "exec_stack C d z argv s =
     bindr (allocuvm C d (PGROUNDUP z) (PGROUNDUP z + 2 * PGSIZE) s) (\<lambda>(z, s).
     if z = 0 then Inr (None, s)
     else
       bindr (clearpteu d (z - 2 * PGSIZE) s) (\<lambda>(_, s).
       bindr (push_args d argv 0 z [] s) (\<lambda>(r, s).
       case r of
         None \<Rightarrow> Inr (None, s)
       | Some (sp, ptrs) \<Rightarrow>
           let st = ustack ptrs sp;
               sp = sp - word_of_nat (4 * (3 + length ptrs + 1))
           in bindr (copyout d sp (concat (map word_bytes st)) s) (\<lambda>(r, s).
              if r < 0 then Inr (None, s) else Inr (Some (z, sp), s)))))"

definition exec :: "conf \<Rightarrow> u8 list \<Rightarrow> u8 list list \<Rightarrow> kernel \<Rightarrow> int kres" where
  "exec C path argv s =
     bindr (myproc s) (\<lambda>p.
     let head = page_list_head_ram (prc p s);
         nram = num_pages_ram (prc p s);
         ndisk = num_pages_disk (prc p s)
     in bindr (begin_op s) (\<lambda>(_, s).
     bindr (namei (conf_dev C) (kcwd s) path s) (\<lambda>(ip, s).
     case ip of
       None \<Rightarrow> bindr (end_op s) (\<lambda>(_, s). Inr (-1, s))
     | Some ip \<Rightarrow>
         bindr (ilock (Some ip) s) (\<lambda>(_, s).
         bindr (readi (conf_dev C) ip 0 52 s) (\<lambda>((r, bs), s).
         let elf = rd_elfhdr bs in
         if r \<noteq> 52 \<or> e_magic elf \<noteq> ELF_MAGIC then exec_bad C p 0 (Some ip) None head nram ndisk s
         else
           bindr (setupkvm C s) (\<lambda>(d, s).
           if d = 0 then exec_bad C p 0 (Some ip) None head nram ndisk s
           else
             let backup = (if SELECTION C \<noteq> NONE then Some (save_links (prc p s)) else None);
                 s = (if SELECTION C \<noteq> NONE then upd_proc p (init_meta_data (SELECTION C)) s else s)
             in bindr (load_segments (unat (e_phnum elf)) C d ip (e_phoff elf) 0 s) (\<lambda>(z, s).
                case z of
                  None \<Rightarrow> exec_bad C p d (Some ip) backup head nram ndisk s
                | Some z \<Rightarrow>
                    bindr (iunlockput ip s) (\<lambda>(_, s).
                    bindr (end_op s) (\<lambda>(_, s).
                    bindr (exec_stack C d z argv s) (\<lambda>(r, s).
                    case r of
                      None \<Rightarrow> exec_bad C p d None backup head nram ndisk s
                    | Some (z, sp) \<Rightarrow> exec_commit C p path d z (e_entry elf) sp s))))))))))"

end
