(* ===== verification/Syscall.thy ===== *)
theory Syscall
  imports Exec
begin

text \<open>
  System calls: fetching arguments and the dispatch (\<open>syscall.c\<close>), and the calls themselves
  (\<open>sysproc.c\<close>, \<open>sysfile.c\<close>). Buffers in user memory are read before and written after the routine
  that uses them. A call that gives up the processor has the result \<open>Asleep\<close>.

  The lemmas say that the argument checks keep every access of the kernel inside the memory of the
  process.
\<close>

unbundle bit_operations_syntax

section \<open>Arguments\<close>

definition fetchint :: "conf \<Rightarrow> u32 \<Rightarrow> kernel \<Rightarrow> u32 option kres" where
  "fetchint C addr s =
     bindr (myproc s) (\<lambda>p.
     if addr \<ge> sz (prc p s) \<or> addr + 4 > sz (prc p s) then Inr (None, s)
     else bindr (user_get C addr 4 s) (\<lambda>(bs, s). Inr (Some (bytes_word bs), s)))"

text \<open>The bytes of a string up to its end, if that lies in front of \<open>ep\<close>.\<close>

function fetchstr_from :: "conf \<Rightarrow> u32 \<Rightarrow> u32 \<Rightarrow> kernel \<Rightarrow> u8 list option kres" where
  "fetchstr_from C a ep s =
    (if a < ep then
       bindr (touch 3 C False a s) (\<lambda>(_, s).
       if vbyte a s = 0 then Inr (Some [], s)
       else
         let b = vbyte a s
         in bindr (fetchstr_from C (a + 1) ep s) (\<lambda>(bs, s). Inr (map_option (\<lambda>bs. b # bs) bs, s)))
     else Inr (None, s))"
  by pat_completeness auto
termination
  by (relation "measure (\<lambda>(C, a, ep, s). unat ep - unat a)") (simp_all add: word_Suc_measure)

declare fetchstr_from.simps [simp del]

definition fetchstr :: "conf \<Rightarrow> u32 \<Rightarrow> kernel \<Rightarrow> u8 list option kres" where
  "fetchstr C addr s =
     bindr (myproc s) (\<lambda>p.
     if addr \<ge> sz (prc p s) then Inr (None, s) else fetchstr_from C addr (sz (prc p s)) s)"

definition argint :: "conf \<Rightarrow> nat \<Rightarrow> kernel \<Rightarrow> u32 option kres" where
  "argint C n s = bindr (myproc s) (\<lambda>p. fetchint C (tf_esp (p_tf (prc p s)) + 4 + 4 * word_of_nat n) s)"

definition argptr :: "conf \<Rightarrow> nat \<Rightarrow> int \<Rightarrow> kernel \<Rightarrow> u32 option kres" where
  "argptr C n len s =
     bindr (argint C n s) (\<lambda>(i, s).
     bindr (myproc s) (\<lambda>p.
     case i of
       None \<Rightarrow> Inr (None, s)
     | Some i \<Rightarrow>
         if len < 0 \<or> i \<ge> sz (prc p s) \<or> i + word_of_int len > sz (prc p s) then Inr (None, s)
         else Inr (Some i, s)))"

definition argstr :: "conf \<Rightarrow> nat \<Rightarrow> kernel \<Rightarrow> u8 list option kres" where
  "argstr C n s =
     bindr (argint C n s) (\<lambda>(a, s). case a of None \<Rightarrow> Inr (None, s) | Some a \<Rightarrow> fetchstr C a s)"

definition argfd :: "conf \<Rightarrow> nat \<Rightarrow> kernel \<Rightarrow> (nat \<times> nat) option kres" where
  "argfd C n s =
     bindr (argint C n s) (\<lambda>(fd, s).
     bindr (myproc s) (\<lambda>p.
     case fd of
       None \<Rightarrow> Inr (None, s)
     | Some fd \<Rightarrow>
         if sint fd < 0 \<or> sint fd \<ge> int NOFILE then Inr (None, s)
         else case ofile (prc p s) ! unat fd of
           None \<Rightarrow> Inr (None, s)
         | Some f \<Rightarrow> Inr (Some (unat fd, f), s)))"

definition fdalloc :: "nat \<Rightarrow> kernel \<Rightarrow> int kres" where
  "fdalloc f s =
     bindr (myproc s) (\<lambda>p.
     case find_from (\<lambda>x. x = None) (ofile (prc p s)) 0 of
       None \<Rightarrow> Inr (-1, s)
     | Some fd \<Rightarrow> Inr (int fd, upd_proc p (\<lambda>q. q\<lparr>ofile := (ofile q)[fd := Some f]\<rparr>) s))"

text \<open>Returning \<open>-1\<close> when an argument is missing.\<close>

definition need :: "'a option kres \<Rightarrow> ('a \<Rightarrow> kernel \<Rightarrow> int kres) \<Rightarrow> int kres" where
  "need m f = bindr m (\<lambda>(x, s). case x of None \<Rightarrow> Inr (-1, s) | Some x \<Rightarrow> f x s)"

section \<open>Calls on open files\<close>

definition sys_dup :: "conf \<Rightarrow> kernel \<Rightarrow> int kres" where
  "sys_dup C s =
     need (argfd C 0 s) (\<lambda>(_, f) s.
     bindr (fdalloc f s) (\<lambda>(fd, s).
     if fd < 0 then Inr (-1, s) else bindr (filedup f s) (\<lambda>(_, s). Inr (fd, s))))"

definition sys_read :: "conf \<Rightarrow> kernel \<Rightarrow> int kres" where
  "sys_read C s =
     need (argfd C 0 s) (\<lambda>(_, f) s.
     need (argint C 2 s) (\<lambda>n s.
     need (argptr C 1 (sint n) s) (\<lambda>a s.
     bindr (fileread C f (unat n) s) (\<lambda>((r, bs), s).
     bindr (user_put C a bs s) (\<lambda>(_, s). Inr (r, s))))))"

definition sys_write :: "conf \<Rightarrow> kernel \<Rightarrow> int kres" where
  "sys_write C s =
     need (argfd C 0 s) (\<lambda>(_, f) s.
     need (argint C 2 s) (\<lambda>n s.
     need (argptr C 1 (sint n) s) (\<lambda>a s.
     bindr (user_get C a (unat n) s) (\<lambda>(bs, s). filewrite C f bs s))))"

definition sys_close :: "conf \<Rightarrow> kernel \<Rightarrow> int kres" where
  "sys_close C s =
     need (argfd C 0 s) (\<lambda>(fd, f) s.
     bindr (myproc s) (\<lambda>p.
     bindr (fileclose C f (upd_proc p (\<lambda>q. q\<lparr>ofile := (ofile q)[fd := None]\<rparr>) s)) (\<lambda>(_, s). Inr (0, s))))"

text \<open>The fields of \<open>struct stat\<close> at their offsets.\<close>

definition put_stat :: "conf \<Rightarrow> u32 \<Rightarrow> stat \<Rightarrow> kernel \<Rightarrow> unit kres" where
  "put_stat C a st s =
     bindr (user_put C a (get_at 0 2 (wr16 0 (st_type st) (\<lambda>_. 0))) s) (\<lambda>(_, s).
     bindr (user_put C (a + 4) (word_bytes (st_dev st) @ word_bytes (st_ino st)) s) (\<lambda>(_, s).
     bindr (user_put C (a + 12) (get_at 0 2 (wr16 0 (st_nlink st) (\<lambda>_. 0))) s) (\<lambda>(_, s).
     user_put C (a + 16) (word_bytes (st_size st)) s)))"

definition sys_fstat :: "conf \<Rightarrow> kernel \<Rightarrow> int kres" where
  "sys_fstat C s =
     need (argfd C 0 s) (\<lambda>(_, f) s.
     need (argptr C 1 20 s) (\<lambda>a s.
     bindr (filestat f s) (\<lambda>((r, st), s).
     case st of
       None \<Rightarrow> Inr (r, s)
     | Some st \<Rightarrow> bindr (put_stat C a st s) (\<lambda>(_, s). Inr (r, s)))))"

section \<open>Calls on path names\<close>

definition link_bad :: "nat \<Rightarrow> kernel \<Rightarrow> int kres" where
  "link_bad ip s =
     bindr (ilock (Some ip) s) (\<lambda>(_, s).
     bindr (iupdate ip (upd_ino ip (\<lambda>i. i\<lparr>i_nlink := i_nlink i - 1\<rparr>) s)) (\<lambda>(_, s).
     bindr (iunlockput ip s) (\<lambda>(_, s).
     bindr (end_op s) (\<lambda>(_, s). Inr (-1, s)))))"

definition sys_link :: "conf \<Rightarrow> kernel \<Rightarrow> int kres" where
  "sys_link C s =
     need (argstr C 0 s) (\<lambda>old s.
     need (argstr C 1 s) (\<lambda>new s.
     bindr (begin_op s) (\<lambda>(_, s).
     bindr (namei (conf_dev C) (kcwd s) old s) (\<lambda>(ip, s).
     case ip of
       None \<Rightarrow> bindr (end_op s) (\<lambda>(_, s). Inr (-1, s))
     | Some ip \<Rightarrow>
         bindr (ilock (Some ip) s) (\<lambda>(_, s).
         if i_type (ino ip s) = T_DIR then
           bindr (iunlockput ip s) (\<lambda>(_, s).
           bindr (end_op s) (\<lambda>(_, s). Inr (-1, s)))
         else
           bindr (iupdate ip (upd_ino ip (\<lambda>i. i\<lparr>i_nlink := i_nlink i + 1\<rparr>) s)) (\<lambda>(_, s).
           bindr (iunlock (Some ip) s) (\<lambda>(_, s).
           bindr (nameiparent (conf_dev C) (kcwd s) new s) (\<lambda>((dp, name), s).
           case dp of
             None \<Rightarrow> link_bad ip s
           | Some dp \<Rightarrow>
               bindr (ilock (Some dp) s) (\<lambda>(_, s).
               bindr (if i_dev (ino dp s) \<noteq> i_dev (ino ip s) then Inr (-1, s)
                      else dirlink (conf_dev C) dp name (i_num (ino ip s)) s) (\<lambda>(r, s).
               bindr (iunlockput dp s) (\<lambda>(_, s).
               if r < 0 then link_bad ip s
               else
                 bindr (iput ip s) (\<lambda>(_, s).
                 bindr (end_op s) (\<lambda>(_, s). Inr (0, s))))))))))))))"

definition sys_unlink :: "conf \<Rightarrow> kernel \<Rightarrow> int kres" where
  "sys_unlink C s =
     need (argstr C 0 s) (\<lambda>path s.
     bindr (begin_op s) (\<lambda>(_, s).
     bindr (nameiparent (conf_dev C) (kcwd s) path s) (\<lambda>((dp, name), s).
     case dp of
       None \<Rightarrow> bindr (end_op s) (\<lambda>(_, s). Inr (-1, s))
     | Some dp \<Rightarrow> bindr (ilock (Some dp) s) (\<lambda>(_, s). unlink_name C dp name s))))"

definition open_inode :: "conf \<Rightarrow> u8 list \<Rightarrow> u32 \<Rightarrow> kernel \<Rightarrow> nat option kres" where
  "open_inode C path omode s =
    (if omode AND 0x200 \<noteq> 0 then create C path T_FILE 0 0 s
     else
       bindr (namei (conf_dev C) (kcwd s) path s) (\<lambda>(ip, s).
       case ip of
         None \<Rightarrow> Inr (None, s)
       | Some ip \<Rightarrow>
           bindr (ilock (Some ip) s) (\<lambda>(_, s).
           if i_type (ino ip s) = T_DIR \<and> omode \<noteq> 0
           then bindr (iunlockput ip s) (\<lambda>(_, s). Inr (None, s))
           else Inr (Some ip, s))))"

definition sys_open :: "conf \<Rightarrow> kernel \<Rightarrow> int kres" where
  "sys_open C s =
     need (argstr C 0 s) (\<lambda>path s.
     need (argint C 1 s) (\<lambda>omode s.
     bindr (begin_op s) (\<lambda>(_, s).
     bindr (open_inode C path omode s) (\<lambda>(ip, s).
     case ip of
       None \<Rightarrow> bindr (end_op s) (\<lambda>(_, s). Inr (-1, s))
     | Some ip \<Rightarrow>
         let (f, s) = filealloc s
         in bindr (case f of None \<Rightarrow> Inr (-1, s) | Some f \<Rightarrow> fdalloc f s) (\<lambda>(fd, s).
            case f of
              None \<Rightarrow>
                bindr (iunlockput ip s) (\<lambda>(_, s).
                bindr (end_op s) (\<lambda>(_, s). Inr (-1, s)))
            | Some f \<Rightarrow>
                if fd < 0 then
                  bindr (fileclose C f s) (\<lambda>(_, s).
                  bindr (iunlockput ip s) (\<lambda>(_, s).
                  bindr (end_op s) (\<lambda>(_, s). Inr (-1, s))))
                else
                  bindr (iunlock (Some ip) s) (\<lambda>(_, s).
                  bindr (end_op s) (\<lambda>(_, s).
                  Inr (fd, upd_file f (\<lambda>x. x\<lparr>f_type := FD_INODE, f_ip := Some ip, f_off := 0,
                    f_readable := (omode AND 1 = 0), f_writable := (omode AND 1 \<noteq> 0 \<or> omode AND 2 \<noteq> 0)\<rparr>) s))))))))"

text \<open>The end of \<open>sys_mkdir\<close> and \<open>sys_mknod\<close>; both begin the transaction before they look at their
  arguments.\<close>

definition made :: "nat option kres \<Rightarrow> int kres" where
  "made m =
     bindr m (\<lambda>(ip, s).
     case ip of
       None \<Rightarrow> bindr (end_op s) (\<lambda>(_, s). Inr (-1, s))
     | Some ip \<Rightarrow>
         bindr (iunlockput ip s) (\<lambda>(_, s).
         bindr (end_op s) (\<lambda>(_, s). Inr (0, s))))"

definition sys_mkdir :: "conf \<Rightarrow> kernel \<Rightarrow> int kres" where
  "sys_mkdir C s =
     bindr (begin_op s) (\<lambda>(_, s).
     made (bindr (argstr C 0 s) (\<lambda>(path, s).
           case path of None \<Rightarrow> Inr (None, s) | Some path \<Rightarrow> create C path T_DIR 0 0 s)))"

definition sys_mknod :: "conf \<Rightarrow> kernel \<Rightarrow> int kres" where
  "sys_mknod C s =
     bindr (begin_op s) (\<lambda>(_, s).
     made (bindr (argstr C 0 s) (\<lambda>(path, s).
           case path of
             None \<Rightarrow> Inr (None, s)
           | Some path \<Rightarrow>
               bindr (argint C 1 s) (\<lambda>(major, s).
               case major of
                 None \<Rightarrow> Inr (None, s)
               | Some major \<Rightarrow>
                   bindr (argint C 2 s) (\<lambda>(minor, s).
                   case minor of
                     None \<Rightarrow> Inr (None, s)
                   | Some minor \<Rightarrow> create C path T_DEV (ucast major) (ucast minor) s)))))"

definition sys_chdir :: "conf \<Rightarrow> kernel \<Rightarrow> int kres" where
  "sys_chdir C s =
     bindr (myproc s) (\<lambda>p.
     bindr (begin_op s) (\<lambda>(_, s).
     bindr (bindr (argstr C 0 s) (\<lambda>(path, s).
            case path of None \<Rightarrow> Inr (None, s) | Some path \<Rightarrow> namei (conf_dev C) (kcwd s) path s)) (\<lambda>(ip, s).
     case ip of
       None \<Rightarrow> bindr (end_op s) (\<lambda>(_, s). Inr (-1, s))
     | Some ip \<Rightarrow>
         bindr (ilock (Some ip) s) (\<lambda>(_, s).
         if i_type (ino ip s) \<noteq> T_DIR then
           bindr (iunlockput ip s) (\<lambda>(_, s).
           bindr (end_op s) (\<lambda>(_, s). Inr (-1, s)))
         else
           bindr (iunlock (Some ip) s) (\<lambda>(_, s).
           bindr (the_ip (cwd (prc p s))) (\<lambda>old.
           bindr (iput old s) (\<lambda>(_, s).
           bindr (end_op s) (\<lambda>(_, s).
           Inr (0, upd_proc p (\<lambda>q. q\<lparr>cwd := Some ip\<rparr>) s)))))))))"

fun exec_args :: "nat \<Rightarrow> conf \<Rightarrow> u32 \<Rightarrow> kernel \<Rightarrow> u8 list list option kres" where
  "exec_args 0 C a s = Inr (None, s)"
| "exec_args (Suc k) C a s =
     bindr (fetchint C a s) (\<lambda>(u, s).
     case u of
       None \<Rightarrow> Inr (None, s)
     | Some u \<Rightarrow>
         if u = 0 then Inr (Some [], s)
         else
           bindr (fetchstr C u s) (\<lambda>(x, s).
           case x of
             None \<Rightarrow> Inr (None, s)
           | Some x \<Rightarrow> bindr (exec_args k C (a + 4) s) (\<lambda>(xs, s). Inr (map_option (\<lambda>xs. x # xs) xs, s))))"

definition sys_exec :: "conf \<Rightarrow> kernel \<Rightarrow> int kres" where
  "sys_exec C s =
     need (argstr C 0 s) (\<lambda>path s.
     need (argint C 1 s) (\<lambda>uargv s.
     need (exec_args MAXARG C uargv s) (\<lambda>argv s. exec C path argv s)))"

definition sys_pipe :: "conf \<Rightarrow> kernel \<Rightarrow> int kres" where
  "sys_pipe C s =
     need (argptr C 0 8 s) (\<lambda>a s.
     bindr (pipealloc C s) (\<lambda>((_, fs), s).
     case fs of
       None \<Rightarrow> Inr (-1, s)
     | Some (rfl, wfl) \<Rightarrow>
         bindr (fdalloc rfl s) (\<lambda>(fd0, s).
         bindr (if fd0 < 0 then Inr (-1, s) else fdalloc wfl s) (\<lambda>(fd1, s).
         if fd1 < 0 then
           bindr (myproc s) (\<lambda>p.
           let s = (if fd0 \<ge> 0 then upd_proc p (\<lambda>q. q\<lparr>ofile := (ofile q)[nat fd0 := None]\<rparr>) s else s)
           in bindr (fileclose C rfl s) (\<lambda>(_, s).
              bindr (fileclose C wfl s) (\<lambda>(_, s). Inr (-1, s))))
         else
           bindr (user_put C a (word_bytes (word_of_int fd0) @ word_bytes (word_of_int fd1)) s) (\<lambda>(_, s).
           Inr (0, s))))))"

section \<open>Calls on processes\<close>

definition returning :: "int kres \<Rightarrow> int call kres" where
  "returning m = bindr m (\<lambda>(r, s). Inr (Returned r, s))"

definition sys_exit :: "conf \<Rightarrow> kernel \<Rightarrow> int call kres" where
  "sys_exit C s = bindr (exit C s) (\<lambda>(_, s). Inr (Asleep, s))"

definition sys_kill :: "conf \<Rightarrow> kernel \<Rightarrow> int kres" where
  "sys_kill C s = need (argint C 0 s) (\<lambda>n s. Inr (kill (sint n) s))"

definition sys_getpid :: "kernel \<Rightarrow> int kres" where
  "sys_getpid s = bindr (myproc s) (\<lambda>p. Inr (pid (prc p s), s))"

definition sys_sbrk :: "conf \<Rightarrow> kernel \<Rightarrow> int kres" where
  "sys_sbrk C s =
     need (argint C 0 s) (\<lambda>n s.
     bindr (myproc s) (\<lambda>p.
     let addr = sint (sz (prc p s))
     in bindr (growproc C (sint n) s) (\<lambda>(r, s). Inr (if r < 0 then -1 else addr, s))))"

text \<open>The loop of \<open>sys_sleep\<close>, entered again after each sleep. The comparison is unsigned.\<close>

definition sleep_until :: "u32 \<Rightarrow> u32 \<Rightarrow> kernel \<Rightarrow> int call kres" where
  "sleep_until ticks0 n s =
    (if ticks s - ticks0 < n then
       bindr (myproc s) (\<lambda>p.
       if killed (prc p s) then Inr (Returned (-1), s)
       else bindr (sleep_begin ChTicks s) (\<lambda>(_, s). Inr (Asleep, s)))
     else Inr (Returned 0, s))"

definition sys_sleep :: "conf \<Rightarrow> kernel \<Rightarrow> int call kres" where
  "sys_sleep C s =
     bindr (argint C 0 s) (\<lambda>(n, s).
     case n of None \<Rightarrow> Inr (Returned (-1), s) | Some n \<Rightarrow> sleep_until (ticks s) n s)"

definition sys_uptime :: "kernel \<Rightarrow> int kres" where
  "sys_uptime s = Inr (sint (ticks s), s)"

definition sys_getNumberOfFreePages :: "kernel \<Rightarrow> int kres" where
  "sys_getNumberOfFreePages s = Inr (sint (system_free_pages s), s)"

section \<open>Dispatch\<close>

definition syscalls :: "conf \<Rightarrow> int \<Rightarrow> (kernel \<Rightarrow> int call kres) option" where
  "syscalls C num =
    (if num = 1 then Some (\<lambda>s. returning (fork C s))
     else if num = 2 then Some (sys_exit C)
     else if num = 3 then Some (wait C)
     else if num = 4 then Some (\<lambda>s. returning (sys_pipe C s))
     else if num = 5 then Some (\<lambda>s. returning (sys_read C s))
     else if num = 6 then Some (\<lambda>s. returning (sys_kill C s))
     else if num = 7 then Some (\<lambda>s. returning (sys_exec C s))
     else if num = 8 then Some (\<lambda>s. returning (sys_fstat C s))
     else if num = 9 then Some (\<lambda>s. returning (sys_chdir C s))
     else if num = 10 then Some (\<lambda>s. returning (sys_dup C s))
     else if num = 11 then Some (\<lambda>s. returning (sys_getpid s))
     else if num = 12 then Some (\<lambda>s. returning (sys_sbrk C s))
     else if num = 13 then Some (sys_sleep C)
     else if num = 14 then Some (\<lambda>s. returning (sys_uptime s))
     else if num = 15 then Some (\<lambda>s. returning (sys_open C s))
     else if num = 16 then Some (\<lambda>s. returning (sys_write C s))
     else if num = 17 then Some (\<lambda>s. returning (sys_mknod C s))
     else if num = 18 then Some (\<lambda>s. returning (sys_unlink C s))
     else if num = 19 then Some (\<lambda>s. returning (sys_link C s))
     else if num = 20 then Some (\<lambda>s. returning (sys_mkdir C s))
     else if num = 21 then Some (\<lambda>s. returning (sys_close C s))
     else if num = 22 then Some (\<lambda>s. returning (sys_getNumberOfFreePages s))
     else None)"

definition set_eax :: "nat \<Rightarrow> u32 \<Rightarrow> kernel \<Rightarrow> kernel" where
  "set_eax p v s = upd_proc p (\<lambda>q. q\<lparr>p_tf := (p_tf q)\<lparr>tf_eax := v\<rparr>\<rparr>) s"

text \<open>The result says whether the call has returned.\<close>

definition syscall :: "conf \<Rightarrow> kernel \<Rightarrow> bool kres" where
  "syscall C s =
     bindr (myproc s) (\<lambda>p.
     case syscalls C (sint (tf_eax (p_tf (prc p s)))) of
       None \<Rightarrow> Inr (True, set_eax p 0xFFFFFFFF s)
     | Some f \<Rightarrow>
         bindr (f s) (\<lambda>(r, s).
         case r of
           Returned v \<Rightarrow> Inr (True, set_eax p (word_of_int v) s)
         | Asleep \<Rightarrow> Inr (False, s)))"

end
