(* ===== verification/Console.thy ===== *)
theory Console
  imports Pipe
begin

text \<open>
  The console, \<open>console.c\<close>: formatted output, the text screen, line editing of the input and reading
  from it. Characters are passed to \<open>consputc\<close> as integers; 0x100 is the code for a backspace.

  The input buffer is a ring of 128 bytes with three counters. Its abstraction is a pair of texts,
  the lines that can be read and the line that is being edited; the lemmas say that the interrupt
  routine and the reader do on these what a line editor should, that the screen routine stays on
  the screen, and that printed numbers can be read back.
\<close>

unbundle bit_operations_syntax

section \<open>Numbers and formats\<close>

definition digit_char :: "nat \<Rightarrow> u8" where
  "digit_char d = (if d < 10 then 48 + word_of_nat d else 87 + word_of_nat d)"

text \<open>The digits as \<open>printint\<close> collects them, least significant first. The buffer has 16 places.\<close>

function print_digits :: "nat \<Rightarrow> nat \<Rightarrow> u8 list" where
  "print_digits base x =
    (if base < 2 \<or> x div base = 0 then [digit_char (x mod base)] else digit_char (x mod base) # print_digits base (x div base))"
  by pat_completeness auto
termination
proof (relation "measure snd")
  fix base x :: nat
  assume "\<not> (base < 2 \<or> x div base = 0)"
  then have "0 < x" "1 < base" by (cases "x = 0", auto)
  then show "((base, x div base), base, x) \<in> measure snd" by simp
qed simp

declare print_digits.simps [simp del]

definition printint :: "u32 \<Rightarrow> nat \<Rightarrow> bool \<Rightarrow> u8 list res" where
  "printint xx base sign =
    (let neg = (sign \<and> sint xx < 0);
         x = (if neg then - xx else xx);
         buf = print_digits base (unat x) @ (if neg then [45] else [])
     in if length buf > 16 then Inl OutOfBounds else Inr (rev buf))"

text \<open>The arguments of \<open>cprintf\<close>: words and strings. A word printed as a string, or a string as a word, is
  outside the model.\<close>

datatype carg = AInt u32 | AStr "u8 list option"

fun cprintf :: "u8 list \<Rightarrow> carg list \<Rightarrow> u8 list res" where
  "cprintf [] args = Inr []"
| "cprintf [c] args = Inr (if c = 37 then [] else [c])"
| "cprintf (c # d # fmt) args =
    (if c \<noteq> 37 then bindr (cprintf (d # fmt) args) (\<lambda>xs. Inr (c # xs))
     else if d = 100 then
       (case args of AInt v # args \<Rightarrow> bindr (printint v 10 True) (\<lambda>x. bindr (cprintf fmt args) (\<lambda>xs. Inr (x @ xs))) | _ \<Rightarrow> Inl Undefined)
     else if d = 120 \<or> d = 112 then
       (case args of AInt v # args \<Rightarrow> bindr (printint v 16 False) (\<lambda>x. bindr (cprintf fmt args) (\<lambda>xs. Inr (x @ xs))) | _ \<Rightarrow> Inl Undefined)
     else if d = 115 then
       (case args of
          AStr t # args \<Rightarrow>
            bindr (cprintf fmt args) (\<lambda>xs.
            Inr ((case t of None \<Rightarrow> [40, 110, 117, 108, 108, 41] | Some t \<Rightarrow> t) @ xs))
        | _ \<Rightarrow> Inl Undefined)
     else if d = 37 then bindr (cprintf fmt args) (\<lambda>xs. Inr (37 # xs))
     else bindr (cprintf fmt args) (\<lambda>xs. Inr (37 # d # xs)))"

section \<open>The screen\<close>

record cga =
  cga_pos :: nat                 \<comment> \<open>cursor, column + 80 * row\<close>
  cga_crt :: "nat \<Rightarrow> u16"

abbreviation (input) BACKSPACE :: int where "BACKSPACE \<equiv> 0x100"

definition cgaputc :: "int \<Rightarrow> cga \<Rightarrow> cga res" where
  "cgaputc c g =
    (let pos = cga_pos g;
         (pos, crt) = (if c = 10 then (pos + (80 - pos mod 80), cga_crt g)
                       else if c = BACKSPACE then (pos - 1, cga_crt g)
                       else (pos + 1, (cga_crt g)(pos := (word_of_int c AND 0xff) OR 0x0700)))
     in if pos > 25 * 80 then Inl (Panic ''pos under/overflow'')
        else
          let (pos, crt) =
                (if pos div 80 \<ge> 24
                 then let crt = (\<lambda>i. if i < 23 * 80 then crt (i + 80) else crt i);
                          pos = pos - 80
                      in (pos, \<lambda>i. if pos \<le> i \<and> i < 24 * 80 then 0 else crt i)
                 else (pos, crt))
          in Inr \<lparr>cga_pos = pos, cga_crt = crt(pos := 0x0720)\<rparr>)"

text \<open>The bytes sent to the serial port for one character.\<close>

definition uart_bytes :: "int \<Rightarrow> u8 list" where
  "uart_bytes c = (if c = BACKSPACE then [8, 32, 8] else [word_of_int c])"

definition consputc :: "bool \<Rightarrow> int \<Rightarrow> u8 list \<times> cga \<Rightarrow> (u8 list \<times> cga) res" where
  "consputc panicked c og =
    (if panicked then Inl Diverge
     else case og of (out, g) \<Rightarrow> bindr (cgaputc c g) (\<lambda>g. Inr (out @ uart_bytes c, g)))"

section \<open>Input\<close>

lemma kill_measure:
  assumes "e \<noteq> (w :: u32)"
  shows "unat (e - 1 - w) < unat (e - w)"
proof -
  have e: "e - 1 - w = e - w - 1" by (simp add: diff_diff_eq add.commute)
  have "e - w \<noteq> 0" using assms by simp
  then have "1 \<le> unat (e - w)" by (metis Suc_leI One_nat_def neq0_conv unat_eq_zero)
  then have "unat (e - w - 1) = unat (e - w) - 1" using unat_sub_nowrap [of 1 "e - w"] by simp
  then show ?thesis unfolding e using \<open>1 \<le> unat (e - w)\<close> by simp
qed

function kill_line :: "input \<Rightarrow> int list \<Rightarrow> input \<times> int list" where
  "kill_line inp out =
    (if in_e inp \<noteq> in_w inp \<and> in_buf inp (unat (in_e inp - 1) mod INPUT_BUF) \<noteq> 10
     then kill_line (inp\<lparr>in_e := in_e inp - 1\<rparr>) (out @ [BACKSPACE])
     else (inp, out))"
  by pat_completeness auto
termination
  by (relation "measure (\<lambda>(inp, out). unat (in_e inp - in_w inp))") (simp_all add: kill_measure)

declare kill_line.simps [simp del]

text \<open>One character; the last result says whether a sleeping reader is woken.\<close>

definition console_char :: "int \<Rightarrow> input \<Rightarrow> int list \<Rightarrow> (input \<times> int list) \<times> bool" where
  "console_char c inp out =
    (if c = 16 then ((inp, out), False)
     else if c = 21 then (kill_line inp out, False)
     else if c = 8 \<or> c = 127 then
       (if in_e inp \<noteq> in_w inp then (inp\<lparr>in_e := in_e inp - 1\<rparr>, out @ [BACKSPACE]) else (inp, out), False)
     else if c \<noteq> 0 \<and> in_e inp - in_r inp < 128 then
       let c = (if c = 13 then 10 else c);
           inp = inp\<lparr>in_buf := (in_buf inp)(unat (in_e inp) mod INPUT_BUF := word_of_int c), in_e := in_e inp + 1\<rparr>;
           out = out @ [c]
       in if c = 10 \<or> c = 4 \<or> in_e inp = in_r inp + 128
          then ((inp\<lparr>in_w := in_e inp\<rparr>, out), True)
          else ((inp, out), False)
     else ((inp, out), False))"

text \<open>The interrupt routine on the characters that \<open>getc\<close> returns, up to the first negative one. It
  reports whether a process listing was asked for.\<close>

fun consoleintr :: "int list \<Rightarrow> bool \<Rightarrow> kernel \<Rightarrow> bool \<times> kernel" where
  "consoleintr [] dump s = (dump, s)"
| "consoleintr (c # cs) dump s =
    (if c < 0 then (dump, s)
     else
       let ((inp, out), wake) = console_char c (console_in s) (console_out s);
           s = s\<lparr>console_in := inp, console_out := out\<rparr>
       in consoleintr cs (dump \<or> c = 16) (if wake then wakeup ChInput s else s))"

datatype rprogress = RDone "u8 list" | RKilled | RWait nat "u8 list"   \<comment> \<open>asleep, bytes left, bytes read\<close>

text \<open>The loop of \<open>consoleread\<close>: \<open>n\<close> bytes are left, \<open>first\<close> says that none has been read yet.\<close>

fun consoleread_from :: "nat \<Rightarrow> u8 list \<Rightarrow> kernel \<Rightarrow> rprogress kres" where
  "consoleread_from 0 acc s = Inr (RDone acc, s)"
| "consoleread_from (Suc n) acc s =
    (if in_r (console_in s) = in_w (console_in s) then
       bindr (myproc s) (\<lambda>p.
       if killed (prc p s) then Inr (RKilled, s)
       else bindr (sleep_begin ChInput s) (\<lambda>(_, s). Inr (RWait (Suc n) acc, s)))
     else
       let c = in_buf (console_in s) (unat (in_r (console_in s)) mod INPUT_BUF);
           s1 = s\<lparr>console_in := (console_in s)\<lparr>in_r := in_r (console_in s) + 1\<rparr>\<rparr>
       in if c = 4 then Inr (RDone acc, if acc \<noteq> [] then s else s1)
          else if c = 10 then Inr (RDone (acc @ [c]), s1)
          else consoleread_from n (acc @ [c]) s1)"

definition consoleread :: "nat \<Rightarrow> u32 \<Rightarrow> kernel \<Rightarrow> (int \<times> u8 list) kres" where
  "consoleread ip n s =
     bindr (iunlock (Some ip) s) (\<lambda>(_, s).
     bindr (consoleread_from (nat (sint n)) [] s) (\<lambda>(r, s).
     case r of
       RDone bs \<Rightarrow> bindr (ilock (Some ip) s) (\<lambda>(_, s). Inr ((int (length bs), bs), s))
     | RKilled \<Rightarrow> bindr (ilock (Some ip) s) (\<lambda>(_, s). Inr ((-1, []), s))
     | RWait _ _ \<Rightarrow> Inl (Sleeps ''consoleread'')))"

definition consolewrite :: "nat \<Rightarrow> u8 list \<Rightarrow> kernel \<Rightarrow> int kres" where
  "consolewrite ip buf s =
     bindr (iunlock (Some ip) s) (\<lambda>(_, s).
     bindr (ilock (Some ip) (s\<lparr>console_out := console_out s @ map uint buf\<rparr>)) (\<lambda>(_, s).
     Inr (int (length buf), s)))"

text \<open>The device table after \<open>consoleinit\<close>.\<close>

definition consoleinit :: "kernel devsw \<Rightarrow> kernel devsw" where
  "consoleinit D = D(1 := Some \<lparr>dev_read = consoleread, dev_write = consolewrite\<rparr>)"

section \<open>Printed numbers\<close>

definition char_digit :: "u8 \<Rightarrow> nat" where
  "char_digit c = (if c < 58 then unat c - 48 else unat c - 87)"

text \<open>The number that a text of digits stands for, with an optional minus sign.\<close>

fun digits_val :: "nat \<Rightarrow> u8 list \<Rightarrow> nat" where
  "digits_val base [] = 0"
| "digits_val base (c # cs) = char_digit c + base * digits_val base cs"

definition read_num :: "nat \<Rightarrow> u8 list \<Rightarrow> int" where
  "read_num base cs = (case cs of c # ds \<Rightarrow> if c = 45 then - int (digits_val base (rev ds)) else int (digits_val base (rev cs)) | [] \<Rightarrow> 0)"

lemma unat_digit_char: "d < 16 \<Longrightarrow> unat (digit_char d) = (if d < 10 then 48 + d else 87 + d)"
proof -
  assume "d < 16"
  then have "unat (word_of_nat d :: u8) = d" by (simp add: unat_of_nat take_bit_nat_eq_self_iff)
  then show ?thesis using \<open>d < 16\<close> unat_add_lem [of 48 "word_of_nat d :: u8"] unat_add_lem [of 87 "word_of_nat d :: u8"]
    by (auto simp: digit_char_def)
qed

lemma char_digit_char: "d < 16 \<Longrightarrow> char_digit (digit_char d) = d"
  using unat_digit_char [of d] by (auto simp: char_digit_def word_less_nat_alt split: if_splits)

lemma digit_not_minus: "d < 16 \<Longrightarrow> digit_char d \<noteq> 45"
  using unat_digit_char [of d] by (auto split: if_splits)

lemma digits_val_print: "2 \<le> base \<Longrightarrow> base \<le> 16 \<Longrightarrow> digits_val base (print_digits base x) = x"
proof (induction base x rule: print_digits.induct)
  case (1 base x)
  have "x mod base < base" using 1(2) by simp
  then have d: "char_digit (digit_char (x mod base)) = x mod base"
    using 1(3) by (intro char_digit_char) simp
  show ?case
  proof (cases "x div base = 0")
    case True
    then have "x mod base = x" using 1(2) by (simp add: div_eq_0_iff)
    then show ?thesis using True d by (subst print_digits.simps) simp
  next
    case False
    then show ?thesis using 1 d by (subst print_digits.simps) (simp add: mult.commute)
  qed
qed

lemma print_digits_in: "2 \<le> base \<Longrightarrow> c \<in> set (print_digits base x) \<Longrightarrow> \<exists>d < base. c = digit_char d"
proof (induction base x rule: print_digits.induct)
  case (1 base x)
  have "\<exists>d < base. digit_char (x mod base) = digit_char d" using 1(2) by (intro exI [of _ "x mod base"]) simp
  then show ?case using 1 by (subst (asm) (2) print_digits.simps) (auto split: if_splits)
qed

lemma print_digits_length: "2 \<le> base \<Longrightarrow> x < base ^ Suc k \<Longrightarrow> length (print_digits base x) \<le> Suc k"
proof (induction k arbitrary: x)
  case 0
  then show ?case by (subst print_digits.simps) simp
next
  case (Suc k)
  then have "x div base < base ^ Suc k" by (simp add: less_mult_imp_div_less mult.commute)
  then show ?case using Suc.IH Suc.prems(1) by (subst print_digits.simps) auto
qed

lemma printint_length: "10 \<le> base \<Longrightarrow> length (print_digits base (unat (x :: u32))) \<le> 10"
proof -
  assume b: "10 \<le> base"
  have "unat x < 10 ^ Suc 9" using unat_u32_bound [of x] by simp
  also have "10 ^ Suc 9 \<le> base ^ Suc 9" using b by (rule power_mono) simp
  finally show ?thesis using print_digits_length [of base "unat x" 9] b by simp
qed

text \<open>The unsigned reading of a word and of its negation.\<close>

lemma signed_values:
  fixes x :: u32
  shows "sint x < 0 \<Longrightarrow> int (unat (- x)) = - sint x" "0 \<le> sint x \<Longrightarrow> int (unat x) = sint x" "int (unat x) = uint x"
proof -
  have b: "0 \<le> uint x" "uint x < 4294967296" using uint_lt2p [of x] by simp_all
  have "sint x = (uint x + 2147483648) mod 4294967296 - 2147483648"
    by (simp add: sint_uint signed_take_bit_eq_take_bit_shift take_bit_eq_mod)
  moreover have "(uint x + 2147483648) mod 4294967296 = (if uint x < 2147483648 then uint x + 2147483648 else uint x - 2147483648)"
    using b mod_pos_pos_trivial [of "uint x - 2147483648" 4294967296] by (auto simp: mod_add_self2 [of "uint x - 2147483648", symmetric] add.commute)
  ultimately have s: "sint x = (if uint x < 2147483648 then uint x else uint x - 4294967296)" by auto
  show "int (unat x) = uint x" by simp
  show "0 \<le> sint x \<Longrightarrow> int (unat x) = sint x" using s b by (simp split: if_splits)
  have "uint (- x) = (- uint x) mod 4294967296" by (simp add: uint_word_ariths)
  moreover have "(- uint x) mod 4294967296 = 4294967296 - uint x" if "uint x \<noteq> 0"
    using that b mod_pos_pos_trivial [of "4294967296 - uint x" 4294967296] by (simp add: zmod_zminus1_eq_if)
  ultimately show "sint x < 0 \<Longrightarrow> int (unat (- x)) = - sint x" using s b by (auto split: if_splits)
qed

section \<open>The input buffer\<close>

interpretation con_ring: ring_buffer 128
  by unfold_locales simp_all

text \<open>The lines that can be read and the line that is being edited.\<close>

definition rdy :: "input \<Rightarrow> u8 list" where
  "rdy inp = ring_list INPUT_BUF (in_buf inp) (in_r inp) (in_w inp)"

definition editing :: "input \<Rightarrow> u8 list" where
  "editing inp = ring_list INPUT_BUF (in_buf inp) (in_w inp) (in_e inp)"

definition con_ok :: "input \<Rightarrow> bool" where
  "con_ok inp \<longleftrightarrow> length (rdy inp) + length (editing inp) \<le> 128 \<and> 10 \<notin> set (editing inp)"

definition line_char :: "int \<Rightarrow> u8 list \<times> u8 list \<Rightarrow> u8 list \<times> u8 list" where
  "line_char c st =
    (case st of (rd, ed) \<Rightarrow>
     if c = 16 then (rd, ed)
     else if c = 21 then (rd, [])
     else if c = 8 \<or> c = 127 then (rd, butlast ed)
     else if c \<noteq> 0 \<and> length rd + length ed < 128 then
       let b = (if c = 13 then 10 else word_of_int c)
       in if b = 10 \<or> b = 4 \<or> length rd + length ed = 127 then (rd @ ed @ [b], []) else (rd, ed @ [b])
     else (rd, ed))"

lemma rdy_editing:
  assumes "con_ok inp"
  shows "ring_list INPUT_BUF (in_buf inp) (in_r inp) (in_e inp) = rdy inp @ editing inp"
    "ring_len (in_r inp) (in_e inp) = length (rdy inp) + length (editing inp)"
  using assms ring_list_split [of "in_r inp" "in_w inp" "in_e inp"] ring_len_split [of "in_r inp" "in_w inp" "in_e inp"]
  by (simp_all add: con_ok_def rdy_def editing_def)

lemma kill_line_edit:
  "10 \<notin> set (editing inp) \<Longrightarrow>
    kill_line inp out = (inp\<lparr>in_e := in_w inp\<rparr>, out @ replicate (length (editing inp)) BACKSPACE)"
proof (induction "length (editing inp)" arbitrary: inp out)
  case 0
  then have "in_e inp = in_w inp" using ring_empty_iff [of "in_w inp" "in_e inp"] by (simp add: editing_def)
  then show ?case using 0 by (subst kill_line.simps) (cases inp; simp)
next
  case (Suc n)
  then have ne: "in_w inp \<noteq> in_e inp" using ring_empty_iff [of "in_w inp" "in_e inp"] by (auto simp: editing_def)
  let ?i = "inp\<lparr>in_e := in_e inp - 1\<rparr>"
  have l: "editing inp = editing ?i @ [in_buf inp (unat (in_e inp - 1) mod 128)]"
    using ring_list_last [OF ne] by (simp add: editing_def)
  have "n = length (editing ?i)" using Suc(2) l by simp
  moreover have "10 \<notin> set (editing ?i)" using Suc(3) l by simp
  ultimately have "kill_line ?i (out @ [BACKSPACE]) = (?i\<lparr>in_e := in_w ?i\<rparr>, (out @ [BACKSPACE]) @ replicate (length (editing ?i)) BACKSPACE)"
    by (rule Suc(1))
  moreover have "kill_line inp out = kill_line ?i (out @ [BACKSPACE])"
    using ne Suc(3) l by (subst kill_line.simps) auto
  ultimately show ?case using l by simp
qed

lemma rdy_take:
  assumes "con_ok inp" "in_r inp' = in_r inp" "in_w inp' = in_w inp" "ring_len (in_r inp) (in_e inp') = Suc (ring_len (in_r inp) (in_e inp))"
    and "ring_list INPUT_BUF (in_buf inp') (in_r inp) (in_e inp') = rdy inp @ editing inp @ [b]" "length (rdy inp) + length (editing inp) < 128"
  shows "rdy inp' = rdy inp" "editing inp' = editing inp @ [b]"
proof -
  have m: "ring_len (in_r inp) (in_w inp) = length (rdy inp)" by (simp add: rdy_def)
  have "ring_len (in_w inp) (in_e inp') = Suc (length (editing inp))"
    using ring_len_diff [of "in_r inp" "in_w inp" "in_e inp'"] assms(4) rdy_editing(2) [OF assms(1)] m by linarith
  then have "ring_len (in_r inp) (in_w inp) + ring_len (in_w inp) (in_e inp') < 4294967296"
    using m assms(6) by linarith
  from ring_list_split [OF this, of INPUT_BUF "in_buf inp'"]
  have "rdy inp' @ editing inp' = rdy inp @ editing inp @ [b]"
    unfolding rdy_def [of inp'] editing_def [of inp'] assms(2,3,5) by simp
  moreover have "length (rdy inp') = length (rdy inp)" using assms(2,3) by (simp add: rdy_def)
  ultimately show "rdy inp' = rdy inp" "editing inp' = editing inp @ [b]" by simp_all
qed

lemma editing_empty [simp]: "editing (inp\<lparr>in_e := in_w inp\<rparr>) = []" "editing (inp\<lparr>in_w := in_e inp\<rparr>) = []"
  by (simp_all add: editing_def ring_list_def ring_len_def)

lemma rdy_edit [simp]: "rdy (inp\<lparr>in_e := x\<rparr>) = rdy inp"
  by (simp add: rdy_def)

lemma rdy_commit: "rdy (inp\<lparr>in_w := in_e inp\<rparr>) = ring_list INPUT_BUF (in_buf inp) (in_r inp) (in_e inp)"
  by (simp add: rdy_def)

lemma room_iff: "con_ok inp \<Longrightarrow> in_e inp - in_r inp < 128 \<longleftrightarrow> length (rdy inp) + length (editing inp) < 128"
  using rdy_editing(2) [of inp] by (simp add: ring_len_def word_less_nat_alt)

text \<open>An ordinary character enters the line.\<close>

definition typed :: "u8 \<Rightarrow> input \<Rightarrow> input" where
  "typed b inp = inp\<lparr>in_buf := (in_buf inp)(unat (in_e inp) mod INPUT_BUF := b), in_e := in_e inp + 1\<rparr>"

lemma typed_spec:
  assumes ok: "con_ok inp" and room: "length (rdy inp) + length (editing inp) < 128"
  shows "rdy (typed b inp) = rdy inp" "editing (typed b inp) = editing inp @ [b]"
    "in_e (typed b inp) = in_r (typed b inp) + 128 \<longleftrightarrow> length (rdy inp) + length (editing inp) = 127"
    "rdy ((typed b inp)\<lparr>in_w := in_e (typed b inp)\<rparr>) = rdy inp @ editing inp @ [b]"
proof -
  let ?i = "typed b inp"
  have len: "ring_len (in_r inp) (in_e inp) < 128" using rdy_editing(2) [OF ok] room by simp
  have all: "ring_list INPUT_BUF (in_buf ?i) (in_r inp) (in_e ?i) = rdy inp @ editing inp @ [b]"
    using con_ring.put [OF len, of "in_buf inp" b] rdy_editing(1) [OF ok] by (simp add: typed_def)
  have suc: "ring_len (in_r inp) (in_e ?i) = Suc (ring_len (in_r inp) (in_e inp))"
    using len ring_len_put [of "in_r inp" "in_e inp"] by (simp add: typed_def)
  have same: "in_r ?i = in_r inp" "in_w ?i = in_w inp" by (simp_all add: typed_def)
  show "rdy ?i = rdy inp" "editing ?i = editing inp @ [b]"
    using rdy_take [OF ok same suc all room] by simp_all
  show "in_e ?i = in_r ?i + 128 \<longleftrightarrow> length (rdy inp) + length (editing inp) = 127"
    using ring_full_iff [of 128 "in_e ?i" "in_r inp"] suc rdy_editing(2) [OF ok] same by simp
  show "rdy (?i\<lparr>in_w := in_e ?i\<rparr>) = rdy inp @ editing inp @ [b]"
    using all same by (simp add: rdy_commit)
qed

lemma console_char_default:
  assumes "c \<noteq> 16" "c \<noteq> 21" "c \<noteq> 8" "c \<noteq> 127" "c \<noteq> 0" "in_e inp - in_r inp < 128"
  shows "console_char c inp out =
    (let d = (if c = 13 then 10 else c); t = typed (word_of_int d) inp
     in if d = 10 \<or> d = 4 \<or> in_e t = in_r t + 128 then ((t\<lparr>in_w := in_e t\<rparr>, out @ [d]), True) else ((t, out @ [d]), False))"
  using assms by (simp add: console_char_def typed_def Let_def)

lemma byte_of_char:
  assumes "0 \<le> c" "c < 256"
  shows "word_of_int c = (10 :: u8) \<longleftrightarrow> c = 10" "word_of_int c = (4 :: u8) \<longleftrightarrow> c = 4"
proof -
  have "uint (word_of_int c :: u8) = c" using assms by (simp add: uint_word_of_int)
  then show "word_of_int c = (10 :: u8) \<longleftrightarrow> c = 10" "word_of_int c = (4 :: u8) \<longleftrightarrow> c = 4"
    unfolding word_uint_eq_iff by simp_all
qed

lemma console_char_refines:
  assumes ok: "con_ok inp" and c: "0 \<le> c" "c < 256" and r: "console_char c inp out = ((inp', out'), wake)"
  shows "con_ok inp' \<and> (rdy inp', editing inp') = line_char c (rdy inp, editing inp) \<and>
    (wake \<longleftrightarrow> rdy inp' \<noteq> rdy inp)"
proof -
  have no10: "10 \<notin> set (editing inp)" and le: "length (rdy inp) + length (editing inp) \<le> 128"
    using ok by (auto simp: con_ok_def)
  consider "c = 16" | "c = 21" | "c = 8 \<or> c = 127" | "c = 0" | "c \<notin> {16, 21, 8, 127, 0}" "\<not> in_e inp - in_r inp < 128"
    | (key) "c \<notin> {16, 21, 8, 127, 0}" "in_e inp - in_r inp < 128"
    by blast
  then show ?thesis
  proof cases
    case 3
    show ?thesis
    proof (cases "in_e inp = in_w inp")
      case True
      then have "editing inp = []" by (simp add: editing_def ring_list_def ring_len_def)
      then show ?thesis using 3 r ok True by (auto simp: console_char_def line_char_def)
    next
      case False
      then have "editing inp = editing (inp\<lparr>in_e := in_e inp - 1\<rparr>) @ [in_buf inp (unat (in_e inp - 1) mod 128)]"
        using ring_list_last [of "in_w inp" "in_e inp"] by (simp add: editing_def)
      moreover have "inp' = inp\<lparr>in_e := in_e inp - 1\<rparr>" "\<not> wake" using 3 r False by (auto simp: console_char_def)
      ultimately show ?thesis using 3 no10 le by (auto simp: con_ok_def line_char_def)
    qed
  next
    case key
    have room: "length (rdy inp) + length (editing inp) < 128" using room_iff [OF ok] key(2) by simp
    define d where "d = (if c = 13 then 10 else c)"
    define b :: u8 where "b = word_of_int d"
    note T = typed_spec [OF ok room, of b]
    have d: "0 \<le> d" "d < 256" using c by (auto simp: d_def)
    have b: "b = (if c = 13 then 10 else word_of_int c)" by (simp add: b_def d_def)
    have bd: "b = 10 \<longleftrightarrow> d = 10" "b = 4 \<longleftrightarrow> d = 4" using byte_of_char [OF d] by (auto simp: b_def)
    have R: "(if d = 10 \<or> d = 4 \<or> in_e (typed b inp) = in_r (typed b inp) + 128
        then (((typed b inp)\<lparr>in_w := in_e (typed b inp)\<rparr>, out @ [d]), True) else ((typed b inp, out @ [d]), False))
        = ((inp', out'), wake)"
      using console_char_default [of c inp out] key r by (simp add: Let_def d_def [symmetric] b_def)
    have L: "line_char c (rdy inp, editing inp) =
        (if b = 10 \<or> b = 4 \<or> length (rdy inp) + length (editing inp) = 127
         then (rdy inp @ editing inp @ [b], []) else (rdy inp, editing inp @ [b]))"
      using key room by (simp add: line_char_def Let_def b)
    show ?thesis
      using R unfolding L bd T(3) by (auto simp: con_ok_def T no10 bd split: if_splits) (use room in linarith)+
  qed (use r ok room_iff [OF ok] kill_line_edit [OF no10, of out] le in \<open>auto simp: console_char_def line_char_def con_ok_def\<close>)
qed

section \<open>Reading lines\<close>

text \<open>What a reader gets from the lines that are ready: up to \<open>n\<close> bytes, to the end of the line, or to an
  end-of-file mark, which stays unless it is the first thing read. \<open>None\<close> means that it waits.\<close>

fun line_read :: "nat \<Rightarrow> u8 list \<Rightarrow> u8 list \<Rightarrow> (u8 list \<times> u8 list) option" where
  "line_read 0 acc rd = Some (acc, rd)"
| "line_read (Suc n) acc [] = None"
| "line_read (Suc n) acc (c # rd) =
    (if c = 4 then Some (acc, if acc \<noteq> [] then c # rd else rd)
     else if c = 10 then Some (acc @ [c], rd)
     else line_read n (acc @ [c]) rd)"

lemma rdy_get:
  assumes "in_r inp \<noteq> in_w inp"
  shows "rdy inp = in_buf inp (unat (in_r inp) mod 128) # rdy (inp\<lparr>in_r := in_r inp + 1\<rparr>)"
  using con_ring.get [OF assms, of "in_buf inp"] by (simp add: rdy_def)

lemma consoleread_from_spec:
  assumes "line_read n acc (rdy (console_in s)) = Some (bs, rest)"
  shows "\<exists>inp. consoleread_from n acc s = Inr (RDone bs, s\<lparr>console_in := inp\<rparr>) \<and> rdy inp = rest \<and>
    editing inp = editing (console_in s)"
  using assms
proof (induction n acc s rule: consoleread_from.induct)
  case (1 acc s)
  then show ?case by (intro exI [of _ "console_in s"]) simp
next
  case (2 n acc s)
  have ne: "in_r (console_in s) \<noteq> in_w (console_in s)"
  proof
    assume "in_r (console_in s) = in_w (console_in s)"
    then have "rdy (console_in s) = []" by (simp add: rdy_def ring_list_def ring_len_def)
    then show False using 2(2) by simp
  qed
  define c where "c = in_buf (console_in s) (unat (in_r (console_in s)) mod 128)"
  define s1 where "s1 = s\<lparr>console_in := (console_in s)\<lparr>in_r := in_r (console_in s) + 1\<rparr>\<rparr>"
  have get: "rdy (console_in s) = c # rdy (console_in s1)" using rdy_get [OF ne] by (simp add: c_def s1_def)
  have ed: "editing (console_in s1) = editing (console_in s)" by (simp add: s1_def editing_def)
  consider "c = 4" | "c = 10" | "c \<noteq> 4" "c \<noteq> 10" by blast
  then show ?case
  proof cases
    case 1
    then have "consoleread_from (Suc n) acc s = Inr (RDone acc, if acc \<noteq> [] then s else s1)"
      using ne by (simp add: Let_def c_def [symmetric] s1_def)
    then show ?thesis using 1 2(2) get ed
      by (intro exI [of _ "console_in (if acc \<noteq> [] then s else s1)"]) (auto simp del: consoleread_from.simps simp: s1_def)
  next
    case 2
    then have "consoleread_from (Suc n) acc s = Inr (RDone (acc @ [c]), s1)"
      using ne by (simp add: Let_def c_def [symmetric] s1_def)
    then show ?thesis using 2 \<open>line_read (Suc n) acc (rdy (console_in s)) = Some (bs, rest)\<close> get ed
      by (intro exI [of _ "console_in s1"]) (auto simp del: consoleread_from.simps simp: s1_def)
  next
    case 3
    then have run: "consoleread_from (Suc n) acc s = consoleread_from n (acc @ [c]) s1"
      using ne by (simp add: Let_def c_def [symmetric] s1_def)
    have "line_read n (acc @ [c]) (rdy (console_in s1)) = Some (bs, rest)" using 2(2) 3 get by simp
    from 2(1) [OF ne c_def s1_def 3 this] show ?thesis using run ed
      by (auto simp del: consoleread_from.simps simp: s1_def)
  qed
qed

section \<open>The cursor\<close>

lemma cgaputc_on_screen:
  assumes "cga_pos g < 1920"
  shows "\<exists>g'. cgaputc c g = Inr g' \<and> cga_pos g' < 1920 \<and> (\<forall>i \<ge> 1920. cga_crt g' i = cga_crt g i)"
proof -
  define p where "p = (if c = 10 then cga_pos g + (80 - cga_pos g mod 80) else if c = BACKSPACE then cga_pos g - 1 else cga_pos g + 1)"
  define t where "t = (if c = 10 \<or> c = BACKSPACE then cga_crt g else (cga_crt g)(cga_pos g := (word_of_int c AND 0xff) OR 0x0700))"
  have q: "cga_pos g = 80 * (cga_pos g div 80) + cga_pos g mod 80" by simp
  have "cga_pos g div 80 < 24" using assms by (simp add: div_less_iff_less_mult)
  moreover have "cga_pos g mod 80 < 80" by simp
  ultimately have "cga_pos g + (80 - cga_pos g mod 80) \<le> 1920" using q by linarith
  then have p: "p \<le> 1920" using assms unfolding p_def by auto
  have t: "\<forall>i \<ge> 1920. t i = cga_crt g i" using assms by (auto simp: t_def)
  have e: "cgaputc c g = (if p div 80 \<ge> 24
      then Inr \<lparr>cga_pos = p - 80, cga_crt = (\<lambda>i. if p - 80 \<le> i \<and> i < 1920 then 0 else if i < 23 * 80 then t (i + 80) else t i)(p - 80 := 0x0720)\<rparr>
      else Inr \<lparr>cga_pos = p, cga_crt = t(p := 0x0720)\<rparr>)"
  proof -
    have "(if c = 10 then (cga_pos g + (80 - cga_pos g mod 80), cga_crt g)
        else if c = BACKSPACE then (cga_pos g - 1, cga_crt g)
        else (cga_pos g + 1, (cga_crt g)(cga_pos g := (word_of_int c AND 0xff) OR 0x0700))) = (p, t)"
      by (simp add: p_def t_def)
    then show ?thesis using p unfolding cgaputc_def Let_def by simp
  qed
  show ?thesis
  proof (cases "p div 80 \<ge> 24")
    case True
    then have "p = 1920" using p by (simp add: less_eq_div_iff_mult_less_eq)
    then show ?thesis using True t by (auto simp: e)
  next
    case False
    then have "p < 1920" by (simp add: not_le div_less_iff_less_mult)
    then show ?thesis using False t by (auto simp: e)
  qed
qed

section \<open>Properties\<close>

text \<open>
  Property C21 (the console input is a line editor). On the ring buffer with its wrapping counters, the interrupt
  routine does for every character exactly what the abstract line editor \<open>line_char\<close> does on the pair
  of the lines that can be read and the line being edited: backspace takes back one character of the
  current line, control-U all of it, a newline, an end-of-file mark or a full buffer releases the
  line to the reader and wakes it, and nothing that is not yet read is overwritten. A reader then
  gets what \<open>line_read\<close> says, and leaves the line being edited alone.
\<close>

theorem console_refines:
  assumes "con_ok (console_in s)" "0 \<le> c" "c < 256"
    and "console_char c (console_in s) (console_out s) = ((inp, out), wake)"
  shows "con_ok inp \<and> (rdy inp, editing inp) = line_char c (rdy (console_in s), editing (console_in s)) \<and>
    (wake \<longleftrightarrow> rdy inp \<noteq> rdy (console_in s)) \<and>
    (\<forall>n bs rest. line_read n [] (rdy inp) = Some (bs, rest) \<longrightarrow>
       (\<exists>inp'. consoleread_from n [] (s\<lparr>console_in := inp\<rparr>) = Inr (RDone bs, s\<lparr>console_in := inp'\<rparr>) \<and>
          rdy inp' = rest \<and> editing inp' = editing inp))"
proof -
  have "\<exists>inp'. consoleread_from n [] (s\<lparr>console_in := inp\<rparr>) = Inr (RDone bs, s\<lparr>console_in := inp'\<rparr>) \<and>
      rdy inp' = rest \<and> editing inp' = editing inp" if "line_read n [] (rdy inp) = Some (bs, rest)" for n bs rest
    using consoleread_from_spec [of n "[]" "s\<lparr>console_in := inp\<rparr>" bs rest] that by simp
  then show ?thesis using console_char_refines [OF assms] by blast
qed

text \<open>An empty buffer whose counters are about to wrap around: \<open>a\<close> and a newline arrive.\<close>

definition demo_input :: input where
  "demo_input = \<lparr>in_buf = (\<lambda>_. 0)(127 := 97), in_r = 0xFFFFFFFF, in_w = 0xFFFFFFFF, in_e = 0\<rparr>"

lemma demo_input_abs: "rdy demo_input = []" "editing demo_input = [97]"
  by (simp_all add: rdy_def editing_def demo_input_def ring_list_def ring_len_def)

theorem console_refines_witness:
  "\<exists>inp out. console_char 10 demo_input [] = ((inp, out), True) \<and> rdy inp = [97, 10] \<and> editing inp = []"
proof -
  let ?s = "demo_kernel\<lparr>console_in := demo_input, console_out := []\<rparr>"
  obtain inp out wake where r: "console_char 10 (console_in ?s) (console_out ?s) = ((inp, out), wake)"
    by (metis surj_pair)
  have "con_ok (console_in ?s)" by (simp add: con_ok_def demo_input_abs)
  from console_refines [OF this _ _ r] have "rdy inp = [97, 10]" "editing inp = []" "wake"
    by (simp_all add: demo_input_abs line_char_def)
  then show ?thesis using r by auto
qed

text \<open>
  Property C35 (the cursor stays on the screen). From a cursor in the first 24 rows, printing any character succeeds:
  the panic \<open>pos under/overflow\<close> is not reached, the cursor is again in the first 24 rows, and no
  memory behind those rows is written.
\<close>

theorem cgaputc_bounds:
  assumes "cga_pos g < 24 * 80"
  shows "\<exists>g'. cgaputc c g = Inr g' \<and> cga_pos g' < 24 * 80 \<and> (\<forall>i. 24 * 80 \<le> i \<longrightarrow> cga_crt g' i = cga_crt g i)"
  using cgaputc_on_screen [of g c] assms by auto

theorem cgaputc_bounds_witness:
  "\<exists>g'. cgaputc 65 \<lparr>cga_pos = 1919, cga_crt = \<lambda>_. 7\<rparr> = Inr g' \<and> cga_pos g' < 1920 \<and> cga_crt g' 1920 = 7"
  using cgaputc_bounds [of "\<lparr>cga_pos = 1919, cga_crt = \<lambda>_. 7\<rparr>" 65] by auto

text \<open>
  Property C36 (printed numbers can be read back). In base 10 and 16 \<open>printint\<close> never overflows its buffer of 16
  characters, and reading the text it prints gives the number back: the signed value when a sign
  was asked for, the unsigned value otherwise; this includes the smallest integer, whose negation
  overflows.
\<close>

theorem printint_roundtrip:
  assumes "base = 10 \<or> base = 16"
  shows "\<exists>t. printint xx base sign = Inr t \<and> read_num base t = (if sign then sint xx else uint xx)"
proof -
  define neg where "neg = (sign \<and> sint xx < 0)"
  define x where "x = (if neg then - xx else xx)"
  define ds where "ds = print_digits base (unat x)"
  have b: "2 \<le> base" "base \<le> 16" "10 \<le> base" using assms by auto
  have len: "length ds \<le> 10" unfolding ds_def using b(3) by (rule printint_length)
  have p: "printint xx base sign = Inr (rev (ds @ (if neg then [45] else [])))"
    using len by (simp add: printint_def neg_def [symmetric] x_def [symmetric] ds_def [symmetric] Let_def)
  have v: "digits_val base ds = unat x" unfolding ds_def using b by (simp add: digits_val_print)
  have ne: "ds \<noteq> []" unfolding ds_def by (subst print_digits.simps) simp
  obtain d where "d < base" "last ds = digit_char d"
    using print_digits_in [OF b(1), of "last ds" "unat x"] ne by (auto simp: ds_def)
  then have "last ds \<noteq> 45" using digit_not_minus [of d] b(2) by simp
  then have h: "\<not> neg \<Longrightarrow> read_num base (rev ds) = int (unat x)"
    using v ne by (cases ds rule: rev_cases) (auto simp: read_num_def)
  have "int (unat x) = (if neg then - sint xx else if sign then sint xx else uint xx)"
    using signed_values [of xx] by (auto simp: x_def neg_def)
  moreover have "neg \<Longrightarrow> read_num base (45 # rev ds) = - int (unat x)" using v by (simp add: read_num_def)
  ultimately show ?thesis using p h by (cases neg) (auto simp: neg_def)
qed

theorem printint_roundtrip_witness:
  "\<exists>t. printint 0x80000000 10 True = Inr t \<and> read_num 10 t = - 2147483648"
  using printint_roundtrip [of 10 "0x80000000" True] by simp

end
