(* ===== verification/Trap.thy ===== *)
theory Trap
  imports Syscall Console
begin

text \<open>
  Traps, \<open>trap.c\<close>: the interrupt descriptor table, the dispatch of system calls, interrupts and
  faults, and what happens to a process that has been killed. The characters that the keyboard and
  the serial port deliver, and the effect of a disk interrupt, are arguments.
\<close>

unbundle bit_operations_syntax

definition tvinit :: "(nat \<Rightarrow> u32) \<Rightarrow> nat \<Rightarrow> gatedesc" where
  "tvinit vectors i =
    (if i = 64 then SETGATE True (word_of_nat (8 * SEG_KCODE)) (vectors 64) DPL_USER
     else SETGATE False (word_of_nat (8 * SEG_KCODE)) (vectors i) 0)"

text \<open>How a trap ends: back to the interrupted code, in the scheduler for good, or in the scheduler
  until the process is resumed.\<close>

datatype trap_end = TReturn | TGone | TYield

record devices =
  cpu_is_0 :: bool
  kbd_chars :: "int list"
  uart_chars :: "int list"
  ide_intr :: "kernel \<Rightarrow> unit kres"

definition user_mode :: "trapframe \<Rightarrow> bool" where
  "user_mode tf \<longleftrightarrow> tf_cs tf AND 3 = 3"

definition is_killed :: "kernel \<Rightarrow> bool" where
  "is_killed s = (case curp s of None \<Rightarrow> False | Some p \<Rightarrow> killed (prc p s))"

definition trap_exit :: "conf \<Rightarrow> kernel \<Rightarrow> trap_end kres" where
  "trap_exit C s = bindr (exit C s) (\<lambda>(_, s). Inr (TGone, s))"

definition trap_syscall :: "conf \<Rightarrow> trapframe \<Rightarrow> kernel \<Rightarrow> trap_end kres" where
  "trap_syscall C tf s =
     bindr (myproc s) (\<lambda>p.
     if killed (prc p s) then trap_exit C s
     else
       bindr (syscall C (upd_proc p (\<lambda>q. q\<lparr>p_tf := tf\<rparr>) s)) (\<lambda>(ret, s).
       if \<not> ret then Inr (TYield, s)
       else if is_killed s then trap_exit C s else Inr (TReturn, s)))"

text \<open>The label \<open>pg_fault\<close> in the default branch.\<close>

definition bad_trap :: "trapframe \<Rightarrow> kernel \<Rightarrow> unit kres" where
  "bad_trap tf s =
    (case curp s of
       None \<Rightarrow> Inl (Panic ''trap'')
     | Some p \<Rightarrow>
         if tf_cs tf AND 3 = 0 then Inl (Panic ''trap'')
         else Inr ((), upd_proc p (\<lambda>q. q\<lparr>killed := True\<rparr>) s))"

definition trap_event :: "conf \<Rightarrow> devices \<Rightarrow> u32 \<Rightarrow> trapframe \<Rightarrow> kernel \<Rightarrow> unit kres" where
  "trap_event C V cr2 tf s =
    (if trapno tf = 32 then
       Inr ((), if cpu_is_0 V then wakeup ChTicks (s\<lparr>ticks := ticks s + 1\<rparr>) else s)
     else if trapno tf = 46 then ide_intr V s
     else if trapno tf = 47 then Inr ((), s)
     else if trapno tf = 33 then Inr ((), snd (consoleintr (kbd_chars V) False s))
     else if trapno tf = 36 then Inr ((), snd (consoleintr (uart_chars V) False s))
     else if trapno tf = 39 \<or> trapno tf = 63 then Inr ((), s)
     else if trapno tf = 14 then
       bindr (pgfault C cr2 s) (\<lambda>(ok, s). if ok then Inr ((), s) else bad_trap tf s)
     else bad_trap tf s)"

text \<open>The last test, which a process that yielded makes when it is resumed.\<close>

definition trap_resumed :: "conf \<Rightarrow> trapframe \<Rightarrow> kernel \<Rightarrow> trap_end kres" where
  "trap_resumed C tf s = (if is_killed s \<and> user_mode tf then trap_exit C s else Inr (TReturn, s))"

definition trap :: "conf \<Rightarrow> devices \<Rightarrow> u32 \<Rightarrow> trapframe \<Rightarrow> kernel \<Rightarrow> trap_end kres" where
  "trap C V cr2 tf s =
    (if trapno tf = 64 then trap_syscall C tf s
     else
       bindr (trap_event C V cr2 tf s) (\<lambda>(_, s).
       if is_killed s \<and> user_mode tf then trap_exit C s
       else
         (case curp s of
            Some p \<Rightarrow>
              if p_state (prc p s) = RUNNING \<and> trapno tf = 32
              then bindr (yield s) (\<lambda>(_, s). Inr (TYield, s))
              else trap_resumed C tf s
          | None \<Rightarrow> trap_resumed C tf s)))"

end
