(* ===== verification/Ide.thy ===== *)
theory Ide
  imports Blocks
begin

text \<open>
  Disk buffers (\<open>buf.h\<close>) and the disk drivers: the interrupt-driven queue of requests of \<open>ide.c\<close> and the
  driver of \<open>memide.c\<close> that keeps the disk in memory.

  The buffers are an array of 31 records: the 30 of \<open>bcache.buf\<close> and, at index 30, \<open>bcache.head\<close>; pointers
  to buffers are indices. The drive is part of the state: the contents of its blocks, the command
  it was given last, and, for each block, whether the drive reports an error for it. A command takes effect when
  the drive completes it (\<open>ide_complete\<close>) and raises an interrupt, which \<open>ideintr\<close> handles. The history of
  the contents of the disk is kept in \<open>platters\<close>, oldest first, to speak about a power failure between two writes.

  One process runs at a time: a sleep lock that is held makes \<open>acquiresleep\<close> sleep, and while
  \<open>iderw\<close> sleeps only the drive works, so that the loop around \<open>sleep\<close> is a loop over interrupts. Every
  interrupt takes one request off the queue, of at most 30, so 31 turns are enough.
\<close>

unbundle bit_operations_syntax

section \<open>Buffers and the drive\<close>

abbreviation (input) NBUF :: nat where "NBUF \<equiv> 30"
abbreviation (input) B_VALID :: u32 where "B_VALID \<equiv> 2"
abbreviation (input) B_DIRTY :: u32 where "B_DIRTY \<equiv> 4"
abbreviation (input) FSSIZE :: u32 where "FSSIZE \<equiv> 1000"

record buf =
  b_flags :: u32
  b_dev :: u32
  b_blockno :: u32
  b_lock :: bool
  b_refcnt :: u32
  b_prev :: nat
  b_next :: nat
  b_qnext :: "nat option"
  b_data :: block

type_synonym platter = "u32 \<times> u32 \<Rightarrow> block"   \<comment> \<open>drive and sector\<close>

datatype ide_cmd = ReadCmd "u32 \<times> u32" | WriteCmd "u32 \<times> u32" block

record disks =
  bufs :: "buf list"
  idequeue :: "nat option"
  havedisk1 :: bool
  ide_cmd :: "ide_cmd option"
  ide_data :: block
  ide_fails :: "u32 \<times> u32 \<Rightarrow> bool"
  platters :: "platter list"           \<comment> \<open>the last one is the present contents\<close>

definition bf :: "nat \<Rightarrow> 'a disks_scheme \<Rightarrow> buf" where
  "bf i s = bufs s ! i"

definition upd_buf :: "nat \<Rightarrow> (buf \<Rightarrow> buf) \<Rightarrow> 'a disks_scheme \<Rightarrow> 'a disks_scheme" where
  "upd_buf i f s = s\<lparr>bufs := (bufs s)[i := f (bufs s ! i)]\<rparr>"

definition disk :: "'a disks_scheme \<Rightarrow> platter" where
  "disk s = last (platters s)"

definition disk_write :: "u32 \<times> u32 \<Rightarrow> block \<Rightarrow> 'a disks_scheme \<Rightarrow> 'a disks_scheme" where
  "disk_write a d s = s\<lparr>platters := platters s @ [(disk s)(a := d)]\<rparr>"

section \<open>The IDE driver\<close>

text \<open>The bytes sent to the ports 0x1f3 to 0x1f6, and the drive and sector they select.\<close>

definition ide_ports :: "u32 \<Rightarrow> u32 \<Rightarrow> u8 \<times> u8 \<times> u8 \<times> u8" where
  "ide_ports dev sector =
    (ucast (sector AND 0xff), ucast (drop_bit 8 sector AND 0xff), ucast (drop_bit 16 sector AND 0xff),
     ucast (0xe0 OR push_bit 4 (dev AND 1) OR (drop_bit 24 sector AND 0x0f)))"

definition ide_selected :: "u8 \<times> u8 \<times> u8 \<times> u8 \<Rightarrow> u32 \<times> u32" where
  "ide_selected = (\<lambda>(p3, p4, p5, p6). (ucast (drop_bit 4 p6 AND 1),
     ucast p3 OR push_bit 8 (ucast p4) OR push_bit 16 (ucast p5) OR push_bit 24 (ucast (p6 AND 0x0f))))"

definition idestart :: "nat option \<Rightarrow> 'a disks_scheme \<Rightarrow> (unit \<times> 'a disks_scheme) res" where
  "idestart b s =
    (case b of
       None \<Rightarrow> Inl (Panic ''idestart'')
     | Some b \<Rightarrow>
         if b_blockno (bf b s) \<ge> FSSIZE then Inl (Panic ''incorrect blockno'')
         else
           let sector = b_blockno (bf b s) * 1;
               a = ide_selected (ide_ports (b_dev (bf b s)) sector)
           in Inr ((), s\<lparr>ide_cmd := Some (if b_flags (bf b s) AND B_DIRTY \<noteq> 0
                           then WriteCmd a (b_data (bf b s)) else ReadCmd a)\<rparr>))"

text \<open>The drive carries out its command. A write the drive reports an error for is lost.\<close>

definition ide_complete :: "'a disks_scheme \<Rightarrow> 'a disks_scheme" where
  "ide_complete s =
    (case ide_cmd s of
       None \<Rightarrow> s
     | Some (ReadCmd a) \<Rightarrow> s\<lparr>ide_data := disk s a\<rparr>
     | Some (WriteCmd a d) \<Rightarrow> if ide_fails s a then s else disk_write a d s)"

definition cmd_failed :: "'a disks_scheme \<Rightarrow> bool" where
  "cmd_failed s = (case ide_cmd s of None \<Rightarrow> False | Some (ReadCmd a) \<Rightarrow> ide_fails s a | Some (WriteCmd a d) \<Rightarrow> ide_fails s a)"

definition idewait :: "bool \<Rightarrow> 'a disks_scheme \<Rightarrow> int" where
  "idewait checkerr s = (if checkerr \<and> cmd_failed s then -1 else 0)"

text \<open>Whether a second disk is there: up to 1000 reads of the status port.\<close>

definition ideinit :: "(nat \<Rightarrow> u8) \<Rightarrow> 'a disks_scheme \<Rightarrow> 'a disks_scheme" where
  "ideinit inb s = (if \<exists>i < 1000. inb i \<noteq> 0 then s\<lparr>havedisk1 := True\<rparr> else s)"

definition ideintr :: "'a disks_scheme \<Rightarrow> (unit \<times> 'a disks_scheme) res" where
  "ideintr s =
    (case idequeue s of
       None \<Rightarrow> Inr ((), s)
     | Some b \<Rightarrow>
         let s = s\<lparr>idequeue := b_qnext (bf b s)\<rparr>;
             s = (if b_flags (bf b s) AND B_DIRTY = 0 \<and> idewait True s \<ge> 0
                  then upd_buf b (\<lambda>x. x\<lparr>b_data := ide_data s\<rparr>) s else s);
             s = upd_buf b (\<lambda>x. x\<lparr>b_flags := b_flags x OR B_VALID\<rparr>) s;
             s = upd_buf b (\<lambda>x. x\<lparr>b_flags := b_flags x AND NOT B_DIRTY\<rparr>) s
         in if idequeue s \<noteq> None then idestart (idequeue s) s else Inr ((), s))"

text \<open>Walking to the end of the queue and appending a buffer.\<close>

fun queue_append :: "nat \<Rightarrow> nat \<Rightarrow> nat \<Rightarrow> 'a disks_scheme \<Rightarrow> (unit \<times> 'a disks_scheme) res" where
  "queue_append 0 i b s = Inl Diverge"
| "queue_append (Suc k) i b s =
    (case b_qnext (bf i s) of
       None \<Rightarrow> Inr ((), upd_buf i (\<lambda>x. x\<lparr>b_qnext := Some b\<rparr>) s)
     | Some j \<Rightarrow> queue_append k j b s)"

definition ide_enqueue :: "nat \<Rightarrow> 'a disks_scheme \<Rightarrow> (unit \<times> 'a disks_scheme) res" where
  "ide_enqueue b s =
    (let s = upd_buf b (\<lambda>x. x\<lparr>b_qnext := None\<rparr>) s
     in case idequeue s of
          None \<Rightarrow> Inr ((), s\<lparr>idequeue := Some b\<rparr>)
        | Some i \<Rightarrow> queue_append 31 i b s)"

fun ide_sleep :: "nat \<Rightarrow> nat \<Rightarrow> 'a disks_scheme \<Rightarrow> (unit \<times> 'a disks_scheme) res" where
  "ide_sleep k b s =
    (if b_flags (bf b s) AND (B_VALID OR B_DIRTY) = B_VALID then Inr ((), s)
     else case k of
       0 \<Rightarrow> Inl Diverge
     | Suc k \<Rightarrow> bindr (ideintr (ide_complete s)) (\<lambda>(_, s). ide_sleep k b s))"

definition iderw :: "nat \<Rightarrow> 'a disks_scheme \<Rightarrow> (unit \<times> 'a disks_scheme) res" where
  "iderw b s =
    (if \<not> b_lock (bf b s) then Inl (Panic ''iderw: buf not locked'')
     else if b_flags (bf b s) AND (B_VALID OR B_DIRTY) = B_VALID then Inl (Panic ''iderw: nothing to do'')
     else if b_dev (bf b s) \<noteq> 0 \<and> \<not> havedisk1 s then Inl (Panic ''iderw: ide disk 1 not present'')
     else bindr (ide_enqueue b s) (\<lambda>(_, s).
          bindr (if idequeue s = Some b then idestart (Some b) s else Inr ((), s)) (\<lambda>(_, s).
          ide_sleep 31 b s)))"

section \<open>The driver for a disk in memory\<close>

definition mem_iderw :: "u32 \<Rightarrow> nat \<Rightarrow> 'a disks_scheme \<Rightarrow> (unit \<times> 'a disks_scheme) res" where
  "mem_iderw disksize b s =
    (if \<not> b_lock (bf b s) then Inl (Panic ''iderw: buf not locked'')
     else if b_flags (bf b s) AND (B_VALID OR B_DIRTY) = B_VALID then Inl (Panic ''iderw: nothing to do'')
     else if b_dev (bf b s) \<noteq> 1 then Inl (Panic ''iderw: request not for disk 1'')
     else if b_blockno (bf b s) \<ge> disksize then Inl (Panic ''iderw: block out of range'')
     else
       let s = (if b_flags (bf b s) AND B_DIRTY \<noteq> 0
                then disk_write (1, b_blockno (bf b s)) (b_data (bf b s))
                       (upd_buf b (\<lambda>x. x\<lparr>b_flags := b_flags x AND NOT B_DIRTY\<rparr>) s)
                else upd_buf b (\<lambda>x. x\<lparr>b_data := disk s (1, b_blockno (bf b s))\<rparr>) s)
       in Inr ((), upd_buf b (\<lambda>x. x\<lparr>b_flags := b_flags x OR B_VALID\<rparr>) s))"

section \<open>The address on the ports\<close>

lemma bit_masks [flag_bits]:
  "bit (255 :: u32) n \<longleftrightarrow> n < 8" "bit (15 :: u32) n \<longleftrightarrow> n < 4" "bit (15 :: u8) n \<longleftrightarrow> n < 4" "bit (1 :: u8) n \<longleftrightarrow> n = 0"
  "bit (224 :: u32) n \<longleftrightarrow> 5 \<le> n \<and> n < 8"
proof -
  have m: "(255 :: u32) = mask 8" "(15 :: u32) = mask 4" "(15 :: u8) = mask 4" "(224 :: u32) = push_bit 5 (mask 3)"
    by (simp_all add: mask_eq_exp_minus_1 push_bit_eq_mult)
  show "bit (1 :: u8) n \<longleftrightarrow> n = 0" by (simp add: bit_1_iff)
  show "bit (255 :: u32) n \<longleftrightarrow> n < 8" "bit (15 :: u32) n \<longleftrightarrow> n < 4" "bit (15 :: u8) n \<longleftrightarrow> n < 4"
    "bit (224 :: u32) n \<longleftrightarrow> 5 \<le> n \<and> n < 8"
    unfolding m by (auto simp: bit_mask_iff bit_push_bit_iff possible_bit_word)
qed

lemma ide_selected_ports:
  assumes "sector < 0x10000000"
  shows "ide_selected (ide_ports dev sector) = (dev AND 1, sector)"
proof -
  have "take_bit 28 sector = sector"
    using assms by (simp add: word_unat_eq_iff unsigned_take_bit_eq take_bit_nat_eq_self_iff word_less_nat_alt)
  then have hi: "bit sector n \<Longrightarrow> n < 28" for n by (metis bit_take_bit_iff)
  have "ucast (drop_bit 4 (ucast (0xe0 OR push_bit 4 (dev AND 1) OR (drop_bit 24 sector AND 0x0f)) :: u8) AND 1) = dev AND 1"
    by (rule bit_word_eqI) (auto simp: bit_simps flag_bits dest: hi)
  moreover have "ucast (ucast (sector AND 0xff) :: u8) OR push_bit 8 (ucast (ucast (drop_bit 8 sector AND 0xff) :: u8)) OR
      push_bit 16 (ucast (ucast (drop_bit 16 sector AND 0xff) :: u8)) OR
      push_bit 24 (ucast ((ucast (0xe0 OR push_bit 4 (dev AND 1) OR (drop_bit 24 sector AND 0x0f)) :: u8) AND 0x0f)) = sector"
    (is "?l = _")
  proof (rule bit_word_eqI)
    fix n assume "n < LENGTH(32)"
    then obtain k where k: "k < 8" "n = k \<or> n = 8 + k \<or> n = 16 + k \<or> n = 24 + k" using byte_of_bit [of n] by auto
    have "bit (ucast (sector AND 0xff) :: u8) k = bit sector k"
      "bit (ucast (drop_bit 8 sector AND 0xff) :: u8) k = bit sector (8 + k)"
      "bit (ucast (drop_bit 16 sector AND 0xff) :: u8) k = bit sector (16 + k)"
      "bit ((ucast (0xe0 OR push_bit 4 (dev AND 1) OR (drop_bit 24 sector AND 0x0f)) :: u8) AND 0x0f) k = bit sector (24 + k)"
      unfolding bit_and_iff bit_or_iff bit_unsigned_iff bit_drop_bit_eq bit_push_bit_iff flag_bits
      using k(1) hi [of "24 + k"] by (auto simp: add.commute)
    then show "bit ?l n = bit sector n" using k(2) bit_bytes4 [OF k(1)] by (elim disjE) simp_all
  qed
  ultimately show ?thesis by (simp add: ide_selected_def ide_ports_def)
qed

section \<open>Serving the queue\<close>

definition address :: "nat \<Rightarrow> 'a disks_scheme \<Rightarrow> u32 \<times> u32" where
  "address b s = (b_dev (bf b s) AND 1, b_blockno (bf b s))"

text \<open>What one request asks for: the effect of the driver for a disk in memory, on either drive.\<close>

definition serve :: "nat \<Rightarrow> 'a disks_scheme \<Rightarrow> 'a disks_scheme" where
  "serve b s =
    (let s = (if bit (b_flags (bf b s)) 2 then disk_write (address b s) (b_data (bf b s)) s
              else upd_buf b (\<lambda>x. x\<lparr>b_data := disk s (address b s)\<rparr>) s)
     in upd_buf b (\<lambda>x. x\<lparr>b_flags := (b_flags x OR B_VALID) AND NOT B_DIRTY\<rparr>) s)"

lemma bf_upd: "i < length (bufs s) \<Longrightarrow> bf j (upd_buf i f s) = (if j = i then f (bf i s) else bf j s)"
  by (simp add: bf_def upd_buf_def)

lemma upd_buf_simps [simp]:
  "length (bufs (upd_buf i f s)) = length (bufs s)" "idequeue (upd_buf i f s) = idequeue s" "ide_cmd (upd_buf i f s) = ide_cmd s"
  "ide_data (upd_buf i f s) = ide_data s" "ide_fails (upd_buf i f s) = ide_fails s" "platters (upd_buf i f s) = platters s"
  "havedisk1 (upd_buf i f s) = havedisk1 s" "disk (upd_buf i f s) = disk s"
  by (simp_all add: upd_buf_def disk_def)

lemma disk_write_simps [simp]:
  "bufs (disk_write a d s) = bufs s" "idequeue (disk_write a d s) = idequeue s" "ide_cmd (disk_write a d s) = ide_cmd s"
  "ide_data (disk_write a d s) = ide_data s" "ide_fails (disk_write a d s) = ide_fails s"
  "havedisk1 (disk_write a d s) = havedisk1 s" "bf i (disk_write a d s) = bf i s" "disk (disk_write a d s) = (disk s)(a := d)"
  "platters (disk_write a d s) = platters s @ [(disk s)(a := d)]"
  by (simp_all add: disk_write_def bf_def disk_def)

lemma bf_fields [simp]:
  "bf i (s\<lparr>idequeue := q\<rparr>) = bf i s" "bf i (s\<lparr>ide_cmd := c\<rparr>) = bf i s" "bf i (s\<lparr>ide_data := d\<rparr>) = bf i s"
  "disk (s\<lparr>idequeue := q\<rparr>) = disk s" "disk (s\<lparr>ide_cmd := c\<rparr>) = disk s" "disk (s\<lparr>ide_data := d\<rparr>) = disk s"
  by (simp_all add: bf_def disk_def)

lemma upd_buf_fields:
  "upd_buf i f (s\<lparr>idequeue := q\<rparr>) = (upd_buf i f s)\<lparr>idequeue := q\<rparr>" "upd_buf i f (s\<lparr>ide_data := d\<rparr>) = (upd_buf i f s)\<lparr>ide_data := d\<rparr>"
  "upd_buf i f (disk_write a d s) = disk_write a d (upd_buf i f s)"
  "disk_write a d (s\<lparr>idequeue := q\<rparr>) = (disk_write a d s)\<lparr>idequeue := q\<rparr>"
  by (simp_all add: upd_buf_def disk_write_def disk_def)

lemma upd_buf_twice: "i < length (bufs s) \<Longrightarrow> upd_buf i g (upd_buf i f s) = upd_buf i (\<lambda>x. g (f x)) s"
  by (simp add: upd_buf_def)

text \<open>The state without the queue and the registers of the drive.\<close>

definition unlinked :: "buf \<Rightarrow> buf" where
  "unlinked x = x\<lparr>b_qnext := None\<rparr>"

definition io :: "'a disks_scheme \<Rightarrow> buf list \<times> platter list \<times> bool \<times> (u32 \<times> u32 \<Rightarrow> bool) \<times> 'a" where
  "io s = (map unlinked (bufs s), platters s, havedisk1 s, ide_fails s, disks.more s)"

lemma unlinked_simps [simp]:
  "b_flags (unlinked x) = b_flags x" "b_data (unlinked x) = b_data x" "b_dev (unlinked x) = b_dev x"
  "b_blockno (unlinked x) = b_blockno x" "b_lock (unlinked x) = b_lock x" "b_refcnt (unlinked x) = b_refcnt x"
  "b_next (unlinked x) = b_next x" "b_prev (unlinked x) = b_prev x" "unlinked (x\<lparr>b_qnext := q\<rparr>) = unlinked x"
  "unlinked (x\<lparr>b_data := d\<rparr>) = (unlinked x)\<lparr>b_data := d\<rparr>" "unlinked (x\<lparr>b_flags := f\<rparr>) = (unlinked x)\<lparr>b_flags := f\<rparr>"
  by (simp_all add: unlinked_def)

lemma io_queue [simp]:
  "io (s\<lparr>idequeue := q\<rparr>) = io s" "io (s\<lparr>ide_cmd := c\<rparr>) = io s" "io (s\<lparr>ide_data := d\<rparr>) = io s"
  "io (upd_buf i (\<lambda>x. x\<lparr>b_qnext := q\<rparr>) s) = io s"
proof -
  have "map unlinked (xs[i := (xs ! i)\<lparr>b_qnext := q\<rparr>]) = map unlinked xs" for xs i q
    by (cases "i < length xs") (simp_all add: map_update list_update_same_conv list_update_beyond)
  then show "io (upd_buf i (\<lambda>x. x\<lparr>b_qnext := q\<rparr>) s) = io s" by (simp add: io_def upd_buf_def)
qed (simp_all add: io_def)

lemma io_bufs: "io s = io t \<Longrightarrow> i < length (bufs s) \<Longrightarrow> unlinked (bf i s) = unlinked (bf i t)"
  unfolding io_def bf_def by (metis (no_types) length_map nth_map prod.inject)

lemma io_rest:
  assumes "io s = io t"
  shows "length (bufs s) = length (bufs t)" "platters s = platters t" "disk s = disk t" "havedisk1 s = havedisk1 t" "ide_fails s = ide_fails t"
    "disks.more s = disks.more t"
  using assms by (auto simp: io_def disk_def dest: map_eq_imp_length_eq)

lemma io_fields:
  assumes "io s = io t" "i < length (bufs s)"
  shows "b_flags (bf i s) = b_flags (bf i t)" "b_data (bf i s) = b_data (bf i t)" "address i s = address i t"
    "b_lock (bf i s) = b_lock (bf i t)" "b_dev (bf i s) = b_dev (bf i t)" "b_blockno (bf i s) = b_blockno (bf i t)"
    "b_refcnt (bf i s) = b_refcnt (bf i t)" "b_next (bf i s) = b_next (bf i t)" "b_prev (bf i s) = b_prev (bf i t)"
  using io_bufs [OF assms] by (metis unlinked_simps(1-8) address_def)+

lemma io_upd:
  assumes "io s = io t" "\<And>x. unlinked (f x) = f (unlinked x)"
  shows "io (upd_buf i f s) = io (upd_buf i f t)"
proof (cases "i < length (bufs s)")
  case True
  then show ?thesis
    using assms io_rest [OF assms(1)] io_bufs [OF assms(1) True]
    by (auto simp: io_def upd_buf_def map_update bf_def)
next
  case False
  then show ?thesis using assms(1) io_rest(1) [OF assms(1)] by (simp add: io_def upd_buf_def list_update_beyond)
qed

lemma io_write: "io s = io t \<Longrightarrow> io (disk_write a d s) = io (disk_write a d t)"
  using io_rest(3) [of s t] by (auto simp: io_def disk_write_def)

lemma io_serve:
  assumes "io s = io t" "b < length (bufs s)"
  shows "io (serve b s) = io (serve b t)"
  unfolding serve_def Let_def io_fields(1-3) [OF assms] io_rest(3) [OF assms(1)]
  by (auto intro!: io_upd io_write assms(1))

lemma valid_clean_iff: "(f :: u32) AND 6 = 2 \<longleftrightarrow> bit f 1 \<and> \<not> bit f 2"
proof
  assume "f AND 6 = 2"
  then have "bit (f AND 6) n = bit (2 :: u32) n" for n by simp
  from this [of 1] this [of 2] show "bit f 1 \<and> \<not> bit f 2" by (auto simp: bit_and_iff flag_bits)
next
  assume "bit f 1 \<and> \<not> bit f 2"
  then show "f AND 6 = 2" by (intro bit_word_eqI) (unfold bit_and_iff flag_bits, auto)
qed

text \<open>The request a buffer stands for.\<close>

definition request :: "nat \<Rightarrow> 'a disks_scheme \<Rightarrow> ide_cmd" where
  "request b s = (if bit (b_flags (bf b s)) 2 then WriteCmd (address b s) (b_data (bf b s)) else ReadCmd (address b s))"

lemma idestart_ok:
  assumes "b_blockno (bf b s) < FSSIZE"
  shows "idestart (Some b) s = Inr ((), s\<lparr>ide_cmd := Some (request b s)\<rparr>)"
proof -
  have "b_blockno (bf b s) < 0x10000000" using assms by (simp add: word_less_nat_alt)
  then show ?thesis using assms
    by (auto simp: idestart_def request_def address_def ide_selected_ports flag_bits not_le Let_def)
qed

lemma ideintr_serves:
  assumes q: "idequeue s = Some x" "ide_cmd s = Some (request x s)" and x: "x < length (bufs s)" and ok: "ide_fails s = (\<lambda>_. False)"
    and n: "\<And>n. b_qnext (bf x s) = Some n \<Longrightarrow> b_blockno (bf n s) < FSSIZE"
  shows "\<exists>t. ideintr (ide_complete s) = Inr ((), t) \<and> io t = io (serve x s) \<and> idequeue t = b_qnext (bf x s) \<and>
    (\<forall>j. b_qnext (bf j t) = b_qnext (bf j s)) \<and> (\<forall>n. b_qnext (bf x s) = Some n \<longrightarrow> ide_cmd t = Some (request n t))"
proof -
  let ?F = "\<lambda>s. upd_buf x (\<lambda>x. x\<lparr>b_flags := b_flags x AND NOT B_DIRTY\<rparr>) (upd_buf x (\<lambda>x. x\<lparr>b_flags := b_flags x OR B_VALID\<rparr>) s)"
  let ?c = "ide_complete s"
  define u where "u = (let s = ?c\<lparr>idequeue := b_qnext (bf x s)\<rparr>;
      s = (if bit (b_flags (bf x s)) 2 then s else upd_buf x (\<lambda>x. x\<lparr>b_data := ide_data s\<rparr>) s) in ?F s)"
  have c: "bf j ?c = bf j s" "idequeue ?c = idequeue s" "ide_fails ?c = ide_fails s" "ide_cmd ?c = ide_cmd s" "length (bufs ?c) = length (bufs s)" for j
    by (auto simp: ide_complete_def split: option.splits ide_cmd.splits)
  have "\<not> cmd_failed ?c" using ok q(2) c by (auto simp: cmd_failed_def split: option.splits ide_cmd.splits)
  then have w: "idewait True (?c\<lparr>idequeue := q'\<rparr>) = 0" for q' by (auto simp: idewait_def cmd_failed_def split: option.splits ide_cmd.splits)
  have run: "ideintr ?c = (if idequeue u \<noteq> None then idestart (idequeue u) u else Inr ((), u))"
    unfolding ideintr_def u_def Let_def c(2) q(1) using c w by (auto simp: flag_bits)
  have qn: "b_qnext (bf j u) = b_qnext (bf j s)" "idequeue u = b_qnext (bf x s)" "b_blockno (bf j u) = b_blockno (bf j s)" for j
    using x c unfolding u_def Let_def by (auto simp: bf_upd)
  have "io u = io (serve x s)"
  proof (cases "bit (b_flags (bf x s)) 2")
    case True
    then have "?c = disk_write (address x s) (b_data (bf x s)) s" using q(2) ok by (simp add: ide_complete_def request_def)
    then show ?thesis using True x unfolding u_def serve_def Let_def
      by (simp add: upd_buf_fields upd_buf_twice)
  next
    case False
    then have "?c = s\<lparr>ide_data := disk s (address x s)\<rparr>" using q(2) by (simp add: ide_complete_def request_def)
    then show ?thesis using False x unfolding u_def serve_def Let_def
      by (simp add: upd_buf_fields upd_buf_twice)
  qed
  then show ?thesis
  proof (cases "b_qnext (bf x s)")
    case None
    then show ?thesis using run qn \<open>io u = _\<close> by (intro exI [of _ u]) simp
  next
    case (Some m)
    then have "b_blockno (bf m u) < FSSIZE" using n qn(3) by simp
    then have "ideintr ?c = Inr ((), u\<lparr>ide_cmd := Some (request m u)\<rparr>)" using run qn(2) Some idestart_ok [of m u] by simp
    then show ?thesis using qn \<open>io u = _\<close> Some
      by (intro exI [of _ "u\<lparr>ide_cmd := Some (request m u)\<rparr>"]) (simp add: request_def address_def)
  qed
qed

text \<open>The queue as a list, and a drive at work on its first request.\<close>

fun qpath :: "(nat \<Rightarrow> nat option) \<Rightarrow> nat option \<Rightarrow> nat list \<Rightarrow> bool" where
  "qpath nx q [] \<longleftrightarrow> q = None"
| "qpath nx q (x # xs) \<longleftrightarrow> q = Some x \<and> qpath nx (nx x) xs"

definition at_work :: "'a disks_scheme \<Rightarrow> nat list \<Rightarrow> bool" where
  "at_work s xs \<longleftrightarrow> qpath (\<lambda>j. b_qnext (bf j s)) (idequeue s) xs \<and> distinct xs \<and>
     (\<forall>x \<in> set xs. x < length (bufs s) \<and> b_blockno (bf x s) < FSSIZE) \<and>
     (xs \<noteq> [] \<longrightarrow> ide_cmd s = Some (request (hd xs) s)) \<and> ide_fails s = (\<lambda>_. False)"

lemma qpath_cong: "(\<And>x. x \<in> set xs \<Longrightarrow> f x = g x) \<Longrightarrow> qpath f q xs = qpath g q xs"
  by (induction xs arbitrary: q) auto

lemma serve_bf:
  assumes "b < length (bufs s)"
  shows "j \<noteq> b \<Longrightarrow> bf j (serve b s) = bf j s" "bit (b_flags (bf b (serve b s))) 1" "\<not> bit (b_flags (bf b (serve b s))) 2"
    "length (bufs (serve b s)) = length (bufs s)" "b_blockno (bf j (serve b s)) = b_blockno (bf j s)"
    "ide_fails (serve b s) = ide_fails s" "address j (serve b s) = address j s"
  using assms by (auto simp: serve_def Let_def bf_upd address_def) (auto simp: bit_and_iff bit_or_iff flag_bits)

lemma at_work_serve:
  assumes A: "at_work s (x # xs)"
  shows "\<exists>t. ideintr (ide_complete s) = Inr ((), t) \<and> io t = io (serve x s) \<and> at_work t xs"
proof -
  have x: "x < length (bufs s)" "idequeue s = Some x" "ide_cmd s = Some (request x s)" "ide_fails s = (\<lambda>_. False)"
    and q: "qpath (\<lambda>j. b_qnext (bf j s)) (b_qnext (bf x s)) xs" and xs: "\<forall>y \<in> set xs. y < length (bufs s) \<and> b_blockno (bf y s) < FSSIZE" "distinct xs"
    using A by (auto simp: at_work_def)
  have "b_blockno (bf n s) < FSSIZE" if "b_qnext (bf x s) = Some n" for n using that q xs(1) by (cases xs) auto
  then obtain t where t: "ideintr (ide_complete s) = Inr ((), t)" "io t = io (serve x s)" "idequeue t = b_qnext (bf x s)"
    "\<forall>j. b_qnext (bf j t) = b_qnext (bf j s)" "\<forall>n. b_qnext (bf x s) = Some n \<longrightarrow> ide_cmd t = Some (request n t)"
    using ideintr_serves [OF x(2,3,1,4)] by blast
  have "xs \<noteq> [] \<longrightarrow> b_qnext (bf x s) = Some (hd xs)" using q by (cases xs) auto
  moreover have "y < length (bufs t) \<and> b_blockno (bf y t) < FSSIZE" if "y \<in> set xs" for y
    using that xs(1) io_rest(1) [OF t(2)] io_fields(6) [OF t(2), of y] serve_bf [OF x(1)] by simp
  ultimately have "at_work t xs"
    using t(3-5) q xs(2) io_rest(5) [OF t(2)] serve_bf(6) [OF x(1)] x(4) unfolding at_work_def by simp
  then show ?thesis using t(1,2) by blast
qed

lemma io_fold_serve:
  assumes "io s = io t" "\<forall>x \<in> set xs. x < length (bufs s)"
  shows "io (fold serve xs s) = io (fold serve xs t)"
  using assms
proof (induction xs arbitrary: s t)
  case (Cons x xs)
  then have "io (serve x s) = io (serve x t)" by (simp add: io_serve)
  then show ?case using Cons serve_bf(4) [of x s] by simp
qed simp

lemma ide_sleep_serves:
  assumes "at_work s (xs @ [b])" "length xs < k" "b_flags (bf b s) AND 6 \<noteq> 2"
  shows "\<exists>t. ide_sleep k b s = Inr ((), t) \<and> io t = io (fold serve (xs @ [b]) s) \<and> at_work t []"
  using assms
proof (induction xs arbitrary: s k)
  case Nil
  then obtain k' where k: "k = Suc k'" by (cases k) auto
  obtain t where t: "ideintr (ide_complete s) = Inr ((), t)" "io t = io (serve b s)" "at_work t []"
    using at_work_serve [of s b "[]"] Nil by auto
  have b: "b < length (bufs s)" using Nil by (simp add: at_work_def)
  have "b_flags (bf b t) AND 6 = 2"
    using io_fields(1) [OF t(2)] io_rest(1) [OF t(2)] b serve_bf(2-4) [OF b] by (simp add: valid_clean_iff)
  then show ?case using t Nil k by simp
next
  case (Cons x xs)
  then obtain k' where k: "k = Suc k'" "length xs < k'" by (cases k) auto
  obtain t where t: "ideintr (ide_complete s) = Inr ((), t)" "io t = io (serve x s)" "at_work t (xs @ [b])"
    using at_work_serve [of s x "xs @ [b]"] Cons.prems by auto
  have x: "x < length (bufs s)" "b < length (bufs s)" "b \<noteq> x" "\<forall>y \<in> set xs. y < length (bufs s)"
    using Cons.prems(1) by (auto simp: at_work_def)
  have "b_flags (bf b t) AND 6 \<noteq> 2"
    using io_fields(1) [OF t(2), of b] io_rest(1) [OF t(2)] x serve_bf [OF x(1)] Cons.prems(3) by simp
  from Cons.IH [OF t(3) k(2) this] obtain u where u: "ide_sleep k' b t = Inr ((), u)"
    "io u = io (fold serve (xs @ [b]) t)" "at_work u []" by blast
  have "io (fold serve (xs @ [b]) t) = io (fold serve (xs @ [b]) (serve x s))"
    by (rule io_fold_serve) (use t(2) io_rest(1) [OF t(2)] x serve_bf(4) [OF x(1)] in auto)
  then show ?case using u t(1) k(1) Cons.prems(3) by simp
qed

text \<open>Joining the queue.\<close>

lemma queue_append_ok:
  assumes "qpath (\<lambda>j. b_qnext (bf j s)) (Some i) xs" "length xs \<le> k"
  shows "queue_append k i b s = Inr ((), upd_buf (last xs) (\<lambda>x. x\<lparr>b_qnext := Some b\<rparr>) s)"
  using assms
proof (induction xs arbitrary: i k)
  case (Cons x xs)
  then obtain k' where k: "k = Suc k'" by (cases k) auto
  show ?case
  proof (cases xs)
    case Nil
    then show ?thesis using Cons.prems k by simp
  next
    case (Cons y ys)
    then show ?thesis using Cons.prems Cons.IH [of y k'] k by simp
  qed
qed simp

lemma qpath_snoc:
  assumes "qpath nx q xs" "distinct xs" "b \<notin> set xs" "nx b = None" "xs \<noteq> []"
  shows "qpath (nx(last xs := Some b)) q (xs @ [b])"
  using assms
proof (induction xs arbitrary: q)
  case (Cons x xs)
  show ?case
  proof (cases xs)
    case Nil
    then show ?thesis using Cons.prems by auto
  next
    case (Cons y ys)
    have "last xs \<noteq> x" using Cons.prems(2) Cons by (metis distinct.simps(2) last_in_set list.distinct(1))
    then show ?thesis using Cons.prems Cons.IH [of "nx x"] Cons by simp
  qed
qed simp

lemma ide_enqueue_ok:
  assumes A: "at_work s xs" and b: "b < length (bufs s)" "b \<notin> set xs" "b_blockno (bf b s) < FSSIZE" and n: "length xs \<le> 31"
  shows "\<exists>t. ide_enqueue b s = Inr ((), t) \<and> io t = io s \<and> idequeue t = Some (hd (xs @ [b])) \<and>
    (xs \<noteq> [] \<longrightarrow> at_work t (xs @ [b])) \<and> (xs = [] \<longrightarrow> at_work (t\<lparr>ide_cmd := Some (request b t)\<rparr>) [b])"
proof -
  let ?s = "upd_buf b (\<lambda>x. x\<lparr>b_qnext := None\<rparr>) s"
  have A': "qpath (\<lambda>j. b_qnext (bf j s)) (idequeue s) xs" "distinct xs" "\<forall>x \<in> set xs. x < length (bufs s) \<and> b_blockno (bf x s) < FSSIZE"
    "ide_fails s = (\<lambda>_. False)" using A by (auto simp: at_work_def)
  have q: "qpath (\<lambda>j. b_qnext (bf j ?s)) (idequeue s) xs"
    using A'(1) b by (subst qpath_cong [where g = "\<lambda>j. b_qnext (bf j s)"]) (auto simp: bf_upd)
  show ?thesis
  proof (cases xs)
    case Nil
    then have "idequeue s = None" using A'(1) by simp
    then have "ide_enqueue b s = Inr ((), ?s\<lparr>idequeue := Some b\<rparr>)" by (simp add: ide_enqueue_def)
    moreover have "at_work (?s\<lparr>idequeue := Some b, ide_cmd := Some (request b (?s\<lparr>idequeue := Some b\<rparr>))\<rparr>) [b]"
      using b A'(4) by (auto simp: at_work_def bf_upd request_def address_def)
    ultimately show ?thesis using Nil by (intro exI [of _ "?s\<lparr>idequeue := Some b\<rparr>"]) auto
  next
    case (Cons x ys)
    then have ne: "xs \<noteq> []" and x: "idequeue s = Some x" using A'(1) by auto
    define t where "t = upd_buf (last xs) (\<lambda>x. x\<lparr>b_qnext := Some b\<rparr>) ?s"
    have l: "last xs < length (bufs s)" "last xs \<noteq> b" using ne A'(3) b(2) by auto
    have run: "ide_enqueue b s = Inr ((), t)"
      using queue_append_ok [of ?s x xs 31 b] q x n by (simp add: ide_enqueue_def t_def Let_def)
    have "(\<lambda>j. b_qnext (bf j t)) = (\<lambda>j. b_qnext (bf j ?s))(last xs := Some b)"
      using l b(1) by (auto simp: t_def bf_upd fun_eq_iff)
    then have "qpath (\<lambda>j. b_qnext (bf j t)) (idequeue t) (xs @ [b])"
      using qpath_snoc [OF q A'(2) b(2) _ ne] b(1) by (simp add: t_def bf_upd)
    moreover have i: "io t = io s" by (simp add: t_def)
    moreover have "request j t = request j s" for j
      using l b(1) by (auto simp: t_def bf_upd request_def address_def)
    moreover have "b_blockno (bf j t) = b_blockno (bf j s)" for j using l b(1) by (auto simp: t_def bf_upd)
    ultimately have "at_work t (xs @ [b])"
      using A A' b ne io_rest(1,5) [OF i] by (auto simp: at_work_def t_def)
    then show ?thesis using run i ne x Cons by (intro exI [of _ t]) (simp add: t_def)
  qed
qed

lemma iderw_serves:
  assumes A: "at_work s xs" and b: "b < length (bufs s)" "b \<notin> set xs" "b_blockno (bf b s) < FSSIZE" and n: "length xs < 31"
    and l: "b_lock (bf b s)" "b_flags (bf b s) AND 6 \<noteq> 2" "b_dev (bf b s) = 0 \<or> havedisk1 s"
  shows "\<exists>t. iderw b s = Inr ((), t) \<and> io t = io (fold serve (xs @ [b]) s) \<and> at_work t []"
proof -
  obtain t where t: "ide_enqueue b s = Inr ((), t)" "io t = io s" "idequeue t = Some (hd (xs @ [b]))"
    "xs \<noteq> [] \<longrightarrow> at_work t (xs @ [b])" "xs = [] \<longrightarrow> at_work (t\<lparr>ide_cmd := Some (request b t)\<rparr>) [b]"
    using ide_enqueue_ok [OF A b] n by auto
  have bt: "b < length (bufs t)" using io_rest(1) [OF t(2)] b(1) by simp
  define u where "u = (if idequeue t = Some b then t\<lparr>ide_cmd := Some (request b t)\<rparr> else t)"
  have "hd (xs @ [b]) = b \<longleftrightarrow> xs = []" using b(2) by (cases xs) auto
  then have u: "at_work u (xs @ [b])" using t(3-5) by (auto simp: u_def)
  have iu: "io u = io s" using t(2) by (simp add: u_def)
  have "b_blockno (bf b t) < FSSIZE" using io_fields(6) [OF t(2) bt] b(3) by simp
  then have st: "(if idequeue t = Some b then idestart (Some b) t else Inr ((), t)) = Inr ((), u)"
    using idestart_ok [of b t] by (simp add: u_def)
  have "b_flags (bf b u) AND 6 \<noteq> 2" using io_fields(1) [OF iu] io_rest(1) [OF iu] b(1) l(2) by simp
  from ide_sleep_serves [OF u n this] obtain v where v: "ide_sleep 31 b u = Inr ((), v)"
    "io v = io (fold serve (xs @ [b]) u)" "at_work v []" by blast
  have "io (fold serve (xs @ [b]) u) = io (fold serve (xs @ [b]) s)"
    by (rule io_fold_serve [OF iu]) (use u in \<open>auto simp: at_work_def\<close>)
  moreover have "iderw b s = Inr ((), v)" using l t(1) st v(1) by (auto simp: iderw_def simp del: ide_sleep.simps)
  ultimately show ?thesis using v by auto
qed

text \<open>The driver for a disk in memory does just what a request asks for.\<close>

lemma mem_iderw_serves:
  assumes "b < length (bufs s)" "b_lock (bf b s)" "b_flags (bf b s) AND 6 \<noteq> 2" "b_dev (bf b s) = 1" "b_blockno (bf b s) < FSSIZE"
  shows "mem_iderw FSSIZE b s = Inr ((), serve b s)"
proof -
  have f: "(f AND - 5) OR 2 = (f OR 2) AND - 5" for f :: u32
    by (rule bit_word_eqI) (auto simp: bit_and_iff bit_or_iff flag_bits)
  have f': "f OR 2 = (f OR 2) AND NOT 4" if "\<not> bit f 2" for f :: u32
    using that by (intro bit_word_eqI) (auto simp: bit_and_iff bit_or_iff bit_NOT_u32 flag_bits)
  have "upd_buf b (\<lambda>x. x\<lparr>b_flags := b_flags x OR 2\<rparr>) (upd_buf b (\<lambda>x. x\<lparr>b_data := d\<rparr>) s) =
      upd_buf b (\<lambda>x. x\<lparr>b_flags := (b_flags x OR 2) AND NOT 4\<rparr>) (upd_buf b (\<lambda>x. x\<lparr>b_data := d\<rparr>) s)"
    if "\<not> bit (b_flags (bf b s)) 2" for d
    using assms(1) f' [OF that] unfolding upd_buf_twice [OF assms(1)] by (simp add: upd_buf_def bf_def)
  then show ?thesis
    using assms by (auto simp: mem_iderw_def serve_def Let_def flag_bits address_def upd_buf_fields upd_buf_twice f not_le)
qed

fun mem_all :: "nat list \<Rightarrow> 'a disks_scheme \<Rightarrow> (unit \<times> 'a disks_scheme) res" where
  "mem_all [] s = Inr ((), s)"
| "mem_all (b # bs) s = bindr (mem_iderw FSSIZE b s) (\<lambda>(_, s). mem_all bs s)"

definition pending :: "nat \<Rightarrow> 'a disks_scheme \<Rightarrow> bool" where
  "pending b s \<longleftrightarrow> b < length (bufs s) \<and> b_lock (bf b s) \<and> b_flags (bf b s) AND 6 \<noteq> 2 \<and> b_dev (bf b s) = 1 \<and> b_blockno (bf b s) < FSSIZE"

lemma mem_all_serves:
  assumes "distinct bs" "\<forall>b \<in> set bs. pending b s"
  shows "mem_all bs s = Inr ((), fold serve bs s)"
  using assms
proof (induction bs arbitrary: s)
  case (Cons b bs)
  then have b: "b < length (bufs s)" and m: "mem_iderw FSSIZE b s = Inr ((), serve b s)"
    by (auto simp: pending_def intro!: mem_iderw_serves)
  have "pending c (serve b s)" if "c \<in> set bs" for c
  proof -
    have "bf c (serve b s) = bf c s" using that Cons.prems(1) serve_bf(1) [OF b, of c] by auto
    then show ?thesis using that Cons.prems(2) serve_bf(4) [OF b] by (simp add: pending_def)
  qed
  then show ?case using Cons m by simp
qed simp

section \<open>Properties\<close>

text \<open>
  Property C24 (the queue of the disk driver). With any requests \<open>xs\<close> in the queue of a drive that works without errors, \<open>iderw\<close>
  of another pending buffer returns, without a panic, after as many interrupts as there are requests. The
  buffers and the disk, write by write, are then as if the driver for a disk in memory had served all
  the requests one after the other in the order of the queue, and the queue is empty.
\<close>

theorem iderw_fifo:
  assumes "at_work s xs" "b \<notin> set xs" "\<forall>x \<in> set (xs @ [b]). pending x s" "length (bufs s) = 31" "havedisk1 s"
  shows "\<exists>t u. iderw b s = Inr ((), t) \<and> mem_all (xs @ [b]) s = Inr ((), u) \<and> io t = io u \<and> idequeue t = None"
proof -
  have d: "distinct xs" "set xs \<subseteq> {..<31} - {b}" "b < 31" using assms(1-4) by (auto simp: at_work_def pending_def)
  then have "card (set xs) \<le> card ({..<31 :: nat} - {b})" by (intro card_mono) auto
  then have "length xs < 31" using d by (simp add: distinct_card)
  then obtain t where "iderw b s = Inr ((), t)" "io t = io (fold serve (xs @ [b]) s)" "at_work t []"
    using iderw_serves [OF assms(1) _ assms(2)] assms(3,5) by (auto simp: pending_def)
  moreover have "mem_all (xs @ [b]) s = Inr ((), fold serve (xs @ [b]) s)"
    by (rule mem_all_serves) (use assms d in auto)
  ultimately show ?thesis by (auto simp: at_work_def)
qed

definition demo_buf :: buf where
  "demo_buf = \<lparr>b_flags = 0, b_dev = 0, b_blockno = 0, b_lock = False, b_refcnt = 0, b_prev = 30, b_next = 30, b_qnext = None,
     b_data = \<lambda>_. 0\<rparr>"

text \<open>Buffer 3 is being written to block 70 when block 71 is to be read into buffer 5.\<close>

definition demo_disks :: disks where
  "demo_disks = \<lparr>bufs = (replicate 31 demo_buf)
       [3 := demo_buf\<lparr>b_flags := 6, b_dev := 1, b_blockno := 70, b_lock := True, b_data := \<lambda>_. 9\<rparr>,
        5 := demo_buf\<lparr>b_dev := 1, b_blockno := 71, b_lock := True\<rparr>],
     idequeue = Some 3, havedisk1 = True, ide_cmd = Some (WriteCmd (1, 70) (\<lambda>_. 9)), ide_data = \<lambda>_. 0, ide_fails = \<lambda>_. False,
     platters = [\<lambda>(d, b) i. ucast b]\<rparr>"

theorem iderw_fifo_witness:
  "\<exists>t u. iderw 5 demo_disks = Inr ((), t) \<and> mem_all [3, 5] demo_disks = Inr ((), u) \<and> io t = io u"
proof -
  have b: "bf 3 demo_disks = demo_buf\<lparr>b_flags := 6, b_dev := 1, b_blockno := 70, b_lock := True, b_data := \<lambda>_. 9\<rparr>"
    "bf 5 demo_disks = demo_buf\<lparr>b_dev := 1, b_blockno := 71, b_lock := True\<rparr>" by (simp_all add: bf_def demo_disks_def)
  have l: "length (bufs demo_disks) = 31" "havedisk1 demo_disks" "idequeue demo_disks = Some 3" "ide_fails demo_disks = (\<lambda>_. False)"
    "ide_cmd demo_disks = Some (WriteCmd (1, 70) (\<lambda>_. 9))" by (simp_all add: demo_disks_def)
  have "request 3 demo_disks = WriteCmd (1, 70) (\<lambda>_. 9)" by (simp add: request_def address_def b demo_buf_def flag_bits)
  then have "at_work demo_disks [3]" using l b by (simp add: at_work_def demo_buf_def)
  moreover have "pending 3 demo_disks" "pending 5 demo_disks" using l b by (simp_all add: pending_def demo_buf_def)
  ultimately show ?thesis using iderw_fifo [of demo_disks "[3]" 5] l by auto
qed

text \<open>
  Property C38 (a failed read goes unnoticed). When the drive reports an error for a read, \<open>iderw\<close> still returns normally and
  the buffer is marked valid, with the bytes it happened to hold before.
\<close>

theorem ide_read_error:
  assumes "idequeue s = None" "b < length (bufs s)" "b_lock (bf b s)" "\<not> bit (b_flags (bf b s)) 1" "\<not> bit (b_flags (bf b s)) 2"
    "b_dev (bf b s) = 0 \<or> havedisk1 s" "b_blockno (bf b s) < FSSIZE" "ide_fails s (address b s)"
  shows "\<exists>t. iderw b s = Inr ((), t) \<and> b_data (bf b t) = b_data (bf b s) \<and> bit (b_flags (bf b t)) 1"
proof -
  define u where "u = (upd_buf b (\<lambda>x. x\<lparr>b_qnext := None\<rparr>) s)\<lparr>idequeue := Some b\<rparr>"
  have bu: "bf b u = (bf b s)\<lparr>b_qnext := None\<rparr>" "b < length (bufs u)" "ide_fails u = ide_fails s" "idequeue u = Some b"
    using assms(2) by (simp_all add: u_def bf_upd)
  have enq: "ide_enqueue b s = Inr ((), u)" using assms(1) by (simp add: ide_enqueue_def u_def)
  define v where "v = u\<lparr>ide_cmd := Some (request b u)\<rparr>"
  have st: "idestart (Some b) u = Inr ((), v)" using idestart_ok [of b u] bu(1) assms(7) by (simp add: v_def)
  have r: "request b u = ReadCmd (address b s)" using bu(1) assms(5) by (simp add: request_def address_def)
  define w where "w = upd_buf b (\<lambda>x. x\<lparr>b_flags := (b_flags x OR 2) AND NOT 4\<rparr>) ((ide_complete v)\<lparr>idequeue := None\<rparr>)"
  have c: "ide_complete v = v\<lparr>ide_data := disk v (address b s)\<rparr>" using r by (simp add: ide_complete_def v_def)
  have f: "cmd_failed ((ide_complete v)\<lparr>idequeue := None\<rparr>)" using assms(8) bu(3) r unfolding c by (simp add: cmd_failed_def v_def)
  have intr: "ideintr (ide_complete v) = Inr ((), w)"
    using bu assms(5) f unfolding ideintr_def c w_def
    by (simp add: v_def idewait_def flag_bits Let_def upd_buf_twice)
  have bw: "bf b w = (bf b u)\<lparr>b_flags := (b_flags (bf b s) OR 2) AND NOT 4\<rparr>"
    using bu(1,2) unfolding w_def c by (simp add: v_def bf_upd)
  have "b_flags (bf b v) AND 6 \<noteq> 2" "b_flags (bf b w) AND 6 = 2"
    using bu(1) bw assms(4) unfolding valid_clean_iff by (auto simp: v_def bit_and_iff bit_or_iff bit_NOT_u32 flag_bits)
  then have "ide_sleep 31 b v = Inr ((), w)" using intr by (simp add: numeral_eq_Suc)
  moreover have "b_flags (bf b s) AND 6 \<noteq> 2" using assms(4) by (simp add: valid_clean_iff)
  ultimately have "iderw b s = Inr ((), w)"
    using assms(3,6) enq st bu(4) by (auto simp: iderw_def simp del: ide_sleep.simps)
  then show ?thesis using bw bu(1) by (intro exI [of _ w]) (simp add: bit_and_iff bit_or_iff bit_NOT_u32 flag_bits)
qed

theorem ide_read_error_witness:
  "\<exists>t. iderw 5 (demo_disks\<lparr>idequeue := None, ide_fails := \<lambda>_. True\<rparr>) = Inr ((), t) \<and> bit (b_flags (bf 5 t)) 1"
  using ide_read_error [of "demo_disks\<lparr>idequeue := None, ide_fails := \<lambda>_. True\<rparr>" 5]
  by (auto simp: demo_disks_def bf_def demo_buf_def address_def)

end
