(* ===== verification/Bio.thy ===== *)
theory Bio
  imports Ide
begin

text \<open>
  The buffer cache (\<open>bio.c\<close>). The buffers form a circular doubly linked list through \<open>bcache.head\<close> (index
  30), the most recently used first; \<open>lru s xs\<close> says that the list is the sequence \<open>xs\<close>. A scan of the list has
  31 steps of fuel, one more than there are buffers.

  The contents of the cache are abstracted to a \<open>store\<close>: what the disk holds, what a reader sees, which blocks
  are held by the running process and which are dirty, and the history of the disk. The lemmas at the end say
  what \<open>bread\<close>, \<open>bwrite\<close> and \<open>brelse\<close> do to this store; the interface \<open>block_store\<close> collects them for the log.
\<close>

unbundle bit_operations_syntax

section \<open>Operations\<close>

abbreviation (input) bhead :: nat where "bhead \<equiv> 30"

definition lru_unlink :: "nat \<Rightarrow> 'a disks_scheme \<Rightarrow> 'a disks_scheme" where
  "lru_unlink b s =
    (let s = upd_buf (b_next (bf b s)) (\<lambda>x. x\<lparr>b_prev := b_prev (bf b s)\<rparr>) s
     in upd_buf (b_prev (bf b s)) (\<lambda>x. x\<lparr>b_next := b_next (bf b s)\<rparr>) s)"

definition lru_front :: "nat \<Rightarrow> 'a disks_scheme \<Rightarrow> 'a disks_scheme" where
  "lru_front b s =
    (let s = upd_buf b (\<lambda>x. x\<lparr>b_next := b_next (bf bhead s)\<rparr>) s;
         s = upd_buf b (\<lambda>x. x\<lparr>b_prev := bhead\<rparr>) s;
         s = upd_buf (b_next (bf bhead s)) (\<lambda>x. x\<lparr>b_prev := b\<rparr>) s
     in upd_buf bhead (\<lambda>x. x\<lparr>b_next := b\<rparr>) s)"

definition binit :: "'a disks_scheme \<Rightarrow> 'a disks_scheme" where
  "binit s =
     fold (\<lambda>b s. lru_front b (upd_buf b (\<lambda>x. x\<lparr>b_lock := False\<rparr>) s)) [0..<NBUF]
       (upd_buf bhead (\<lambda>x. x\<lparr>b_prev := bhead, b_next := bhead\<rparr>) s)"

fun scan_next :: "nat \<Rightarrow> (buf \<Rightarrow> bool) \<Rightarrow> nat \<Rightarrow> 'a disks_scheme \<Rightarrow> nat option res" where
  "scan_next 0 P i s = Inl Diverge"
| "scan_next (Suc k) P i s =
    (if i = bhead then Inr None else if P (bf i s) then Inr (Some i) else scan_next k P (b_next (bf i s)) s)"

fun scan_prev :: "nat \<Rightarrow> (buf \<Rightarrow> bool) \<Rightarrow> nat \<Rightarrow> 'a disks_scheme \<Rightarrow> nat option res" where
  "scan_prev 0 P i s = Inl Diverge"
| "scan_prev (Suc k) P i s =
    (if i = bhead then Inr None else if P (bf i s) then Inr (Some i) else scan_prev k P (b_prev (bf i s)) s)"

definition buf_acquiresleep :: "nat \<Rightarrow> 'a disks_scheme \<Rightarrow> (unit \<times> 'a disks_scheme) res" where
  "buf_acquiresleep b s =
    (if b_lock (bf b s) then Inl (Sleeps ''buffer'') else Inr ((), upd_buf b (\<lambda>x. x\<lparr>b_lock := True\<rparr>) s))"

definition bget :: "u32 \<Rightarrow> u32 \<Rightarrow> 'a disks_scheme \<Rightarrow> (nat \<times> 'a disks_scheme) res" where
  "bget dev blockno s =
     bindr (scan_next 31 (\<lambda>x. b_dev x = dev \<and> b_blockno x = blockno) (b_next (bf bhead s)) s) (\<lambda>hit.
     case hit of
       Some b \<Rightarrow>
         let s = upd_buf b (\<lambda>x. x\<lparr>b_refcnt := b_refcnt x + 1\<rparr>) s
         in bindr (buf_acquiresleep b s) (\<lambda>(_, s). Inr (b, s))
     | None \<Rightarrow>
         bindr (scan_prev 31 (\<lambda>x. b_refcnt x = 0 \<and> b_flags x AND B_DIRTY = 0) (b_prev (bf bhead s)) s) (\<lambda>free.
         case free of
           Some b \<Rightarrow>
             let s = upd_buf b (\<lambda>x. x\<lparr>b_dev := dev, b_blockno := blockno, b_flags := 0, b_refcnt := 1\<rparr>) s
             in bindr (buf_acquiresleep b s) (\<lambda>(_, s). Inr (b, s))
         | None \<Rightarrow> Inl (Panic ''bget: no buffers'')))"

definition bread :: "u32 \<Rightarrow> u32 \<Rightarrow> 'a disks_scheme \<Rightarrow> (nat \<times> 'a disks_scheme) res" where
  "bread dev blockno s =
     bindr (bget dev blockno s) (\<lambda>(b, s).
     if b_flags (bf b s) AND B_VALID = 0 then bindr (iderw b s) (\<lambda>(_, s). Inr (b, s)) else Inr (b, s))"

definition bwrite :: "nat \<Rightarrow> 'a disks_scheme \<Rightarrow> (unit \<times> 'a disks_scheme) res" where
  "bwrite b s =
    (if \<not> b_lock (bf b s) then Inl (Panic ''bwrite'')
     else iderw b (upd_buf b (\<lambda>x. x\<lparr>b_flags := b_flags x OR B_DIRTY\<rparr>) s))"

definition brelse :: "nat \<Rightarrow> 'a disks_scheme \<Rightarrow> (unit \<times> 'a disks_scheme) res" where
  "brelse b s =
    (if \<not> b_lock (bf b s) then Inl (Panic ''brelse'')
     else
       let s = upd_buf b (\<lambda>x. x\<lparr>b_lock := False\<rparr>) s;
           s = upd_buf b (\<lambda>x. x\<lparr>b_refcnt := b_refcnt x - 1\<rparr>) s
       in Inr ((), if b_refcnt (bf b s) = 0 then lru_front b (lru_unlink b s) else s))"

section \<open>The circular list\<close>

fun linked :: "(nat \<Rightarrow> nat) \<Rightarrow> (nat \<Rightarrow> nat) \<Rightarrow> nat list \<Rightarrow> bool" where
  "linked nx pv (a # b # r) \<longleftrightarrow> nx a = b \<and> pv b = a \<and> linked nx pv (b # r)"
| "linked nx pv r \<longleftrightarrow> True"

definition lru :: "'a disks_scheme \<Rightarrow> nat list \<Rightarrow> bool" where
  "lru s xs \<longleftrightarrow> length (bufs s) = 31 \<and> distinct xs \<and> set xs = {..<30} \<and>
     linked (\<lambda>i. b_next (bf i s)) (\<lambda>i. b_prev (bf i s)) (bhead # xs @ [bhead])"

lemma linked_append:
  "linked nx pv (xs @ a # ys) \<longleftrightarrow> linked nx pv (xs @ [a]) \<and> linked nx pv (a # ys)"
proof (induction xs)
  case (Cons x xs)
  then show ?case by (cases xs) auto
qed simp

lemma linked_cong:
  assumes "\<And>x. x \<in> set (butlast xs) \<Longrightarrow> nx x = nx' x" "\<And>x. x \<in> set (tl xs) \<Longrightarrow> pv x = pv' x"
  shows "linked nx pv xs = linked nx' pv' xs"
  using assms
proof (induction nx pv xs rule: linked.induct)
  case (1 nx pv a b r)
  then show ?case by (cases r) auto
qed auto

text \<open>Joining two pieces.\<close>

lemma linked_join:
  assumes "linked nx pv (A @ [p])" "linked nx pv (n # C)" "p \<notin> set A" "p \<notin> set (butlast (n # C))"
    "n \<notin> set (tl (A @ [p]))" "n \<notin> set C"
  shows "linked (nx(p := n)) (pv(n := p)) (A @ p # n # C)"
proof -
  have "linked (nx(p := n)) (pv(n := p)) (A @ [p]) = linked nx pv (A @ [p])"
    by (rule linked_cong) (use assms(3,5) in auto)
  moreover have "linked (nx(p := n)) (pv(n := p)) (n # C) = linked nx pv (n # C)"
    by (rule linked_cong) (use assms(4,6) in auto)
  ultimately show ?thesis using assms(1,2) by (subst linked_append) simp
qed

lemma linked_neighbours:
  assumes "linked nx pv (h # as @ b # cs @ [h])"
  shows "nx b = hd (cs @ [h])" "pv b = last (h # as)"
proof -
  obtain A p where A: "h # as = A @ [p]" by (metis rev_exhaust list.discI)
  have "linked nx pv ((h # as) @ b # (cs @ [h]))" using assms by simp
  then have "linked nx pv (A @ p # b # (cs @ [h]))" unfolding A by simp
  then have "linked nx pv (p # b # (cs @ [h]))" by (subst (asm) linked_append) simp
  then show "nx b = hd (cs @ [h])" "pv b = last (h # as)" unfolding A by (cases cs; simp)+
qed

text \<open>Taking an element out of a cycle, and putting one behind the head.\<close>

lemma linked_remove:
  assumes "linked nx pv (h # as @ b # cs @ [h])" "distinct (as @ b # cs)" "h \<notin> set (as @ b # cs)"
  shows "linked (nx(pv b := nx b)) (pv(nx b := pv b)) (h # as @ cs @ [h])"
proof -
  obtain A p where A: "h # as = A @ [p]" by (metis rev_exhaust list.discI)
  obtain n C where C: "cs @ [h] = n # C" by (cases cs) auto
  have e: "h # as @ b # cs @ [h] = A @ p # b # n # C" "h # as @ cs @ [h] = A @ p # n # C"
  proof -
    have "h # as @ b # cs @ [h] = (h # as) @ b # (cs @ [h])" "h # as @ cs @ [h] = (h # as) @ (cs @ [h])" by simp_all
    then show "h # as @ b # cs @ [h] = A @ p # b # n # C" "h # as @ cs @ [h] = A @ p # n # C" unfolding A C by simp_all
  qed
  have "linked nx pv (A @ p # b # n # C)" using assms(1) unfolding e .
  then have "linked nx pv (A @ [p])" "linked nx pv (n # C)" "pv b = p" "nx b = n"
    by (subst (asm) linked_append, simp)+
  have L: "set (A @ [p]) = insert h (set as)" "distinct (A @ [p])" "set (tl (A @ [p])) = set as"
    using assms(2,3) unfolding A [symmetric] by auto
  have R: "distinct (n # C)" "set (butlast (n # C)) = set cs" "set (n # C) = insert h (set cs)"
    using assms(2,3) unfolding C [symmetric] by auto
  have "p \<in> insert h (set as)" "n \<in> insert h (set cs)" unfolding L(1) [symmetric] R(3) [symmetric] by simp_all
  then have "p \<notin> set cs" "n \<notin> set as" using assms(2,3) by auto
  then have "linked (nx(p := n)) (pv(n := p)) (A @ p # n # C)"
    by (intro linked_join) (use \<open>linked nx pv (A @ [p])\<close> \<open>linked nx pv (n # C)\<close> L R in simp_all)
  then show ?thesis using \<open>pv b = p\<close> \<open>nx b = n\<close> unfolding e by simp
qed

lemma linked_front:
  assumes "linked nx pv (h # xs @ [h])" "distinct xs" "h \<notin> set xs" "b \<notin> set xs" "b \<noteq> h"
  shows "linked (nx(b := nx h, h := b)) (pv(b := h, nx h := b)) (h # b # xs @ [h])"
proof -
  obtain n C where C: "xs @ [h] = n # C" by (cases xs) auto
  have n: "nx h = n" "linked nx pv (n # C)" using assms(1) unfolding C by simp_all
  have "distinct (n # C)" "set (butlast (n # C)) = set xs" "set (n # C) = insert h (set xs)"
    using assms(2,3) unfolding C [symmetric] by auto
  then have "linked (nx(b := n)) (pv(n := b)) ([] @ b # n # C)"
    using assms(4,5) n(2) by (intro linked_join) auto
  moreover have "linked (nx(b := n, h := b)) (pv(b := h, n := b)) (b # n # C) = linked (nx(b := n)) (pv(n := b)) (b # n # C)"
    using \<open>set (butlast (n # C)) = set xs\<close> \<open>set (n # C) = insert h (set xs)\<close> assms(3,4,5) by (intro linked_cong) auto
  moreover have "n \<noteq> b" using \<open>set (n # C) = insert h (set xs)\<close> assms(4,5) by auto
  ultimately show ?thesis unfolding C n(1) by (simp add: assms(5))
qed

text \<open>The links after the list operations; the other fields of the buffers stay.\<close>

definition core :: "buf \<Rightarrow> buf" where
  "core x = x\<lparr>b_prev := 0, b_next := 0, b_qnext := None\<rparr>"

lemma core_simps [simp]:
  "b_flags (core x) = b_flags x" "b_dev (core x) = b_dev x" "b_blockno (core x) = b_blockno x" "b_lock (core x) = b_lock x"
  "b_refcnt (core x) = b_refcnt x" "b_data (core x) = b_data x" "core (x\<lparr>b_prev := i\<rparr>) = core x" "core (x\<lparr>b_next := i\<rparr>) = core x"
  "core (x\<lparr>b_lock := l\<rparr>) = (core x)\<lparr>b_lock := l\<rparr>"
  by (simp_all add: core_def)

definition cycle :: "'a disks_scheme \<Rightarrow> nat list \<Rightarrow> bool" where
  "cycle s xs \<longleftrightarrow> length (bufs s) = 31 \<and> distinct xs \<and> set xs \<subseteq> {..<30} \<and>
     linked (\<lambda>i. b_next (bf i s)) (\<lambda>i. b_prev (bf i s)) (bhead # xs @ [bhead])"

lemma lru_cycle: "lru s xs \<longleftrightarrow> cycle s xs \<and> set xs = {..<30}"
  by (auto simp: lru_def cycle_def)

lemma links_rest:
  "disks.more (lru_front b s) = disks.more s" "platters (lru_front b s) = platters s" "idequeue (lru_front b s) = idequeue s"
  "ide_fails (lru_front b s) = ide_fails s" "havedisk1 (lru_front b s) = havedisk1 s"
  "disks.more (lru_unlink b s) = disks.more s" "platters (lru_unlink b s) = platters s" "idequeue (lru_unlink b s) = idequeue s"
  "ide_fails (lru_unlink b s) = ide_fails s" "havedisk1 (lru_unlink b s) = havedisk1 s"
  by (simp_all add: lru_front_def lru_unlink_def upd_buf_def Let_def)

lemma cycle_front:
  assumes C: "cycle s xs" and b: "b < 30" "b \<notin> set xs"
  shows "cycle (lru_front b s) (b # xs)" "core (bf i (lru_front b s)) = core (bf i s)"
proof -
  let ?nx = "\<lambda>i. b_next (bf i s)" and ?pv = "\<lambda>i. b_prev (bf i s)" and ?t = "lru_front b s"
  have len: "length (bufs s) = 31" and d: "distinct xs" "\<And>x. x \<in> set xs \<Longrightarrow> x < 30"
    and l: "linked ?nx ?pv (bhead # xs @ [bhead])" using C by (auto simp: cycle_def)
  have h: "bhead \<notin> set xs" using d(2) by blast
  have "?nx bhead = hd (xs @ [bhead])" using l by (cases xs) simp_all
  then have "?nx bhead \<in> set (xs @ [bhead])" by (simp add: hd_append)
  then have n: "?nx bhead < 31" "?nx bhead \<noteq> b" using d(2) [of "?nx bhead"] b by auto
  have t: "b_next (bf i ?t) = (?nx(b := ?nx bhead, bhead := b)) i" "b_prev (bf i ?t) = (?pv(b := bhead, ?nx bhead := b)) i"
    "core (bf i ?t) = core (bf i s)" "length (bufs ?t) = 31" for i
    using n b(1) len by (auto simp: lru_front_def Let_def bf_upd)
  have "linked (?nx(b := ?nx bhead, bhead := b)) (?pv(b := bhead, ?nx bhead := b)) (bhead # b # xs @ [bhead])"
    using linked_front [OF l d(1) h b(2)] b(1) by simp
  moreover have "(\<lambda>i. b_next (bf i ?t)) = ?nx(b := ?nx bhead, bhead := b)" "(\<lambda>i. b_prev (bf i ?t)) = ?pv(b := bhead, ?nx bhead := b)"
    by (rule ext, rule t)+
  ultimately have "linked (\<lambda>i. b_next (bf i ?t)) (\<lambda>i. b_prev (bf i ?t)) (bhead # (b # xs) @ [bhead])"
    by (simp only: append_Cons)
  then show "cycle ?t (b # xs)" using t(4) d b by (auto simp: cycle_def)
  show "core (bf i ?t) = core (bf i s)" by (rule t(3))
qed

lemma cycle_unlink:
  assumes C: "cycle s (as @ b # cs)"
  shows "cycle (lru_unlink b s) (as @ cs)" "core (bf i (lru_unlink b s)) = core (bf i s)"
proof -
  let ?nx = "\<lambda>i. b_next (bf i s)" and ?pv = "\<lambda>i. b_prev (bf i s)" and ?u = "lru_unlink b s"
  have len: "length (bufs s) = 31" and d: "distinct (as @ b # cs)" "\<And>x. x \<in> set (as @ b # cs) \<Longrightarrow> x < 30"
    and l: "linked ?nx ?pv (bhead # as @ b # cs @ [bhead])" using C by (auto simp: cycle_def)
  have b: "b < 30" by (rule d(2)) simp
  have h: "bhead \<notin> set (as @ b # cs)" using d(2) by blast
  have nin: "?nx b \<in> set (cs @ [bhead])" "?pv b \<in> set (bhead # as)"
    using linked_neighbours [OF l] by (simp_all add: hd_append)
  have ns: "b \<notin> set as" "b \<notin> set cs" using d(1) by simp_all
  have nb: "?nx b < 31" "?pv b < 31" using nin d(2) [of "?nx b"] d(2) [of "?pv b"] by auto
  have ne: "?nx b \<noteq> b" "?pv b \<noteq> b" using nin ns b by auto
  have u: "b_next (bf i ?u) = (?nx(?pv b := ?nx b)) i" "b_prev (bf i ?u) = (?pv(?nx b := ?pv b)) i" "core (bf i ?u) = core (bf i s)"
    "length (bufs ?u) = 31" for i
    using nb ne len b by (auto simp: lru_unlink_def Let_def bf_upd)
  have "(\<lambda>i. b_next (bf i ?u)) = ?nx(?pv b := ?nx b)" "(\<lambda>i. b_prev (bf i ?u)) = ?pv(?nx b := ?pv b)"
    by (rule ext, rule u)+
  then have "linked (\<lambda>i. b_next (bf i ?u)) (\<lambda>i. b_prev (bf i ?u)) (bhead # (as @ cs) @ [bhead])"
    using linked_remove [OF l d(1) h] by (simp only: append_assoc)
  moreover have "set (as @ cs) \<subseteq> {..<30}" using d(2) by auto
  ultimately show "cycle ?u (as @ cs)" using u(4) d(1) by (simp add: cycle_def)
  show "core (bf i ?u) = core (bf i s)" by (rule u(3))
qed

text \<open>The most recently released buffer comes first.\<close>

lemma lru_moves_front:
  assumes L: "lru s (as @ b # cs)"
  shows "lru (lru_front b (lru_unlink b s)) (b # as @ cs)" "core (bf i (lru_front b (lru_unlink b s))) = core (bf i s)"
proof -
  have c: "cycle s (as @ b # cs)" and e: "set (as @ b # cs) = {..<30}" using L by (simp_all add: lru_cycle)
  have "b \<in> {..<30}" unfolding e [symmetric] by simp
  then have b: "b < 30" "b \<notin> set (as @ cs)" using c by (auto simp: cycle_def)
  note F = cycle_front [OF cycle_unlink(1) [OF c] b]
  show "lru (lru_front b (lru_unlink b s)) (b # as @ cs)" using F(1) e by (simp add: lru_cycle)
  show "core (bf i (lru_front b (lru_unlink b s))) = core (bf i s)" using F(2) cycle_unlink(2) [OF c] by simp
qed

lemma cycle_upd:
  assumes "cycle s xs" "\<And>x. b_next (f x) = b_next x" "\<And>x. b_prev (f x) = b_prev x"
  shows "cycle (upd_buf i f s) xs"
proof -
  have "b_next (bf j (upd_buf i f s)) = b_next (bf j s)" "b_prev (bf j (upd_buf i f s)) = b_prev (bf j s)" for j
    using assms(2,3) by (cases "i < length (bufs s)"; simp add: bf_upd; simp add: upd_buf_def bf_def list_update_beyond)+
  then show ?thesis using assms(1) by (simp add: cycle_def)
qed

text \<open>Initialisation links all the buffers.\<close>

lemma binit_lru:
  assumes "length (bufs s) = 31"
  shows "lru (binit s) (rev [0..<30])"
    "i < 30 \<Longrightarrow> core (bf i (binit s)) = (core (bf i s))\<lparr>b_lock := False\<rparr>"
proof -
  let ?f = "\<lambda>b s. lru_front b (upd_buf b (\<lambda>x. x\<lparr>b_lock := False\<rparr>) s)"
  let ?s = "upd_buf bhead (\<lambda>x. x\<lparr>b_prev := bhead, b_next := bhead\<rparr>) s"
  have "cycle (fold ?f [0..<n] ?s) (rev [0..<n]) \<and>
    (\<forall>i < 30. core (bf i (fold ?f [0..<n] ?s)) = (if i < n then (core (bf i s))\<lparr>b_lock := False\<rparr> else core (bf i s)))" if "n \<le> 30" for n
    using that
  proof (induction n)
    case 0
    then show ?case using assms by (simp add: cycle_def bf_upd)
  next
    case (Suc n)
    let ?t = "fold ?f [0..<n] ?s"
    have c: "cycle ?t (rev [0..<n])" and i: "\<And>i. i < 30 \<Longrightarrow> core (bf i ?t) = (if i < n then (core (bf i s))\<lparr>b_lock := False\<rparr> else core (bf i s))"
      using Suc by simp_all
    have "cycle (upd_buf n (\<lambda>x. x\<lparr>b_lock := False\<rparr>) ?t) (rev [0..<n])" by (rule cycle_upd [OF c]) simp_all
    note F = cycle_front [OF this, of n]
    have "length (bufs ?t) = 31" using c by (simp add: cycle_def)
    then have "core (bf j (?f n ?t)) = (if j < Suc n then (core (bf j s))\<lparr>b_lock := False\<rparr> else core (bf j s))" if "j < 30" for j
      using F(2) [of j] i [OF that] Suc.prems by (auto simp: bf_upd)
    then show ?case using F(1) Suc.prems by simp
  qed
  from this [of 30] show "lru (binit s) (rev [0..<30])"
    "i < 30 \<Longrightarrow> core (bf i (binit s)) = (core (bf i s))\<lparr>b_lock := False\<rparr>"
    unfolding binit_def lru_cycle by auto
qed

text \<open>The scans look at the buffers in the order of the list and in the opposite order.\<close>

lemma scan_next_linked:
  assumes "linked (\<lambda>i. b_next (bf i s)) pv (a # xs @ [bhead])" "bhead \<notin> set xs" "length xs < k"
  shows "scan_next k P (b_next (bf a s)) s = Inr (find (\<lambda>i. P (bf i s)) xs)"
  using assms
proof (induction xs arbitrary: a k)
  case Nil
  then obtain k' where "k = Suc k'" by (cases k) auto
  then show ?case using Nil by simp
next
  case (Cons x xs)
  then obtain k' where "k = Suc k'" by (cases k) auto
  then show ?case using Cons.prems Cons.IH [of x k'] by auto
qed

lemma scan_prev_linked:
  assumes "linked nx (\<lambda>i. b_prev (bf i s)) (bhead # xs @ [a])" "bhead \<notin> set xs" "length xs < k"
  shows "scan_prev k P (b_prev (bf a s)) s = Inr (find (\<lambda>i. P (bf i s)) (rev xs))"
  using assms
proof (induction xs arbitrary: a k rule: rev_induct)
  case Nil
  then obtain k' where "k = Suc k'" by (cases k) auto
  then show ?case using Nil by simp
next
  case (snoc x xs)
  then obtain k' where k: "k = Suc k'" by (cases k) auto
  have "linked nx (\<lambda>i. b_prev (bf i s)) ((bhead # xs) @ x # [a])" using snoc.prems(1) by simp
  then have "linked nx (\<lambda>i. b_prev (bf i s)) ((bhead # xs) @ [x])" "b_prev (bf a s) = x" by (subst (asm) linked_append, simp)+
  then show ?case using snoc.prems(2,3) snoc.IH [of x k'] k by auto
qed

lemma lru_scans:
  assumes "lru s xs"
  shows "scan_next 31 P (b_next (bf bhead s)) s = Inr (find (\<lambda>i. P (bf i s)) xs)"
    "scan_prev 31 P (b_prev (bf bhead s)) s = Inr (find (\<lambda>i. P (bf i s)) (rev xs))"
proof -
  have l: "linked (\<lambda>i. b_next (bf i s)) (\<lambda>i. b_prev (bf i s)) (bhead # xs @ [bhead])" and d: "distinct xs" "set xs = {..<30}"
    using assms by (simp_all add: lru_def)
  have "length xs = card {..<30 :: nat}" using d distinct_card by metis
  then have n: "length xs < 31" by simp
  have h: "bhead \<notin> set xs" unfolding d(2) by simp
  show "scan_next 31 P (b_next (bf bhead s)) s = Inr (find (\<lambda>i. P (bf i s)) xs)"
    by (rule scan_next_linked [OF l h n])
  show "scan_prev 31 P (b_prev (bf bhead s)) s = Inr (find (\<lambda>i. P (bf i s)) (rev xs))"
    by (rule scan_prev_linked [OF l h n])
qed

section \<open>The invariant of the cache\<close>

text \<open>All blocks are on the root device. A buffer in use is valid and referenced only by its holder; no block is in two
  buffers; a buffer that is neither held nor dirty agrees with the disk.\<close>

definition bkey :: "buf \<Rightarrow> u32 option" where
  "bkey x = (if b_dev x = ROOTDEV then Some (b_blockno x) else None)"

lemma bkey_Some: "bkey x = Some b \<longleftrightarrow> b_dev x = ROOTDEV \<and> b_blockno x = b"
  by (simp add: bkey_def)

definition dirty :: "buf \<Rightarrow> bool" where
  "dirty x = bit (b_flags x) 2"

definition buf_ok :: "buf \<Rightarrow> bool" where
  "buf_ok x \<longleftrightarrow> b_dev x = ROOTDEV \<and> b_blockno x < FSSIZE \<and> bit (b_flags x) 1 \<and> b_refcnt x = (if b_lock x then 1 else 0) \<or>
     b_dev x = 0 \<and> b_flags x = 0 \<and> b_refcnt x = 0 \<and> \<not> b_lock x"

definition cache_ok :: "'a disks_scheme \<Rightarrow> bool" where
  "cache_ok s \<longleftrightarrow> (\<exists>xs. lru s xs) \<and> idequeue s = None \<and> ide_fails s = (\<lambda>_. False) \<and> havedisk1 s \<and> platters s \<noteq> [] \<and>
     (\<forall>i < 30. buf_ok (bf i s)) \<and>
     (\<forall>i < 30. \<forall>j < 30. bkey (bf i s) \<noteq> None \<and> bkey (bf i s) = bkey (bf j s) \<longrightarrow> i = j) \<and>
     (\<forall>i < 30. \<forall>b. bkey (bf i s) = Some b \<and> \<not> b_lock (bf i s) \<and> \<not> dirty (bf i s) \<longrightarrow> b_data (bf i s) = disk s (ROOTDEV, b))"

text \<open>What the rest of the kernel can see of the cache.\<close>

definition slot :: "'a disks_scheme \<Rightarrow> u32 \<Rightarrow> nat option" where
  "slot s b = find (\<lambda>i. bkey (bf i s) = Some b) [0..<30]"

record store =
  st_view :: "u32 \<Rightarrow> block"      \<comment> \<open>what \<open>bread\<close> returns\<close>
  st_held :: "u32 set"            \<comment> \<open>blocks whose buffer is locked\<close>
  st_dirty :: "u32 set"
  st_hist :: "platter list"

definition view :: "'a disks_scheme \<Rightarrow> u32 \<Rightarrow> block" where
  "view s b = (case slot s b of Some i \<Rightarrow> b_data (bf i s) | None \<Rightarrow> disk s (ROOTDEV, b))"

definition held :: "'a disks_scheme \<Rightarrow> u32 set" where
  "held s = {b. \<exists>i < 30. bkey (bf i s) = Some b \<and> b_lock (bf i s)}"

definition dirties :: "'a disks_scheme \<Rightarrow> u32 set" where
  "dirties s = {b. \<exists>i < 30. bkey (bf i s) = Some b \<and> dirty (bf i s)}"

definition store_of :: "'a disks_scheme \<Rightarrow> store" where
  "store_of s = \<lparr>st_view = view s, st_held = held s, st_dirty = dirties s, st_hist = platters s\<rparr>"

lemma slot_SomeD: "slot s b = Some i \<Longrightarrow> i < 30 \<and> bkey (bf i s) = Some b"
  by (auto simp: slot_def find_Some_iff)

lemma slot_NoneD: "slot s b = None \<Longrightarrow> i < 30 \<Longrightarrow> bkey (bf i s) \<noteq> Some b"
  by (auto simp: slot_def find_None_iff)

lemma cache_okD:
  assumes "cache_ok s"
  shows "\<exists>xs. lru s xs" "at_work s []" "havedisk1 s" "platters s \<noteq> []" "i < 30 \<Longrightarrow> buf_ok (bf i s)"
    "i < 30 \<Longrightarrow> j < 30 \<Longrightarrow> bkey (bf i s) = Some b \<Longrightarrow> bkey (bf j s) = Some b \<Longrightarrow> i = j"
    "i < 30 \<Longrightarrow> bkey (bf i s) = Some b \<Longrightarrow> \<not> b_lock (bf i s) \<Longrightarrow> \<not> dirty (bf i s) \<Longrightarrow> b_data (bf i s) = disk s (ROOTDEV, b)"
    "length (bufs s) = 31"
  using assms by (auto simp: cache_ok_def at_work_def lru_def)

lemma slot_iff:
  assumes "cache_ok s" "i < 30"
  shows "slot s b = Some i \<longleftrightarrow> bkey (bf i s) = Some b"
  using cache_okD(6) [OF assms(1)] assms(2) slot_SomeD [of s b] slot_NoneD [of s b i] by (cases "slot s b") auto

lemma core_keys: "core x = core y \<Longrightarrow> bkey x = bkey y \<and> dirty x = dirty y \<and> buf_ok x = buf_ok y \<and> b_lock x = b_lock y \<and> b_data x = b_data y"
proof -
  assume e: "core x = core y"
  have "b_flags x = b_flags y" "b_dev x = b_dev y" "b_blockno x = b_blockno y" "b_lock x = b_lock y" "b_refcnt x = b_refcnt y"
    "b_data x = b_data y"
    using arg_cong [OF e, of b_flags] arg_cong [OF e, of b_dev] arg_cong [OF e, of b_blockno] arg_cong [OF e, of b_lock]
      arg_cong [OF e, of b_refcnt] arg_cong [OF e, of b_data] by simp_all
  then show ?thesis by (simp add: bkey_def dirty_def buf_ok_def)
qed

text \<open>A change of one buffer, which may be given to another block if it was neither held nor dirty.\<close>

lemma cache_step:
  assumes C: "cache_ok s" and i: "i < 30" and o: "\<And>j. j < 30 \<Longrightarrow> j \<noteq> i \<Longrightarrow> core (bf j t) = core (bf j s)"
    and t: "lru t ys" "at_work t []" "havedisk1 t" "platters t \<noteq> []" "\<And>b. b \<noteq> c \<Longrightarrow> disk t (ROOTDEV, b) = disk s (ROOTDEV, b)"
    and k: "bkey (bf i t) = Some c" "buf_ok (bf i t)" "\<And>j. j < 30 \<Longrightarrow> j \<noteq> i \<Longrightarrow> bkey (bf j s) \<noteq> Some c"
    and cl: "\<not> b_lock (bf i t) \<Longrightarrow> \<not> dirty (bf i t) \<Longrightarrow> b_data (bf i t) = disk t (ROOTDEV, c)"
    and old: "bkey (bf i s) \<noteq> Some c \<Longrightarrow> \<not> b_lock (bf i s) \<and> \<not> dirty (bf i s)"
  shows "cache_ok t" "slot t c = Some i" "view t = (view s)(c := b_data (bf i t))"
    "held t = (if b_lock (bf i t) then insert c (held s) else held s - {c})"
    "dirties t = (if dirty (bf i t) then insert c (dirties s) else dirties s - {c})"
    "b \<in> held s \<Longrightarrow> b \<noteq> c \<Longrightarrow> slot t b = slot s b"
proof -
  have O: "bkey (bf j t) = bkey (bf j s)" "dirty (bf j t) = dirty (bf j s)" "buf_ok (bf j t) = buf_ok (bf j s)"
    "b_lock (bf j t) = b_lock (bf j s)" "b_data (bf j t) = b_data (bf j s)" if "j < 30" "j \<noteq> i" for j
    using core_keys [OF o [OF that]] by auto
  have ne: "bkey (bf j s) = Some b \<Longrightarrow> b \<noteq> c" if "j < 30" "j \<noteq> i" for j b using k(3) [OF that] by auto
  show ok: "cache_ok t"
    unfolding cache_ok_def
  proof (intro conjI allI impI)
    show "\<exists>xs. lru t xs" using t(1) by blast
    show "idequeue t = None" "ide_fails t = (\<lambda>_. False)" using t(2) by (auto simp: at_work_def)
    show "havedisk1 t" "platters t \<noteq> []" using t by simp_all
    show "buf_ok (bf j t)" if "j < 30" for j using that k(2) O(3) cache_okD(5) [OF C] by (cases "j = i") auto
    show "j = l" if "j < 30" "l < 30" "bkey (bf j t) \<noteq> None \<and> bkey (bf j t) = bkey (bf l t)" for j l
      using that O(1) [of j] O(1) [of l] k(1) k(3) [of j] k(3) [of l] cache_okD(6) [OF C, of j l]
      by (cases "j = i"; cases "l = i") auto
    show "b_data (bf j t) = disk t (ROOTDEV, b)" if "j < 30" "bkey (bf j t) = Some b \<and> \<not> b_lock (bf j t) \<and> \<not> dirty (bf j t)" for j b
    proof (cases "j = i")
      case False
      then show ?thesis using that O [of j] ne [of j b] t(5) [of b] cache_okD(7) [OF C, of j b] by simp
    qed (use that k(1) cl in auto)
  qed
  show sl: "slot t c = Some i" using slot_iff [OF ok i] k(1) by simp
  show "slot t b = slot s b" if b: "b \<in> held s" "b \<noteq> c"
  proof -
    obtain j where j: "j < 30" "bkey (bf j s) = Some b" "b_lock (bf j s)" using b(1) by (auto simp: held_def)
    have "j \<noteq> i" using old j b(2) by auto
    then have "slot t b = Some j" "slot s b = Some j" using slot_iff [OF ok j(1)] slot_iff [OF C j(1)] O(1) [OF j(1)] j(2) by simp_all
    then show ?thesis by simp
  qed
  show "view t = (view s)(c := b_data (bf i t))"
  proof
    fix b
    show "view t b = ((view s)(c := b_data (bf i t))) b"
    proof (cases "b = c")
      case False
      show ?thesis
      proof (cases "slot s b")
        case None
        have "slot t b = None"
        proof (rule ccontr)
          assume "slot t b \<noteq> None"
          then obtain j where j: "j < 30" "bkey (bf j t) = Some b" using slot_SomeD by blast
          then have "j \<noteq> i" using k(1) False by auto
          then show False using j O(1) slot_NoneD [OF None] by auto
        qed
        then show ?thesis using None False t(5) by (simp add: view_def)
      next
        case (Some j)
        note j = slot_SomeD [OF Some]
        show ?thesis
        proof (cases "j = i")
          case True
          have "bkey (bf i s) \<noteq> Some c" using j True False by simp
          from old [OF this] have e: "b_data (bf i s) = disk s (ROOTDEV, b)" using cache_okD(7) [OF C i] j True by simp
          have "slot t b = None"
          proof (rule ccontr)
            assume "slot t b \<noteq> None"
            then obtain l where l: "l < 30" "bkey (bf l t) = Some b" using slot_SomeD by blast
            then have "l \<noteq> i" using k(1) False by auto
            then show False using l O(1) [of l] cache_okD(6) [OF C, of l i b] j True by auto
          qed
          then show ?thesis using Some True e False t(5) by (simp add: view_def)
        next
          case ji: False
          then have "slot t b = Some j" using slot_iff [OF ok] j O(1) by simp
          then show ?thesis using Some ji False j O(5) by (simp add: view_def)
        qed
      qed
    qed (simp add: view_def sl)
  qed
  have iw: "(\<exists>j < 30. bkey (bf j t) = Some b \<and> P (bf j t)) \<longleftrightarrow> (if b = c then P (bf i t) else \<exists>j < 30. bkey (bf j s) = Some b \<and> P (bf j s))"
    if P: "\<And>x y. core x = core y \<Longrightarrow> P x = P y" "bkey (bf i s) \<noteq> Some c \<Longrightarrow> \<not> P (bf i s)" for P b
  proof (cases "b = c")
    case True
    then show ?thesis using k(1) i O(1) ne by (auto, metis)
  next
    case False
    have "bkey (bf j t) = Some b \<and> P (bf j t) \<longleftrightarrow> bkey (bf j s) = Some b \<and> P (bf j s)" if "j < 30" for j
      using that O(1) [of j] P(1) [OF o [of j]] P(2) k(1) False by (cases "j = i") auto
    then show ?thesis using False by auto
  qed
  have "b \<in> held t \<longleftrightarrow> (if b = c then b_lock (bf i t) else b \<in> held s)" for b
    unfolding held_def mem_Collect_eq by (rule iw) (use core_keys old in blast)+
  then show "held t = (if b_lock (bf i t) then insert c (held s) else held s - {c})"
    by (cases "b_lock (bf i t)") (simp_all add: set_eq_iff)
  have "b \<in> dirties t \<longleftrightarrow> (if b = c then dirty (bf i t) else b \<in> dirties s)" for b
    unfolding dirties_def mem_Collect_eq by (rule iw) (use core_keys old in blast)+
  then show "dirties t = (if dirty (bf i t) then insert c (dirties s) else dirties s - {c})"
    by (cases "dirty (bf i t)") (simp_all add: set_eq_iff)
qed

section \<open>The operations on the store\<close>

lemma io_core: "io s = io t \<Longrightarrow> i < length (bufs s) \<Longrightarrow> core (bf i s) = core (bf i t)"
  using io_bufs [of s t i] unfolding core_def unlinked_def by (metis (no_types, lifting) buf.ext_inject buf.surjective buf.update_convs(6,7,8))

lemma lru_io:
  assumes "io s = io t" "lru s xs"
  shows "lru t xs"
proof -
  have n: "length (bufs s) = 31" and x: "set xs = {..<30}" using assms(2) by (simp_all add: lru_def)
  have "linked (\<lambda>i. b_next (bf i t)) (\<lambda>i. b_prev (bf i t)) (bhead # xs @ [bhead]) =
    linked (\<lambda>i. b_next (bf i s)) (\<lambda>i. b_prev (bf i s)) (bhead # xs @ [bhead])"
    by (rule linked_cong) (use io_fields(8,9) [OF assms(1)] n x in \<open>auto dest!: in_set_butlastD\<close>)
  then show ?thesis using assms io_rest(1) [OF assms(1)] by (simp add: lru_def)
qed

lemma lru_upd:
  assumes "lru s xs" "\<And>x. b_next (f x) = b_next x" "\<And>x. b_prev (f x) = b_prev x"
  shows "lru (upd_buf i f s) xs"
  using assms cycle_upd [of s xs f i] by (simp add: lru_cycle)

lemma finite_busy: "finite (held s \<union> dirties s)"
proof -
  have "held s \<union> dirties s \<subseteq> (\<lambda>i. b_blockno (bf i s)) ` {..<30}"
    by (auto simp: held_def dirties_def bkey_def split: if_splits)
  then show ?thesis using finite_surj [of "{..<30 :: nat}"] by blast
qed

text \<open>While fewer than 30 blocks are held or dirty there is a buffer to recycle.\<close>

lemma free_buffer:
  assumes C: "cache_ok s" and r: "card (held s \<union> dirties s) < 30"
  shows "\<exists>i < 30. b_refcnt (bf i s) = 0 \<and> \<not> dirty (bf i s)"
proof (rule ccontr)
  assume "\<not> ?thesis"
  then have busy: "b_refcnt (bf i s) \<noteq> 0 \<or> dirty (bf i s)" if "i < 30" for i using that by blast
  let ?k = "\<lambda>i. b_blockno (bf i s)"
  have dev: "b_dev (bf i s) = ROOTDEV \<and> (b_lock (bf i s) \<or> dirty (bf i s))" if "i < 30" for i
    using busy [OF that] cache_okD(5) [OF C that] by (auto simp: buf_ok_def dirty_def split: if_splits)
  have "inj_on ?k {..<30}"
    using dev cache_okD(6) [OF C] by (auto simp: inj_on_def bkey_def)
  then have "card (?k ` {..<30}) = 30" by (simp add: card_image)
  moreover have "?k ` {..<30} \<subseteq> held s \<union> dirties s"
    using dev by (auto simp: held_def dirties_def bkey_def)
  then have "card (?k ` {..<30}) \<le> card (held s \<union> dirties s)" by (rule card_mono [OF finite_busy])
  ultimately show False using r by simp
qed

lemma find_in: "find P xs = Some i \<Longrightarrow> i \<in> set xs \<and> P i"
  by (auto simp: find_Some_iff in_set_conv_nth)

text \<open>The slot of a block tells whether it is held or dirty.\<close>

lemma slot_held:
  assumes "cache_ok s" "slot s b = Some i"
  shows "b \<in> held s \<longleftrightarrow> b_lock (bf i s)" "b \<in> dirties s \<longleftrightarrow> dirty (bf i s)" "view s b = b_data (bf i s)"
proof -
  have i: "i < 30" "bkey (bf i s) = Some b" using slot_SomeD [OF assms(2)] by auto
  have u: "j = i" if "j < 30" "bkey (bf j s) = Some b" for j using cache_okD(6) [OF assms(1) that(1) i(1) that(2) i(2)] .
  show "b \<in> held s \<longleftrightarrow> b_lock (bf i s)" "b \<in> dirties s \<longleftrightarrow> dirty (bf i s)"
    using i u unfolding held_def dirties_def mem_Collect_eq by metis+
  show "view s b = b_data (bf i s)" using assms(2) by (simp add: view_def)
qed

text \<open>A block that is neither held nor dirty is seen as it is on the disk.\<close>

lemma view_clean:
  assumes "cache_ok s" "b \<notin> held s" "b \<notin> dirties s"
  shows "view s b = disk s (ROOTDEV, b)"
proof (cases "slot s b")
  case (Some i)
  then show ?thesis
    using slot_SomeD [OF Some] slot_held [OF assms(1) Some] assms cache_okD(7) [OF assms(1), of i b] by simp
qed (simp add: view_def)

lemma lru_finds:
  assumes C: "cache_ok s" and L: "lru s xs"
  shows "find (\<lambda>j. b_dev (bf j s) = ROOTDEV \<and> b_blockno (bf j s) = b) xs = slot s b"
proof -
  have P: "(\<lambda>j. b_dev (bf j s) = ROOTDEV \<and> b_blockno (bf j s) = b) = (\<lambda>j. bkey (bf j s) = Some b)" by (auto simp: bkey_def)
  have xs: "set xs = {..<30}" using L by (simp add: lru_def)
  show ?thesis
  proof (cases "find (\<lambda>j. bkey (bf j s) = Some b) xs")
    case None
    then have "bkey (bf j s) \<noteq> Some b" if "j < 30" for j using that xs by (auto simp: find_None_iff)
    then have "slot s b = None" using slot_SomeD by (cases "slot s b") auto
    then show ?thesis using None P by simp
  next
    case (Some i)
    from find_in [OF this] have "i < 30" "bkey (bf i s) = Some b" using xs by auto
    then have "slot s b = Some i" using slot_iff [OF C] by blast
    then show ?thesis using Some P by simp
  qed
qed

lemma bread_hit:
  assumes C: "cache_ok s" and i: "slot s b = Some i" and h: "b \<notin> held s"
  shows "\<exists>t. bread ROOTDEV b s = Inr (i, t) \<and> cache_ok t \<and> slot t b = Some i \<and>
    store_of t = (store_of s)\<lparr>st_held := insert b (held s)\<rparr> \<and> disks.more t = disks.more s \<and>
    (\<forall>c \<in> held s. slot t c = slot s c)"
proof -
  obtain xs where L: "lru s xs" using cache_okD(1) [OF C] by blast
  have i30: "i < 30" and k: "bkey (bf i s) = Some b" using slot_SomeD [OF i] by auto
  have ok: "buf_ok (bf i s)" and len: "length (bufs s) = 31" using cache_okD(5,8) [OF C] i30 by auto
  have nl: "\<not> b_lock (bf i s)" using h slot_held(1) [OF C i] by simp
  define t where "t = upd_buf i (\<lambda>x. x\<lparr>b_lock := True\<rparr>) (upd_buf i (\<lambda>x. x\<lparr>b_refcnt := b_refcnt x + 1\<rparr>) s)"
  have bi: "bf i t = (bf i s)\<lparr>b_refcnt := b_refcnt (bf i s) + 1, b_lock := True\<rparr>" using i30 len by (simp add: t_def bf_upd)
  have o: "core (bf j t) = core (bf j s)" if "j < 30" "j \<noteq> i" for j using that i30 len by (simp add: t_def bf_upd)
  have rest: "disk t = disk s" "platters t = platters s" "havedisk1 t" "at_work t []" "disks.more t = disks.more s"
    using cache_okD(2,3) [OF C] by (simp_all add: t_def at_work_def) (simp add: upd_buf_def)
  have "bget ROOTDEV b s = Inr (i, t)"
    using lru_scans(1) [OF L] lru_finds [OF C L] i nl i30 len by (simp add: bget_def buf_acquiresleep_def bf_upd t_def)
  moreover have "b_flags (bf i t) AND 2 \<noteq> 0" using ok k bi by (auto simp: buf_ok_def bkey_def flag_bits split: if_splits)
  ultimately have run: "bread ROOTDEV b s = Inr (i, t)" by (simp add: bread_def)
  have L': "lru t xs" unfolding t_def by (intro lru_upd L) simp_all
  have ok': "buf_ok (bf i t)" using ok k nl bi by (auto simp: buf_ok_def bkey_def split: if_splits)
  have k': "bkey (bf i t) = Some b" "b_lock (bf i t)" "dirty (bf i t) = dirty (bf i s)" "b_data (bf i t) = view s b"
    using k bi slot_held(3) [OF C i] by (simp_all add: bkey_Some dirty_def)
  have u: "bkey (bf j s) \<noteq> Some b" if "j < 30" "j \<noteq> i" for j using cache_okD(6) [OF C that(1) i30 _ k] that(2) by blast
  have pl: "platters t \<noteq> []" using rest(2) cache_okD(4) [OF C] by simp
  have dk: "disk t (ROOTDEV, c) = disk s (ROOTDEV, c)" for c using rest(1) by simp
  note T = cache_step [OF C i30 o L' rest(4,3) pl dk k'(1) ok' u]
  have "cache_ok t" "slot t b = Some i" "view t = view s" "held t = insert b (held s)" "dirties t = dirties s"
    using T(1-5) k' k slot_held(2) [OF C i] by (auto simp: insert_absorb)
  moreover have "slot t c = slot s c" if "c \<in> held s" for c using T(6) [of c] that h k k'(2) by (cases "c = b") auto
  ultimately show ?thesis using run rest(2,5) by (intro exI [of _ t]) (simp add: store_of_def)
qed

lemma fields_core:
  assumes "core x = core y"
  shows "b_flags x = b_flags y" "b_dev x = b_dev y" "b_blockno x = b_blockno y" "b_lock x = b_lock y" "b_refcnt x = b_refcnt y"
    "b_data x = b_data y"
  using arg_cong [OF assms, of b_flags] arg_cong [OF assms, of b_dev] arg_cong [OF assms, of b_blockno]
    arg_cong [OF assms, of b_lock] arg_cong [OF assms, of b_refcnt] arg_cong [OF assms, of b_data] by simp_all

text \<open>A request on the idle drive, for a buffer that is held.\<close>

lemma iderw_idle:
  assumes A: "at_work s []" "length (bufs s) = 31" "havedisk1 s" and L: "lru s xs" and i: "i < 30"
    and b: "b_lock (bf i s)" "b_flags (bf i s) AND 6 \<noteq> 2" "b_dev (bf i s) = ROOTDEV" "b_blockno (bf i s) < FSSIZE"
  shows "\<exists>t. iderw i s = Inr ((), t) \<and> at_work t [] \<and> lru t xs \<and> havedisk1 t \<and> disks.more t = disks.more s \<and>
    (\<forall>j < 30. core (bf j t) = core (bf j (serve i s))) \<and> platters t = platters (serve i s)"
proof -
  have l: "i < length (bufs s)" using i A(2) by simp
  obtain t where t: "iderw i s = Inr ((), t)" "io t = io (serve i s)" "at_work t []"
    using iderw_serves [OF A(1) l _ b(4) _ b(1,2)] A(3) by auto
  have "lru (serve i s) xs" using L unfolding serve_def Let_def
    by (auto intro!: lru_upd) (simp add: lru_def)
  then have "lru t xs" using lru_io [OF t(2) [symmetric]] by blast
  moreover have "core (bf j t) = core (bf j (serve i s))" if "j < 30" for j
    using io_core [OF t(2)] io_rest(1) [OF t(2)] serve_bf(4) [OF l] A(2) that by simp
  moreover have "havedisk1 (serve i s) = havedisk1 s" "disks.more (serve i s) = disks.more s"
    by (simp_all add: serve_def Let_def) (auto simp: upd_buf_def disk_write_def)
  ultimately show ?thesis using t io_rest [OF t(2)] A(3) by auto
qed

lemma bread_miss:
  assumes C: "cache_ok s" and m: "slot s b = None" and r: "card (held s \<union> dirties s) < 30" and b: "b < FSSIZE"
  shows "\<exists>i t. bread ROOTDEV b s = Inr (i, t) \<and> cache_ok t \<and> slot t b = Some i \<and>
    store_of t = (store_of s)\<lparr>st_held := insert b (held s)\<rparr> \<and> disks.more t = disks.more s \<and>
    (\<forall>c \<in> held s. slot t c = slot s c)"
proof -
  obtain xs where L: "lru s xs" using cache_okD(1) [OF C] by blast
  let ?P = "\<lambda>i. b_refcnt (bf i s) = 0 \<and> b_flags (bf i s) AND B_DIRTY = 0"
  have xs: "set xs = {..<30}" and len: "length (bufs s) = 31" using L by (simp_all add: lru_def)
  obtain i where f: "find ?P (rev xs) = Some i"
    using free_buffer [OF C r] xs by (cases "find ?P (rev xs)") (auto simp: find_None_iff dirty_def flag_bits)
  then have i: "i < 30" "b_refcnt (bf i s) = 0" "\<not> dirty (bf i s)" using find_in [OF f] xs by (auto simp: dirty_def flag_bits)
  have nl: "\<not> b_lock (bf i s)" using cache_okD(5) [OF C i(1)] i(2) by (auto simp: buf_ok_def)
  define u where "u = upd_buf i (\<lambda>x. x\<lparr>b_lock := True\<rparr>)
    (upd_buf i (\<lambda>x. x\<lparr>b_dev := ROOTDEV, b_blockno := b, b_flags := 0, b_refcnt := 1\<rparr>) s)"
  have bu: "bf i u = (bf i s)\<lparr>b_dev := ROOTDEV, b_blockno := b, b_flags := 0, b_refcnt := 1, b_lock := True\<rparr>"
    using i(1) len by (simp add: u_def bf_upd)
  have ou: "bf j u = bf j s" if "j \<noteq> i" for j using that i(1) len by (simp add: u_def bf_upd)
  have ru: "disk u = disk s" "platters u = platters s" "havedisk1 u" "at_work u []" "length (bufs u) = 31" "disks.more u = disks.more s"
    using cache_okD(2,3) [OF C] len by (simp_all add: u_def at_work_def) (simp add: upd_buf_def)
  have Lu: "lru u xs" unfolding u_def by (intro lru_upd L) simp_all
  obtain t where t: "iderw i u = Inr ((), t)" "at_work t []" "lru t xs" "havedisk1 t" "disks.more t = disks.more u"
    "\<forall>j < 30. core (bf j t) = core (bf j (serve i u))" "platters t = platters (serve i u)"
    using iderw_idle [OF ru(4,5,3) Lu i(1)] bu b by auto
  have "bget ROOTDEV b s = Inr (i, u)"
    using lru_scans [OF L] lru_finds [OF C L] m f nl i(1) len by (simp add: bget_def buf_acquiresleep_def bf_upd u_def)
  then have run: "bread ROOTDEV b s = Inr (i, t)" using bu t(1) by (simp add: bread_def)
  have iu: "i < length (bufs u)" using i(1) ru(5) by simp
  have "address i u = (ROOTDEV, b)" using bu by (simp add: address_def)
  then have sv: "bf i (serve i u) = (bf i u)\<lparr>b_data := disk s (ROOTDEV, b), b_flags := 2\<rparr>" "platters (serve i u) = platters s"
    using bu iu ru by (simp_all add: serve_def Let_def bf_upd)
  have bt: "bkey (bf i t) = Some b" "b_lock (bf i t)" "\<not> dirty (bf i t)" "b_data (bf i t) = disk s (ROOTDEV, b)" "buf_ok (bf i t)"
  proof -
    have "core (bf i t) = core (bf i (serve i u))" using t(6) i(1) by blast
    note F = fields_core [OF this]
    show "bkey (bf i t) = Some b" "b_lock (bf i t)" "\<not> dirty (bf i t)" "b_data (bf i t) = disk s (ROOTDEV, b)" "buf_ok (bf i t)"
      using F sv bu b by (simp_all add: bkey_Some dirty_def buf_ok_def flag_bits)
  qed
  have o: "core (bf j t) = core (bf j s)" if "j < 30" "j \<noteq> i" for j
    using t(6) that serve_bf(1) [OF iu that(2)] ou by simp
  have pl: "platters t = platters s" "platters t \<noteq> []" using t(7) sv(2) cache_okD(4) [OF C] by simp_all
  have dk: "disk t (ROOTDEV, c) = disk s (ROOTDEV, c)" for c using pl by (simp add: disk_def)
  have nk: "bkey (bf j s) \<noteq> Some b" if "j < 30" for j using slot_NoneD [OF m that] .
  note T = cache_step [OF C i(1) o t(3,2,4) pl(2) dk bt(1,5) nk]
  have "view s b = disk s (ROOTDEV, b)" "b \<notin> dirties s" using m nk by (auto simp: view_def dirties_def)
  then have "cache_ok t" "slot t b = Some i" "view t = view s" "held t = insert b (held s)" "dirties t = dirties s"
    using T(1-5) bt nl i(3) by (auto simp: fun_upd_idem)
  moreover have "slot t c = slot s c" if "c \<in> held s" for c
  proof -
    have "c \<noteq> b" using that nk by (auto simp: held_def)
    then show ?thesis using T(6) [of c] that bt(2) nl i(3) by auto
  qed
  ultimately show ?thesis using run pl(1) t(5) ru(6) by (intro exI [of _ i] exI [of _ t]) (simp add: store_of_def)
qed

lemma bread_ok:
  assumes "cache_ok s" "b < FSSIZE" "b \<notin> held s" "b \<in> dirties s \<or> card (held s \<union> dirties s) < 30"
  shows "\<exists>i t. bread ROOTDEV b s = Inr (i, t) \<and> cache_ok t \<and> slot t b = Some i \<and>
    store_of t = (store_of s)\<lparr>st_held := insert b (held s)\<rparr> \<and> disks.more t = disks.more s \<and>
    (\<forall>c \<in> held s. slot t c = slot s c)"
proof (cases "slot s b")
  case None
  then have "b \<notin> dirties s" using slot_NoneD [OF None] by (auto simp: dirties_def)
  then show ?thesis using bread_miss [OF assms(1) None] assms(2,4) by blast
next
  case (Some i)
  then show ?thesis using bread_hit [OF assms(1) Some assms(3)] by blast
qed

text \<open>Changing a buffer that is held.\<close>

lemma held_step:
  assumes C: "cache_ok s" and i: "slot s b = Some i"
    and f: "\<And>x. b_next (f x) = b_next x" "\<And>x. b_prev (f x) = b_prev x" "\<And>x. b_lock x \<Longrightarrow> b_lock (f x)"
      "\<And>x. bkey (f x) = bkey x" "\<And>x. buf_ok x \<Longrightarrow> b_lock x \<Longrightarrow> bkey x \<noteq> None \<Longrightarrow> buf_ok (f x)"
    and h: "b \<in> held s"
  shows "cache_ok (upd_buf i f s)" "slot (upd_buf i f s) b = Some i"
    "store_of (upd_buf i f s) = (store_of s)\<lparr>st_view := (view s)(b := b_data (f (bf i s))),
       st_dirty := (if dirty (f (bf i s)) then insert b (dirties s) else dirties s - {b})\<rparr>"
    "disks.more (upd_buf i f s) = disks.more s" "c \<in> held s \<Longrightarrow> slot (upd_buf i f s) c = slot s c"
proof -
  let ?t = "upd_buf i f s"
  obtain xs where L: "lru s xs" using cache_okD(1) [OF C] by blast
  have i30: "i < 30" and k: "bkey (bf i s) = Some b" using slot_SomeD [OF i] by auto
  have lk: "b_lock (bf i s)" using slot_held(1) [OF C i] h by simp
  have bi: "bf j ?t = (if j = i then f (bf i s) else bf j s)" for j using i30 cache_okD(8) [OF C] by (simp add: bf_upd)
  have o: "core (bf j ?t) = core (bf j s)" if "j < 30" "j \<noteq> i" for j using that bi by simp
  have L': "lru ?t xs" by (rule lru_upd [OF L f(1,2)])
  have w: "at_work ?t []" "havedisk1 ?t" "platters ?t \<noteq> []" using cache_okD(2,3,4) [OF C] by (simp_all add: at_work_def)
  have u: "bkey (bf j s) \<noteq> Some b" if "j < 30" "j \<noteq> i" for j using cache_okD(6) [OF C that(1) i30 _ k] that(2) by blast
  have k': "bkey (bf i ?t) = Some b" "b_lock (bf i ?t)" "buf_ok (bf i ?t)"
    using bi f(3-5) k lk cache_okD(5) [OF C i30] by simp_all
  have dk: "disk ?t (ROOTDEV, c) = disk s (ROOTDEV, c)" for c by simp
  note T = cache_step [OF C i30 o L' w dk k'(1,3) u]
  show "cache_ok ?t" and sl: "slot ?t b = Some i" using T(1,2) k'(2) k by auto
  show "slot ?t c = slot s c" if "c \<in> held s" using T(6) [of c] that sl i k'(2) k by (cases "c = b") auto
  have "view ?t = (view s)(b := b_data (f (bf i s)))" "held ?t = held s" "dirties ?t = (if dirty (f (bf i s)) then insert b (dirties s) else dirties s - {b})"
    using T(3-5) k'(2) k h bi by (auto simp: insert_absorb)
  then show "store_of ?t = (store_of s)\<lparr>st_view := (view s)(b := b_data (f (bf i s))),
       st_dirty := (if dirty (f (bf i s)) then insert b (dirties s) else dirties s - {b})\<rparr>"
    by (simp add: store_of_def)
  show "disks.more ?t = disks.more s" by (simp add: upd_buf_def)
qed

definition set_data :: "nat \<Rightarrow> block \<Rightarrow> 'a disks_scheme \<Rightarrow> 'a disks_scheme" where
  "set_data i d s = upd_buf i (\<lambda>x. x\<lparr>b_data := d\<rparr>) s"

definition pin :: "nat \<Rightarrow> 'a disks_scheme \<Rightarrow> 'a disks_scheme" where
  "pin i s = upd_buf i (\<lambda>x. x\<lparr>b_flags := b_flags x OR B_DIRTY\<rparr>) s"

lemma set_data_ok:
  assumes "cache_ok s" "slot s b = Some i" "b \<in> held s"
  shows "cache_ok (set_data i d s)" "slot (set_data i d s) b = Some i"
    "store_of (set_data i d s) = (store_of s)\<lparr>st_view := (view s)(b := d)\<rparr>" "disks.more (set_data i d s) = disks.more s"
    "c \<in> held s \<Longrightarrow> slot (set_data i d s) c = slot s c"
proof -
  let ?f = "\<lambda>x. x\<lparr>b_data := d\<rparr>"
  have e: "b_next (?f x) = b_next x" "b_prev (?f x) = b_prev x" "b_lock x \<Longrightarrow> b_lock (?f x)" "bkey (?f x) = bkey x"
    "buf_ok x \<Longrightarrow> b_lock x \<Longrightarrow> bkey x \<noteq> None \<Longrightarrow> buf_ok (?f x)" "dirty (?f x) = dirty x" "b_data (?f x) = d" for x :: buf
    by (simp_all add: bkey_def buf_ok_def dirty_def)
  note H = held_step [of s b i ?f, OF assms(1,2) e(1-5) assms(3), folded set_data_def]
  show "cache_ok (set_data i d s)" by (rule H(1))
  show "slot (set_data i d s) b = Some i" by (rule H(2))
  show "disks.more (set_data i d s) = disks.more s" by (rule H(4))
  show "c \<in> held s \<Longrightarrow> slot (set_data i d s) c = slot s c" by (rule H(5))
  have "(if dirty (bf i s) then insert b (dirties s) else dirties s - {b}) = dirties s"
    using slot_held(2) [OF assms(1,2)] by auto
  then show "store_of (set_data i d s) = (store_of s)\<lparr>st_view := (view s)(b := d)\<rparr>"
    using H(3) unfolding e(6,7) by (simp add: store_of_def)
qed

lemma pin_ok:
  assumes "cache_ok s" "slot s b = Some i" "b \<in> held s"
  shows "cache_ok (pin i s)" "slot (pin i s) b = Some i"
    "store_of (pin i s) = (store_of s)\<lparr>st_dirty := insert b (dirties s)\<rparr>" "disks.more (pin i s) = disks.more s"
    "c \<in> held s \<Longrightarrow> slot (pin i s) c = slot s c"
proof -
  let ?f = "\<lambda>x. x\<lparr>b_flags := b_flags x OR B_DIRTY\<rparr>"
  have e: "b_next (?f x) = b_next x" "b_prev (?f x) = b_prev x" "b_lock x \<Longrightarrow> b_lock (?f x)" "bkey (?f x) = bkey x"
    "dirty (?f x)" "b_data (?f x) = b_data x" for x :: buf
    by (simp_all add: bkey_def dirty_def bit_or_iff flag_bits)
  have o: "buf_ok (?f x)" if "buf_ok x" "b_lock x" "bkey x \<noteq> None" for x
    using that by (auto simp: buf_ok_def bkey_def bit_or_iff flag_bits split: if_splits)
  note H = held_step [of s b i ?f, OF assms(1,2) e(1-4) o assms(3), folded pin_def]
  show "cache_ok (pin i s)" by (rule H(1))
  show "slot (pin i s) b = Some i" by (rule H(2))
  show "disks.more (pin i s) = disks.more s" by (rule H(4))
  show "c \<in> held s \<Longrightarrow> slot (pin i s) c = slot s c" by (rule H(5))
  show "store_of (pin i s) = (store_of s)\<lparr>st_dirty := insert b (dirties s)\<rparr>"
    using H(3) e(5) slot_held(3) [OF assms(1,2)] unfolding e(6) by (simp add: store_of_def fun_upd_idem)
qed

lemma bwrite_ok:
  assumes C: "cache_ok s" and i: "slot s b = Some i" and h: "b \<in> held s"
  shows "\<exists>t. bwrite i s = Inr ((), t) \<and> cache_ok t \<and> slot t b = Some i \<and> disks.more t = disks.more s \<and>
    store_of t = (store_of s)\<lparr>st_dirty := dirties s - {b}, st_hist := platters s @ [(disk s)((ROOTDEV, b) := view s b)]\<rparr> \<and>
    (\<forall>c \<in> held s. slot t c = slot s c)"
proof -
  define u where "u = pin i s"
  note U = pin_ok [OF C i h, folded u_def]
  have hu: "b \<in> held u" "dirties u = insert b (dirties s)" "view u = view s" "platters u = platters s" "held u = held s"
    using U(3) h by (simp_all add: store_of_def)
  have lu: "b_lock (bf i u)" "dirty (bf i u)" "b_data (bf i u) = view s b"
    using slot_held [OF U(1,2)] hu by simp_all
  have lk: "b_lock (bf i s)" using slot_held(1) [OF C i] h by simp
  have i30: "i < 30" and k: "bkey (bf i u) = Some b" using slot_SomeD [OF U(2)] by auto
  have ok: "buf_ok (bf i u)" using cache_okD(5) [OF U(1) i30] .
  have bu: "b_dev (bf i u) = ROOTDEV" "b_blockno (bf i u) = b" "b < FSSIZE" "b_refcnt (bf i u) = 1"
    using k ok lu(1) by (auto simp: bkey_Some buf_ok_def)
  obtain xs where L: "lru u xs" using cache_okD(1) [OF U(1)] by blast
  have "b_flags (bf i u) AND 6 \<noteq> 2" using lu(2) by (simp add: valid_clean_iff dirty_def)
  then obtain t where t: "iderw i u = Inr ((), t)" "at_work t []" "lru t xs" "havedisk1 t" "disks.more t = disks.more u"
    "\<forall>j < 30. core (bf j t) = core (bf j (serve i u))" "platters t = platters (serve i u)"
    using iderw_idle [OF cache_okD(2,8,3) [OF U(1)] L i30] lu(1) bu by auto
  have run: "bwrite i s = Inr ((), t)" using lk t(1) by (simp add: bwrite_def u_def pin_def)
  have iu: "i < length (bufs u)" using i30 cache_okD(8) [OF U(1)] by simp
  have sv: "bf i (serve i u) = (bf i u)\<lparr>b_flags := (b_flags (bf i u) OR 2) AND NOT 4\<rparr>"
    "platters (serve i u) = platters u @ [(disk u)((ROOTDEV, b) := view s b)]"
    using lu bu iu by (simp_all add: serve_def Let_def bf_upd address_def dirty_def)
  have bt: "bkey (bf i t) = Some b" "b_lock (bf i t)" "\<not> dirty (bf i t)" "b_data (bf i t) = view s b" "buf_ok (bf i t)"
  proof -
    have "core (bf i t) = core (bf i (serve i u))" using t(6) i30 by blast
    note F = fields_core [OF this]
    show "bkey (bf i t) = Some b" "b_lock (bf i t)" "\<not> dirty (bf i t)" "b_data (bf i t) = view s b" "buf_ok (bf i t)"
      using F sv(1) bu lu by (simp_all add: bkey_Some dirty_def buf_ok_def bit_and_iff bit_or_iff flag_bits)
  qed
  have o: "core (bf j t) = core (bf j u)" if "j < 30" "j \<noteq> i" for j
    using t(6) that serve_bf(1) [OF iu that(2)] by simp
  have pl: "platters t = platters s @ [(disk s)((ROOTDEV, b) := view s b)]" using t(7) sv(2) hu(4) by (simp add: disk_def)
  have dk: "disk t (ROOTDEV, c) = disk u (ROOTDEV, c)" if "c \<noteq> b" for c using pl that hu(4) by (simp add: disk_def)
  have ne: "platters t \<noteq> []" using pl by simp
  have nk: "bkey (bf j u) \<noteq> Some b" if "j < 30" "j \<noteq> i" for j using cache_okD(6) [OF U(1) that(1) i30 _ k] that(2) by blast
  note T = cache_step [OF U(1) i30 o t(3,2,4) ne dk bt(1,5) nk]
  have "cache_ok t" "slot t b = Some i" "view t = view s" "held t = held s" "dirties t = dirties s - {b}"
    using T(1-5) bt k hu by (auto simp: insert_absorb fun_upd_idem)
  moreover have "slot t c = slot s c" if "c \<in> held s" for c
    using T(6) [of c] U(2) U(5) [OF that] that hu(5) bt(2) k \<open>slot t b = Some i\<close> i by (cases "c = b") auto
  ultimately show ?thesis using run pl t(5) U(4) by (intro exI [of _ t]) (simp add: store_of_def)
qed

lemma brelse_ok:
  assumes C: "cache_ok s" and i: "slot s b = Some i" and h: "b \<in> held s" and d: "b \<in> dirties s \<or> view s b = disk s (ROOTDEV, b)"
  shows "\<exists>t. brelse i s = Inr ((), t) \<and> cache_ok t \<and> disks.more t = disks.more s \<and>
    store_of t = (store_of s)\<lparr>st_held := held s - {b}\<rparr> \<and> (\<forall>c \<in> held s. slot t c = slot s c)"
proof -
  obtain xs where L: "lru s xs" using cache_okD(1) [OF C] by blast
  have i30: "i < 30" and k: "bkey (bf i s) = Some b" using slot_SomeD [OF i] by auto
  have ok: "buf_ok (bf i s)" and len: "length (bufs s) = 31" using cache_okD(5,8) [OF C] i30 by auto
  note S = slot_held [OF C i]
  have lk: "b_lock (bf i s)" using S(1) h by simp
  have bs: "b_dev (bf i s) = ROOTDEV" "b_blockno (bf i s) = b" "b < FSSIZE" "b_refcnt (bf i s) = 1" "bit (b_flags (bf i s)) 1"
    using k ok lk by (auto simp: bkey_Some buf_ok_def)
  define u where "u = upd_buf i (\<lambda>x. x\<lparr>b_refcnt := b_refcnt x - 1\<rparr>) (upd_buf i (\<lambda>x. x\<lparr>b_lock := False\<rparr>) s)"
  have bu: "bf i u = (bf i s)\<lparr>b_lock := False, b_refcnt := 0\<rparr>" using bs i30 len by (simp add: u_def bf_upd)
  have ou: "bf j u = bf j s" if "j \<noteq> i" for j using that i30 len by (simp add: u_def bf_upd)
  have Lu: "lru u xs" unfolding u_def by (intro lru_upd L) simp_all
  have "i \<in> set xs" using Lu i30 by (simp add: lru_def)
  then obtain as cs where xs: "xs = as @ i # cs" by (meson split_list)
  define t where "t = lru_front i (lru_unlink i u)"
  have run: "brelse i s = Inr ((), t)" using lk bu by (simp add: brelse_def u_def [symmetric] t_def Let_def)
  note M = lru_moves_front [OF Lu [unfolded xs], folded t_def]
  have rest: "platters t = platters s" "at_work t []" "havedisk1 t" "disks.more t = disks.more s"
    using cache_okD(2,3) [OF C] by (simp_all add: t_def u_def links_rest at_work_def) (simp add: upd_buf_def)
  have pl: "platters t \<noteq> []" using rest(1) cache_okD(4) [OF C] by simp
  have dk: "disk t (ROOTDEV, c) = disk s (ROOTDEV, c)" for c using rest(1) by (simp add: disk_def)
  have bt: "bkey (bf i t) = Some b" "\<not> b_lock (bf i t)" "dirty (bf i t) = dirty (bf i s)" "b_data (bf i t) = view s b" "buf_ok (bf i t)"
    using fields_core [OF M(2) [of i]] bu bs S(3) by (simp_all add: bkey_Some dirty_def buf_ok_def)
  have o: "core (bf j t) = core (bf j s)" if "j < 30" "j \<noteq> i" for j using M(2) ou that by simp
  have nk: "bkey (bf j s) \<noteq> Some b" if "j < 30" "j \<noteq> i" for j using cache_okD(6) [OF C that(1) i30 _ k] that(2) by blast
  have cl: "b_data (bf i t) = disk t (ROOTDEV, b)" if "\<not> dirty (bf i t)" using that d S(2) bt(3,4) dk by simp
  note T = cache_step [OF C i30 o M(1) rest(2,3) pl dk bt(1,5) nk cl]
  have "cache_ok t" "view t = view s" "held t = held s - {b}" "dirties t = dirties s"
    using T(1-5) bt k S(2) by (auto simp: insert_absorb fun_upd_idem)
  moreover have "slot t c = slot s c" if "c \<in> held s" for c
    using T(2) T(6) [of c] that k i by (cases "c = b") auto
  ultimately show ?thesis using run rest by (intro exI [of _ t]) (simp add: store_of_def)
qed

section \<open>The interface for the log\<close>

definition st_disk :: "store \<Rightarrow> u32 \<Rightarrow> block" where
  "st_disk a b = last (st_hist a) (ROOTDEV, b)"

definition st_wrote :: "u32 \<Rightarrow> block \<Rightarrow> platter list \<Rightarrow> platter list" where
  "st_wrote b d h = h @ [(last h)((ROOTDEV, b) := d)]"

text \<open>A store of blocks: a block is taken (\<open>rd\<close>), its contents are looked at (\<open>dat\<close>) and replaced (\<open>put\<close>), written to the
  disk (\<open>wr\<close>) and given back (\<open>rel\<close>). There is room to take a block while fewer than 30 are held or dirty.
  The rest of the state (\<open>cfg\<close>) is left alone.\<close>

locale block_store =
  fixes ok :: "'s \<Rightarrow> bool"
    and cell :: "'s \<Rightarrow> u32 \<Rightarrow> 'b option"
    and abs :: "'s \<Rightarrow> store"
    and rd :: "u32 \<Rightarrow> 's \<Rightarrow> ('b \<times> 's) res"
    and wr :: "'b \<Rightarrow> 's \<Rightarrow> (unit \<times> 's) res"
    and rel :: "'b \<Rightarrow> 's \<Rightarrow> (unit \<times> 's) res"
    and put :: "'b \<Rightarrow> block \<Rightarrow> 's \<Rightarrow> 's"
    and dat :: "'b \<Rightarrow> 's \<Rightarrow> block"
    and cfg :: "'s \<Rightarrow> 'c"
  assumes rd_law: "\<lbrakk>ok s; b < FSSIZE; b \<notin> st_held (abs s); b \<in> st_dirty (abs s) \<or> card (st_held (abs s) \<union> st_dirty (abs s)) < 30\<rbrakk> \<Longrightarrow>
      \<exists>x t. rd b s = Inr (x, t) \<and> ok t \<and> cell t b = Some x \<and> abs t = (abs s)\<lparr>st_held := insert b (st_held (abs s))\<rparr> \<and>
        cfg t = cfg s \<and> (\<forall>c \<in> st_held (abs s). cell t c = cell s c)"
    and put_law: "\<lbrakk>ok s; cell s b = Some x; b \<in> st_held (abs s)\<rbrakk> \<Longrightarrow>
      ok (put x d s) \<and> abs (put x d s) = (abs s)\<lparr>st_view := (st_view (abs s))(b := d)\<rparr> \<and> cfg (put x d s) = cfg s \<and>
        (\<forall>c \<in> st_held (abs s). cell (put x d s) c = cell s c)"
    and wr_law: "\<lbrakk>ok s; cell s b = Some x; b \<in> st_held (abs s)\<rbrakk> \<Longrightarrow>
      \<exists>t. wr x s = Inr ((), t) \<and> ok t \<and> abs t = (abs s)\<lparr>st_dirty := st_dirty (abs s) - {b}, st_hist := st_wrote b (st_view (abs s) b) (st_hist (abs s))\<rparr> \<and>
        cfg t = cfg s \<and> (\<forall>c \<in> st_held (abs s). cell t c = cell s c)"
    and rel_law: "\<lbrakk>ok s; cell s b = Some x; b \<in> st_held (abs s); b \<in> st_dirty (abs s) \<or> st_view (abs s) b = st_disk (abs s) b\<rbrakk> \<Longrightarrow>
      \<exists>t. rel x s = Inr ((), t) \<and> ok t \<and> abs t = (abs s)\<lparr>st_held := st_held (abs s) - {b}\<rparr> \<and> cfg t = cfg s \<and>
        (\<forall>c \<in> st_held (abs s). cell t c = cell s c)"
    and dat_law: "\<lbrakk>ok s; cell s b = Some x\<rbrakk> \<Longrightarrow> dat x s = st_view (abs s) b"
begin

text \<open>Writing given contents to a block.\<close>

lemma put_block:
  assumes "ok s" "b < FSSIZE" "st_held (abs s) = {}" "b \<in> st_dirty (abs s) \<or> card (st_dirty (abs s)) < 30"
  shows "\<exists>t. bindr (rd b s) (\<lambda>(x, s). bindr (wr x (put x (f (dat x s)) s)) (\<lambda>(_, s). rel x s)) = Inr ((), t) \<and> ok t \<and> cfg t = cfg s \<and>
    abs t = (abs s)\<lparr>st_view := (st_view (abs s))(b := f (st_view (abs s) b)), st_dirty := st_dirty (abs s) - {b},
      st_hist := st_wrote b (f (st_view (abs s) b)) (st_hist (abs s))\<rparr>"
proof -
  let ?d = "f (st_view (abs s) b)"
  obtain x t where t: "rd b s = Inr (x, t)" "ok t" "cell t b = Some x" "abs t = (abs s)\<lparr>st_held := {b}\<rparr>" "cfg t = cfg s"
    using rd_law [OF assms(1,2)] assms(3,4) by auto
  have d: "dat x t = st_view (abs s) b" using dat_law [OF t(2,3)] t(4) by simp
  note P = put_law [OF t(2,3), of ?d]
  obtain u where u: "wr x (put x ?d t) = Inr ((), u)" "ok u" "cfg u = cfg s" "cell u b = Some x"
    "abs u = (abs (put x ?d t))\<lparr>st_dirty := st_dirty (abs s) - {b}, st_hist := st_wrote b ?d (st_hist (abs s))\<rparr>"
    using wr_law [of "put x ?d t" b x] P t(3-5) by auto
  have ua: "abs u = (abs s)\<lparr>st_held := {b}, st_view := (st_view (abs s))(b := ?d), st_dirty := st_dirty (abs s) - {b},
    st_hist := st_wrote b ?d (st_hist (abs s))\<rparr>" using u(5) P t(4) by simp
  have "st_view (abs u) b = st_disk (abs u) b" using ua by (simp add: st_disk_def st_wrote_def)
  then obtain v where "rel x u = Inr ((), v)" "ok v" "cfg v = cfg u" "abs v = (abs u)\<lparr>st_held := {}\<rparr>"
    using rel_law [OF u(2,4)] ua by auto
  then show ?thesis using t(1) u(1,3) ua d assms(3) by (intro exI [of _ v]) simp
qed

text \<open>Copying block \<open>a\<close> to block \<open>b\<close>, in the two orders of the log.\<close>

lemma copy_tail:
  assumes "ok s" "cell s a = Some x" "cell s b = Some y" "st_held (abs s) = {a, b}" "a \<noteq> b"
    "a \<in> st_dirty (abs s) \<or> st_view (abs s) a = st_disk (abs s) a"
  shows "\<exists>t. bindr (wr y (put y (dat x s) s)) (\<lambda>(_, s). bindr (rel x s) (\<lambda>(_, s). rel y s)) = Inr ((), t) \<and> ok t \<and> cfg t = cfg s \<and>
    abs t = (abs s)\<lparr>st_view := (st_view (abs s))(b := st_view (abs s) a), st_dirty := st_dirty (abs s) - {b},
      st_hist := st_wrote b (st_view (abs s) a) (st_hist (abs s)), st_held := {}\<rparr>"
proof -
  let ?d = "st_view (abs s) a"
  have d: "dat x s = ?d" using dat_law [OF assms(1,2)] .
  note P = put_law [OF assms(1,3), of ?d]
  obtain u where u: "wr y (put y ?d s) = Inr ((), u)" "ok u" "cfg u = cfg s" "cell u a = Some x" "cell u b = Some y"
    "abs u = (abs (put y ?d s))\<lparr>st_dirty := st_dirty (abs s) - {b}, st_hist := st_wrote b ?d (st_hist (abs s))\<rparr>"
    using wr_law [of "put y ?d s" b y] P assms(2-4) by auto
  have ua: "abs u = (abs s)\<lparr>st_view := (st_view (abs s))(b := ?d), st_dirty := st_dirty (abs s) - {b},
    st_hist := st_wrote b ?d (st_hist (abs s))\<rparr>" using u(6) P assms(4) by simp
  have "a \<in> st_dirty (abs u) \<or> st_view (abs u) a = st_disk (abs u) a"
    using assms(5,6) ua by (auto simp: st_disk_def st_wrote_def)
  then obtain v where v: "rel x u = Inr ((), v)" "ok v" "cfg v = cfg s" "abs v = (abs u)\<lparr>st_held := {b}\<rparr>" "cell v b = Some y"
    using rel_law [OF u(2,4)] ua assms(4,5) u(3,5) by (auto simp: insert_Diff_if)
  have "st_view (abs v) b = st_disk (abs v) b" using v(4) ua by (simp add: st_disk_def st_wrote_def)
  then obtain w where "rel y v = Inr ((), w)" "ok w" "cfg w = cfg s" "abs w = (abs v)\<lparr>st_held := {}\<rparr>"
    using rel_law [OF v(2,5)] v(3,4) by auto
  then show ?thesis using u(1) v(1,4) ua d by (intro exI [of _ w]) simp
qed

lemma copy_source_first:
  assumes "ok s" "a < FSSIZE" "b < FSSIZE" "a \<noteq> b" "st_held (abs s) = {}" "a \<in> st_dirty (abs s) \<or> st_view (abs s) a = st_disk (abs s) a"
    "a \<in> st_dirty (abs s) \<or> card (st_dirty (abs s)) < 30" "b \<in> st_dirty (abs s) \<or> card (insert a (st_dirty (abs s))) < 30"
  shows "\<exists>t. bindr (rd a s) (\<lambda>(x, s). bindr (rd b s) (\<lambda>(y, s). bindr (wr y (put y (dat x s) s)) (\<lambda>(_, s). bindr (rel x s) (\<lambda>(_, s). rel y s)))) = Inr ((), t) \<and>
    ok t \<and> cfg t = cfg s \<and> abs t = (abs s)\<lparr>st_view := (st_view (abs s))(b := st_view (abs s) a), st_dirty := st_dirty (abs s) - {b},
      st_hist := st_wrote b (st_view (abs s) a) (st_hist (abs s))\<rparr>"
proof -
  obtain x t where t: "rd a s = Inr (x, t)" "ok t" "cell t a = Some x" "abs t = (abs s)\<lparr>st_held := {a}\<rparr>" "cfg t = cfg s"
    using rd_law [OF assms(1,2)] assms(5,7) by auto
  obtain y u where u: "rd b t = Inr (y, u)" "ok u" "cell u b = Some y" "abs u = (abs s)\<lparr>st_held := {a, b}\<rparr>" "cfg u = cfg s" "cell u a = Some x"
    using rd_law [OF t(2) assms(3)] t(3-5) assms(4,8) by (auto simp: insert_commute)
  obtain v where "bindr (wr y (put y (dat x u) u)) (\<lambda>(_, s). bindr (rel x s) (\<lambda>(_, s). rel y s)) = Inr ((), v)" "ok v" "cfg v = cfg u"
    "abs v = (abs u)\<lparr>st_view := (st_view (abs u))(b := st_view (abs u) a), st_dirty := st_dirty (abs u) - {b},
      st_hist := st_wrote b (st_view (abs u) a) (st_hist (abs u)), st_held := {}\<rparr>"
    using copy_tail [OF u(2,6,3) _ assms(4)] u(4) assms(6) by (auto simp: st_disk_def)
  then show ?thesis using t(1) u(1,4,5) assms(5) by (intro exI [of _ v]) simp
qed

lemma copy_target_first:
  assumes "ok s" "a < FSSIZE" "b < FSSIZE" "a \<noteq> b" "st_held (abs s) = {}" "a \<in> st_dirty (abs s) \<or> st_view (abs s) a = st_disk (abs s) a"
    "b \<in> st_dirty (abs s) \<or> card (st_dirty (abs s)) < 30" "a \<in> st_dirty (abs s) \<or> card (insert b (st_dirty (abs s))) < 30"
  shows "\<exists>t. bindr (rd b s) (\<lambda>(y, s). bindr (rd a s) (\<lambda>(x, s). bindr (wr y (put y (dat x s) s)) (\<lambda>(_, s). bindr (rel x s) (\<lambda>(_, s). rel y s)))) = Inr ((), t) \<and>
    ok t \<and> cfg t = cfg s \<and> abs t = (abs s)\<lparr>st_view := (st_view (abs s))(b := st_view (abs s) a), st_dirty := st_dirty (abs s) - {b},
      st_hist := st_wrote b (st_view (abs s) a) (st_hist (abs s))\<rparr>"
proof -
  obtain y t where t: "rd b s = Inr (y, t)" "ok t" "cell t b = Some y" "abs t = (abs s)\<lparr>st_held := {b}\<rparr>" "cfg t = cfg s"
    using rd_law [OF assms(1,3)] assms(5,7) by auto
  obtain x u where u: "rd a t = Inr (x, u)" "ok u" "cell u a = Some x" "abs u = (abs s)\<lparr>st_held := {a, b}\<rparr>" "cfg u = cfg s" "cell u b = Some y"
    using rd_law [OF t(2) assms(2)] t(3-5) assms(4,8) by auto
  obtain v where "bindr (wr y (put y (dat x u) u)) (\<lambda>(_, s). bindr (rel x s) (\<lambda>(_, s). rel y s)) = Inr ((), v)" "ok v" "cfg v = cfg u"
    "abs v = (abs u)\<lparr>st_view := (st_view (abs u))(b := st_view (abs u) a), st_dirty := st_dirty (abs u) - {b},
      st_hist := st_wrote b (st_view (abs u) a) (st_hist (abs u)), st_held := {}\<rparr>"
    using copy_tail [OF u(2,3,6) _ assms(4)] u(4) assms(6) by (auto simp: st_disk_def)
  then show ?thesis using t(1) u(1,4,5) assms(5) by (intro exI [of _ v]) simp
qed

end

lemma store_of_simps [simp]:
  "st_view (store_of s) = view s" "st_held (store_of s) = held s" "st_dirty (store_of s) = dirties s" "st_hist (store_of s) = platters s"
  "st_disk (store_of s) b = disk s (ROOTDEV, b)"
  by (simp_all add: store_of_def st_disk_def disk_def)

interpretation cache: block_store cache_ok slot store_of "bread ROOTDEV" bwrite brelse set_data "\<lambda>i s. b_data (bf i s)" disks.more
proof
  fix s :: "'a disks_scheme" and b :: u32 and x :: nat and d :: block
  show "\<exists>x t. bread ROOTDEV b s = Inr (x, t) \<and> cache_ok t \<and> slot t b = Some x \<and>
      store_of t = (store_of s)\<lparr>st_held := insert b (st_held (store_of s))\<rparr> \<and> disks.more t = disks.more s \<and>
      (\<forall>c \<in> st_held (store_of s). slot t c = slot s c)"
    if "cache_ok s" "b < FSSIZE" "b \<notin> st_held (store_of s)"
      "b \<in> st_dirty (store_of s) \<or> card (st_held (store_of s) \<union> st_dirty (store_of s)) < 30"
    using bread_ok [of s b] that by simp
  show "cache_ok (set_data x d s) \<and> store_of (set_data x d s) = (store_of s)\<lparr>st_view := (st_view (store_of s))(b := d)\<rparr> \<and>
      disks.more (set_data x d s) = disks.more s \<and> (\<forall>c \<in> st_held (store_of s). slot (set_data x d s) c = slot s c)"
    if "cache_ok s" "slot s b = Some x" "b \<in> st_held (store_of s)"
    using set_data_ok [of s b x] that by simp
  show "\<exists>t. bwrite x s = Inr ((), t) \<and> cache_ok t \<and>
      store_of t = (store_of s)\<lparr>st_dirty := st_dirty (store_of s) - {b}, st_hist := st_wrote b (st_view (store_of s) b) (st_hist (store_of s))\<rparr> \<and>
      disks.more t = disks.more s \<and> (\<forall>c \<in> st_held (store_of s). slot t c = slot s c)"
    if "cache_ok s" "slot s b = Some x" "b \<in> st_held (store_of s)"
    using bwrite_ok [of s b x] that by (auto simp: st_wrote_def disk_def)
  show "\<exists>t. brelse x s = Inr ((), t) \<and> cache_ok t \<and> store_of t = (store_of s)\<lparr>st_held := st_held (store_of s) - {b}\<rparr> \<and>
      disks.more t = disks.more s \<and> (\<forall>c \<in> st_held (store_of s). slot t c = slot s c)"
    if "cache_ok s" "slot s b = Some x" "b \<in> st_held (store_of s)" "b \<in> st_dirty (store_of s) \<or> st_view (store_of s) b = st_disk (store_of s) b"
    using brelse_ok [of s b x] that by auto
  show "b_data (bf x s) = st_view (store_of s) b" if "cache_ok s" "slot s b = Some x"
    using slot_held(3) [OF that] by simp
qed

section \<open>The empty cache\<close>

definition zero_buf :: buf where
  "zero_buf = \<lparr>b_flags = 0, b_dev = 0, b_blockno = 0, b_lock = False, b_refcnt = 0, b_prev = 0, b_next = 0, b_qnext = None, b_data = \<lambda>_. 0\<rparr>"

lemma binit_rest:
  "platters (binit s) = platters s" "idequeue (binit s) = idequeue s" "ide_fails (binit s) = ide_fails s" "havedisk1 (binit s) = havedisk1 s"
  "disks.more (binit s) = disks.more s"
proof -
  let ?P = "\<lambda>t. platters t = platters s \<and> idequeue t = idequeue s \<and> ide_fails t = ide_fails s \<and> havedisk1 t = havedisk1 s \<and> disks.more t = disks.more s"
  have m: "disks.more (upd_buf i f t) = disks.more t" for i f and t :: "'a disks_scheme" by (simp add: upd_buf_def)
  have "?P (fold (\<lambda>b s. lru_front b (upd_buf b (\<lambda>x. x\<lparr>b_lock := False\<rparr>) s)) xs t)" if "?P t" for xs t
    using that by (induction xs arbitrary: t) (auto simp: links_rest m)
  from this [of "upd_buf bhead (\<lambda>x. x\<lparr>b_prev := bhead, b_next := bhead\<rparr>) s" "[0..<30]"]
  show "platters (binit s) = platters s" "idequeue (binit s) = idequeue s" "ide_fails (binit s) = ide_fails s" "havedisk1 (binit s) = havedisk1 s"
    "disks.more (binit s) = disks.more s"
    unfolding binit_def by (simp_all add: m)
qed

lemma binit_fresh:
  assumes "bufs s = replicate 31 zero_buf" "idequeue s = None" "ide_fails s = (\<lambda>_. False)" "havedisk1 s" "platters s \<noteq> []"
  shows "cache_ok (binit s)" "held (binit s) = {}" "dirties (binit s) = {}" "disk (binit s) = disk s"
proof -
  have n: "length (bufs s) = 31" using assms(1) by simp
  note B = binit_lru [OF n] and R = binit_rest [of s]
  have f: "b_dev (bf i (binit s)) = 0 \<and> b_flags (bf i (binit s)) = 0 \<and> b_refcnt (bf i (binit s)) = 0 \<and> \<not> b_lock (bf i (binit s))" if "i < 30" for i
  proof -
    have "core (bf i (binit s)) = (core (bf i s))\<lparr>b_lock := False\<rparr>" by (rule B(2)) (use that in simp)
    then have "core (bf i (binit s)) = zero_buf" using that assms(1) by (simp add: bf_def core_def zero_buf_def)
    note arg_cong [OF this, of b_dev] arg_cong [OF this, of b_flags] arg_cong [OF this, of b_refcnt] arg_cong [OF this, of b_lock]
    then show ?thesis by (simp add: zero_buf_def)
  qed
  then have k: "bkey (bf i (binit s)) = None" if "i < 30" for i using that by (simp add: bkey_def)
  show "cache_ok (binit s)" using f k R B(1) assms unfolding cache_ok_def by (auto simp: buf_ok_def)
  show "held (binit s) = {}" "dirties (binit s) = {}" using k by (auto simp: held_def dirties_def)
  show "disk (binit s) = disk s" using R(1) by (simp add: disk_def)
qed

section \<open>The properties of the cache\<close>

text \<open>
  Property C10: the buffer cache implements a store of blocks. Under its invariant, \<open>bread\<close> of a block that is not held
  returns, as long as some buffer is neither held nor dirty, with the buffer locked and its data the current contents of the
  block; storing into the data of a held buffer changes the contents of that block only; \<open>bwrite\<close> of a held
  buffer makes one write to the disk, of the current contents; and \<open>brelse\<close> gives up the lock. None of them changes
  anything else of what can be seen through the cache, and all keep the invariant.
\<close>

theorem bio_refines:
  assumes "cache_ok s"
  shows "(\<forall>b. b < FSSIZE \<and> b \<notin> held s \<and> card (held s \<union> dirties s) < 30 \<longrightarrow>
      (\<exists>i t. bread ROOTDEV b s = Inr (i, t) \<and> cache_ok t \<and> slot t b = Some i \<and> b_data (bf i t) = view s b \<and>
         store_of t = (store_of s)\<lparr>st_held := insert b (held s)\<rparr>)) \<and>
    (\<forall>b i. slot s b = Some i \<and> b \<in> held s \<longrightarrow>
      (\<forall>d. cache_ok (set_data i d s) \<and> store_of (set_data i d s) = (store_of s)\<lparr>st_view := (view s)(b := d)\<rparr>) \<and>
      (\<exists>t. bwrite i s = Inr ((), t) \<and> cache_ok t \<and>
         store_of t = (store_of s)\<lparr>st_dirty := dirties s - {b}, st_hist := platters s @ [(disk s)((ROOTDEV, b) := view s b)]\<rparr>) \<and>
      (b \<in> dirties s \<or> view s b = disk s (ROOTDEV, b) \<longrightarrow>
         (\<exists>t. brelse i s = Inr ((), t) \<and> cache_ok t \<and> store_of t = (store_of s)\<lparr>st_held := held s - {b}\<rparr>)))"
proof (intro conjI allI impI)
  fix b assume "b < FSSIZE \<and> b \<notin> held s \<and> card (held s \<union> dirties s) < 30"
  then obtain i t where t: "bread ROOTDEV b s = Inr (i, t)" "cache_ok t" "slot t b = Some i" "store_of t = (store_of s)\<lparr>st_held := insert b (held s)\<rparr>"
    using bread_ok [OF assms, of b] by blast
  then have "b_data (bf i t) = view s b" using slot_held(3) [OF t(2,3)] by (simp add: store_of_def)
  then show "\<exists>i t. bread ROOTDEV b s = Inr (i, t) \<and> cache_ok t \<and> slot t b = Some i \<and> b_data (bf i t) = view s b \<and>
         store_of t = (store_of s)\<lparr>st_held := insert b (held s)\<rparr>" using t by blast
next
  fix b i assume h: "slot s b = Some i \<and> b \<in> held s"
  note h' = conjunct1 [OF h] conjunct2 [OF h]
  show "cache_ok (set_data i d s)" "store_of (set_data i d s) = (store_of s)\<lparr>st_view := (view s)(b := d)\<rparr>" for d
    by (rule set_data_ok(1,3) [OF assms h'])+
  show "\<exists>t. bwrite i s = Inr ((), t) \<and> cache_ok t \<and>
      store_of t = (store_of s)\<lparr>st_dirty := dirties s - {b}, st_hist := platters s @ [(disk s)((ROOTDEV, b) := view s b)]\<rparr>"
    using bwrite_ok [OF assms h'] by blast
  show "\<exists>t. brelse i s = Inr ((), t) \<and> cache_ok t \<and> store_of t = (store_of s)\<lparr>st_held := held s - {b}\<rparr>"
    if "b \<in> dirties s \<or> view s b = disk s (ROOTDEV, b)" using brelse_ok [OF assms h' that] by blast
qed

text \<open>A cache that has just been set up, over a disk with byte \<open>n\<close> everywhere in block \<open>n\<close>.\<close>

definition demo_cache :: disks where
  "demo_cache = binit \<lparr>bufs = replicate 31 zero_buf, idequeue = None, havedisk1 = True, ide_cmd = None, ide_data = \<lambda>_. 0,
     ide_fails = \<lambda>_. False, platters = [\<lambda>(d, b) i. ucast b]\<rparr>"

lemma demo_cache_ok: "cache_ok demo_cache" "held demo_cache = {}" "dirties demo_cache = {}" "disk demo_cache = (\<lambda>(d, b) i. ucast b)"
  unfolding demo_cache_def by (subst binit_fresh; simp add: disk_def)+

theorem bio_refines_witness:
  "\<exists>i t. bread ROOTDEV 77 demo_cache = Inr (i, t) \<and> b_data (bf i t) = (\<lambda>_. 77) \<and> held t = {77}"
proof -
  have "view demo_cache 77 = (\<lambda>_. 77)" using view_clean [OF demo_cache_ok(1), of 77] demo_cache_ok by simp
  moreover obtain i t where "bread ROOTDEV 77 demo_cache = Inr (i, t)" "b_data (bf i t) = view demo_cache 77" "store_of t = (store_of demo_cache)\<lparr>st_held := {77}\<rparr>"
    using conjunct1 [OF bio_refines [OF demo_cache_ok(1)], rule_format, of 77] demo_cache_ok by auto
  ultimately show ?thesis by (auto simp: store_of_def)
qed

text \<open>
  Property C25: buffers are recycled in the order they were released. If the list of the cache, from the most recently
  used buffer, is \<open>xs\<close> and no buffer is for the block, then \<open>bget\<close> takes the last buffer of \<open>xs\<close> that is neither
  referenced nor dirty, and panics only if there is none; and \<open>brelse\<close> by the last user moves the buffer to the front and
  leaves the order of the others.
\<close>

theorem bget_lru:
  assumes "lru s xs" "\<forall>i < 30. \<not> (b_dev (bf i s) = dev \<and> b_blockno (bf i s) = b)" "\<forall>i < 30. b_refcnt (bf i s) = 0 \<longrightarrow> \<not> b_lock (bf i s)"
  shows "(case find (\<lambda>i. b_refcnt (bf i s) = 0 \<and> \<not> dirty (bf i s)) (rev xs) of
       None \<Rightarrow> bget dev b s = Inl (Panic ''bget: no buffers'')
     | Some i \<Rightarrow> \<exists>t. bget dev b s = Inr (i, t) \<and> lru t xs \<and> b_dev (bf i t) = dev \<and> b_blockno (bf i t) = b \<and>
          b_refcnt (bf i t) = 1 \<and> b_lock (bf i t) \<and> b_flags (bf i t) = 0 \<and> (\<forall>j. j \<noteq> i \<longrightarrow> bf j t = bf j s)) \<and>
    (\<forall>i < 30. b_lock (bf i s) \<and> b_refcnt (bf i s) = 1 \<longrightarrow>
       (\<exists>t. brelse i s = Inr ((), t) \<and> lru t (i # remove1 i xs) \<and> \<not> b_lock (bf i t) \<and> b_refcnt (bf i t) = 0 \<and>
          (\<forall>j. j \<noteq> i \<longrightarrow> core (bf j t) = core (bf j s))))"
proof (intro conjI allI impI)
  have xs: "set xs = {..<30}" "distinct xs" and len: "length (bufs s) = 31" using assms(1) by (simp_all add: lru_def)
  have miss: "find (\<lambda>i. b_dev (bf i s) = dev \<and> b_blockno (bf i s) = b) xs = None" using assms(2) xs by (auto simp: find_None_iff)
  have d: "(\<lambda>i. b_refcnt (bf i s) = 0 \<and> b_flags (bf i s) AND B_DIRTY = 0) = (\<lambda>i. b_refcnt (bf i s) = 0 \<and> \<not> dirty (bf i s))"
    by (simp add: dirty_def flag_bits fun_eq_iff)
  let ?r = "find (\<lambda>i. b_refcnt (bf i s) = 0 \<and> \<not> dirty (bf i s)) (rev xs)"
  note S = lru_scans [OF assms(1)]
  show "case ?r of None \<Rightarrow> bget dev b s = Inl (Panic ''bget: no buffers'')
     | Some i \<Rightarrow> \<exists>t. bget dev b s = Inr (i, t) \<and> lru t xs \<and> b_dev (bf i t) = dev \<and> b_blockno (bf i t) = b \<and>
          b_refcnt (bf i t) = 1 \<and> b_lock (bf i t) \<and> b_flags (bf i t) = 0 \<and> (\<forall>j. j \<noteq> i \<longrightarrow> bf j t = bf j s)"
  proof (cases ?r)
    case None
    then show ?thesis using miss S d by (simp add: bget_def)
  next
    case (Some i)
    from find_in [OF this] have i: "i < 30" "b_refcnt (bf i s) = 0" "\<not> b_lock (bf i s)" using xs(1) assms(3) by auto
    define t where "t = upd_buf i (\<lambda>x. x\<lparr>b_lock := True\<rparr>) (upd_buf i (\<lambda>x. x\<lparr>b_dev := dev, b_blockno := b, b_flags := 0, b_refcnt := 1\<rparr>) s)"
    have "bget dev b s = Inr (i, t)" using miss S d Some i len by (simp add: bget_def buf_acquiresleep_def bf_upd t_def)
    moreover have "lru t xs" unfolding t_def by (intro lru_upd assms(1)) simp_all
    ultimately show ?thesis using Some i len by (simp add: t_def bf_upd)
  qed
next
  fix i assume i: "i < 30" and l: "b_lock (bf i s) \<and> b_refcnt (bf i s) = 1"
  have len: "length (bufs s) = 31" and "i \<in> set xs" using assms(1) i by (simp_all add: lru_def)
  then obtain as cs where xs: "xs = as @ i # cs" by (meson split_list)
  define u where "u = upd_buf i (\<lambda>x. x\<lparr>b_refcnt := b_refcnt x - 1\<rparr>) (upd_buf i (\<lambda>x. x\<lparr>b_lock := False\<rparr>) s)"
  have bu: "bf i u = (bf i s)\<lparr>b_lock := False, b_refcnt := 0\<rparr>" "\<And>j. j \<noteq> i \<Longrightarrow> bf j u = bf j s" using l i len by (simp_all add: u_def bf_upd)
  have Lu: "lru u xs" unfolding u_def by (intro lru_upd assms(1)) simp_all
  define t where "t = lru_front i (lru_unlink i u)"
  note M = lru_moves_front [OF Lu [unfolded xs], folded t_def]
  have "brelse i s = Inr ((), t)" using l bu by (simp add: brelse_def u_def [symmetric] t_def Let_def)
  moreover have "remove1 i xs = as @ cs" using assms(1) xs by (simp add: lru_def remove1_append)
  ultimately show "\<exists>t. brelse i s = Inr ((), t) \<and> lru t (i # remove1 i xs) \<and> \<not> b_lock (bf i t) \<and> b_refcnt (bf i t) = 0 \<and>
          (\<forall>j. j \<noteq> i \<longrightarrow> core (bf j t) = core (bf j s))"
    using M(1) fields_core [OF M(2) [of i]] M(2) bu by (intro exI [of _ t]) simp
qed

lemma demo_cache_lru: "lru demo_cache (rev [0..<30])" "i < 30 \<Longrightarrow> core (bf i demo_cache) = zero_buf"
proof -
  let ?s = "\<lparr>bufs = replicate 31 zero_buf, idequeue = None, havedisk1 = True, ide_cmd = None, ide_data = \<lambda>_. 0,
     ide_fails = \<lambda>_. False, platters = [\<lambda>(d, b) i. ucast b]\<rparr> :: disks"
  show "lru demo_cache (rev [0..<30])" unfolding demo_cache_def by (rule binit_lru) simp
  show "core (bf i demo_cache) = zero_buf" if "i < 30"
    using binit_lru(2) [of ?s i] that by (simp add: demo_cache_def bf_def core_def zero_buf_def)
qed

theorem bget_lru_witness:
  "\<exists>t. bget ROOTDEV 77 demo_cache = Inr (0, t) \<and> lru t (rev [0..<30])"
proof -
  have f: "b_dev (bf i demo_cache) = 0 \<and> b_refcnt (bf i demo_cache) = 0 \<and> \<not> b_lock (bf i demo_cache) \<and> \<not> dirty (bf i demo_cache)"
    if "i < 30" for i using fields_core [of "bf i demo_cache" zero_buf] demo_cache_lru(2) [OF that] by (simp add: core_def zero_buf_def dirty_def)
  have "find (\<lambda>i. b_refcnt (bf i demo_cache) = 0 \<and> \<not> dirty (bf i demo_cache)) (rev (rev [0..<30])) = Some 0"
    using f [of 0] by (simp add: upt_conv_Cons)
  then show ?thesis using conjunct1 [OF bget_lru [OF demo_cache_lru(1), of ROOTDEV 77]] f by auto
qed

end
