(* ===== verification/Log.thy ===== *)
theory Log
  imports Bio
begin

text \<open>
  The redo log of \<open>log.c\<close> on the buffer cache: writing the log, committing, installing, recovery at boot and
  the bookkeeping of the current transaction. A block is pinned in the cache from \<open>log_write\<close> until
  it has been installed. \<open>log_inv\<close> is the invariant between two steps of the file system; the lemmas
  follow the history of the disk through a commit, and through the recovery that runs on whatever contents a
  power failure leaves behind. The loops run over the \<open>n\<close> entries of the header, so no fuel is needed.
\<close>

unbundle bit_operations_syntax

section \<open>Operations\<close>

record logsys = disks +
  l_start :: u32
  l_size :: int
  l_outstanding :: int
  l_committing :: bool
  l_dev :: u32
  l_n :: int                \<comment> \<open>\<open>log.lh.n\<close>\<close>
  l_block :: "u32 list"      \<comment> \<open>\<open>log.lh.block\<close>, \<open>LOGSIZE\<close> entries\<close>

fun each :: "('i \<Rightarrow> 's \<Rightarrow> (unit \<times> 's) res) \<Rightarrow> 'i list \<Rightarrow> 's \<Rightarrow> (unit \<times> 's) res" where
  "each f [] s = Inr ((), s)"
| "each f (i # is) s = bindr (f i s) (\<lambda>(_, s). each f is s)"

definition install_block :: "nat \<Rightarrow> 'a logsys_scheme \<Rightarrow> (unit \<times> 'a logsys_scheme) res" where
  "install_block tail s =
     bindr (bread (l_dev s) (l_start s + word_of_nat tail + 1) s) (\<lambda>(lbuf, s).
     bindr (at (l_block s) tail) (\<lambda>dst.
     bindr (bread (l_dev s) dst s) (\<lambda>(dbuf, s).
     bindr (bwrite dbuf (set_data dbuf (b_data (bf lbuf s)) s)) (\<lambda>(_, s).
     bindr (brelse lbuf s) (\<lambda>(_, s).
     brelse dbuf s)))))"

definition install_trans :: "'a logsys_scheme \<Rightarrow> (unit \<times> 'a logsys_scheme) res" where
  "install_trans s = each install_block [0..<nat (l_n s)] s"

definition read_head :: "'a logsys_scheme \<Rightarrow> (unit \<times> 'a logsys_scheme) res" where
  "read_head s =
     bindr (bread (l_dev s) (l_start s) s) (\<lambda>(b, s).
     let lh = b_data (bf b s);
         s = s\<lparr>l_n := sint (rd32 lh 0)\<rparr>
     in bindr (each (\<lambda>i s. if i < length (l_block s)
                          then Inr ((), s\<lparr>l_block := (l_block s)[i := rd32 lh (4 + 4 * i)]\<rparr>)
                          else Inl OutOfBounds) [0..<nat (l_n s)] s) (\<lambda>(_, s).
        brelse b s))"

text \<open>The header block: the number of entries and the entries.\<close>

definition head_bytes :: "int \<Rightarrow> u32 list \<Rightarrow> block \<Rightarrow> block" where
  "head_bytes n bl hb = fold (\<lambda>i hb. wr32 (4 + 4 * i) (bl ! i) hb) [0..<nat n] (wr32 0 (word_of_int n) hb)"

definition write_head :: "'a logsys_scheme \<Rightarrow> (unit \<times> 'a logsys_scheme) res" where
  "write_head s =
     bindr (bread (l_dev s) (l_start s) s) (\<lambda>(b, s).
     if l_n s > int (length (l_block s)) then Inl OutOfBounds
     else
       bindr (bwrite b (set_data b (head_bytes (l_n s) (l_block s) (b_data (bf b s))) s)) (\<lambda>(_, s).
       brelse b s))"

definition recover_from_log :: "'a logsys_scheme \<Rightarrow> (unit \<times> 'a logsys_scheme) res" where
  "recover_from_log s =
     bindr (read_head s) (\<lambda>(_, s).
     bindr (install_trans s) (\<lambda>(_, s).
     write_head (s\<lparr>l_n := 0\<rparr>)))"

text \<open>The fields \<open>nlog\<close> and \<open>logstart\<close> of the superblock in block 1.\<close>

definition initlog :: "u32 \<Rightarrow> 'a logsys_scheme \<Rightarrow> (unit \<times> 'a logsys_scheme) res" where
  "initlog dev s =
     bindr (bread dev 1 s) (\<lambda>(b, s).
     let lstart = rd32 (b_data (bf b s)) 16;
         lsize = sint (rd32 (b_data (bf b s)) 12)
     in bindr (brelse b s) (\<lambda>(_, s).
        recover_from_log (s\<lparr>l_start := lstart, l_size := lsize, l_dev := dev\<rparr>)))"

definition write_log_block :: "nat \<Rightarrow> 'a logsys_scheme \<Rightarrow> (unit \<times> 'a logsys_scheme) res" where
  "write_log_block tail s =
     bindr (bread (l_dev s) (l_start s + word_of_nat tail + 1) s) (\<lambda>(to, s).
     bindr (at (l_block s) tail) (\<lambda>src.
     bindr (bread (l_dev s) src s) (\<lambda>(from, s).
     bindr (bwrite to (set_data to (b_data (bf from s)) s)) (\<lambda>(_, s).
     bindr (brelse from s) (\<lambda>(_, s).
     brelse to s)))))"

definition write_log :: "'a logsys_scheme \<Rightarrow> (unit \<times> 'a logsys_scheme) res" where
  "write_log s = each write_log_block [0..<nat (l_n s)] s"

definition commit :: "'a logsys_scheme \<Rightarrow> (unit \<times> 'a logsys_scheme) res" where
  "commit s =
    (if l_n s > 0 then
       bindr (write_log s) (\<lambda>(_, s).
       bindr (write_head s) (\<lambda>(_, s).
       bindr (install_trans s) (\<lambda>(_, s).
       write_head (s\<lparr>l_n := 0\<rparr>))))
     else Inr ((), s))"

definition disk_begin_op :: "'a logsys_scheme \<Rightarrow> (unit \<times> 'a logsys_scheme) res" where
  "disk_begin_op s =
    (if l_committing s then Inl (Sleeps ''log'')
     else if l_n s + (l_outstanding s + 1) * MAXOPBLOCKS > LOGSIZE then Inl (Sleeps ''log'')
     else Inr ((), s\<lparr>l_outstanding := l_outstanding s + 1\<rparr>))"

definition disk_end_op :: "'a logsys_scheme \<Rightarrow> (unit \<times> 'a logsys_scheme) res" where
  "disk_end_op s =
    (let s = s\<lparr>l_outstanding := l_outstanding s - 1\<rparr> in
     if l_committing s then Inl (Panic ''log.committing'')
     else if l_outstanding s = 0 then
       bindr (commit (s\<lparr>l_committing := True\<rparr>)) (\<lambda>(_, s).
       Inr ((), s\<lparr>l_committing := False\<rparr>))
     else Inr ((), s))"

definition disk_log_write :: "nat \<Rightarrow> 'a logsys_scheme \<Rightarrow> (unit \<times> 'a logsys_scheme) res" where
  "disk_log_write b s =
    (if l_n s \<ge> LOGSIZE \<or> l_n s \<ge> l_size s - 1 then Inl (Panic ''too big a transaction'')
     else if l_outstanding s < 1 then Inl (Panic ''log_write outside of trans'')
     else
       let i = (case find (\<lambda>i. l_block s ! i = b_blockno (bf b s)) [0..<nat (l_n s)] of Some i \<Rightarrow> i | None \<Rightarrow> nat (l_n s));
           s = s\<lparr>l_block := (l_block s)[i := b_blockno (bf b s)]\<rparr>;
           s = (if int i = l_n s then s\<lparr>l_n := l_n s + 1\<rparr> else s)
       in Inr ((), pin b s))"

section \<open>Sequences of writes\<close>

definition upds :: "('k \<times> 'v) list \<Rightarrow> ('k \<Rightarrow> 'v) \<Rightarrow> 'k \<Rightarrow> 'v" where
  "upds ws f = fold (\<lambda>(b, d) f. f(b := d)) ws f"

definition plat_upds :: "(u32 \<times> block) list \<Rightarrow> platter \<Rightarrow> platter" where
  "plat_upds ws p = fold (\<lambda>(b, d) p. p((ROOTDEV, b) := d)) ws p"

definition writes :: "(u32 \<times> block) list \<Rightarrow> platter list \<Rightarrow> platter list" where
  "writes ws h = fold (\<lambda>(b, d). st_wrote b d) ws h"

lemma upds_simps [simp]: "upds [] f = f" "upds (w # ws) f = upds ws (f(fst w := snd w))" "upds (vs @ ws) f = upds ws (upds vs f)"
  by (simp_all add: upds_def split: prod.split)

lemma plat_upds_simps [simp]:
  "plat_upds [] p = p" "plat_upds (w # ws) p = plat_upds ws (p((ROOTDEV, fst w) := snd w))" "plat_upds (vs @ ws) p = plat_upds ws (plat_upds vs p)"
  by (simp_all add: plat_upds_def split: prod.split)

lemma writes_simps [simp]:
  "writes [] h = h" "writes (w # ws) h = writes ws (st_wrote (fst w) (snd w) h)" "writes (vs @ ws) h = writes ws (writes vs h)"
  by (simp_all add: writes_def split: prod.split)

lemma upds_out: "b \<notin> fst ` set ws \<Longrightarrow> upds ws f b = f b"
  by (induction ws arbitrary: f) auto

lemma upds_in:
  assumes "distinct (map fst ws)" "(b, d) \<in> set ws"
  shows "upds ws f b = d"
  using assms
proof (induction ws arbitrary: f)
  case (Cons w ws)
  show ?case
  proof (cases "w = (b, d)")
    case True
    then have "b \<notin> fst ` set ws" using Cons.prems(1) by auto
    then show ?thesis using True by (simp add: upds_out)
  qed (use Cons in auto)
qed simp

lemma plat_upds_root: "plat_upds ws p (ROOTDEV, b) = upds ws (\<lambda>b. p (ROOTDEV, b)) b"
proof (induction ws arbitrary: p)
  case (Cons w ws)
  have "(\<lambda>b. (p((ROOTDEV, fst w) := snd w)) (ROOTDEV, b)) = (\<lambda>b. p (ROOTDEV, b))(fst w := snd w)" by auto
  then show ?case using Cons by simp
qed simp

text \<open>The history runs through all prefixes of the sequence of writes.\<close>

lemma writes_hist:
  assumes "h \<noteq> []"
  shows "writes ws h = h @ map (\<lambda>k. plat_upds (take (Suc k) ws) (last h)) [0..<length ws]"
  using assms
proof (induction ws arbitrary: h)
  case (Cons w ws)
  have m: "map (\<lambda>k. plat_upds (take k ws) ((last h)((ROOTDEV, fst w) := snd w))) [0..<Suc (length ws)] =
    (last h)((ROOTDEV, fst w) := snd w) # map (\<lambda>k. plat_upds (take (Suc k) ws) ((last h)((ROOTDEV, fst w) := snd w))) [0..<length ws]"
    by (simp add: upt_conv_Cons map_Suc_upt [symmetric] del: upt_Suc)
  have "writes (w # ws) h = writes ws (st_wrote (fst w) (snd w) h)" by simp
  also have "\<dots> = st_wrote (fst w) (snd w) h @ map (\<lambda>k. plat_upds (take (Suc k) ws) (last (st_wrote (fst w) (snd w) h))) [0..<length ws]"
    by (rule Cons.IH) (simp add: st_wrote_def)
  finally show ?case using m by (simp add: st_wrote_def del: upt_Suc)
qed simp

lemma writes_last: "h \<noteq> [] \<Longrightarrow> last (writes ws h) = plat_upds ws (last h)"
  by (induction ws arbitrary: h) (simp_all add: st_wrote_def)

lemma writes_ne: "h \<noteq> [] \<Longrightarrow> writes ws h \<noteq> []"
  by (simp add: writes_hist)

section \<open>The header block\<close>

lemma fold_wr32:
  "rd32 (fold (\<lambda>i hb. wr32 (4 + 4 * i) (f i) hb) [0..<n] hb) 0 = rd32 hb 0"
  "j < n \<Longrightarrow> rd32 (fold (\<lambda>i hb. wr32 (4 + 4 * i) (f i) hb) [0..<n] hb) (4 + 4 * j) = f j"
proof (induction n)
  case (Suc n)
  {
    case 1
    then show ?case using Suc.IH(1) by simp
  next
    case 2
    then show ?case using Suc.IH(2) by (cases "j = n") (simp_all add: rd32_wr32_same)
  }
qed simp_all

lemma head_bytes_read:
  assumes "0 \<le> n" "n < 2147483648"
  shows "sint (rd32 (head_bytes n bl hb) 0) = n" "j < nat n \<Longrightarrow> rd32 (head_bytes n bl hb) (4 + 4 * j) = bl ! j"
proof -
  have "sint (word_of_int n :: u32) = n" 
    using assms by (simp add: sint_uint signed_take_bit_eq_take_bit_shift take_bit_eq_mod uint_word_of_int)
  then show "sint (rd32 (head_bytes n bl hb) 0) = n" by (simp add: head_bytes_def fold_wr32 rd32_wr32_same)
  show "j < nat n \<Longrightarrow> rd32 (head_bytes n bl hb) (4 + 4 * j) = bl ! j" by (simp add: head_bytes_def fold_wr32)
qed

section \<open>Copying blocks to the log and back\<close>

lemma log_more:
  assumes "disks.more t = disks.more s"
  shows "l_start t = l_start s" "l_size t = l_size s" "l_dev t = l_dev s" "l_n t = l_n s" "l_block t = l_block s"
    "l_outstanding t = l_outstanding s" "l_committing t = l_committing s" "logsys.more t = logsys.more s"
  using assms by (cases s; cases t; simp)+

lemma same_disks:
  assumes "bufs t = bufs s" "platters t = platters s" "idequeue t = idequeue s" "ide_fails t = ide_fails s" "havedisk1 t = havedisk1 s"
  shows "cache_ok t = cache_ok s" "view t = view s" "held t = held s" "dirties t = dirties s" "disk t = disk s"
proof -
  have b: "bf i t = bf i s" for i using assms(1) by (simp add: bf_def)
  show d: "disk t = disk s" using assms(2) by (simp add: disk_def)
  have "lru t = lru s" using assms(1) b by (simp add: lru_def fun_eq_iff)
  then show "cache_ok t = cache_ok s" using assms b d by (simp add: cache_ok_def)
  have "slot t = slot s" using b by (simp add: slot_def fun_eq_iff)
  then show "view t = view s" using b d by (simp add: view_def fun_eq_iff split: option.split)
  show "held t = held s" "dirties t = dirties s" using b by (simp_all add: held_def dirties_def)
qed

lemma log_upd [simp]:
  "cache_ok (s\<lparr>l_n := k\<rparr>) = cache_ok s" "view (s\<lparr>l_n := k\<rparr>) = view s" "held (s\<lparr>l_n := k\<rparr>) = held s" "dirties (s\<lparr>l_n := k\<rparr>) = dirties s"
  "disk (s\<lparr>l_n := k\<rparr>) = disk s"
  by (rule same_disks; simp)+

definition la :: "'a logsys_scheme \<Rightarrow> nat \<Rightarrow> u32" where
  "la s i = l_start s + word_of_nat i + 1"

definition entries :: "'a logsys_scheme \<Rightarrow> u32 list" where
  "entries s = take (nat (l_n s)) (l_block s)"

definition in_log :: "'a logsys_scheme \<Rightarrow> u32 \<Rightarrow> bool" where
  "in_log s b \<longleftrightarrow> unat (l_start s) \<le> unat b \<and> unat b < unat (l_start s) + nat (l_size s)"

text \<open>The log lies on the disk behind the superblock, has room for the entries of the header, and these are different
  blocks outside the log.\<close>

definition log_geom :: "'a logsys_scheme \<Rightarrow> bool" where
  "log_geom s \<longleftrightarrow> l_dev s = ROOTDEV \<and> 2 \<le> unat (l_start s) \<and> l_size s \<le> 30 \<and>
     unat (l_start s) + nat (l_size s) \<le> 1000 \<and> length (l_block s) = 30 \<and> 0 \<le> l_n s \<and> l_n s < l_size s \<and>
     distinct (entries s) \<and> (\<forall>b \<in> set (entries s). 1 < unat b \<and> b < FSSIZE \<and> \<not> in_log s b)"

lemma geom_cong:
  assumes "disks.more t = disks.more s"
  shows "log_geom t = log_geom s" "la t = la s" "entries t = entries s" "in_log t = in_log s"
  using log_more [OF assms] by (auto simp: log_geom_def la_def entries_def in_log_def fun_eq_iff)

lemma geomD:
  assumes "log_geom s"
  shows "l_dev s = ROOTDEV" "length (entries s) = nat (l_n s)" "nat (l_n s) < 30" "l_start s < FSSIZE" "in_log s (l_start s)"
    "i < nat (l_n s) \<Longrightarrow> unat (la s i) = unat (l_start s) + i + 1" "i < nat (l_n s) \<Longrightarrow> in_log s (la s i)"
    "i < nat (l_n s) \<Longrightarrow> la s i < FSSIZE" "i < nat (l_n s) \<Longrightarrow> la s i \<noteq> l_start s"
    "i < nat (l_n s) \<Longrightarrow> entries s ! i \<in> set (entries s)" "i < nat (l_n s) \<Longrightarrow> l_block s ! i = entries s ! i"
    "i < nat (l_n s) \<Longrightarrow> i < length (l_block s)"
proof -
  note G = assms [unfolded log_geom_def]
  show "l_dev s = ROOTDEV" using G by simp
  show n: "length (entries s) = nat (l_n s)" "nat (l_n s) < 30" using G by (auto simp: entries_def)
  show "l_start s < FSSIZE" "in_log s (l_start s)" using G by (auto simp: word_less_nat_alt in_log_def)
  show e: "unat (la s i) = unat (l_start s) + i + 1" if "i < nat (l_n s)" for i
  proof -
    have "i < nat (l_size s)" using that G by linarith
    then have b: "unat (l_start s) + i + 1 < 4294967296" using G by linarith
    have "unat (word_of_nat i :: u32) = i" using b by (intro unat_word_of_nat) simp
    then have "unat (l_start s + word_of_nat i) = unat (l_start s) + i" using b unat_add_nowrap [of "l_start s" "word_of_nat i"] by simp
    then show ?thesis using b unat_add_nowrap [of "l_start s + word_of_nat i" 1] by (simp add: la_def)
  qed
  show "entries s ! i \<in> set (entries s)" if "i < nat (l_n s)" for i using that n(1) by simp
  show "in_log s (la s i)" "la s i < FSSIZE" "la s i \<noteq> l_start s" "l_block s ! i = entries s ! i"
    "i < length (l_block s)" if "i < nat (l_n s)" for i
    using that e [OF that] n G by (auto simp: in_log_def word_less_nat_alt entries_def)
qed

lemma la_inj:
  assumes "log_geom s" "i < nat (l_n s)" "j < nat (l_n s)" "la s i = la s j"
  shows "i = j"
proof -
  have "unat (la s i) = unat (la s j)" using assms(4) by (rule arg_cong)
  then show ?thesis unfolding geomD(6) [OF assms(1,2)] geomD(6) [OF assms(1,3)] by simp
qed

lemma entry_out:
  assumes "log_geom s" "b \<in> set (entries s)"
  shows "b < FSSIZE" "\<not> in_log s b" "b \<noteq> l_start s" "i < nat (l_n s) \<Longrightarrow> b \<noteq> la s i" "b \<noteq> 1"
proof -
  have b: "1 < unat b" "b < FSSIZE" "\<not> in_log s b" using assms by (simp_all add: log_geom_def)
  then show "b < FSSIZE" "\<not> in_log s b" "b \<noteq> 1" by auto
  show "b \<noteq> l_start s" using b(3) geomD(5) [OF assms(1)] by blast
  show "b \<noteq> la s i" if "i < nat (l_n s)" using b(3) geomD(7) [OF assms(1) that] by blast
qed

lemma each_copies:
  assumes "\<And>i s. i \<in> set is \<Longrightarrow> I s \<Longrightarrow> view s (src i) = d i \<Longrightarrow> \<exists>t. f i s = Inr ((), t) \<and> I t \<and>
      store_of t = (store_of s)\<lparr>st_view := (view s)(dst i := d i), st_dirty := dirties s - {dst i}, st_hist := st_wrote (dst i) (d i) (platters s)\<rparr>"
    and "\<And>i j. i \<in> set is \<Longrightarrow> j \<in> set is \<Longrightarrow> src i \<noteq> dst j" and "I s" and "\<And>i. i \<in> set is \<Longrightarrow> view s (src i) = d i"
  shows "\<exists>t. each f is s = Inr ((), t) \<and> I t \<and> store_of t = (store_of s)\<lparr>st_view := upds (map (\<lambda>i. (dst i, d i)) is) (view s),
    st_dirty := dirties s - dst ` set is, st_hist := writes (map (\<lambda>i. (dst i, d i)) is) (platters s)\<rparr>"
  using assms
proof (induction "is" arbitrary: s)
  case (Cons i "is")
  obtain t where t: "f i s = Inr ((), t)" "I t"
    "store_of t = (store_of s)\<lparr>st_view := (view s)(dst i := d i), st_dirty := dirties s - {dst i}, st_hist := st_wrote (dst i) (d i) (platters s)\<rparr>"
    using Cons.prems(1) [OF list.set_intros(1) Cons.prems(3) Cons.prems(4) [OF list.set_intros(1)]] by blast
  have T: "view t = (view s)(dst i := d i)" "dirties t = dirties s - {dst i}" "platters t = st_wrote (dst i) (d i) (platters s)" "held t = held s"
    using t(3) by (simp_all add: store_of_def)
  have V: "view t (src j) = d j" if "j \<in> set is" for j using T(1) Cons.prems(2) [of j i] Cons.prems(4) [of j] that by simp
  have "\<exists>u. each f is t = Inr ((), u) \<and> I u \<and> store_of u = (store_of t)\<lparr>st_view := upds (map (\<lambda>i. (dst i, d i)) is) (view t),
    st_dirty := dirties t - dst ` set is, st_hist := writes (map (\<lambda>i. (dst i, d i)) is) (platters t)\<rparr>"
    by (rule Cons.IH [OF Cons.prems(1) Cons.prems(2) t(2) V]) simp_all
  then obtain u where u: "each f is t = Inr ((), u)" "I u" "store_of u = (store_of t)\<lparr>st_view := upds (map (\<lambda>i. (dst i, d i)) is) (view t),
    st_dirty := dirties t - dst ` set is, st_hist := writes (map (\<lambda>i. (dst i, d i)) is) (platters t)\<rparr>"
    by blast
  have "dirties s - {dst i} - dst ` set is = dirties s - dst ` set (i # is)" by auto
  have "store_of u = (store_of s)\<lparr>st_view := upds (map (\<lambda>i. (dst i, d i)) (i # is)) (view s),
    st_dirty := dirties s - dst ` set (i # is), st_hist := writes (map (\<lambda>i. (dst i, d i)) (i # is)) (platters s)\<rparr>"
    using u(3) t(3) T \<open>dirties s - {dst i} - _ = _\<close> by (simp del: fun_upd_apply)
  then show ?case using t(1) u(1,2) by (intro exI [of _ u]) simp
qed (simp add: store_of_def)

lemma write_log_block_ok:
  assumes C: "cache_ok s" "held s = {}" and G: "log_geom s" and D: "dirties s = set (entries s)" and i: "i < nat (l_n s)"
  shows "\<exists>t. write_log_block i s = Inr ((), t) \<and> cache_ok t \<and> disks.more t = disks.more s \<and>
    store_of t = (store_of s)\<lparr>st_view := (view s)(la s i := view s (entries s ! i)), st_dirty := dirties s - {la s i},
      st_hist := st_wrote (la s i) (view s (entries s ! i)) (platters s)\<rparr>"
proof -
  note g = geomD [OF G] and e = entry_out [OF G geomD(10) [OF G i]]
  have card: "card (dirties s) < 30" using D g(2,3) card_length [of "entries s"] by simp
  obtain y t where t: "bread ROOTDEV (la s i) s = Inr (y, t)" "disks.more t = disks.more s"
    using cache.rd_law [of s "la s i"] C g(8) [OF i] card by auto
  have dirty: "entries s ! i \<in> dirties s" using D g(10) [OF i] by simp
  have "write_log_block i s = bindr (bread ROOTDEV (la s i) s) (\<lambda>(y, s'). bindr (bread ROOTDEV (entries s ! i) s') (\<lambda>(x, s').
      bindr (bwrite y (set_data y (b_data (bf x s')) s')) (\<lambda>(_, s'). bindr (brelse x s') (\<lambda>(_, s'). brelse y s'))))"
    using t(1) log_more [OF t(2)] g(1) g(11,12) [OF i] by (simp add: write_log_block_def la_def)
  then show ?thesis
    using cache.copy_target_first [of s "entries s ! i" "la s i"] C e(1) g(8) [OF i] e(4) [OF i] dirty card by auto
qed

lemma write_log_ok:
  assumes C: "cache_ok s" "held s = {}" and G: "log_geom s" and D: "dirties s = set (entries s)"
  shows "\<exists>t. write_log s = Inr ((), t) \<and> cache_ok t \<and> disks.more t = disks.more s \<and> dirties t = dirties s \<and> held t = {} \<and>
    view t = upds (map (\<lambda>i. (la s i, view s (entries s ! i))) [0..<nat (l_n s)]) (view s) \<and>
    platters t = writes (map (\<lambda>i. (la s i, view s (entries s ! i))) [0..<nat (l_n s)]) (platters s)"
proof -
  let ?I = "\<lambda>t. cache_ok t \<and> held t = {} \<and> disks.more t = disks.more s \<and> dirties t = set (entries s)"
  let ?is = "[0..<nat (l_n s)]"
  have step: "\<exists>u. write_log_block i t = Inr ((), u) \<and> ?I u \<and> store_of u = (store_of t)\<lparr>st_view := (view t)(la s i := view s (entries s ! i)),
      st_dirty := dirties t - {la s i}, st_hist := st_wrote (la s i) (view s (entries s ! i)) (platters t)\<rparr>"
    if i: "i \<in> set ?is" and I: "?I t" and v: "view t (entries s ! i) = view s (entries s ! i)" for i t
  proof -
    have m: "disks.more t = disks.more s" using I by simp
    note c = geom_cong [OF m] and lm = log_more [OF m]
    have i': "i < nat (l_n t)" using i lm by simp
    obtain u where u: "write_log_block i t = Inr ((), u)" "cache_ok u" "disks.more u = disks.more t"
      "store_of u = (store_of t)\<lparr>st_view := (view t)(la s i := view s (entries s ! i)), st_dirty := dirties t - {la s i},
        st_hist := st_wrote (la s i) (view s (entries s ! i)) (platters t)\<rparr>"
      using write_log_block_ok [of t i] I G i' v unfolding c by auto
    have "la s i \<notin> set (entries s)" using entry_out(4) [OF G] i by auto
    then have "held u = {}" "dirties u = set (entries s)" using u(4) I by (auto simp: store_of_def)
    then show ?thesis using u m by (intro exI [of _ u]) (simp del: fun_upd_apply)
  qed
  have "\<exists>t. each write_log_block ?is s = Inr ((), t) \<and> ?I t \<and> store_of t = (store_of s)\<lparr>st_view := upds (map (\<lambda>i. (la s i, view s (entries s ! i))) ?is) (view s),
    st_dirty := dirties s - la s ` set ?is, st_hist := writes (map (\<lambda>i. (la s i, view s (entries s ! i))) ?is) (platters s)\<rparr>"
  proof (rule each_copies [where src = "\<lambda>i. entries s ! i"], rule step, assumption+)
    show "entries s ! i \<noteq> la s j" if "i \<in> set ?is" "j \<in> set ?is" for i j using entry_out(4) [OF G geomD(10) [OF G]] that by simp
    show "?I s" using C D by simp
  qed simp
  then obtain t where "each write_log_block ?is s = Inr ((), t)" "?I t" "store_of t = (store_of s)\<lparr>st_view := upds (map (\<lambda>i. (la s i, view s (entries s ! i))) ?is) (view s),
    st_dirty := dirties s - la s ` set ?is, st_hist := writes (map (\<lambda>i. (la s i, view s (entries s ! i))) ?is) (platters s)\<rparr>" by blast
  then show ?thesis using D by (intro exI [of _ t]) (auto simp: write_log_def store_of_def)
qed

lemma install_block_ok:
  assumes C: "cache_ok s" "held s = {}" and G: "log_geom s" and D: "dirties s \<subseteq> set (entries s)" and i: "i < nat (l_n s)"
  shows "\<exists>t. install_block i s = Inr ((), t) \<and> cache_ok t \<and> disks.more t = disks.more s \<and>
    store_of t = (store_of s)\<lparr>st_view := (view s)(entries s ! i := view s (la s i)), st_dirty := dirties s - {entries s ! i},
      st_hist := st_wrote (entries s ! i) (view s (la s i)) (platters s)\<rparr>"
proof -
  note g = geomD [OF G] and e = entry_out [OF G geomD(10) [OF G i]]
  have "card (dirties s) \<le> card (set (entries s))" using D by (simp add: card_mono)
  then have card: "card (dirties s) < 30" using g(2,3) card_length [of "entries s"] by linarith
  have nd: "la s i \<notin> dirties s" using D entry_out(4) [OF G _ i] by blast
  have v: "view s (la s i) = disk s (ROOTDEV, la s i)" using view_clean [OF C(1)] C(2) nd by simp
  have second: "entries s ! i \<in> dirties s \<or> card (insert (la s i) (dirties s)) < 30"
  proof (cases "entries s ! i \<in> dirties s")
    case False
    then have "dirties s \<subseteq> set (entries s) - {entries s ! i}" using D by blast
    then have "card (dirties s) \<le> card (set (entries s) - {entries s ! i})" by (simp add: card_mono)
    also have "\<dots> < 29" using g(2,3) g(10) [OF i] card_length [of "entries s"] by (simp add: card_Diff_singleton)
    finally show ?thesis using card_insert_le_m1 [of 30 "dirties s" "la s i"] by (simp add: card_insert_if finite_subset [OF D])
  qed simp
  obtain y t where t: "bread ROOTDEV (la s i) s = Inr (y, t)" "disks.more t = disks.more s"
    using cache.rd_law [of s "la s i"] C g(8) [OF i] card by auto
  have "install_block i s = bindr (bread ROOTDEV (la s i) s) (\<lambda>(x, s'). bindr (bread ROOTDEV (entries s ! i) s') (\<lambda>(y, s').
      bindr (bwrite y (set_data y (b_data (bf x s')) s')) (\<lambda>(_, s'). bindr (brelse x s') (\<lambda>(_, s'). brelse y s'))))"
    using t(1) log_more [OF t(2)] g(1) g(11,12) [OF i] by (simp add: install_block_def la_def)
  then show ?thesis
    using cache.copy_source_first [of s "la s i" "entries s ! i"] C e(1) g(8) [OF i] e(4) [OF i] card v second by auto
qed

lemma install_trans_ok:
  assumes C: "cache_ok s" "held s = {}" and G: "log_geom s" and D: "dirties s \<subseteq> set (entries s)"
  shows "\<exists>t. install_trans s = Inr ((), t) \<and> cache_ok t \<and> disks.more t = disks.more s \<and> dirties t = {} \<and> held t = {} \<and>
    view t = upds (map (\<lambda>i. (entries s ! i, view s (la s i))) [0..<nat (l_n s)]) (view s) \<and>
    platters t = writes (map (\<lambda>i. (entries s ! i, view s (la s i))) [0..<nat (l_n s)]) (platters s)"
proof -
  let ?I = "\<lambda>t. cache_ok t \<and> held t = {} \<and> disks.more t = disks.more s \<and> dirties t \<subseteq> set (entries s)"
  let ?is = "[0..<nat (l_n s)]"
  have step: "\<exists>u. install_block i t = Inr ((), u) \<and> ?I u \<and> store_of u = (store_of t)\<lparr>st_view := (view t)(entries s ! i := view s (la s i)),
      st_dirty := dirties t - {entries s ! i}, st_hist := st_wrote (entries s ! i) (view s (la s i)) (platters t)\<rparr>"
    if i: "i \<in> set ?is" and I: "?I t" and v: "view t (la s i) = view s (la s i)" for i t
  proof -
    have m: "disks.more t = disks.more s" using I by simp
    note c = geom_cong [OF m] and lm = log_more [OF m]
    have i': "i < nat (l_n t)" using i lm by simp
    obtain u where u: "install_block i t = Inr ((), u)" "cache_ok u" "disks.more u = disks.more t"
      "store_of u = (store_of t)\<lparr>st_view := (view t)(entries s ! i := view s (la s i)), st_dirty := dirties t - {entries s ! i},
        st_hist := st_wrote (entries s ! i) (view s (la s i)) (platters t)\<rparr>"
      using install_block_ok [of t i] I G i' v unfolding c by auto
    then have "held u = {}" "dirties u \<subseteq> set (entries s)" using u(4) I by (auto simp: store_of_def)
    then show ?thesis using u m by (intro exI [of _ u]) (simp del: fun_upd_apply)
  qed
  have "\<exists>t. each install_block ?is s = Inr ((), t) \<and> ?I t \<and> store_of t = (store_of s)\<lparr>st_view := upds (map (\<lambda>i. (entries s ! i, view s (la s i))) ?is) (view s),
    st_dirty := dirties s - (\<lambda>i. entries s ! i) ` set ?is, st_hist := writes (map (\<lambda>i. (entries s ! i, view s (la s i))) ?is) (platters s)\<rparr>"
  proof (rule each_copies [where src = "la s"], rule step, assumption+)
    show "la s i \<noteq> entries s ! j" if "i \<in> set ?is" "j \<in> set ?is" for i j using entry_out(4) [OF G geomD(10) [OF G], of j i] that by auto
    show "?I s" using C D by simp
  qed simp
  then obtain t where "each install_block ?is s = Inr ((), t)" "?I t" "store_of t = (store_of s)\<lparr>st_view := upds (map (\<lambda>i. (entries s ! i, view s (la s i))) ?is) (view s),
    st_dirty := dirties s - (\<lambda>i. entries s ! i) ` set ?is, st_hist := writes (map (\<lambda>i. (entries s ! i, view s (la s i))) ?is) (platters s)\<rparr>" by blast
  moreover have "(\<lambda>i. entries s ! i) ` set ?is = set (entries s)" 
    using geomD(2) [OF G] nth_image [of "nat (l_n s)" "entries s"] by (simp add: atLeast_upt)
  ultimately show ?thesis using D by (intro exI [of _ t]) (auto simp: install_trans_def store_of_def)
qed

lemma write_head_ok:
  assumes C: "cache_ok s" "held s = {}" and G: "log_geom s" and D: "dirties s \<subseteq> set (entries s)"
  shows "\<exists>t. write_head s = Inr ((), t) \<and> cache_ok t \<and> disks.more t = disks.more s \<and> dirties t = dirties s \<and> held t = {} \<and>
    view t = (view s)(l_start s := head_bytes (l_n s) (l_block s) (view s (l_start s))) \<and>
    platters t = st_wrote (l_start s) (head_bytes (l_n s) (l_block s) (view s (l_start s))) (platters s)"
proof -
  note g = geomD [OF G]
  have nd: "l_start s \<notin> dirties s" using D entry_out(3) [OF G] by blast
  have "card (dirties s) \<le> card (set (entries s))" using D by (simp add: card_mono)
  then have card: "card (dirties s) < 30" using g(2,3) card_length [of "entries s"] by linarith
  obtain b t where t: "bread ROOTDEV (l_start s) s = Inr (b, t)" "disks.more t = disks.more s"
    using cache.rd_law [of s "l_start s"] C g(4) card by auto
  have "l_n s \<le> int (length (l_block s))" using G by (simp add: log_geom_def)
  then have "write_head s = bindr (bread ROOTDEV (l_start s) s) (\<lambda>(x, s').
      bindr (bwrite x (set_data x (head_bytes (l_n s) (l_block s) (b_data (bf x s'))) s')) (\<lambda>(_, s'). brelse x s'))"
    using t(1) log_more [OF t(2)] g(1) by (simp add: write_head_def)
  then obtain u where "write_head s = Inr ((), u)" "cache_ok u" "disks.more u = disks.more s"
    "store_of u = (store_of s)\<lparr>st_view := (view s)(l_start s := head_bytes (l_n s) (l_block s) (view s (l_start s))), st_dirty := dirties s - {l_start s},
      st_hist := st_wrote (l_start s) (head_bytes (l_n s) (l_block s) (view s (l_start s))) (platters s)\<rparr>"
    using cache.put_block [of s "l_start s" "head_bytes (l_n s) (l_block s)"] C g(4) card by auto
  then show ?thesis using nd C(2) by (intro exI [of _ u]) (auto simp: store_of_def)
qed

section \<open>Commit\<close>

text \<open>The writes of a commit, in order: the log blocks, the header, the blocks themselves, the header again.\<close>

definition commit_writes :: "'a logsys_scheme \<Rightarrow> (u32 \<times> block) list" where
  "commit_writes s = map (\<lambda>i. (la s i, view s (entries s ! i))) [0..<nat (l_n s)] @
     [(l_start s, head_bytes (l_n s) (l_block s) (view s (l_start s)))] @
     map (\<lambda>i. (entries s ! i, view s (entries s ! i))) [0..<nat (l_n s)] @
     [(l_start s, head_bytes 0 (l_block s) (head_bytes (l_n s) (l_block s) (view s (l_start s))))]"

lemma distinct_la: "log_geom s \<Longrightarrow> distinct (map (la s) [0..<nat (l_n s)])"
  using la_inj [of s] by (auto simp: distinct_map inj_on_def)

lemma commit_ok:
  assumes C: "cache_ok s" "held s = {}" and G: "log_geom s" and D: "dirties s = set (entries s)" and n: "0 < l_n s"
  shows "\<exists>t. commit s = Inr ((), t) \<and> cache_ok t \<and> held t = {} \<and> dirties t = {} \<and> disks.more t = disks.more (s\<lparr>l_n := 0\<rparr>) \<and>
    platters t = writes (commit_writes s) (platters s) \<and> (\<forall>b. \<not> in_log s b \<longrightarrow> view t b = view s b)"
proof -
  let ?n = "nat (l_n s)"
  obtain t where t: "write_log s = Inr ((), t)" "cache_ok t" "disks.more t = disks.more s" "dirties t = dirties s" "held t = {}"
    "view t = upds (map (\<lambda>i. (la s i, view s (entries s ! i))) [0..<?n]) (view s)"
    "platters t = writes (map (\<lambda>i. (la s i, view s (entries s ! i))) [0..<?n]) (platters s)"
    using write_log_ok [OF C G D] by blast
  note ct = geom_cong [OF t(3)] log_more [OF t(3)]
  have vla: "view t (la s i) = view s (entries s ! i)" if "i < ?n" for i
    unfolding t(6) by (rule upds_in) (use distinct_la [OF G] that in \<open>auto simp: comp_def\<close>)
  have vout: "view t b = view s b" if "\<forall>i < ?n. b \<noteq> la s i" for b
    unfolding t(6) by (rule upds_out) (use that in auto)
  have "\<forall>i < ?n. l_start s \<noteq> la s i" using geomD(9) [OF G] by metis
  from vout [OF this] have vst: "view t (l_start s) = view s (l_start s)" .
  define H where "H = head_bytes (l_n s) (l_block s) (view s (l_start s))"
  obtain u where u: "write_head t = Inr ((), u)" "cache_ok u" "disks.more u = disks.more s" "dirties u = dirties s" "held u = {}"
    "view u = (view t)(l_start s := H)" "platters u = st_wrote (l_start s) H (platters t)"
    using write_head_ok [OF t(2,5)] G D t(3,4) vst unfolding ct H_def by auto
  note cu = geom_cong [OF u(3)] log_more [OF u(3)]
  have vu: "view u (la s i) = view s (entries s ! i)" if "i < ?n" for i
    using u(6) vla [OF that] geomD(9) [OF G that] by simp
  have ws: "map (\<lambda>i. (entries s ! i, view u (la s i))) [0..<?n] = map (\<lambda>i. (entries s ! i, view s (entries s ! i))) [0..<?n]"
    using vu by simp
  obtain v where v: "install_trans u = Inr ((), v)" "cache_ok v" "disks.more v = disks.more s" "dirties v = {}" "held v = {}"
    "view v = upds (map (\<lambda>i. (entries s ! i, view s (entries s ! i))) [0..<?n]) (view u)"
    "platters v = writes (map (\<lambda>i. (entries s ! i, view s (entries s ! i))) [0..<?n]) (platters u)"
    using install_trans_ok [OF u(2,5)] G D u(3,4) ws unfolding cu by auto
  note cv = geom_cong [OF v(3)] log_more [OF v(3)]
  let ?v = "v\<lparr>l_n := 0\<rparr>"
  have G': "log_geom ?v" "entries ?v = []"
    using G cv by (auto simp: log_geom_def entries_def in_log_def)
  have vst': "view v (l_start s) = H"
  proof -
    have "\<forall>i < ?n. l_start s \<noteq> entries s ! i" using entry_out(3) [OF G geomD(10) [OF G]] by metis
    then have "view v (l_start s) = view u (l_start s)" unfolding v(6) by (intro upds_out) auto
    then show ?thesis using u(6) by simp
  qed
  obtain w where w: "write_head ?v = Inr ((), w)" "cache_ok w" "disks.more w = disks.more ?v" "dirties w = {}" "held w = {}"
    "view w = (view v)(l_start s := head_bytes 0 (l_block s) H)" "platters w = st_wrote (l_start s) (head_bytes 0 (l_block s) H) (platters v)"
    using write_head_ok [of ?v] G' v(2,4,5) cv vst' by auto
  have "disks.more ?v = disks.more (s\<lparr>l_n := 0\<rparr>)" using v(3) by (cases v; cases s) simp
  moreover have "commit s = Inr ((), w)" using n t(1) u(1) v(1) w(1) by (simp add: commit_def)
  moreover have "platters w = writes (commit_writes s) (platters s)"
    unfolding commit_writes_def using t(7) u(7) v(7) w(7) by (simp add: H_def)
  moreover have "view w b = view s b" if b: "\<not> in_log s b" for b
  proof -
    have nb: "b \<noteq> l_start s" "\<forall>i < ?n. b \<noteq> la s i" using b geomD(5,7) [OF G] by metis+
    have "view w b = view v b" using w(6) nb(1) by simp
    also have "\<dots> = view s b"
    proof (cases "b \<in> set (entries s)")
      case True
      then obtain i where i: "i < ?n" "b = entries s ! i" using geomD(2) [OF G] by (metis in_set_conv_nth)
      have "distinct (map (\<lambda>i. entries s ! i) [0..<?n])" using G geomD(2) [OF G] by (metis log_geom_def map_nth)
      then show ?thesis unfolding v(6) by (intro upds_in) (use i in \<open>auto simp: comp_def\<close>)
    next
      case False
      then have "view v b = view u b" unfolding v(6) by (intro upds_out) (use geomD(10) [OF G] in auto)
      then show ?thesis using u(6) nb vout by simp
    qed
    finally show ?thesis .
  qed
  ultimately show ?thesis using w by (intro exI [of _ w]) simp
qed

section \<open>Recovery\<close>

lemma log_upd_other [simp]:
  "cache_ok (s\<lparr>l_block := k\<rparr>) = cache_ok s" "view (s\<lparr>l_block := k\<rparr>) = view s" "held (s\<lparr>l_block := k\<rparr>) = held s"
  "dirties (s\<lparr>l_block := k\<rparr>) = dirties s" "disk (s\<lparr>l_block := k\<rparr>) = disk s"
  "cache_ok (s\<lparr>l_start := a, l_size := b, l_dev := c\<rparr>) = cache_ok s" "view (s\<lparr>l_start := a, l_size := b, l_dev := c\<rparr>) = view s"
  "held (s\<lparr>l_start := a, l_size := b, l_dev := c\<rparr>) = held s" "dirties (s\<lparr>l_start := a, l_size := b, l_dev := c\<rparr>) = dirties s"
  "disk (s\<lparr>l_start := a, l_size := b, l_dev := c\<rparr>) = disk s"
  by (rule same_disks; simp)+

lemma slot_log_upd [simp]: "slot (s\<lparr>l_block := k\<rparr>) = slot s" "slot (s\<lparr>l_n := n\<rparr>) = slot s"
  by (simp_all add: slot_def bf_def fun_eq_iff)

definition head_entries :: "block \<Rightarrow> u32 list" where
  "head_entries lh = map (\<lambda>i. rd32 lh (4 + 4 * i)) [0..<nat (sint (rd32 lh 0))]"

lemma each_read_head:
  assumes "k \<le> length (l_block s)"
  shows "each (\<lambda>i s. if i < length (l_block s) then Inr ((), s\<lparr>l_block := (l_block s)[i := f i]\<rparr>) else Inl OutOfBounds) [0..<k] s =
    Inr ((), s\<lparr>l_block := map f [0..<k] @ drop k (l_block s)\<rparr>)"
proof -
  have app: "each g (xs @ ys) s = bindr (each g xs s) (\<lambda>(_, s). each g ys s)" for g :: "'i \<Rightarrow> 's \<Rightarrow> (unit \<times> 's) res" and xs ys s
    by (induction xs arbitrary: s) (auto simp: bindr_assoc intro!: bindr_cong)
  show ?thesis
    using assms
  proof (induction k)
    case (Suc k)
    have "(map f [0..<k] @ drop k (l_block s))[k := f k] = map f [0..<Suc k] @ drop (Suc k) (l_block s)"
      using Suc.prems by (simp add: list_update_append Cons_nth_drop_Suc [symmetric])
    then show ?case using Suc by (simp add: app del: upt_Suc add: upt_Suc_append)
  qed simp
qed

lemma read_head_ok:
  assumes C: "cache_ok s" "held s = {}" "dirties s = {}" and l: "l_dev s = ROOTDEV" "l_start s < FSSIZE" "length (l_block s) = 30"
    and n: "sint (rd32 (disk s (ROOTDEV, l_start s)) 0) \<le> 30"
  defines "lh \<equiv> disk s (ROOTDEV, l_start s)"
  shows "\<exists>t. read_head s = Inr ((), t) \<and> cache_ok t \<and> held t = {} \<and> dirties t = {} \<and> platters t = platters s \<and>
    disks.more t = disks.more (s\<lparr>l_n := sint (rd32 lh 0), l_block := head_entries lh @ drop (length (head_entries lh)) (l_block s)\<rparr>)"
proof -
  obtain b t where t: "bread ROOTDEV (l_start s) s = Inr (b, t)" "cache_ok t" "slot t (l_start s) = Some b"
    "store_of t = (store_of s)\<lparr>st_held := {l_start s}\<rparr>" "disks.more t = disks.more s"
    using cache.rd_law [of s "l_start s"] C l(2) by auto
  have T: "held t = {l_start s}" "dirties t = {}" "platters t = platters s" "view t = view s" using t(4) C(3) by (simp_all add: store_of_def)
  have "view s (l_start s) = lh" using view_clean [OF C(1)] C(2,3) by (simp add: lh_def)
  then have d: "b_data (bf b t) = lh" using slot_held(3) [OF t(2,3)] T(4) by simp
  define u where "u = t\<lparr>l_n := sint (rd32 lh 0), l_block := head_entries lh @ drop (length (head_entries lh)) (l_block t)\<rparr>"
  have U: "cache_ok u" "slot u (l_start s) = Some b" "held u = {l_start s}" "dirties u = {}" "platters u = platters s"
    "view u (l_start s) = disk u (ROOTDEV, l_start s)"
    using t(2,3) T d C view_clean [OF C(1)] unfolding u_def by (simp_all add: disk_def)
  have lm: "l_block t = l_block s" "l_dev s = ROOTDEV" using log_more [OF t(5)] l(1) by simp_all
  have e: "nat (sint (rd32 lh 0)) = length (head_entries lh)" by (simp add: head_entries_def)
  have "length (head_entries lh) \<le> 30" using n by (simp add: head_entries_def lh_def)
  then have "each (\<lambda>i s. if i < length (l_block s) then Inr ((), s\<lparr>l_block := (l_block s)[i := rd32 lh (4 + 4 * i)]\<rparr>) else Inl OutOfBounds)
      [0..<nat (sint (rd32 lh 0))] (t\<lparr>l_n := sint (rd32 lh 0)\<rparr>) = Inr ((), u)"
    using each_read_head [of "nat (sint (rd32 lh 0))" "t\<lparr>l_n := sint (rd32 lh 0)\<rparr>" "\<lambda>i. rd32 lh (4 + 4 * i)"] l(3) lm(1)
    by (simp add: u_def head_entries_def)
  then have "read_head s = brelse b u" unfolding read_head_def lm(2) t(1) bindr_Inr prod.case Let_def d by simp
  moreover obtain v where v: "brelse b u = Inr ((), v)" "cache_ok v" "store_of v = (store_of u)\<lparr>st_held := {}\<rparr>" "disks.more v = disks.more u"
    using cache.rel_law [OF U(1,2)] U(3,6) by auto
  moreover have "disks.more u = disks.more (s\<lparr>l_n := sint (rd32 lh 0), l_block := head_entries lh @ drop (length (head_entries lh)) (l_block s)\<rparr>)"
    using t(5) lm(1) unfolding u_def by (cases t; cases s) simp
  ultimately show ?thesis using U by (intro exI [of _ v]) (auto simp: store_of_def)
qed

text \<open>The state of the log as read from the disk, and what installing it makes of the disk.\<close>

definition log_read :: "'a logsys_scheme \<Rightarrow> 'a logsys_scheme" where
  "log_read s =
    (let sb = disk s (ROOTDEV, 1); st = rd32 sb 16; lh = disk s (ROOTDEV, st)
     in s\<lparr>l_start := st, l_size := sint (rd32 sb 12), l_dev := ROOTDEV, l_n := sint (rd32 lh 0),
          l_block := head_entries lh @ drop (length (head_entries lh)) (l_block s)\<rparr>)"

definition redo :: "'a logsys_scheme \<Rightarrow> (u32 \<Rightarrow> block) \<Rightarrow> u32 \<Rightarrow> block" where
  "redo r D = upds (map (\<lambda>i. (entries r ! i, D (la r i))) [0..<nat (l_n r)]) D"

lemma initlog_ok:
  assumes C: "cache_ok s" "held s = {}" "dirties s = {}" "length (l_block s) = 30" and G: "log_geom (log_read s)"
  shows "\<exists>t. initlog ROOTDEV s = Inr ((), t) \<and> cache_ok t \<and> held t = {} \<and> dirties t = {} \<and>
    disks.more t = disks.more ((log_read s)\<lparr>l_n := 0\<rparr>) \<and>
    (\<forall>b. b \<noteq> l_start (log_read s) \<longrightarrow> disk t (ROOTDEV, b) = redo (log_read s) (\<lambda>b. disk s (ROOTDEV, b)) b) \<and>
    rd32 (disk t (ROOTDEV, l_start (log_read s))) 0 = 0"
proof -
  let ?sb = "disk s (ROOTDEV, 1)"
  obtain b t where t: "bread ROOTDEV 1 s = Inr (b, t)" "cache_ok t" "slot t 1 = Some b"
    "store_of t = (store_of s)\<lparr>st_held := {1}\<rparr>" "disks.more t = disks.more s"
    using cache.rd_law [of s 1] C by auto
  have T: "held t = {1}" "dirties t = {}" "platters t = platters s" "view t = view s" using t(4) C(3) by (simp_all add: store_of_def)
  have vs: "view s c = disk s (ROOTDEV, c)" for c using view_clean [OF C(1)] C(2,3) by simp
  have d: "b_data (bf b t) = ?sb" using slot_held(3) [OF t(2,3)] T(4) vs by simp
  obtain u where u: "brelse b t = Inr ((), u)" "cache_ok u" "store_of u = (store_of t)\<lparr>st_held := {}\<rparr>" "disks.more u = disks.more s"
    using cache.rel_law [OF t(2,3)] T(1,3,4) vs t(5) by (auto simp: disk_def)
  have U: "held u = {}" "dirties u = {}" "platters u = platters s" using u(3) T by (simp_all add: store_of_def)
  define v where "v = u\<lparr>l_start := rd32 ?sb 16, l_size := sint (rd32 ?sb 12), l_dev := ROOTDEV\<rparr>"
  have V: "cache_ok v" "held v = {}" "dirties v = {}" "platters v = platters s" "disk v = disk s" "l_dev v = ROOTDEV" "l_start v = l_start (log_read s)"
    "length (l_block v) = 30" "l_block v = l_block s"
    using u(2) U C(4) log_more(5) [OF u(4)] by (simp_all add: v_def disk_def log_read_def Let_def)
  have run: "initlog ROOTDEV s = recover_from_log v"
    unfolding initlog_def t(1) bindr_Inr prod.case Let_def d u(1) v_def ..
  let ?r = "log_read s" and ?D = "\<lambda>b. disk s (ROOTDEV, b)"
  have rn: "l_n ?r = sint (rd32 (disk v (ROOTDEV, l_start v)) 0)" using V(5,7) by (simp add: log_read_def Let_def)
  have "l_n ?r \<le> 30" "l_start ?r < FSSIZE" using G geomD(4) [OF G] by (auto simp: log_geom_def)
  then obtain w where w: "read_head v = Inr ((), w)" "cache_ok w" "held w = {}" "dirties w = {}" "platters w = platters v"
    "disks.more w = disks.more (v\<lparr>l_n := sint (rd32 (disk v (ROOTDEV, l_start v)) 0),
      l_block := head_entries (disk v (ROOTDEV, l_start v)) @ drop (length (head_entries (disk v (ROOTDEV, l_start v)))) (l_block v)\<rparr>)"
    using read_head_ok [OF V(1-3,6) _ V(8)] V(7) rn by auto
  have mw: "disks.more w = disks.more ?r"
    using w(6) u(4) V(5,7,9) unfolding v_def log_read_def Let_def by (cases u; cases s) simp
  note cw = geom_cong [OF mw] log_more [OF mw]
  have wv: "view w c = ?D c" for c using view_clean [OF w(2)] w(3,4,5) V(4) by (simp add: disk_def)
  obtain x where x: "install_trans w = Inr ((), x)" "cache_ok x" "disks.more x = disks.more ?r" "dirties x = {}" "held x = {}"
    "view x = redo ?r ?D" "platters x = writes (map (\<lambda>i. (entries ?r ! i, ?D (la ?r i))) [0..<nat (l_n ?r)]) (platters s)"
    using install_trans_ok [OF w(2,3)] G w(4,5) V(4) mw unfolding cw redo_def wv by auto
  note cx = geom_cong [OF x(3)] log_more [OF x(3)]
  let ?x = "x\<lparr>l_n := 0\<rparr>"
  have "log_geom ?x" "entries ?x = []" using G cx by (auto simp: log_geom_def entries_def in_log_def)
  then obtain y where y: "write_head ?x = Inr ((), y)" "cache_ok y" "held y = {}" "dirties y = {}" "disks.more y = disks.more ?x"
    "view y = (view x)(l_start ?r := head_bytes 0 (l_block ?r) (view x (l_start ?r)))"
    using write_head_ok [of ?x] x(2,4,5) cx by auto
  have yv: "disk y (ROOTDEV, c) = view y c" for c using view_clean [OF y(2)] y(3,4) by simp
  have "initlog ROOTDEV s = Inr ((), y)" using run w(1) x(1) y(1) by (simp add: recover_from_log_def)
  moreover have "disks.more y = disks.more (?r\<lparr>l_n := 0\<rparr>)" using y(5) x(3) by (cases x; cases ?r) simp
  moreover have "rd32 (head_bytes 0 bl h) 0 = 0" for bl h by (simp add: head_bytes_def rd32_wr32_same)
  ultimately show ?thesis using y yv x(6) by (intro exI [of _ y]) simp
qed

section \<open>Power failures\<close>

text \<open>The machine after a power failure: the contents of the disk are left, the cache is empty.\<close>

definition boot :: "platter \<Rightarrow> logsys" where
  "boot p = binit \<lparr>bufs = replicate 31 zero_buf, idequeue = None, havedisk1 = True, ide_cmd = None, ide_data = \<lambda>_. 0,
     ide_fails = \<lambda>_. False, platters = [p],
     l_start = 0, l_size = 0, l_outstanding = 0, l_committing = False, l_dev = 0, l_n = 0, l_block = replicate 30 0\<rparr>"

lemma boot_ok:
  "cache_ok (boot p)" "held (boot p) = {}" "dirties (boot p) = {}" "length (l_block (boot p)) = 30" "disk (boot p) = p"
proof -
  let ?s = "\<lparr>bufs = replicate 31 zero_buf, idequeue = None, havedisk1 = True, ide_cmd = None, ide_data = \<lambda>_. 0,
     ide_fails = \<lambda>_. False, platters = [p],
     l_start = 0, l_size = 0, l_outstanding = 0, l_committing = False, l_dev = 0, l_n = 0, l_block = replicate 30 0\<rparr>"
  note F = binit_fresh [of ?s, folded boot_def]
  show "cache_ok (boot p)" "held (boot p) = {}" "dirties (boot p) = {}" using F(1-3) by simp_all
  show "disk (boot p) = p" using F(4) by (simp add: disk_def)
  have "l_block (boot p) = l_block ?s" unfolding boot_def by (rule log_more(5) [OF binit_rest(5)])
  then show "length (l_block (boot p)) = 30" by simp
qed

text \<open>The invariant of the log while no operation is under way: the header on the disk is empty, and the dirty
  blocks are those of the current transaction.\<close>

definition log_inv :: "'a logsys_scheme \<Rightarrow> bool" where
  "log_inv s \<longleftrightarrow> cache_ok s \<and> log_geom s \<and> dirties s = set (entries s) \<and> rd32 (disk s (ROOTDEV, l_start s)) 0 = 0 \<and>
     rd32 (disk s (ROOTDEV, 1)) 16 = l_start s \<and> sint (rd32 (disk s (ROOTDEV, 1)) 12) = l_size s"

text \<open>What recovery makes of contents whose header names the blocks of transaction \<open>s\<close>, or none.\<close>

definition sb_like :: "'a logsys_scheme \<Rightarrow> platter \<Rightarrow> bool" where
  "sb_like s p \<longleftrightarrow> rd32 (p (ROOTDEV, 1)) 16 = l_start s \<and> sint (rd32 (p (ROOTDEV, 1)) 12) = l_size s"

lemma recover_empty:
  assumes G: "log_geom s" and p: "sb_like s p" "rd32 (p (ROOTDEV, l_start s)) 0 = 0"
  shows "\<exists>t. initlog ROOTDEV (boot p) = Inr ((), t) \<and> (\<forall>b. \<not> in_log s b \<longrightarrow> disk t (ROOTDEV, b) = p (ROOTDEV, b))"
proof -
  let ?r = "log_read (boot p)"
  have r: "l_start ?r = l_start s" "l_size ?r = l_size s" "l_dev ?r = ROOTDEV" "l_n ?r = 0" "length (l_block ?r) = 30"
    using p boot_ok(4,5) [of p] by (simp_all add: log_read_def Let_def sb_like_def head_entries_def)
  have "log_geom ?r" using G r by (auto simp: log_geom_def entries_def in_log_def)
  then obtain t where "initlog ROOTDEV (boot p) = Inr ((), t)" "\<forall>b. b \<noteq> l_start s \<longrightarrow> disk t (ROOTDEV, b) = redo ?r (\<lambda>b. p (ROOTDEV, b)) b"
    using initlog_ok [OF boot_ok(1-4) [of p]] r(1) boot_ok(5) [of p] by auto
  moreover have "redo ?r D = D" for D using r(4) by (simp add: redo_def)
  ultimately show ?thesis using geomD(5) [OF G] by metis
qed

lemma recover_full:
  assumes G: "log_geom s" and p: "sb_like s p" "p (ROOTDEV, l_start s) = head_bytes (l_n s) (l_block s) h"
    "\<And>i. i < nat (l_n s) \<Longrightarrow> p (ROOTDEV, la s i) = V (entries s ! i)"
    "\<And>b. \<not> in_log s b \<Longrightarrow> b \<notin> set (entries s) \<Longrightarrow> p (ROOTDEV, b) = V b"
  shows "\<exists>t. initlog ROOTDEV (boot p) = Inr ((), t) \<and> (\<forall>b. \<not> in_log s b \<longrightarrow> disk t (ROOTDEV, b) = V b)"
proof -
  let ?r = "log_read (boot p)" and ?n = "nat (l_n s)"
  have n: "0 \<le> l_n s" "l_n s < 30" "length (l_block s) = 30" using G by (auto simp: log_geom_def)
  have hn: "sint (rd32 (p (ROOTDEV, l_start s)) 0) = l_n s" using head_bytes_read(1) [of "l_n s"] n p(2) by simp
  have he: "head_entries (p (ROOTDEV, l_start s)) = entries s"
  proof (rule nth_equalityI)
    show "length (head_entries (p (ROOTDEV, l_start s))) = length (entries s)" using hn geomD(2) [OF G] by (simp add: head_entries_def)
    fix i assume "i < length (head_entries (p (ROOTDEV, l_start s)))"
    then have i: "i < ?n" using hn by (simp add: head_entries_def)
    have "rd32 (head_bytes (l_n s) (l_block s) h) (4 + 4 * i) = l_block s ! i" using head_bytes_read(2) [of "l_n s" i] n i by simp
    then show "head_entries (p (ROOTDEV, l_start s)) ! i = entries s ! i" using i hn p(2) geomD(11) [OF G i] by (simp add: head_entries_def)
  qed
  have r: "l_start ?r = l_start s" "l_size ?r = l_size s" "l_dev ?r = ROOTDEV" "l_n ?r = l_n s" "length (l_block ?r) = 30" "entries ?r = entries s"
    using p(1) boot_ok(4,5) [of p] hn he n geomD(2) [OF G] by (simp_all add: log_read_def Let_def sb_like_def entries_def)
  have "log_geom ?r" using G r by (auto simp: log_geom_def in_log_def)
  then obtain t where t: "initlog ROOTDEV (boot p) = Inr ((), t)" "\<forall>b. b \<noteq> l_start s \<longrightarrow> disk t (ROOTDEV, b) = redo ?r (\<lambda>b. p (ROOTDEV, b)) b"
    using initlog_ok [OF boot_ok(1-4) [of p]] r(1) boot_ok(5) [of p] by auto
  have la: "la ?r = la s" using r(1) by (simp add: la_def fun_eq_iff)
  have rd: "redo ?r (\<lambda>b. p (ROOTDEV, b)) = upds (map (\<lambda>i. (entries s ! i, V (entries s ! i))) [0..<?n]) (\<lambda>b. p (ROOTDEV, b))"
    unfolding redo_def la r(4,6) using p(3) by (intro arg_cong [where f = "\<lambda>ws. upds ws _"]) simp
  have "redo ?r (\<lambda>b. p (ROOTDEV, b)) b = V b" if b: "\<not> in_log s b" for b
  proof (cases "b \<in> set (entries s)")
    case True
    then obtain i where i: "i < ?n" "b = entries s ! i" using geomD(2) [OF G] by (metis in_set_conv_nth)
    have "distinct (map (\<lambda>i. entries s ! i) [0..<?n])" using G geomD(2) [OF G] by (metis log_geom_def map_nth)
    then show ?thesis unfolding rd by (intro upds_in) (use i in \<open>auto simp: comp_def\<close>)
  next
    case False
    then show ?thesis unfolding rd using p(4) [OF b False] by (subst upds_out) (use geomD(10) [OF G] in auto)
  qed
  then show ?thesis using t geomD(5) [OF G] by metis
qed

text \<open>The contents after the first \<open>k\<close> writes of a commit: the log is still empty; or the header names the blocks
  of the transaction, whose new contents are in the log; or everything is in place and the log is empty again.\<close>

lemma sb_like_upds:
  assumes "sb_like s p" "(1 :: u32) \<notin> fst ` set ws"
  shows "sb_like s (plat_upds ws p)"
  using assms upds_out [OF assms(2)] by (simp add: sb_like_def plat_upds_root)

lemma upds_take_out: "b \<notin> fst ` set ws \<Longrightarrow> upds (take k ws) f b = f b"
  by (rule upds_out) (auto dest: in_set_takeD)

lemma commit_fst:
  assumes G: "log_geom s"
  shows "fst ` set (commit_writes s) = la s ` {..<nat (l_n s)} \<union> {l_start s} \<union> set (entries s)" "1 \<notin> fst ` set (commit_writes s)"
proof -
  have e: "(\<lambda>i. entries s ! i) ` {..<nat (l_n s)} = set (entries s)"
    using geomD(2) [OF G] nth_image [of "nat (l_n s)" "entries s"] by (simp add: lessThan_atLeast0)
  then show f: "fst ` set (commit_writes s) = la s ` {..<nat (l_n s)} \<union> {l_start s} \<union> set (entries s)"
    by (auto simp: commit_writes_def image_Un image_image atLeast_upt [symmetric] lessThan_atLeast0)
  have "1 \<noteq> l_start s" "1 \<notin> set (entries s)" using G entry_out(5) [OF G] by (auto simp: log_geom_def)
  moreover have "1 \<noteq> la s i" if "i < nat (l_n s)" for i using geomD(6) [OF G that] G by (auto simp: log_geom_def)
  ultimately show "1 \<notin> fst ` set (commit_writes s)" unfolding f by blast
qed

lemma commit_prefix:
  assumes I: "log_inv s" "held s = {}"
  defines "p \<equiv> \<lambda>k. plat_upds (take k (commit_writes s)) (disk s)"
  shows "k \<le> nat (l_n s) \<Longrightarrow> rd32 (p k (ROOTDEV, l_start s)) 0 = 0 \<and> (\<forall>b. \<not> in_log s b \<longrightarrow> p k (ROOTDEV, b) = disk s (ROOTDEV, b))"
    "j \<le> nat (l_n s) \<Longrightarrow> p (nat (l_n s) + 1 + j) (ROOTDEV, l_start s) = head_bytes (l_n s) (l_block s) (view s (l_start s)) \<and>
       (\<forall>i < nat (l_n s). p (nat (l_n s) + 1 + j) (ROOTDEV, la s i) = view s (entries s ! i)) \<and>
       (\<forall>b. \<not> in_log s b \<and> b \<notin> set (entries s) \<longrightarrow> p (nat (l_n s) + 1 + j) (ROOTDEV, b) = view s b)"
    "2 * nat (l_n s) + 2 \<le> k \<Longrightarrow> rd32 (p k (ROOTDEV, l_start s)) 0 = 0 \<and> (\<forall>b. \<not> in_log s b \<longrightarrow> p k (ROOTDEV, b) = view s b)"
proof -
  let ?n = "nat (l_n s)" and ?D = "\<lambda>b. disk s (ROOTDEV, b)"
  let ?H = "head_bytes (l_n s) (l_block s) (view s (l_start s))"
  define A where "A = map (\<lambda>i. (la s i, view s (entries s ! i))) [0..<?n]"
  define B where "B = map (\<lambda>i. (entries s ! i, view s (entries s ! i))) [0..<?n]"
  have C: "cache_ok s" and G: "log_geom s" and D: "dirties s = set (entries s)" and Z: "rd32 (?D (l_start s)) 0 = 0"
    using I by (simp_all add: log_inv_def)
  have cw: "commit_writes s = A @ (l_start s, ?H) # B @ [(l_start s, head_bytes 0 (l_block s) ?H)]"
    by (simp add: commit_writes_def A_def B_def)
  have len: "length A = ?n" "length B = ?n" by (simp_all add: A_def B_def)
  have A: "upds (take k A) f b = f b" if "\<not> in_log s b \<or> b = l_start s" for k f b
  proof -
    have "b \<notin> fst ` set A" using that geomD(7,9) [OF G] by (auto simp: A_def)
    then show ?thesis by (rule upds_take_out)
  qed
  have A': "upds A f (la s i) = view s (entries s ! i)" if "i < ?n" for f i
    by (rule upds_in) (use distinct_la [OF G] that in \<open>auto simp: A_def comp_def\<close>)
  have B: "upds (take j B) f b = f b" if "b \<notin> set (entries s)" for j f b
  proof -
    have "b \<notin> fst ` set B" using that geomD(10) [OF G] by (auto simp: B_def)
    then show ?thesis by (rule upds_take_out)
  qed
  have B': "upds B f b = view s b" if b: "b \<in> set (entries s)" for f b
  proof -
    obtain i where i: "i < ?n" "b = entries s ! i" using b geomD(2) [OF G] by (metis in_set_conv_nth)
    have "distinct (map (\<lambda>i. entries s ! i) [0..<?n])" using G geomD(2) [OF G] by (metis log_geom_def map_nth)
    then show ?thesis by (intro upds_in) (use i in \<open>auto simp: B_def comp_def\<close>)
  qed
  have V: "?D b = view s b" if "b \<notin> set (entries s)" for b using view_clean [OF C, of b] I(2) D that by simp
  have ls: "l_start s \<notin> set (entries s)" "\<And>b. \<not> in_log s b \<Longrightarrow> b \<noteq> l_start s" "\<And>i. i < ?n \<Longrightarrow> la s i \<notin> set (entries s)"
    using entry_out(3,4) [OF G] geomD(5) [OF G] by auto
  have P: "p k (ROOTDEV, b) = upds (take k (commit_writes s)) ?D b" for k b by (simp add: p_def plat_upds_root)
  show "rd32 (p k (ROOTDEV, l_start s)) 0 = 0 \<and> (\<forall>b. \<not> in_log s b \<longrightarrow> p k (ROOTDEV, b) = ?D b)" if "k \<le> ?n" for k
    unfolding P cw using that len A Z by simp
  show "p (?n + 1 + j) (ROOTDEV, l_start s) = ?H \<and> (\<forall>i < ?n. p (?n + 1 + j) (ROOTDEV, la s i) = view s (entries s ! i)) \<and>
       (\<forall>b. \<not> in_log s b \<and> b \<notin> set (entries s) \<longrightarrow> p (?n + 1 + j) (ROOTDEV, b) = view s b)" if "j \<le> ?n" for j
  proof -
    have "take (?n + 1 + j) (commit_writes s) = A @ (l_start s, ?H) # take j B" using that len by (simp add: cw)
    then show ?thesis unfolding P using A [of _ ?n] A' B ls V len geomD(9) [OF G] by simp
  qed
  show "rd32 (p k (ROOTDEV, l_start s)) 0 = 0 \<and> (\<forall>b. \<not> in_log s b \<longrightarrow> p k (ROOTDEV, b) = view s b)" if "2 * ?n + 2 \<le> k" for k
  proof -
    have t: "take k (commit_writes s) = commit_writes s" using that len by (simp add: cw)
    have "upds B (upds A ?D) b = view s b" if b: "\<not> in_log s b" for b
      using B [of b ?n] B' V [of b] A [of b ?n] b len by (cases "b \<in> set (entries s)") simp_all
    moreover have "rd32 (head_bytes 0 (l_block s) ?H) 0 = 0" by (simp add: head_bytes_def rd32_wr32_same)
    moreover have "upds B ((upds A ?D)(l_start s := h)) b = upds B (upds A ?D) b" if "b \<noteq> l_start s" for b h
      using B [of b ?n] B' len that by (cases "b \<in> set (entries s)") simp_all
    ultimately show ?thesis unfolding P t using ls by (simp add: cw)
  qed
qed

text \<open>Recovery from the contents after \<open>k\<close> writes of a commit.\<close>

lemma recover_prefix:
  assumes I: "log_inv s" "held s = {}"
  shows "\<exists>r. initlog ROOTDEV (boot (plat_upds (take k (commit_writes s)) (disk s))) = Inr ((), r) \<and>
    ((\<forall>b. \<not> in_log s b \<longrightarrow> disk r (ROOTDEV, b) = disk s (ROOTDEV, b)) \<or> (\<forall>b. \<not> in_log s b \<longrightarrow> disk r (ROOTDEV, b) = view s b))"
proof -
  let ?p = "plat_upds (take k (commit_writes s)) (disk s)" and ?n = "nat (l_n s)"
  have G: "log_geom s" and sb: "sb_like s (disk s)" using I(1) by (simp_all add: log_inv_def sb_like_def)
  have S: "sb_like s ?p" using commit_fst(2) [OF G] by (intro sb_like_upds [OF sb]) (auto dest: in_set_takeD)
  note P = commit_prefix [OF I]
  consider (old) "k \<le> ?n" | (logged) j where "j \<le> ?n" "k = ?n + 1 + j" | (new) "2 * ?n + 2 \<le> k"
    using le_Suc_ex [of "?n + 1" k] by (metis add_Suc_right add_le_cancel_left mult_2 not_less_eq_eq plus_1_eq_Suc add.commute one_add_one)
  then show ?thesis
  proof cases
    case old
    then show ?thesis using recover_empty [OF G S] P(1) [of k] by metis
  next
    case logged
    have "\<exists>t. initlog ROOTDEV (boot ?p) = Inr ((), t) \<and> (\<forall>b. \<not> in_log s b \<longrightarrow> disk t (ROOTDEV, b) = view s b)"
      by (rule recover_full [OF G S]) (use P(2) [OF logged(1)] logged(2) in simp_all)
    then show ?thesis by blast
  next
    case new
    then show ?thesis using recover_empty [OF G S] P(3) [of k] by metis
  qed
qed

lemma commit_keeps:
  assumes "log_inv s" "held s = {}"
  shows "\<exists>t. commit s = Inr ((), t) \<and> log_inv t \<and> held t = {} \<and> disks.more t = disks.more (s\<lparr>l_n := 0\<rparr>) \<and>
    platters t = writes (if l_n s = 0 then [] else commit_writes s) (platters s) \<and>
    (\<forall>b. \<not> in_log s b \<longrightarrow> view t b = view s b \<and> disk t (ROOTDEV, b) = view s b)"
proof (cases "l_n s = 0")
  case True
  then have "view s b = disk s (ROOTDEV, b)" for b using assms by (intro view_clean) (auto simp: log_inv_def entries_def)
  moreover have "disks.more (s\<lparr>l_n := 0\<rparr>) = disks.more s" using True by (cases s) simp
  ultimately show ?thesis using assms True by (intro exI [of _ s]) (simp add: commit_def)
next
  case False
  have C: "cache_ok s" and G: "log_geom s" and D: "dirties s = set (entries s)" and sb: "sb_like s (disk s)" and n: "0 < l_n s"
    using assms(1) False by (auto simp: log_inv_def sb_like_def log_geom_def)
  obtain t where t: "commit s = Inr ((), t)" "cache_ok t" "held t = {}" "dirties t = {}" "disks.more t = disks.more (s\<lparr>l_n := 0\<rparr>)"
    "platters t = writes (commit_writes s) (platters s)" "\<forall>b. \<not> in_log s b \<longrightarrow> view t b = view s b"
    using commit_ok [OF C assms(2) G D n] by blast
  have d: "disk t = plat_upds (commit_writes s) (disk s)" 
    using t(6) cache_okD(4) [OF C] by (simp add: disk_def writes_last)
  note m = log_more [OF t(5)]
  have "sb_like s (disk t)" unfolding d using commit_fst(2) [OF G] by (rule sb_like_upds [OF sb])
  moreover have "rd32 (disk t (ROOTDEV, l_start s)) 0 = 0"
  proof -
    have "length (commit_writes s) = 2 * nat (l_n s) + 2" by (simp add: commit_writes_def)
    then show ?thesis using commit_prefix(3) [OF assms, of "length (commit_writes s)"] d by simp
  qed
  moreover have "log_geom t" using G m by (auto simp: log_geom_def entries_def in_log_def)
  ultimately have "log_inv t" using t(2,4) m by (simp add: log_inv_def sb_like_def entries_def)
  moreover have "disk t (ROOTDEV, b) = view t b" for b using view_clean [OF t(2), of b] t(3,4) by simp
  ultimately show ?thesis using t False by (intro exI [of _ t]) simp
qed

section \<open>The transactions of the file system\<close>

text \<open>The changes of a block that the file system makes: read it, change its data, \<open>log_write\<close>, release it.\<close>

definition log_put :: "u32 \<Rightarrow> block \<Rightarrow> 'a logsys_scheme \<Rightarrow> (unit \<times> 'a logsys_scheme) res" where
  "log_put b d s = bindr (bread ROOTDEV b s) (\<lambda>(x, s). bindr (disk_log_write x (set_data x d s)) (\<lambda>(_, s). brelse x s))"

text \<open>The disk stack carries out the transactions of \<open>Blocks\<close>: what the file system sees of a block is its contents there.\<close>

definition log_rel :: "'a logsys_scheme \<Rightarrow> 'b fsys_scheme \<Rightarrow> bool" where
  "log_rel s f \<longleftrightarrow> log_inv s \<and> held s = {} \<and> lh_block f = entries s \<and> outstanding f = l_outstanding s \<and> committing f = l_committing s \<and>
     log_size f = l_size s \<and> (\<forall>b. \<not> in_log s b \<longrightarrow> blocks f (ROOTDEV, b) = view s b)"

fun simulates :: "('s \<Rightarrow> 't \<Rightarrow> bool) \<Rightarrow> (unit \<times> 's) res \<Rightarrow> (unit \<times> 't) res \<Rightarrow> bool" where
  "simulates R (Inl e) c = (c = Inl e)"
| "simulates R (Inr (_, s)) c = (case c of Inl _ \<Rightarrow> False | Inr (_, t) \<Rightarrow> R s t)"

lemma log_flags [simp]:
  "cache_ok (s\<lparr>l_outstanding := k\<rparr>) = cache_ok s" "view (s\<lparr>l_outstanding := k\<rparr>) = view s" "held (s\<lparr>l_outstanding := k\<rparr>) = held s"
  "dirties (s\<lparr>l_outstanding := k\<rparr>) = dirties s" "disk (s\<lparr>l_outstanding := k\<rparr>) = disk s"
  "cache_ok (s\<lparr>l_committing := c\<rparr>) = cache_ok s" "view (s\<lparr>l_committing := c\<rparr>) = view s" "held (s\<lparr>l_committing := c\<rparr>) = held s"
  "dirties (s\<lparr>l_committing := c\<rparr>) = dirties s" "disk (s\<lparr>l_committing := c\<rparr>) = disk s"
  by (rule same_disks; simp)+

lemma log_flags_geom [simp]:
  "in_log (s\<lparr>l_outstanding := k\<rparr>) = in_log s" "entries (s\<lparr>l_outstanding := k\<rparr>) = entries s"
  "in_log (s\<lparr>l_committing := c\<rparr>) = in_log s" "entries (s\<lparr>l_committing := c\<rparr>) = entries s"
  by (simp_all add: in_log_def entries_def fun_eq_iff)

lemma log_flags_inv [simp]:
  "log_inv (s\<lparr>l_outstanding := k\<rparr>) = log_inv s" "log_inv (s\<lparr>l_committing := c\<rparr>) = log_inv s"
  by (simp_all add: log_inv_def log_geom_def)

lemma log_relD:
  assumes "log_rel s f"
  shows "log_inv s" "held s = {}" "lh_block f = entries s" "outstanding f = l_outstanding s" "committing f = l_committing s"
    "log_size f = l_size s" "\<not> in_log s b \<Longrightarrow> blocks f (ROOTDEV, b) = view s b" "int (length (lh_block f)) = l_n s"
  using assms geomD(2) [of s] by (auto simp: log_rel_def log_inv_def log_geom_def)

lemma begin_sim:
  assumes "log_rel s f"
  shows "simulates (\<lambda>f s. log_rel s f) (begin_op f) (disk_begin_op s)"
proof -
  note r = log_relD [OF assms]
  have "log_rel (s\<lparr>l_outstanding := l_outstanding s + 1\<rparr>) (f\<lparr>outstanding := outstanding f + 1\<rparr>)"
    using assms by (simp add: log_rel_def)
  then show ?thesis using r(4,5,8) by (simp add: begin_op_def disk_begin_op_def)
qed

lemma end_sim:
  assumes "log_rel s f"
  shows "simulates (\<lambda>f s. log_rel s f) (end_op f) (disk_end_op s)"
proof -
  note r = log_relD [OF assms]
  let ?s = "s\<lparr>l_outstanding := l_outstanding s - 1, l_committing := True\<rparr>"
  obtain t where t: "commit ?s = Inr ((), t)" "log_inv t" "held t = {}" "disks.more t = disks.more (?s\<lparr>l_n := 0\<rparr>)"
    "\<forall>b. \<not> in_log s b \<longrightarrow> view t b = view s b"
    using commit_keeps [of ?s] r(1,2) by auto
  note m = log_more [OF t(4)]
  have "in_log t = in_log s" "entries t = []" using m by (simp_all add: in_log_def entries_def fun_eq_iff)
  then have "log_rel (t\<lparr>l_committing := False\<rparr>) (f\<lparr>outstanding := 0, lh_block := []\<rparr>)" if "\<not> l_committing s" "l_outstanding s = 1"
    using t m r that by (simp add: log_rel_def)
  moreover have "log_rel (s\<lparr>l_outstanding := l_outstanding s - 1\<rparr>) (f\<lparr>outstanding := outstanding f - 1\<rparr>)"
    using assms by (simp add: log_rel_def)
  ultimately show ?thesis using r(4,5) t(1) by (cases "l_outstanding s = 1") (simp_all add: end_op_def disk_end_op_def Let_def)
qed

lemma find_entry:
  assumes "log_geom s"
  shows "b \<in> set (entries s) \<Longrightarrow> \<exists>i < nat (l_n s). find (\<lambda>i. l_block s ! i = b) [0..<nat (l_n s)] = Some i \<and> l_block s ! i = b"
    "b \<notin> set (entries s) \<Longrightarrow> find (\<lambda>i. l_block s ! i = b) [0..<nat (l_n s)] = None"
proof -
  have e: "b \<in> set (entries s) \<longleftrightarrow> (\<exists>i < nat (l_n s). l_block s ! i = b)"
    using geomD(2,11) [OF assms] by (metis in_set_conv_nth)
  show "b \<notin> set (entries s) \<Longrightarrow> find (\<lambda>i. l_block s ! i = b) [0..<nat (l_n s)] = None"
    using e by (auto simp: find_None_iff)
  show "\<exists>i < nat (l_n s). find (\<lambda>i. l_block s ! i = b) [0..<nat (l_n s)] = Some i \<and> l_block s ! i = b" if "b \<in> set (entries s)"
  proof (cases "find (\<lambda>i. l_block s ! i = b) [0..<nat (l_n s)]")
    case None
    then show ?thesis using that e by (auto simp: find_None_iff)
  qed (use find_in in fastforce)
qed

text \<open>The header in memory gets the block, unless it has it already.\<close>

definition absorb :: "u32 \<Rightarrow> 'a logsys_scheme \<Rightarrow> 'a logsys_scheme" where
  "absorb b s = (if b \<in> set (entries s) then s else s\<lparr>l_block := (l_block s)[nat (l_n s) := b], l_n := l_n s + 1\<rparr>)"

lemma absorb_entries:
  assumes "log_geom s"
  shows "entries (absorb b s) = (if b \<in> set (entries s) then entries s else entries s @ [b])"
  using assms by (auto simp: absorb_def entries_def log_geom_def nat_add_distrib take_Suc_conv_app_nth)

lemma absorb_disks [simp]:
  "cache_ok (absorb b s) = cache_ok s" "store_of (absorb b s) = store_of s" "slot (absorb b s) = slot s" "held (absorb b s) = held s"
  "view (absorb b s) = view s" "dirties (absorb b s) = dirties s" "platters (absorb b s) = platters s"
  by (simp_all add: absorb_def store_of_def)

lemma disk_log_write_cases:
  assumes G: "log_geom s" and b: "b_blockno (bf x s) = b"
  shows "disk_log_write x s = (if l_n s \<ge> l_size s - 1 then Inl (Panic ''too big a transaction'')
     else if l_outstanding s < 1 then Inl (Panic ''log_write outside of trans'') else Inr ((), pin x (absorb b s)))"
proof -
  have n: "0 \<le> l_n s" "l_n s < 30" "l_size s \<le> 30" using G by (auto simp: log_geom_def)
  show ?thesis
  proof (cases "b \<in> set (entries s)")
    case True
    then obtain i where i: "i < nat (l_n s)" "find (\<lambda>i. l_block s ! i = b) [0..<nat (l_n s)] = Some i" "l_block s ! i = b"
      using find_entry(1) [OF G] by blast
    have "(l_block s)[i := b] = l_block s" using i(3) by auto
    then have "s\<lparr>l_block := (l_block s)[i := b]\<rparr> = s" by simp
    moreover have "int i \<noteq> l_n s" using i(1) by auto
    ultimately show ?thesis using True i n b by (simp add: disk_log_write_def absorb_def Let_def)
  next
    case False
    then show ?thesis using find_entry(2) [OF G False] n b by (auto simp: disk_log_write_def absorb_def Let_def)
  qed
qed

lemma absorbed:
  assumes R: "log_rel s f" and b: "1 < unat b" "b < FSSIZE" "\<not> in_log s b" and room: "\<not> (l_n s \<ge> l_size s - 1 \<or> l_outstanding s < 1)"
    and W: "held w = {}" "dirties w = insert b (dirties s)" "view w = (view s)(b := d)" "disk w = disk s" "cache_ok w"
    and m: "disks.more w = disks.more (absorb b u)" "disks.more u = disks.more s"
  shows "log_rel w (logged ROOTDEV b d f)"
proof -
  note r = log_relD [OF R]
  have G: "log_geom s" using r(1) by (simp add: log_inv_def)
  note l = log_more [OF m(1)] and mu = log_more [OF m(2)] and gu = geom_cong [OF m(2)]
  have a: "l_start w = l_start s" "l_size w = l_size s" "l_dev w = l_dev s" "l_outstanding w = l_outstanding s" "l_committing w = l_committing s"
    "length (l_block w) = 30" "l_n w = (if b \<in> set (entries s) then l_n s else l_n s + 1)"
    using l mu gu G by (simp_all add: absorb_def log_geom_def)
  have e: "entries w = (if b \<in> set (entries s) then entries s else entries s @ [b])" "in_log w = in_log s"
    using absorb_entries [of u b] geom_cong(3) [OF m(1)] a gu G by (simp_all add: in_log_def fun_eq_iff)
  have "log_geom w" using G a e b room unfolding log_geom_def by (auto simp: in_log_def)
  then have "log_inv w" using r(1) W a e unfolding log_inv_def by auto
  then show ?thesis using W a e r(3-7) by (simp add: log_rel_def logged_def)
qed

lemma log_put_sim:
  assumes R: "log_rel s f" and b: "1 < unat b" "b < FSSIZE" "\<not> in_log s b"
  shows "simulates (\<lambda>f s. log_rel s f) (log_write ROOTDEV b d f) (log_put b d s)"
proof -
  note r = log_relD [OF R]
  have C: "cache_ok s" and G: "log_geom s" and D: "dirties s = set (entries s)" using r(1) by (simp_all add: log_inv_def)
  have "card (dirties s) < 30" using D geomD(2,3) [OF G] card_length [of "entries s"] by simp
  then obtain x t where t: "bread ROOTDEV b s = Inr (x, t)" "cache_ok t" "slot t b = Some x" "disks.more t = disks.more s"
    "store_of t = (store_of s)\<lparr>st_held := {b}\<rparr>"
    using cache.rd_law [of s b] C b r(2) by auto
  define u where "u = set_data x d t"
  have ht: "b \<in> held t" "held t = {b}" using t(5) by (simp_all add: store_of_def)
  have U: "cache_ok u" "slot u b = Some x" "store_of u = (store_of s)\<lparr>st_held := {b}, st_view := (view s)(b := d)\<rparr>" "disks.more u = disks.more s"
    using set_data_ok [OF t(2,3) ht(1), where d = d] t(4,5) unfolding u_def by (simp_all add: store_of_def)
  note mu = log_more [OF U(4)] and gu = geom_cong [OF U(4)]
  have bn: "b_blockno (bf x u) = b" using slot_SomeD [OF U(2)] by (simp add: bkey_Some)
  have run: "log_put b d s = bindr (disk_log_write x u) (\<lambda>(_, s). brelse x s)" using t(1) by (simp add: log_put_def u_def)
  note dw = disk_log_write_cases [of u x b, unfolded mu, OF _ bn]
  have lw: "log_write ROOTDEV b d f = (if l_n s \<ge> l_size s - 1 then Inl (Panic ''too big a transaction'')
    else if l_outstanding s < 1 then Inl (Panic ''log_write outside of trans'') else Inr ((), logged ROOTDEV b d f))"
    using r(4,6,8) G by (auto simp: log_write_def logged_def log_geom_def)
  show ?thesis
  proof (cases "l_n s \<ge> l_size s - 1 \<or> l_outstanding s < 1")
    case True
    then show ?thesis using run lw dw gu(1) G by auto
  next
    case False
    define v where "v = absorb b u"
    have V: "cache_ok v" "slot v b = Some x" "b \<in> held v" "store_of v = store_of u" using U by (simp_all add: v_def store_of_def)
    note P = pin_ok [OF V(1-3)]
    obtain w where w: "brelse x (pin x v) = Inr ((), w)" "cache_ok w" "disks.more w = disks.more v"
      "store_of w = (store_of s)\<lparr>st_view := (view s)(b := d), st_dirty := insert b (dirties s), st_held := {}\<rparr>"
      using cache.rel_law [OF P(1,2)] P(3,4) V(4) U(3) by (auto simp: store_of_def)
    have W: "held w = {}" "dirties w = insert b (dirties s)" "view w = (view s)(b := d)" "disk w = disk s" "cache_ok w"
      using w(2,4) by (simp_all add: store_of_def disk_def)
    have "log_rel w (logged ROOTDEV b d f)"
      using absorbed [OF R b False W] w(3) U(4) unfolding v_def by blast
    then show ?thesis using run lw dw gu(1) G False w(1) by (simp add: v_def)
  qed
qed

section \<open>The properties of the log\<close>

text \<open>
  Property C8: a commit is atomic with respect to power failures. When no buffer is held and the invariant of the log
  holds, \<open>commit\<close> returns and leaves every block outside the log on the disk as the transaction has it. If the power fails
  at any moment before, during or after, so that the disk is left with any of the contents it passes through, then
  \<open>initlog\<close> on the next boot returns, and the blocks outside the log are either all as before the transaction or all as
  the transaction has them.
\<close>

theorem commit_crash_atomic:
  assumes "log_inv s" "held s = {}"
  shows "\<exists>t. commit s = Inr ((), t) \<and> log_inv t \<and> l_n t = 0 \<and> (\<forall>b. \<not> in_log s b \<longrightarrow> disk t (ROOTDEV, b) = view s b) \<and>
    take (length (platters s)) (platters t) = platters s \<and>
    (\<forall>p \<in> set (disk s # drop (length (platters s)) (platters t)). \<exists>r. initlog ROOTDEV (boot p) = Inr ((), r) \<and>
      ((\<forall>b. \<not> in_log s b \<longrightarrow> disk r (ROOTDEV, b) = disk s (ROOTDEV, b)) \<or>
       (\<forall>b. \<not> in_log s b \<longrightarrow> disk r (ROOTDEV, b) = view s b)))"
proof -
  obtain t where t: "commit s = Inr ((), t)" "log_inv t" "disks.more t = disks.more (s\<lparr>l_n := 0\<rparr>)"
    "platters t = writes (if l_n s = 0 then [] else commit_writes s) (platters s)" "\<forall>b. \<not> in_log s b \<longrightarrow> disk t (ROOTDEV, b) = view s b"
    using commit_keeps [OF assms] by blast
  have ne: "platters s \<noteq> []" using assms(1) cache_okD(4) by (auto simp: log_inv_def)
  have "\<exists>k. p = plat_upds (take k (commit_writes s)) (disk s)" if "p \<in> set (disk s # drop (length (platters s)) (platters t))" for p
  proof (cases "p = disk s")
    case True
    then show ?thesis by (intro exI [of _ 0]) simp
  next
    case False
    then show ?thesis using that ne unfolding t(4) by (auto simp: writes_hist disk_def split: if_splits)
  qed
  then have "\<exists>r. initlog ROOTDEV (boot p) = Inr ((), r) \<and> ((\<forall>b. \<not> in_log s b \<longrightarrow> disk r (ROOTDEV, b) = disk s (ROOTDEV, b)) \<or>
      (\<forall>b. \<not> in_log s b \<longrightarrow> disk r (ROOTDEV, b) = view s b))" if "p \<in> set (disk s # drop (length (platters s)) (platters t))" for p
    using recover_prefix [OF assms] that by metis
  moreover have "take (length (platters s)) (platters t) = platters s" using ne unfolding t(4) by (simp add: writes_hist)
  ultimately show ?thesis using t log_more(4) [OF t(3)] by (intro exI [of _ t]) simp
qed

text \<open>A disk as \<open>mkfs\<close> lays it out, and the state after the boot from it.\<close>

definition demo_disk :: platter where
  "demo_disk = (\<lambda>a. if a = (ROOTDEV, 1) then wr32 16 2 (wr32 12 30 (\<lambda>_. 0)) else (\<lambda>_. 0))"

definition demo_log :: "int \<Rightarrow> logsys" where
  "demo_log k = (boot demo_disk)\<lparr>l_start := 2, l_size := 30, l_dev := ROOTDEV, l_n := 0, l_outstanding := k, l_committing := False\<rparr>"

definition demo_fs :: "int \<Rightarrow> fsys" where
  "demo_fs k = \<lparr>pmem = \<lambda>_ _. 0, freelist = 0, use_lock = True, kmem_locked = False, referenceCounters = \<lambda>_. 0, total_system_pages = 0,
     system_free_pages = 0, blocks = demo_disk,
     sb = \<lparr>sb_size = 1000, nblocks = 941, ninodes = 200, nlog = 30, logstart = 2, inodestart = 32, bmapstart = 58\<rparr>,
     log_size = 30, outstanding = k, committing = False, lh_block = [], icache = []\<rparr>"

lemma demo_log_rel: "log_rel (demo_log k) (demo_fs k)"
proof -
  note B = boot_ok [of demo_disk]
  have d: "bufs (demo_log k) = bufs (boot demo_disk)" "platters (demo_log k) = platters (boot demo_disk)"
    "idequeue (demo_log k) = idequeue (boot demo_disk)" "ide_fails (demo_log k) = ide_fails (boot demo_disk)"
    "havedisk1 (demo_log k) = havedisk1 (boot demo_disk)" by (simp_all add: demo_log_def)
  note S = same_disks [OF d]
  have r: "rd32 (demo_disk (ROOTDEV, 1)) 16 = 2" "sint (rd32 (demo_disk (ROOTDEV, 1)) 12) = 30" "rd32 (demo_disk (ROOTDEV, 2)) 0 = 0"
    by (simp_all add: demo_disk_def rd32_wr32_same rd32_def wr32_def)
  have l: "l_start (demo_log k) = 2" "l_size (demo_log k) = 30" "l_dev (demo_log k) = ROOTDEV" "l_n (demo_log k) = 0"
    "l_outstanding (demo_log k) = k" "l_committing (demo_log k) = False" "length (l_block (demo_log k)) = 30"
    using B(4) by (simp_all add: demo_log_def)
  have C: "cache_ok (demo_log k)" "held (demo_log k) = {}" "dirties (demo_log k) = {}" "disk (demo_log k) = demo_disk" using S B by simp_all
  have "log_inv (demo_log k)" using C r l by (simp add: log_inv_def log_geom_def entries_def)
  moreover have "view (demo_log k) b = demo_disk (ROOTDEV, b)" for b using view_clean [OF C(1), of b] C by simp
  ultimately show ?thesis using C(2) l by (simp add: log_rel_def demo_fs_def entries_def)
qed

text \<open>One block in the transaction.\<close>

lemma demo_log_one:
  "\<exists>s. log_put 100 (\<lambda>_. 7) (demo_log 1) = Inr ((), s) \<and> log_rel s (logged ROOTDEV 100 (\<lambda>_. 7) (demo_fs 1))"
proof -
  have "\<not> in_log (demo_log 1) 100" by (simp add: in_log_def demo_log_def)
  then have "simulates (\<lambda>f s. log_rel s f) (log_write ROOTDEV 100 (\<lambda>_. 7) (demo_fs 1)) (log_put 100 (\<lambda>_. 7) (demo_log 1))"
    by (intro log_put_sim demo_log_rel) simp_all
  moreover have "log_write ROOTDEV 100 (\<lambda>_. 7) (demo_fs 1) = Inr ((), logged ROOTDEV 100 (\<lambda>_. 7) (demo_fs 1))"
    by (simp add: log_write_def logged_def demo_fs_def)
  ultimately show ?thesis by (simp split: sum.splits prod.splits)
qed

lemma demo_logged:
  assumes "log_rel s (logged ROOTDEV 100 (\<lambda>_. 7) (demo_fs 1))"
  shows "entries s = [100]" "\<not> in_log s 100" "view s 100 = (\<lambda>_. 7)"
proof -
  note r = log_relD [OF assms]
  show e: "entries s = [100]" using r(3) by (simp add: logged_def demo_fs_def)
  show o: "\<not> in_log s 100" using r(1) e by (simp add: log_inv_def log_geom_def)
  show "view s 100 = (\<lambda>_. 7)" using r(7) [OF o] by (simp add: logged_def)
qed

theorem commit_crash_atomic_witness:
  "\<exists>s t :: logsys. log_inv s \<and> held s = {} \<and> entries s = [100] \<and> view s 100 = (\<lambda>_. 7) \<and> commit s = Inr ((), t) \<and> disk t (ROOTDEV, 100) = (\<lambda>_. 7)"
proof -
  obtain s :: logsys where s: "log_rel s (logged ROOTDEV 100 (\<lambda>_. 7) (demo_fs 1))" using demo_log_one by blast
  note r = log_relD(1,2) [OF s] and d = demo_logged [OF s]
  obtain t where "commit s = Inr ((), t)" "disk t (ROOTDEV, 100) = view s 100" using commit_crash_atomic [OF r] d(2) by blast
  then show ?thesis using r d by auto
qed

text \<open>
  Property C9: the log, the buffer cache and the disk together carry out the transactions that the file system is
  modelled over. If the state of the disk stack corresponds to an abstract state, that is, \<open>bread\<close> sees in every block
  outside the log the contents the abstract state has, and the blocks of the transaction are the same, then so it is
  after \<open>begin_op\<close>, after a block has been read, changed, passed to \<open>log_write\<close> and released, and after \<open>end_op\<close>, which
  may commit; and each of them panics or sleeps exactly when the abstract operation does.
\<close>

theorem log_refines:
  assumes "log_rel s f"
  shows "simulates (\<lambda>f s. log_rel s f) (begin_op f) (disk_begin_op s) \<and>
    (\<forall>b d. 1 < unat b \<and> b < FSSIZE \<and> \<not> in_log s b \<longrightarrow>
       simulates (\<lambda>f s. log_rel s f) (log_write ROOTDEV b d f) (log_put b d s)) \<and>
    simulates (\<lambda>f s. log_rel s f) (end_op f) (disk_end_op s)"
  using begin_sim [OF assms] log_put_sim [OF assms] end_sim [OF assms] by blast

theorem log_refines_witness:
  "\<exists>s t u :: logsys. disk_begin_op (demo_log 0) = Inr ((), s) \<and> log_put 100 (\<lambda>_. 7) (demo_log 1) = Inr ((), t) \<and>
     view t 100 = (\<lambda>_. 7) \<and> disk_end_op (demo_log 1) = Inr ((), u)"
proof -
  note W0 = log_refines [OF demo_log_rel [of 0]] and W1 = log_refines [OF demo_log_rel [of 1]]
  have o: "\<not> in_log (demo_log 1) 100" by (simp add: in_log_def demo_log_def)
  have b: "begin_op (demo_fs 0) = Inr ((), (demo_fs 0)\<lparr>outstanding := 1\<rparr>)" by (simp add: begin_op_def demo_fs_def)
  have w: "log_write ROOTDEV 100 (\<lambda>_. 7) (demo_fs 1) = Inr ((), logged ROOTDEV 100 (\<lambda>_. 7) (demo_fs 1))"
    by (simp add: log_write_def logged_def demo_fs_def)
  have e: "end_op (demo_fs 1) = Inr ((), (demo_fs 1)\<lparr>outstanding := 0, lh_block := []\<rparr>)" by (simp add: end_op_def demo_fs_def)
  have s: "\<exists>s. disk_begin_op (demo_log 0) = Inr ((), s)" using conjunct1 [OF W0] b by (simp split: sum.splits prod.splits)
  have "simulates (\<lambda>f s. log_rel s f) (log_write ROOTDEV 100 (\<lambda>_. 7) (demo_fs 1)) (log_put 100 (\<lambda>_. 7) (demo_log 1))"
    using W1 o by simp
  then obtain t where t: "log_put 100 (\<lambda>_. 7) (demo_log 1) = Inr ((), t)" "log_rel t (logged ROOTDEV 100 (\<lambda>_. 7) (demo_fs 1))"
    using w by (simp split: sum.splits prod.splits)
  have "view t 100 = (\<lambda>_. 7)" by (rule demo_logged(3) [OF t(2)])
  moreover have "\<exists>u. disk_end_op (demo_log 1) = Inr ((), u)" using W1 e by (simp split: sum.splits prod.splits)
  ultimately show ?thesis using s t(1) by auto
qed

end
