(* ===== verification/Cow.thy ===== *)
theory Cow
  imports Pgfault
begin

text \<open>
  Copy-on-write: what \<open>copyuvm\<close> shares between a parent and its child, and what the page-fault handler does on the
  first write to a shared page. The lemmas follow the translations, the contents and the reference
  counters of the pages through both.
\<close>

unbundle bit_operations_syntax

section \<open>Address spaces\<close>

text \<open>The frames a process can reach through its page table are allocated and are not tables of it.\<close>

definition user_frames :: "u32 \<Rightarrow> 'a phys_scheme \<Rightarrow> u32 set" where
  "user_frames d s = {uframe d a s |a. a < KERNBASE \<and> bit (pte_of d a s) 0}"

definition space_ok :: "u32 \<Rightarrow> u32 \<Rightarrow> 'a phys_scheme \<Rightarrow> bool" where
  "space_ok E d s \<longleftrightarrow> pt_ok E d s \<and> (\<forall>v \<in> user_frames d s. freeable E v \<and> 0 < refs s v \<and> v \<notin> pt_frames d s)"

text \<open>Two processes share no page-table page, and neither has a table of the other among its user pages.\<close>

definition separate :: "u32 \<Rightarrow> u32 \<Rightarrow> 'a phys_scheme \<Rightarrow> bool" where
  "separate d e s \<longleftrightarrow> pt_frames d s \<inter> pt_frames e s = {} \<and> user_frames e s \<inter> pt_frames d s = {} \<and> user_frames d s \<inter> pt_frames e s = {}"

lemma user_framesI: "a < KERNBASE \<Longrightarrow> bit (pte_of d a s) 0 \<Longrightarrow> uframe d a s \<in> user_frames d s"
  by (auto simp: user_frames_def)

lemma pte_present: "bit (pte_of d a s) 0 \<Longrightarrow> PDX a \<in> present d s"
  by (auto simp: pte_of_def present_PDX split: if_splits)

lemma load_pte: "PDX a \<in> present d s \<Longrightarrow> load (V2P (tab d s (PDX a)), PTX a) s = pte_of d a s"
  by (simp add: load_pte_of present_PDX)

section \<open>The fault\<close>

text \<open>The kernel reads the whole page at its virtual address.\<close>

lemma vread_page:
  assumes "cr3 s = V2P d" "bit (pte_of d va s) 0"
  shows "vread (PGROUNDDOWN va) 4096 s = Inr (map (get_byte (pmem s (PTE_ADDR (pte_of d va s)))) [0..<4096])"
proof -
  have b: "unat (PGROUNDDOWN va) = 4096 * (unat va div 4096)" by (simp add: unat_PGROUNDDOWN minus_mod_eq_mult_div)
  have "unat va div 4096 < 1048576" using unat_u32_bound [of va] by (simp add: div_less_iff_less_mult)
  then have u: "unat (PGROUNDDOWN va + word_of_nat i) = 4096 * (unat va div 4096) + i" if "i < 4096" for i
    using that b unat_word_of_nat [of i] unat_add_nowrap [of "PGROUNDDOWN va" "word_of_nat i"] by simp
  have "unat (PGROUNDDOWN va + word_of_nat i) div 4096 = unat va div 4096" if "i < 4096" for i
    unfolding u [OF that] using that by simp
  then have p: "pte_of d (PGROUNDDOWN va + word_of_nat i) s = pte_of d va s" if "i < 4096" for i
    using pte_of_same_page that by blast
  have m: "unat (PGROUNDDOWN va + word_of_nat i) mod 4096 = i" if "i < 4096" for i
    unfolding u [OF that] using that by simp
  have "filter (\<lambda>i. \<not> vpresent (PGROUNDDOWN va + word_of_nat i) s) [0..<4096] = []"
    using p assms by (auto simp: filter_empty_conv vpresent_def flag_bits)
  moreover have "map (\<lambda>i. vbyte (PGROUNDDOWN va + word_of_nat i) s) [0..<4096] = map (get_byte (pmem s (PTE_ADDR (pte_of d va s)))) [0..<4096]"
    using p m assms(1) by (simp add: vbyte_def)
  ultimately show ?thesis by (simp add: vread_def)
qed

text \<open>A frame address together with flags.\<close>

lemma frame_entry:
  assumes "freeable E v" "flags_only f"
  shows "PTE_ADDR (V2P v OR f) = V2P v" "n < 12 \<Longrightarrow> bit (V2P v OR f) n = bit f n"
  using PTE_ADDR_or [of "V2P v" f] aligned_bits [of "V2P v" n] freeable_aligned [OF assms(1)] assms(2) by (auto simp: bit_or_iff)

definition unshared :: "u32 \<Rightarrow> u32" where
  "unshared w = (w AND NOT PTE_COW) OR PTE_W"

lemma load_store [simp]: "load r (store r w s) = w" "store r v (store r w s) = store r v s"
  by (cases r; simp add: load_def store_def)+

lemma getRef_ok:
  assumes "kmem_ok E s xs" "freeable E v"
  shows "getRef v s = Inr (referenceCounters s (frame v), s)"
  using kmem_okD(1,2) [OF assms(1)] frame_bound [of v] assms(2) by (simp add: getRef_def Let_def freeable_def)

lemma decrementRef_ok:
  assumes "kmem_ok E s xs" "freeable E v" "KERNBASE \<le> E"
  shows "decrementRef E v s = Inr ((), dropped v s)"
proof -
  have "V2P E \<le> V2P v" using assms(2,3) by (simp add: freeable_def V2P_mono)
  then show ?thesis
    using kmem_okD(1,2) [OF assms(1)] assms(2) by (auto simp: decrementRef_def dropped_def freeable_def)
qed

text \<open>The last user of a page gets it back as its own.\<close>

lemma cow_fault_sole:
  assumes k: "kmem_ok E s xs" and w: "bit (pte_of d va s) 0" "bit (pte_of d va s) 10" and f: "freeable E (uframe d va s)" "refs s (uframe d va s) = 1"
  shows "cow_fault C p va (V2P (tab d s (PDX va)), PTX va) s = Inr (True, set_pte d va (unshared (pte_of d va s)) s)"
proof -
  have l: "load (V2P (tab d s (PDX va)), PTX va) s = pte_of d va s" by (rule load_pte [OF pte_present [OF w(1)]])
  have "referenceCounters s (frame (uframe d va s)) = 1" using f(2) by (simp add: refs_def word_unat_eq_iff)
  then show ?thesis
    using getRef_ok [OF k f(1)] w(2) l
    by (simp add: cow_fault_def Let_def uframe_def flag_bits set_pte_def unshared_def)
qed

text \<open>A page with other users is copied.\<close>

definition page_copy :: "(nat \<Rightarrow> u32) \<Rightarrow> (nat \<Rightarrow> u32) \<Rightarrow> nat \<Rightarrow> u32" where
  "page_copy src pg = put_bytes 0 (map (get_byte src) [0..<4096]) pg"

lemma page_copy_byte: "k < 4096 \<Longrightarrow> get_byte (page_copy src pg) k = get_byte src k"
  by (simp add: page_copy_def get_put_bytes)

definition cow_copied :: "u32 \<Rightarrow> u32 \<Rightarrow> u32 \<Rightarrow> kernel \<Rightarrow> kernel" where
  "cow_copied d va y s = dropped (uframe d va s) (lcr3 (V2P d) (set_pte d va (V2P y OR unshared (PTE_FLAGS (pte_of d va s)))
     (filled y (page_copy (pmem s (PTE_ADDR (pte_of d va s))) (pmem s (V2P y))) s)))"

lemma cow_fault_shared:
  assumes k: "kmem_ok E s (y # ys)" and E: "KERNBASE \<le> E" "conf_end C = E" and pt: "pt_ok E d s"
    and d: "cr3 s = V2P d" "pgdir (prc p s) = d"
    and w: "bit (pte_of d va s) 0" "bit (pte_of d va s) 10" and f: "freeable E (uframe d va s)" "1 < refs s (uframe d va s)"
  shows "cow_fault C p va (V2P (tab d s (PDX va)), PTX va) s = Inr (True, cow_copied d va y s)"
proof -
  let ?r = "(V2P (tab d s (PDX va)), PTX va)" and ?f = "uframe d va s"
  let ?pg = "page_copy (pmem s (PTE_ADDR (pte_of d va s))) (pmem s (V2P y))"
  let ?w = "V2P y OR unshared (PTE_FLAGS (pte_of d va s))"
  let ?m = "(took y s)\<lparr>kmem_locked := True\<rparr>"
  let ?u = "lcr3 (V2P d) (set_pte d va ?w (filled y ?pg s))"
  have P: "PDX va \<in> present d s" by (rule pte_present [OF w(1)])
  have l: "load ?r s = pte_of d va s" by (rule load_pte [OF P])
  have y: "y \<noteq> 0" using kmem_okD(5) [OF k] freeable_nonzero by auto
  have g: "referenceCounters s (frame ?f) \<noteq> 1" "1 < referenceCounters s (frame ?f)"
    using f(2) by (auto simp: refs_def word_less_nat_alt)
  have m: "pmem ?m = pmem s" "cr3 ?m = cr3 s" "prc p ?m = prc p s" "pte_of d va ?m = pte_of d va s" "load ?r ?m = load ?r s"
    by (simp_all add: took_def prc_def pte_of_def pde_of_def load_def)
  have v: "vread (PGROUNDDOWN va) 4096 ?m = Inr (map (get_byte (pmem s (PTE_ADDR (pte_of d va s)))) [0..<4096])"
    using vread_page [of ?m d va] d(1) w(1) unfolding m by simp
  have a: "acquire_kmem (took y s) = Inr ((), ?m)" using kmem_okD(1,2) [OF k] by (simp add: acquire_kmem_def took_def)
  have st: "release_kmem (lcr3 (V2P d) (store ?r ?w (?m\<lparr>pmem := (pmem s)(V2P y := ?pg)\<rparr>))) = Inr ((), ?u)"
    using kmem_okD(2) [OF k]
    by (simp add: release_kmem_def lcr3_def store_def filled_def took_def set_pte_def filled_evolves(5) [OF k pt, unfolded filled_def took_def])
  have ku: "kmem_ok E ?u ys"
  proof -
    have "kmem_ok E (set_pte d va ?w (filled y ?pg s)) ys"
      by (rule set_pte_kmem [OF filled_kmem(1) [OF k] filled_evolves(1) [OF k pt]]) (simp add: filled_evolves(6) [OF k pt] P)
    then show ?thesis by (simp add: lcr3_def kmem_ok_def refs_def)
  qed
  have fl: "PTE_FLAGS (pte_of d va s) AND PTE_COW \<noteq> 0" using w(2) by (simp add: flag_bits)
  have pd: "prc p (store ?r ?w (?m\<lparr>pmem := (pmem s)(V2P y := ?pg)\<rparr>)) = prc p s" by (simp add: store_def prc_def took_def)
  show ?thesis
    using getRef_ok [OF k f(1)] g kalloc_Cons [OF k] a y m l v st d(2) fl decrementRef_ok [OF ku f(1) E(1)] E(2) pd
    unfolding cow_fault_def Let_def by (simp add: uframe_def unshared_def page_copy_def cow_copied_def)
qed

text \<open>Reference counters, \<open>cr3\<close> and the process table have no part in the translation.\<close>

lemma view_cong:
  assumes "pmem t = pmem s"
  shows "pte_of d a t = pte_of d a s" "pt_frames d t = pt_frames d s" "uframe d a t = uframe d a s" "ubyte d a t = ubyte d a s"
    "tab d t = tab d s" "present d t = present d s"
proof -
  show p: "pte_of d a t = pte_of d a s" using assms by (simp add: pte_of_def pde_of_def)
  show "uframe d a t = uframe d a s" "ubyte d a t = ubyte d a s" using assms p by (simp_all add: uframe_def ubyte_def)
  show t: "tab d t = tab d s" "present d t = present d s" using assms by (auto simp: tab_def present_def pde_of_def)
  show "pt_frames d t = pt_frames d s" using t by (simp add: pt_frames_def)
qed

lemma cow_copied_ok:
  assumes k: "kmem_ok E s (y # ys)" and pt: "pt_ok E d s"
    and w: "bit (pte_of d va s) 0" and f: "freeable E (uframe d va s)" "1 < refs s (uframe d va s)"
  defines "t \<equiv> cow_copied d va y s"
  shows "kmem_ok E t ys" "freeable E v \<Longrightarrow> refs t v = (if v = uframe d va s then refs s v - 1 else if v = y then 1 else refs s v)"
    "pte_of d a t = (if unat a div 4096 = unat va div 4096 then V2P y OR unshared (PTE_FLAGS (pte_of d va s)) else pte_of d a s)"
    "v \<notin> pt_frames d s \<Longrightarrow> v \<noteq> y \<Longrightarrow> pmem t (V2P v) = pmem s (V2P v)"
    "c < 4096 \<Longrightarrow> get_byte (pmem t (V2P y)) c = get_byte (pmem s (PTE_ADDR (pte_of d va s))) c"
    "cr3 t = V2P d" "ptable t = ptable s" "y \<notin> pt_frames d s" "y \<noteq> uframe d va s"
proof -
  let ?pg = "page_copy (pmem s (PTE_ADDR (pte_of d va s))) (pmem s (V2P y))" and ?f = "uframe d va s"
  let ?w = "V2P y OR unshared (PTE_FLAGS (pte_of d va s))"
  define m where "m = filled y ?pg s"
  define u where "u = set_pte d va ?w m"
  note F = filled_evolves(1,2,3,5,6) [OF k pt, where pg = ?pg, folded m_def] and K = filled_kmem [OF k, where pg = ?pg, folded m_def]
  have P: "PDX va \<in> present d m" using pte_present [OF w] F(5) by simp
  have t: "t = dropped ?f (lcr3 (V2P d) u)" by (simp add: t_def cow_copied_def u_def m_def)
  have pm: "pmem t = pmem u" by (simp add: t dropped_def lcr3_def)
  show y: "y \<notin> pt_frames d s" using filled_evolves(4) [OF k pt] by blast
  have fy: "freeable E y" "refs s y = 0" using kmem_okD(5,6) [OF k] by auto
  show yf: "y \<noteq> ?f" using fy f(2) by auto
  have ku: "kmem_ok E (lcr3 (V2P d) u) ys"
    using set_pte_kmem [OF K(1) F(1) P, of ?w, folded u_def] by (simp add: lcr3_def kmem_ok_def refs_def)
  have r: "refs (lcr3 (V2P d) u) v = (if v = y then 1 else refs s v)" if "freeable E v" for v
    using K(2,3) that by (auto simp: u_def set_pte_def lcr3_def) (simp_all add: refs_def store_def)
  have d: "1 < refs (lcr3 (V2P d) u) ?f" using r [OF f(1)] f(2) yf by simp
  show "kmem_ok E t ys" unfolding t by (rule dropped_ok(1) [OF ku f(1) d])
  show "refs t v = (if v = ?f then refs s v - 1 else if v = y then 1 else refs s v)" if "freeable E v"
    using dropped_ok(2) [OF ku f(1) d that] r [OF that] r [OF f(1)] yf unfolding t by auto
  have "pte_of d a u = (if unat a div 4096 = unat va div 4096 then ?w else pte_of d a s)"
    unfolding u_def pte_of_set_pte [OF F(1) P] using F(2) by simp
  then show "pte_of d a t = (if unat a div 4096 = unat va div 4096 then ?w else pte_of d a s)"
    using view_cong(1) [OF pm] by simp
  have tab: "tab d m (PDX va) \<in> pt_frames d s" using P F(4,5) by (auto simp: pt_frames_def)
  have um: "pmem u (V2P v) = pmem m (V2P v)" if "v \<notin> pt_frames d s" for v
    using that tab by (auto simp: u_def set_pte_def store_def)
  show "pmem t (V2P v) = pmem s (V2P v)" if "v \<notin> pt_frames d s" "v \<noteq> y"
    unfolding pm um [OF that(1)] using that(2) by (simp add: m_def filled_def)
  show "get_byte (pmem t (V2P y)) c = get_byte (pmem s (PTE_ADDR (pte_of d va s))) c" if "c < 4096"
    unfolding pm um [OF y] using that by (simp add: m_def filled_def page_copy_byte)
  show "cr3 t = V2P d" "ptable t = ptable s"
    by (simp_all add: t u_def m_def dropped_def lcr3_def set_pte_def store_def filled_def took_def)
qed

text \<open>A step that, of the allocated pages, writes only to tables of \<open>d\<close> does not show in another address space.\<close>

lemma other_space:
  assumes e: "space_ok E e s" "separate d e s"
    and keep: "\<And>v. freeable E v \<Longrightarrow> 0 < refs s v \<Longrightarrow> v \<notin> pt_frames d s \<Longrightarrow> pmem t (V2P v) = pmem s (V2P v)"
  shows "pte_of e a t = pte_of e a s" "a < KERNBASE \<Longrightarrow> bit (pte_of e a s) 0 \<Longrightarrow> ubyte e a t = ubyte e a s"
proof -
  have tables: "pmem t (V2P v) = pmem s (V2P v)" if "v \<in> pt_frames e s" for v
    using that e by (intro keep) (auto simp: space_ok_def pt_ok_def separate_def)
  have pde: "pde_of e i t = pde_of e i s" for i using tables [of e] by (simp add: pde_of_def pt_frames_def)
  have "tab e s (PDX a) \<in> pt_frames e s" if "bit (pde_of e (PDX a) s) 0" using that by (auto simp: pt_frames_def present_PDX)
  then show p: "pte_of e a t = pte_of e a s" using tables [of "tab e s (PDX a)"] by (simp add: pte_of_def pde tab_def)
  show "ubyte e a t = ubyte e a s" if "a < KERNBASE" "bit (pte_of e a s) 0"
  proof -
    have "uframe e a s \<in> user_frames e s" using that by (rule user_framesI)
    then have "pmem t (V2P (uframe e a s)) = pmem s (V2P (uframe e a s))"
      using e by (intro keep) (auto simp: space_ok_def separate_def)
    then show ?thesis by (simp add: ubyte_def p uframe_def)
  qed
qed

text \<open>What the write that faulted can rely on: the page of \<open>va\<close> is writable, nobody else uses its frame, the process sees the
  memory it saw before, and so does every other process.\<close>

definition isolated :: "u32 \<Rightarrow> u32 \<Rightarrow> u32 \<Rightarrow> kernel \<Rightarrow> kernel \<Rightarrow> bool" where
  "isolated E d va s t \<longleftrightarrow> kmem_inv E t \<and> vaccess True va t \<and> refs t (uframe d va t) = 1 \<and>
     (\<forall>a < KERNBASE. bit (pte_of d a s) 0 \<longrightarrow> bit (pte_of d a t) 0 \<and> ubyte d a t = ubyte d a s) \<and>
     (\<forall>e a. space_ok E e s \<and> separate d e s \<longrightarrow> pte_of e a t = pte_of e a s \<and>
        (a < KERNBASE \<and> bit (pte_of e a s) 0 \<longrightarrow> ubyte e a t = ubyte e a s))"

lemma bit_unshared: "bit (unshared w) n \<longleftrightarrow> n = 1 \<or> n \<noteq> 10 \<and> bit w n"
  by (auto simp: unshared_def bit_or_iff bit_and_iff flag_bits bit_imp_le_length dest: bit_imp_le_length)

lemma flags_only_unshared: "flags_only (unshared (PTE_FLAGS w))"
proof -
  have "unshared (PTE_FLAGS w) AND NOT 4095 = 0"
    by (rule bit_word_eqI) (auto simp: bit_and_iff bit_NOT_u32 bit_unshared flag_bits)
  then show ?thesis by (simp add: flags_only_def)
qed

lemma ubyte_cong:
  assumes "PTE_ADDR (pte_of d a t) = PTE_ADDR (pte_of d a s)" "pmem t (V2P (uframe d a s)) = pmem s (V2P (uframe d a s))"
  shows "ubyte d a t = ubyte d a s"
  using assms by (simp add: ubyte_def uframe_def)

lemma sole_isolated:
  assumes k: "kmem_ok E s xs" and S: "space_ok E d s" and d: "cr3 s = V2P d"
    and w: "va < KERNBASE" "bit (pte_of d va s) 0" and r: "refs s (uframe d va s) = 1"
  shows "isolated E d va s (set_pte d va (unshared (pte_of d va s)) s)"
proof -
  let ?t = "set_pte d va (unshared (pte_of d va s)) s"
  have pt: "pt_ok E d s" and P: "PDX va \<in> present d s" using S pte_present [OF w(2)] by (auto simp: space_ok_def)
  note p = pte_of_set_pte [OF pt P, of _ "unshared (pte_of d va s)"]
  have keep: "pmem ?t (V2P v) = pmem s (V2P v)" if "freeable E v" "0 < refs s v" "v \<notin> pt_frames d s" for v
    using set_pte_evolves [OF pt P] that by (auto simp: pt_evolves_def)
  have ad: "PTE_ADDR (pte_of d a ?t) = PTE_ADDR (pte_of d a s)" for a
  proof -
    have "PTE_ADDR (unshared w) = PTE_ADDR w" for w by (rule bit_word_eqI) (auto simp: flag_bits bit_unshared)
    then show ?thesis unfolding p using pte_of_same_page [of a va d s] by simp
  qed
  have fr: "uframe d a ?t = uframe d a s" for a by (simp add: uframe_def ad)
  have "kmem_inv E ?t" using set_pte_kmem [OF k pt P] by (auto simp: kmem_inv_def)
  moreover have "vaccess True va ?t"
  proof -
    have "cr3 ?t = V2P d" using d by (simp add: set_pte_def store_def)
    then show ?thesis using w(2) by (simp add: vaccess_def vpresent_def p flag_bits bit_unshared)
  qed
  moreover have "refs ?t (uframe d va ?t) = 1" unfolding fr using r by (simp add: set_pte_def)
  moreover have "bit (pte_of d a ?t) 0 \<and> ubyte d a ?t = ubyte d a s" if a: "a < KERNBASE" "bit (pte_of d a s) 0" for a
  proof -
    have "pmem ?t (V2P (uframe d a s)) = pmem s (V2P (uframe d a s))"
      using S user_framesI [OF a] by (intro keep) (auto simp: space_ok_def)
    then show ?thesis using ubyte_cong [OF ad] a(2) w(2) unfolding p by (simp add: bit_unshared)
  qed
  moreover have "pte_of e a ?t = pte_of e a s" "a < KERNBASE \<Longrightarrow> bit (pte_of e a s) 0 \<Longrightarrow> ubyte e a ?t = ubyte e a s"
    if "space_ok E e s" "separate d e s" for e a
    using other_space [OF that keep] by blast+
  ultimately show ?thesis unfolding isolated_def by blast
qed

lemma copy_isolated:
  assumes k: "kmem_ok E s (y # ys)" and S: "space_ok E d s"
    and w: "va < KERNBASE" "bit (pte_of d va s) 0" and r: "1 < refs s (uframe d va s)"
  shows "isolated E d va s (cow_copied d va y s)" "uframe d va (cow_copied d va y s) = y"
proof -
  let ?t = "cow_copied d va y s"
  have pt: "pt_ok E d s" and f: "freeable E (uframe d va s)" using S user_framesI [OF w] by (auto simp: space_ok_def)
  note C = cow_copied_ok [OF k pt w(2) f r]
  have y: "freeable E y" "refs s y = 0" using kmem_okD(5,6) [OF k] by auto
  note fe = frame_entry [OF y(1) flags_only_unshared]
  show fr: "uframe d va ?t = y" unfolding uframe_def C(3) by (simp add: fe)
  have keep: "pmem ?t (V2P v) = pmem s (V2P v)" if "freeable E v" "0 < refs s v" "v \<notin> pt_frames d s" for v
    using C(4) [OF that(3)] that(2) y(2) by fastforce
  have "kmem_inv E ?t" using C(1) by (auto simp: kmem_inv_def)
  moreover have "vaccess True va ?t"
    using w(2) C(6) by (simp add: vaccess_def vpresent_def C(3) flag_bits fe bit_unshared)
  moreover have "refs ?t (uframe d va ?t) = 1" unfolding fr C(2) [OF y(1)] using C(9) by simp
  moreover have "bit (pte_of d a ?t) 0 \<and> ubyte d a ?t = ubyte d a s" if a: "a < KERNBASE" "bit (pte_of d a s) 0" for a
  proof (cases "unat a div 4096 = unat va div 4096")
    case True
    then have "ubyte d a ?t = get_byte (pmem s (PTE_ADDR (pte_of d va s))) (unat a mod 4096)"
      unfolding ubyte_def C(3) by (simp add: fe C(5))
    then show ?thesis using True w(2) pte_of_same_page [OF True, of d s] by (simp add: C(3) fe bit_unshared flag_bits ubyte_def)
  next
    case False
    have "pmem ?t (V2P (uframe d a s)) = pmem s (V2P (uframe d a s))"
      using S user_framesI [OF a] by (intro keep) (auto simp: space_ok_def)
    then show ?thesis using False a(2) by (simp add: C(3) ubyte_def uframe_def)
  qed
  moreover have "pte_of e a ?t = pte_of e a s" "a < KERNBASE \<Longrightarrow> bit (pte_of e a s) 0 \<Longrightarrow> ubyte e a ?t = ubyte e a s"
    if "space_ok E e s" "separate d e s" for e a
    using other_space [OF that keep] by blast+
  ultimately show "isolated E d va s ?t" unfolding isolated_def by blast
qed

text \<open>
  Property C2: a write to a copy-on-write page gives the process a page of its own. When the page of \<open>va\<close> is present and
  marked copy-on-write, and its frame has no other user or there is a free page, the handler succeeds and the
  write can go on: the page is writable and nobody else uses its frame. Every byte of the user memory of the
  process is as before, and so is every translation and every byte of user memory of every other process, also of those that
  share the frame. If the frame was shared it loses exactly one reference and the process has another frame.
\<close>

theorem cow_fault_isolates:
  assumes "kmem_ok E s xs" "KERNBASE \<le> E" "conf_end C = E" "space_ok E d s" "cr3 s = V2P d" "pgdir (prc p s) = d"
    and "va < KERNBASE" "bit (pte_of d va s) 0" "bit (pte_of d va s) 10" "refs s (uframe d va s) = 1 \<or> xs \<noteq> []"
  shows "\<exists>pte t. walkpgdir d va False s = Inr (Some pte, s) \<and> cow_fault C p va pte s = Inr (True, t) \<and> isolated E d va s t \<and>
    (1 < refs s (uframe d va s) \<longrightarrow> uframe d va t \<noteq> uframe d va s \<and> refs t (uframe d va s) = refs s (uframe d va s) - 1)"
proof -
  have pt: "pt_ok E d s" and f: "freeable E (uframe d va s)" "0 < refs s (uframe d va s)"
    using assms(4) user_framesI [OF assms(7,8)] by (auto simp: space_ok_def)
  have walk: "walkpgdir d va False s = Inr (Some (V2P (tab d s (PDX va)), PTX va), s)"
    using pte_present [OF assms(8)] by (intro walk_found) (simp add: present_PDX)
  show ?thesis
  proof (cases "refs s (uframe d va s) = 1")
    case True
    then show ?thesis
      using walk cow_fault_sole [OF assms(1,8,9) f(1) True] sole_isolated [OF assms(1,4,5,7,8) True] by auto
  next
    case False
    then obtain y ys where xs: "xs = y # ys" using assms(10) by (cases xs) auto
    have r: "1 < refs s (uframe d va s)" using False f(2) by simp
    note k = assms(1) [unfolded xs]
    have "y \<noteq> uframe d va s" "refs (cow_copied d va y s) (uframe d va s) = refs s (uframe d va s) - 1"
      using cow_copied_ok(2) [OF k pt assms(8) f(1) r f(1)] cow_copied_ok(9) [OF k pt assms(8) f(1) r] by simp_all
    then show ?thesis
      using walk cow_fault_shared [OF k assms(2,3) pt assms(5,6,8,9) f(1) r] copy_isolated [OF k assms(4,7,8) r] by auto
  qed
qed

text \<open>Pages 0x8DFF0000 and 0x8DFF1000 are the tables of a process, with one entry \<open>w\<close>, for page number \<open>i\<close>, and 0x8DFF2000 is its
  user page.\<close>

definition demo_space :: "nat \<Rightarrow> u32 \<Rightarrow> kernel" where
  "demo_space i w = filled 0x8DFF2000 (\<lambda>_. 7) (filled 0x8DFF1000 ((\<lambda>_. 0)(i := w)) (filled 0x8DFF0000 ((\<lambda>_. 0)(0 := 0xDFF1007))
     (demo_kernel\<lparr>pmem := demo_mem, freelist := 0x8DFF0000, ptable := [demo_proc\<lparr>pgdir := 0x8DFF0000\<rparr>], cr3 := 0xDFF0000\<rparr>)))"

lemma demo_space_refs:
  "kmem_ok demo_end (demo_space i w) (drop 3 demo_pages)" "refs (demo_space i w) 0x8DFF0000 = 1" "refs (demo_space i w) 0x8DFF1000 = 1"
  "refs (demo_space i w) 0x8DFF2000 = 1"
proof -
  let ?a = "demo_kernel\<lparr>pmem := demo_mem, freelist := 0x8DFF0000, ptable := [demo_proc\<lparr>pgdir := 0x8DFF0000\<rparr>], cr3 := 0xDFF0000\<rparr>"
  have a: "kmem_ok demo_end ?a (0x8DFF0000 # 0x8DFF1000 # 0x8DFF2000 # drop 3 demo_pages)"
    using demo_ok by (simp add: kmem_ok_def demo_phys_def demo_kernel_def refs_def demo_pages_def)
  note b = filled_kmem [OF a, where pg = "(\<lambda>_. 0)(0 := 0xDFF1007)"]
  note c = filled_kmem [OF b(1), where pg = "(\<lambda>_. 0)(i := w)"]
  note d = filled_kmem [OF c(1), where pg = "\<lambda>_. 7", folded demo_space_def]
  have f: "freeable demo_end 0x8DFF0000" "freeable demo_end 0x8DFF1000" "freeable demo_end 0x8DFF2000"
    by (simp_all add: demo_freeable demo_pages_def)
  show "kmem_ok demo_end (demo_space i w) (drop 3 demo_pages)" "refs (demo_space i w) 0x8DFF0000 = 1" "refs (demo_space i w) 0x8DFF1000 = 1"
    "refs (demo_space i w) 0x8DFF2000 = 1" using b(2) c(2,3) d f by simp_all
qed

lemma demo_space_pte:
  "i < 1024 \<Longrightarrow> pte_of 0x8DFF0000 a (demo_space i w) = (if unat a div 4096 = i then w else 0)"
  "pt_frames 0x8DFF0000 (demo_space i w) = {0x8DFF0000, 0x8DFF1000}" "pt_ok demo_end 0x8DFF0000 (demo_space i w)"
proof -
  let ?s = "demo_space i w"
  have m: "pmem ?s 0xDFF0000 = (\<lambda>_. 0)(0 := 0xDFF1007)" "pmem ?s 0xDFF1000 = (\<lambda>_. 0)(i := w)"
    by (simp_all add: demo_space_def filled_def took_def V2P_def)
  have pde: "pde_of 0x8DFF0000 j ?s = (if j = 0 then 0xDFF1007 else 0)" for j
    using m(1) by (simp add: pde_of_def V2P_def)
  have "PDX a = 0 \<and> PTX a = i \<longleftrightarrow> unat a div 4096 = i" if "i < 1024"
  proof -
    let ?b = "word_of_nat (4096 * i) :: u32"
    have "unat ?b = 4096 * i" using that by (intro unat_word_of_nat) simp
    then have "PDX ?b = 0" "PTX ?b = i" "unat ?b div 4096 = i" using that by (simp_all add: PDX_div PTX_div)
    then show ?thesis using same_page [of a ?b] by simp
  qed
  then show "i < 1024 \<Longrightarrow> pte_of 0x8DFF0000 a ?s = (if unat a div 4096 = i then w else 0)"
    using m(2) by (auto simp: pte_of_def pde PTE_ADDR_def)
  have p: "present 0x8DFF0000 ?s = {0}" by (auto simp: present_def pde)
  have t: "tab 0x8DFF0000 ?s 0 = 0x8DFF1000" by (simp add: tab_def pde PTE_ADDR_def P2V_def)
  show fr: "pt_frames 0x8DFF0000 ?s = {0x8DFF0000, 0x8DFF1000}" by (simp add: pt_frames_def p t)
  show "pt_ok demo_end 0x8DFF0000 ?s"
    using demo_space_refs [of i w] by (simp add: pt_ok_def fr p t demo_freeable demo_pages_def)
qed

text \<open>The page at 0x1000 is shared with another process.\<close>

definition demo_cow :: kernel where
  "demo_cow = gained 0x8DFF2000 (demo_space 1 0xDFF2405)"

lemma demo_cow_refs:
  "kmem_ok demo_end demo_cow (drop 3 demo_pages)" "refs demo_cow 0x8DFF0000 = 1" "refs demo_cow 0x8DFF1000 = 1" "refs demo_cow 0x8DFF2000 = 2"
proof -
  note r = demo_space_refs [of 1 "0xDFF2405"]
  have f: "freeable demo_end 0x8DFF0000" "freeable demo_end 0x8DFF1000" "freeable demo_end 0x8DFF2000"
    by (simp_all add: demo_freeable demo_pages_def)
  show "kmem_ok demo_end demo_cow (drop 3 demo_pages)" "refs demo_cow 0x8DFF0000 = 1" "refs demo_cow 0x8DFF1000 = 1" "refs demo_cow 0x8DFF2000 = 2"
    unfolding demo_cow_def using gained_ok [OF r(1) f(3)] r f by simp_all
qed

lemma demo_cow_pte:
  "pte_of 0x8DFF0000 a demo_cow = (if unat a div 4096 = 1 then 0xDFF2405 else 0)" "pt_frames 0x8DFF0000 demo_cow = {0x8DFF0000, 0x8DFF1000}"
  "pt_ok demo_end 0x8DFF0000 demo_cow"
proof -
  have pm: "pmem demo_cow = pmem (demo_space 1 0xDFF2405)" by (simp add: demo_cow_def gained_def)
  note V = view_cong [OF pm] and P = demo_space_pte [where i = 1 and w = "0xDFF2405"]
  show "pte_of 0x8DFF0000 a demo_cow = (if unat a div 4096 = 1 then 0xDFF2405 else 0)" "pt_frames 0x8DFF0000 demo_cow = {0x8DFF0000, 0x8DFF1000}"
    unfolding V using P by simp_all
  show "pt_ok demo_end 0x8DFF0000 demo_cow" using P(3) demo_cow_refs(2,3) P(2) unfolding pt_ok_def V by simp
qed

lemma demo_cow_space:
  "space_ok demo_end 0x8DFF0000 demo_cow" "uframe 0x8DFF0000 0x1234 demo_cow = 0x8DFF2000" "cr3 demo_cow = V2P 0x8DFF0000"
  "pgdir (prc 0 demo_cow) = 0x8DFF0000"
proof -
  have u: "uframe 0x8DFF0000 a demo_cow = 0x8DFF2000" if "unat a div 4096 = 1" for a
    using that by (simp add: uframe_def demo_cow_pte(1) PTE_ADDR_def P2V_def)
  then have "user_frames 0x8DFF0000 demo_cow \<subseteq> {0x8DFF2000}" by (auto simp: user_frames_def demo_cow_pte(1) split: if_splits)
  then show "space_ok demo_end 0x8DFF0000 demo_cow"
    using demo_cow_pte(3) demo_cow_refs(4) by (auto simp: space_ok_def demo_cow_pte(2) demo_freeable demo_pages_def)
  show "uframe 0x8DFF0000 0x1234 demo_cow = 0x8DFF2000" by (rule u) simp
  show "cr3 demo_cow = V2P 0x8DFF0000" "pgdir (prc 0 demo_cow) = 0x8DFF0000"
    by (simp_all add: demo_cow_def gained_def demo_space_def filled_def took_def V2P_def prc_def)
qed

theorem cow_fault_isolates_witness:
  "\<exists>pte t. cow_fault demo_conf 0 0x1234 pte demo_cow = Inr (True, t) \<and> isolated demo_end 0x8DFF0000 0x1234 demo_cow t \<and>
     uframe 0x8DFF0000 0x1234 t \<noteq> 0x8DFF2000 \<and> refs t 0x8DFF2000 = 1"
  using cow_fault_isolates [OF demo_cow_refs(1) _ _ demo_cow_space(1,3,4), of demo_conf "0x1234"] demo_cow_refs(4) demo_cow_space(2)
  by (auto simp: demo_conf_def demo_cow_pte(1) demo_pages_def)

text \<open>
  Property C37 (a fault without memory). When a process writes to a page that it shares and there is no free page, the handler
  marks the process as killed, leaves its translation as it was, and nevertheless gives up its reference to the frame: the
  frame has one reference less than page-table entries that lead to it, so that freeing the address space of the killed process
  gives a page back that another process still uses.
\<close>

theorem cow_fault_no_memory:
  assumes "kmem_ok E s []" "KERNBASE \<le> E" "conf_end C = E" "space_ok E d s" "p < length (ptable s)"
    and "va < KERNBASE" "bit (pte_of d va s) 0" "1 < refs s (uframe d va s)"
  shows "\<exists>pte t. walkpgdir d va False s = Inr (Some pte, s) \<and> cow_fault C p va pte s = Inr (True, t) \<and> killed (prc p t) \<and>
    (\<forall>a. pte_of d a t = pte_of d a s) \<and> refs t (uframe d va t) = refs s (uframe d va s) - 1 \<and>
    (refs s (uframe d va s) = 2 \<longrightarrow> (\<exists>u. kfree E (uframe d va t) t = Inr ((), u) \<and> freelist u = uframe d va s))"
proof -
  let ?r = "(V2P (tab d s (PDX va)), PTX va)" and ?f = "uframe d va s"
  have pt: "pt_ok E d s" and f: "freeable E ?f" using assms(4) user_framesI [OF assms(6,7)] by (auto simp: space_ok_def)
  have walk: "walkpgdir d va False s = Inr (Some ?r, s)" using pte_present [OF assms(7)] by (intro walk_found) (simp add: present_PDX)
  have l: "load ?r s = pte_of d va s" by (rule load_pte [OF pte_present [OF assms(7)]])
  define u where "u = upd_proc p (\<lambda>q. q\<lparr>killed := True\<rparr>) s"
  have g: "referenceCounters s (frame ?f) \<noteq> 1" "1 < referenceCounters s (frame ?f)"
    using assms(8) by (auto simp: refs_def word_less_nat_alt)
  have ku: "kmem_ok E u []" "refs u ?f = refs s ?f" using assms(1) by (simp_all add: u_def kmem_ok_def refs_def)
  have run: "cow_fault C p va ?r s = Inr (True, dropped ?f u)"
  proof -
    have "release_kmem (upd_proc p (\<lambda>q. q\<lparr>killed := True\<rparr>) (s\<lparr>kmem_locked := True\<rparr>)) = Inr ((), u)"
      using kmem_okD(2) [OF assms(1)] by (simp add: release_kmem_def u_def upd_proc_def)
    then show ?thesis
      using getRef_ok [OF assms(1) f] g kalloc_empty [OF assms(1)] kmem_okD(2) [OF assms(1)] decrementRef_ok [OF ku(1) f assms(2)] assms(3) l
      unfolding cow_fault_def Let_def by (simp add: uframe_def acquire_kmem_def)
  qed
  define t where "t = dropped ?f u"
  have pm: "pmem t = pmem s" by (simp add: t_def u_def dropped_def)
  note D = dropped_ok [OF ku(1) f, folded t_def]
  have fr: "uframe d va t = ?f" using view_cong(3) [OF pm] .
  have r: "refs t ?f = refs s ?f - 1" using D(2) [OF _ f] ku(2) assms(8) by simp
  have kt: "kmem_ok E t []" using D(1) ku(2) assms(8) by simp
  have "\<exists>v. kfree E ?f t = Inr ((), v) \<and> freelist v = ?f" if "refs s ?f = 2"
    using kfree_last [OF kt f] r that by (simp add: pushed_def)
  moreover have "killed (prc p t)" using assms(5) by (simp add: t_def dropped_def u_def prc_def upd_proc_def)
  moreover have "\<forall>a. pte_of d a t = pte_of d a s" using view_cong(1) [OF pm] by blast
  ultimately show ?thesis using walk run [folded t_def] r fr by (intro exI [of _ ?r] exI [of _ t]) simp
qed

text \<open>The same machine with all pages in use.\<close>

definition demo_full :: kernel where
  "demo_full = demo_cow\<lparr>freelist := 0, referenceCounters := (\<lambda>_. 1)(frame 0x8DFF2000 := 2)\<rparr>"

lemma demo_full_ok: "kmem_ok demo_end demo_full []" "space_ok demo_end 0x8DFF0000 demo_full" "refs demo_full 0x8DFF2000 = 2"
proof -
  have pm: "pmem demo_full = pmem demo_cow" by (simp add: demo_full_def)
  note V = view_cong [OF pm]
  show "kmem_ok demo_end demo_full []" using demo_cow_refs(1) by (auto simp: kmem_ok_def demo_full_def refs_def)
  show "refs demo_full 0x8DFF2000 = 2" by (simp add: demo_full_def refs_def)
  have r: "0 < refs demo_full v" for v by (simp add: demo_full_def refs_def)
  have "user_frames 0x8DFF0000 demo_full = user_frames 0x8DFF0000 demo_cow" by (simp add: user_frames_def V)
  then show "space_ok demo_end 0x8DFF0000 demo_full"
    using demo_cow_space(1) r by (auto simp: space_ok_def pt_ok_def V)
qed

theorem cow_fault_no_memory_witness:
  "\<exists>pte t u. cow_fault demo_conf 0 0x1234 pte demo_full = Inr (True, t) \<and> killed (prc 0 t) \<and> pte_of 0x8DFF0000 0x1234 t = 0xDFF2405 \<and>
     kfree demo_end 0x8DFF2000 t = Inr ((), u) \<and> freelist u = 0x8DFF2000"
proof -
  have pm: "pmem demo_full = pmem demo_cow" by (simp add: demo_full_def)
  note V = view_cong [OF pm]
  have u: "uframe 0x8DFF0000 0x1234 demo_full = 0x8DFF2000" using V(3) demo_cow_space(2) by simp
  have l: "0 < length (ptable demo_full)" by (simp add: demo_full_def demo_cow_def gained_def demo_space_def filled_def took_def)
  obtain pte t where t: "cow_fault demo_conf 0 0x1234 pte demo_full = Inr (True, t)" "killed (prc 0 t)" "\<forall>a. pte_of 0x8DFF0000 a t = pte_of 0x8DFF0000 a demo_full"
    "\<exists>u. kfree demo_end (uframe 0x8DFF0000 0x1234 t) t = Inr ((), u) \<and> freelist u = 0x8DFF2000"
    using cow_fault_no_memory [OF demo_full_ok(1) _ _ demo_full_ok(2) l, of demo_conf "0x1234"] demo_full_ok(3) u
    by (auto simp: demo_conf_def demo_cow_pte(1) V)
  then have "uframe 0x8DFF0000 0x1234 t = 0x8DFF2000" using u by (simp add: uframe_def)
  moreover have "pte_of 0x8DFF0000 0x1234 t = 0xDFF2405" using t(3) by (simp add: V demo_cow_pte(1))
  ultimately show ?thesis using t(1,2,4) by metis
qed

end
