(* ===== verification/Copyuvm.thy ===== *)
theory Copyuvm
  imports Cow
begin

text \<open>
  The copy-on-write copy of an address space that \<open>fork\<close> makes (\<open>copyuvm\<close> of \<open>vm.c\<close>): both processes end up with the same
  frames, none of which either can write to without a fault, and every frame has one more reference.
\<close>

unbundle bit_operations_syntax

section \<open>Entries and frames\<close>

text \<open>The entries of parent and child after the copy.\<close>

definition parent_pte :: "u32 \<Rightarrow> u32" where
  "parent_pte w = (if bit w 0 then cow_flags w else w)"

definition child_pte :: "u32 \<Rightarrow> u32" where
  "child_pte w = (if bit w 0 then cow_flags w else w AND 0xFFF)"

lemma bit_cow_flags: "bit (cow_flags w) n \<longleftrightarrow> (if bit w 1 then n = 10 \<or> n \<noteq> 1 \<and> bit w n else bit w n)"
  by (auto simp: cow_flags_def bit_or_iff bit_and_iff flag_bits dest: bit_imp_le_length)

lemma PTE_ADDR_cow_flags [simp]: "PTE_ADDR (cow_flags w) = PTE_ADDR w"
  by (rule bit_word_eqI) (auto simp: flag_bits bit_cow_flags)

lemma entry_parts: "bit w 0 \<Longrightarrow> PTE_ADDR w OR PTE_FLAGS w OR PTE_P = w"
  by (rule bit_word_eqI) (auto simp: bit_or_iff flag_bits)

text \<open>The frames the first \<open>k\<close> pages are on.\<close>

definition first_frames :: "u32 \<Rightarrow> nat \<Rightarrow> 'a phys_scheme \<Rightarrow> u32 set" where
  "first_frames d k s = {uframe d a s |a. unat a div 4096 < k \<and> bit (pte_of d a s) 0}"

text \<open>The two trees of tables while the copy goes on: that of the parent is the same, that of the child has only
  got pages nobody used.\<close>

definition tables_ok :: "u32 \<Rightarrow> u32 \<Rightarrow> u32 \<Rightarrow> 'a phys_scheme \<Rightarrow> 'a phys_scheme \<Rightarrow> bool" where
  "tables_ok E d0 d s t \<longleftrightarrow> pt_ok E d0 t \<and> pt_frames d0 t = pt_frames d0 s \<and> pt_ok E d t \<and> pt_frames d t \<inter> pt_frames d0 s = {} \<and>
     (\<forall>v \<in> pt_frames d t. 0 < refs s v \<longrightarrow> v \<in> pt_frames d s) \<and> (\<forall>v. freeable E v \<and> 0 < refs s v \<longrightarrow> 0 < refs t v) \<and>
     phys.more t = phys.more s"

text \<open>The state \<open>t\<close> after \<open>k\<close> pages, the copy having begun in \<open>s\<close>.\<close>

definition shared_upto :: "u32 \<Rightarrow> u32 \<Rightarrow> u32 \<Rightarrow> nat \<Rightarrow> 'a phys_scheme \<Rightarrow> 'a phys_scheme \<Rightarrow> bool" where
  "shared_upto E d0 d k s t \<longleftrightarrow> tables_ok E d0 d s t \<and>
     (\<forall>a. pte_of d0 a t = (if unat a div 4096 < k then parent_pte (pte_of d0 a s) else pte_of d0 a s)) \<and>
     (\<forall>a. pte_of d a t = (if unat a div 4096 < k then child_pte (pte_of d0 a s) else pte_of d a s)) \<and>
     (\<forall>v. freeable E v \<and> 0 < refs s v \<longrightarrow> refs t v = refs s v + (if v \<in> first_frames d0 k s then 1 else 0) \<and>
        (v \<notin> pt_frames d0 s \<longrightarrow> v \<notin> pt_frames d s \<longrightarrow> pmem t (V2P v) = pmem s (V2P v)))"

text \<open>What the pages that are to be copied look like.\<close>

definition copyable :: "u32 \<Rightarrow> u32 \<Rightarrow> u32 \<Rightarrow> nat \<Rightarrow> 'a phys_scheme \<Rightarrow> bool" where
  "copyable E d0 d N s \<longleftrightarrow>
     (\<forall>a. unat a div 4096 < N \<longrightarrow> (bit (pte_of d0 a s) 0 \<or> bit (pte_of d0 a s) 9) \<and> \<not> bit (pte_of d a s) 0 \<and>
        (bit (pte_of d0 a s) 0 \<longrightarrow> freeable E (uframe d0 a s) \<and> 0 < refs s (uframe d0 a s) \<and> refs s (uframe d0 a s) + 1 < 4294967296 \<and>
           uframe d0 a s \<notin> pt_frames d0 s \<and> uframe d0 a s \<notin> pt_frames d s)) \<and>
     (\<forall>a b. unat a div 4096 < N \<and> unat b div 4096 < N \<and> bit (pte_of d0 a s) 0 \<and> bit (pte_of d0 b s) 0 \<and>
        uframe d0 a s = uframe d0 b s \<longrightarrow> unat a div 4096 = unat b div 4096)"

lemma pte_table: "pte_of d a s \<noteq> 0 \<Longrightarrow> PDX a \<in> present d s"
  by (auto simp: pte_of_def present_PDX split: if_splits)

lemma gained_same:
  "pmem (gained v s) = pmem s" "phys.more (gained v s) = phys.more s"
  by (simp_all add: gained_def)

lemma pt_ok_gained:
  assumes "pt_ok E d s" "freeable E v" "kmem_ok E s xs" "0 < refs s v" "refs s v + 1 < 4294967296"
  shows "pt_ok E d (gained v s)"
proof -
  have "0 < refs (gained v s) w" if "freeable E w" "0 < refs s w" for w
    using gained_ok(2) [OF assms(3,2,4,5) that(1)] that(2) by simp
  then show ?thesis using assms(1) by (auto simp: pt_ok_def view_cong [OF gained_same(1)])
qed

lemma first_frames_Suc:
  assumes "unat i div 4096 = k"
  shows "first_frames d (Suc k) s = (if bit (pte_of d i s) 0 then insert (uframe d i s) (first_frames d k s) else first_frames d k s)"
proof -
  have p: "pte_of d a s = pte_of d i s" "uframe d a s = uframe d i s" if "unat a div 4096 = k" for a
    using pte_of_same_page [of a i] uframe_same_page [of a i] that assms by simp_all
  have "first_frames d (Suc k) s = first_frames d k s \<union> {uframe d a s |a. unat a div 4096 = k \<and> bit (pte_of d a s) 0}"
    unfolding first_frames_def less_Suc_eq by blast
  moreover have "{uframe d a s |a. unat a div 4096 = k \<and> bit (pte_of d a s) 0} = (if bit (pte_of d i s) 0 then {uframe d i s} else {})"
  proof (cases "bit (pte_of d i s) 0")
    case True
    have "x = uframe d i s" if "x \<in> {uframe d a s |a. unat a div 4096 = k \<and> bit (pte_of d a s) 0}" for x using that p(2) by blast
    moreover have "uframe d i s \<in> {uframe d a s |a. unat a div 4096 = k \<and> bit (pte_of d a s) 0}" using assms True by blast
    ultimately show ?thesis unfolding if_P [OF True] by blast
  next
    case False
    have "\<not> bit (pte_of d a s) 0" if "unat a div 4096 = k" for a using p(1) [OF that] False by simp
    then show ?thesis unfolding if_not_P [OF False] by blast
  qed
  ultimately show ?thesis by simp
qed

section \<open>One page\<close>

lemma tables_okD:
  assumes "tables_ok E d0 d s t"
  shows "pt_ok E d0 t" "pt_frames d0 t = pt_frames d0 s" "pt_ok E d t" "pt_frames d t \<inter> pt_frames d0 s = {}"
    "v \<in> pt_frames d t \<Longrightarrow> 0 < refs s v \<Longrightarrow> v \<in> pt_frames d s" "freeable E v \<Longrightarrow> 0 < refs s v \<Longrightarrow> 0 < refs t v"
    "phys.more t = phys.more s"
  using assms by (auto simp: tables_ok_def)

text \<open>Steps on the tables of the child, and of the parent.\<close>

lemma child_step:
  assumes T: "tables_ok E d0 d s t" and ev: "pt_evolves E d t t'" and ok: "pt_ok E d t'"
  shows "tables_ok E d0 d s t'" "pte_of d0 a t' = pte_of d0 a t"
    "freeable E v \<Longrightarrow> 0 < refs s v \<Longrightarrow> refs t' v = refs t v \<and> (v \<notin> pt_frames d s \<longrightarrow> pmem t' (V2P v) = pmem t (V2P v))"
proof -
  note u = tables_okD [OF T]
  have dis: "pt_frames d0 t \<inter> pt_frames d t = {}" using u(2,4) by (simp add: Int_commute)
  note O = evolves_other [OF ev u(1) dis]
  show "pte_of d0 a t' = pte_of d0 a t" by (rule O(1))
  show keep: "refs t' v = refs t v \<and> (v \<notin> pt_frames d s \<longrightarrow> pmem t' (V2P v) = pmem t (V2P v))" if v: "freeable E v" "0 < refs s v" for v
  proof -
    have "0 < refs t v" using u(6) v by blast
    moreover have "v \<notin> pt_frames d t" if "v \<notin> pt_frames d s" using u(5) v(2) that by blast
    ultimately show ?thesis using ev v(1) by (auto simp: pt_evolves_def)
  qed
  have new: "v \<in> pt_frames d s" if "v \<in> pt_frames d t'" "0 < refs s v" for v
  proof -
    have "freeable E v" using ok that(1) by (auto simp: pt_ok_def)
    then have "0 < refs t v" using u(6) that(2) by blast
    then have "v \<in> pt_frames d t" using ev that(1) by (auto simp: pt_evolves_def)
    then show ?thesis using u(5) that(2) by blast
  qed
  have "phys.more t' = phys.more s" using ev u(7) by (simp add: pt_evolves_def)
  moreover have "0 < refs t' v" if "freeable E v" "0 < refs s v" for v using keep [OF that] u(6) [OF that] by simp
  ultimately show "tables_ok E d0 d s t'" using O(2-4) u(2) ok new unfolding tables_ok_def by (auto simp: Int_commute)
qed

lemma parent_step:
  fixes w :: u32
  assumes T: "tables_ok E d0 d s t" and P: "PDX i \<in> present d0 t"
  defines "t' \<equiv> set_pte d0 i w t"
  shows "tables_ok E d0 d s t'" "pte_of d a t' = pte_of d a t"
    "pte_of d0 a t' = (if unat a div 4096 = unat i div 4096 then w else pte_of d0 a t)"
    "refs t' v = refs t v" "v \<notin> pt_frames d0 s \<Longrightarrow> pmem t' (V2P v) = pmem t (V2P v)"
proof -
  note u = tables_okD [OF T]
  note ev = set_pte_evolves [OF u(1) P, of w, folded t'_def]
  note O = evolves_other [OF ev u(3), unfolded u(2), OF u(4)]
  show "pte_of d a t' = pte_of d a t" by (rule O(1))
  show "pte_of d0 a t' = (if unat a div 4096 = unat i div 4096 then w else pte_of d0 a t)"
    unfolding t'_def by (rule pte_of_set_pte [OF u(1) P])
  show r: "refs t' v = refs t v" for v by (simp add: t'_def set_pte_def)
  have "tab d0 t (PDX i) \<in> pt_frames d0 s" using P u(2) by (auto simp: pt_frames_def)
  then show "pmem t' (V2P v) = pmem t (V2P v)" if "v \<notin> pt_frames d0 s" using that by (auto simp: t'_def set_pte_def store_def)
  have "pt_ok E d0 t'" "pt_frames d0 t' = pt_frames d0 s" "phys.more t' = phys.more s"
    using set_pte_ok [OF u(1) P] set_pte_tree(3) [OF u(1) P] u(2,7) by (simp_all add: t'_def set_pte_def store_def)
  then show "tables_ok E d0 d s t'" using T O(2,3) r unfolding tables_ok_def by auto
qed

lemma gained_step:
  assumes T: "tables_ok E d0 d s t" and k: "kmem_ok E t ys" and v: "freeable E v" "0 < refs t v" "refs t v + 1 < 4294967296"
  shows "tables_ok E d0 d s (gained v t)"
proof -
  note u = tables_okD [OF T] and V = view_cong [OF gained_same(1) [of v t]]
  have "0 < refs (gained v t) x" if "freeable E x" "0 < refs s x" for x
    using gained_ok(2) [OF k v that(1)] u(6) [OF that] by simp
  then show ?thesis using T pt_ok_gained [OF _ v(1) k v(2,3)] u(1,3) unfolding tables_ok_def V by (simp add: gained_same)
qed

text \<open>Putting one page together.\<close>

lemma shared_Suc:
  assumes U: "shared_upto E d0 d k s t" and i: "unat i div 4096 = k" and T: "tables_ok E d0 d s t'"
    and p0: "\<And>a. pte_of d0 a t' = (if unat a div 4096 = k then parent_pte (pte_of d0 i s) else pte_of d0 a t)"
    and p: "\<And>a. pte_of d a t' = (if unat a div 4096 = k then child_pte (pte_of d0 i s) else pte_of d a t)"
    and r: "\<And>v. freeable E v \<Longrightarrow> 0 < refs s v \<Longrightarrow> refs t' v = refs t v + (if bit (pte_of d0 i s) 0 \<and> v = uframe d0 i s then 1 else 0)"
    and m: "\<And>v. freeable E v \<Longrightarrow> 0 < refs s v \<Longrightarrow> v \<notin> pt_frames d0 s \<Longrightarrow> v \<notin> pt_frames d s \<Longrightarrow> pmem t' (V2P v) = pmem t (V2P v)"
    and inj: "bit (pte_of d0 i s) 0 \<Longrightarrow> uframe d0 i s \<notin> first_frames d0 k s"
  shows "shared_upto E d0 d (Suc k) s t'"
proof -
  have same: "pte_of d0 a s = pte_of d0 i s" if "unat a div 4096 = k" for a using pte_of_same_page [of a i] that i by simp
  have "pte_of d0 a t' = (if unat a div 4096 < Suc k then parent_pte (pte_of d0 a s) else pte_of d0 a s)" for a
    using U same [of a] unfolding p0 shared_upto_def by (cases "unat a div 4096 = k") auto
  moreover have "pte_of d a t' = (if unat a div 4096 < Suc k then child_pte (pte_of d0 a s) else pte_of d a s)" for a
    using U same [of a] unfolding p shared_upto_def by (cases "unat a div 4096 = k") auto
  moreover have "refs t' v = refs s v + (if v \<in> first_frames d0 (Suc k) s then 1 else 0)" if v: "freeable E v" "0 < refs s v" for v
  proof -
    have "refs t v = refs s v + (if v \<in> first_frames d0 k s then 1 else 0)" using U v by (simp add: shared_upto_def)
    then show ?thesis using r [OF v] inj unfolding first_frames_Suc [OF i] by auto
  qed
  moreover have "pmem t' (V2P v) = pmem s (V2P v)" if v: "freeable E v" "0 < refs s v" "v \<notin> pt_frames d0 s" "v \<notin> pt_frames d s" for v
    using m [OF v] U v by (simp add: shared_upto_def)
  ultimately show ?thesis using T unfolding shared_upto_def by blast
qed

lemma copyableD:
  assumes "copyable E d0 d N s" "unat i div 4096 < N" "bit (pte_of d0 i s) 0"
  shows "freeable E (uframe d0 i s)" "0 < refs s (uframe d0 i s)" "refs s (uframe d0 i s) + 1 < 4294967296"
    "uframe d0 i s \<notin> pt_frames d0 s" "uframe d0 i s \<notin> pt_frames d s" "uframe d0 i s \<notin> first_frames d0 (unat i div 4096) s"
proof -
  show "freeable E (uframe d0 i s)" "0 < refs s (uframe d0 i s)" "refs s (uframe d0 i s) + 1 < 4294967296"
    "uframe d0 i s \<notin> pt_frames d0 s" "uframe d0 i s \<notin> pt_frames d s"
    using assms unfolding copyable_def by blast+
  show "uframe d0 i s \<notin> first_frames d0 (unat i div 4096) s"
  proof
    assume "uframe d0 i s \<in> first_frames d0 (unat i div 4096) s"
    then obtain a where a: "uframe d0 i s = uframe d0 a s" "unat a div 4096 < unat i div 4096" "bit (pte_of d0 a s) 0"
      by (auto simp: first_frames_def)
    then have "unat i div 4096 = unat a div 4096" using assms unfolding copyable_def by (meson less_trans)
    then show False using a(2) by simp
  qed
qed

lemma swapped_step:
  assumes U: "shared_upto E d0 d k s t" and k: "kmem_ok E t ys" "ys \<noteq> []" and i: "unat i div 4096 = k"
    and w: "\<not> bit (pte_of d0 i s) 0"
  shows "\<exists>t' zs. copy_swapped d i (pte_of d0 i s) t = Inr ((), t') \<and> shared_upto E d0 d (Suc k) s t' \<and>
    kmem_ok E t' zs \<and> length ys \<le> Suc (length zs)"
proof -
  have T: "tables_ok E d0 d s t" using U by (simp add: shared_upto_def)
  note u = tables_okD [OF T]
  from k(1) u(3) show ?thesis
  proof (cases rule: walk_alloc [where va = i])
    case full
    then show ?thesis using k(2) by simp
  next
    case (got s1 zs)
    let ?t = "set_pte d i (pte_of d0 i s AND 0xFFF) s1"
    note W = got(3,5)
    have ev: "pt_evolves E d t ?t"
      using pt_evolves_trans [OF got(4) set_pte_evolves [OF W]] set_pte_ok [OF W] by (auto simp: pt_ok_def)
    note S = child_step [OF T ev set_pte_ok [OF W]]
    have "copy_swapped d i (pte_of d0 i s) t = Inr ((), ?t)" using got(1) by (simp add: copy_swapped_def set_pte_def)
    moreover have "shared_upto E d0 d (Suc k) s ?t"
    proof (rule shared_Suc [OF U i S(1)])
      show "pte_of d0 a ?t = (if unat a div 4096 = k then parent_pte (pte_of d0 i s) else pte_of d0 a t)" for a
        using U pte_of_same_page [of a i d0 s] i w unfolding S(2) shared_upto_def by (auto simp: parent_pte_def)
      show "pte_of d a ?t = (if unat a div 4096 = k then child_pte (pte_of d0 i s) else pte_of d a t)" for a
        unfolding pte_of_set_pte [OF W] got(6) using w i by (simp add: child_pte_def)
    qed (use S(3) w in auto)
    ultimately show ?thesis using set_pte_kmem [OF got(2) W] got(7) by blast
  qed
qed

lemma map_one:
  assumes "kmem_ok E s ys" "1 < length ys" "pt_ok E d s" "unat i mod 4096 = 0" "unat i + 4096 \<le> 4294967296" "\<not> bit (pte_of d i s) 0"
  shows "\<exists>t zs. mappages d i PGSIZE pa perm s = Inr (0, t) \<and> kmem_ok E t zs \<and> length ys \<le> Suc (length zs) \<and> pt_ok E d t \<and> pt_evolves E d s t \<and>
    (\<forall>a. pte_of d a t = (if unat a div 4096 = unat i div 4096 then pa OR perm OR PTE_P else pte_of d a s))"
proof -
  have z: "0 = (unat i + unat (PGSIZE :: u32) - 1) div 4096 - unat i div 4096"
  proof -
    obtain q where "unat i = 4096 * q" using assms(4) by (metis dvd_def mod_0_imp_dvd)
    then show ?thesis by simp
  qed
  have "\<And>j. j \<le> 0 \<Longrightarrow> pte_of d (pg_at (PGROUNDDOWN i) j) s AND PTE_P = 0"
    using assms(4,6) by (simp add: PGROUNDDOWN_aligned flag_bits)
  from mappages_spec [OF assms(1,3) _ _ z this, where pa = pa and perm = perm] assms(5)
  obtain r t k zs where R: "mappages d i PGSIZE pa perm s = Inr (r, t)" "kmem_ok E t zs" "pt_ok E d t" "pt_evolves E d s t"
    "mapped_upto d i pa perm k s t" "r = 0 \<and> k = 1 \<or> r = -1 \<and> k \<le> 0 \<and> zs = []" "length ys \<le> 1 + length zs" by auto
  then have "r = 0" "k = 1" using assms(2) by auto
  have "pte_of d a t = (if unat a div 4096 = unat i div 4096 then pa OR perm OR PTE_P else pte_of d a s)" for a
    using R(5) [unfolded mapped_upto_def, rule_format, of a] \<open>k = 1\<close> by auto
  then show ?thesis using R \<open>r = 0\<close> by auto
qed

lemma present_step:
  assumes U: "shared_upto E d0 d k s t" and k: "kmem_ok E t ys" "1 < length ys" and E: "KERNBASE \<le> E"
    and i: "unat i = 4096 * k" "unat i + 4096 \<le> 4294967296" and N: "copyable E d0 d N s" "k < N" and w: "bit (pte_of d0 i s) 0"
  shows "\<exists>t1 t2 t' zs. t1 = store (V2P (tab d0 t (PDX i)), PTX i) (cow_flags (pte_of d0 i s)) t \<and>
    load (V2P (tab d0 t (PDX i)), PTX i) t1 = cow_flags (pte_of d0 i s) \<and>
    mappages d i PGSIZE (PTE_ADDR (pte_of d0 i s)) (PTE_FLAGS (cow_flags (pte_of d0 i s))) t1 = Inr (0, t2) \<and>
    incrementRef E (uframe d0 i s) t2 = Inr ((), t') \<and> shared_upto E d0 d (Suc k) s t' \<and>
    kmem_ok E t' zs \<and> length ys \<le> Suc (length zs)"
proof -
  let ?w = "pte_of d0 i s" and ?f = "uframe d0 i s"
  have T: "tables_ok E d0 d s t" using U by (simp add: shared_upto_def)
  have ik: "unat i div 4096 = k" "unat i mod 4096 = 0" using i(1) by simp_all
  have wt: "pte_of d0 i t = ?w" "pte_of d i t = pte_of d i s" using U ik by (simp_all add: shared_upto_def)
  have P: "PDX i \<in> present d0 t" using wt(1) w by (intro pte_present) simp
  define t1 where "t1 = set_pte d0 i (cow_flags ?w) t"
  note S1 = parent_step [OF T P, where w = "cow_flags ?w", folded t1_def]
  have k1: "kmem_ok E t1 ys" unfolding t1_def by (rule set_pte_kmem [OF k(1) tables_okD(1) [OF T] P])
  have "\<not> bit (pte_of d i s) 0" using conjunct1 [OF N(1) [unfolded copyable_def], rule_format, of i] N(2) ik(1) by simp
  then have nb: "\<not> bit (pte_of d i t1) 0" unfolding S1(2) wt(2) .
  obtain t2 zs where M: "mappages d i PGSIZE (PTE_ADDR ?w) (PTE_FLAGS (cow_flags ?w)) t1 = Inr (0, t2)" "kmem_ok E t2 zs" "length ys \<le> Suc (length zs)"
    "pt_ok E d t2" "pt_evolves E d t1 t2"
    "\<And>a. pte_of d a t2 = (if unat a div 4096 = k then PTE_ADDR ?w OR PTE_FLAGS (cow_flags ?w) OR PTE_P else pte_of d a t1)"
    using map_one [OF k1 k(2) tables_okD(3) [OF S1(1)] ik(2) i(2) nb] unfolding ik(1) by blast
  note S2 = child_step [OF S1(1) M(5,4)]
  have f: "freeable E ?f" "0 < refs s ?f" "refs s ?f + 1 < 4294967296" "?f \<notin> first_frames d0 k s"
    using copyableD [OF N(1), of i] N(2) w ik(1) by simp_all
  have rf: "refs t2 v = refs t v" if "freeable E v" "0 < refs s v" for v using S2(3) [OF that] S1(4) by simp
  have r2: "refs t2 ?f = refs s ?f" using rf [OF f(1,2)] U f unfolding shared_upto_def by simp
  have g: "0 < refs t2 ?f" "refs t2 ?f + 1 < 4294967296" using r2 f(2,3) by simp_all
  note G = gained_ok [OF M(2) f(1) g]
  have "shared_upto E d0 d (Suc k) s (gained ?f t2)"
  proof (rule shared_Suc [OF U ik(1) gained_step [OF S2(1) M(2) f(1) g]])
    show "pte_of d0 a (gained ?f t2) = (if unat a div 4096 = k then parent_pte ?w else pte_of d0 a t)" for a
      unfolding view_cong(1) [OF gained_same(1)] S2(2) S1(3) ik(1) using w by (simp add: parent_pte_def)
    have "PTE_ADDR ?w OR PTE_FLAGS (cow_flags ?w) OR PTE_P = cow_flags ?w"
      using entry_parts [of "cow_flags ?w"] w by (simp add: bit_cow_flags)
    then show "pte_of d a (gained ?f t2) = (if unat a div 4096 = k then child_pte ?w else pte_of d a t)" for a
      unfolding view_cong(1) [OF gained_same(1)] M(6) S1(2) using w by (simp add: child_pte_def)
    show "refs (gained ?f t2) v = refs t v + (if bit ?w 0 \<and> v = ?f then 1 else 0)" if "freeable E v" "0 < refs s v" for v
      using G(2) [OF that(1)] rf [OF that] w by auto
    show "pmem (gained ?f t2) (V2P v) = pmem t (V2P v)" if "freeable E v" "0 < refs s v" "v \<notin> pt_frames d0 s" "v \<notin> pt_frames d s" for v
      using S2(3) [OF that(1,2)] S1(5) [OF that(3)] that(4) by (simp add: gained_same)
  qed (use f(4) in simp)
  then show ?thesis
    using M(1,3) G(1) incrementRef_shared [OF M(2) f(1) E] t1_def by (auto simp: set_pte_def)
qed

section \<open>The whole range\<close>

lemma copy_turn:
  assumes U: "shared_upto E d0 d k s t" and k: "kmem_ok E t ys" "1 < length ys" and E: "KERNBASE \<le> E" "conf_end C = E"
    and i: "unat i = 4096 * k" "i < n" "n \<le> KERNBASE" and N: "copyable E d0 d N s" "k < N"
  shows "\<exists>t' zs. copyuvm_from C d0 d n i t = copyuvm_from C d0 d n (i + PGSIZE) t' \<and> shared_upto E d0 d (Suc k) s t' \<and>
    kmem_ok E t' zs \<and> length ys \<le> Suc (length zs)"
proof -
  let ?w = "pte_of d0 i s" and ?r = "(V2P (tab d0 t (PDX i)), PTX i)"
  have ik: "unat i div 4096 = k" using i(1) by simp
  have b: "unat i < 2147483648" using i(2,3) by (simp add: word_less_nat_alt word_le_nat_alt)
  have wt: "pte_of d0 i t = ?w" using U ik by (simp add: shared_upto_def)
  have pg: "bit ?w 0 \<or> bit ?w 9" using conjunct1 [OF N(1) [unfolded copyable_def], rule_format, of i] N(2) ik by simp
  then have "?w \<noteq> 0" by auto
  then have P: "PDX i \<in> present d0 t" using wt by (intro pte_table) simp
  have walk: "walkpgdir d0 i False t = Inr (Some ?r, t)" using P by (intro walk_found) (simp add: present_PDX)
  have l: "load ?r t = ?w" using load_pte [OF P] wt by simp
  have up: "\<not> i + PGSIZE \<le> i" using b unat_add_nowrap [of i PGSIZE] by (simp add: word_le_nat_alt)
  show ?thesis
  proof (cases "bit ?w 0")
    case True
    obtain t2 t' zs where S: "load ?r (store ?r (cow_flags ?w) t) = cow_flags ?w"
      "mappages d i PGSIZE (PTE_ADDR ?w) (PTE_FLAGS (cow_flags ?w)) (store ?r (cow_flags ?w) t) = Inr (0, t2)"
      "incrementRef E (uframe d0 i s) t2 = Inr ((), t')" "shared_upto E d0 d (Suc k) s t'" "kmem_ok E t' zs" "length ys \<le> Suc (length zs)"
      using present_step [OF U k E(1) i(1) _ N True] b by auto
    have "copyuvm_from C d0 d n i t = copyuvm_from C d0 d n (i + PGSIZE) t'"
      using S(1-3) True i(2) walk l up E(2) by (simp add: copyuvm_from.simps [of C d0 d n i t] flag_bits Let_def uframe_def)
    then show ?thesis using S(4-6) by blast
  next
    case False
    obtain t' zs where S: "copy_swapped d i ?w t = Inr ((), t')" "shared_upto E d0 d (Suc k) s t'" "kmem_ok E t' zs" "length ys \<le> Suc (length zs)"
      using swapped_step [OF U k(1) _ ik False] k(2) by fastforce
    have "copyuvm_from C d0 d n i t = copyuvm_from C d0 d n (i + PGSIZE) t'"
      using S(1) False pg i(2) walk l up by (simp add: copyuvm_from.simps [of C d0 d n i t] flag_bits Let_def)
    then show ?thesis using S(2-4) by blast
  qed
qed

lemma copy_rest:
  assumes "shared_upto E d0 d k s t" "kmem_ok E t ys" "m < length ys" "KERNBASE \<le> E" "conf_end C = E" "n \<le> KERNBASE"
    and "copyable E d0 d (k + m) s" "k + m = (unat n + 4095) div 4096" "unat i = 4096 * k"
  shows "\<exists>t' zs. copyuvm_from C d0 d n i t = Inr (d, lcr3 (V2P d0) t') \<and> shared_upto E d0 d (k + m) s t' \<and> kmem_ok E t' zs"
  using assms
proof (induction m arbitrary: k i t ys)
  case 0
  then have "unat n \<le> unat i" by simp
  then show ?case using "0.prems" by (intro exI [of _ t] exI [of _ ys]) (simp add: copyuvm_from.simps [of C d0 d n i t] word_less_nat_alt)
next
  case (Suc m)
  have "4096 * k < unat n" using Suc.prems(8) by simp
  then have i: "i < n" using Suc.prems(9) by (simp add: word_less_nat_alt)
  obtain t' zs where S: "copyuvm_from C d0 d n i t = copyuvm_from C d0 d n (i + PGSIZE) t'" "shared_upto E d0 d (Suc k) s t'"
    "kmem_ok E t' zs" "length ys \<le> Suc (length zs)"
    using copy_turn [OF Suc.prems(1,2) _ Suc.prems(4,5,9) i Suc.prems(6,7)] Suc.prems(3) by auto
  have "unat n \<le> 2147483648" using Suc.prems(6) by (simp add: word_le_nat_alt)
  then have "unat (i + PGSIZE) = 4096 * Suc k"
    using Suc.prems(9) \<open>4096 * k < unat n\<close> unat_add_nowrap [of i PGSIZE] by simp
  from Suc.IH [OF S(2,3) _ Suc.prems(4,5,6) _ _ this] show ?case using S(1,4) Suc.prems(3,7,8) by simp
qed

lemma shared_pages:
  assumes U: "shared_upto E d0 d N s t" and N: "copyable E d0 d N s" and a: "unat a div 4096 < N"
  shows "pte_of d0 a t = parent_pte (pte_of d0 a s)" "pte_of d a t = child_pte (pte_of d0 a s)"
    "bit (pte_of d a t) 0 = bit (pte_of d0 a s) 0" "bit (pte_of d0 a t) 0 = bit (pte_of d0 a s) 0"
    "bit (pte_of d0 a s) 0 \<Longrightarrow> uframe d a t = uframe d0 a s \<and> uframe d0 a t = uframe d0 a s \<and> ubyte d a t = ubyte d0 a s \<and>
       ubyte d0 a t = ubyte d0 a s \<and> refs t (uframe d0 a s) = refs s (uframe d0 a s) + 1"
proof -
  show p: "pte_of d0 a t = parent_pte (pte_of d0 a s)" "pte_of d a t = child_pte (pte_of d0 a s)"
    using U a by (simp_all add: shared_upto_def)
  show "bit (pte_of d a t) 0 = bit (pte_of d0 a s) 0" "bit (pte_of d0 a t) 0 = bit (pte_of d0 a s) 0"
    unfolding p by (simp_all add: parent_pte_def child_pte_def bit_cow_flags bit_and_iff)
  assume b: "bit (pte_of d0 a s) 0"
  note f = copyableD [OF N a b]
  have u: "uframe d a t = uframe d0 a s" "uframe d0 a t = uframe d0 a s"
    unfolding uframe_def p using b by (simp_all add: parent_pte_def child_pte_def)
  have "uframe d0 a s \<in> first_frames d0 N s" using a b by (auto simp: first_frames_def)
  then have "refs t (uframe d0 a s) = refs s (uframe d0 a s) + 1" "pmem t (V2P (uframe d0 a s)) = pmem s (V2P (uframe d0 a s))"
    using U f(1,2,4,5) by (simp_all add: shared_upto_def)
  then show "uframe d a t = uframe d0 a s \<and> uframe d0 a t = uframe d0 a s \<and> ubyte d a t = ubyte d0 a s \<and>
       ubyte d0 a t = ubyte d0 a s \<and> refs t (uframe d0 a s) = refs s (uframe d0 a s) + 1"
    using u by (simp add: ubyte_def uframe_def)
qed

lemma shared_spaces:
  assumes U: "shared_upto E d0 d N s t" and N: "copyable E d0 d N s"
    and out: "\<And>a. a < KERNBASE \<Longrightarrow> N \<le> unat a div 4096 \<Longrightarrow> \<not> bit (pte_of d0 a s) 0 \<and> \<not> bit (pte_of d a s) 0"
  shows "space_ok E d0 t" "space_ok E d t" "separate d d0 t"
proof -
  have T: "tables_ok E d0 d s t" using U by (simp add: shared_upto_def)
  note u = tables_okD [OF T]
  have F: "\<exists>a. v = uframe d0 a s \<and> unat a div 4096 < N \<and> bit (pte_of d0 a s) 0" if v: "v \<in> user_frames d0 t \<union> user_frames d t" for v
  proof -
    obtain a where a: "a < KERNBASE" "bit (pte_of d0 a t) 0 \<and> v = uframe d0 a t \<or> bit (pte_of d a t) 0 \<and> v = uframe d a t"
      using v by (auto simp: user_frames_def)
    have "unat a div 4096 < N"
    proof (rule ccontr)
      assume "\<not> unat a div 4096 < N"
      then show False using a out [of a] U by (auto simp: shared_upto_def)
    qed
    then show ?thesis using a(2) shared_pages(3-5) [OF U N, of a] by metis
  qed
  have V: "freeable E v \<and> 0 < refs t v \<and> v \<notin> pt_frames d0 t \<and> v \<notin> pt_frames d t" if v: "v \<in> user_frames d0 t \<union> user_frames d t" for v
  proof -
    obtain a where a: "v = uframe d0 a s" "unat a div 4096 < N" "bit (pte_of d0 a s) 0" using F [OF v] by blast
    note f = copyableD [OF N a(2,3), folded a(1)]
    have "v \<notin> pt_frames d t" using u(5) [of v] f(2,5) by blast
    then show ?thesis using f(1,2,4) u(2,6) by simp
  qed
  show "space_ok E d0 t" "space_ok E d t" using u(1,3) V by (simp_all add: space_ok_def)
  have "pt_frames d t \<inter> pt_frames d0 t = {}" using u(2,4) by simp
  then show "separate d d0 t" using V unfolding separate_def by blast
qed

text \<open>
  Property C3: after a fork, parent and child share their memory copy-on-write. If there is enough free memory for the page tables,
  the copy returns and for each page of the parent that is in memory the child has the same frame with the same
  contents, which has one more reference; neither of them can write to it without a fault, and the page is
  marked copy-on-write in both if it was writable. A page of the parent that is in the swap file is not present in the
  child, which gets the flags. The contents of the parent's memory stay the same, and the two address spaces are separate in the sense that
  a copy-on-write fault of one of them is handled without effect on the other.
\<close>

theorem copyuvm_shares:
  assumes "kmem_ok E s xs" "KERNBASE \<le> E" "conf_end C = E" "pt_ok E d0 s" "pt_ok E d s" "pt_frames d s \<inter> pt_frames d0 s = {}"
    and "n \<le> KERNBASE" "N = (unat n + 4095) div 4096" "N < length xs" "copyable E d0 d N s"
    and "\<forall>a < KERNBASE. N \<le> unat a div 4096 \<longrightarrow> \<not> bit (pte_of d0 a s) 0 \<and> \<not> bit (pte_of d a s) 0"
  shows "\<exists>t. copyuvm_from C d0 d n 0 s = Inr (d, t) \<and> kmem_inv E t \<and> cr3 t = V2P d0 \<and>
    (\<forall>a. unat a div 4096 < N \<longrightarrow>
       (if bit (pte_of d0 a s) 0
        then uframe d a t = uframe d0 a s \<and> uframe d0 a t = uframe d0 a s \<and> refs t (uframe d0 a s) = refs s (uframe d0 a s) + 1 \<and>
          ubyte d a t = ubyte d0 a s \<and> ubyte d0 a t = ubyte d0 a s \<and> bit (pte_of d a t) 0 \<and> pte_of d a t = pte_of d0 a t \<and>
          \<not> bit (pte_of d a t) 1 \<and> (bit (pte_of d0 a s) 1 \<longrightarrow> bit (pte_of d a t) 10)
        else \<not> bit (pte_of d a t) 0 \<and> pte_of d a t = PTE_FLAGS (pte_of d0 a s) \<and> pte_of d0 a t = pte_of d0 a s)) \<and>
    space_ok E d0 t \<and> space_ok E d t \<and> separate d d0 t \<and> separate d0 d t"
proof -
  have "tables_ok E d0 d s s" using assms(4-6) by (simp add: tables_ok_def)
  then have U0: "shared_upto E d0 d 0 s s" by (simp add: shared_upto_def first_frames_def)
  obtain t ys where t: "copyuvm_from C d0 d n 0 s = Inr (d, lcr3 (V2P d0) t)" "shared_upto E d0 d N s t" "kmem_ok E t ys"
    using copy_rest [OF U0 assms(1) assms(9) assms(2,3,7), of 0] assms(8,10) by auto
  let ?t = "lcr3 (V2P d0) t"
  have pm: "pmem ?t = pmem t" by (simp add: lcr3_def)
  note V = view_cong [OF pm]
  have r: "refs ?t v = refs t v" for v by (simp add: lcr3_def refs_def)
  have "space_ok E d0 t" "space_ok E d t" "separate d d0 t" using shared_spaces [OF t(2) assms(10)] assms(11) by blast+
  then have sp: "space_ok E d0 ?t" "space_ok E d ?t" "separate d d0 ?t" "separate d0 d ?t"
    by (auto simp: space_ok_def pt_ok_def separate_def user_frames_def V r)
  have k: "kmem_inv E ?t" using t(3) by (auto simp: kmem_inv_def kmem_ok_def lcr3_def refs_def)
  have "if bit (pte_of d0 a s) 0
        then uframe d a ?t = uframe d0 a s \<and> uframe d0 a ?t = uframe d0 a s \<and> refs ?t (uframe d0 a s) = refs s (uframe d0 a s) + 1 \<and>
          ubyte d a ?t = ubyte d0 a s \<and> ubyte d0 a ?t = ubyte d0 a s \<and> bit (pte_of d a ?t) 0 \<and> pte_of d a ?t = pte_of d0 a ?t \<and>
          \<not> bit (pte_of d a ?t) 1 \<and> (bit (pte_of d0 a s) 1 \<longrightarrow> bit (pte_of d a ?t) 10)
        else \<not> bit (pte_of d a ?t) 0 \<and> pte_of d a ?t = PTE_FLAGS (pte_of d0 a s) \<and> pte_of d0 a ?t = pte_of d0 a s"
    if a: "unat a div 4096 < N" for a
  proof (cases "bit (pte_of d0 a s) 0")
    case True
    then show ?thesis using shared_pages [OF t(2) assms(10) a] unfolding V r by (simp add: parent_pte_def child_pte_def bit_cow_flags)
  next
    case False
    then show ?thesis using shared_pages(1-3) [OF t(2) assms(10) a] unfolding V by (simp add: parent_pte_def child_pte_def PTE_FLAGS_def)
  qed
  moreover have "cr3 ?t = V2P d0" by (simp add: lcr3_def)
  ultimately show ?thesis using t(1) k sp by blast
qed

text \<open>A process with one writable page at address 0, and an empty page directory for its child.\<close>

definition demo_fork :: kernel where
  "demo_fork = fresh_page 0x8DFF3000 (demo_space 0 0xDFF2007)"

lemma demo_fork_ok:
  "kmem_ok demo_end demo_fork (drop 4 demo_pages)" "pt_ok demo_end 0x8DFF0000 demo_fork" "pt_ok demo_end 0x8DFF3000 demo_fork"
  "pt_frames 0x8DFF0000 demo_fork = {0x8DFF0000, 0x8DFF1000}" "pt_frames 0x8DFF3000 demo_fork = {0x8DFF3000}"
  "pte_of 0x8DFF0000 a demo_fork = (if unat a div 4096 = 0 then 0xDFF2007 else 0)" "pte_of 0x8DFF3000 a demo_fork = 0"
  "refs demo_fork 0x8DFF2000 = 1" "ubyte 0x8DFF0000 4 demo_fork = 7"
proof -
  let ?s = "demo_space 0 0xDFF2007"
  note r = demo_space_refs [of 0 "0xDFF2007"] and p = demo_space_pte [where i = 0 and w = "0xDFF2007"]
  have k: "kmem_ok demo_end ?s (0x8DFF3000 # drop 4 demo_pages)" using r(1) by (simp add: demo_pages_def)
  note F = filled_evolves(1,2,3) [OF k p(3), where pg = "fill_page 0", folded fresh_page_def, folded demo_fork_def]
  note G = fresh_page_ok [OF k, folded demo_fork_def]
  show "kmem_ok demo_end demo_fork (drop 4 demo_pages)" "pt_ok demo_end 0x8DFF0000 demo_fork" "pt_ok demo_end 0x8DFF3000 demo_fork"
    "pt_frames 0x8DFF0000 demo_fork = {0x8DFF0000, 0x8DFF1000}" "pt_frames 0x8DFF3000 demo_fork = {0x8DFF3000}"
    "pte_of 0x8DFF0000 a demo_fork = (if unat a div 4096 = 0 then 0xDFF2007 else 0)" "pte_of 0x8DFF3000 a demo_fork = 0"
    using F G p by simp_all
  have "freeable demo_end 0x8DFF2000" by (simp add: demo_freeable demo_pages_def)
  then show "refs demo_fork 0x8DFF2000 = 1" using filled_kmem(3) [OF k] r(4) by (simp add: demo_fork_def fresh_page_def)
  have "pte_of 0x8DFF0000 4 demo_fork = 0xDFF2007" using F(2) [of 4] p(1) by simp
  then show "ubyte 0x8DFF0000 4 demo_fork = 7"
    by (simp add: ubyte_def PTE_ADDR_def demo_fork_def fresh_page_def demo_space_def filled_def V2P_def get_byte_def)
qed

theorem copyuvm_shares_witness:
  "\<exists>t. copyuvm_from demo_conf 0x8DFF0000 0x8DFF3000 0x1000 0 demo_fork = Inr (0x8DFF3000, t) \<and> refs t 0x8DFF2000 = 2 \<and>
     ubyte 0x8DFF3000 4 t = 7 \<and> \<not> bit (pte_of 0x8DFF3000 4 t) 1 \<and> bit (pte_of 0x8DFF3000 4 t) 10 \<and>
     space_ok demo_end 0x8DFF3000 t \<and> separate 0x8DFF3000 0x8DFF0000 t"
proof -
  note D = demo_fork_ok
  have u: "uframe 0x8DFF0000 a demo_fork = 0x8DFF2000" if "unat a div 4096 = 0" for a
    using that by (simp add: uframe_def D(6) PTE_ADDR_def P2V_def)
  have c: "copyable demo_end 0x8DFF0000 0x8DFF3000 1 demo_fork"
    unfolding copyable_def using u D(8) by (simp add: D(4-7) demo_freeable demo_pages_def)
  obtain t where t: "copyuvm_from demo_conf 0x8DFF0000 0x8DFF3000 0x1000 0 demo_fork = Inr (0x8DFF3000, t)"
    "\<forall>a. unat a div 4096 < 1 \<longrightarrow>
       (if bit (pte_of 0x8DFF0000 a demo_fork) 0
        then uframe 0x8DFF3000 a t = uframe 0x8DFF0000 a demo_fork \<and> uframe 0x8DFF0000 a t = uframe 0x8DFF0000 a demo_fork \<and>
          refs t (uframe 0x8DFF0000 a demo_fork) = refs demo_fork (uframe 0x8DFF0000 a demo_fork) + 1 \<and>
          ubyte 0x8DFF3000 a t = ubyte 0x8DFF0000 a demo_fork \<and> ubyte 0x8DFF0000 a t = ubyte 0x8DFF0000 a demo_fork \<and>
          bit (pte_of 0x8DFF3000 a t) 0 \<and> pte_of 0x8DFF3000 a t = pte_of 0x8DFF0000 a t \<and>
          \<not> bit (pte_of 0x8DFF3000 a t) 1 \<and> (bit (pte_of 0x8DFF0000 a demo_fork) 1 \<longrightarrow> bit (pte_of 0x8DFF3000 a t) 10)
        else \<not> bit (pte_of 0x8DFF3000 a t) 0 \<and> pte_of 0x8DFF3000 a t = PTE_FLAGS (pte_of 0x8DFF0000 a demo_fork) \<and>
          pte_of 0x8DFF0000 a t = pte_of 0x8DFF0000 a demo_fork)"
    "space_ok demo_end 0x8DFF3000 t" "separate 0x8DFF3000 0x8DFF0000 t"
    using copyuvm_shares [OF D(1) _ _ D(2,3), of demo_conf "0x1000" 1] c by (auto simp: demo_conf_def D(4-7) demo_pages_def)
  from t(2) [rule_format, of 4] have "refs t 0x8DFF2000 = 2" "ubyte 0x8DFF3000 4 t = 7" "\<not> bit (pte_of 0x8DFF3000 4 t) 1" "bit (pte_of 0x8DFF3000 4 t) 10"
    using D(8,9) u [of 4] by (auto simp: D(6))
  then show ?thesis using t(1,3,4) by blast
qed

end
