(* ===== verification/Spinlock.thy ===== *)
theory Spinlock
  imports Prelude
begin

text \<open>
  Spin locks (\<open>spinlock.c\<close>) on several processors. \<open>pushcli\<close>, \<open>popcli\<close>, \<open>holding\<close>, \<open>acquire\<close> and \<open>release\<close> are functions of the
  processor that runs them. Where another processor can come in between, the code is split: \<open>acquire\<close> into the part before the
  loop, one \<open>xchg\<close>, and the part after the loop; \<open>release\<close> into the part before the lock is opened and the rest. The
  relation \<open>lstep\<close> interleaves these pieces; \<open>acquire\<close> and \<open>release\<close> are the compositions, for a processor that
  is not disturbed. Whoever spins on a lock that nobody will release does not come back (\<open>Diverge\<close>).

  The lemmas: at most one processor is between an acquisition and the release of a lock, it has its
  interrupts off, and \<open>ncli\<close> counts the locks it holds.
\<close>

section \<open>Processors and locks\<close>

record cpu =
  c_if :: bool            \<comment> \<open>\<open>FL_IF\<close> of the flags register\<close>
  ncli :: int
  intena :: bool

record spinlock =
  lk_locked :: u32
  lk_name :: string
  lk_cpu :: "nat option"
  lk_pcs :: "u32 list"

text \<open>Where a processor is: anywhere outside, in the loop of \<open>acquire\<close>, behind its successful \<open>xchg\<close>, or in \<open>release\<close> before
  the lock is opened.\<close>

datatype lkpc = Outside | Spin nat | Taken nat | Opening nat

record machine =
  cpus :: "nat \<Rightarrow> cpu"
  locks :: "nat \<Rightarrow> spinlock"
  at_pc :: "nat \<Rightarrow> lkpc"

definition upd_cpu :: "nat \<Rightarrow> (cpu \<Rightarrow> cpu) \<Rightarrow> machine \<Rightarrow> machine" where
  "upd_cpu c f s = s\<lparr>cpus := (cpus s)(c := f (cpus s c))\<rparr>"

definition upd_lock :: "nat \<Rightarrow> (spinlock \<Rightarrow> spinlock) \<Rightarrow> machine \<Rightarrow> machine" where
  "upd_lock l f s = s\<lparr>locks := (locks s)(l := f (locks s l))\<rparr>"

section \<open>Operations\<close>

definition initlock :: "nat \<Rightarrow> string \<Rightarrow> machine \<Rightarrow> machine" where
  "initlock l name s = upd_lock l (\<lambda>k. k\<lparr>lk_name := name, lk_locked := 0, lk_cpu := None\<rparr>) s"

definition pushcli :: "nat \<Rightarrow> machine \<Rightarrow> machine" where
  "pushcli c s =
    (let eflags = c_if (cpus s c);
         s = upd_cpu c (\<lambda>k. k\<lparr>c_if := False\<rparr>) s;
         s = (if ncli (cpus s c) = 0 then upd_cpu c (\<lambda>k. k\<lparr>intena := eflags\<rparr>) s else s)
     in upd_cpu c (\<lambda>k. k\<lparr>ncli := ncli k + 1\<rparr>) s)"

definition popcli :: "nat \<Rightarrow> machine \<Rightarrow> (unit \<times> machine) res" where
  "popcli c s =
    (if c_if (cpus s c) then Inl (Panic ''popcli - interruptible'')
     else
       let s = upd_cpu c (\<lambda>k. k\<lparr>ncli := ncli k - 1\<rparr>) s
       in if ncli (cpus s c) < 0 then Inl (Panic ''popcli'')
          else Inr ((), if ncli (cpus s c) = 0 \<and> intena (cpus s c) then upd_cpu c (\<lambda>k. k\<lparr>c_if := True\<rparr>) s else s))"

definition holding :: "nat \<Rightarrow> nat \<Rightarrow> machine \<Rightarrow> (bool \<times> machine) res" where
  "holding c l s =
    (let s = pushcli c s;
         r = (lk_locked (locks s l) \<noteq> 0 \<and> lk_cpu (locks s l) = Some c)
     in bindr (popcli c s) (\<lambda>(_, s). Inr (r, s)))"

text \<open>\<open>getcallerpcs\<close> follows the saved frame pointers in memory \<open>m\<close>.\<close>

fun callers :: "nat \<Rightarrow> (u32 \<Rightarrow> u32) \<Rightarrow> u32 \<Rightarrow> u32 list" where
  "callers 0 m ebp = []"
| "callers (Suc n) m ebp =
    (if ebp = 0 \<or> ebp < 0x80000000 \<or> ebp = 0xffffffff then replicate (Suc n) 0
     else m (ebp + 4) # callers n m (m ebp))"

definition getcallerpcs :: "(u32 \<Rightarrow> u32) \<Rightarrow> u32 \<Rightarrow> u32 list" where
  "getcallerpcs m v = callers 10 m (v - 8)"

definition acquire_begin :: "nat \<Rightarrow> nat \<Rightarrow> machine \<Rightarrow> (unit \<times> machine) res" where
  "acquire_begin c l s =
     bindr (holding c l (pushcli c s)) (\<lambda>(h, s). if h then Inl (Panic ''acquire'') else Inr ((), s))"

definition xchg :: "nat \<Rightarrow> u32 \<Rightarrow> machine \<Rightarrow> u32 \<times> machine" where
  "xchg l v s = (lk_locked (locks s l), upd_lock l (\<lambda>k. k\<lparr>lk_locked := v\<rparr>) s)"

definition acquire_end :: "(u32 \<Rightarrow> u32) \<Rightarrow> u32 \<Rightarrow> nat \<Rightarrow> nat \<Rightarrow> machine \<Rightarrow> machine" where
  "acquire_end m v c l s = upd_lock l (\<lambda>k. k\<lparr>lk_pcs := getcallerpcs m v\<rparr>) (upd_lock l (\<lambda>k. k\<lparr>lk_cpu := Some c\<rparr>) s)"

definition acquire :: "(u32 \<Rightarrow> u32) \<Rightarrow> u32 \<Rightarrow> nat \<Rightarrow> nat \<Rightarrow> machine \<Rightarrow> (unit \<times> machine) res" where
  "acquire m v c l s =
     bindr (acquire_begin c l s) (\<lambda>(_, s).
     let (old, s) = xchg l 1 s
     in if old \<noteq> 0 then Inl Diverge else Inr ((), acquire_end m v c l s))"

definition release_begin :: "nat \<Rightarrow> nat \<Rightarrow> machine \<Rightarrow> (unit \<times> machine) res" where
  "release_begin c l s =
     bindr (holding c l s) (\<lambda>(h, s).
     if \<not> h then Inl (Panic ''release'')
     else Inr ((), upd_lock l (\<lambda>k. k\<lparr>lk_pcs := (lk_pcs k)[0 := 0], lk_cpu := None\<rparr>) s))"

definition release_end :: "nat \<Rightarrow> nat \<Rightarrow> machine \<Rightarrow> (unit \<times> machine) res" where
  "release_end c l s = popcli c (upd_lock l (\<lambda>k. k\<lparr>lk_locked := 0\<rparr>) s)"

definition release :: "nat \<Rightarrow> nat \<Rightarrow> machine \<Rightarrow> (unit \<times> machine) res" where
  "release c l s = bindr (release_begin c l s) (\<lambda>(_, s). release_end c l s)"

section \<open>Interleavings\<close>

definition goto :: "nat \<Rightarrow> lkpc \<Rightarrow> machine \<Rightarrow> machine" where
  "goto c p s = s\<lparr>at_pc := (at_pc s)(c := p)\<rparr>"

text \<open>The processors run any code that takes locks with \<open>acquire\<close> and gives back locks it holds; outside of locks and
  \<open>pushcli\<close> the interrupt flag may be changed.\<close>

inductive lstep :: "machine \<Rightarrow> machine \<Rightarrow> bool" where
  flag: "at_pc s c = Outside \<Longrightarrow> ncli (cpus s c) = 0 \<Longrightarrow> lstep s (upd_cpu c (\<lambda>k. k\<lparr>c_if := b\<rparr>) s)"
| enter: "at_pc s c = Outside \<Longrightarrow> acquire_begin c l s = Inr ((), t) \<Longrightarrow> lstep s (goto c (Spin l) t)"
| fail: "at_pc s c = Spin l \<Longrightarrow> xchg l 1 s = (old, t) \<Longrightarrow> old \<noteq> 0 \<Longrightarrow> lstep s t"
| succeed: "at_pc s c = Spin l \<Longrightarrow> xchg l 1 s = (0, t) \<Longrightarrow> lstep s (goto c (Taken l) t)"
| taken: "at_pc s c = Taken l \<Longrightarrow> lstep s (goto c Outside (acquire_end m v c l s))"
| leave: "at_pc s c = Outside \<Longrightarrow> release_begin c l s = Inr ((), t) \<Longrightarrow> lstep s (goto c (Opening l) t)"
| opened: "at_pc s c = Opening l \<Longrightarrow> release_end c l s = Inr ((), t) \<Longrightarrow> lstep s (goto c Outside t)"

definition lstart :: "machine \<Rightarrow> bool" where
  "lstart s \<longleftrightarrow> (\<forall>l. lk_locked (locks s l) = 0 \<and> lk_cpu (locks s l) = None) \<and> (\<forall>c. at_pc s c = Outside \<and> ncli (cpus s c) = 0)"

inductive reach :: "machine \<Rightarrow> bool" where
  start: "lstart s \<Longrightarrow> reach s"
| step: "reach s \<Longrightarrow> lstep s t \<Longrightarrow> reach t"

inductive_cases lstepE: "lstep s t"

text \<open>The processors that have lock \<open>l\<close>, from the \<open>xchg\<close> to the store that opens it.\<close>

definition owners :: "machine \<Rightarrow> nat \<Rightarrow> nat set" where
  "owners s l = {c. at_pc s c = Taken l \<or> at_pc s c = Opening l \<or> lk_cpu (locks s l) = Some c}"

definition owned :: "machine \<Rightarrow> nat \<Rightarrow> nat set" where
  "owned s c = {l. c \<in> owners s l}"

definition spins :: "machine \<Rightarrow> nat \<Rightarrow> int" where
  "spins s c = (case at_pc s c of Spin _ \<Rightarrow> 1 | _ \<Rightarrow> 0)"

definition lock_inv :: "machine \<Rightarrow> bool" where
  "lock_inv s \<longleftrightarrow>
     (\<forall>l c d. c \<in> owners s l \<and> d \<in> owners s l \<longrightarrow> c = d) \<and>
     (\<forall>l. (lk_locked (locks s l) = 0) = (owners s l = {})) \<and>
     (\<forall>l c. at_pc s c = Taken l \<or> at_pc s c = Opening l \<longrightarrow> lk_cpu (locks s l) = None) \<and>
     (\<forall>c. finite (owned s c) \<and> ncli (cpus s c) = int (card (owned s c)) + spins s c) \<and>
     (\<forall>c. 0 < ncli (cpus s c) \<longrightarrow> \<not> c_if (cpus s c))"

section \<open>The interrupt flag\<close>

lemma upd_simps [simp]:
  "cpus (upd_cpu c f s) = (cpus s)(c := f (cpus s c))" "locks (upd_cpu c f s) = locks s" "at_pc (upd_cpu c f s) = at_pc s"
  "locks (upd_lock l g s) = (locks s)(l := g (locks s l))" "cpus (upd_lock l g s) = cpus s" "at_pc (upd_lock l g s) = at_pc s"
  "cpus (goto c p s) = cpus s" "locks (goto c p s) = locks s" "at_pc (goto c p s) = (at_pc s)(c := p)"
  by (simp_all add: upd_cpu_def upd_lock_def goto_def)

lemma upd_cpu_twice [simp]: "upd_cpu c f (upd_cpu c g s) = upd_cpu c (\<lambda>k. f (g k)) s"
  by (simp add: upd_cpu_def)

lemma upd_cpu_id: "f (cpus s c) = cpus s c \<Longrightarrow> upd_cpu c f s = s"
  by (simp add: upd_cpu_def)

lemma upd_cpu_cong: "f (cpus s c) = g (cpus s c) \<Longrightarrow> upd_cpu c f s = upd_cpu c g s"
  by (simp add: upd_cpu_def)

text \<open>\<open>pushcli\<close> on the processor's own state, and what is left of it after the matching \<open>popcli\<close>.\<close>

definition cli_pushed :: "cpu \<Rightarrow> cpu" where
  "cli_pushed k = k\<lparr>c_if := False, ncli := ncli k + 1, intena := (if ncli k = 0 then c_if k else intena k)\<rparr>"

definition noted :: "cpu \<Rightarrow> cpu" where
  "noted k = k\<lparr>intena := (if ncli k = 0 then c_if k else intena k)\<rparr>"

definition cli_ok :: "cpu \<Rightarrow> bool" where
  "cli_ok k \<longleftrightarrow> 0 \<le> ncli k \<and> (0 < ncli k \<longrightarrow> \<not> c_if k)"

lemma pushcli_eq: "pushcli c s = upd_cpu c cli_pushed s"
  by (auto simp: pushcli_def Let_def cli_pushed_def intro!: upd_cpu_cong)

lemma popcli_pushcli:
  assumes "cli_ok (cpus s c)"
  shows "popcli c (upd_cpu c cli_pushed s) = Inr ((), upd_cpu c noted s)"
  using assms by (auto simp: popcli_def Let_def cli_pushed_def noted_def cli_ok_def intro!: upd_cpu_cong)

lemma holding_eq:
  assumes "cli_ok (cpus s c)"
  shows "holding c l s = Inr (lk_locked (locks s l) \<noteq> 0 \<and> lk_cpu (locks s l) = Some c, upd_cpu c noted s)"
  using popcli_pushcli [OF assms] by (simp add: holding_def pushcli_eq)

lemma cli_pushed_facts:
  assumes "cli_ok k"
  shows "cli_ok (cli_pushed k)" "noted (cli_pushed k) = cli_pushed k" "ncli (cli_pushed k) = ncli k + 1" "\<not> c_if (cli_pushed k)"
  using assms by (auto simp: cli_ok_def cli_pushed_def noted_def)

lemma noted_facts [simp]: "ncli (noted k) = ncli k" "c_if (noted k) = c_if k"
  by (simp_all add: noted_def)

lemma acquire_begin_eq:
  assumes "cli_ok (cpus s c)"
  shows "acquire_begin c l s =
    (if lk_locked (locks s l) \<noteq> 0 \<and> lk_cpu (locks s l) = Some c then Inl (Panic ''acquire'') else Inr ((), upd_cpu c cli_pushed s))"
proof -
  have "cli_ok (cpus (upd_cpu c cli_pushed s) c)" using cli_pushed_facts(1) [OF assms] by simp
  from holding_eq [OF this, of l] cli_pushed_facts(2) [OF assms]
  have "holding c l (upd_cpu c cli_pushed s) = Inr (lk_locked (locks s l) \<noteq> 0 \<and> lk_cpu (locks s l) = Some c, upd_cpu c cli_pushed s)"
    by (simp del: upd_cpu_twice add: upd_cpu_id)
  then show ?thesis by (simp add: acquire_begin_def pushcli_eq)
qed

lemma release_begin_eq:
  assumes "cli_ok (cpus s c)"
  shows "release_begin c l s =
    (if lk_locked (locks s l) \<noteq> 0 \<and> lk_cpu (locks s l) = Some c
     then Inr ((), upd_lock l (\<lambda>k. k\<lparr>lk_pcs := (lk_pcs k)[0 := 0], lk_cpu := None\<rparr>) (upd_cpu c noted s))
     else Inl (Panic ''release''))"
  by (simp add: release_begin_def holding_eq [OF assms])

definition popped :: "cpu \<Rightarrow> cpu" where
  "popped k = k\<lparr>ncli := ncli k - 1, c_if := (ncli k = 1 \<and> intena k)\<rparr>"

lemma popcli_popped:
  assumes "0 < ncli (cpus s c)" "\<not> c_if (cpus s c)"
  shows "popcli c s = Inr ((), upd_cpu c popped s)"
  using assms by (auto simp: popcli_def Let_def popped_def intro!: upd_cpu_cong)

lemma callers_length [simp]: "length (callers n m e) = n"
  by (induction n m e rule: callers.induct) simp_all

lemma getcallerpcs_length [simp]: "length (getcallerpcs m v) = 10"
  by (simp add: getcallerpcs_def)

section \<open>Mutual exclusion\<close>

lemma lock_invD:
  assumes "lock_inv s"
  shows "c \<in> owners s l \<Longrightarrow> d \<in> owners s l \<Longrightarrow> c = d"
    and "lk_locked (locks s l) = 0 \<longleftrightarrow> owners s l = {}"
    and "at_pc s c = Taken l \<or> at_pc s c = Opening l \<Longrightarrow> lk_cpu (locks s l) = None"
    and "finite (owned s c)" "ncli (cpus s c) = int (card (owned s c)) + spins s c"
    and "0 < ncli (cpus s c) \<Longrightarrow> \<not> c_if (cpus s c)"
  using assms unfolding lock_inv_def by blast+

lemma inv_cli_ok:
  assumes "lock_inv s"
  shows "cli_ok (cpus s c)"
  using lock_invD(5,6) [OF assms, of c] by (auto simp: cli_ok_def spins_def split: lkpc.splits)

text \<open>The invariant does not look at the list of callers, at \<open>intena\<close>, or at where a processor is while it neither spins nor has the lock.\<close>

lemma inv_owned_only:
  assumes "lock_inv s" "\<And>l. owners t l = owners s l" "\<And>l. lk_locked (locks t l) = 0 \<longleftrightarrow> lk_locked (locks s l) = 0"
    and "\<And>l c. at_pc t c = Taken l \<or> at_pc t c = Opening l \<Longrightarrow> lk_cpu (locks t l) = None"
    and "\<And>c. ncli (cpus t c) - spins t c = ncli (cpus s c) - spins s c"
    and "\<And>c. 0 < ncli (cpus t c) \<Longrightarrow> \<not> c_if (cpus t c)"
  shows "lock_inv t"
proof -
  have o: "owned t c = owned s c" for c by (simp add: owned_def assms(2))
  have "ncli (cpus t c) = int (card (owned t c)) + spins t c" for c
    using assms(5) [of c] lock_invD(5) [OF assms(1), of c] by (simp add: o)
  then show ?thesis using assms(1,4,6) unfolding lock_inv_def assms(2,3) o by blast
qed

lemma inv_enter:
  assumes i: "lock_inv s" and p: "at_pc s c = Outside" and a: "acquire_begin c l s = Inr ((), t)"
  shows "lock_inv (goto c (Spin l) t)"
proof -
  have t: "t = upd_cpu c cli_pushed s" using a by (simp add: acquire_begin_eq [OF inv_cli_ok [OF i]] split: if_splits)
  show ?thesis
  proof (rule inv_owned_only [OF i])
    show "owners (goto c (Spin l) t) k = owners s k" for k using p by (auto simp: owners_def t)
    show "lk_cpu (locks (goto c (Spin l) t) k) = None"
      if "at_pc (goto c (Spin l) t) d = Taken k \<or> at_pc (goto c (Spin l) t) d = Opening k" for k d
      using that lock_invD(3) [OF i, of d k] by (auto simp: t split: if_splits)
  qed (use p lock_invD(6) [OF i] in \<open>auto simp: t spins_def cli_pushed_def split: if_splits\<close>)
qed

lemma inv_succeed:
  assumes i: "lock_inv s" and p: "at_pc s c = Spin l" and x: "xchg l 1 s = (0, t)"
  shows "lock_inv (goto c (Taken l) t)"
proof -
  let ?t = "goto c (Taken l) t"
  have t: "t = upd_lock l (\<lambda>k. k\<lparr>lk_locked := 1\<rparr>) s" and free: "lk_locked (locks s l) = 0" using x by (auto simp: xchg_def)
  have none: "owners s l = {}" using lock_invD(2) [OF i] free by simp
  have ow: "owners ?t k = (if k = l then {c} else owners s k)" for k
    using none p by (auto simp: owners_def t)
  have od: "owned ?t d = (if d = c then insert l (owned s c) else owned s d)" for d
    using none by (auto simp: owned_def ow)
  have unowned: "lk_cpu (locks s l) = None" using none by (cases "lk_cpu (locks s l)") (auto simp: owners_def)
  have new: "l \<notin> owned s c" using none by (simp add: owned_def)
  have "ncli (cpus ?t d) = int (card (owned ?t d)) + spins ?t d \<and> finite (owned ?t d)" for d
    unfolding od using lock_invD(4,5) [OF i, of d] new p by (auto simp: t spins_def)
  moreover have "lk_cpu (locks ?t k) = None" if "at_pc ?t d = Taken k \<or> at_pc ?t d = Opening k" for k d
    using that lock_invD(3) [OF i, of d k] unowned by (auto simp: t split: if_splits)
  moreover have "(lk_locked (locks ?t k) = 0) = (owners ?t k = {})" for k
    unfolding ow using lock_invD(2) [OF i] by (simp add: t)
  moreover have "a = b" if "a \<in> owners ?t k" "b \<in> owners ?t k" for a b k
    using that lock_invD(1) [OF i] unfolding ow by (simp split: if_splits)
  moreover have "\<not> c_if (cpus ?t d)" if "0 < ncli (cpus ?t d)" for d
    using that lock_invD(6) [OF i] by (simp add: t)
  ultimately show ?thesis unfolding lock_inv_def by blast
qed

lemma inv_opened:
  assumes i: "lock_inv s" and p: "at_pc s c = Opening l" and r: "release_end c l s = Inr ((), t)"
  shows "lock_inv (goto c Outside t)"
proof -
  let ?t = "goto c Outside t"
  have mem: "c \<in> owners s l" using p by (simp add: owners_def)
  have cpu: "lk_cpu (locks s l) = None" using lock_invD(3) [OF i, of c l] p by simp
  have only: "owners s l = {c}" using mem lock_invD(1) [OF i] by blast
  have has: "l \<in> owned s c" using mem by (simp add: owned_def)
  then have some: "0 < card (owned s c)" using lock_invD(4) [OF i] card_gt_0_iff by blast
  then have pos: "0 < ncli (cpus s c)" using lock_invD(5) [OF i, of c] p by (simp add: spins_def)
  have t: "t = upd_cpu c popped (upd_lock l (\<lambda>k. k\<lparr>lk_locked := 0\<rparr>) s)"
    using r popcli_popped [of "upd_lock l (\<lambda>k. k\<lparr>lk_locked := 0\<rparr>) s" c] pos lock_invD(6) [OF i pos]
    by (simp add: release_end_def)
  have ow: "owners ?t k = (if k = l then {} else owners s k)" for k
    using only cpu p by (auto simp: owners_def t)
  have od: "owned ?t d = (if d = c then owned s c - {l} else owned s d)" for d
    using only by (auto simp: owned_def ow)
  have "ncli (cpus ?t d) = int (card (owned ?t d)) + spins ?t d \<and> finite (owned ?t d)" for d
    unfolding od using lock_invD(4,5) [OF i, of d] has some p by (auto simp: t spins_def popped_def of_nat_diff)
  moreover have "lk_cpu (locks ?t k) = None" if "at_pc ?t d = Taken k \<or> at_pc ?t d = Opening k" for k d
    using that lock_invD(3) [OF i, of d k] by (auto simp: t split: if_splits)
  moreover have "(lk_locked (locks ?t k) = 0) = (owners ?t k = {})" for k
    unfolding ow using lock_invD(2) [OF i] by (simp add: t)
  moreover have "a = b" if "a \<in> owners ?t k" "b \<in> owners ?t k" for a b k
    using that lock_invD(1) [OF i] unfolding ow by (simp split: if_splits)
  moreover have "\<not> c_if (cpus ?t d)" if "0 < ncli (cpus ?t d)" for d
    using that lock_invD(6) [OF i] by (auto simp: t popped_def split: if_splits)
  ultimately show ?thesis unfolding lock_inv_def by blast
qed

lemma inv_same_locks:
  assumes i: "lock_inv s" and "lstep s t"
    and "\<nexists>c l u. at_pc s c = Outside \<and> acquire_begin c l s = Inr ((), u) \<and> t = goto c (Spin l) u"
    and "\<nexists>c l u. at_pc s c = Spin l \<and> xchg l 1 s = (0, u) \<and> t = goto c (Taken l) u"
    and "\<nexists>c l u. at_pc s c = Opening l \<and> release_end c l s = Inr ((), u) \<and> t = goto c Outside u"
  shows "lock_inv t"
  using assms(2)
proof (cases rule: lstep.cases)
  case (flag c b)
  then show ?thesis
    by (intro inv_owned_only [OF i]) (use lock_invD(3,6) [OF i] in \<open>auto simp: owners_def spins_def split: if_splits\<close>)
next
  case (fail c l old)
  then have t: "t = upd_lock l (\<lambda>k. k\<lparr>lk_locked := 1\<rparr>) s" "lk_locked (locks s l) \<noteq> 0" by (auto simp: xchg_def)
  show ?thesis
    by (rule inv_owned_only [OF i]) (use t(2) lock_invD(3,6) [OF i] in \<open>auto simp: t(1) owners_def spins_def split: if_splits\<close>)
next
  case (taken c l m v)
  have n: "lk_cpu (locks s l) = None" using lock_invD(3) [OF i, of c l] taken by simp
  have only: "d = c" if "at_pc s d = Taken l \<or> at_pc s d = Opening l" for d
    using lock_invD(1) [OF i, of d l c] that taken by (auto simp: owners_def)
  have ow: "owners t k = owners s k" for k
    using n only taken by (auto simp: owners_def acquire_end_def split: if_splits)
  show ?thesis
    by (rule inv_owned_only [OF i ow])
      (use taken only lock_invD(3,6) [OF i] in \<open>auto simp: acquire_end_def spins_def split: if_splits\<close>)
next
  case (leave c l u)
  have u: "lk_locked (locks s l) \<noteq> 0" "lk_cpu (locks s l) = Some c"
      "u = upd_lock l (\<lambda>k. k\<lparr>lk_pcs := (lk_pcs k)[0 := 0], lk_cpu := None\<rparr>) (upd_cpu c noted s)"
    using leave by (auto simp: release_begin_eq [OF inv_cli_ok [OF i]] split: if_splits)
  have ow: "owners t k = owners s k" for k
    using u(2) leave(1,2) lock_invD(3) [OF i] by (fastforce simp: owners_def u(3) split: if_splits)
  show ?thesis
    by (rule inv_owned_only [OF i ow])
      (use leave(1,2) lock_invD(3,6) [OF i] in \<open>auto simp: u(3) spins_def split: if_splits\<close>)
qed (use assms in blast)+

lemma inv_step:
  assumes "lock_inv s" "lstep s t"
  shows "lock_inv t"
  using inv_same_locks [OF assms] inv_enter [OF assms(1)] inv_succeed [OF assms(1)] inv_opened [OF assms(1)] by blast

lemma inv_start:
  assumes "lstart s"
  shows "lock_inv s"
proof -
  have "owners s l = {}" for l using assms by (auto simp: owners_def lstart_def)
  then show ?thesis using assms by (auto simp: lock_inv_def owned_def lstart_def spins_def)
qed

lemma reach_inv: "reach s \<Longrightarrow> lock_inv s"
  by (induction rule: reach.induct) (auto intro: inv_start inv_step)

text \<open>
  Property C11. Take any number of processors that interleave \<open>acquire\<close> and \<open>release\<close> on any number of locks, from
  a state with all locks free. In every state they can reach, at most one processor has a given lock, counted from its
  successful \<open>xchg\<close> to the store that opens the lock; it runs with interrupts off, so no interrupt
  handler can try to take the lock on the same processor; \<open>ncli\<close> of a processor is the number of locks it
  has, plus one while it spins. The lock word is zero exactly when nobody has the lock, so a processor that spins on a free
  lock gets it with its next \<open>xchg\<close>. A processor that has entered a lock can always release it: neither \<open>release\<close> nor the \<open>popcli\<close> in it panics.
\<close>

theorem spinlock_mutex:
  assumes "reach s"
  shows "(c \<in> owners s l \<and> d \<in> owners s l \<longrightarrow> c = d) \<and>
         (c \<in> owners s l \<longrightarrow> \<not> c_if (cpus s c)) \<and>
         ncli (cpus s c) = int (card (owned s c)) + spins s c \<and>
         (lk_locked (locks s l) = 0 \<longleftrightarrow> owners s l = {}) \<and>
         (at_pc s c = Spin l \<and> owners s l = {} \<longrightarrow> fst (xchg l 1 s) = 0) \<and>
         (at_pc s c = Outside \<and> c \<in> owners s l \<longrightarrow> (\<exists>t. release_begin c l s = Inr ((), t))) \<and>
         (at_pc s c = Opening l \<longrightarrow> (\<exists>t. release_end c l s = Inr ((), t)))"
proof -
  note i = reach_inv [OF assms]
  have pos: "0 < ncli (cpus s c)" if "c \<in> owners s k" for k
  proof -
    have "owned s c \<noteq> {}" using that by (auto simp: owned_def)
    then have "0 < card (owned s c)" using lock_invD(4) [OF i] by (simp add: card_gt_0_iff)
    then show ?thesis using lock_invD(5) [OF i, of c] by (simp add: spins_def split: lkpc.splits)
  qed
  have "\<exists>t. release_begin c l s = Inr ((), t)" if "at_pc s c = Outside" "c \<in> owners s l"
    using that lock_invD(2) [OF i, of l] by (auto simp: release_begin_eq [OF inv_cli_ok [OF i]] owners_def)
  moreover have "\<exists>t. release_end c l s = Inr ((), t)" if "at_pc s c = Opening l"
  proof -
    have "0 < ncli (cpus s c)" using that pos [of l] by (simp add: owners_def)
    then show ?thesis unfolding release_end_def
      by (subst popcli_popped) (use lock_invD(6) [OF i] in simp_all)
  qed
  ultimately show ?thesis
    using lock_invD(1,2,5,6) [OF i] pos by (auto simp: xchg_def)
qed

definition demo_machine :: machine where
  "demo_machine = \<lparr>cpus = \<lambda>_. \<lparr>c_if = True, ncli = 0, intena = False\<rparr>,
     locks = \<lambda>_. \<lparr>lk_locked = 0, lk_name = ''kmem'', lk_cpu = None, lk_pcs = replicate 10 0\<rparr>, at_pc = \<lambda>_. Outside\<rparr>"

lemma demo_cli_ok: "cli_ok (cpus demo_machine c)"
  by (simp add: demo_machine_def cli_ok_def)

definition demo_spin :: machine where
  "demo_spin = goto 1 (Spin 0) (upd_cpu 1 cli_pushed (goto 0 (Taken 0) (snd (xchg 0 1 (goto 0 (Spin 0) (upd_cpu 0 cli_pushed demo_machine))))))"

lemma demo_spin_reach: "reach demo_spin"
proof -
  have "reach demo_machine" by (rule reach.start) (simp add: lstart_def demo_machine_def)
  then have "reach (goto 0 (Spin 0) (upd_cpu 0 cli_pushed demo_machine))"
    by (rule reach.step) (rule lstep.enter, simp_all add: acquire_begin_eq [OF demo_cli_ok], simp_all add: demo_machine_def)
  then have "reach (goto 0 (Taken 0) (snd (xchg 0 1 (goto 0 (Spin 0) (upd_cpu 0 cli_pushed demo_machine)))))" (is "reach ?s")
    by (rule reach.step) (rule lstep.succeed, simp_all add: xchg_def, simp_all add: demo_machine_def)
  then show ?thesis unfolding demo_spin_def
  proof (rule reach.step, intro lstep.enter)
    have "cli_ok (cpus ?s 1)" by (simp add: xchg_def demo_machine_def cli_ok_def)
    from acquire_begin_eq [OF this, of 0] show "acquire_begin 1 0 ?s = Inr ((), upd_cpu 1 cli_pushed ?s)"
      by (simp add: xchg_def demo_machine_def)
  qed (simp add: xchg_def demo_machine_def)
qed

theorem spinlock_mutex_witness:
  "0 \<in> owners demo_spin 0 \<and> 1 \<notin> owners demo_spin 0 \<and> at_pc demo_spin 1 = Spin 0 \<and> \<not> c_if (cpus demo_spin 0) \<and>
   ncli (cpus demo_spin 1) = int (card (owned demo_spin 1)) + spins demo_spin 1"
  using spinlock_mutex [OF demo_spin_reach, of 0 0 1] spinlock_mutex [OF demo_spin_reach, of 1 0 0]
  by (simp add: owners_def demo_spin_def)

text \<open>
  Property C26. A processor that nobody disturbs: \<open>acquire\<close> panics when the processor already has the lock and waits forever when the lock is
  taken otherwise; on a free lock it returns with the lock taken in the name of the processor,
  the ten callers recorded and interrupts off, and the \<open>release\<close> that follows opens the lock and puts the interrupt flag and \<open>ncli\<close> back
  to what they were before, however deeply the calls are nested. \<open>release\<close> of a lock that the processor has not taken panics.
\<close>

theorem acquire_release:
  assumes "0 \<le> ncli (cpus s c)" "0 < ncli (cpus s c) \<longrightarrow> \<not> c_if (cpus s c)"
  shows "(lk_locked (locks s l) \<noteq> 0 \<longrightarrow>
            acquire m v c l s = Inl (if lk_cpu (locks s l) = Some c then Panic ''acquire'' else Diverge)) \<and>
         (lk_locked (locks s l) = 0 \<longrightarrow>
            (\<exists>t u. acquire m v c l s = Inr ((), t) \<and>
               lk_locked (locks t l) = 1 \<and> lk_cpu (locks t l) = Some c \<and> length (lk_pcs (locks t l)) = 10 \<and> \<not> c_if (cpus t c) \<and>
               (\<forall>k. k \<noteq> l \<longrightarrow> locks t k = locks s k) \<and>
               release c l t = Inr ((), u) \<and> lk_locked (locks u l) = 0 \<and>
               c_if (cpus u c) = c_if (cpus s c) \<and> ncli (cpus u c) = ncli (cpus s c) \<and>
               (\<forall>d. d \<noteq> c \<longrightarrow> cpus u d = cpus s d))) \<and>
         (lk_locked (locks s l) = 0 \<or> lk_cpu (locks s l) \<noteq> Some c \<longrightarrow> release c l s = Inl (Panic ''release''))"
proof -
  have k: "cli_ok (cpus s c)" using assms by (simp add: cli_ok_def)
  have "\<exists>t u. acquire m v c l s = Inr ((), t) \<and>
               lk_locked (locks t l) = 1 \<and> lk_cpu (locks t l) = Some c \<and> length (lk_pcs (locks t l)) = 10 \<and> \<not> c_if (cpus t c) \<and>
               (\<forall>k. k \<noteq> l \<longrightarrow> locks t k = locks s k) \<and>
               release c l t = Inr ((), u) \<and> lk_locked (locks u l) = 0 \<and>
               c_if (cpus u c) = c_if (cpus s c) \<and> ncli (cpus u c) = ncli (cpus s c) \<and>
               (\<forall>d. d \<noteq> c \<longrightarrow> cpus u d = cpus s d)" if "lk_locked (locks s l) = 0"
  proof -
    let ?t = "acquire_end m v c l (upd_lock l (\<lambda>k. k\<lparr>lk_locked := 1\<rparr>) (upd_cpu c cli_pushed s))"
    have a: "acquire m v c l s = Inr ((), ?t)"
      using that by (simp add: acquire_def acquire_begin_eq [OF k] xchg_def)
    have t: "cli_ok (cpus ?t c)" using cli_pushed_facts(1) [OF k] by (simp add: acquire_end_def)
    let ?r = "upd_lock l (\<lambda>k. k\<lparr>lk_pcs := (lk_pcs k)[0 := 0], lk_cpu := None\<rparr>) (upd_cpu c noted ?t)"
    let ?o = "upd_lock l (\<lambda>k. k\<lparr>lk_locked := 0\<rparr>) ?r"
    have "popcli c ?o = Inr ((), upd_cpu c popped ?o)"
      by (rule popcli_popped) (use assms in \<open>auto simp: acquire_end_def noted_def cli_pushed_def\<close>)
    then have r: "release c l ?t = Inr ((), upd_cpu c popped ?o)"
      unfolding release_def release_begin_eq [OF t] release_end_def by (simp add: acquire_end_def)
    show ?thesis
      by (rule exI [where x = ?t], rule exI [where x = "upd_cpu c popped ?o"])
        (use a r assms in \<open>auto simp: acquire_end_def noted_def cli_pushed_def popped_def\<close>)
  qed
  then show ?thesis
    by (auto simp: acquire_def acquire_begin_eq [OF k] xchg_def release_def release_begin_eq [OF k])
qed

theorem acquire_release_witness:
  "\<exists>t u. acquire (\<lambda>_. 0) 0 0 0 demo_machine = Inr ((), t) \<and> release 0 0 t = Inr ((), u) \<and> c_if (cpus u 0)"
proof -
  have "lk_locked (locks demo_machine 0) = 0" "c_if (cpus demo_machine 0)" by (simp_all add: demo_machine_def)
  then show ?thesis
    using acquire_release [of demo_machine 0 0 "\<lambda>_. 0" 0] by (auto simp: demo_machine_def)
qed

end
