(* ===== verification/Sleepwake.thy ===== *)
theory Sleepwake
  imports Sched Spinlock
begin

text \<open>
  \<open>sleep\<close>, \<open>wakeup\<close>, \<open>sched\<close>, \<open>yield\<close> and the loop of \<open>scheduler\<close> (\<open>proc.c\<close>) on several processors, with the spin locks of \<open>Spinlock\<close>. Each function is
  cut where another processor can see the difference: at most one \<open>acquire\<close> or \<open>release\<close> per piece, and a piece
  of its own for the assignments between them and for the switch to the scheduler. \<open>next_piece\<close> puts the pieces together; \<open>mstep\<close> interleaves
  the processors.

  The processes use channels in the way the kernel does: a channel \<open>ch\<close> goes with a condition that is tested and
  changed under the lock \<open>lk ch\<close>. A process that finds the condition false with this lock held may call \<open>sleep\<close>; whoever makes
  the condition true calls \<open>wakeup\<close> before it releases the lock. The lock may be \<open>ptable.lock\<close> itself (\<open>wait\<close> and
  \<open>exit\<close>); then \<open>wakeup1\<close> is called instead. Interrupt handlers do the same on the processor they interrupt, in a process or in the scheduler.

  A processor that finds a lock taken stays where it is (\<open>acquire\<close> gives \<open>Diverge\<close>). The switch of address spaces and the
  order in which the scheduler looks at the processes are in \<open>Sched\<close>; here the scheduler takes any runnable process.
\<close>

section \<open>Locks between the pieces\<close>

text \<open>No processor is inside \<open>acquire\<close> or \<open>release\<close>.\<close>

definition quiet :: "machine \<Rightarrow> bool" where
  "quiet M \<longleftrightarrow> lock_inv M \<and> (\<forall>c. at_pc M c = Outside)"

lemma quiet_owned: "quiet M \<Longrightarrow> l \<in> owned M c \<longleftrightarrow> lk_cpu (locks M l) = Some c"
  by (simp add: quiet_def owned_def owners_def)

lemma quiet_locked: "quiet M \<Longrightarrow> lk_locked (locks M l) = 0 \<longleftrightarrow> (\<forall>c. l \<notin> owned M c)"
  using lock_invD(2) [of M l] by (auto simp: quiet_def owned_def)

lemma quiet_one: "quiet M \<Longrightarrow> l \<in> owned M c \<Longrightarrow> l \<in> owned M d \<Longrightarrow> c = d"
  by (auto simp: quiet_owned)

lemma quiet_ncli: "quiet M \<Longrightarrow> ncli (cpus M c) = int (card (owned M c))" "quiet M \<Longrightarrow> cli_ok (cpus M c)" "quiet M \<Longrightarrow> finite (owned M c)"
  using lock_invD(4,5) [of M c] inv_cli_ok [of M c] by (simp_all add: quiet_def spins_def)

lemma quiet_noted:
  assumes "quiet M" "owned M c \<noteq> {}"
  shows "0 < ncli (cpus M c)" "\<not> c_if (cpus M c)" "upd_cpu c noted M = M"
proof -
  show n: "0 < ncli (cpus M c)" using quiet_ncli(1,3) [OF assms(1), of c] assms(2) by (simp add: card_gt_0_iff)
  then show "\<not> c_if (cpus M c)" using quiet_ncli(2) [OF assms(1), of c] by (simp add: cli_ok_def)
  show "upd_cpu c noted M = M" using n by (intro upd_cpu_id) (simp add: noted_def)
qed

lemma quiet_holding:
  assumes "quiet M" "owned M c \<noteq> {}"
  shows "holding c l M = Inr (l \<in> owned M c, M)"
  using holding_eq [OF quiet_ncli(2) [OF assms(1)], of c l] quiet_noted(3) [OF assms] quiet_locked [OF assms(1), of l]
  by (auto simp: quiet_owned [OF assms(1)])

lemma quiet_cpu:
  assumes "quiet M" "ncli (f (cpus M c)) = ncli (cpus M c)" "0 < ncli (cpus M c) \<Longrightarrow> \<not> c_if (f (cpus M c))"
  shows "quiet (upd_cpu c f M)" "owned (upd_cpu c f M) = owned M"
proof -
  have i: "lock_inv M" using assms(1) by (simp add: quiet_def)
  have "lock_inv (upd_cpu c f M)"
    by (rule inv_owned_only [OF i]) (use assms lock_invD(3,6) [OF i] in \<open>auto simp: owners_def spins_def quiet_def split: if_splits\<close>)
  then show "quiet (upd_cpu c f M)" using assms(1) by (simp add: quiet_def)
  show "owned (upd_cpu c f M) = owned M" by (simp add: owned_def owners_def fun_eq_iff)
qed

lemma goto_at: "at_pc M c = p \<Longrightarrow> goto c p M = M"
  by (auto simp: goto_def)

lemma quiet_acquire:
  assumes "quiet M"
  shows "(l \<in> owned M c \<longrightarrow> acquire m v c l M = Inl (Panic ''acquire'')) \<and>
    ((\<exists>d. d \<noteq> c \<and> l \<in> owned M d) \<longrightarrow> acquire m v c l M = Inl Diverge) \<and>
    ((\<forall>d. l \<notin> owned M d) \<longrightarrow>
      (\<exists>M'. acquire m v c l M = Inr ((), M') \<and> quiet M' \<and> owned M' = (owned M)(c := insert l (owned M c))))"
proof -
  have i: "lock_inv M" and o: "at_pc M c = Outside" for c using assms by (simp_all add: quiet_def)
  note b = acquire_begin_eq [OF inv_cli_ok [OF i], of c l]
  have "\<exists>M'. acquire m v c l M = Inr ((), M') \<and> quiet M' \<and> owned M' = (owned M)(c := insert l (owned M c))" if n: "\<forall>d. l \<notin> owned M d"
  proof -
    have z: "lk_locked (locks M l) = 0" using n quiet_locked [OF assms] by blast
    let ?a = "upd_cpu c cli_pushed M" and ?x = "upd_lock l (\<lambda>k. k\<lparr>lk_locked := 1\<rparr>)"
    have a: "acquire m v c l M = Inr ((), acquire_end m v c l (?x ?a))" using z by (simp add: acquire_def b xchg_def)
    have s1: "lstep M (goto c (Spin l) ?a)" by (rule lstep.enter) (simp_all add: o b z)
    have s2: "lstep (goto c (Spin l) ?a) (goto c (Taken l) (?x (goto c (Spin l) ?a)))"
      by (rule lstep.succeed) (simp_all add: xchg_def z)
    have s3: "lstep (goto c (Taken l) (?x (goto c (Spin l) ?a))) (goto c Outside (acquire_end m v c l (goto c (Taken l) (?x (goto c (Spin l) ?a)))))"
      by (rule lstep.taken) simp
    have e: "goto c Outside (acquire_end m v c l (goto c (Taken l) (?x (goto c (Spin l) ?a)))) = acquire_end m v c l (?x ?a)"
      using o [of c] by (simp add: goto_def acquire_end_def upd_lock_def upd_cpu_def fun_upd_idem)
    have q: "quiet (acquire_end m v c l (?x ?a))"
      using inv_step [OF inv_step [OF inv_step [OF i s1] s2] s3] o unfolding e by (simp add: quiet_def acquire_end_def)
    have "k \<in> owned (acquire_end m v c l (?x ?a)) d \<longleftrightarrow> k \<in> ((owned M)(c := insert l (owned M c))) d" for k d
      using n unfolding quiet_owned [OF q] by (cases "k = l"; cases "d = c") (simp_all add: quiet_owned [OF assms] acquire_end_def)
    then show ?thesis using a q by blast
  qed
  moreover have "acquire m v c l M = Inl (Panic ''acquire'')" if "l \<in> owned M c"
    using that quiet_locked [OF assms, of l] by (auto simp: acquire_def b quiet_owned [OF assms])
  moreover have "acquire m v c l M = Inl Diverge" if "d \<noteq> c" "l \<in> owned M d" for d
    using that quiet_locked [OF assms, of l] by (auto simp: acquire_def b xchg_def quiet_owned [OF assms])
  ultimately show ?thesis by blast
qed

lemma quiet_release:
  assumes "quiet M" "l \<in> owned M c"
  shows "\<exists>M'. release c l M = Inr ((), M') \<and> quiet M' \<and> owned M' = (owned M)(c := owned M c - {l})"
proof -
  have i: "lock_inv M" and o: "at_pc M c = Outside" for c using assms by (simp_all add: quiet_def)
  let ?b = "upd_lock l (\<lambda>k. k\<lparr>lk_pcs := (lk_pcs k)[0 := 0], lk_cpu := None\<rparr>) M"
  have ne: "owned M c \<noteq> {}" using assms(2) by auto
  have b: "release_begin c l M = Inr ((), ?b)"
    using release_begin_eq [OF inv_cli_ok [OF i], of c l] assms(2) quiet_locked [OF assms(1), of l] quiet_noted(3) [OF assms(1) ne]
    by (auto simp: quiet_owned [OF assms(1)])
  let ?e = "\<lambda>M. upd_cpu c popped (upd_lock l (\<lambda>k. k\<lparr>lk_locked := 0\<rparr>) M)"
  have e: "release_end c l ?b = Inr ((), ?e ?b)" "release_end c l (goto c (Opening l) ?b) = Inr ((), ?e (goto c (Opening l) ?b))"
    using quiet_noted(1,2) [OF assms(1) ne] by (simp_all add: release_end_def popcli_popped)
  have s1: "lstep M (goto c (Opening l) ?b)" by (rule lstep.leave) (simp_all add: o b)
  have s2: "lstep (goto c (Opening l) ?b) (goto c Outside (?e (goto c (Opening l) ?b)))" by (rule lstep.opened) (simp, rule e(2))
  have g: "goto c Outside (?e (goto c (Opening l) ?b)) = ?e ?b"
    using o [of c] by (simp add: goto_def upd_lock_def upd_cpu_def fun_upd_idem)
  have q: "quiet (?e ?b)" using inv_step [OF inv_step [OF i s1] s2] o unfolding g by (simp add: quiet_def)
  have "k \<in> owned (?e ?b) d \<longleftrightarrow> k \<in> ((owned M)(c := owned M c - {l})) d" for k d
    using assms(2) unfolding quiet_owned [OF q] by (cases "k = l"; cases "d = c") (simp_all add: quiet_owned [OF assms(1)])
  then have "owned (?e ?b) = (owned M)(c := owned M c - {l})" by blast
  then show ?thesis using b e(1) q by (simp only: release_def bindr_Inr split: prod.splits) auto
qed

section \<open>Threads and processors\<close>

text \<open>A thread is a process in the kernel or the scheduler of a processor.\<close>

datatype thread = PThread nat | SThread nat

text \<open>Who called \<open>sched\<close>.\<close>

datatype caller = InSleep chan | InYield | InExit

text \<open>Where a thread is: outside of all locks; in the section of one lock; in \<open>sleep\<close> before \<open>ptable.lock\<close> is taken, before its own
  lock is released, and before it is marked as sleeping; in \<open>sched\<close> before the switch, in the switch, and behind it; in
  \<open>sleep\<close> before its own lock is taken again; in \<open>wakeup\<close> before \<open>ptable.lock\<close> is taken, before \<open>wakeup1\<close>, and before
  the lock is released; in \<open>yield\<close> with the lock; in the loop of \<open>scheduler\<close>.\<close>

datatype loc = Outer | Held nat | Sleep1 chan | Sleep2 chan | Sleep3 chan | InSched caller | Swapped caller | After caller | Sleep5 chan
  | Wake1 chan | Wake2 chan | Wake3 chan | Yield1 | Loop

record mp =
  tbl :: kernel                      \<comment> \<open>with the process table\<close>
  mach :: machine
  on_cpu :: "nat \<Rightarrow> nat option"      \<comment> \<open>\<open>proc\<close> of a processor\<close>
  saved :: "nat \<Rightarrow> bool"             \<comment> \<open>the local variable \<open>intena\<close> of \<open>sched\<close>\<close>
  loc_of :: "thread \<Rightarrow> loc"
  rest :: "thread \<Rightarrow> loc list"        \<comment> \<open>what interrupts have interrupted\<close>
  cond :: "chan \<Rightarrow> bool"

text \<open>The number of \<open>ptable.lock\<close>.\<close>

abbreviation PT :: nat where "PT \<equiv> 0"

definition me :: "nat \<Rightarrow> mp \<Rightarrow> thread" where
  "me c S = (case on_cpu S c of None \<Rightarrow> SThread c | Some p \<Rightarrow> PThread p)"

definition pc :: "nat \<Rightarrow> mp \<Rightarrow> loc" where
  "pc c S = loc_of S (me c S)"

definition move :: "nat \<Rightarrow> loc \<Rightarrow> mp \<Rightarrow> mp" where
  "move c l S = S\<lparr>loc_of := (loc_of S)(me c S := l)\<rparr>"

definition on_mach :: "(machine \<Rightarrow> (unit \<times> machine) res) \<Rightarrow> mp \<Rightarrow> (unit \<times> mp) res" where
  "on_mach f S = bindr (f (mach S)) (\<lambda>(_, M). Inr ((), S\<lparr>mach := M\<rparr>))"

definition on_proc :: "nat \<Rightarrow> (proc \<Rightarrow> proc) \<Rightarrow> mp \<Rightarrow> mp" where
  "on_proc p f S = S\<lparr>tbl := upd_proc p f (tbl S)\<rparr>"

section \<open>The pieces\<close>

definition myproc_on :: "nat \<Rightarrow> mp \<Rightarrow> (nat option \<times> mp) res" where
  "myproc_on c S = bindr (popcli c (pushcli c (mach S))) (\<lambda>(_, M). Inr (on_cpu S c, S\<lparr>mach := M\<rparr>))"

definition sleep_acquire :: "(u32 \<Rightarrow> u32) \<Rightarrow> u32 \<Rightarrow> nat \<Rightarrow> nat option \<Rightarrow> mp \<Rightarrow> (unit \<times> mp) res" where
  "sleep_acquire m v c lk S =
     bindr (myproc_on c S) (\<lambda>(p, S).
     if p = None then Inl (Panic ''sleep'')
     else case lk of
       None \<Rightarrow> Inl (Panic ''sleep without lk'')
     | Some l \<Rightarrow> if l \<noteq> PT then on_mach (acquire m v c PT) S else Inr ((), S))"

definition sleep_release :: "nat \<Rightarrow> nat \<Rightarrow> mp \<Rightarrow> (unit \<times> mp) res" where
  "sleep_release c l S = (if l \<noteq> PT then on_mach (release c l) S else Inr ((), S))"

definition sleep_mark :: "nat \<Rightarrow> chan \<Rightarrow> mp \<Rightarrow> mp" where
  "sleep_mark p ch S = on_proc p (\<lambda>q. q\<lparr>p_chan := Some ch, p_state := SLEEPING\<rparr>) S"

text \<open>\<open>sched\<close> up to the switch, and the \<open>c->proc = 0\<close> of the scheduler that is then resumed.\<close>

definition sched_swtch :: "nat \<Rightarrow> mp \<Rightarrow> (unit \<times> mp) res" where
  "sched_swtch c S =
     bindr (myproc_on c S) (\<lambda>(p, S).
     bindr (holding c PT (mach S)) (\<lambda>(h, M).
     if \<not> h then Inl (Panic ''sched ptable.lock'')
     else if ncli (cpus M c) \<noteq> 1 then Inl (Panic ''sched locks'')
     else case p of
       None \<Rightarrow> Inl NullDeref
     | Some p \<Rightarrow>
         if p_state (prc p (tbl S)) = RUNNING then Inl (Panic ''sched running'')
         else if c_if (cpus M c) then Inl (Panic ''sched interruptible'')
         else Inr ((), S\<lparr>mach := M, saved := (saved S)(p := intena (cpus M c)), on_cpu := (on_cpu S)(c := None)\<rparr>)))"

definition sched_restore :: "nat \<Rightarrow> nat \<Rightarrow> mp \<Rightarrow> mp" where
  "sched_restore c p S = S\<lparr>mach := upd_cpu c (\<lambda>k. k\<lparr>intena := saved S p\<rparr>) (mach S)\<rparr>"

definition sleep_tidy :: "nat \<Rightarrow> nat \<Rightarrow> nat \<Rightarrow> mp \<Rightarrow> (unit \<times> mp) res" where
  "sleep_tidy c p l S =
    (let S = on_proc p (\<lambda>q. q\<lparr>p_chan := None\<rparr>) S
     in if l \<noteq> PT then on_mach (release c PT) S else Inr ((), S))"

definition yield_mark :: "nat \<Rightarrow> mp \<Rightarrow> (unit \<times> mp) res" where
  "yield_mark c S =
     bindr (myproc_on c S) (\<lambda>(p, S).
     case p of None \<Rightarrow> Inl NullDeref | Some p \<Rightarrow> Inr ((), on_proc p (\<lambda>q. q\<lparr>p_state := RUNNABLE\<rparr>) S))"

definition exit_mark :: "nat \<Rightarrow> mp \<Rightarrow> mp" where
  "exit_mark p S = on_proc p (\<lambda>q. q\<lparr>p_state := ZOMBIE\<rparr>) S"

text \<open>The scheduler gives the processor to process \<open>p\<close>.\<close>

definition scheduler_pick :: "nat \<Rightarrow> nat \<Rightarrow> mp \<Rightarrow> mp" where
  "scheduler_pick c p S = (on_proc p (\<lambda>q. q\<lparr>p_state := RUNNING\<rparr>) S)\<lparr>on_cpu := (on_cpu S)(c := Some p)\<rparr>"

text \<open>What the thread on processor \<open>c\<close> does next, where it has no choice. Calls of \<open>sleep\<close> and \<open>wakeup\<close> return to the section of the lock
  of the channel; a new process starts in \<open>forkret\<close>, which releases \<open>ptable.lock\<close> like \<open>yield\<close>.\<close>

definition then_at :: "nat \<Rightarrow> loc \<Rightarrow> (unit \<times> mp) res \<Rightarrow> (unit \<times> mp) res" where
  "then_at c l r = bindr r (\<lambda>(_, S). Inr ((), move c l S))"

definition next_piece :: "(u32 \<Rightarrow> u32) \<Rightarrow> u32 \<Rightarrow> (chan \<Rightarrow> nat) \<Rightarrow> nat \<Rightarrow> mp \<Rightarrow> (unit \<times> mp) res" where
  "next_piece m v lk c S =
    (case pc c S of
       Sleep1 ch \<Rightarrow> then_at c (Sleep2 ch) (sleep_acquire m v c (Some (lk ch)) S)
     | Sleep2 ch \<Rightarrow> then_at c (Sleep3 ch) (sleep_release c (lk ch) S)
     | Sleep3 ch \<Rightarrow> (case on_cpu S c of None \<Rightarrow> Inl NullDeref | Some p \<Rightarrow> Inr ((), move c (InSched (InSleep ch)) (sleep_mark p ch S)))
     | InSched r \<Rightarrow> sched_swtch c (move c (Swapped r) S)
     | Swapped r \<Rightarrow> (case on_cpu S c of None \<Rightarrow> Inl NullDeref | Some p \<Rightarrow> Inr ((), move c (After r) (sched_restore c p S)))
     | After (InSleep ch) \<Rightarrow>
         (case on_cpu S c of None \<Rightarrow> Inl NullDeref
          | Some p \<Rightarrow> then_at c (if lk ch = PT then Held PT else Sleep5 ch) (sleep_tidy c p (lk ch) S))
     | After InYield \<Rightarrow> then_at c Outer (on_mach (release c PT) S)
     | After InExit \<Rightarrow> Inl (Panic ''zombie exit'')
     | Sleep5 ch \<Rightarrow> then_at c (Held (lk ch)) (on_mach (acquire m v c (lk ch)) S)
     | Wake1 ch \<Rightarrow> then_at c (Wake2 ch) (on_mach (acquire m v c PT) S)
     | Wake2 ch \<Rightarrow> Inr ((), move c (if lk ch = PT then Held PT else Wake3 ch) (S\<lparr>tbl := wakeup1 (Some ch) (tbl S)\<rparr>))
     | Wake3 ch \<Rightarrow> then_at c (Held (lk ch)) (on_mach (release c PT) S)
     | Yield1 \<Rightarrow> then_at c (InSched InYield) (yield_mark c S)
     | _ \<Rightarrow> Inr ((), S))"

section \<open>Interleavings\<close>

inductive mstep :: "(u32 \<Rightarrow> u32) \<Rightarrow> u32 \<Rightarrow> (chan \<Rightarrow> nat) \<Rightarrow> mp \<Rightarrow> mp \<Rightarrow> bool" for m v lk where
  piece: "next_piece m v lk c S = Inr ((), T) \<Longrightarrow> mstep m v lk S T"
| flag: "ncli (cpus (mach S) c) = 0 \<Longrightarrow> mstep m v lk S (S\<lparr>mach := upd_cpu c (\<lambda>k. k\<lparr>c_if := b\<rparr>) (mach S)\<rparr>)"
| intr: "pc c S = Outer \<or> pc c S = Sleep5 ch \<Longrightarrow> c_if (cpus (mach S) c) \<Longrightarrow>
    mstep m v lk S (move c Outer (S\<lparr>rest := (rest S)(me c S := pc c S # rest S (me c S))\<rparr>))"
| iret: "pc c S = Outer \<Longrightarrow> rest S (me c S) = l # ls \<Longrightarrow> mstep m v lk S (move c l (S\<lparr>rest := (rest S)(me c S := ls)\<rparr>))"
| lock: "pc c S = Outer \<Longrightarrow> on_mach (acquire m v c l) S = Inr ((), T) \<Longrightarrow> mstep m v lk S (move c (Held l) T)"
| unlock: "pc c S = Held l \<Longrightarrow> on_mach (release c l) S = Inr ((), T) \<Longrightarrow> mstep m v lk S (move c Outer T)"
| make: "pc c S = Held (lk ch) \<Longrightarrow>
    mstep m v lk S (move c (if lk ch = PT then Wake2 ch else Wake1 ch) (S\<lparr>cond := (cond S)(ch := True)\<rparr>))"
| undo: "pc c S = Held (lk ch) \<Longrightarrow> mstep m v lk S (S\<lparr>cond := (cond S)(ch := False)\<rparr>)"
| wait: "pc c S = Held (lk ch) \<Longrightarrow> \<not> cond S ch \<Longrightarrow> on_cpu S c \<noteq> None \<Longrightarrow> mstep m v lk S (move c (Sleep1 ch) S)"
| kill: "pc c S = Held PT \<Longrightarrow> mstep m v lk S (S\<lparr>tbl := snd (kill n (tbl S))\<rparr>)"
| exit: "pc c S = Held PT \<Longrightarrow> on_cpu S c = Some p \<Longrightarrow>
    mstep m v lk S (move c (InSched InExit) (exit_mark p S))"
| yield: "pc c S = Outer \<Longrightarrow> on_cpu S c \<noteq> None \<Longrightarrow> on_mach (acquire m v c PT) S = Inr ((), T) \<Longrightarrow> mstep m v lk S (move c Yield1 T)"
| loop: "pc c S = Outer \<Longrightarrow> on_cpu S c = None \<Longrightarrow> rest S (SThread c) = [] \<Longrightarrow> on_mach (acquire m v c PT) S = Inr ((), T) \<Longrightarrow>
    mstep m v lk S (move c Loop T)"
| dispatch: "pc c S = Loop \<Longrightarrow> on_cpu S c = None \<Longrightarrow> p < length (ptable (tbl S)) \<Longrightarrow> p_state (prc p (tbl S)) = RUNNABLE \<Longrightarrow>
    mstep m v lk S (scheduler_pick c p S)"
| pass: "pc c S = Loop \<Longrightarrow> on_cpu S c = None \<Longrightarrow> on_mach (release c PT) S = Inr ((), T) \<Longrightarrow> mstep m v lk S (move c Outer T)"

definition mstart :: "mp \<Rightarrow> bool" where
  "mstart S \<longleftrightarrow> lstart (mach S) \<and> (\<forall>c. on_cpu S c = None \<and> loc_of S (SThread c) = Outer) \<and> (\<forall>t. rest S t = []) \<and>
     (\<forall>p < length (ptable (tbl S)). loc_of S (PThread p) = After InYield \<and> p_state (prc p (tbl S)) \<in> {UNUSED, RUNNABLE})"

inductive mreach :: "(u32 \<Rightarrow> u32) \<Rightarrow> u32 \<Rightarrow> (chan \<Rightarrow> nat) \<Rightarrow> mp \<Rightarrow> bool" for m v lk where
  start: "mstart S \<Longrightarrow> mreach m v lk S"
| step: "mreach m v lk S \<Longrightarrow> mstep m v lk S T \<Longrightarrow> mreach m v lk T"

section \<open>The invariant\<close>

text \<open>The locks that a processor has, from where its thread is.\<close>

fun locks_at :: "(chan \<Rightarrow> nat) \<Rightarrow> loc \<Rightarrow> nat set" where
  "locks_at lk Outer = {}"
| "locks_at lk (Held l) = {l}"
| "locks_at lk (Sleep1 ch) = {lk ch}"
| "locks_at lk (Sleep2 ch) = {PT, lk ch}"
| "locks_at lk (Sleep5 ch) = {}"
| "locks_at lk (Wake1 ch) = {lk ch}"
| "locks_at lk (Wake2 ch) = {PT, lk ch}"
| "locks_at lk (Wake3 ch) = {PT, lk ch}"
| "locks_at lk _ = {PT}"

definition asleep :: "chan \<Rightarrow> kernel \<Rightarrow> bool" where
  "asleep ch k \<longleftrightarrow> (\<exists>p < length (ptable k). p_state (prc p k) = SLEEPING \<and> p_chan (prc p k) = Some ch)"

text \<open>The state of a process that has a processor, and of one that has none.\<close>

fun run_ok :: "loc \<Rightarrow> proc \<Rightarrow> bool" where
  "run_ok (InSched (InSleep ch)) q \<longleftrightarrow> p_state q = SLEEPING \<and> p_chan q = Some ch"
| "run_ok (InSched InYield) q \<longleftrightarrow> p_state q = RUNNABLE"
| "run_ok (InSched InExit) q \<longleftrightarrow> p_state q = ZOMBIE"
| "run_ok l q \<longleftrightarrow> p_state q = RUNNING \<and> l \<notin> {Loop, Swapped InExit, After InExit}"

fun parked_ok :: "loc \<Rightarrow> proc \<Rightarrow> bool" where
  "parked_ok (Swapped (InSleep ch)) q \<longleftrightarrow> p_state q = SLEEPING \<and> p_chan q = Some ch \<or> p_state q = RUNNABLE"
| "parked_ok (Swapped InYield) q \<longleftrightarrow> p_state q = RUNNABLE"
| "parked_ok (Swapped InExit) q \<longleftrightarrow> p_state q = ZOMBIE"
| "parked_ok (After InYield) q \<longleftrightarrow> p_state q = RUNNABLE \<or> p_state q = UNUSED"
| "parked_ok l q \<longleftrightarrow> False"

fun sched_ok :: "loc \<Rightarrow> bool" where
  "sched_ok Outer = True"
| "sched_ok (Held l) = True"
| "sched_ok (Wake1 ch) = True"
| "sched_ok (Wake2 ch) = True"
| "sched_ok (Wake3 ch) = True"
| "sched_ok Loop = True"
| "sched_ok _ = False"

definition cpu_inv :: "(chan \<Rightarrow> nat) \<Rightarrow> mp \<Rightarrow> bool" where
  "cpu_inv lk S \<longleftrightarrow> quiet (mach S) \<and> (\<forall>c. owned (mach S) c = locks_at lk (pc c S)) \<and>
     (\<forall>c ch. pc c S = Wake1 ch \<or> pc c S = Wake3 ch \<longrightarrow> lk ch \<noteq> PT)"

definition table_inv :: "mp \<Rightarrow> bool" where
  "table_inv S \<longleftrightarrow>
     (\<forall>c d p. on_cpu S c = Some p \<and> on_cpu S d = Some p \<longrightarrow> c = d) \<and>
     (\<forall>c p. on_cpu S c = Some p \<longrightarrow> p < length (ptable (tbl S)) \<and> loc_of S (SThread c) = Loop \<and> run_ok (loc_of S (PThread p)) (prc p (tbl S))) \<and>
     (\<forall>c. on_cpu S c = None \<longrightarrow> sched_ok (loc_of S (SThread c))) \<and>
     (\<forall>p < length (ptable (tbl S)). (\<forall>c. on_cpu S c \<noteq> Some p) \<longrightarrow> parked_ok (loc_of S (PThread p)) (prc p (tbl S))) \<and>
     (\<forall>t. set (rest S t) \<subseteq> (case t of PThread p \<Rightarrow> insert Outer (range Sleep5) | SThread c \<Rightarrow> {Outer}))"

text \<open>A channel with a sleeper, or with a process that is about to be one, whose condition holds has its wakeup still to come.\<close>

definition wake_inv :: "mp \<Rightarrow> bool" where
  "wake_inv S \<longleftrightarrow>
     (\<forall>c ch. pc c S = Sleep1 ch \<or> pc c S = Sleep2 ch \<longrightarrow> \<not> cond S ch) \<and>
     (\<forall>ch. cond S ch \<and> (asleep ch (tbl S) \<or> (\<exists>c. pc c S = Sleep3 ch)) \<longrightarrow> (\<exists>c. pc c S = Wake1 ch \<or> pc c S = Wake2 ch)) \<and>
     (\<forall>c ch. pc c S = Wake3 ch \<longrightarrow> \<not> asleep ch (tbl S))"

definition mp_inv :: "(chan \<Rightarrow> nat) \<Rightarrow> mp \<Rightarrow> bool" where
  "mp_inv lk S \<longleftrightarrow> cpu_inv lk S \<and> table_inv S \<and> wake_inv S"

lemma table_invD:
  assumes "table_inv S"
  shows "on_cpu S c = Some p \<Longrightarrow> on_cpu S d = Some p \<Longrightarrow> c = d"
    "on_cpu S c = Some p \<Longrightarrow> p < length (ptable (tbl S))" "on_cpu S c = Some p \<Longrightarrow> loc_of S (SThread c) = Loop"
    "on_cpu S c = Some p \<Longrightarrow> run_ok (pc c S) (prc p (tbl S))" "on_cpu S c = None \<Longrightarrow> sched_ok (pc c S)"
    "p < length (ptable (tbl S)) \<Longrightarrow> \<forall>c. on_cpu S c \<noteq> Some p \<Longrightarrow> parked_ok (loc_of S (PThread p)) (prc p (tbl S))"
    "set (rest S t) \<subseteq> (case t of PThread p \<Rightarrow> insert Outer (range Sleep5) | SThread c \<Rightarrow> {Outer})"
  using assms unfolding table_inv_def by (auto simp: pc_def me_def)

lemma me_inj: "table_inv S \<Longrightarrow> me c S = me d S \<longleftrightarrow> c = d"
  using table_invD(1) [of S c _ d] by (auto simp: me_def split: option.splits)

lemma pc_moved:
  assumes "table_inv S" "on_cpu T = on_cpu S" "loc_of T = (loc_of S)(me c S := l)"
  shows "pc d T = (if d = c then l else pc d S)"
proof -
  have "me d T = me d S" using assms(2) by (simp add: me_def)
  then show ?thesis using me_inj [OF assms(1), of d c] assms(3) by (simp add: pc_def)
qed

lemma moved_cpu:
  assumes "cpu_inv lk S" "table_inv S" "on_cpu T = on_cpu S" "loc_of T = (loc_of S)(me c S := l)"
    and "quiet (mach T)" "owned (mach T) = (owned (mach S))(c := locks_at lk l)" "\<And>ch. l = Wake1 ch \<or> l = Wake3 ch \<Longrightarrow> lk ch \<noteq> PT"
  shows "cpu_inv lk T"
  using assms(1,5,6,7) unfolding cpu_inv_def pc_moved [OF assms(2-4)] by (auto split: if_splits)

lemma moved_table:
  assumes "table_inv S" "on_cpu T = on_cpu S" "loc_of T = (loc_of S)(me c S := l)" "length (ptable (tbl T)) = length (ptable (tbl S))"
    and "\<And>p. on_cpu S c = Some p \<Longrightarrow> run_ok l (prc p (tbl T))" "on_cpu S c = None \<Longrightarrow> sched_ok l"
    and "\<And>p d. d \<noteq> c \<Longrightarrow> on_cpu S d = Some p \<Longrightarrow> run_ok (pc d S) (prc p (tbl S)) \<Longrightarrow> run_ok (pc d S) (prc p (tbl T))"
    and "\<And>p k. on_cpu S c \<noteq> Some p \<Longrightarrow> p < length (ptable (tbl S)) \<Longrightarrow> parked_ok k (prc p (tbl S)) \<Longrightarrow> parked_ok k (prc p (tbl T))"
    and "\<And>t. set (rest T t) \<subseteq> (case t of PThread p \<Rightarrow> insert Outer (range Sleep5) | SThread c \<Rightarrow> {Outer})"
  shows "table_inv T"
proof -
  note I = table_invD [OF assms(1)]
  have st: "loc_of T (SThread d) = (if on_cpu S c = None \<and> d = c then l else loc_of S (SThread d))"
    "loc_of T (PThread p) = (if on_cpu S c = Some p then l else loc_of S (PThread p))" for d p
    using assms(3) by (auto simp: me_def split: option.splits)
  have "run_ok (loc_of T (PThread p)) (prc p (tbl T))" if "on_cpu S d = Some p" for d p
    using that assms(5) assms(7) [of d p] I(1) [OF that, of c] I(4) [OF that] by (cases "d = c") (auto simp: st pc_def me_def)
  moreover have "sched_ok (loc_of T (SThread d))" if "on_cpu S d = None" for d
    using that assms(6) I(5) [OF that] by (auto simp: st pc_def me_def)
  moreover have "parked_ok (loc_of T (PThread p)) (prc p (tbl T))" if "p < length (ptable (tbl S))" "\<forall>d. on_cpu S d \<noteq> Some p" for p
    using assms(8) I(6) [OF that] that by (simp add: st)
  ultimately show ?thesis using I(1,2,3) assms(9) unfolding table_inv_def assms(2,4) by (auto simp: st)
qed

lemma moved_wake:
  assumes "wake_inv S" "table_inv S" "on_cpu T = on_cpu S" "loc_of T = (loc_of S)(me c S := l)"
    and "\<And>ch. l = Sleep1 ch \<or> l = Sleep2 ch \<or> l = Sleep3 ch \<Longrightarrow> \<not> cond T ch"
    and "\<And>d ch. d \<noteq> c \<Longrightarrow> pc d S = Sleep1 ch \<or> pc d S = Sleep2 ch \<Longrightarrow> \<not> cond T ch"
    and "\<And>ch. cond T ch \<Longrightarrow> cond S ch \<or> l = Wake1 ch \<or> l = Wake2 ch"
    and "\<And>ch. asleep ch (tbl T) \<Longrightarrow> asleep ch (tbl S) \<or> pc c S = Sleep3 ch \<and> (\<forall>d. d \<noteq> c \<longrightarrow> pc d S \<noteq> Wake3 ch)"
    and "\<And>ch. pc c S = Wake1 ch \<or> pc c S = Wake2 ch \<Longrightarrow> l = Wake1 ch \<or> l = Wake2 ch \<or> \<not> asleep ch (tbl T) \<and> (\<forall>d. d \<noteq> c \<longrightarrow> pc d S \<noteq> Sleep3 ch)"
    and "\<And>ch. l = Wake3 ch \<Longrightarrow> \<not> asleep ch (tbl T)"
  shows "wake_inv T"
proof -
  note P = pc_moved [OF assms(2-4)]
  note W = assms(1) [unfolded wake_inv_def]
  have "\<not> cond T ch" if "pc d T = Sleep1 ch \<or> pc d T = Sleep2 ch" for d ch
    using that assms(5,6) by (auto simp: P split: if_splits)
  moreover have "\<exists>d. pc d T = Wake1 ch \<or> pc d T = Wake2 ch" if t: "cond T ch" "asleep ch (tbl T) \<or> (\<exists>d. pc d T = Sleep3 ch)" for ch
  proof (cases "l = Wake1 ch \<or> l = Wake2 ch")
    case True
    then show ?thesis by (intro exI [of _ c]) (simp add: P)
  next
    case False
    then have c: "cond S ch" using assms(7) t(1) by blast
    have "asleep ch (tbl S) \<or> (\<exists>d. pc d S = Sleep3 ch)" using t assms(5,8) by (auto simp: P split: if_splits)
    then obtain d where d: "pc d S = Wake1 ch \<or> pc d S = Wake2 ch" using W c by blast
    then have "d \<noteq> c" using assms(9) [of ch] False t assms(5) by (auto simp: P split: if_splits)
    then show ?thesis using d by (intro exI [of _ d]) (simp add: P)
  qed
  moreover have "\<not> asleep ch (tbl T)" if "pc d T = Wake3 ch" for d ch
    using that W assms(8) [of ch] assms(10) [of ch] unfolding P by (cases "d = c") auto
  ultimately show ?thesis unfolding wake_inv_def by blast
qed

lemma inv_moved:
  assumes "mp_inv lk S" "on_cpu T = on_cpu S" "loc_of T = (loc_of S)(me c S := l)" "tbl T = tbl S" "rest T = rest S"
    and "quiet (mach T)" "owned (mach T) = (owned (mach S))(c := locks_at lk l)"
    and "\<And>ch. l = Wake1 ch \<Longrightarrow> lk ch \<noteq> PT" "\<And>ch. l \<noteq> Wake3 ch"
    and "\<And>p. on_cpu S c = Some p \<Longrightarrow> run_ok (pc c S) (prc p (tbl S)) \<Longrightarrow> run_ok l (prc p (tbl S))"
    and "on_cpu S c = None \<Longrightarrow> sched_ok (pc c S) \<Longrightarrow> sched_ok l"
    and "\<And>ch. l = Sleep1 ch \<or> l = Sleep2 ch \<or> l = Sleep3 ch \<Longrightarrow> \<not> cond T ch"
    and "\<And>d ch. d \<noteq> c \<Longrightarrow> pc d S = Sleep1 ch \<or> pc d S = Sleep2 ch \<Longrightarrow> cond T ch \<Longrightarrow> cond S ch"
    and "\<And>ch. cond T ch \<Longrightarrow> cond S ch \<or> l = Wake1 ch \<or> l = Wake2 ch"
    and "\<And>ch. pc c S = Wake1 ch \<or> pc c S = Wake2 ch \<Longrightarrow> l = Wake1 ch \<or> l = Wake2 ch"
  shows "mp_inv lk T"
proof -
  have I: "cpu_inv lk S" "table_inv S" "wake_inv S" using assms(1) by (simp_all add: mp_inv_def)
  note J = table_invD [OF I(2)]
  have "cpu_inv lk T" by (rule moved_cpu [OF I(1,2) assms(2,3,6,7)]) (use assms(8,9) in blast)
  moreover have "table_inv T"
  proof (rule moved_table [OF I(2) assms(2,3)])
    show "run_ok l (prc p (tbl T))" if "on_cpu S c = Some p" for p unfolding assms(4) by (rule assms(10) [OF that J(4) [OF that]])
    show "sched_ok l" if "on_cpu S c = None" by (rule assms(11) [OF that J(5) [OF that]])
    show "set (rest T t) \<subseteq> (case t of PThread p \<Rightarrow> insert Outer (range Sleep5) | SThread c \<Rightarrow> {Outer})" for t
      unfolding assms(5) by (rule J(7))
  qed (simp_all add: assms(4))
  moreover have "wake_inv T"
  proof (rule moved_wake [OF I(3,2) assms(2,3)])
    show "\<not> cond T ch" if "d \<noteq> c" "pc d S = Sleep1 ch \<or> pc d S = Sleep2 ch" for d ch
      using assms(13) [OF that] I(3) that(2) unfolding wake_inv_def by blast
    show "l = Wake1 ch \<or> l = Wake2 ch \<or> \<not> asleep ch (tbl T) \<and> (\<forall>d. d \<noteq> c \<longrightarrow> pc d S \<noteq> Sleep3 ch)"
      if "pc c S = Wake1 ch \<or> pc c S = Wake2 ch" for ch using assms(15) [OF that] by blast
  qed (use assms(4,9,12,14) in simp_all)
  ultimately show ?thesis by (simp add: mp_inv_def)
qed

lemma inv_owned: "mp_inv lk S \<Longrightarrow> owned (mach S) c = locks_at lk (pc c S)" "mp_inv lk S \<Longrightarrow> quiet (mach S)"
  by (simp_all add: mp_inv_def cpu_inv_def)

lemma inv_excl: "mp_inv lk S \<Longrightarrow> l \<in> locks_at lk (pc c S) \<Longrightarrow> d \<noteq> c \<Longrightarrow> l \<notin> locks_at lk (pc d S)"
  using quiet_one [of "mach S" l c d] inv_owned [of lk S] by auto

lemma move_simps [simp]:
  "on_cpu (move c l S) = on_cpu S" "tbl (move c l S) = tbl S" "mach (move c l S) = mach S" "rest (move c l S) = rest S"
  "cond (move c l S) = cond S" "loc_of (move c l S) = (loc_of S)(me c S := l)" "saved (move c l S) = saved S"
  "me d (move c l S) = me d S" "me d (S\<lparr>mach := M\<rparr>) = me d S" "me d (S\<lparr>tbl := k\<rparr>) = me d S" "me d (S\<lparr>rest := r\<rparr>) = me d S"
  "me d (S\<lparr>cond := b\<rparr>) = me d S" "me d (on_proc p f S) = me d S" "on_cpu (on_proc p f S) = on_cpu S" "mach (on_proc p f S) = mach S"
  "rest (on_proc p f S) = rest S" "cond (on_proc p f S) = cond S" "loc_of (on_proc p f S) = loc_of S" "saved (on_proc p f S) = saved S"
  "tbl (on_proc p f S) = upd_proc p f (tbl S)"
  by (simp_all add: move_def me_def on_proc_def)

lemma inv_quiet_move:
  assumes "mp_inv lk S" "quiet M" "owned M = (owned (mach S))(c := locks_at lk l)" "pc c S = k"
    and "\<And>ch. l = Wake1 ch \<Longrightarrow> lk ch \<noteq> PT" "\<And>ch. l \<noteq> Wake3 ch"
    and "\<And>q. on_cpu S c \<noteq> None \<Longrightarrow> run_ok k q \<Longrightarrow> run_ok l q" "on_cpu S c = None \<Longrightarrow> sched_ok k \<Longrightarrow> sched_ok l"
    and "\<And>ch. l = Sleep1 ch \<or> l = Sleep2 ch \<or> l = Sleep3 ch \<Longrightarrow> \<not> cond S ch"
    and "\<And>ch. k = Wake1 ch \<or> k = Wake2 ch \<Longrightarrow> l = Wake1 ch \<or> l = Wake2 ch"
  shows "mp_inv lk (move c l (S\<lparr>mach := M\<rparr>))"
  by (rule inv_moved [OF assms(1), where c = c and l = l]) (use assms(2-) in auto)

lemma inv_acquired:
  assumes "mp_inv lk S" "on_mach (acquire m v c l) S = Inr ((), T)"
  shows "\<exists>M. T = S\<lparr>mach := M\<rparr> \<and> quiet M \<and> owned M = (owned (mach S))(c := insert l (locks_at lk (pc c S)))"
proof -
  note q = quiet_acquire [OF inv_owned(2) [OF assms(1)], of l c m v]
  obtain M where M: "acquire m v c l (mach S) = Inr ((), M)" "T = S\<lparr>mach := M\<rparr>" using assms(2) by (auto simp: on_mach_def bindr_eq_Inr)
  then have "\<forall>d. l \<notin> owned (mach S) d" using q by (metis sum.distinct(1))
  then show ?thesis using q M inv_owned(1) [OF assms(1), of c] by auto
qed

lemma inv_released:
  assumes "mp_inv lk S" "l \<in> locks_at lk (pc c S)"
  shows "\<exists>M. release c l (mach S) = Inr ((), M) \<and> on_mach (release c l) S = Inr ((), S\<lparr>mach := M\<rparr>) \<and> quiet M \<and> owned M = (owned (mach S))(c := locks_at lk (pc c S) - {l})"
  using quiet_release [OF inv_owned(2) [OF assms(1)], of l c] assms(2) inv_owned(1) [OF assms(1), of c] by (auto simp: on_mach_def)

lemma inv_cli:
  assumes "mp_inv lk S" "locks_at lk (pc c S) \<noteq> {}"
  shows "popcli c (pushcli c (mach S)) = Inr ((), mach S)"
proof -
  have n: "owned (mach S) c \<noteq> {}" using inv_owned(1) [OF assms(1), of c] assms(2) by simp
  note q = inv_owned(2) [OF assms(1)]
  show ?thesis using popcli_pushcli [OF quiet_ncli(2) [OF q], of c] quiet_noted(3) [OF q n] by (simp add: pushcli_eq)
qed

lemma move_mach: "(move c l S)\<lparr>mach := mach S\<rparr> = move c l S"
  by (simp add: move_def)

lemma inv_myproc:
  assumes "mp_inv lk S" "locks_at lk (pc c S) \<noteq> {}"
  shows "myproc_on c S = Inr (on_cpu S c, S)" "myproc_on c (move c l S) = Inr (on_cpu S c, move c l S)"
  using inv_cli [OF assms] by (simp_all add: myproc_on_def move_mach)

lemma inv_lock:
  assumes "mp_inv lk S" "pc c S = Outer" "on_mach (acquire m v c l) S = Inr ((), T)"
  shows "mp_inv lk (move c (Held l) T)" "on_cpu S c \<noteq> None \<Longrightarrow> l = PT \<Longrightarrow> mp_inv lk (move c Yield1 T)"
    "on_cpu S c = None \<Longrightarrow> l = PT \<Longrightarrow> mp_inv lk (move c Loop T)"
proof -
  obtain M where M: "T = S\<lparr>mach := M\<rparr>" "quiet M" "owned M = (owned (mach S))(c := {l})" using inv_acquired [OF assms(1,3)] assms(2) by auto
  show "mp_inv lk (move c (Held l) T)" unfolding M(1) by (rule inv_quiet_move [OF assms(1) M(2) _ assms(2)]) (use M(3) in auto)
  show "on_cpu S c \<noteq> None \<Longrightarrow> l = PT \<Longrightarrow> mp_inv lk (move c Yield1 T)"
    unfolding M(1) by (rule inv_quiet_move [OF assms(1) M(2) _ assms(2)]) (use M(3) in auto)
  show "on_cpu S c = None \<Longrightarrow> l = PT \<Longrightarrow> mp_inv lk (move c Loop T)"
    unfolding M(1) by (rule inv_quiet_move [OF assms(1) M(2) _ assms(2)]) (use M(3) in auto)
qed

lemma inv_unlock:
  assumes "mp_inv lk S" "pc c S = Held l \<or> (pc c S = Loop \<or> pc c S = After InYield) \<and> l = PT" "on_mach (release c l) S = Inr ((), T)"
  shows "mp_inv lk (move c Outer T)"
proof -
  obtain M where M: "T = S\<lparr>mach := M\<rparr>" "quiet M" "owned M = (owned (mach S))(c := {})"
    using inv_released [OF assms(1), of l c] assms(2,3) by auto
  show ?thesis unfolding M(1) by (rule inv_quiet_move [OF assms(1) M(2) _ refl]) (use assms(2) M(3) in auto)
qed

section \<open>The pieces keep the invariant\<close>

text \<open>A piece ends in a good state, or waits for a lock that another processor has.\<close>

definition good :: "(chan \<Rightarrow> nat) \<Rightarrow> nat \<Rightarrow> mp \<Rightarrow> (unit \<times> mp) res \<Rightarrow> bool" where
  "good lk c S r \<longleftrightarrow> (case r of Inr (_, T) \<Rightarrow> mp_inv lk T | Inl f \<Rightarrow> f = Diverge \<and> (\<exists>d l. d \<noteq> c \<and> l \<in> owned (mach S) d))"

lemma good_Inr [simp]: "good lk c S (Inr (u, T)) \<longleftrightarrow> mp_inv lk T"
  by (simp add: good_def)

lemma good_acquire:
  assumes "mp_inv lk S" "l \<notin> locks_at lk (pc c S)"
    and "\<And>M. quiet M \<Longrightarrow> owned M = (owned (mach S))(c := insert l (locks_at lk (pc c S))) \<Longrightarrow> mp_inv lk (move c k (S\<lparr>mach := M\<rparr>))"
  shows "good lk c S (then_at c k (on_mach (acquire m v c l) S))"
proof (cases "on_mach (acquire m v c l) S")
  case (Inr x)
  then obtain T where T: "on_mach (acquire m v c l) S = Inr ((), T)" by (cases x) auto
  then show ?thesis using inv_acquired [OF assms(1) T] assms(3) by (auto simp: then_at_def)
next
  case (Inl f)
  note q = quiet_acquire [OF inv_owned(2) [OF assms(1)], of l c m v] and o = inv_owned(1) [OF assms(1)]
  have "acquire m v c l (mach S) = Inl f" using Inl by (auto simp: on_mach_def bindr_def split: sum.splits)
  then have "f = Diverge \<and> (\<exists>d. d \<noteq> c \<and> l \<in> owned (mach S) d)" using q assms(2) o [of c] by (metis Inl_inject sum.distinct(1))
  then show ?thesis using Inl by (auto simp: good_def then_at_def)
qed

lemma good_release:
  assumes "mp_inv lk S" "l \<in> locks_at lk (pc c S)"
    and "\<And>M. quiet M \<Longrightarrow> owned M = (owned (mach S))(c := locks_at lk (pc c S) - {l}) \<Longrightarrow> mp_inv lk (move c k (S\<lparr>mach := M\<rparr>))"
  shows "good lk c S (then_at c k (on_mach (release c l) S))"
  using inv_released [OF assms(1,2)] assms(3) by (auto simp: then_at_def)

lemma inv_process:
  assumes "mp_inv lk S" "\<not> sched_ok (pc c S)"
  shows "\<exists>p. on_cpu S c = Some p \<and> p < length (ptable (tbl S)) \<and> run_ok (pc c S) (prc p (tbl S)) \<and> loc_of S (SThread c) = Loop"
  using assms table_invD(2,3,4,5) [of S c] by (cases "on_cpu S c") (auto simp: mp_inv_def)

lemma inv_cond: "mp_inv lk S \<Longrightarrow> pc c S = Sleep1 ch \<or> pc c S = Sleep2 ch \<Longrightarrow> \<not> cond S ch"
  by (auto simp: mp_inv_def wake_inv_def)

lemma inv_lk: "mp_inv lk S \<Longrightarrow> pc c S = Wake1 ch \<or> pc c S = Wake3 ch \<Longrightarrow> lk ch \<noteq> PT"
  by (auto simp: mp_inv_def cpu_inv_def)

lemma on_proc_mach: "(on_proc p f S)\<lparr>mach := mach S\<rparr> = on_proc p f S"
  by (simp add: on_proc_def)

lemma inv_stay_move:
  assumes "mp_inv lk S" "locks_at lk l = locks_at lk k" "pc c S = k"
    and "\<And>ch. l = Wake1 ch \<Longrightarrow> lk ch \<noteq> PT" "\<And>ch. l \<noteq> Wake3 ch"
    and "\<And>q. on_cpu S c \<noteq> None \<Longrightarrow> run_ok k q \<Longrightarrow> run_ok l q" "on_cpu S c = None \<Longrightarrow> sched_ok k \<Longrightarrow> sched_ok l"
    and "\<And>ch. l = Sleep1 ch \<or> l = Sleep2 ch \<or> l = Sleep3 ch \<Longrightarrow> \<not> cond S ch"
    and "\<And>ch. k = Wake1 ch \<or> k = Wake2 ch \<Longrightarrow> l = Wake1 ch \<or> l = Wake2 ch"
  shows "mp_inv lk (move c l S)"
proof -
  have "owned (mach S) = (owned (mach S))(c := locks_at lk l)" using inv_owned(1) [OF assms(1), of c] assms(2,3) by (simp add: fun_upd_idem)
  from inv_quiet_move [OF assms(1) inv_owned(2) [OF assms(1)] this assms(3-)] show ?thesis by simp
qed

lemma good_sleep1:
  assumes "mp_inv lk S" "pc c S = Sleep1 ch"
  shows "good lk c S (next_piece m v lk c S)"
proof -
  obtain p where p: "on_cpu S c = Some p" using inv_process [OF assms(1), of c] assms(2) by auto
  have e: "next_piece m v lk c S = then_at c (Sleep2 ch) (if lk ch \<noteq> PT then on_mach (acquire m v c PT) S else Inr ((), S))"
    using inv_myproc(1) [OF assms(1), of c] assms(2) p by (simp add: next_piece_def sleep_acquire_def)
  note n = inv_cond [OF assms(1) disjI1 [OF assms(2)]]
  show ?thesis
  proof (cases "lk ch = PT")
    case True
    have "mp_inv lk (move c (Sleep2 ch) S)" by (rule inv_stay_move [OF assms(1) _ assms(2)]) (use True p n in auto)
    then show ?thesis using True by (simp add: e then_at_def)
  next
    case False
    have "good lk c S (then_at c (Sleep2 ch) (on_mach (acquire m v c PT) S))"
    proof (rule good_acquire [OF assms(1)])
      fix M assume "quiet M" "owned M = (owned (mach S))(c := insert PT (locks_at lk (pc c S)))"
      then show "mp_inv lk (move c (Sleep2 ch) (S\<lparr>mach := M\<rparr>))"
        by (intro inv_quiet_move [OF assms(1) _ _ assms(2)]) (use assms(2) p n in auto)
    qed (use False assms(2) in simp)
    then show ?thesis using False by (simp add: e)
  qed
qed

lemma good_sleep2:
  assumes "mp_inv lk S" "pc c S = Sleep2 ch"
  shows "good lk c S (next_piece m v lk c S)"
proof -
  note n = inv_cond [OF assms(1) disjI2 [OF assms(2)]]
  have e: "next_piece m v lk c S = then_at c (Sleep3 ch) (sleep_release c (lk ch) S)" using assms(2) by (simp add: next_piece_def)
  show ?thesis
  proof (cases "lk ch = PT")
    case True
    have "mp_inv lk (move c (Sleep3 ch) S)" by (rule inv_stay_move [OF assms(1) _ assms(2)]) (use True n in auto)
    then show ?thesis using True by (simp add: e sleep_release_def then_at_def)
  next
    case False
    then have d: "{PT, lk ch} - {lk ch} = {PT}" by auto
    have "good lk c S (then_at c (Sleep3 ch) (on_mach (release c (lk ch)) S))"
    proof (rule good_release [OF assms(1)])
      fix M assume "quiet M" "owned M = (owned (mach S))(c := locks_at lk (pc c S) - {lk ch})"
      then show "mp_inv lk (move c (Sleep3 ch) (S\<lparr>mach := M\<rparr>))"
        by (intro inv_quiet_move [OF assms(1) _ _ assms(2)]) (use assms(2) False n d in auto)
    qed (use assms(2) in simp)
    then show ?thesis using False by (simp add: e sleep_release_def)
  qed
qed

lemma good_sleep5:
  assumes "mp_inv lk S" "pc c S = Sleep5 ch"
  shows "good lk c S (next_piece m v lk c S)"
proof -
  have "good lk c S (then_at c (Held (lk ch)) (on_mach (acquire m v c (lk ch)) S))"
  proof (rule good_acquire [OF assms(1)])
    fix M assume "quiet M" "owned M = (owned (mach S))(c := insert (lk ch) (locks_at lk (pc c S)))"
    then show "mp_inv lk (move c (Held (lk ch)) (S\<lparr>mach := M\<rparr>))"
      by (intro inv_quiet_move [OF assms(1) _ _ assms(2)]) (use assms(2) in auto)
  qed (use assms(2) in simp)
  then show ?thesis using assms(2) by (simp add: next_piece_def)
qed

lemma good_wake1:
  assumes "mp_inv lk S" "pc c S = Wake1 ch"
  shows "good lk c S (next_piece m v lk c S)"
proof -
  have "good lk c S (then_at c (Wake2 ch) (on_mach (acquire m v c PT) S))"
  proof (rule good_acquire [OF assms(1)])
    show "PT \<notin> locks_at lk (pc c S)" using inv_lk [OF assms(1), of c ch] assms(2) by auto
    fix M assume "quiet M" "owned M = (owned (mach S))(c := insert PT (locks_at lk (pc c S)))"
    then show "mp_inv lk (move c (Wake2 ch) (S\<lparr>mach := M\<rparr>))"
      by (intro inv_quiet_move [OF assms(1) _ _ assms(2)]) (use assms(2) in auto)
  qed
  then show ?thesis using assms(2) by (simp add: next_piece_def)
qed

lemma good_wake3:
  assumes "mp_inv lk S" "pc c S = Wake3 ch"
  shows "good lk c S (next_piece m v lk c S)"
proof -
  note n = inv_lk [OF assms(1) disjI2 [OF assms(2)]]
  then have d: "{PT, lk ch} - {PT} = {lk ch}" by auto
  have "good lk c S (then_at c (Held (lk ch)) (on_mach (release c PT) S))"
  proof (rule good_release [OF assms(1)])
    fix M assume "quiet M" "owned M = (owned (mach S))(c := locks_at lk (pc c S) - {PT})"
    then show "mp_inv lk (move c (Held (lk ch)) (S\<lparr>mach := M\<rparr>))"
      by (intro inv_quiet_move [OF assms(1) _ _ assms(2)]) (use assms(2) d in auto)
  qed (use assms(2) in simp)
  then show ?thesis using assms(2) by (simp add: next_piece_def)
qed

lemma good_swapped:
  assumes "mp_inv lk S" "pc c S = Swapped r"
  shows "good lk c S (next_piece m v lk c S)"
proof -
  obtain p where p: "on_cpu S c = Some p" using inv_process [OF assms(1), of c] assms(2) by auto
  let ?M = "upd_cpu c (\<lambda>k. k\<lparr>intena := saved S p\<rparr>) (mach S)"
  have "owned (mach S) c = {PT}" using inv_owned(1) [OF assms(1), of c] assms(2) by simp
  then have "owned (mach S) = (owned (mach S))(c := {PT})" by (simp add: fun_upd_idem)
  moreover have "quiet ?M" "owned ?M = owned (mach S)"
    using quiet_cpu [OF inv_owned(2) [OF assms(1)], of "\<lambda>k. k\<lparr>intena := saved S p\<rparr>" c] quiet_ncli(2) [OF inv_owned(2) [OF assms(1)], of c]
    by (auto simp: cli_ok_def)
  ultimately have "mp_inv lk (move c (After r) (S\<lparr>mach := ?M\<rparr>))"
    by (intro inv_quiet_move [OF assms(1) _ _ assms(2)]) (use p in \<open>cases r; auto\<close>)+
  then show ?thesis using assms(2) p by (simp add: next_piece_def sched_restore_def)
qed

text \<open>Changes to the process's own entry, with \<open>ptable.lock\<close> held.\<close>

lemma asleep_upd:
  assumes "p < length (ptable k)" "asleep ch (upd_proc p f k)"
  shows "asleep ch k \<or> p_state (f (prc p k)) = SLEEPING \<and> p_chan (f (prc p k)) = Some ch"
  using assms by (auto simp: asleep_def split: if_splits)

lemma inv_own:
  assumes "mp_inv lk S" "on_cpu S c = Some p" "pc c S = k" "PT \<in> locks_at lk k" "quiet M" "owned M = (owned (mach S))(c := locks_at lk l)"
    and "run_ok k (prc p (tbl S)) \<Longrightarrow> run_ok l (f (prc p (tbl S)))"
    and "\<And>ch. l \<notin> {Wake1 ch, Wake2 ch, Wake3 ch, Sleep1 ch, Sleep2 ch, Sleep3 ch} \<and> k \<notin> {Wake1 ch, Wake2 ch}"
    and "\<And>ch. run_ok k (prc p (tbl S)) \<Longrightarrow> p_state (f (prc p (tbl S))) = SLEEPING \<Longrightarrow> p_chan (f (prc p (tbl S))) = Some ch \<Longrightarrow> k = Sleep3 ch"
  shows "mp_inv lk (move c l ((on_proc p f S)\<lparr>mach := M\<rparr>))"
proof -
  let ?T = "move c l ((on_proc p f S)\<lparr>mach := M\<rparr>)"
  have I: "cpu_inv lk S" "table_inv S" "wake_inv S" using assms(1) by (simp_all add: mp_inv_def)
  note J = table_invD [OF I(2)]
  have p: "p < length (ptable (tbl S))" and r: "run_ok k (prc p (tbl S))" using J(2,4) [OF assms(2)] assms(3) by simp_all
  have g: "on_cpu ?T = on_cpu S" "loc_of ?T = (loc_of S)(me c S := l)" by simp_all
  have "cpu_inv lk ?T" by (rule moved_cpu [OF I(1,2) g]) (use assms(5,6,8) in auto)
  moreover have "table_inv ?T"
    by (rule moved_table [OF I(2) g]) (use assms(2,7) p r J(1,7) in auto)
  moreover have "wake_inv ?T"
  proof (rule moved_wake [OF I(3,2) g])
    fix ch assume "asleep ch (tbl ?T)"
    then have "asleep ch (tbl S) \<or> k = Sleep3 ch" using asleep_upd [OF p, of ch f] assms(9) [OF r] by auto
    moreover have "pc d S \<noteq> Wake3 ch" if "d \<noteq> c" for d using inv_excl [OF assms(1) _ that, of PT] assms(3,4) by auto
    ultimately show "asleep ch (tbl S) \<or> pc c S = Sleep3 ch \<and> (\<forall>d. d \<noteq> c \<longrightarrow> pc d S \<noteq> Wake3 ch)" using assms(3) by blast
  qed (use assms(3,8) I(3) [unfolded wake_inv_def] in auto)
  ultimately show ?thesis by (simp add: mp_inv_def)
qed

lemma inv_own_stay:
  assumes "mp_inv lk S" "on_cpu S c = Some p" "pc c S = k" "locks_at lk k = {PT}" "locks_at lk l = {PT}"
    and "run_ok k (prc p (tbl S)) \<Longrightarrow> run_ok l (f (prc p (tbl S)))"
    and "\<And>ch. l \<notin> {Wake1 ch, Wake2 ch, Wake3 ch, Sleep1 ch, Sleep2 ch, Sleep3 ch} \<and> k \<notin> {Wake1 ch, Wake2 ch}"
    and "\<And>ch. run_ok k (prc p (tbl S)) \<Longrightarrow> p_state (f (prc p (tbl S))) = SLEEPING \<Longrightarrow> p_chan (f (prc p (tbl S))) = Some ch \<Longrightarrow> k = Sleep3 ch"
  shows "mp_inv lk (move c l (on_proc p f S))"
proof -
  have o: "owned (mach S) = (owned (mach S))(c := locks_at lk l)" using inv_owned(1) [OF assms(1), of c] assms(3-5) by (simp add: fun_upd_idem)
  have "PT \<in> locks_at lk k" using assms(4) by simp
  from inv_own [OF assms(1-3) this inv_owned(2) [OF assms(1)] o, where f = f, OF assms(6-8)] show ?thesis by (simp only: on_proc_mach)
qed

lemma good_sleep3:
  assumes "mp_inv lk S" "pc c S = Sleep3 ch"
  shows "good lk c S (next_piece m v lk c S)"
proof -
  obtain p where p: "on_cpu S c = Some p" using inv_process [OF assms(1), of c] assms(2) by auto
  have "mp_inv lk (move c (InSched (InSleep ch)) (on_proc p (\<lambda>q. q\<lparr>p_chan := Some ch, p_state := SLEEPING\<rparr>) S))"
    by (rule inv_own_stay [OF assms(1) p assms(2)]) auto
  then show ?thesis using assms(2) p by (simp add: next_piece_def sleep_mark_def)
qed

lemma good_yield1:
  assumes "mp_inv lk S" "pc c S = Yield1"
  shows "good lk c S (next_piece m v lk c S)"
proof -
  obtain p where p: "on_cpu S c = Some p" using inv_process [OF assms(1), of c] assms(2) by auto
  have "mp_inv lk (move c (InSched InYield) (on_proc p (\<lambda>q. q\<lparr>p_state := RUNNABLE\<rparr>) S))"
    by (rule inv_own_stay [OF assms(1) p assms(2)]) auto
  then show ?thesis using assms(2) p inv_myproc(1) [OF assms(1), of c] by (simp add: next_piece_def yield_mark_def then_at_def)
qed

lemma inv_exit:
  assumes "mp_inv lk S" "pc c S = Held PT" "on_cpu S c = Some p"
  shows "mp_inv lk (move c (InSched InExit) (exit_mark p S))"
  unfolding exit_mark_def by (rule inv_own_stay [OF assms(1,3,2)]) auto

lemma good_after_sleep:
  assumes "mp_inv lk S" "pc c S = After (InSleep ch)"
  shows "good lk c S (next_piece m v lk c S)"
proof -
  obtain p where p: "on_cpu S c = Some p" using inv_process [OF assms(1), of c] assms(2) by auto
  let ?S = "on_proc p (\<lambda>q. q\<lparr>p_chan := None\<rparr>) S"
  have e: "next_piece m v lk c S = then_at c (if lk ch = PT then Held PT else Sleep5 ch) (if lk ch \<noteq> PT then on_mach (release c PT) ?S else Inr ((), ?S))"
    using assms(2) p by (simp add: next_piece_def sleep_tidy_def Let_def)
  show ?thesis
  proof (cases "lk ch = PT")
    case True
    have "mp_inv lk (move c (Held PT) ?S)" by (rule inv_own_stay [OF assms(1) p assms(2)]) auto
    then show ?thesis using True by (simp add: e then_at_def)
  next
    case False
    obtain M where M: "release c PT (mach S) = Inr ((), M)" "quiet M" "owned M = (owned (mach S))(c := {})"
      using inv_released [OF assms(1), of PT c] assms(2) by auto
    have "on_mach (release c PT) ?S = Inr ((), ?S\<lparr>mach := M\<rparr>)" using M(1) by (simp add: on_mach_def)
    moreover have "mp_inv lk (move c (Sleep5 ch) (?S\<lparr>mach := M\<rparr>))" by (rule inv_own [OF assms(1) p assms(2) _ M(2)]) (use M(3) in auto)
    ultimately show ?thesis using False by (simp add: e then_at_def)
  qed
qed

text \<open>Changes to the entries of others.\<close>

lemma inv_others:
  assumes "mp_inv lk S" "pc c S = k" "PT \<in> locks_at lk k" "locks_at lk l = locks_at lk k" "length (ptable K) = length (ptable (tbl S))"
    and "\<And>p. p < length (ptable K) \<Longrightarrow> p_state (prc p K) = p_state (prc p (tbl S)) \<and> p_chan (prc p K) = p_chan (prc p (tbl S)) \<or>
      p_state (prc p (tbl S)) = SLEEPING \<and> p_state (prc p K) = RUNNABLE"
    and "\<And>ch. l = Wake3 ch \<Longrightarrow> lk ch \<noteq> PT \<and> \<not> asleep ch K" "\<And>ch. l \<notin> {Wake1 ch, Sleep1 ch, Sleep2 ch, Sleep3 ch, InSched (InSleep ch)}"
    and "\<And>q. run_ok k q \<Longrightarrow> p_state q = RUNNING \<and> run_ok l q" "sched_ok k \<Longrightarrow> sched_ok l"
    and "\<And>ch. k = Wake1 ch \<or> k = Wake2 ch \<Longrightarrow> l = Wake2 ch \<or> \<not> asleep ch K"
  shows "mp_inv lk (move c l (S\<lparr>tbl := K\<rparr>))"
proof -
  let ?T = "move c l (S\<lparr>tbl := K\<rparr>)"
  have I: "cpu_inv lk S" "table_inv S" "wake_inv S" using assms(1) by (simp_all add: mp_inv_def)
  note J = table_invD [OF I(2)] and ex = inv_excl [OF assms(1), of PT c, unfolded assms(2), OF assms(3)]
  have g: "on_cpu ?T = on_cpu S" "loc_of ?T = (loc_of S)(me c S := l)" by simp_all
  have run: "run_ok x (prc p K)" if "run_ok x (prc p (tbl S))" "p < length (ptable (tbl S))" "\<And>r. x \<noteq> InSched r" for x p
    using that assms(5) assms(6) [of p] by (cases x) auto
  have park: "parked_ok x (prc p K)" if "parked_ok x (prc p (tbl S))" "p < length (ptable (tbl S))" for x p
    using that assms(5) assms(6) [of p] by (cases "(x, prc p (tbl S))" rule: parked_ok.cases) auto
  have "cpu_inv lk ?T"
    by (rule moved_cpu [OF I(1,2) g])
      (use assms(2,4,7,8) inv_owned [OF assms(1)] in \<open>auto simp: fun_upd_idem\<close>)
  moreover have "table_inv ?T"
  proof (rule moved_table [OF I(2) g])
    fix p d assume d: "d \<noteq> c" "on_cpu S d = Some p" "run_ok (pc d S) (prc p (tbl S))"
    have "pc d S \<noteq> InSched r" for r using ex [OF d(1)] by auto
    then show "run_ok (pc d S) (prc p (tbl ?T))" using run [OF d(3) J(2) [OF d(2)]] by simp
  next
    fix p assume p: "on_cpu S c = Some p"
    have q: "p_state (prc p (tbl S)) = RUNNING" "run_ok l (prc p (tbl S))" using assms(9) J(4) [OF p] assms(2) by auto
    then have "l \<noteq> InSched r" for r by (cases r) auto
    then show "run_ok l (prc p (tbl ?T))" using run [OF q(2) J(2) [OF p]] by simp
  qed (use assms(2,5,10) J(5,7) park in auto)
  moreover have "wake_inv ?T"
  proof (rule moved_wake [OF I(3,2) g])
    fix ch assume "asleep ch (tbl ?T)"
    then obtain p where p: "p < length (ptable K)" "p_state (prc p K) = SLEEPING" "p_chan (prc p K) = Some ch" by (auto simp: asleep_def)
    then have "asleep ch (tbl S)" using assms(6) [OF p(1)] assms(5) by (auto simp: asleep_def)
    then show "asleep ch (tbl S) \<or> pc c S = Sleep3 ch \<and> (\<forall>d. d \<noteq> c \<longrightarrow> pc d S \<noteq> Wake3 ch)" ..
  next
    fix ch assume w: "pc c S = Wake1 ch \<or> pc c S = Wake2 ch"
    have "pc d S \<noteq> Sleep3 ch" if "d \<noteq> c" for d using ex [OF that] by auto
    then show "l = Wake1 ch \<or> l = Wake2 ch \<or> \<not> asleep ch (tbl ?T) \<and> (\<forall>d. d \<noteq> c \<longrightarrow> pc d S \<noteq> Sleep3 ch)"
      using assms(11) [of ch] w assms(2) by auto
  qed (use assms(7,8) I(3) [unfolded wake_inv_def] in auto)
  ultimately show ?thesis by (simp add: mp_inv_def)
qed

lemma good_wake2:
  assumes "mp_inv lk S" "pc c S = Wake2 ch"
  shows "good lk c S (next_piece m v lk c S)"
proof -
  let ?K = "wakeup1 (Some ch) (tbl S)"
  have n: "\<not> asleep ch ?K" by (auto simp: asleep_def prc_wakeup1 split: if_splits)
  have "mp_inv lk (move c (if lk ch = PT then Held PT else Wake3 ch) (S\<lparr>tbl := ?K\<rparr>))"
    by (rule inv_others [OF assms]) (use n in \<open>auto simp: prc_wakeup1 split: if_splits\<close>)
  then show ?thesis using assms(2) by (simp add: next_piece_def)
qed

lemma inv_kill:
  assumes "mp_inv lk S" "pc c S = Held PT"
  shows "mp_inv lk (S\<lparr>tbl := snd (kill n (tbl S))\<rparr>)"
proof -
  have i: "i < length (ptable (tbl S))" if "find_from (\<lambda>p. pid p = n) (ptable (tbl S)) 0 = Some i" for i
    using find_from_Some [OF that] by simp
  have e: "move c (Held PT) (S\<lparr>tbl := snd (kill n (tbl S))\<rparr>) = S\<lparr>tbl := snd (kill n (tbl S))\<rparr>"
    using assms(2) by (simp add: move_def pc_def me_def fun_upd_idem)
  have "mp_inv lk (move c (Held PT) (S\<lparr>tbl := snd (kill n (tbl S))\<rparr>))"
    by (rule inv_others [OF assms]) (use i in \<open>auto simp: kill_def split: option.splits if_splits\<close>)
  then show ?thesis unfolding e .
qed

text \<open>Switching between a process and the scheduler.\<close>

definition in_wake :: "loc \<Rightarrow> bool" where
  "in_wake l \<longleftrightarrow> (\<exists>ch. l \<in> {Sleep1 ch, Sleep2 ch, Sleep3 ch, Wake1 ch, Wake2 ch, Wake3 ch})"

lemma wake_same:
  assumes "wake_inv S" "\<And>d. d \<noteq> c \<Longrightarrow> pc d T = pc d S" "\<not> in_wake (pc c S)" "\<not> in_wake (pc c T)" "cond T = cond S"
    and "\<And>ch. asleep ch (tbl T) \<Longrightarrow> asleep ch (tbl S)"
  shows "wake_inv T"
proof -
  have p: "pc d T = x \<longleftrightarrow> pc d S = x" if "in_wake x" for d x using that assms(2) [of d] assms(3,4) by (cases "d = c") auto
  have w: "in_wake (Sleep1 ch)" "in_wake (Sleep2 ch)" "in_wake (Sleep3 ch)" "in_wake (Wake1 ch)" "in_wake (Wake2 ch)" "in_wake (Wake3 ch)" for ch
    by (auto simp: in_wake_def)
  show ?thesis using assms(1,6) unfolding wake_inv_def p [OF w(1)] p [OF w(2)] p [OF w(3)] p [OF w(4)] p [OF w(5)] p [OF w(6)] assms(5) by blast
qed

lemma inv_switch:
  assumes "mp_inv lk S" "pc c S = InSched r" "on_cpu S c = Some p"
  shows "mp_inv lk (S\<lparr>loc_of := (loc_of S)(PThread p := Swapped r), saved := v, on_cpu := (on_cpu S)(c := None)\<rparr>)" (is "mp_inv lk ?T")
proof -
  have I: "cpu_inv lk S" "table_inv S" "wake_inv S" using assms(1) by (simp_all add: mp_inv_def)
  note J = table_invD [OF I(2)]
  have m: "me d ?T = (if d = c then SThread c else me d S)" for d by (simp add: me_def)
  have n: "me d S \<noteq> PThread p" if "d \<noteq> c" for d using that J(1) [of d p c] assms(3) by (auto simp: me_def split: option.splits)
  have P: "pc d ?T = (if d = c then Loop else pc d S)" for d using n [of d] J(3) [OF assms(3)] by (simp add: pc_def m)
  have "cpu_inv lk ?T" using I(1) inv_owned(1) [OF assms(1), of c] assms(2) unfolding cpu_inv_def P by auto
  moreover have "wake_inv ?T"
    by (rule wake_same [OF I(3), where c = c]) (use assms(2) in \<open>auto simp: P in_wake_def\<close>)
  moreover have "table_inv ?T"
  proof -
    have st: "loc_of ?T (SThread d) = loc_of S (SThread d)" "loc_of ?T (PThread q) = (if q = p then Swapped r else loc_of S (PThread q))" for d q by simp_all
    have "parked_ok (Swapped r) (prc p (tbl S))" using J(4) [OF assms(3)] assms(2) by (cases r) auto
    moreover have "parked_ok (loc_of S (PThread q)) (prc q (tbl S))"
      if "q < length (ptable (tbl S))" "q \<noteq> p" "\<forall>d. on_cpu ?T d \<noteq> Some q" for q
    proof -
      have "on_cpu S d \<noteq> Some q" for d using that(2) spec [OF that(3), of d] assms(3) by (cases "d = c") auto
      then show ?thesis using J(6) [OF that(1)] by blast
    qed
    moreover have "run_ok (loc_of ?T (PThread q)) (prc q (tbl S))" if "on_cpu ?T d = Some q" for d q
      using that J(4) [of d q] n [of d] by (auto simp: pc_def me_def split: if_splits)
    moreover have "sched_ok (loc_of S (SThread d))" if "on_cpu ?T d = None" for d
      using that J(5) [of d] J(3) [OF assms(3)] by (auto simp: pc_def me_def split: if_splits)
    ultimately show ?thesis using J(1,2,3,7) unfolding table_inv_def by (auto split: if_splits)
  qed
  ultimately show ?thesis by (simp add: mp_inv_def)
qed

lemma good_insched:
  assumes "mp_inv lk S" "pc c S = InSched r"
  shows "good lk c S (next_piece m v lk c S)"
proof -
  obtain p where p: "on_cpu S c = Some p" "run_ok (pc c S) (prc p (tbl S))" using inv_process [OF assms(1), of c] assms(2) by auto
  have o: "owned (mach S) c = {PT}" using inv_owned(1) [OF assms(1), of c] assms(2) by simp
  note q = inv_owned(2) [OF assms(1)] and h = quiet_holding [of "mach S" c PT] and z = quiet_noted [of "mach S" c]
  let ?S = "move c (Swapped r) S"
  have mp: "myproc_on c ?S = Inr (on_cpu S c, ?S)" using inv_myproc(2) [OF assms(1), of c] assms(2) by simp
  have ru: "p_state (prc p (tbl S)) \<noteq> RUNNING" using p(2) assms(2) by (cases r) auto
  have me: "me c S = PThread p" using p(1) by (simp add: me_def)
  have "next_piece m v lk c S = Inr ((), S\<lparr>loc_of := (loc_of S)(PThread p := Swapped r), saved := (saved S)(p := intena (cpus (mach S) c)),
      on_cpu := (on_cpu S)(c := None)\<rparr>)"
    using q h z o quiet_ncli(1) [OF q, of c] ru assms(2) p(1) mp by (simp add: next_piece_def sched_swtch_def move_def me)
  then show ?thesis using inv_switch [OF assms p(1)] by simp
qed

lemma inv_dispatch:
  assumes "mp_inv lk S" "pc c S = Loop" "on_cpu S c = None" "p < length (ptable (tbl S))" "p_state (prc p (tbl S)) = RUNNABLE"
  shows "mp_inv lk (scheduler_pick c p S)"
proof -
  let ?T = "(on_proc p (\<lambda>q. q\<lparr>p_state := RUNNING\<rparr>) S)\<lparr>on_cpu := (on_cpu S)(c := Some p)\<rparr>"
  have I: "cpu_inv lk S" "table_inv S" "wake_inv S" using assms(1) by (simp_all add: mp_inv_def)
  note J = table_invD [OF I(2)]
  have n: "on_cpu S d \<noteq> Some p" for d
  proof
    assume d: "on_cpu S d = Some p"
    then have "pc d S = InSched InYield" using J(4) [OF d] assms(5) by (cases "(pc d S, prc p (tbl S))" rule: run_ok.cases) auto
    moreover have "d \<noteq> c" using d assms(3) by auto
    ultimately show False using inv_excl [OF assms(1), of PT c d] assms(2) by simp
  qed
  let ?l = "loc_of S (PThread p)"
  have k: "parked_ok ?l (prc p (tbl S))" using J(6) [OF assms(4)] n by blast
  have l: "locks_at lk ?l = {PT}" "\<not> in_wake ?l" "run_ok ?l ((prc p (tbl S))\<lparr>p_state := RUNNING\<rparr>)" "\<And>ch. ?l \<noteq> Wake1 ch \<and> ?l \<noteq> Wake3 ch"
    using k assms(5) by (cases "(?l, prc p (tbl S))" rule: parked_ok.cases, auto simp: in_wake_def)+
  have m: "me d ?T = (if d = c then PThread p else me d S)" for d by (simp add: me_def)
  have P: "pc d ?T = (if d = c then ?l else pc d S)" for d by (simp add: pc_def m)
  have "cpu_inv lk ?T" using I(1) inv_owned(1) [OF assms(1), of c] assms(2) l(1,4) unfolding cpu_inv_def P by auto
  moreover have "wake_inv ?T"
    by (rule wake_same [OF I(3), where c = c]) (use assms(2,4) l(2) in \<open>auto simp: P in_wake_def asleep_def split: if_splits\<close>)
  moreover have "table_inv ?T"
  proof -
    have "run_ok (loc_of S (PThread q)) (prc q (tbl ?T))" if "on_cpu ?T d = Some q" for d q
      using that J(4) [of d q] n [of d] l(3) assms(4) by (auto simp: pc_def me_def split: if_splits)
    moreover have "loc_of S (SThread d) = Loop" if "on_cpu ?T d = Some q" for d q
      using that J(3) [of d q] assms(2,3) by (auto simp: pc_def me_def split: if_splits)
    moreover have "sched_ok (loc_of S (SThread d))" if "on_cpu ?T d = None" for d
      using that J(5) [of d] by (auto simp: pc_def me_def split: if_splits)
    moreover have "parked_ok (loc_of S (PThread q)) (prc q (tbl ?T))"
      if "q < length (ptable (tbl S))" "\<forall>d. on_cpu ?T d \<noteq> Some q" for q
    proof -
      have "q \<noteq> p" using spec [OF that(2), of c] by auto
      moreover have "on_cpu S d \<noteq> Some q" for d using spec [OF that(2), of d] assms(3) by (cases "d = c") auto
      ultimately show ?thesis using J(6) [OF that(1)] assms(4) by simp
    qed
    ultimately show ?thesis using J(1,2,7) n assms(4) unfolding table_inv_def by (auto split: if_splits)
  qed
  ultimately show ?thesis by (simp add: mp_inv_def scheduler_pick_def)
qed

section \<open>The other steps\<close>

lemma pc_upd [simp]: "pc d (S\<lparr>mach := M\<rparr>) = pc d S" "pc d (S\<lparr>cond := b\<rparr>) = pc d S" "pc d (S\<lparr>tbl := k\<rparr>) = pc d S" "pc d (S\<lparr>rest := r\<rparr>) = pc d S"
  by (simp_all add: pc_def)

lemma move_pc: "pc c S = l \<Longrightarrow> move c l S = S"
  by (simp add: move_def pc_def fun_upd_idem)

lemma inv_flag:
  assumes "mp_inv lk S" "ncli (cpus (mach S) c) = 0"
  shows "mp_inv lk (S\<lparr>mach := upd_cpu c (\<lambda>k. k\<lparr>c_if := b\<rparr>) (mach S)\<rparr>)" (is "mp_inv lk (S\<lparr>mach := ?M\<rparr>)")
proof -
  note q = inv_owned(2) [OF assms(1)]
  have "quiet ?M" "owned ?M = owned (mach S)" using quiet_cpu [OF q, of "\<lambda>k. k\<lparr>c_if := b\<rparr>" c] assms(2) by simp_all
  then show ?thesis using assms(1) unfolding mp_inv_def cpu_inv_def table_inv_def wake_inv_def by simp
qed

lemma inv_rest:
  assumes "mp_inv lk S" "pc c S = Outer \<or> pc c S = Sleep5 ch" "l = Outer \<or> on_cpu S c \<noteq> None \<and> l \<in> range Sleep5"
    and "\<And>t. set (r t) \<subseteq> (case t of PThread p \<Rightarrow> insert Outer (range Sleep5) | SThread c \<Rightarrow> {Outer})"
  shows "mp_inv lk (move c l (S\<lparr>rest := r\<rparr>))" (is "mp_inv lk ?T")
proof -
  have I: "cpu_inv lk S" "table_inv S" "wake_inv S" using assms(1) by (simp_all add: mp_inv_def)
  note J = table_invD [OF I(2)]
  have g: "on_cpu ?T = on_cpu S" "loc_of ?T = (loc_of S)(me c S := l)" by simp_all
  have "cpu_inv lk ?T" by (rule moved_cpu [OF I(1,2) g]) (use assms(2,3) inv_owned [OF assms(1)] in \<open>auto simp: fun_upd_idem\<close>)
  moreover have "run_ok l (prc p (tbl S))" if "on_cpu S c = Some p" for p using J(4) [OF that] assms(2,3) by auto
  then have "table_inv ?T" by (intro moved_table [OF I(2) g]) (use assms(3,4) in auto)
  moreover have "wake_inv ?T"
    by (rule moved_wake [OF I(3,2) g]) (use assms(2,3) I(3) [unfolded wake_inv_def] in auto)
  ultimately show ?thesis by (simp add: mp_inv_def)
qed

lemma inv_intr:
  assumes "mp_inv lk S" "pc c S = Outer \<or> pc c S = Sleep5 ch"
  shows "mp_inv lk (move c Outer (S\<lparr>rest := (rest S)(me c S := pc c S # rest S (me c S))\<rparr>))"
proof (rule inv_rest [OF assms])
  have I: "table_inv S" using assms(1) by (simp add: mp_inv_def)
  fix t
  show "set (((rest S)(me c S := pc c S # rest S (me c S))) t) \<subseteq> (case t of PThread p \<Rightarrow> insert Outer (range Sleep5) | SThread c \<Rightarrow> {Outer})"
    using table_invD(7) [OF I, of t] table_invD(5) [OF I, of c] assms(2) by (auto simp: me_def split: thread.splits option.splits if_splits)
qed simp

lemma inv_iret:
  assumes "mp_inv lk S" "pc c S = Outer" "rest S (me c S) = l # ls"
  shows "mp_inv lk (move c l (S\<lparr>rest := (rest S)(me c S := ls)\<rparr>))"
proof (rule inv_rest [OF assms(1) disjI1 [OF assms(2)]])
  have I: "table_inv S" using assms(1) by (simp add: mp_inv_def)
  show "l = Outer \<or> on_cpu S c \<noteq> None \<and> l \<in> range Sleep5"
    using table_invD(7) [OF I, of "me c S"] assms(3) by (auto simp: me_def split: option.splits)
  fix t
  show "set (((rest S)(me c S := ls)) t) \<subseteq> (case t of PThread p \<Rightarrow> insert Outer (range Sleep5) | SThread c \<Rightarrow> {Outer})"
    using table_invD(7) [OF I, of t] assms(3) by (auto split: if_splits)
qed

lemma inv_cond_step:
  assumes "mp_inv lk S" "pc c S = Held (lk ch)"
  shows "mp_inv lk (move c (if lk ch = PT then Wake2 ch else Wake1 ch) (S\<lparr>cond := (cond S)(ch := True)\<rparr>))" "mp_inv lk (S\<lparr>cond := (cond S)(ch := False)\<rparr>)"
proof -
  have o: "owned (mach S) c = {lk ch}" using inv_owned(1) [OF assms(1), of c] assms(2) by simp
  have ex: "pc d S \<noteq> Sleep1 ch \<and> pc d S \<noteq> Sleep2 ch" if "d \<noteq> c" for d
    using inv_excl [OF assms(1) _ that, of "lk ch"] assms(2) by auto
  show "mp_inv lk (move c (if lk ch = PT then Wake2 ch else Wake1 ch) (S\<lparr>cond := (cond S)(ch := True)\<rparr>))"
    by (rule inv_moved [OF assms(1), where c = c and l = "if lk ch = PT then Wake2 ch else Wake1 ch"])
      (use assms(2) inv_owned(2) [OF assms(1)] o ex in \<open>auto simp: fun_upd_idem split: if_splits\<close>)
  have e: "move c (Held (lk ch)) (S\<lparr>cond := (cond S)(ch := False)\<rparr>) = S\<lparr>cond := (cond S)(ch := False)\<rparr>"
    by (rule move_pc) (simp add: assms(2))
  have "mp_inv lk (move c (Held (lk ch)) (S\<lparr>cond := (cond S)(ch := False)\<rparr>))"
    by (rule inv_moved [OF assms(1), where c = c and l = "Held (lk ch)"])
      (use assms(2) inv_owned(2) [OF assms(1)] o in \<open>auto simp: fun_upd_idem split: if_splits\<close>)
  then show "mp_inv lk (S\<lparr>cond := (cond S)(ch := False)\<rparr>)" unfolding e .
qed

lemma inv_waits:
  assumes "mp_inv lk S" "pc c S = Held (lk ch)" "\<not> cond S ch" "on_cpu S c \<noteq> None"
  shows "mp_inv lk (move c (Sleep1 ch) S)"
  by (rule inv_stay_move [OF assms(1) _ assms(2)]) (use assms(3,4) in auto)

lemma good_piece:
  assumes "mp_inv lk S"
  shows "good lk c S (next_piece m v lk c S)"
proof (cases "pc c S")
  case (After r)
  show ?thesis
  proof (cases r)
    case InYield
    obtain M where M: "on_mach (release c PT) S = Inr ((), S\<lparr>mach := M\<rparr>)" using inv_released [OF assms, of PT c] After InYield by auto
    then show ?thesis using inv_unlock [OF assms _ M] After InYield by (simp add: next_piece_def then_at_def)
  next
    case InExit
    then show ?thesis using inv_process [OF assms, of c] After by auto
  qed (use good_after_sleep [OF assms] After in simp)
qed (use assms good_sleep1 good_sleep2 good_sleep3 good_sleep5 good_insched good_swapped good_wake1 good_wake2 good_wake3 good_yield1
     in \<open>simp_all add: next_piece_def\<close>)

lemma inv_mstep:
  assumes "mp_inv lk S" "mstep m v lk S T"
  shows "mp_inv lk T"
  using assms(2)
proof (cases rule: mstep.cases)
  case (piece c)
  then show ?thesis using good_piece [OF assms(1), of c m v] by simp
next
  case (flag c b)
  then show ?thesis using inv_flag [OF assms(1)] by simp
next
  case (intr c ch)
  then show ?thesis using inv_intr [OF assms(1) intr(2)] by simp
next
  case (iret c l ls)
  then show ?thesis using inv_iret [OF assms(1) iret(2,3)] by simp
next
  case (lock c l U)
  then show ?thesis using inv_lock(1) [OF assms(1) lock(2,3)] by simp
next
  case (unlock c l U)
  then show ?thesis using inv_unlock [OF assms(1) disjI1 [OF unlock(2)] unlock(3)] by simp
next
  case (make c ch)
  then show ?thesis using inv_cond_step(1) [OF assms(1) make(2)] by simp
next
  case (undo c ch)
  then show ?thesis using inv_cond_step(2) [OF assms(1) undo(2)] by simp
next
  case (wait c ch)
  then show ?thesis using inv_waits [OF assms(1) wait(2-4)] by simp
next
  case (kill c n)
  then show ?thesis using inv_kill [OF assms(1) kill(2)] by simp
next
  case (exit c p)
  then show ?thesis using inv_exit [OF assms(1) exit(2,3)] by simp
next
  case (yield c U)
  then show ?thesis using inv_lock(2) [OF assms(1) yield(2,4,3) refl] by simp
next
  case (loop c U)
  then show ?thesis using inv_lock(3) [OF assms(1) loop(2,5,3) refl] by simp
next
  case (dispatch c p)
  then show ?thesis using inv_dispatch [OF assms(1) dispatch(2-5)] by simp
next
  case (pass c U)
  then show ?thesis using inv_unlock [OF assms(1) _ pass(4)] by simp
qed

lemma inv_mstart:
  assumes "mstart S"
  shows "mp_inv lk S"
proof -
  note s = assms [unfolded mstart_def]
  have p: "pc c S = Outer" for c using s by (simp add: pc_def me_def)
  have l: "lstart (mach S)" using s by (elim conjE)
  have "owned (mach S) c = {}" for c using l by (auto simp: owned_def owners_def lstart_def)
  then have "cpu_inv lk S" using inv_start [OF l] l by (simp add: cpu_inv_def quiet_def p lstart_def)
  moreover have "table_inv S" using s by (auto simp: table_inv_def)
  moreover have "\<not> asleep ch (tbl S)" for ch using s by (auto simp: asleep_def)
  then have "wake_inv S" by (simp add: wake_inv_def p)
  ultimately show ?thesis by (simp add: mp_inv_def)
qed

lemma mreach_inv: "mreach m v lk S \<Longrightarrow> mp_inv lk S"
  by (induction rule: mreach.induct) (auto intro: inv_mstart inv_mstep)

section \<open>Properties\<close>

text \<open>
  Property C23 (no lost wakeup). Take any number of processors and processes that use channels as described above, with preemption,
  interrupt handlers, \<open>kill\<close> and \<open>exit\<close> at any time. In every state they can reach: if a process is asleep on a channel whose
  condition holds, then some processor is inside the \<open>wakeup\<close> of this channel and has not called \<open>wakeup1\<close> yet. Once a \<open>wakeup\<close> has called
  \<open>wakeup1\<close>, nobody is asleep on its channel until it releases \<open>ptable.lock\<close>. No process runs on two processors, and the processes
  marked \<open>RUNNING\<close> are on one. No piece of \<open>sleep\<close>, \<open>wakeup\<close>, \<open>yield\<close> or \<open>sched\<close> panics (none of the checks of \<open>sched\<close> fails, no
  exited process comes back); a piece that does not end waits for a lock that another processor has. Sections of locks can be left.
\<close>

theorem sleep_no_lost_wakeup:
  assumes "mreach m v lk S"
  shows "(\<forall>ch. cond S ch \<and> asleep ch (tbl S) \<longrightarrow> (\<exists>c. pc c S = Wake1 ch \<or> pc c S = Wake2 ch)) \<and>
    (\<forall>c ch. pc c S = Wake3 ch \<longrightarrow> \<not> asleep ch (tbl S)) \<and>
    (\<forall>c d p. on_cpu S c = Some p \<and> on_cpu S d = Some p \<longrightarrow> c = d) \<and>
    (\<forall>p < length (ptable (tbl S)). p_state (prc p (tbl S)) = RUNNING \<longrightarrow> (\<exists>c. on_cpu S c = Some p)) \<and>
    (\<forall>c f. next_piece m v lk c S = Inl f \<longrightarrow> f = Diverge \<and> (\<exists>d l. d \<noteq> c \<and> l \<in> owned (mach S) d)) \<and>
    (\<forall>c l. pc c S = Held l \<or> pc c S = Loop \<and> l = PT \<longrightarrow> (\<exists>M. release c l (mach S) = Inr ((), M)))"
proof -
  note i = mreach_inv [OF assms]
  have I: "table_inv S" "wake_inv S" using i by (simp_all add: mp_inv_def)
  have "\<exists>c. on_cpu S c = Some p" if "p < length (ptable (tbl S))" "p_state (prc p (tbl S)) = RUNNING" for p
  proof (rule ccontr)
    assume "\<not> (\<exists>c. on_cpu S c = Some p)"
    then have "parked_ok (loc_of S (PThread p)) (prc p (tbl S))" using table_invD(6) [OF I(1) that(1)] by blast
    then show False using that(2) by (cases "(loc_of S (PThread p), prc p (tbl S))" rule: parked_ok.cases) auto
  qed
  moreover have "f = Diverge \<and> (\<exists>d l. d \<noteq> c \<and> l \<in> owned (mach S) d)" if "next_piece m v lk c S = Inl f" for c f
    using good_piece [OF i, of c m v] that by (simp add: good_def)
  moreover have "\<exists>M. release c l (mach S) = Inr ((), M)" if "pc c S = Held l \<or> pc c S = Loop \<and> l = PT" for c l
    using inv_released [OF i, of l c] that by auto
  ultimately show ?thesis using table_invD(1) [OF I(1)] I(2) unfolding wake_inv_def by blast
qed

text \<open>A run in which the condition becomes true while a process is on its way into sleep, behind the release of its lock.\<close>

definition seen :: "(nat \<Rightarrow> nat option) \<Rightarrow> (thread \<Rightarrow> loc) \<Rightarrow> kernel \<Rightarrow> (chan \<Rightarrow> bool) \<Rightarrow> bool" where
  "seen f L k b \<longleftrightarrow> (\<exists>S. mreach (\<lambda>_. 0) 0 (\<lambda>_. 1) S \<and> on_cpu S = f \<and> loc_of S = L \<and> tbl S = k \<and> cond S = b \<and> (\<forall>t. rest S t = []))"

definition th :: "(nat \<Rightarrow> nat option) \<Rightarrow> nat \<Rightarrow> thread" where
  "th f c = (case f c of None \<Rightarrow> SThread c | Some p \<Rightarrow> PThread p)"

lemma seen_step:
  assumes "seen f L k b"
    and "\<And>S. mreach (\<lambda>_. 0) 0 (\<lambda>_. 1) S \<Longrightarrow> on_cpu S = f \<Longrightarrow> loc_of S = L \<Longrightarrow> tbl S = k \<Longrightarrow> cond S = b \<Longrightarrow> \<forall>t. rest S t = [] \<Longrightarrow>
      \<exists>T. mstep (\<lambda>_. 0) 0 (\<lambda>_. 1) S T \<and> on_cpu T = f' \<and> loc_of T = L' \<and> tbl T = k' \<and> cond T = b' \<and> (\<forall>t. rest T t = [])"
  shows "seen f' L' k' b'"
  using assms mreach.step unfolding seen_def by blast

lemma free_lock:
  assumes "mreach m v lk S" "\<And>d. l \<notin> locks_at lk (pc d S)"
  shows "\<exists>M. on_mach (acquire m v c l) S = Inr ((), S\<lparr>mach := M\<rparr>)"
proof -
  note i = mreach_inv [OF assms(1)]
  show ?thesis using quiet_acquire [OF inv_owned(2) [OF i], of l c m v] assms(2) inv_owned(1) [OF i] by (auto simp: on_mach_def)
qed

lemma seen_acquire:
  assumes "seen f L k b" "\<And>d. l \<notin> locks_at (\<lambda>_. 1) (L (th f d))" "L (th f c) = Outer"
  shows "seen f (L(th f c := Held l)) k b" "f c = None \<Longrightarrow> l = PT \<Longrightarrow> seen f (L(th f c := Loop)) k b"
proof -
  have t: "\<exists>M. on_mach (acquire (\<lambda>_. 0) 0 c l) S = Inr ((), S\<lparr>mach := M\<rparr>) \<and> pc c S = Outer \<and> me c S = th f c"
    if "mreach (\<lambda>_. 0) 0 (\<lambda>_. 1) S" "on_cpu S = f" "loc_of S = L" for S
    using free_lock [OF that(1)] assms(2,3) that(2,3) by (simp add: pc_def me_def th_def)
  show "seen f (L(th f c := Held l)) k b"
    using t mstep.lock [of c _ "\<lambda>_. 0" 0 l _ "\<lambda>_. 1"] by (intro seen_step [OF assms(1)]) fastforce
  show "f c = None \<Longrightarrow> l = PT \<Longrightarrow> seen f (L(th f c := Loop)) k b"
    using t mstep.loop [of c _ "\<lambda>_. 0" 0 _ "\<lambda>_. 1"] by (intro seen_step [OF assms(1)]) fastforce
qed

lemma seen_piece:
  assumes "seen f L k b"
    and "\<And>S. mreach (\<lambda>_. 0) 0 (\<lambda>_. 1) S \<Longrightarrow> on_cpu S = f \<Longrightarrow> pc c S = L (th f c) \<Longrightarrow> loc_of S = L \<Longrightarrow> tbl S = k \<Longrightarrow>
      \<exists>M. next_piece (\<lambda>_. 0) 0 (\<lambda>_. 1) c S = Inr ((), move c l (S\<lparr>mach := M, tbl := k'\<rparr>))"
  shows "seen f (L(th f c := l)) k' b"
proof (rule seen_step [OF assms(1)])
  fix S assume S: "mreach (\<lambda>_. 0) 0 (\<lambda>_. 1) S" "on_cpu S = f" "loc_of S = L" "tbl S = k" "cond S = b" "\<forall>t. rest S t = []"
  have m: "me c S = th f c" "pc c S = L (th f c)" using S(2,3) by (simp_all add: pc_def me_def th_def)
  obtain M where n: "next_piece (\<lambda>_. 0) 0 (\<lambda>_. 1) c S = Inr ((), move c l (S\<lparr>mach := M, tbl := k'\<rparr>))" using assms(2) S m by blast
  show "\<exists>T. mstep (\<lambda>_. 0) 0 (\<lambda>_. 1) S T \<and> on_cpu T = f \<and> loc_of T = L(th f c := l) \<and> tbl T = k' \<and> cond T = b \<and> (\<forall>t. rest T t = [])"
    by (rule exI [of _ "move c l (S\<lparr>mach := M, tbl := k'\<rparr>)"]) (use mstep.piece [OF n] S m in simp)
qed

lemma same_tbl: "S\<lparr>mach := M, tbl := tbl S\<rparr> = (S\<lparr>mach := M\<rparr> :: mp)" "S\<lparr>mach := mach S, tbl := k\<rparr> = (S\<lparr>tbl := k\<rparr> :: mp)"
  by simp_all

lemma seen_forkret:
  assumes "seen f L k b" "L (th f c) = After InYield"
  shows "seen f (L(th f c := Outer)) k b"
proof (rule seen_piece [OF assms(1)])
  fix S assume S: "mreach (\<lambda>_. 0) 0 (\<lambda>_. 1) S" "pc c S = L (th f c)" "tbl S = k"
  obtain M where "on_mach (release c PT) S = Inr ((), S\<lparr>mach := M\<rparr>)" using inv_released [OF mreach_inv [OF S(1)], of PT c] S(2) assms(2) by auto
  then have "next_piece (\<lambda>_. 0) 0 (\<lambda>_. 1) c S = Inr ((), move c Outer (S\<lparr>mach := M, tbl := k\<rparr>))"
    using S(2,3) assms(2) same_tbl(1) [of S M] by (simp add: next_piece_def then_at_def)
  then show "\<exists>M. next_piece (\<lambda>_. 0) 0 (\<lambda>_. 1) c S = Inr ((), move c Outer (S\<lparr>mach := M, tbl := k\<rparr>))" ..
qed

lemma seen_sleep1:
  assumes "seen f L k b" "L (th f c) = Sleep1 ch" "f c = Some p" "\<And>d. PT \<notin> locks_at (\<lambda>_. 1) (L (th f d))"
  shows "seen f (L(th f c := Sleep2 ch)) k b"
proof (rule seen_piece [OF assms(1)])
  fix S assume S: "mreach (\<lambda>_. 0) 0 (\<lambda>_. 1) S" "on_cpu S = f" "pc c S = L (th f c)" "loc_of S = L" "tbl S = k"
  have "PT \<notin> locks_at (\<lambda>_. 1) (pc d S)" for d using assms(4) [of d] S(2,4) by (simp add: pc_def me_def th_def)
  then obtain M where "on_mach (acquire (\<lambda>_. 0) 0 c PT) S = Inr ((), S\<lparr>mach := M\<rparr>)" using free_lock [OF S(1)] by blast
  then have "next_piece (\<lambda>_. 0) 0 (\<lambda>_. 1) c S = Inr ((), move c (Sleep2 ch) (S\<lparr>mach := M, tbl := k\<rparr>))"
    using S(2,3,5) assms(2,3) inv_myproc(1) [OF mreach_inv [OF S(1)], of c] same_tbl(1) [of S M]
    by (simp add: next_piece_def sleep_acquire_def then_at_def)
  then show "\<exists>M. next_piece (\<lambda>_. 0) 0 (\<lambda>_. 1) c S = Inr ((), move c (Sleep2 ch) (S\<lparr>mach := M, tbl := k\<rparr>))" ..
qed

lemma seen_sleep2:
  assumes "seen f L k b" "L (th f c) = Sleep2 ch"
  shows "seen f (L(th f c := Sleep3 ch)) k b"
proof (rule seen_piece [OF assms(1)])
  fix S assume S: "mreach (\<lambda>_. 0) 0 (\<lambda>_. 1) S" "pc c S = L (th f c)" "tbl S = k"
  obtain M where "on_mach (release c 1) S = Inr ((), S\<lparr>mach := M\<rparr>)" using inv_released [OF mreach_inv [OF S(1)], of 1 c] S(2) assms(2) by auto
  then have "next_piece (\<lambda>_. 0) 0 (\<lambda>_. 1) c S = Inr ((), move c (Sleep3 ch) (S\<lparr>mach := M, tbl := k\<rparr>))"
    using S(2,3) assms(2) same_tbl(1) [of S M] by (simp add: next_piece_def sleep_release_def then_at_def)
  then show "\<exists>M. next_piece (\<lambda>_. 0) 0 (\<lambda>_. 1) c S = Inr ((), move c (Sleep3 ch) (S\<lparr>mach := M, tbl := k\<rparr>))" ..
qed

lemma seen_sleep3:
  assumes "seen f L k b" "L (th f c) = Sleep3 ch" "f c = Some p"
  shows "seen f (L(th f c := InSched (InSleep ch))) (upd_proc p (\<lambda>q. q\<lparr>p_chan := Some ch, p_state := SLEEPING\<rparr>) k) b" (is "seen _ _ ?k _")
proof (rule seen_piece [OF assms(1)])
  fix S assume S: "on_cpu S = f" "pc c S = L (th f c)" "tbl S = k"
  have "next_piece (\<lambda>_. 0) 0 (\<lambda>_. 1) c S = Inr ((), move c (InSched (InSleep ch)) (S\<lparr>mach := mach S, tbl := ?k\<rparr>))"
    unfolding same_tbl(2) using S assms(2,3) by (simp add: next_piece_def sleep_mark_def on_proc_def)
  then show "\<exists>M. next_piece (\<lambda>_. 0) 0 (\<lambda>_. 1) c S = Inr ((), move c (InSched (InSleep ch)) (S\<lparr>mach := M, tbl := ?k\<rparr>))" ..
qed

lemma seen_wait:
  assumes "seen f L k b" "L (th f c) = Held 1" "\<not> b ch" "f c \<noteq> None"
  shows "seen f (L(th f c := Sleep1 ch)) k b"
proof (rule seen_step [OF assms(1)])
  fix S :: mp assume S: "on_cpu S = f" "loc_of S = L" "tbl S = k" "cond S = b" "\<forall>t. rest S t = []"
  have m: "me c S = th f c" "pc c S = Held 1" using S(1,2) assms(2) by (simp_all add: pc_def me_def th_def)
  then show "\<exists>T. mstep (\<lambda>_. 0) 0 (\<lambda>_. 1) S T \<and> on_cpu T = f \<and> loc_of T = L(th f c := Sleep1 ch) \<and> tbl T = k \<and> cond T = b \<and> (\<forall>t. rest T t = [])"
    using mstep.wait [of c S "\<lambda>_. 1" ch "\<lambda>_. 0" 0] S assms(3,4) by (intro exI [of _ "move c (Sleep1 ch) S"]) simp
qed

lemma seen_make:
  assumes "seen f L k b" "L (th f c) = Held 1"
  shows "seen f (L(th f c := Wake1 ch)) k (b(ch := True))"
proof (rule seen_step [OF assms(1)])
  fix S :: mp assume S: "on_cpu S = f" "loc_of S = L" "tbl S = k" "cond S = b" "\<forall>t. rest S t = []"
  have m: "me c S = th f c" "pc c S = Held 1" using S(1,2) assms(2) by (simp_all add: pc_def me_def th_def)
  then show "\<exists>T. mstep (\<lambda>_. 0) 0 (\<lambda>_. 1) S T \<and> on_cpu T = f \<and> loc_of T = L(th f c := Wake1 ch) \<and> tbl T = k \<and> cond T = b(ch := True) \<and> (\<forall>t. rest T t = [])"
    using mstep.make [of c S "\<lambda>_. 1" ch "\<lambda>_. 0" 0] S by (intro exI [of _ "move c (Wake1 ch) (S\<lparr>cond := (cond S)(ch := True)\<rparr>)"]) simp
qed

lemma seen_dispatch:
  assumes "seen f L k b" "L (SThread c) = Loop" "f c = None" "p < length (ptable k)" "p_state (prc p k) = RUNNABLE"
  shows "seen (f(c := Some p)) L (upd_proc p (\<lambda>q. q\<lparr>p_state := RUNNING\<rparr>) k) b"
proof (rule seen_step [OF assms(1)])
  fix S :: mp assume S: "on_cpu S = f" "loc_of S = L" "tbl S = k" "cond S = b" "\<forall>t. rest S t = []"
  have "pc c S = Loop" using S(1,2) assms(2,3) by (simp add: pc_def me_def)
  then show "\<exists>T. mstep (\<lambda>_. 0) 0 (\<lambda>_. 1) S T \<and> on_cpu T = f(c := Some p) \<and> loc_of T = L \<and> tbl T = upd_proc p (\<lambda>q. q\<lparr>p_state := RUNNING\<rparr>) k \<and>
      cond T = b \<and> (\<forall>t. rest T t = [])"
    using mstep.dispatch [of c S p "\<lambda>_. 0" 0 "\<lambda>_. 1"] S assms(3-5)
    by (intro exI [of _ "scheduler_pick c p S"]) (simp add: scheduler_pick_def)
qed

definition demo_mp :: mp where
  "demo_mp = \<lparr>tbl = demo_kernel, mach = demo_machine, on_cpu = \<lambda>_. None, saved = \<lambda>_. False,
     loc_of = \<lambda>t. case t of PThread _ \<Rightarrow> After InYield | SThread _ \<Rightarrow> Outer, rest = \<lambda>_. [], cond = \<lambda>_. False\<rparr>"

lemma demo_run:
  "\<exists>S. mreach (\<lambda>_. 0) 0 (\<lambda>_. 1) S \<and> cond S ChTicks \<and> asleep ChTicks (tbl S)"
proof -
  let ?f = "\<lambda>_ :: nat. None :: nat option" and ?L = "\<lambda>t. case t of PThread _ \<Rightarrow> After InYield | SThread _ \<Rightarrow> Outer" and ?b = "\<lambda>_ :: chan. False"
  let ?g = "?f(0 := Some 0)" and ?k = "upd_proc 0 (\<lambda>q. q\<lparr>p_state := RUNNING\<rparr>) demo_kernel"
  have t: "th ?g d = (if d = 0 then PThread 0 else SThread d)" "th ?f d = SThread d" for d by (simp_all add: th_def)
  have k: "0 < length (ptable demo_kernel)" "p_state (prc 0 demo_kernel) = RUNNABLE" by (simp_all add: demo_kernel_def prc_def)
  have "mstart demo_mp"
    by (auto simp: mstart_def demo_mp_def lstart_def demo_machine_def demo_kernel_def prc_def)
  then have "seen ?f ?L demo_kernel ?b"
    unfolding seen_def by (intro exI [of _ demo_mp] conjI, intro mreach.start) (simp_all add: demo_mp_def)
  from seen_acquire(2) [OF this, of PT 0] have "seen ?f (?L(SThread 0 := Loop)) demo_kernel ?b" (is "seen _ ?L1 _ _") by (simp add: t)
  from seen_dispatch [OF this, of 0 0] k have "seen ?g ?L1 ?k ?b" by simp
  from seen_forkret [OF this, of 0] have "seen ?g (?L1(PThread 0 := Outer)) ?k ?b" (is "seen _ ?L2 _ _") by (simp add: t)
  from seen_acquire(1) [OF this, of 1 0] have "seen ?g (?L2(PThread 0 := Held 1)) ?k ?b" (is "seen _ ?L3 _ _") by (simp add: t)
  from seen_wait [OF this, of 0 ChTicks] have "seen ?g (?L3(PThread 0 := Sleep1 ChTicks)) ?k ?b" (is "seen _ ?L4 _ _") by (simp add: t)
  from seen_sleep1 [OF this, of 0 ChTicks 0] have "seen ?g (?L4(PThread 0 := Sleep2 ChTicks)) ?k ?b" (is "seen _ ?L5 _ _") by (simp add: t)
  from seen_sleep2 [OF this, of 0 ChTicks] have "seen ?g (?L5(PThread 0 := Sleep3 ChTicks)) ?k ?b" (is "seen _ ?L6 _ _") by (simp add: t)
  from seen_acquire(1) [OF this, of 1 1] have "seen ?g (?L6(SThread 1 := Held 1)) ?k ?b" (is "seen _ ?L7 _ _") by (simp add: t)
  from seen_make [OF this, of 1 ChTicks] have "seen ?g (?L7(SThread 1 := Wake1 ChTicks)) ?k (?b(ChTicks := True))" (is "seen _ ?L8 _ _") by (simp add: t)
  from seen_sleep3 [OF this, of 0 ChTicks 0]
  have "seen ?g (?L8(PThread 0 := InSched (InSleep ChTicks))) (upd_proc 0 (\<lambda>q. q\<lparr>p_chan := Some ChTicks, p_state := SLEEPING\<rparr>) ?k) (?b(ChTicks := True))"
    (is "seen _ _ ?k' _") by (simp add: t)
  moreover have "asleep ChTicks ?k'" using k unfolding asleep_def by (intro exI [of _ 0]) simp
  ultimately show ?thesis unfolding seen_def by auto
qed

theorem sleep_no_lost_wakeup_witness:
  "\<exists>S c. mreach (\<lambda>_. 0) 0 (\<lambda>_. 1) S \<and> cond S ChTicks \<and> asleep ChTicks (tbl S) \<and> (pc c S = Wake1 ChTicks \<or> pc c S = Wake2 ChTicks)"
proof -
  obtain S where S: "mreach (\<lambda>_. 0) 0 (\<lambda>_. 1) S" "cond S ChTicks" "asleep ChTicks (tbl S)" using demo_run by blast
  then show ?thesis using sleep_no_lost_wakeup [OF S(1)] by blast
qed

end
