(* ===== verification/Sleeplock.thy ===== *)
theory Sleeplock
  imports Sched
begin

text \<open>
  Sleep locks (\<open>sleeplock.c\<close>) on top of \<open>sleep\<close> and \<open>wakeup\<close>. A process that finds the lock taken leaves \<open>acquiresleep\<close> in
  the middle of its loop: the result says whether the lock was taken (true) or the process went to sleep (false). When it is
  resumed it is behind \<open>sleep\<close> in that loop, and runs \<open>acquiresleep_again\<close>. The spin lock inside the sleep lock is a flag, as everywhere
  on one processor; \<open>Spinlock\<close> has the spin locks themselves.

  The relation \<open>slstep\<close> lets the processes call these operations in any order, be preempted and be killed. The
  lemmas: one holder per lock, no process asleep on a free lock.
\<close>

section \<open>Operations\<close>

record sleeplock =
  sl_locked :: u32
  sl_lk :: bool
  sl_name :: string
  sl_pid :: int

type_synonym slocks = "nat \<Rightarrow> sleeplock"

definition initsleeplock :: "nat \<Rightarrow> string \<Rightarrow> slocks \<Rightarrow> slocks" where
  "initsleeplock l name ks = ks(l := \<lparr>sl_locked = 0, sl_lk = False, sl_name = name, sl_pid = 0\<rparr>)"

definition lock_sl :: "nat \<Rightarrow> slocks \<Rightarrow> slocks res" where
  "lock_sl l ks = (if sl_lk (ks l) then Inl (Panic ''acquire'') else Inr (ks(l := (ks l)\<lparr>sl_lk := True\<rparr>)))"

definition unlock_sl :: "nat \<Rightarrow> slocks \<Rightarrow> slocks res" where
  "unlock_sl l ks = (if sl_lk (ks l) then Inr (ks(l := (ks l)\<lparr>sl_lk := False\<rparr>)) else Inl (Panic ''release''))"

text \<open>The loop of \<open>acquiresleep\<close> from its test on, with the inner lock held.\<close>

definition acquiresleep_test :: "nat \<Rightarrow> slocks \<Rightarrow> kernel \<Rightarrow> (bool \<times> slocks \<times> kernel) res" where
  "acquiresleep_test l ks s =
    (if sl_locked (ks l) \<noteq> 0
     then if curp s = None then Inl (Panic ''sleep'')
          else bindr (unlock_sl l ks) (\<lambda>ks.
               bindr (sleep_begin (ChLock l) s) (\<lambda>(_, s). Inr (False, ks, s)))
     else bindr (myproc s) (\<lambda>p.
          bindr (unlock_sl l (ks(l := (ks l)\<lparr>sl_locked := 1, sl_pid := pid (prc p s)\<rparr>))) (\<lambda>ks.
          Inr (True, ks, s))))"

definition acquiresleep :: "nat \<Rightarrow> slocks \<Rightarrow> kernel \<Rightarrow> (bool \<times> slocks \<times> kernel) res" where
  "acquiresleep l ks s = bindr (lock_sl l ks) (\<lambda>ks. acquiresleep_test l ks s)"

text \<open>The rest of \<open>sleep\<close> takes the inner lock again.\<close>

definition acquiresleep_again :: "nat \<Rightarrow> nat \<Rightarrow> slocks \<Rightarrow> kernel \<Rightarrow> (bool \<times> slocks \<times> kernel) res" where
  "acquiresleep_again p l ks s = bindr (lock_sl l ks) (\<lambda>ks. acquiresleep_test l ks (sleep_end p s))"

definition releasesleep :: "nat \<Rightarrow> slocks \<Rightarrow> kernel \<Rightarrow> (slocks \<times> kernel) res" where
  "releasesleep l ks s =
     bindr (lock_sl l ks) (\<lambda>ks.
     let ks = ks(l := (ks l)\<lparr>sl_locked := 0, sl_pid := 0\<rparr>);
         s = wakeup (ChLock l) s
     in bindr (unlock_sl l ks) (\<lambda>ks. Inr (ks, s)))"

definition holdingsleep :: "nat \<Rightarrow> slocks \<Rightarrow> kernel \<Rightarrow> (bool \<times> slocks) res" where
  "holdingsleep l ks s =
     bindr (lock_sl l ks) (\<lambda>ks.
     bindr (if sl_locked (ks l) \<noteq> 0 then bindr (myproc s) (\<lambda>p. Inr (sl_pid (ks l) = pid (prc p s))) else Inr False) (\<lambda>r.
     bindr (unlock_sl l ks) (\<lambda>ks. Inr (r, ks))))"

section \<open>Interleavings\<close>

text \<open>\<open>held p\<close> are the locks that process \<open>p\<close> has acquired and not released.\<close>

record slsys =
  sk :: kernel
  sls :: slocks
  held :: "nat \<Rightarrow> nat set"

definition off_cpu :: "kernel \<Rightarrow> kernel" where
  "off_cpu s = (switchkvm s)\<lparr>curp := None\<rparr>"

inductive slstep :: "conf \<Rightarrow> slsys \<Rightarrow> slsys \<Rightarrow> bool" for C where
  run: "curp (sk S) = None \<Longrightarrow> p < length (ptable (sk S)) \<Longrightarrow> p_state (prc p (sk S)) = RUNNABLE \<Longrightarrow>
    dispatch C p (sk S) = Inr ((), s) \<Longrightarrow> slstep C S (S\<lparr>sk := s\<rparr>)"
| get: "curp (sk S) = Some p \<Longrightarrow> p_chan (prc p (sk S)) = None \<Longrightarrow> l \<notin> held S p \<Longrightarrow>
    acquiresleep l (sls S) (sk S) = Inr (True, ks, s) \<Longrightarrow>
    slstep C S (S\<lparr>sk := s, sls := ks, held := (held S)(p := insert l (held S p))\<rparr>)"
| wait: "curp (sk S) = Some p \<Longrightarrow> p_chan (prc p (sk S)) = None \<Longrightarrow> l \<notin> held S p \<Longrightarrow>
    acquiresleep l (sls S) (sk S) = Inr (False, ks, s) \<Longrightarrow> slstep C S (S\<lparr>sk := off_cpu s, sls := ks\<rparr>)"
| get_again: "curp (sk S) = Some p \<Longrightarrow> p_chan (prc p (sk S)) = Some (ChLock l) \<Longrightarrow>
    acquiresleep_again p l (sls S) (sk S) = Inr (True, ks, s) \<Longrightarrow>
    slstep C S (S\<lparr>sk := s, sls := ks, held := (held S)(p := insert l (held S p))\<rparr>)"
| wait_again: "curp (sk S) = Some p \<Longrightarrow> p_chan (prc p (sk S)) = Some (ChLock l) \<Longrightarrow>
    acquiresleep_again p l (sls S) (sk S) = Inr (False, ks, s) \<Longrightarrow> slstep C S (S\<lparr>sk := off_cpu s, sls := ks\<rparr>)"
| put: "curp (sk S) = Some p \<Longrightarrow> p_chan (prc p (sk S)) = None \<Longrightarrow> l \<in> held S p \<Longrightarrow>
    releasesleep l (sls S) (sk S) = Inr (ks, s) \<Longrightarrow>
    slstep C S (S\<lparr>sk := s, sls := ks, held := (held S)(p := held S p - {l})\<rparr>)"
| preempt: "curp (sk S) = Some p \<Longrightarrow> yield (sk S) = Inr ((), s) \<Longrightarrow> slstep C S (S\<lparr>sk := off_cpu s\<rparr>)"
| killed: "kill n (sk S) = (r, s) \<Longrightarrow> slstep C S (S\<lparr>sk := s\<rparr>)"

text \<open>At the start no lock is taken, and the processes in use have process ids of their own.\<close>

definition slstart :: "slsys \<Rightarrow> bool" where
  "slstart S \<longleftrightarrow> (\<forall>l. sl_locked (sls S l) = 0 \<and> \<not> sl_lk (sls S l)) \<and> (\<forall>p. held S p = {}) \<and> curp (sk S) = None \<and>
     (\<forall>p < length (ptable (sk S)). p_state (prc p (sk S)) \<noteq> UNUSED \<longrightarrow>
        p_chan (prc p (sk S)) = None \<and> (\<forall>q < length (ptable (sk S)). pid (prc q (sk S)) = pid (prc p (sk S)) \<longrightarrow> q = p))"

inductive slreach :: "conf \<Rightarrow> slsys \<Rightarrow> bool" for C where
  start: "slstart S \<Longrightarrow> slreach C S"
| step: "slreach C S \<Longrightarrow> slstep C S T \<Longrightarrow> slreach C T"

section \<open>The invariant\<close>

text \<open>What it needs of the kernel: \<open>used\<close> processes, their ids, and who is asleep on a lock.\<close>

definition used :: "kernel \<Rightarrow> nat \<Rightarrow> bool" where
  "used s p \<longleftrightarrow> p < length (ptable s) \<and> p_state (prc p s) \<noteq> UNUSED"

definition asleep :: "kernel \<Rightarrow> nat \<Rightarrow> nat \<Rightarrow> bool" where
  "asleep s l p \<longleftrightarrow> p < length (ptable s) \<and> p_state (prc p s) = SLEEPING \<and> p_chan (prc p s) = Some (ChLock l)"

definition locks_ok :: "slsys \<Rightarrow> bool" where
  "locks_ok S \<longleftrightarrow>
     (\<forall>l p q. l \<in> held S p \<and> l \<in> held S q \<longrightarrow> p = q) \<and>
     (\<forall>l. \<not> sl_lk (sls S l) \<and> (sl_locked (sls S l) = 0 \<longleftrightarrow> (\<forall>p. l \<notin> held S p))) \<and>
     (\<forall>l p. l \<in> held S p \<longrightarrow> used (sk S) p \<and> sl_pid (sls S l) = pid (prc p (sk S)))"

definition procs_ok :: "slsys \<Rightarrow> bool" where
  "procs_ok S \<longleftrightarrow>
     (\<forall>p. curp (sk S) = Some p \<longrightarrow> used (sk S) p \<and> p_state (prc p (sk S)) \<noteq> SLEEPING) \<and>
     (\<forall>p q. used (sk S) p \<and> q < length (ptable (sk S)) \<and> pid (prc q (sk S)) = pid (prc p (sk S)) \<longrightarrow> q = p) \<and>
     (\<forall>l p. p_chan (prc p (sk S)) = Some (ChLock l) \<and> used (sk S) p \<longrightarrow> l \<notin> held S p)"

definition sl_inv :: "slsys \<Rightarrow> bool" where
  "sl_inv S \<longleftrightarrow> locks_ok S \<and> procs_ok S \<and> (\<forall>l p. asleep (sk S) l p \<longrightarrow> sl_locked (sls S l) \<noteq> 0)"

definition quiet :: "kernel \<Rightarrow> kernel \<Rightarrow> bool" where
  "quiet s t \<longleftrightarrow> length (ptable t) = length (ptable s) \<and>
     (\<forall>p < length (ptable s). pid (prc p t) = pid (prc p s) \<and> (p_state (prc p t) = UNUSED \<longleftrightarrow> p_state (prc p s) = UNUSED) \<and>
        (p_chan (prc p t) = p_chan (prc p s) \<or> p_chan (prc p t) = None) \<and>
        (p_state (prc p t) = SLEEPING \<longrightarrow> p_state (prc p s) = SLEEPING))"

lemma sl_invD:
  assumes "sl_inv S"
  shows "l \<in> held S p \<Longrightarrow> l \<in> held S q \<Longrightarrow> p = q"
    and "\<not> sl_lk (sls S l)" "sl_locked (sls S l) = 0 \<longleftrightarrow> (\<forall>p. l \<notin> held S p)"
    and "l \<in> held S p \<Longrightarrow> used (sk S) p" "l \<in> held S p \<Longrightarrow> sl_pid (sls S l) = pid (prc p (sk S))"
    and "curp (sk S) = Some p \<Longrightarrow> used (sk S) p" "curp (sk S) = Some p \<Longrightarrow> p_state (prc p (sk S)) \<noteq> SLEEPING"
    and "used (sk S) p \<Longrightarrow> q < length (ptable (sk S)) \<Longrightarrow> pid (prc q (sk S)) = pid (prc p (sk S)) \<Longrightarrow> q = p"
    and "p_chan (prc p (sk S)) = Some (ChLock l) \<Longrightarrow> used (sk S) p \<Longrightarrow> l \<notin> held S p"
    and "asleep (sk S) l p \<Longrightarrow> sl_locked (sls S l) \<noteq> 0"
  using assms unfolding sl_inv_def locks_ok_def procs_ok_def by blast+

lemma quiet_used: "quiet s t \<Longrightarrow> used t p \<longleftrightarrow> used s p"
  by (auto simp: quiet_def used_def)

lemma quiet_asleep: "quiet s t \<Longrightarrow> asleep t l p \<Longrightarrow> asleep s l p"
  by (auto simp: quiet_def asleep_def)

lemma quiet_chan: "quiet s t \<Longrightarrow> p_chan (prc p t) = Some x \<Longrightarrow> used s p \<Longrightarrow> p_chan (prc p s) = Some x"
  by (auto simp: quiet_def used_def)

lemma quiet_pid: "quiet s t \<Longrightarrow> p < length (ptable s) \<Longrightarrow> pid (prc p t) = pid (prc p s)"
  by (auto simp: quiet_def)

lemma quiet_trans: "quiet s t \<Longrightarrow> quiet t u \<Longrightarrow> quiet s u"
  unfolding quiet_def by (metis (no_types, lifting))

lemma quiet_upd:
  assumes "p < length (ptable s)" "pid (f (prc p s)) = pid (prc p s)" "p_state (f (prc p s)) \<noteq> UNUSED" "p_state (prc p s) \<noteq> UNUSED"
    "p_chan (f (prc p s)) = p_chan (prc p s) \<or> p_chan (f (prc p s)) = None" "p_state (f (prc p s)) = SLEEPING \<longrightarrow> p_state (prc p s) = SLEEPING"
  shows "quiet s (upd_proc p f s)"
  using assms by (auto simp: quiet_def)

lemma off_cpu_frame [simp]: "ptable (off_cpu s) = ptable s" "curp (off_cpu s) = None" "prc p (off_cpu s) = prc p s"
  by (simp_all add: off_cpu_def switchkvm_def lcr3_def prc_def)

lemma quiet_off_cpu [simp]: "quiet s (off_cpu t) \<longleftrightarrow> quiet s t"
  by (simp add: quiet_def)

lemma used_off_cpu [simp]: "used (off_cpu s) = used s" "asleep (off_cpu s) = asleep s"
  by (auto simp: used_def asleep_def fun_eq_iff)

lemma quiet_wakeup: "quiet s (wakeup ch s)"
  by (auto simp: quiet_def wakeup_def prc_wakeup1)

lemma quiet_kill:
  assumes "kill n s = (r, t)"
  shows "quiet s t" "curp t = curp s"
proof -
  show "quiet s t"
  proof (cases "find_from (\<lambda>p. pid p = n) (ptable s) 0")
    case None
    then show ?thesis using assms by (simp add: kill_def quiet_def)
  next
    case (Some i)
    then have "i < length (ptable s)" using find_from_Some [of "\<lambda>p. pid p = n" "ptable s" 0 i] by simp
    then show ?thesis using assms Some by (auto simp: kill_def quiet_def split: if_splits)
  qed
  show "curp t = curp s" using assms by (auto simp: kill_def split: option.splits)
qed

text \<open>A step that leaves the locks alone, wakes at most, and leaves a process that may run as the current one.\<close>

lemma inv_quiet:
  assumes "sl_inv S" "quiet (sk S) t"
    "\<And>p. curp t = Some p \<Longrightarrow> used (sk S) p \<and> p_state (prc p t) \<noteq> SLEEPING"
  shows "sl_inv (S\<lparr>sk := t\<rparr>)"
proof -
  note u = quiet_used [OF assms(2)]
  have len: "length (ptable t) = length (ptable (sk S))" using assms(2) by (simp add: quiet_def)
  have "locks_ok (S\<lparr>sk := t\<rparr>)"
    using sl_invD(1-5) [OF assms(1)] quiet_pid [OF assms(2)] unfolding locks_ok_def by (auto simp: u) (auto simp: used_def)
  moreover have "procs_ok (S\<lparr>sk := t\<rparr>)"
    using assms(3) sl_invD(8,9) [OF assms(1)] quiet_pid [OF assms(2)] quiet_chan [OF assms(2)]
    unfolding procs_ok_def by (auto simp: u len) (auto simp: used_def)
  ultimately show ?thesis using sl_invD(10) [OF assms(1)] quiet_asleep [OF assms(2)] by (auto simp: sl_inv_def)
qed

lemma sl_lk_same:
  "\<not> sl_lk k \<Longrightarrow> k\<lparr>sl_lk := False\<rparr> = (k :: sleeplock)"
  "\<not> sl_lk k \<Longrightarrow> k\<lparr>sl_locked := n, sl_lk := False, sl_pid := m\<rparr> = (k :: sleeplock)\<lparr>sl_locked := n, sl_pid := m\<rparr>"
  "\<not> sl_lk k \<Longrightarrow> k\<lparr>sl_locked := n, sl_pid := m, sl_lk := False\<rparr> = (k :: sleeplock)\<lparr>sl_locked := n, sl_pid := m\<rparr>"
  by (cases k; simp)+

lemma acquiresleep_eq:
  assumes "\<not> sl_lk (ks l)" "curp s = Some p" "p < length (ptable s)"
  shows "acquiresleep l ks s =
    (if sl_locked (ks l) \<noteq> 0 then Inr (False, ks, upd_proc p (\<lambda>q. q\<lparr>p_chan := Some (ChLock l), p_state := SLEEPING\<rparr>) s)
     else Inr (True, ks(l := (ks l)\<lparr>sl_locked := 1, sl_pid := pid (prc p s)\<rparr>), s))"
  using assms by (simp add: acquiresleep_def acquiresleep_test_def lock_sl_def unlock_sl_def sleep_begin_def sched_def myproc_def sl_lk_same)

lemma acquiresleep_again_eq: "acquiresleep_again p l ks s = acquiresleep l ks (sleep_end p s)"
  by (simp add: acquiresleep_again_def acquiresleep_def)

lemma releasesleep_eq:
  assumes "\<not> sl_lk (ks l)"
  shows "releasesleep l ks s = Inr (ks(l := (ks l)\<lparr>sl_locked := 0, sl_pid := 0\<rparr>), wakeup (ChLock l) s)"
  using assms by (simp add: releasesleep_def lock_sl_def unlock_sl_def Let_def sl_lk_same)

lemma inv_get:
  assumes i: "sl_inv S" and c: "curp (sk S) = Some p" "p_chan (prc p (sk S)) = None"
    and a: "acquiresleep l (sls S) (sk S) = Inr (True, ks, s)"
  shows "sl_inv (S\<lparr>sk := s, sls := ks, held := (held S)(p := insert l (held S p))\<rparr>)" (is "sl_inv ?T")
proof -
  have u: "used (sk S) p" using sl_invD(6) [OF i c(1)] .
  then have "p < length (ptable (sk S))" by (simp add: used_def)
  from acquiresleep_eq [of "sls S" l "sk S" p, OF sl_invD(2) [OF i] c(1) this] a
  have free: "sl_locked (sls S l) = 0" and s: "s = sk S" and ks: "ks = (sls S)(l := (sls S l)\<lparr>sl_locked := 1, sl_pid := pid (prc p s)\<rparr>)"
    by (auto split: if_splits)
  have none: "l \<notin> held S q" for q using free sl_invD(3) [OF i] by simp
  have ho: "k \<in> held ?T q \<longleftrightarrow> k \<in> held S q \<or> k = l \<and> q = p" for k q by auto
  have "locks_ok ?T"
    unfolding locks_ok_def ho using none u sl_invD(1-5) [OF i] by (auto simp: ks s)
  moreover have "procs_ok ?T"
    unfolding procs_ok_def ho using c(2) sl_invD(6-9) [OF i] by (auto simp: s)
  moreover have "\<forall>k q. asleep (sk ?T) k q \<longrightarrow> sl_locked (sls ?T k) \<noteq> 0"
    using sl_invD(10) [OF i] by (auto simp: ks s)
  ultimately show ?thesis by (simp only: sl_inv_def)
qed

lemma inv_wait:
  assumes i: "sl_inv S" and c: "curp (sk S) = Some p" and n: "l \<notin> held S p"
    and a: "acquiresleep l (sls S) (sk S) = Inr (False, ks, s)"
  shows "sl_inv (S\<lparr>sk := off_cpu s, sls := ks\<rparr>)" (is "sl_inv ?T")
proof -
  have u: "used (sk S) p" using sl_invD(6) [OF i c] .
  then have len: "p < length (ptable (sk S))" by (simp add: used_def)
  from acquiresleep_eq [of "sls S" l "sk S" p, OF sl_invD(2) [OF i] c this] a
  have taken: "sl_locked (sls S l) \<noteq> 0" and ks: "ks = sls S"
    and s: "s = upd_proc p (\<lambda>q. q\<lparr>p_chan := Some (ChLock l), p_state := SLEEPING\<rparr>) (sk S)"
    by (auto split: if_splits)
  have us: "used s q = used (sk S) q" for q using len u by (auto simp: used_def s)
  have pd: "pid (prc q s) = pid (prc q (sk S))" for q using len by (auto simp: s)
  have ch: "p_chan (prc q s) = (if q = p then Some (ChLock l) else p_chan (prc q (sk S)))" for q using len by (simp add: s)
  have as: "asleep s k q \<longleftrightarrow> (if q = p then k = l else asleep (sk S) k q)" for k q using len by (auto simp: asleep_def s)
  have "locks_ok ?T"
    unfolding locks_ok_def using sl_invD(1-5) [OF i] by (auto simp: us pd ks)
  moreover have "procs_ok ?T"
    unfolding procs_ok_def using n sl_invD(8,9) [OF i] by (auto simp: us pd ch) (simp add: s)
  moreover have "\<forall>k q. asleep (sk ?T) k q \<longrightarrow> sl_locked (sls ?T k) \<noteq> 0"
    using taken sl_invD(10) [OF i] by (auto simp: ks as)
  ultimately show ?thesis by (simp only: sl_inv_def)
qed

lemma inv_put:
  assumes i: "sl_inv S" and c: "curp (sk S) = Some p" and h: "l \<in> held S p"
    and a: "releasesleep l (sls S) (sk S) = Inr (ks, s)"
  shows "sl_inv (S\<lparr>sk := s, sls := ks, held := (held S)(p := held S p - {l})\<rparr>)" (is "sl_inv ?T")
proof -
  have s: "s = wakeup (ChLock l) (sk S)" and ks: "ks = (sls S)(l := (sls S l)\<lparr>sl_locked := 0, sl_pid := 0\<rparr>)"
    using a by (simp_all add: releasesleep_eq [of "sls S" l "sk S", OF sl_invD(2) [OF i]])
  have q: "quiet (sk S) s" by (simp add: s quiet_wakeup)
  have "sl_inv (S\<lparr>sk := s\<rparr>)" (is "sl_inv ?U")
    using sl_invD(6,7) [OF i] by (intro inv_quiet [OF i q]) (auto simp: s wakeup_def prc_wakeup1 used_def)
  note j = this
  have ho: "k \<in> held ?T r \<longleftrightarrow> k \<in> held S r \<and> k \<noteq> l" for k r using sl_invD(1) [OF i h, of r] by auto
  have as: "\<not> asleep s l r" for r by (auto simp: asleep_def s wakeup_def prc_wakeup1)
  have "locks_ok ?T"
    unfolding locks_ok_def ho using sl_invD(1-5) [OF j] by (auto simp: ks)
  moreover have "procs_ok ?T"
    unfolding procs_ok_def ho using sl_invD(6-9) [OF j] by auto
  moreover have "\<forall>k q. asleep (sk ?T) k q \<longrightarrow> sl_locked (sls ?T k) \<noteq> 0"
    using as sl_invD(10) [OF j] by (auto simp: ks)
  ultimately show ?thesis by (simp only: sl_inv_def)
qed

lemma inv_resume:
  assumes i: "sl_inv S" and c: "curp (sk S) = Some p"
  shows "sl_inv (S\<lparr>sk := sleep_end p (sk S)\<rparr>)" "curp (sleep_end p (sk S)) = Some p" "p_chan (prc p (sleep_end p (sk S))) = None"
proof -
  have u: "p < length (ptable (sk S))" "p_state (prc p (sk S)) \<noteq> UNUSED" using sl_invD(6) [OF i c] by (simp_all add: used_def)
  have q: "quiet (sk S) (sleep_end p (sk S))" using u by (auto simp: sleep_end_def intro!: quiet_upd)
  show "sl_inv (S\<lparr>sk := sleep_end p (sk S)\<rparr>)"
    by (rule inv_quiet [OF i q]) (use u c sl_invD(6,7) [OF i] in \<open>auto simp: sleep_end_def\<close>)
  show "curp (sleep_end p (sk S)) = Some p" "p_chan (prc p (sleep_end p (sk S))) = None"
    using u c by (simp_all add: sleep_end_def)
qed

lemma sl_inv_step:
  assumes i: "sl_inv S" and "slstep C S T"
  shows "sl_inv T"
  using assms(2)
proof cases
  case (run p s)
  have d: "s = upd_proc p (\<lambda>q. q\<lparr>p_state := RUNNING\<rparr>) t" if "switchuvm C (Some p) ((sk S)\<lparr>curp := Some p\<rparr>) = Inr ((), t)" for t
    using run(5) that by (simp add: dispatch_def)
  obtain t where t: "switchuvm C (Some p) ((sk S)\<lparr>curp := Some p\<rparr>) = Inr ((), t)"
    using run(5) by (auto simp: dispatch_def bindr_eq_Inr)
  have f: "ptable t = ptable (sk S)" "curp t = Some p" using switchuvm_frame [OF t] by simp_all
  then have tq: "quiet (sk S) t" by (simp add: quiet_def prc_def)
  have "quiet t s" unfolding d [OF t] using run(3,4) f(1) by (intro quiet_upd) (simp_all add: prc_def)
  from quiet_trans [OF tq this] show ?thesis unfolding run(1)
    by (rule inv_quiet [OF i]) (use run(3,4) f d [OF t] in \<open>auto simp: used_def\<close>)
next
  case (get p l ks s)
  then show ?thesis using inv_get [OF i] by blast
next
  case (wait p l ks s)
  then show ?thesis using inv_wait [OF i] by blast
next
  case (get_again p l ks s)
  note r = inv_resume [OF i get_again(2)]
  show ?thesis using inv_get [OF r(1), of p l ks s] r(2,3) get_again by (simp add: acquiresleep_again_eq)
next
  case (wait_again p l ks s)
  note r = inv_resume [OF i wait_again(2)]
  have "l \<notin> held S p" using sl_invD(9) [OF i wait_again(3) sl_invD(6) [OF i wait_again(2)]] .
  then show ?thesis using inv_wait [OF r(1), of p l ks s] r(2) wait_again by (simp add: acquiresleep_again_eq)
next
  case (put p l ks s)
  then show ?thesis using inv_put [OF i] by blast
next
  case (preempt p s)
  have u: "p < length (ptable (sk S))" "p_state (prc p (sk S)) \<noteq> UNUSED" using sl_invD(6) [OF i preempt(2)] by (simp_all add: used_def)
  have "s = upd_proc p (\<lambda>q. q\<lparr>p_state := RUNNABLE\<rparr>) (sk S)"
    using preempt(2,3) by (auto simp: yield_def myproc_def sched_def split: if_splits)
  then have "quiet (sk S) s" using u by (auto intro!: quiet_upd)
  then show ?thesis unfolding preempt(1) by (intro inv_quiet [OF i]) simp_all
next
  case (killed n r s)
  note q = quiet_kill [OF killed(2)]
  have "used (sk S) p \<and> p_state (prc p s) \<noteq> SLEEPING" if "curp s = Some p" for p
    using that q sl_invD(6,7) [OF i] by (auto simp: quiet_def used_def)
  then show ?thesis unfolding killed(1) by (rule inv_quiet [OF i q(1)])
qed

lemma sl_inv_start:
  assumes "slstart S"
  shows "sl_inv S"
  using assms by (auto simp: sl_inv_def slstart_def locks_ok_def procs_ok_def used_def asleep_def)

lemma slreach_inv: "slreach C S \<Longrightarrow> sl_inv S"
  by (induction rule: slreach.induct) (auto intro: sl_inv_start sl_inv_step)

text \<open>
  Property C12. Processes acquire and release sleep locks in any order, are preempted anywhere and killed at any time. In every state
  they can reach, a lock has at most one holder; a process is asleep waiting for a lock only while
  some process holds it, so no wakeup is lost; \<open>holdingsleep\<close> answers truthfully; and the holder's \<open>releasesleep\<close> returns with the lock free and
  every process that waited for it runnable.
\<close>

theorem sleeplock_mutex:
  assumes "slreach C S"
  shows "(l \<in> held S p \<and> l \<in> held S q \<longrightarrow> p = q) \<and>
         (asleep (sk S) l p \<longrightarrow> (\<exists>q. l \<in> held S q)) \<and>
         (curp (sk S) = Some p \<longrightarrow> holdingsleep l (sls S) (sk S) = Inr (l \<in> held S p, sls S)) \<and>
         (curp (sk S) = Some p \<and> l \<in> held S p \<longrightarrow>
            (\<exists>ks s. releasesleep l (sls S) (sk S) = Inr (ks, s) \<and> sl_locked (ks l) = 0 \<and>
               (\<forall>q. asleep (sk S) l q \<longrightarrow> p_state (prc q s) = RUNNABLE)))"
proof -
  note i = slreach_inv [OF assms]
  have pid: "sl_pid (sls S l) = pid (prc p (sk S)) \<longleftrightarrow> l \<in> held S p"
    if cur: "curp (sk S) = Some p" and locked: "sl_locked (sls S l) \<noteq> 0"
  proof -
    obtain q where q: "l \<in> held S q" using locked sl_invD(3) [OF i] by auto
    have "p < length (ptable (sk S))" using sl_invD(6) [OF i cur] by (simp add: used_def)
    then have "p = q" if "sl_pid (sls S l) = pid (prc p (sk S))"
      using sl_invD(8) [OF i sl_invD(4) [OF i q], of p] sl_invD(5) [OF i q] that by simp
    then show ?thesis using q sl_invD(5) [OF i, of l p] by blast
  qed
  have "holdingsleep l (sls S) (sk S) = Inr (l \<in> held S p, sls S)" if "curp (sk S) = Some p"
    using that pid sl_invD(2,3) [OF i, of l]
    by (auto simp: holdingsleep_def lock_sl_def unlock_sl_def myproc_def sl_lk_same)
  moreover have "\<exists>ks s. releasesleep l (sls S) (sk S) = Inr (ks, s) \<and> sl_locked (ks l) = 0 \<and>
               (\<forall>q. asleep (sk S) l q \<longrightarrow> p_state (prc q s) = RUNNABLE)"
    using releasesleep_eq [of "sls S" l "sk S", OF sl_invD(2) [OF i]]
    by (auto simp: asleep_def wakeup_def prc_wakeup1)
  ultimately show ?thesis using sl_invD(1,3,10) [OF i] by blast
qed

definition demo_procs :: kernel where
  "demo_procs = demo_kernel\<lparr>ptable := [prc 0 demo_kernel]\<rparr>"

definition demo_running :: kernel where
  "demo_running = (case dispatch demo_conf 0 demo_procs of Inr (_, s) \<Rightarrow> s | Inl _ \<Rightarrow> demo_procs)"

definition free_locks :: slocks where
  "free_locks = (\<lambda>_. \<lparr>sl_locked = 0, sl_lk = False, sl_name = ''buffer'', sl_pid = 0\<rparr>)"

definition demo_sl :: slsys where
  "demo_sl = \<lparr>sk = demo_running, sls = free_locks(3 := (free_locks 3)\<lparr>sl_locked := 1, sl_pid := pid (prc 0 demo_running)\<rparr>),
     held = (\<lambda>_. {})(0 := {3})\<rparr>"

lemma demo_sl_reach: "slreach demo_conf demo_sl"
proof -
  let ?A = "\<lparr>sk = demo_procs, sls = free_locks, held = \<lambda>_. {}\<rparr>"
  have p: "prc 0 demo_procs = prc 0 demo_kernel" "length (ptable demo_procs) = 1" "curp demo_procs = None"
    by (simp_all add: demo_procs_def prc_def demo_kernel_def)
  have k: "p_state (prc 0 demo_kernel) = RUNNABLE" "p_chan (prc 0 demo_kernel) = None" "kstack (prc 0 demo_kernel) \<noteq> 0" "pgdir (prc 0 demo_kernel) \<noteq> 0"
    by (simp_all add: prc_def demo_kernel_def demo_proc_def)
  have "slreach demo_conf ?A"
    by (rule slreach.start) (use p k in \<open>auto simp: slstart_def free_locks_def\<close>)
  moreover obtain s where s: "dispatch demo_conf 0 demo_procs = Inr ((), s)" "curp s = Some 0" "length (ptable s) = 1"
    using dispatch_spec [of 0 demo_procs demo_conf] p k by auto
  then have r: "demo_running = s" by (simp add: demo_running_def)
  moreover have "slstep demo_conf ?A (?A\<lparr>sk := s\<rparr>)" using slstep.run [of ?A 0 demo_conf s] s p k by simp
  ultimately have R: "slreach demo_conf (?A\<lparr>sk := s\<rparr>)" by (blast intro: slreach.step)
  have "p_chan (prc 0 s) = None"
    using s(1) k switchuvm_frame(1) [of demo_conf 0 "demo_procs\<lparr>curp := Some 0\<rparr>"] p
    by (auto simp: dispatch_def bindr_eq_Inr upd_proc_def prc_def)
  moreover have "acquiresleep 3 free_locks s = Inr (True, free_locks(3 := (free_locks 3)\<lparr>sl_locked := 1, sl_pid := pid (prc 0 s)\<rparr>), s)"
    by (subst acquiresleep_eq [OF _ s(2)]) (use s in \<open>simp_all add: free_locks_def\<close>)
  ultimately have "slstep demo_conf (?A\<lparr>sk := s\<rparr>) demo_sl"
    using slstep.get [of "?A\<lparr>sk := s\<rparr>" 0 3] s(2) by (simp add: demo_sl_def r)
  with R show ?thesis by (rule slreach.step)
qed

lemma demo_sl_curp: "curp (sk demo_sl) = Some 0"
proof -
  have "p_state (prc 0 demo_procs) = RUNNABLE" "pgdir (prc 0 demo_procs) \<noteq> 0" "kstack (prc 0 demo_procs) \<noteq> 0" "length (ptable demo_procs) = 1" "curp demo_procs = None"
    by (simp_all add: demo_procs_def prc_def demo_kernel_def demo_proc_def)
  then obtain s where "dispatch demo_conf 0 demo_procs = Inr ((), s)" "curp s = Some 0"
    using dispatch_spec [of 0 demo_procs demo_conf] by auto
  then show ?thesis by (simp add: demo_sl_def demo_running_def)
qed

theorem sleeplock_mutex_witness:
  "holdingsleep 3 (sls demo_sl) (sk demo_sl) = Inr (True, sls demo_sl) \<and> 3 \<in> held demo_sl 0 \<and> 3 \<notin> held demo_sl 1"
proof -
  have "3 \<in> held demo_sl 0" by (simp add: demo_sl_def)
  then show ?thesis using sleeplock_mutex [OF demo_sl_reach, of 3 0 1] demo_sl_curp by simp
qed

end
