(* ===== verification/Contents.thy ===== *)
theory Contents
  imports Fs
begin

text \<open>
  What files contain. The block allocator of \<open>fs.c\<close> keeps a bitmap, an inode names its blocks directly or through its indirect block; \<open>slot\<close>
  is the block number behind each position of a file and \<open>fbyte\<close> the byte at an offset, read off the state of the block layer. The
  lemmas are the specifications of \<open>balloc\<close>, \<open>bmap\<close>, \<open>readi\<close> and \<open>writei\<close> over this view: allocation takes a block that no file has, a write changes exactly the bytes it
  names, and every other file keeps its contents.
\<close>

unbundle bit_operations_syntax

section \<open>The bitmap\<close>

definition bit_at :: "block \<Rightarrow> nat \<Rightarrow> bool" where
  "bit_at d i \<longleftrightarrow> d (i div 8) AND push_bit (i mod 8) 1 \<noteq> 0"

definition in_use :: "u32 \<Rightarrow> 'a fsys_scheme \<Rightarrow> u32 \<Rightarrow> bool" where
  "in_use dev s b \<longleftrightarrow> bit_at (blocks s (dev, BBLOCK b (sb s))) (unat (b mod BPB))"

definition free_blocks :: "u32 \<Rightarrow> 'a fsys_scheme \<Rightarrow> u32 set" where
  "free_blocks dev s = {b. b < sb_size (sb s) \<and> \<not> in_use dev s b}"

text \<open>Blocks that belong to no file: the boot block, the bitmap and the inodes.\<close>

definition bitmap_blocks :: "'a fsys_scheme \<Rightarrow> u32 set" where
  "bitmap_blocks s = {BBLOCK b (sb s) | b. b < sb_size (sb s)}"

definition inode_blocks :: "'a fsys_scheme \<Rightarrow> u32 set" where
  "inode_blocks s = {IBLOCK i (sb s) | i. i < ninodes (sb s)}"

definition meta_blocks :: "'a fsys_scheme \<Rightarrow> u32 set" where
  "meta_blocks s = insert 0 (bitmap_blocks s \<union> inode_blocks s)"

definition layout :: "u32 \<Rightarrow> 'a fsys_scheme \<Rightarrow> bool" where
  "layout dev s \<longleftrightarrow> unat (sb_size (sb s)) + 4096 < 4294967296 \<and> free_blocks dev s \<inter> meta_blocks s = {} \<and>
     bitmap_blocks s \<inter> inode_blocks s = {}"

lemma and_one_bit: "(w :: u8) AND push_bit n 1 \<noteq> 0 \<longleftrightarrow> n < 8 \<and> bit w n"
proof
  assume "w AND push_bit n 1 \<noteq> 0"
  then obtain m where "bit (w AND push_bit n 1) m" using bit_eq_iff [of "w AND push_bit n 1" 0] by auto
  then show "n < 8 \<and> bit w n" by (auto simp: bit_simps dest: bit_imp_le_length)
next
  assume "n < 8 \<and> bit w n"
  then have "bit (w AND push_bit n 1) n" by (simp add: bit_simps)
  then show "w AND push_bit n 1 \<noteq> 0" by auto
qed

lemma bit_at_iff: "bit_at d i \<longleftrightarrow> bit (d (i div 8)) (i mod 8)"
  unfolding bit_at_def and_one_bit by simp

lemma div_mod_8_eq: "(i :: nat) = j \<longleftrightarrow> i div 8 = j div 8 \<and> i mod 8 = j mod 8"
  by (metis div_mult_mod_eq)

lemma bit_at_set: "bit_at (d(j div 8 := d (j div 8) OR push_bit (j mod 8) 1)) i \<longleftrightarrow> bit_at d i \<or> i = j"
  unfolding bit_at_iff div_mod_8_eq [of i j] by (cases "i div 8 = j div 8") (auto simp: bit_or_iff bit_exp_iff possible_bit_word)

lemma bit_at_clear: "bit_at (d(j div 8 := d (j div 8) AND NOT (push_bit (j mod 8) 1))) i \<longleftrightarrow> bit_at d i \<and> i \<noteq> j"
  unfolding bit_at_iff div_mod_8_eq [of i j]
  by (cases "i div 8 = j div 8") (auto simp: bit_and_iff bit_not_iff bit_exp_iff possible_bit_word)

lemma finite_free [simp]: "finite (free_blocks dev s)"
  by simp

lemma balloc_bit_Some:
  "balloc_bit d b sz bi = Some i \<Longrightarrow> bi \<le> i \<and> i < 4096 \<and> b + word_of_nat i < sz \<and> \<not> bit_at d i"
  by (induction d b sz bi rule: balloc_bit.induct)
    (subst (asm) balloc_bit.simps, auto simp: bit_at_def split: if_splits)

lemma balloc_bit_None:
  "balloc_bit d b sz bi = None \<Longrightarrow> bi \<le> i \<Longrightarrow> i < 4096 \<Longrightarrow> (\<forall>j. bi \<le> j \<and> j \<le> i \<longrightarrow> b + word_of_nat j < sz) \<Longrightarrow> bit_at d i"
proof (induction d b sz bi rule: balloc_bit.induct)
  case (1 d b sz bi)
  have c: "bi < 4096 \<and> b + word_of_nat bi < sz" using 1(3-5) by auto
  then have n: "d (bi div 8) AND push_bit (bi mod 8) 1 \<noteq> 0" "balloc_bit d b sz (Suc bi) = None"
    using 1(2) by (subst (asm) balloc_bit.simps, simp split: if_splits)+
  show ?case
  proof (cases "i = bi")
    case True
    then show ?thesis using n(1) by (simp add: bit_at_def)
  next
    case False
    then show ?thesis using 1(1) [OF c _ n(2)] n(1) 1(3-5) by auto
  qed
qed

definition allocated :: "u32 \<Rightarrow> u32 \<Rightarrow> 'a fsys_scheme \<Rightarrow> 'a fsys_scheme" where
  "allocated dev x s =
    (let d = blocks s (dev, BBLOCK x (sb s)); bi = unat (x mod BPB)
     in logged dev x (\<lambda>_. 0) (logged dev (BBLOCK x (sb s)) (d(bi div 8 := d (bi div 8) OR push_bit (bi mod 8) 1)) s))"

lemma unat_add_small: "unat (b :: u32) + i < 4294967296 \<Longrightarrow> unat (b + word_of_nat i) = unat b + i"
  by (simp add: unat_word_ariths unat_of_nat)

lemma in_bitmap_block:
  assumes "unat (b :: u32) = 4096 * q" "i < 4096" "unat b + i < 4294967296"
  shows "unat ((b + word_of_nat i) mod BPB) = i" "BBLOCK (b + word_of_nat i) S = BBLOCK b S"
proof -
  have u: "unat (b + word_of_nat i) = 4096 * q + i" using unat_add_small [of b i] assms by simp
  then show "unat ((b + word_of_nat i) mod BPB) = i" using assms(2) by (simp add: unat_mod)
  have "(b + word_of_nat i) div BPB = b div BPB"
    by (rule word_unat_eq_iff [THEN iffD2]) (simp add: unat_div u assms(1,2))
  then show "BBLOCK (b + word_of_nat i) S = BBLOCK b S" by (simp add: BBLOCK_def)
qed

lemma balloc_from_ok:
  assumes "layout dev s" "unat b = 4096 * q" "log_room (Suc (Suc k)) s" "c \<in> free_blocks dev s" "b \<le> c"
  shows "\<exists>x \<in> free_blocks dev s. balloc_from dev b s = Inr (x, allocated dev x s)"
  using assms
proof (induction "unat c - unat b" arbitrary: b q rule: less_induct)
  case less
  have c: "c < sb_size (sb s)" "\<not> in_use dev s c" using less.prems(4) by (auto simp: free_blocks_def)
  have lim: "unat (sb_size (sb s)) + 4096 < 4294967296" using less.prems(1) by (simp add: layout_def)
  have b: "b < sb_size (sb s)" using less.prems(5) c(1) by simp
  have small: "unat b + i < 4294967296" if "i \<le> 4096" for i using b lim that by (simp add: word_less_nat_alt)
  let ?d = "blocks s (dev, BBLOCK b (sb s))"
  show ?case
  proof (cases "balloc_bit ?d b (sb_size (sb s)) 0")
    case (Some bi)
    let ?x = "b + word_of_nat bi"
    from balloc_bit_Some [OF Some] have bi: "bi < 4096" "?x < sb_size (sb s)" "\<not> bit_at ?d bi" by auto
    note blk = in_bitmap_block [OF less.prems(2) bi(1) small] 
    have "?x \<in> free_blocks dev s" using bi blk by (simp add: free_blocks_def in_use_def)
    moreover have "balloc_from dev b s = Inr (?x, allocated dev ?x s)"
      using b Some log_write_room [OF less.prems(3)] log_write_room [OF log_write_room(2) [OF less.prems(3)]] bi(1) blk
      by (subst balloc_from.simps) (simp add: allocated_def bzero_def Let_def)
    ultimately show ?thesis by blast
  next
    case None
    have far: "unat b + 4096 \<le> unat c"
    proof (rule ccontr)
      assume "\<not> unat b + 4096 \<le> unat c"
      then have i: "unat c - unat b < 4096" by simp
      have ci: "unat c = unat b + (unat c - unat b)" using less.prems(5) by (simp add: word_le_nat_alt)
      then have cb: "c = b + word_of_nat (unat c - unat b)"
        using unat_add_small [of b "unat c - unat b"] small i by (metis less_imp_le_nat word_unat_eq_iff)
      have "b + word_of_nat j < sb_size (sb s)" if "j \<le> unat c - unat b" for j
        using unat_add_small [of b j] small [of j] that i ci c(1) by (simp add: word_less_nat_alt)
      then have "bit_at ?d (unat c - unat b)" using balloc_bit_None [OF None, of "unat c - unat b"] i by simp
      then have "in_use dev s c"
        using in_bitmap_block [OF less.prems(2) i small] i unfolding in_use_def by (metis cb less_imp_le_nat)
      then show False using c(2) by contradiction
    qed
    have u: "unat (b + BPB) = unat b + 4096" using unat_add_nowrap [of b BPB] small [of 4096] by simp
    have "\<exists>x \<in> free_blocks dev s. balloc_from dev (b + BPB) s = Inr (x, allocated dev x s)"
      by (rule less.hyps [of "b + BPB" "Suc q"]) (use less.prems far u in \<open>simp_all add: word_le_nat_alt\<close>)
    moreover have "\<not> b + BPB \<le> b" using u by (simp add: word_le_nat_alt)
    ultimately show ?thesis using b None by (subst balloc_from.simps) simp
  qed
qed

lemma balloc_ok:
  assumes "layout dev s" "log_room (Suc (Suc k)) s" "free_blocks dev s \<noteq> {}"
  shows "\<exists>x \<in> free_blocks dev s. balloc dev s = Inr (x, allocated dev x s)"
proof -
  obtain c where "c \<in> free_blocks dev s" using assms(3) by blast
  then show ?thesis unfolding balloc_def using balloc_from_ok [OF assms(1) _ assms(2), of 0 0 c] by simp
qed

lemma logged_frame [simp]:
  "sb (logged dev b d s) = sb s" "icache (logged dev b d s) = icache s" "blocks (logged dev b d s) = (blocks s)((dev, b) := d)"
  "ino ip (logged dev b d s) = ino ip s"
  by (simp_all add: logged_def ino_def)

lemma allocated_frame [simp]:
  "sb (allocated dev x s) = sb s" "icache (allocated dev x s) = icache s" "ino ip (allocated dev x s) = ino ip s"
  by (simp_all add: allocated_def Let_def)

lemma same_bit:
  assumes "BBLOCK x S = BBLOCK y S" "unat (x mod BPB) = unat (y mod BPB)"
  shows "x = y"
proof -
  have "x div BPB = y div BPB" using assms(1) by (simp add: BBLOCK_def)
  moreover have "x mod BPB = y mod BPB" using assms(2) by (simp add: word_unat_eq_iff)
  ultimately show ?thesis by (metis word_mod_div_equality)
qed

lemma free_facts:
  assumes "layout dev s" "x \<in> free_blocks dev s"
  shows "x \<noteq> 0" "x \<notin> bitmap_blocks s" "x \<notin> inode_blocks s" "x < sb_size (sb s)" "BBLOCK x (sb s) \<in> bitmap_blocks s"
  using assms by (auto simp: layout_def meta_blocks_def free_blocks_def bitmap_blocks_def)

lemma allocated_facts:
  assumes l: "layout dev s" and x: "x \<in> free_blocks dev s"
  shows "y < sb_size (sb s) \<Longrightarrow> in_use dev (allocated dev x s) y \<longleftrightarrow> in_use dev s y \<or> y = x"
    and "free_blocks dev (allocated dev x s) = free_blocks dev s - {x}"
    and "blocks (allocated dev x s) (dev, x) = (\<lambda>_. 0)"
    and "d \<noteq> dev \<or> b \<noteq> x \<and> b \<notin> bitmap_blocks s \<Longrightarrow> blocks (allocated dev x s) (d, b) = blocks s (d, b)"
    and "layout dev (allocated dev x s)"
    and "log_room (Suc (Suc k)) s \<Longrightarrow> log_room k (allocated dev x s)"
proof -
  note f = free_facts [OF l x]
  have iu: "in_use dev (allocated dev x s) y \<longleftrightarrow> in_use dev s y \<or> y = x" if "y < sb_size (sb s)" for y
  proof -
    have "BBLOCK y (sb s) \<noteq> x" using f(2) that by (auto simp: bitmap_blocks_def)
    moreover have "y = x" if "BBLOCK y (sb s) = BBLOCK x (sb s)" "unat (y mod BPB) = unat (x mod BPB)"
      using same_bit that by blast
    ultimately show ?thesis
      unfolding in_use_def allocated_def Let_def by (auto simp: bit_at_set [simplified])
  qed
  then show "y < sb_size (sb s) \<Longrightarrow> in_use dev (allocated dev x s) y \<longleftrightarrow> in_use dev s y \<or> y = x" .
  show fr: "free_blocks dev (allocated dev x s) = free_blocks dev s - {x}" using iu by (auto simp: free_blocks_def)
  show "blocks (allocated dev x s) (dev, x) = (\<lambda>_. 0)" by (simp add: allocated_def Let_def)
  show "blocks (allocated dev x s) (d, b) = blocks s (d, b)" if "d \<noteq> dev \<or> b \<noteq> x \<and> b \<notin> bitmap_blocks s"
    using that f(5) by (auto simp: allocated_def Let_def)
  have "bitmap_blocks (allocated dev x s) = bitmap_blocks s" "inode_blocks (allocated dev x s) = inode_blocks s"
      "meta_blocks (allocated dev x s) = meta_blocks s"
    by (simp_all add: bitmap_blocks_def inode_blocks_def meta_blocks_def)
  then show "layout dev (allocated dev x s)" using l by (auto simp: layout_def fr)
  show "log_room k (allocated dev x s)" if "log_room (Suc (Suc k)) s"
    using log_write_room(2) [OF log_write_room(2) [OF that]] by (simp add: allocated_def Let_def)
qed

section \<open>The blocks of a file\<close>

text \<open>The block numbers behind the 140 positions of a file, and that of the indirect block; zero where nothing is allocated.\<close>

definition slot :: "nat \<Rightarrow> 'a fsys_scheme \<Rightarrow> nat \<Rightarrow> u32" where
  "slot ip s n =
    (let i = ino ip s in
     if n < 12 then i_addrs i ! n
     else if n = 140 then i_addrs i ! 12
     else if i_addrs i ! 12 = 0 then 0
     else rd32 (blocks s (i_dev i, i_addrs i ! 12)) (4 * (n - 12)))"

definition file_blocks :: "nat \<Rightarrow> 'a fsys_scheme \<Rightarrow> u32 set" where
  "file_blocks ip s = slot ip s ` {..140} - {0}"

definition fbyte :: "nat \<Rightarrow> 'a fsys_scheme \<Rightarrow> nat \<Rightarrow> u8" where
  "fbyte ip s k = (let b = slot ip s (k div 512) in if b = 0 then 0 else blocks s (i_dev (ino ip s), b) (k mod 512))"

definition file_ok :: "nat \<Rightarrow> 'a fsys_scheme \<Rightarrow> bool" where
  "file_ok ip s \<longleftrightarrow>
     ip < length (icache s) \<and> length (i_addrs (ino ip s)) = 13 \<and> i_num (ino ip s) < ninodes (sb s) \<and>
     unat (i_size (ino ip s)) \<le> 71680 \<and>
     (\<forall>b \<in> file_blocks ip s. b < sb_size (sb s) \<and> in_use (i_dev (ino ip s)) s b \<and> b \<notin> meta_blocks s) \<and>
     (\<forall>m n. m \<le> 140 \<and> n \<le> 140 \<and> slot ip s m = slot ip s n \<and> slot ip s m \<noteq> 0 \<longrightarrow> m = n) \<and>
     (\<forall>n. 512 * n < unat (i_size (ino ip s)) \<longrightarrow> slot ip s n \<noteq> 0)"

lemma file_okD:
  assumes "file_ok ip s"
  shows "ip < length (icache s)" "length (i_addrs (ino ip s)) = 13" "i_num (ino ip s) < ninodes (sb s)"
    and "unat (i_size (ino ip s)) \<le> 71680"
    and "b \<in> file_blocks ip s \<Longrightarrow> b < sb_size (sb s)" "b \<in> file_blocks ip s \<Longrightarrow> in_use (i_dev (ino ip s)) s b"
    and "b \<in> file_blocks ip s \<Longrightarrow> b \<notin> meta_blocks s"
    and "m \<le> 140 \<Longrightarrow> n \<le> 140 \<Longrightarrow> slot ip s m = slot ip s n \<Longrightarrow> slot ip s m \<noteq> 0 \<Longrightarrow> m = n"
    and "512 * n < unat (i_size (ino ip s)) \<Longrightarrow> slot ip s n \<noteq> 0"
  using assms unfolding file_ok_def by blast+

lemma slot_in_file: "n \<le> 140 \<Longrightarrow> slot ip s n \<noteq> 0 \<Longrightarrow> slot ip s n \<in> file_blocks ip s"
  by (auto simp: file_blocks_def)

lemma ino_set [simp]:
  "ino jp (set_ino ip i s) = (if jp = ip \<and> ip < length (icache s) then i else ino jp s)"
  "sb (set_ino ip i s) = sb s" "blocks (set_ino ip i s) = blocks s" "length (icache (set_ino ip i s)) = length (icache s)"
  by (auto simp: ino_def set_ino_def nth_list_update list_update_beyond)

text \<open>What an operation on file \<open>ip\<close> may do: give the file more blocks from the free ones, change the blocks of the file, the
  bitmap and its own on-disk inode, and in memory its addresses and its size.\<close>

definition grows :: "nat \<Rightarrow> 'a fsys_scheme \<Rightarrow> 'a fsys_scheme \<Rightarrow> bool" where
  "grows ip s t \<longleftrightarrow>
     (\<exists>B L I. t = s\<lparr>blocks := B, lh_block := L, icache := I\<rparr>) \<and>
     length (icache t) = length (icache s) \<and> (\<forall>jp. jp \<noteq> ip \<longrightarrow> ino jp t = ino jp s) \<and>
     (\<exists>A z. ino ip t = (ino ip s)\<lparr>i_addrs := A, i_size := z\<rparr>) \<and>
     free_blocks (i_dev (ino ip s)) t \<subseteq> free_blocks (i_dev (ino ip s)) s \<and>
     (\<forall>b < sb_size (sb s). in_use (i_dev (ino ip s)) s b \<longrightarrow> in_use (i_dev (ino ip s)) t b) \<and>
     file_blocks ip s \<subseteq> file_blocks ip t \<and> file_blocks ip t \<subseteq> file_blocks ip s \<union> free_blocks (i_dev (ino ip s)) s \<and>
     (\<forall>d b. d \<noteq> i_dev (ino ip s) \<or> b \<notin> file_blocks ip t \<and> b \<notin> bitmap_blocks s \<and> b \<noteq> IBLOCK (i_num (ino ip s)) (sb s) \<longrightarrow>
        blocks t (d, b) = blocks s (d, b)) \<and>
     (\<forall>k. k < dip_off (i_num (ino ip s)) \<or> dip_off (i_num (ino ip s)) + 64 \<le> k \<longrightarrow>
        blocks t (i_dev (ino ip s), IBLOCK (i_num (ino ip s)) (sb s)) k = blocks s (i_dev (ino ip s), IBLOCK (i_num (ino ip s)) (sb s)) k) \<and>
     (\<forall>n \<le> 140. slot ip s n \<noteq> 0 \<longrightarrow> slot ip t n = slot ip s n)"

lemma growsD:
  assumes "grows ip s t"
  shows "sb t = sb s" "length (icache t) = length (icache s)" "jp \<noteq> ip \<Longrightarrow> ino jp t = ino jp s"
    and "i_dev (ino ip t) = i_dev (ino ip s)" "i_num (ino ip t) = i_num (ino ip s)" "i_type (ino ip t) = i_type (ino ip s)"
    and "free_blocks (i_dev (ino ip s)) t \<subseteq> free_blocks (i_dev (ino ip s)) s"
    and "b < sb_size (sb s) \<Longrightarrow> in_use (i_dev (ino ip s)) s b \<Longrightarrow> in_use (i_dev (ino ip s)) t b"
    and "file_blocks ip s \<subseteq> file_blocks ip t" "file_blocks ip t \<subseteq> file_blocks ip s \<union> free_blocks (i_dev (ino ip s)) s"
    and "d \<noteq> i_dev (ino ip s) \<or> b \<notin> file_blocks ip t \<and> b \<notin> bitmap_blocks s \<and> b \<noteq> IBLOCK (i_num (ino ip s)) (sb s) \<Longrightarrow>
        blocks t (d, b) = blocks s (d, b)"
    and "k < dip_off (i_num (ino ip s)) \<or> dip_off (i_num (ino ip s)) + 64 \<le> k \<Longrightarrow>
        blocks t (i_dev (ino ip s), IBLOCK (i_num (ino ip s)) (sb s)) k = blocks s (i_dev (ino ip s), IBLOCK (i_num (ino ip s)) (sb s)) k"
    and "bitmap_blocks t = bitmap_blocks s" "inode_blocks t = inode_blocks s" "meta_blocks t = meta_blocks s"
    and "n \<le> 140 \<Longrightarrow> slot ip s n \<noteq> 0 \<Longrightarrow> slot ip t n = slot ip s n"
proof -
  obtain B L I A z where t: "t = s\<lparr>blocks := B, lh_block := L, icache := I\<rparr>" and i: "ino ip t = (ino ip s)\<lparr>i_addrs := A, i_size := z\<rparr>"
    using assms unfolding grows_def by blast
  show S: "sb t = sb s" by (simp add: t)
  show "bitmap_blocks t = bitmap_blocks s" "inode_blocks t = inode_blocks s" "meta_blocks t = meta_blocks s"
    by (simp_all add: S bitmap_blocks_def inode_blocks_def meta_blocks_def)
  show "i_dev (ino ip t) = i_dev (ino ip s)" "i_num (ino ip t) = i_num (ino ip s)" "i_type (ino ip t) = i_type (ino ip s)"
    by (simp_all add: i)
qed (use assms in \<open>unfold grows_def, blast+\<close>)

lemma grows_refl: "grows ip s s"
proof -
  have "s = s\<lparr>blocks := blocks s, lh_block := lh_block s, icache := icache s\<rparr>" by simp
  moreover have "ino ip s = (ino ip s)\<lparr>i_addrs := i_addrs (ino ip s), i_size := i_size (ino ip s)\<rparr>" by simp
  ultimately show ?thesis unfolding grows_def by (intro conjI) (blast | simp)+
qed

lemma grows_trans:
  assumes "grows ip s t" "grows ip t u"
  shows "grows ip s u"
proof -
  note d = growsD [OF assms(1)] and e = growsD [OF assms(2)]
  obtain B L I A z where t: "t = s\<lparr>blocks := B, lh_block := L, icache := I\<rparr>" and ti: "ino ip t = (ino ip s)\<lparr>i_addrs := A, i_size := z\<rparr>"
    using assms(1) unfolding grows_def by blast
  obtain B' L' I' A' z' where u: "u = t\<lparr>blocks := B', lh_block := L', icache := I'\<rparr>" and ui: "ino ip u = (ino ip t)\<lparr>i_addrs := A', i_size := z'\<rparr>"
    using assms(2) unfolding grows_def by blast
  have "u = s\<lparr>blocks := B', lh_block := L', icache := I'\<rparr>" by (simp add: t u)
  moreover have "ino ip u = (ino ip s)\<lparr>i_addrs := A', i_size := z'\<rparr>" by (simp add: ti ui)
  moreover have "blocks u (v, b) = blocks s (v, b)"
    if "v \<noteq> i_dev (ino ip s) \<or> b \<notin> file_blocks ip u \<and> b \<notin> bitmap_blocks s \<and> b \<noteq> IBLOCK (i_num (ino ip s)) (sb s)" for v b
    using that d(11) [of v b] e(11) [of v b] e(9) unfolding d(1,4,5,13) by (metis (no_types, lifting) subsetD)
  moreover have "blocks u (i_dev (ino ip s), IBLOCK (i_num (ino ip s)) (sb s)) k = blocks s (i_dev (ino ip s), IBLOCK (i_num (ino ip s)) (sb s)) k"
    if "k < dip_off (i_num (ino ip s)) \<or> dip_off (i_num (ino ip s)) + 64 \<le> k" for k
    using that d(12) [of k] e(12) [of k] unfolding d(1,4,5) by simp
  moreover have "length (icache u) = length (icache s)" "\<forall>jp. jp \<noteq> ip \<longrightarrow> ino jp u = ino jp s"
    using d(2,3) e(2,3) by simp_all
  moreover have "free_blocks (i_dev (ino ip s)) u \<subseteq> free_blocks (i_dev (ino ip s)) s" using d(7) e(7) unfolding d(4) by blast
  moreover have "\<forall>b < sb_size (sb s). in_use (i_dev (ino ip s)) s b \<longrightarrow> in_use (i_dev (ino ip s)) u b"
    using d(8) e(8) unfolding d(1,4) by blast
  moreover have "file_blocks ip s \<subseteq> file_blocks ip u" "file_blocks ip u \<subseteq> file_blocks ip s \<union> free_blocks (i_dev (ino ip s)) s"
    using d(7,9,10) e(9,10) unfolding d(4) by blast+
  moreover have "\<forall>n \<le> 140. slot ip s n \<noteq> 0 \<longrightarrow> slot ip u n = slot ip s n" using d(16) e(16) by simp
  ultimately show ?thesis unfolding grows_def by blast
qed

text \<open>Block \<open>x\<close>, fresh and zeroed, becomes position \<open>n\<close> of the file.\<close>

definition added :: "nat \<Rightarrow> nat \<Rightarrow> u32 \<Rightarrow> 'a fsys_scheme \<Rightarrow> 'a fsys_scheme \<Rightarrow> bool" where
  "added ip n x s t \<longleftrightarrow>
     (\<exists>B L I. t = s\<lparr>blocks := B, lh_block := L, icache := I\<rparr>) \<and>
     length (icache t) = length (icache s) \<and> (\<forall>jp. jp \<noteq> ip \<longrightarrow> ino jp t = ino jp s) \<and>
     (\<exists>A. length A = 13 \<and> ino ip t = (ino ip s)\<lparr>i_addrs := A\<rparr>) \<and>
     (\<forall>m \<le> 140. slot ip t m = (if m = n then x else slot ip s m)) \<and>
     free_blocks (i_dev (ino ip s)) t = free_blocks (i_dev (ino ip s)) s - {x} \<and>
     (\<forall>y < sb_size (sb s). in_use (i_dev (ino ip s)) t y \<longleftrightarrow> in_use (i_dev (ino ip s)) s y \<or> y = x) \<and>
     blocks t (i_dev (ino ip s), x) = (\<lambda>_. 0) \<and>
     (\<forall>d b. d \<noteq> i_dev (ino ip s) \<or> b \<noteq> x \<and> b \<notin> bitmap_blocks s \<and> (b = 0 \<or> b \<noteq> slot ip s 140) \<longrightarrow> blocks t (d, b) = blocks s (d, b))"

lemma addedD:
  assumes "added ip n x s t"
  shows "sb t = sb s" "length (icache t) = length (icache s)" "jp \<noteq> ip \<Longrightarrow> ino jp t = ino jp s"
    and "i_dev (ino ip t) = i_dev (ino ip s)" "i_num (ino ip t) = i_num (ino ip s)" "i_size (ino ip t) = i_size (ino ip s)"
    and "length (i_addrs (ino ip t)) = 13"
    and "m \<le> 140 \<Longrightarrow> slot ip t m = (if m = n then x else slot ip s m)"
    and "free_blocks (i_dev (ino ip s)) t = free_blocks (i_dev (ino ip s)) s - {x}"
    and "y < sb_size (sb s) \<Longrightarrow> in_use (i_dev (ino ip s)) t y \<longleftrightarrow> in_use (i_dev (ino ip s)) s y \<or> y = x"
    and "blocks t (i_dev (ino ip s), x) = (\<lambda>_. 0)"
    and "d \<noteq> i_dev (ino ip s) \<or> b \<noteq> x \<and> b \<notin> bitmap_blocks s \<and> (b = 0 \<or> b \<noteq> slot ip s 140) \<Longrightarrow> blocks t (d, b) = blocks s (d, b)"
    and "bitmap_blocks t = bitmap_blocks s" "inode_blocks t = inode_blocks s" "meta_blocks t = meta_blocks s"
proof -
  note c = assms [unfolded added_def]
  obtain B L I where t: "t = s\<lparr>blocks := B, lh_block := L, icache := I\<rparr>" using conjunct1 [OF c] by (elim exE)
  note c = conjunct2 [OF c]
  show "length (icache t) = length (icache s)" using conjunct1 [OF c] .
  note c = conjunct2 [OF c]
  show "jp \<noteq> ip \<Longrightarrow> ino jp t = ino jp s" by (rule conjunct1 [OF c, rule_format])
  note c = conjunct2 [OF c]
  obtain A where i: "length A = 13" "ino ip t = (ino ip s)\<lparr>i_addrs := A\<rparr>" using conjunct1 [OF c] by (elim exE conjE)
  note c = conjunct2 [OF c]
  show "m \<le> 140 \<Longrightarrow> slot ip t m = (if m = n then x else slot ip s m)" by (rule conjunct1 [OF c, rule_format])
  note c = conjunct2 [OF c]
  show "free_blocks (i_dev (ino ip s)) t = free_blocks (i_dev (ino ip s)) s - {x}" using conjunct1 [OF c] .
  note c = conjunct2 [OF c]
  show "y < sb_size (sb s) \<Longrightarrow> in_use (i_dev (ino ip s)) t y \<longleftrightarrow> in_use (i_dev (ino ip s)) s y \<or> y = x"
    by (rule conjunct1 [OF c, rule_format])
  note c = conjunct2 [OF c]
  show "blocks t (i_dev (ino ip s), x) = (\<lambda>_. 0)" using conjunct1 [OF c] .
  show "d \<noteq> i_dev (ino ip s) \<or> b \<noteq> x \<and> b \<notin> bitmap_blocks s \<and> (b = 0 \<or> b \<noteq> slot ip s 140) \<Longrightarrow> blocks t (d, b) = blocks s (d, b)"
    by (rule conjunct2 [OF c, rule_format])
  show S: "sb t = sb s" by (simp add: t)
  show "bitmap_blocks t = bitmap_blocks s" "inode_blocks t = inode_blocks s" "meta_blocks t = meta_blocks s"
    by (simp_all add: S bitmap_blocks_def inode_blocks_def meta_blocks_def)
  show "i_dev (ino ip t) = i_dev (ino ip s)" "i_num (ino ip t) = i_num (ino ip s)" "i_size (ino ip t) = i_size (ino ip s)"
      "length (i_addrs (ino ip t)) = 13"
    using i by simp_all
qed

lemma added_file_blocks:
  assumes "added ip n x s t" "n \<le> 140" "x \<noteq> 0" "slot ip s n = 0"
  shows "file_blocks ip t = insert x (file_blocks ip s)"
proof -
  have "slot ip t ` {..140} = insert x (slot ip s ` ({..140} - {n}))"
    using addedD(8) [OF assms(1)] assms(2) by (auto simp: image_iff Bex_def split: if_splits)
  moreover have "slot ip s ` {..140} = insert 0 (slot ip s ` ({..140} - {n}))"
    using assms(2,4) by force
  ultimately show ?thesis using assms(3) unfolding file_blocks_def by auto
qed

lemma free_not_file:
  assumes "file_ok ip s" "x \<in> free_blocks (i_dev (ino ip s)) s"
  shows "x \<notin> file_blocks ip s"
  using file_okD(6) [OF assms(1)] assms(2) by (auto simp: free_blocks_def)

lemma ind_in_file: "slot ip s 140 \<noteq> 0 \<Longrightarrow> slot ip s 140 \<in> file_blocks ip s"
  by (rule slot_in_file) simp_all

lemma iblock_meta: "file_ok ip s \<Longrightarrow> IBLOCK (i_num (ino ip s)) (sb s) \<in> inode_blocks s"
  using file_okD(3) by (auto simp: inode_blocks_def)

lemma added_grows:
  assumes f: "file_ok ip s" and l: "layout (i_dev (ino ip s)) s" and x: "x \<in> free_blocks (i_dev (ino ip s)) s"
    and n: "n \<le> 140" "slot ip s n = 0" "n < 140 \<longrightarrow> n < 12 \<or> slot ip s 140 \<noteq> 0" and a: "added ip n x s t"
  shows "grows ip s t"
proof -
  note d = addedD [OF a]
  note fx = free_facts [OF l x]
  note fb = added_file_blocks [OF a n(1) fx(1) n(2)]
  let ?dev = "i_dev (ino ip s)"
  note c = a [unfolded added_def]
  note B = conjunct1 [OF c] and c = conjunct2 [OF conjunct2 [OF conjunct2 [OF c]]]
  obtain A where A: "ino ip t = (ino ip s)\<lparr>i_addrs := A\<rparr>" using conjunct1 [OF c] by (elim exE conjE)
  then have A': "ino ip t = (ino ip s)\<lparr>i_addrs := A, i_size := i_size (ino ip s)\<rparr>" by simp
  have un: "blocks t (v, b) = blocks s (v, b)"
    if "v \<noteq> ?dev \<or> b \<notin> file_blocks ip t \<and> b \<notin> bitmap_blocks s" for v b
  proof (rule d(12))
    have "b \<noteq> x" "b = 0 \<or> b \<noteq> slot ip s 140" if "b \<notin> file_blocks ip t" using that ind_in_file [of ip s] by (auto simp: fb)
    then show "v \<noteq> ?dev \<or> b \<noteq> x \<and> b \<notin> bitmap_blocks s \<and> (b = 0 \<or> b \<noteq> slot ip s 140)" using that by blast
  qed
  have ib: "IBLOCK (i_num (ino ip s)) (sb s) \<notin> file_blocks ip t \<and> IBLOCK (i_num (ino ip s)) (sb s) \<notin> bitmap_blocks s"
    using iblock_meta [OF f] file_okD(7) [OF f] fx(3) l unfolding fb by (auto simp: layout_def meta_blocks_def)
  show ?thesis unfolding grows_def
  proof (intro conjI allI impI)
    show "\<exists>A z. ino ip t = (ino ip s)\<lparr>i_addrs := A, i_size := z\<rparr>" by (intro exI) (rule A')
    show "blocks t (v, b) = blocks s (v, b)"
      if "v \<noteq> ?dev \<or> b \<notin> file_blocks ip t \<and> b \<notin> bitmap_blocks s \<and> b \<noteq> IBLOCK (i_num (ino ip s)) (sb s)" for v b
      using un that by blast
    show "blocks t (?dev, IBLOCK (i_num (ino ip s)) (sb s)) k = blocks s (?dev, IBLOCK (i_num (ino ip s)) (sb s)) k" for k
      by (simp only: un [OF disjI2 [OF ib]])
    show "in_use ?dev t b" if "b < sb_size (sb s)" "in_use ?dev s b" for b using that d(10) by simp
    show "slot ip t m = slot ip s m" if "m \<le> 140" "slot ip s m \<noteq> 0" for m using that d(8) [of m] n(2) by auto
  qed (use B d(2,3,9) fb x in \<open>simp_all only: Diff_subset subset_insertI insert_subset Un_iff simp_thms, auto\<close>)
qed

lemma layout_cong:
  assumes "layout dev s" "sb t = sb s" "free_blocks dev t \<subseteq> free_blocks dev s"
  shows "layout dev t"
  using assms unfolding layout_def bitmap_blocks_def inode_blocks_def meta_blocks_def by auto

lemma added_ok:
  assumes f: "file_ok ip s" and l: "layout (i_dev (ino ip s)) s" and x: "x \<in> free_blocks (i_dev (ino ip s)) s"
    and n: "n \<le> 140" "slot ip s n = 0" and a: "added ip n x s t"
  shows "file_ok ip t" "layout (i_dev (ino ip s)) t" "k < 71680 \<Longrightarrow> fbyte ip t k = fbyte ip s k"
    "card (free_blocks (i_dev (ino ip s)) t) = card (free_blocks (i_dev (ino ip s)) s) - 1"
proof -
  note d = addedD [OF a]
  note fx = free_facts [OF l x]
  note fb = added_file_blocks [OF a n(1) fx(1) n(2)]
  note new = free_not_file [OF f x]
  have m: "x \<notin> meta_blocks s" using fx(1-3) by (simp add: meta_blocks_def)
  show "layout (i_dev (ino ip s)) t" by (rule layout_cong [OF l d(1)]) (simp add: d(9) Diff_subset)
  show "card (free_blocks (i_dev (ino ip s)) t) = card (free_blocks (i_dev (ino ip s)) s) - 1"
    using x by (simp add: d(9))
  show "file_ok ip t" unfolding file_ok_def d(1,2,4,5,6,7,15) fb
  proof (intro conjI allI impI ballI)
    show "b < sb_size (sb s)" if "b \<in> insert x (file_blocks ip s)" for b using that fx(4) file_okD(5) [OF f] by blast
    then show "in_use (i_dev (ino ip s)) t b" if "b \<in> insert x (file_blocks ip s)" for b
      using that d(10) [of b] file_okD(6) [OF f, of b] by blast
    show "b \<notin> meta_blocks s" if "b \<in> insert x (file_blocks ip s)" for b using that m file_okD(7) [OF f, of b] by blast
    show "p = q" if h: "p \<le> 140 \<and> q \<le> 140 \<and> slot ip t p = slot ip t q \<and> slot ip t p \<noteq> 0" for p q
    proof -
      have "slot ip s r \<noteq> x" if "r \<le> 140" for r using slot_in_file [OF that] new fx(1) by metis
      then show ?thesis using h d(8) [of p] d(8) [of q] file_okD(8) [OF f, of p q] by (auto split: if_splits)
    qed
    show "slot ip t r \<noteq> 0" if "512 * r < unat (i_size (ino ip s))" for r
    proof -
      have "r \<le> 140" using that file_okD(4) [OF f] by simp
      then show ?thesis using d(8) [of r] file_okD(9) [OF f that] fx(1) by simp
    qed
  qed (use file_okD(1,3,4) [OF f] in simp_all)
  show "fbyte ip t k = fbyte ip s k" if k: "k < 71680"
  proof -
    let ?m = "k div 512"
    have le: "?m < 140" using k by (simp add: div_less_iff_less_mult)
    show ?thesis
    proof (cases "?m = n \<or> slot ip s ?m = 0")
      case True
      then have "slot ip s ?m = 0" "slot ip t ?m = 0 \<or> slot ip t ?m = x" using n(2) d(8) [of ?m] le by auto
      then show ?thesis using d(11) by (auto simp: fbyte_def d(4) Let_def)
    next
      case False
      then have s: "slot ip t ?m = slot ip s ?m" "slot ip s ?m \<noteq> 0" using d(8) [of ?m] le by auto
      have i: "slot ip s ?m \<in> file_blocks ip s" by (rule slot_in_file [OF less_imp_le [OF le] s(2)])
      have "slot ip s ?m \<noteq> slot ip s 140" using file_okD(8) [OF f, of ?m 140] le s(2) by auto
      moreover have "slot ip s ?m \<notin> bitmap_blocks s" using file_okD(7) [OF f i] by (simp add: meta_blocks_def)
      moreover have "slot ip s ?m \<noteq> x" using i new by blast
      ultimately have "blocks t (i_dev (ino ip s), slot ip s ?m) = blocks s (i_dev (ino ip s), slot ip s ?m)"
        using d(12) by blast
      then show ?thesis using s by (simp add: fbyte_def d(4))
    qed
  qed
qed

lemma in_use_logged:
  assumes "b \<notin> bitmap_blocks s" "y < sb_size (sb s)"
  shows "in_use dev (logged d b x s) y \<longleftrightarrow> in_use dev s y"
  using assms by (auto simp: in_use_def bitmap_blocks_def)

lemma free_logged: "b \<notin> bitmap_blocks s \<Longrightarrow> free_blocks dev (logged d b x s) = free_blocks dev s"
  using in_use_logged [of b s] by (auto simp: free_blocks_def)

lemma in_use_set_ino [simp]: "in_use dev (set_ino ip i s) = in_use dev s" "free_blocks dev (set_ino ip i s) = free_blocks dev s"
  by (simp_all add: in_use_def free_blocks_def fun_eq_iff)

lemma changed_fields:
  "\<exists>B L I. allocated dev x s = s\<lparr>blocks := B, lh_block := L, icache := I\<rparr>"
  "\<exists>B L I. set_ino ip i (allocated dev x s) = s\<lparr>blocks := B, lh_block := L, icache := I\<rparr>"
  "\<exists>B L I. logged dev b y (allocated dev x s) = s\<lparr>blocks := B, lh_block := L, icache := I\<rparr>"
  "\<exists>B L I. logged dev b y s = s\<lparr>blocks := B, lh_block := L, icache := I\<rparr>"
proof -
  have l: "logged dev b y r = r\<lparr>blocks := blocks (logged dev b y r), lh_block := lh_block (logged dev b y r), icache := icache r\<rparr>" for b y and r :: "'a fsys_scheme"
    by (simp add: logged_def)
  then show "\<exists>B L I. logged dev b y s = s\<lparr>blocks := B, lh_block := L, icache := I\<rparr>" by blast
  define B L where "B = blocks (allocated dev x s)" and "L = lh_block (allocated dev x s)"
  have a: "allocated dev x s = s\<lparr>blocks := B, lh_block := L, icache := icache s\<rparr>"
    unfolding B_def L_def allocated_def Let_def logged_def by simp
  then show "\<exists>B L I. allocated dev x s = s\<lparr>blocks := B, lh_block := L, icache := I\<rparr>" by blast
  have "set_ino ip i (allocated dev x s) = s\<lparr>blocks := B, lh_block := L, icache := (icache s)[ip := i]\<rparr>"
    by (simp add: set_ino_def a)
  then show "\<exists>B L I. set_ino ip i (allocated dev x s) = s\<lparr>blocks := B, lh_block := L, icache := I\<rparr>" by blast
  have "logged dev b y (allocated dev x s) = s\<lparr>blocks := B((dev, b) := y), lh_block := lh_block (logged dev b y (allocated dev x s)), icache := icache s\<rparr>"
    by (simp add: logged_def a)
  then show "\<exists>B L I. logged dev b y (allocated dev x s) = s\<lparr>blocks := B, lh_block := L, icache := I\<rparr>" by blast
qed

lemma rd32_zero [simp]: "rd32 (\<lambda>_. 0) k = 0"
  by (simp add: rd32_def)

text \<open>The three ways in which \<open>bmap\<close> gives a file a block: a direct one, the indirect block itself, an entry of the indirect block.\<close>

lemma added_inode:
  assumes f: "file_ok ip s" and l: "layout (i_dev (ino ip s)) s" and x: "x \<in> free_blocks (i_dev (ino ip s)) s"
    and j: "j < 12 \<and> n = j \<or> j = 12 \<and> n = 140" and z: "slot ip s n = 0"
  shows "added ip n x s (set_ino ip ((ino ip s)\<lparr>i_addrs := (i_addrs (ino ip s))[j := x]\<rparr>) (allocated (i_dev (ino ip s)) x s))"
    (is "added ip n x s ?t")
proof -
  let ?dev = "i_dev (ino ip s)" and ?A = "(i_addrs (ino ip s))[j := x]"
  note af = allocated_facts [OF l x] and fx = free_facts [OF l x]
  have len: "ip < length (icache s)" "length (i_addrs (ino ip s)) = 13" using file_okD(1,2) [OF f] .
  have i: "ino ip ?t = (ino ip s)\<lparr>i_addrs := ?A\<rparr>" using len by simp
  have ind: "blocks (allocated ?dev x s) (?dev, slot ip s 140) = blocks s (?dev, slot ip s 140)" if "slot ip s 140 \<noteq> 0"
    using ind_in_file [OF that] file_okD(7) [OF f] free_not_file [OF f x] by (intro af(4)) (auto simp: meta_blocks_def)
  have "slot ip ?t m = (if m = n then x else slot ip s m)" if "m \<le> 140" for m
  proof (cases "m < 12 \<or> m = 140")
    case True
    then show ?thesis using j len by (auto simp: slot_def Let_def nth_list_update)
  next
    case False
    then have m: "\<not> m < 12" "m \<noteq> 140" "m \<noteq> n" using that j by auto
    show ?thesis
    proof (cases "j = 12")
      case True
      then show ?thesis using m z j len af(3) by (simp add: slot_def Let_def)
    next
      case False
      then have "?A ! 12 = i_addrs (ino ip s) ! 12" by simp
      then show ?thesis using m len ind by (simp add: slot_def Let_def)
    qed
  qed
  note sl = this
  show ?thesis unfolding added_def
  proof (intro conjI allI impI)
    show "\<exists>B L I. ?t = s\<lparr>blocks := B, lh_block := L, icache := I\<rparr>" by (rule changed_fields)
    show "\<exists>A. length A = 13 \<and> ino ip ?t = (ino ip s)\<lparr>i_addrs := A\<rparr>" using i len by (intro exI [of _ ?A]) simp
    show "slot ip ?t m = (if m = n then x else slot ip s m)" if "m \<le> 140" for m by (rule sl [OF that])
    show "blocks ?t (d, b) = blocks s (d, b)"
      if "d \<noteq> ?dev \<or> b \<noteq> x \<and> b \<notin> bitmap_blocks s \<and> (b = 0 \<or> b \<noteq> slot ip s 140)" for d b
      using af(4) [of d b] that by auto
  qed (use af(1-3) in simp_all)
qed

lemma added_indirect:
  assumes f: "file_ok ip s" and l: "layout (i_dev (ino ip s)) s" and x: "x \<in> free_blocks (i_dev (ino ip s)) s"
    and n: "12 \<le> n" "n < 140" and p: "slot ip s 140 \<noteq> 0"
  shows "added ip n x s (logged (i_dev (ino ip s)) (slot ip s 140)
    (wr32 (4 * (n - 12)) x (blocks (allocated (i_dev (ino ip s)) x s) (i_dev (ino ip s), slot ip s 140))) (allocated (i_dev (ino ip s)) x s))"
    (is "added ip n x s (logged ?dev ?ind ?D ?u)")
proof -
  let ?t = "logged ?dev ?ind ?D ?u"
  note af = allocated_facts [OF l x]
  note ii = ind_in_file [OF p]
  have len: "length (i_addrs (ino ip s)) = 13" using file_okD(2) [OF f] .
  have nb: "?ind \<notin> bitmap_blocks s" "?ind \<noteq> x" using file_okD(7) [OF f ii] free_not_file [OF f x] ii by (auto simp: meta_blocks_def)
  then have nu: "?ind \<notin> bitmap_blocks ?u" by (simp add: bitmap_blocks_def)
  have old: "blocks ?u (?dev, ?ind) = blocks s (?dev, ?ind)" using af(4) nb by blast
  have sl: "slot ip ?t m = (if m = n then x else slot ip s m)" if "m \<le> 140" for m
  proof (cases "12 \<le> m \<and> m < 140")
    case True
    have "slot ip ?t m = rd32 ?D (4 * (m - 12))" using True p by (simp add: slot_def Let_def)
    moreover have "slot ip s m = rd32 (blocks s (?dev, ?ind)) (4 * (m - 12))" using True p by (simp add: slot_def Let_def)
    moreover have "rd32 ?D (4 * (m - 12)) = rd32 (blocks s (?dev, ?ind)) (4 * (m - 12))" if "m \<noteq> n"
      unfolding old by (rule rd_wr_other(4)) (use that True n in linarith)
    ultimately show ?thesis by (simp add: rd32_wr32_same)
  next
    case False
    then show ?thesis using that n by (auto simp: slot_def Let_def)
  qed
  show ?thesis unfolding added_def
  proof (intro conjI allI impI)
    show "\<exists>B L I. ?t = s\<lparr>blocks := B, lh_block := L, icache := I\<rparr>" by (rule changed_fields)
    show "\<exists>A. length A = 13 \<and> ino ip ?t = (ino ip s)\<lparr>i_addrs := A\<rparr>" using len by (intro exI [of _ "i_addrs (ino ip s)"]) simp
    show "slot ip ?t m = (if m = n then x else slot ip s m)" if "m \<le> 140" for m by (rule sl [OF that])
    show "free_blocks ?dev ?t = free_blocks ?dev s - {x}" by (simp add: free_logged [OF nu] af(2))
    show "in_use ?dev ?t y \<longleftrightarrow> in_use ?dev s y \<or> y = x" if "y < sb_size (sb s)" for y
      using in_use_logged [OF nu, of y] af(1) that by simp
    show "blocks ?t (?dev, x) = (\<lambda>_. 0)" using nb(2) af(3) by simp
    show "blocks ?t (d, b) = blocks s (d, b)"
      if "d \<noteq> ?dev \<or> b \<noteq> x \<and> b \<notin> bitmap_blocks s \<and> (b = 0 \<or> b \<noteq> ?ind)" for d b
      using af(4) [of d b] that p by auto
  qed simp_all
qed

lemma log_room_set_ino [simp]: "log_room k (set_ino ip i s) = log_room k s"
  by (simp add: log_room_def set_ino_def)

text \<open>The result of giving the file a block: everything \<open>bmap\<close> promises.\<close>

definition mapped :: "nat \<Rightarrow> nat \<Rightarrow> nat \<Rightarrow> 'a fsys_scheme \<Rightarrow> 'a fsys_scheme \<Rightarrow> bool" where
  "mapped ip j k s t \<longleftrightarrow> file_ok ip t \<and> layout (i_dev (ino ip s)) t \<and> grows ip s t \<and> (\<forall>k < 71680. fbyte ip t k = fbyte ip s k) \<and>
     card (free_blocks (i_dev (ino ip s)) s) \<le> card (free_blocks (i_dev (ino ip s)) t) + j \<and> log_room k t \<and>
     i_size (ino ip t) = i_size (ino ip s)"

lemma added_mapped:
  assumes "file_ok ip s" "layout (i_dev (ino ip s)) s" "x \<in> free_blocks (i_dev (ino ip s)) s"
    and "n \<le> 140" "slot ip s n = 0" "n < 140 \<longrightarrow> n < 12 \<or> slot ip s 140 \<noteq> 0" and "added ip n x s t" "log_room k t"
  shows "mapped ip 1 k s t"
  using added_ok [OF assms(1-5,7)] added_grows [OF assms(1-7)] addedD(6) [OF assms(7)] assms(8) by (simp add: mapped_def)

lemma mapped_trans:
  assumes "mapped ip i j s t" "mapped ip i' j' t u"
  shows "mapped ip (i + i') j' s u"
proof -
  have g: "grows ip s t" "grows ip t u" using assms by (simp_all add: mapped_def)
  show ?thesis using assms grows_trans [OF g] growsD(4) [OF g(1)] by (simp add: mapped_def)
qed

lemma bmap_present:
  assumes "unat bn < 140" "slot ip s (unat bn) \<noteq> 0"
  shows "bmap ip bn s = Inr (slot ip s (unat bn), s)"
proof (cases "bn < 12")
  case True
  then show ?thesis using assms(2) by (simp add: bmap_def slot_def Let_def word_less_nat_alt)
next
  case False
  then have "unat (bn - 12) = unat bn - 12" using unat_sub [of 12 bn] by (simp add: word_less_nat_alt word_le_nat_alt)
  then show ?thesis using False assms by (auto simp: bmap_def slot_def Let_def word_less_nat_alt split: if_splits)
qed

lemma bmap_direct:
  assumes f: "file_ok ip s" and l: "layout (i_dev (ino ip s)) s" and r: "log_room (Suc (Suc k)) s"
    and fr: "free_blocks (i_dev (ino ip s)) s \<noteq> {}" and n: "unat bn < 12" "slot ip s (unat bn) = 0"
  shows "\<exists>t. bmap ip bn s = Inr (slot ip t (unat bn), t) \<and> slot ip t (unat bn) \<noteq> 0 \<and> mapped ip 1 k s t"
proof -
  obtain x where x: "x \<in> free_blocks (i_dev (ino ip s)) s" "balloc (i_dev (ino ip s)) s = Inr (x, allocated (i_dev (ino ip s)) x s)"
    using balloc_ok [OF l r fr] by blast
  let ?t = "set_ino ip ((ino ip s)\<lparr>i_addrs := (i_addrs (ino ip s))[unat bn := x]\<rparr>) (allocated (i_dev (ino ip s)) x s)"
  have a: "added ip (unat bn) x s ?t" by (rule added_inode [OF f l x(1)]) (use n in simp_all)
  have "mapped ip 1 k s ?t"
    by (rule added_mapped [OF f l x(1) _ n(2) _ a]) (use n allocated_facts(6) [OF l x(1) r] in simp_all)
  moreover have "slot ip ?t (unat bn) = x" using addedD(8) [OF a, of "unat bn"] n(1) by simp
  moreover have "bmap ip bn s = Inr (x, ?t)" using n x(2) by (simp add: bmap_def slot_def Let_def word_less_nat_alt)
  ultimately show ?thesis using free_facts(1) [OF l x(1)] by auto
qed

lemma mapped_same:
  assumes "file_ok ip s" "layout (i_dev (ino ip s)) s" "log_room k s"
  shows "mapped ip j k s s"
  using assms grows_refl by (simp add: mapped_def)

definition indirect_block :: "nat \<Rightarrow> 'a fsys_scheme \<Rightarrow> (u32 \<times> 'a fsys_scheme) res" where
  "indirect_block ip s =
    (let addr = i_addrs (ino ip s) ! NDIRECT
     in if addr = 0 then
          bindr (balloc (i_dev (ino ip s)) s) (\<lambda>(addr, s).
          Inr (addr, set_ino ip ((ino ip s)\<lparr>i_addrs := (i_addrs (ino ip s))[NDIRECT := addr]\<rparr>) s))
        else Inr (addr, s))"

lemma indirect_block_ok:
  assumes f: "file_ok ip s" and l: "layout (i_dev (ino ip s)) s" and r: "log_room (Suc (Suc k)) s"
    and fr: "free_blocks (i_dev (ino ip s)) s \<noteq> {}"
  shows "\<exists>t. indirect_block ip s = Inr (slot ip t 140, t) \<and> slot ip t 140 \<noteq> 0 \<and> mapped ip 1 k s t"
proof (cases "slot ip s 140 = 0")
  case True
  obtain x where x: "x \<in> free_blocks (i_dev (ino ip s)) s" "balloc (i_dev (ino ip s)) s = Inr (x, allocated (i_dev (ino ip s)) x s)"
    using balloc_ok [OF l r fr] by blast
  let ?t = "set_ino ip ((ino ip s)\<lparr>i_addrs := (i_addrs (ino ip s))[12 := x]\<rparr>) (allocated (i_dev (ino ip s)) x s)"
  have a: "added ip 140 x s ?t" by (rule added_inode [OF f l x(1)]) (use True in simp_all)
  have "mapped ip 1 k s ?t"
    by (rule added_mapped [OF f l x(1) _ True _ a]) (use allocated_facts(6) [OF l x(1) r] in simp_all)
  moreover have "slot ip ?t 140 = x" using addedD(8) [OF a, of 140] by simp
  moreover have "indirect_block ip s = Inr (x, ?t)" using True x(2) by (simp add: indirect_block_def slot_def Let_def)
  ultimately show ?thesis using free_facts(1) [OF l x(1)] by auto
next
  case False
  then have "indirect_block ip s = Inr (slot ip s 140, s)" by (simp add: indirect_block_def slot_def Let_def)
  moreover have "mapped ip 1 k s s" by (rule mapped_same [OF f l log_room_mono [OF r]]) simp
  ultimately show ?thesis using False by blast
qed

lemma bmap_indirect:
  assumes f: "file_ok ip s" and l: "layout (i_dev (ino ip s)) s" and r: "log_room (Suc (Suc (Suc (Suc (Suc k))))) s"
    and fr: "2 \<le> card (free_blocks (i_dev (ino ip s)) s)" and n: "12 \<le> unat bn" "unat bn < 140"
  shows "\<exists>t. bmap ip bn s = Inr (slot ip t (unat bn), t) \<and> slot ip t (unat bn) \<noteq> 0 \<and> mapped ip 2 k s t"
proof -
  let ?dev = "i_dev (ino ip s)"
  have b: "\<not> bn < 12" "bn - 12 < 128" "unat (bn - 12) = unat bn - 12"
    using n unat_sub [of 12 bn] by (simp_all add: word_less_nat_alt word_le_nat_alt)
  have "free_blocks ?dev s \<noteq> {}" using fr by auto
  from indirect_block_ok [OF f l r this] obtain u where u: "indirect_block ip s = Inr (slot ip u 140, u)" "slot ip u 140 \<noteq> 0"
    "mapped ip 1 (Suc (Suc (Suc k))) s u" by blast
  have g: "grows ip s u" and fu: "file_ok ip u" and ru: "log_room (Suc (Suc (Suc k))) u" using u(3) by (simp_all add: mapped_def)
  have du: "i_dev (ino ip u) = ?dev" using growsD(4) [OF g] .
  have lu: "layout (i_dev (ino ip u)) u" using u(3) by (simp add: mapped_def du)
  have fru: "free_blocks (i_dev (ino ip u)) u \<noteq> {}" using u(3) fr by (auto simp: mapped_def du)
  have e: "rd32 (blocks u (i_dev (ino ip u), slot ip u 140)) (4 * (unat bn - 12)) = slot ip u (unat bn)"
    using n u(2) by (simp add: slot_def Let_def)
  have bm: "bmap ip bn s =
    (if slot ip u (unat bn) = 0 then
       bindr (balloc (i_dev (ino ip u)) u) (\<lambda>(addr, s).
       bindr (log_write (i_dev (ino ip u)) (slot ip u 140) (wr32 (4 * (unat bn - 12)) addr (blocks s (i_dev (ino ip u), slot ip u 140))) s) (\<lambda>(_, s).
       Inr (addr, s)))
     else Inr (slot ip u (unat bn), u))"
    using b u(1) unfolding bmap_def indirect_block_def by (simp add: Let_def e)
  show ?thesis
  proof (cases "slot ip u (unat bn) = 0")
    case False
    have "mapped ip 1 k u u" by (rule mapped_same [OF fu lu log_room_mono [OF ru]]) simp
    then show ?thesis using False bm mapped_trans [OF u(3)] by (auto simp: numeral_2_eq_2)
  next
    case True
    obtain x where x: "x \<in> free_blocks (i_dev (ino ip u)) u" "balloc (i_dev (ino ip u)) u = Inr (x, allocated (i_dev (ino ip u)) x u)"
      using balloc_ok [OF lu ru fru] by blast
    note a = added_indirect [OF fu lu x(1) n u(2)]
    note w = log_write_room [OF allocated_facts(6) [OF lu x(1) ru]]
    have "mapped ip 1 k u (logged (i_dev (ino ip u)) (slot ip u 140)
      (wr32 (4 * (unat bn - 12)) x (blocks (allocated (i_dev (ino ip u)) x u) (i_dev (ino ip u), slot ip u 140))) (allocated (i_dev (ino ip u)) x u))"
      by (rule added_mapped [OF fu lu x(1) _ True _ a w(2)]) (use n u(2) in simp_all)
    from mapped_trans [OF u(3) this] show ?thesis
      using bm True x(2) w(1) addedD(8) [OF a, of "unat bn"] n(2) free_facts(1) [OF lu x(1)] by (simp add: numeral_2_eq_2)
  qed
qed

lemma bmap_ok:
  assumes f: "file_ok ip s" and l: "layout (i_dev (ino ip s)) s" and r: "log_room (5 + k) s"
    and fr: "2 \<le> card (free_blocks (i_dev (ino ip s)) s)" and n: "unat bn < 140"
  shows "\<exists>t. bmap ip bn s = Inr (slot ip t (unat bn), t) \<and> slot ip t (unat bn) \<noteq> 0 \<and> mapped ip 2 k s t"
proof (cases "unat bn < 12 \<and> slot ip s (unat bn) = 0")
  case True
  have "log_room (Suc (Suc k)) s" by (rule log_room_mono [OF r]) simp
  moreover have "free_blocks (i_dev (ino ip s)) s \<noteq> {}" using fr by auto
  ultimately show ?thesis using bmap_direct [OF f l, of k bn] True by (auto simp: mapped_def)
next
  case False
  then show ?thesis
  proof (cases "slot ip s (unat bn) = 0")
    case True
    then show ?thesis using bmap_indirect [OF f l, of k bn] False fr n r by (simp add: numeral_eq_Suc)
  next
    case present: False
    have "mapped ip 2 k s s" by (rule mapped_same [OF f l log_room_mono [OF r]]) simp
    then show ?thesis using bmap_present [OF n present] present by blast
  qed
qed

section \<open>Writing\<close>

text \<open>A change to one data block of the file.\<close>

lemma put_in_block:
  assumes f: "file_ok ip u" and l: "layout (i_dev (ino ip u)) u" and n: "n < 140" "slot ip u n \<noteq> 0"
    and t: "t = logged (i_dev (ino ip u)) (slot ip u n) d u"
  shows "file_ok ip t" "layout (i_dev (ino ip u)) t" "grows ip u t" "m \<le> 140 \<Longrightarrow> slot ip t m = slot ip u m"
    "free_blocks (i_dev (ino ip u)) t = free_blocks (i_dev (ino ip u)) u"
    "k < 71680 \<Longrightarrow> fbyte ip t k = (if k div 512 = n then d (k mod 512) else fbyte ip u k)"
proof -
  let ?dev = "i_dev (ino ip u)" and ?b = "slot ip u n"
  have b: "?b \<in> file_blocks ip u" using slot_in_file [of n ip u] n by simp
  have nb: "?b \<notin> bitmap_blocks u" "?b \<notin> inode_blocks u" using file_okD(7) [OF f b] by (simp_all add: meta_blocks_def)
  have ni: "?b \<noteq> slot ip u 140" using file_okD(8) [OF f, of n 140] n by auto
  have i: "ino jp t = ino jp u" "sb t = sb u" "icache t = icache u" for jp by (simp_all add: t)
  have sl: "slot ip t m = slot ip u m" if "m \<le> 140" for m
    using ni that by (auto simp: slot_def Let_def t)
  then show "m \<le> 140 \<Longrightarrow> slot ip t m = slot ip u m" .
  have fb: "file_blocks ip t = file_blocks ip u" unfolding file_blocks_def using sl by force
  show fr: "free_blocks ?dev t = free_blocks ?dev u" by (simp add: t free_logged [OF nb(1)])
  have iu: "in_use ?dev t y = in_use ?dev u y" if "y < sb_size (sb u)" for y using in_use_logged [OF nb(1) that] by (simp add: t)
  show "layout ?dev t" by (rule layout_cong [OF l i(2)]) (simp add: fr)
  have mb: "meta_blocks t = meta_blocks u" "bitmap_blocks t = bitmap_blocks u"
    by (simp_all add: meta_blocks_def bitmap_blocks_def inode_blocks_def i)
  have "slot ip t r \<noteq> 0" if "512 * r < unat (i_size (ino ip u))" for r
    using file_okD(9) [OF f that] sl [of r] file_okD(4) [OF f] that by simp
  then show "file_ok ip t" unfolding file_ok_def i mb fb
    using file_okD(1-7) [OF f] file_okD(8) [OF f] iu sl by auto
  show "grows ip u t" unfolding grows_def
  proof (intro conjI allI impI)
    show "\<exists>B L I. t = u\<lparr>blocks := B, lh_block := L, icache := I\<rparr>" unfolding t by (rule changed_fields)
    show "\<exists>A z. ino ip t = (ino ip u)\<lparr>i_addrs := A, i_size := z\<rparr>"
      by (intro exI [of _ "i_addrs (ino ip u)"] exI [of _ "i_size (ino ip u)"]) (simp add: i)
    show "blocks t (v, w) = blocks u (v, w)"
      if "v \<noteq> ?dev \<or> w \<notin> file_blocks ip t \<and> w \<notin> bitmap_blocks u \<and> w \<noteq> IBLOCK (i_num (ino ip u)) (sb u)" for v w
      using that b by (auto simp: t fb [unfolded t])
    show "blocks t (?dev, IBLOCK (i_num (ino ip u)) (sb u)) k = blocks u (?dev, IBLOCK (i_num (ino ip u)) (sb u)) k" for k
      using iblock_meta [OF f] nb(2) by (auto simp: t)
    show "in_use ?dev t y" if "y < sb_size (sb u)" "in_use ?dev u y" for y using iu that by simp
  qed (simp_all add: i fr fb sl)
  show "fbyte ip t k = (if k div 512 = n then d (k mod 512) else fbyte ip u k)" if k: "k < 71680"
  proof -
    have le: "k div 512 < 140" using k by (simp add: div_less_iff_less_mult)
    have "slot ip u (k div 512) \<noteq> ?b" if "k div 512 \<noteq> n"
      using file_okD(8) [OF f, of n "k div 512"] n le that by auto
    then show ?thesis using sl [of "k div 512"] le n by (auto simp: fbyte_def Let_def i t)
  qed
qed

definition turns :: "nat \<Rightarrow> nat \<Rightarrow> nat" where
  "turns off r = (if r = 0 then 0 else (off mod 512 + r + 511) div 512)"

lemma turns_step:
  assumes "0 < r" "m = min r (512 - off mod 512)"
  shows "turns off r = Suc (turns (off + m) (r - m))"
proof (cases "r \<le> 512 - off mod 512")
  case True
  have "off mod 512 + r \<le> 512" using True by (simp add: le_diff_conv2 less_imp_le)
  then have "(off mod 512 + r + 511) div 512 = 1" using assms(1) by (intro div_nat_eqI) simp_all
  then show ?thesis using True assms by (simp add: turns_def min_def)
next
  case False
  then have m: "m = 512 - off mod 512" using assms(2) by simp
  have l: "off mod 512 < 512" by simp
  have "off + m = off div 512 * 512 + 512" using m l div_mult_mod_eq [of off 512] by linarith
  then have z: "(off + m) mod 512 = 0" by simp
  have "off mod 512 + r + 511 = (r - m + 511) + 512" using m l False by linarith
  then have "(off mod 512 + r + 511) div 512 = Suc ((r - m + 511) div 512)" by simp
  moreover have "0 < r - m" using m False by linarith
  ultimately show ?thesis using z assms(1) by (simp add: turns_def)
qed

definition written :: "nat \<Rightarrow> nat \<Rightarrow> u8 list \<Rightarrow> 'a fsys_scheme \<Rightarrow> 'a fsys_scheme \<Rightarrow> bool" where
  "written ip off bs s t \<longleftrightarrow> file_ok ip t \<and> layout (i_dev (ino ip s)) t \<and> grows ip s t \<and> i_size (ino ip t) = i_size (ino ip s) \<and>
     (\<forall>k < 71680. fbyte ip t k = (if off \<le> k \<and> k < off + length bs then bs ! (k - off) else fbyte ip s k)) \<and>
     (\<forall>k. off \<le> k \<and> k < off + length bs \<longrightarrow> slot ip t (k div 512) \<noteq> 0)"

lemma unat_min: "unat (min a b) = min (unat a) (unat (b :: u32))"
  by (simp add: min_def word_le_nat_alt)

lemma chunk_nat:
  fixes off r :: u32
  assumes "unat off + unat r \<le> 71680" and m: "m = min r (512 - off mod 512)"
  shows "unat m = min (unat r) (512 - unat off mod 512)" "unat (off + m) = unat off + unat m" "unat (r - m) = unat r - unat m"
    "unat (off mod 512) = unat off mod 512" "unat (off div 512) = unat off div 512" "off + m + (r - m) = off + r"
proof -
  have o: "unat (off mod 512) = unat off mod 512" by (simp add: unat_mod)
  then have "off mod 512 \<le> 512" by (simp add: word_le_nat_alt less_imp_le)
  then have "unat (512 - off mod 512) = 512 - unat off mod 512" using unat_sub [of "off mod 512" 512] o by (simp add: word_le_nat_alt)
  then show u: "unat m = min (unat r) (512 - unat off mod 512)" by (simp add: m unat_min)
  then have "m \<le> r" by (simp add: word_le_nat_alt)
  then show "unat (r - m) = unat r - unat m" using unat_sub [of m r] by simp
  show "unat (off + m) = unat off + unat m" by (rule unat_add_nowrap) (use u assms(1) in simp)
qed (simp_all add: unat_mod unat_div)

lemma written_Nil: "file_ok ip s \<Longrightarrow> layout (i_dev (ino ip s)) s \<Longrightarrow> written ip off [] s s"
  by (auto simp: written_def grows_refl)

lemma written_append:
  assumes a: "written ip off bs s t" and b: "written ip (off + length bs) cs t u" and len: "off + length bs + length cs \<le> 71680"
  shows "written ip off (bs @ cs) s u"
proof -
  have g: "grows ip s t" "grows ip t u" using a b by (simp_all add: written_def)
  have "fbyte ip u k = (if off \<le> k \<and> k < off + length (bs @ cs) then (bs @ cs) ! (k - off) else fbyte ip s k)" if "k < 71680" for k
  proof -
    have "fbyte ip u k = (if off + length bs \<le> k \<and> k < off + length bs + length cs then cs ! (k - (off + length bs)) else fbyte ip t k)"
      "fbyte ip t k = (if off \<le> k \<and> k < off + length bs then bs ! (k - off) else fbyte ip s k)"
      using a b that by (simp_all add: written_def)
    then show ?thesis by (auto simp: nth_append)
  qed
  moreover have "slot ip u (k div 512) \<noteq> 0" if "off \<le> k" "k < off + length (bs @ cs)" for k
  proof (cases "k < off + length bs")
    case True
    have "k div 512 < 140" using that(2) len by (simp add: div_less_iff_less_mult)
    then show ?thesis using growsD(16) [OF g(2), of "k div 512"] a True that(1) by (simp add: written_def)
  next
    case False
    then show ?thesis using b that(2) by (simp add: written_def)
  qed
  ultimately show ?thesis using a b grows_trans [OF g] growsD(4) [OF g(1)] by (simp add: written_def)
qed

lemma block_pos: "(k :: nat) = 512 * n + x \<Longrightarrow> x < 512 \<Longrightarrow> k div 512 = n \<and> k mod 512 = x"
  by simp

text \<open>One turn of the loop: the block is there after \<open>bmap\<close>, the bytes go into it.\<close>

lemma write_turn:
  fixes off r :: u32
  assumes f: "file_ok ip s" and l: "layout (i_dev (ino ip s)) s" and rm: "log_room (6 + k) s"
    and fr: "2 \<le> card (free_blocks (i_dev (ino ip s)) s)" and len: "unat off + unat r \<le> 71680" "length src = unat r" "r \<noteq> 0"
    and m: "m = min r (512 - off mod 512)"
  shows "\<exists>t. writei_loop ip src off r s = writei_loop ip (drop (unat m) src) (off + m) (r - m) t \<and>
    written ip (unat off) (take (unat m) src) s t \<and> log_room k t \<and>
    card (free_blocks (i_dev (ino ip s)) s) \<le> card (free_blocks (i_dev (ino ip s)) t) + 2"
proof -
  note c = chunk_nat [OF len(1) m]
  let ?n = "unat off div 512" and ?o = "unat off mod 512" and ?bs = "take (unat m) src"
  have "0 < unat r" using len(3) by (simp add: unat_gt_0)
  then have n: "?n < 140" using len(1) by (simp add: div_less_iff_less_mult)
  have "log_room (5 + Suc k) s" using rm by simp
  from bmap_ok [OF f l this fr, of "off div 512"] n obtain u where
    u: "bmap ip (off div 512) s = Inr (slot ip u ?n, u)" "slot ip u ?n \<noteq> 0" "mapped ip 2 (Suc k) s u" by (auto simp: c(5))
  have g: "grows ip s u" and fu: "file_ok ip u" and ru: "log_room (Suc k) u" using u(3) by (simp_all add: mapped_def)
  have du: "i_dev (ino ip u) = i_dev (ino ip s)" using growsD(4) [OF g] .
  have lu: "layout (i_dev (ino ip u)) u" using u(3) by (simp add: mapped_def du)
  let ?d = "put_at ?o ?bs (blocks u (i_dev (ino ip u), slot ip u ?n))"
  let ?t = "logged (i_dev (ino ip u)) (slot ip u ?n) ?d u"
  note pb = put_in_block [OF fu lu n u(2), where d = ?d and t = ?t, OF refl]
  have bl: "length ?bs = unat m" "?o + unat m \<le> 512" using len(2) c(1) by auto
  have "writei_loop ip src off r s = writei_loop ip (drop (unat m) src) (off + m) (r - m) ?t"
    using u(1) len(3) log_write_room(1) [OF ru] by (subst writei_loop.simps) (simp add: Let_def c(4) m [symmetric])
  moreover have "fbyte ip ?t k = (if unat off \<le> k \<and> k < unat off + length ?bs then ?bs ! (k - unat off) else fbyte ip s k)" if k: "k < 71680" for k
  proof -
    have e: "fbyte ip ?t k = (if k div 512 = ?n then ?d (k mod 512) else fbyte ip s k)" using pb(6) [OF k] u(3) k by (simp add: mapped_def)
    have in_block: "k div 512 = ?n \<and> k mod 512 = ?o + (k - unat off)" if "unat off \<le> k" "k < unat off + unat m"
    proof -
      have "unat off = 512 * ?n + ?o" by simp
      then have "k = 512 * ?n + (?o + (k - unat off))" "?o + (k - unat off) < 512" using that bl(2) by linarith+
      then show ?thesis by (rule block_pos)
    qed
    have out: "?d (k mod 512) = fbyte ip s k" if "k div 512 = ?n" "\<not> (unat off \<le> k \<and> k < unat off + unat m)"
    proof -
      have "k = 512 * ?n + k mod 512" "unat off = 512 * ?n + ?o" using that(1) by (metis mult_div_mod_eq, simp)
      then have "k mod 512 < ?o \<or> ?o + length ?bs \<le> k mod 512" using that(2) bl(1) by linarith
      then have "?d (k mod 512) = blocks u (i_dev (ino ip u), slot ip u ?n) (k mod 512)" by (rule put_at_out)
      moreover have "fbyte ip s k = fbyte ip u k" using u(3) k by (simp add: mapped_def)
      ultimately show ?thesis using that(1) u(2) by (simp add: fbyte_def)
    qed
    show ?thesis
    proof (cases "unat off \<le> k \<and> k < unat off + unat m")
      case True
      then have w: "?o \<le> k mod 512" "k mod 512 < ?o + length ?bs" "k mod 512 - ?o = k - unat off" using in_block bl(1) by auto
      have "?d (k mod 512) = ?bs ! (k - unat off)" unfolding put_at_in [OF w(1,2)] w(3) ..
      then show ?thesis using e in_block True bl(1) by simp
    next
      case False
      then show ?thesis using e out bl(1) by auto
    qed
  qed
  moreover have "slot ip ?t (k div 512) \<noteq> 0" if "unat off \<le> k" "k < unat off + length ?bs" for k
  proof -
    have "512 * ?n + ?o = unat off" by simp
    then have "512 * ?n \<le> k" "k < 512 * ?n + 512" using that bl by linarith+
    then have "k div 512 = ?n" by (intro div_nat_eqI) simp_all
    then show ?thesis using pb(4) [of ?n] n u(2) by simp
  qed
  moreover have "grows ip s ?t" using grows_trans [OF g pb(3)] .
  ultimately have "written ip (unat off) ?bs s ?t \<and> writei_loop ip src off r s = writei_loop ip (drop (unat m) src) (off + m) (r - m) ?t"
    using pb(1,2) u(3) unfolding written_def by (simp add: du mapped_def)
  then show ?thesis using log_write_room(2) [OF ru] pb(5) u(3) by (intro exI [of _ ?t]) (simp add: mapped_def du)
qed

lemma writei_loop_ok:
  assumes "file_ok ip s" "layout (i_dev (ino ip s)) s" "log_room (6 * turns (unat off) (unat r) + k) s"
    and "2 * turns (unat off) (unat r) \<le> card (free_blocks (i_dev (ino ip s)) s)"
    and "unat off + unat r \<le> 71680" "length src = unat r"
  shows "\<exists>t. writei_loop ip src off r s = Inr (off + r, t) \<and> written ip (unat off) src s t \<and> log_room k t \<and>
    card (free_blocks (i_dev (ino ip s)) s) \<le> card (free_blocks (i_dev (ino ip s)) t) + 2 * turns (unat off) (unat r)"
  using assms
proof (induction "unat r" arbitrary: off r src s rule: less_induct)
  case less
  show ?case
  proof (cases "r = 0")
    case True
    then show ?thesis using less.prems written_Nil by (subst writei_loop.simps) (simp add: turns_def)
  next
    case False
    define m where "m = min r (512 - off mod 512)"
    note c = chunk_nat [OF less.prems(5) m_def]
    have T: "turns (unat off) (unat r) = Suc (turns (unat (off + m)) (unat (r - m)))"
      using turns_step [of "unat r" "unat m" "unat off"] False c(1-3) by (simp add: unat_gt_0)
    have rm: "log_room (6 + (6 * turns (unat (off + m)) (unat (r - m)) + k)) s"
      by (rule log_room_mono [OF less.prems(3)]) (simp add: T)
    from write_turn [OF less.prems(1,2) rm _ less.prems(5,6) False m_def] less.prems(4) obtain t where
      t: "writei_loop ip src off r s = writei_loop ip (drop (unat m) src) (off + m) (r - m) t"
        "written ip (unat off) (take (unat m) src) s t" "log_room (6 * turns (unat (off + m)) (unat (r - m)) + k) t"
        "card (free_blocks (i_dev (ino ip s)) s) \<le> card (free_blocks (i_dev (ino ip s)) t) + 2"
      by (auto simp: T)
    have ft: "file_ok ip t" "layout (i_dev (ino ip s)) t" and g: "grows ip s t" using t(2) by (simp_all add: written_def)
    have d: "i_dev (ino ip t) = i_dev (ino ip s)" using growsD(4) [OF g] .
    have ml: "length (take (unat m) src) = unat m" "unat m \<le> unat r" using less.prems(6) c(1) by simp_all
    have "\<exists>u. writei_loop ip (drop (unat m) src) (off + m) (r - m) t = Inr (off + m + (r - m), u) \<and>
        written ip (unat (off + m)) (drop (unat m) src) t u \<and> log_room k u \<and>
        card (free_blocks (i_dev (ino ip t)) t) \<le> card (free_blocks (i_dev (ino ip t)) u) + 2 * turns (unat (off + m)) (unat (r - m))"
    proof (rule less.hyps)
      show "unat (r - m) < unat r" using chunk_pos [OF False, of off] by (simp add: m_def)
      show "unat (off + m) + unat (r - m) \<le> 71680" using less.prems(5) c(2,3) ml(2) by simp
    qed (use less.prems(4,6) t(3,4) ft c(3) in \<open>simp_all add: d T\<close>)
    then obtain u where u: "writei_loop ip (drop (unat m) src) (off + m) (r - m) t = Inr (off + r, u)"
        "written ip (unat off + length (take (unat m) src)) (drop (unat m) src) t u" "log_room k u"
        "card (free_blocks (i_dev (ino ip t)) t) \<le> card (free_blocks (i_dev (ino ip t)) u) + 2 * turns (unat (off + m)) (unat (r - m))"
      unfolding c(6) ml(1) c(2) by blast
    have "written ip (unat off) (take (unat m) src @ drop (unat m) src) s u"
      by (rule written_append [OF t(2) u(2)]) (use less.prems(5,6) ml in simp)
    then show ?thesis using t(1,4) u(1,3,4) by (simp add: T d)
  qed
qed

section \<open>The inode on disk\<close>

lemma fold_wr32_other:
  "(\<forall>j \<in> set js. i < k + 4 * j \<or> k + 4 * j + 4 \<le> i) \<Longrightarrow> fold (\<lambda>j d. wr32 (k + 4 * j) (f j) d) js d i = d i"
  by (induction js arbitrary: d) auto

lemma dip_store_other: "i < k \<or> k + 64 \<le> i \<Longrightarrow> dip_store k ip d i = d i"
  unfolding dip_store_def by (subst fold_wr32_other) auto

lemma rd_fold_wr32:
  "(\<forall>j \<in> set js. q + 2 \<le> k + 4 * j) \<Longrightarrow> rd16 (fold (\<lambda>j d. wr32 (k + 4 * j) (f j) d) js d) q = rd16 d q"
  "(\<forall>j \<in> set js. q + 4 \<le> k + 4 * j \<or> k + 4 * j + 4 \<le> q) \<Longrightarrow> rd32 (fold (\<lambda>j d. wr32 (k + 4 * j) (f j) d) js d) q = rd32 d q"
  by (induction js arbitrary: d) auto

lemma rd_fold_same:
  assumes "j \<in> set js" "distinct js"
  shows "rd32 (fold (\<lambda>j d. wr32 (k + 4 * j) (f j) d) js d) (k + 4 * j) = f j"
  using assms
proof (induction js arbitrary: d)
  case (Cons i js)
  show ?case
  proof (cases "i = j")
    case True
    have ne: "k + 4 * j + 4 \<le> k + 4 * x \<or> k + 4 * x + 4 \<le> k + 4 * j" if "x \<noteq> j" for x using that by linarith
    have "x \<noteq> j" if "x \<in> set js" for x using that True Cons.prems(2) by auto
    then have "\<forall>x \<in> set js. k + 4 * j + 4 \<le> k + 4 * x \<or> k + 4 * x + 4 \<le> k + 4 * j" using ne by blast
    then show ?thesis using True rd_fold_wr32(2) [of js "k + 4 * j" k f] by (simp add: rd32_wr32_same)
  next
    case False
    then show ?thesis using Cons by simp
  qed
qed simp

text \<open>What \<open>iupdate\<close> stores, \<open>ilock\<close> reads back.\<close>

lemma dip_roundtrip:
  assumes "length (i_addrs i) = 13"
  shows "dip_load (dip_store k i d) k j = j\<lparr>i_type := i_type i, i_major := i_major i, i_minor := i_minor i, i_nlink := i_nlink i,
    i_size := i_size i, i_addrs := i_addrs i\<rparr>"
proof -
  have "map (\<lambda>j. rd32 (dip_store k i d) (k + 12 + 4 * j)) [0..<13] = i_addrs i"
    unfolding dip_store_def by (rule nth_equalityI) (use assms in \<open>simp_all add: rd_fold_same [where k = "k + 12"]\<close>)
  moreover have "rd32 (dip_store k i d) (k + 8) = i_size i"
    unfolding dip_store_def by (subst rd_fold_wr32(2)) (auto simp: rd32_wr32_same)
  moreover have "rd16 (dip_store k i d) k = i_type i" "rd16 (dip_store k i d) (k + 2) = i_major i"
      "rd16 (dip_store k i d) (k + 4) = i_minor i" "rd16 (dip_store k i d) (k + 6) = i_nlink i"
    unfolding dip_store_def by (subst rd_fold_wr32(1), auto simp: rd16_wr16_same)+
  ultimately show ?thesis by (simp add: dip_load_def)
qed

text \<open>Setting the size and storing the inode.\<close>

lemma size_update:
  assumes f: "file_ok ip u" and l: "layout (i_dev (ino ip u)) u" and r: "log_room (Suc k) u"
    and z: "unat z \<le> 71680" "\<And>n. 512 * n < unat z \<Longrightarrow> slot ip u n \<noteq> 0"
  shows "\<exists>t. iupdate ip (set_ino ip ((ino ip u)\<lparr>i_size := z\<rparr>) u) = Inr ((), t) \<and> file_ok ip t \<and> layout (i_dev (ino ip u)) t \<and>
    grows ip u t \<and> i_size (ino ip t) = z \<and> (\<forall>k < 71680. fbyte ip t k = fbyte ip u k) \<and> (\<forall>n \<le> 140. slot ip t n = slot ip u n) \<and>
    free_blocks (i_dev (ino ip u)) t = free_blocks (i_dev (ino ip u)) u \<and> log_room k t"
proof -
  let ?dev = "i_dev (ino ip u)" and ?ib = "IBLOCK (i_num (ino ip u)) (sb u)"
  define v where "v = set_ino ip ((ino ip u)\<lparr>i_size := z\<rparr>) u"
  define d where "d = dip_store (dip_off (i_num (ino ip u))) (ino ip v) (blocks u (?dev, ?ib))"
  define t where "t = logged ?dev ?ib d v"
  have len: "ip < length (icache u)" using file_okD(1) [OF f] .
  then have i: "ino ip t = (ino ip u)\<lparr>i_size := z\<rparr>" "jp \<noteq> ip \<Longrightarrow> ino jp t = ino jp u" "sb t = sb u" for jp by (auto simp: t_def v_def)
  have ib: "?ib \<in> inode_blocks u" using iblock_meta [OF f] .
  then have nb: "?ib \<notin> bitmap_blocks v" "?ib \<notin> file_blocks ip u"
    using l file_okD(7) [OF f] by (auto simp: layout_def meta_blocks_def bitmap_blocks_def v_def)
  have iv: "ino ip v = (ino ip u)\<lparr>i_size := z\<rparr>" using len by (simp add: v_def)
  have rv: "log_room (Suc k) v" using r by (simp add: v_def)
  have "iupdate ip v = log_write ?dev ?ib d v" unfolding iupdate_def Let_def iv d_def by (simp add: v_def)
  then have up: "iupdate ip v = Inr ((), t)" by (simp add: log_write_room(1) [OF rv] t_def)
  have bt: "blocks t = (blocks u)((?dev, ?ib) := d)" by (simp add: t_def v_def)
  have sl: "slot ip t n = slot ip u n" if "n \<le> 140" for n
  proof -
    have "i_addrs (ino ip u) ! 12 \<noteq> ?ib" if "i_addrs (ino ip u) ! 12 \<noteq> 0"
      using nb(2) that ind_in_file [of ip u] by (auto simp: slot_def)
    then show ?thesis using i(1) by (auto simp: slot_def Let_def bt)
  qed
  have fb: "file_blocks ip t = file_blocks ip u" unfolding file_blocks_def using sl by force
  have fr: "free_blocks ?dev t = free_blocks ?dev u" using free_logged [OF nb(1)] by (simp add: t_def, simp add: v_def)
  have iu: "in_use ?dev t y = in_use ?dev u y" if "y < sb_size (sb u)" for y using in_use_logged [OF nb(1), of y] that by (simp add: t_def, simp add: v_def)
  have lt: "layout ?dev t" by (rule layout_cong [OF l i(3)]) (simp add: fr)
  have mb: "meta_blocks t = meta_blocks u" by (simp add: meta_blocks_def bitmap_blocks_def inode_blocks_def i(3))
  have "slot ip t n \<noteq> 0" if "512 * n < unat z" for n using z(2) [OF that] sl [of n] that z(1) by simp
  then have ft: "file_ok ip t" unfolding file_ok_def mb fb i(1,3)
    using file_okD(1-3,5-7) [OF f] file_okD(8) [OF f] iu sl z(1) by (auto simp: t_def v_def)
  have same: "fbyte ip t k = fbyte ip u k" if "k < 71680" for k
  proof -
    have "k div 512 \<le> 140" using that by (simp add: less_imp_le div_less_iff_less_mult)
    then show ?thesis using sl [of "k div 512"] slot_in_file [of "k div 512" ip u] nb(2) i(1) by (auto simp: fbyte_def Let_def bt)
  qed
  have g: "grows ip u t" unfolding grows_def
  proof (intro conjI allI impI)
    show "\<exists>B L I. t = u\<lparr>blocks := B, lh_block := L, icache := I\<rparr>"
      by (intro exI [of _ "blocks t"] exI [of _ "lh_block t"] exI [of _ "icache t"]) (simp add: t_def v_def logged_def set_ino_def)
    show "\<exists>A y. ino ip t = (ino ip u)\<lparr>i_addrs := A, i_size := y\<rparr>"
      by (intro exI [of _ "i_addrs (ino ip u)"] exI [of _ z]) (simp add: i(1))
    show "blocks t (?dev, ?ib) k = blocks u (?dev, ?ib) k"
      if "k < dip_off (i_num (ino ip u)) \<or> dip_off (i_num (ino ip u)) + 64 \<le> k" for k
      using that by (simp add: bt d_def dip_store_other)
    show "in_use ?dev t y" if "y < sb_size (sb u)" "in_use ?dev u y" for y using iu that by simp
    show "length (icache t) = length (icache u)" by (simp add: t_def v_def)
    show "blocks t (e, b) = blocks u (e, b)"
      if "e \<noteq> ?dev \<or> b \<notin> file_blocks ip t \<and> b \<notin> bitmap_blocks u \<and> b \<noteq> ?ib" for e b using that by (auto simp: bt)
  qed (use i(2) sl in \<open>simp_all add: fr fb\<close>)
  show ?thesis unfolding v_def [symmetric]
    by (intro exI [of _ t] conjI) (use up ft lt g i(1) same sl fr log_write_room(2) [OF rv] in \<open>simp_all add: t_def\<close>)
qed

section \<open>The contents of a file\<close>

definition fdata :: "nat \<Rightarrow> 'a fsys_scheme \<Rightarrow> u8 list" where
  "fdata ip s = map (fbyte ip s) [0..<unat (i_size (ino ip s))]"

definition overwrite :: "nat \<Rightarrow> u8 list \<Rightarrow> u8 list \<Rightarrow> u8 list" where
  "overwrite off bs xs = take off xs @ bs @ drop (off + length bs) xs"

lemma overwrite_nth:
  assumes "off \<le> length xs"
  shows "length (overwrite off bs xs) = max (length xs) (off + length bs)"
    and "k < max (length xs) (off + length bs) \<Longrightarrow>
      overwrite off bs xs ! k = (if off \<le> k \<and> k < off + length bs then bs ! (k - off) else xs ! k)"
  using assms by (auto simp: overwrite_def nth_append max_def min_def split: if_splits)

lemma length_fdata [simp]: "length (fdata ip s) = unat (i_size (ino ip s))"
  by (simp add: fdata_def)

lemma fdata_overwrite:
  assumes "unat off \<le> unat (i_size (ino ip s))" "unat (i_size (ino ip s)) \<le> 71680" "unat off + length bs \<le> 71680"
    and "unat (i_size (ino ip t)) = max (unat (i_size (ino ip s))) (unat off + length bs)"
    and "\<And>k. k < 71680 \<Longrightarrow> fbyte ip t k = (if unat off \<le> k \<and> k < unat off + length bs then bs ! (k - unat off) else fbyte ip s k)"
  shows "fdata ip t = overwrite (unat off) bs (fdata ip s)"
proof (rule nth_equalityI)
  fix k assume "k < length (fdata ip t)"
  then have k: "k < max (unat (i_size (ino ip s))) (unat off + length bs)" by (simp add: assms(4))
  then have "k < 71680" using assms(2,3) by simp
  then show "fdata ip t ! k = overwrite (unat off) bs (fdata ip s) ! k"
    using overwrite_nth(2) [of "unat off" "fdata ip s" k bs] k assms(1,4,5) by (auto simp: fdata_def)
qed (use overwrite_nth(1) [of "unat off" "fdata ip s" bs] assms(1,4) in simp)

lemma small_sint: "n < 2147483648 \<Longrightarrow> sint (word_of_nat n :: u32) = int n"
proof -
  assume n: "n < 2147483648"
  then have "uint (word_of_nat n :: u32) = int n" by (simp add: unsigned_of_nat take_bit_nat_eq_self_iff)
  then show ?thesis using n by (simp add: sint_uint signed_take_bit_eq_take_bit_shift take_bit_eq_mod)
qed

text \<open>What a write of \<open>bs\<close> at \<open>off\<close> does.\<close>

definition overwritten :: "nat \<Rightarrow> nat \<Rightarrow> u8 list \<Rightarrow> 'a fsys_scheme \<Rightarrow> 'a fsys_scheme \<Rightarrow> bool" where
  "overwritten ip off bs s t \<longleftrightarrow> fdata ip t = overwrite off bs (fdata ip s) \<and> file_ok ip t \<and> layout (i_dev (ino ip s)) t \<and> grows ip s t"

lemma writei_ok:
  fixes off :: u32
  assumes f: "file_ok ip s" and l: "layout (i_dev (ino ip s)) s" and ty: "i_type (ino ip s) \<noteq> T_DEV"
    and o: "off \<le> i_size (ino ip s)" "unat off + length src \<le> 71680"
    and r: "log_room (6 * turns (unat off) (length src) + Suc k) s"
    and fr: "2 * turns (unat off) (length src) \<le> card (free_blocks (i_dev (ino ip s)) s)"
  shows "\<exists>t. writei D ip src off s = Inr (int (length src), t) \<and> overwritten ip (unat off) src s t \<and>
    card (free_blocks (i_dev (ino ip s)) s) \<le> card (free_blocks (i_dev (ino ip s)) t) + 2 * turns (unat off) (length src)"
proof -
  define n :: u32 where "n = word_of_nat (length src)"
  have n: "unat n = length src" using o(2) by (simp add: n_def unat_of_nat)
  have un: "unat (off + n) = unat off + length src" using unat_add_nowrap [of off n] n o(2) by simp
  have sn: "sint n = int (length src)" using o(2) by (simp add: n_def small_sint)
  obtain u where u: "writei_loop ip src off n s = Inr (off + n, u)" "written ip (unat off) src s u" "log_room (Suc k) u"
    "card (free_blocks (i_dev (ino ip s)) s) \<le> card (free_blocks (i_dev (ino ip s)) u) + 2 * turns (unat off) (length src)"
    using writei_loop_ok [OF f l, of off n "Suc k" src] r fr o(2) unfolding n by blast
  have fu: "file_ok ip u" and lu: "layout (i_dev (ino ip s)) u" and g: "grows ip s u" and z: "i_size (ino ip u) = i_size (ino ip s)"
    and b: "\<And>k. k < 71680 \<Longrightarrow> fbyte ip u k = (if unat off \<le> k \<and> k < unat off + length src then src ! (k - unat off) else fbyte ip s k)"
    using u(2) by (simp_all add: written_def)
  have d: "i_dev (ino ip u) = i_dev (ino ip s)" using growsD(4) [OF g] .
  have so: "unat off \<le> unat (i_size (ino ip s))" "unat (i_size (ino ip s)) \<le> 71680" using o(1) file_okD(4) [OF f] by (simp_all add: word_le_nat_alt)
  have guard: "\<not> off > i_size (ino ip s)" "\<not> off + n < off" "\<not> off + n > MAXFILE_BYTES"
    using o un by (simp_all add: word_less_nat_alt word_le_nat_alt)
  have w: "writei D ip src off s = bindr (if n > 0 \<and> off + n > i_size (ino ip u)
      then iupdate ip (set_ino ip ((ino ip u)\<lparr>i_size := off + n\<rparr>) u) else Inr ((), u)) (\<lambda>(_, s). Inr (int (length src), s))"
    using ty guard u(1) unfolding writei_def n_def [symmetric] Let_def by (simp add: sn)
  show ?thesis
  proof (cases "n > 0 \<and> off + n > i_size (ino ip u)")
    case True
    have "slot ip u m \<noteq> 0" if "512 * m < unat (off + n)" for m
    proof (cases "512 * m < unat (i_size (ino ip s))")
      case True
      then show ?thesis using file_okD(9) [OF fu, of m] z by simp
    next
      case False
      then have "unat off \<le> 512 * m" "512 * m < unat off + length src" using so(1) that un by simp_all
      then show ?thesis using u(2) unfolding written_def by (metis nonzero_mult_div_cancel_left zero_neq_numeral)
    qed
    with size_update [OF fu _ u(3), of "off + n"] lu d un o(2) obtain t where
      t: "iupdate ip (set_ino ip ((ino ip u)\<lparr>i_size := off + n\<rparr>) u) = Inr ((), t)" "file_ok ip t" "layout (i_dev (ino ip s)) t"
        "grows ip u t" "i_size (ino ip t) = off + n" "\<forall>k < 71680. fbyte ip t k = fbyte ip u k"
        "free_blocks (i_dev (ino ip s)) t = free_blocks (i_dev (ino ip s)) u"
      by auto
    have "fdata ip t = overwrite (unat off) src (fdata ip s)"
      by (rule fdata_overwrite) (use so o(2) t(5,6) un True z b in \<open>simp_all add: word_less_nat_alt\<close>)
    then show ?thesis using w True t u(4) grows_trans [OF g t(4)] by (simp add: overwritten_def)
  next
    case False
    have "unat (i_size (ino ip u)) = max (unat (i_size (ino ip s))) (unat off + length src)"
      using False z un so(1) n by (auto simp: word_less_nat_alt max_def word_gt_0 unat_eq_0 [symmetric] not_less)
    then have "fdata ip u = overwrite (unat off) src (fdata ip s)"
      by (intro fdata_overwrite) (use so o(2) b in simp_all)
    then show ?thesis using w False fu lu g u(4) by (auto simp: overwritten_def)
  qed
qed

section \<open>Reading\<close>

lemma readi_loop_ok:
  assumes "file_ok ip s" "unat off + unat r \<le> unat (i_size (ino ip s))"
  shows "readi_loop ip off r acc s = Inr (acc @ map (fbyte ip s) [unat off..<unat off + unat r], s)"
  using assms
proof (induction "unat r" arbitrary: off r acc rule: less_induct)
  case less
  show ?case
  proof (cases "r = 0")
    case True
    then show ?thesis by (subst readi_loop.simps) simp
  next
    case False
    have lim: "unat off + unat r \<le> 71680" using less.prems(2) file_okD(4) [OF less.prems(1)] by simp
    define m where "m = min r (512 - off mod 512)"
    note c = chunk_nat [OF lim m_def]
    let ?n = "unat off div 512" and ?o = "unat off mod 512"
    have pos: "0 < unat r" using False by (simp add: unat_gt_0)
    have "512 * ?n \<le> unat off" by simp
    then have "512 * ?n < unat (i_size (ino ip s))" using pos less.prems(2) by linarith
    then have n: "slot ip s ?n \<noteq> 0" using file_okD(9) [OF less.prems(1)] by blast
    have "?n < 140" using lim pos by (simp add: div_less_iff_less_mult)
    then have b: "bmap ip (off div 512) s = Inr (slot ip s ?n, s)" using bmap_present [of "off div 512" ip s] n by (simp add: c(5))
    let ?d = "get_at ?o (unat m) (blocks s (i_dev (ino ip s), slot ip s ?n))"
    have d: "?d = map (fbyte ip s) [unat off..<unat off + unat m]"
    proof (rule nth_equalityI)
      fix i assume "i < length ?d"
      then have i: "i < unat m" by simp
      have "unat off + i = 512 * ?n + (?o + i)" "?o + i < 512" using i c(1) by (simp, linarith)
      from block_pos [OF this] show "?d ! i = map (fbyte ip s) [unat off..<unat off + unat m] ! i"
        using i n by (simp add: fbyte_def Let_def)
    qed simp
    have "readi_loop ip off r acc s = readi_loop ip (off + m) (r - m) (acc @ ?d) s"
      using False b by (subst readi_loop.simps) (simp add: Let_def c(4) m_def [symmetric])
    also have "\<dots> = Inr ((acc @ ?d) @ map (fbyte ip s) [unat (off + m)..<unat (off + m) + unat (r - m)], s)"
    proof (rule less.hyps)
      show "unat (r - m) < unat r" using chunk_pos [OF False, of off] by (simp add: m_def)
      show "unat (off + m) + unat (r - m) \<le> unat (i_size (ino ip s))" using less.prems(2) c(1-3) by simp
    qed (rule less.prems(1))
    also have "(acc @ ?d) @ map (fbyte ip s) [unat (off + m)..<unat (off + m) + unat (r - m)] = acc @ map (fbyte ip s) [unat off..<unat off + unat r]"
    proof -
      have e: "unat off + unat r = unat off + unat m + unat (r - m)" using c(1,3) by simp
      have "[unat off..<unat off + unat r] = [unat off..<unat off + unat m] @ [unat (off + m)..<unat (off + m) + unat (r - m)]"
        unfolding e c(2) by (rule upt_add_eq_append) simp
      then show ?thesis by (simp only: d append_assoc map_append)
    qed
    finally show ?thesis .
  qed
qed

lemma readi_ok:
  assumes f: "file_ok ip s" and ty: "i_type (ino ip s) \<noteq> T_DEV" and o: "off \<le> i_size (ino ip s)" "unat off + unat n < 4294967296"
  shows "readi D ip off n s = Inr ((int (min (unat n) (unat (i_size (ino ip s)) - unat off)), take (unat n) (drop (unat off) (fdata ip s))), s)"
proof -
  define c where "c = (if off + n > i_size (ino ip s) then i_size (ino ip s) - off else n)"
  have so: "unat off \<le> unat (i_size (ino ip s))" "unat (i_size (ino ip s)) \<le> 71680" using o(1) file_okD(4) [OF f] by (simp_all add: word_le_nat_alt)
  have un: "unat (off + n) = unat off + unat n" by (rule unat_add_nowrap) (use o(2) in simp)
  have uc: "unat c = min (unat n) (unat (i_size (ino ip s)) - unat off)"
    using unat_sub [OF o(1)] so un by (auto simp: c_def word_less_nat_alt min_def)
  have "unat c < 2147483648" using uc so by simp
  from small_sint [OF this] have sc: "sint c = int (unat c)" by (simp only: of_nat_unat ucast_id)
  have guard: "\<not> off > i_size (ino ip s)" "\<not> off + n < off" using o un by (simp_all add: word_less_nat_alt word_le_nat_alt)
  have "readi_loop ip off c [] s = Inr ([] @ map (fbyte ip s) [unat off..<unat off + unat c], s)"
    by (rule readi_loop_ok [OF f]) (use uc so in simp)
  moreover have "map (fbyte ip s) [unat off..<unat off + unat c] = take (unat n) (drop (unat off) (fdata ip s))"
    using so by (auto simp: fdata_def uc take_map drop_map min_def)
  ultimately show ?thesis using ty guard unfolding readi_def c_def [symmetric] Let_def by (simp add: sc uc)
qed

section \<open>Several files\<close>

lemma other_file:
  assumes f: "file_ok ip s" and j: "file_ok jp s" "jp \<noteq> ip" "i_dev (ino jp s) = i_dev (ino ip s)"
    and dis: "file_blocks ip s \<inter> file_blocks jp s = {}" and g: "grows ip s t"
  shows "file_ok jp t" "fdata jp t = fdata jp s" "file_blocks ip t \<inter> file_blocks jp t = {}"
proof -
  let ?dev = "i_dev (ino ip s)"
  note d = growsD [OF g]
  have same: "blocks t (?dev, b) = blocks s (?dev, b)" and out: "b \<notin> file_blocks ip t" if b: "b \<in> file_blocks jp s" for b
  proof -
    have "b \<notin> free_blocks ?dev s" using file_okD(6) [OF j(1) b] j(3) by (simp add: free_blocks_def)
    then show n: "b \<notin> file_blocks ip t" using d(10) dis b by blast
    have "b \<notin> bitmap_blocks s" "b \<noteq> IBLOCK (i_num (ino ip s)) (sb s)"
      using file_okD(7) [OF j(1) b] iblock_meta [OF f] by (auto simp: meta_blocks_def)
    then show "blocks t (?dev, b) = blocks s (?dev, b)" using d(11) n by blast
  qed
  have i: "ino jp t = ino jp s" using d(3) [OF j(2)] .
  have sl: "slot jp t n = slot jp s n" for n
  proof -
    have "blocks t (?dev, i_addrs (ino jp s) ! 12) = blocks s (?dev, i_addrs (ino jp s) ! 12)" if "i_addrs (ino jp s) ! 12 \<noteq> 0"
      by (rule same) (use ind_in_file [of jp s] that in \<open>simp add: slot_def\<close>)
    then show ?thesis by (auto simp: slot_def Let_def i j(3))
  qed
  then have fb: "file_blocks jp t = file_blocks jp s" by (simp add: file_blocks_def)
  then show "file_blocks ip t \<inter> file_blocks jp t = {}" using out by blast
  have "in_use ?dev t b" if "b \<in> file_blocks jp s" for b using d(8) [of b] file_okD(5,6) [OF j(1) that] j(3) by simp
  then show "file_ok jp t" using file_okD(1-5,7) [OF j(1)] file_okD(8,9) [OF j(1)]
    unfolding file_ok_def i d(1,2,15) sl fb j(3) by blast
  have "fbyte jp t k = fbyte jp s k" if "k < unat (i_size (ino jp s))" for k
  proof -
    have "k div 512 \<le> 140" using that file_okD(4) [OF j(1)] by (simp add: less_imp_le div_less_iff_less_mult)
    then show ?thesis using same [OF slot_in_file [of "k div 512" jp s]] by (auto simp: fbyte_def Let_def sl i j(3))
  qed
  then show "fdata jp t = fdata jp s" by (simp add: fdata_def i)
qed

text \<open>
  Property C6. Files are sequences of bytes. Let the blocks of the files be distinct, marked in the bitmap and outside the metadata.
  A \<open>writei\<close> of a text to a file, at an offset up to its end and within the largest file size, in a transaction with
  room in the log and with enough free blocks, returns the length of the text. The file then consists of what it had, with the text laid over it at the offset, grown where the text
  reaches beyond the end; every \<open>readi\<close> at an offset up to the end then returns the bytes there, as many as are asked for or left in the file, and changes nothing. Every other file keeps its contents,
  and the invariants of both files and of the bitmap hold again. The routines split the text at the block boundaries and
  allocate direct blocks, the indirect block and its entries as they go.
\<close>

theorem file_contents:
  fixes s :: "'a fsys_scheme"
  assumes "file_ok ip s" "file_ok jp s" "jp \<noteq> ip" "i_dev (ino jp s) = i_dev (ino ip s)" "file_blocks ip s \<inter> file_blocks jp s = {}"
    and "layout (i_dev (ino ip s)) s" "i_type (ino ip s) \<noteq> T_DEV"
    and "off \<le> i_size (ino ip s)" "unat off + length src \<le> 71680"
    and "log_room (6 * turns (unat off) (length src) + 1) s"
    and "2 * turns (unat off) (length src) \<le> card (free_blocks (i_dev (ino ip s)) s)"
  shows "\<exists>t. writei D ip src off s = Inr (int (length src), t) \<and>
    fdata ip t = take (unat off) (fdata ip s) @ src @ drop (unat off + length src) (fdata ip s) \<and>
    fdata jp t = fdata jp s \<and>
    (\<forall>p n. p \<le> i_size (ino ip t) \<and> unat p + unat n < 4294967296 \<longrightarrow>
       readi D ip p n t = Inr ((int (min (unat n) (length (fdata ip t) - unat p)), take (unat n) (drop (unat p) (fdata ip t))), t)) \<and>
    file_ok ip t \<and> file_ok jp t \<and> file_blocks ip t \<inter> file_blocks jp t = {} \<and> layout (i_dev (ino ip s)) t"
proof -
  obtain t where t: "writei D ip src off s = Inr (int (length src), t)" "overwritten ip (unat off) src s t"
    using writei_ok [OF assms(1,6,7,8,9), of 0 D] assms(10,11) by auto
  then have f: "file_ok ip t" and g: "grows ip s t" by (simp_all add: overwritten_def)
  have "i_type (ino ip t) \<noteq> T_DEV" using growsD(6) [OF g] assms(7) by simp
  note r = readi_ok [OF f this, of _ _ D]
  show ?thesis
  proof (rule exI [of _ t], intro conjI allI impI)
    show "readi D ip p n t = Inr ((int (min (unat n) (length (fdata ip t) - unat p)), take (unat n) (drop (unat p) (fdata ip t))), t)"
      if "p \<le> i_size (ino ip t) \<and> unat p + unat n < 4294967296" for p n
      unfolding length_fdata using that by (intro r) simp_all
  qed (use t f other_file [OF assms(1-5) g] in \<open>simp_all add: overwritten_def overwrite_def\<close>)
qed

definition demo_inode :: "u32 \<Rightarrow> inode" where
  "demo_inode n = \<lparr>i_dev = 1, i_num = n, i_ref = 1, i_lock = True, i_valid = True, i_type = T_FILE, i_major = 0, i_minor = 0,
     i_nlink = 1, i_size = 0, i_addrs = replicate 13 0\<rparr>"

definition demo_files :: fsys where
  "demo_files = \<lparr>pmem = \<lambda>_ _. 0, freelist = 0, use_lock = True, kmem_locked = False, referenceCounters = \<lambda>_. 0, total_system_pages = 0,
     system_free_pages = 0, blocks = \<lambda>_. (\<lambda>_. 0)(0 := -1),
     sb = \<lparr>sb_size = 20, nblocks = 12, ninodes = 8, nlog = 30, logstart = 4, inodestart = 2, bmapstart = 3\<rparr>,
     log_size = 30, outstanding = 1, committing = False, lh_block = [], icache = [demo_inode 1, demo_inode 2]\<rparr>"

lemma demo_in_use:
  assumes "b < 20"
  shows "in_use 1 demo_files b \<longleftrightarrow> unat b < 8"
proof -
  have "unat b < 20" using assms by (simp add: word_less_nat_alt)
  then show ?thesis
    by (simp add: in_use_def demo_files_def bit_at_iff unat_mod bit_minus_1_iff possible_bit_word div_eq_0_iff)
qed

lemma demo_layout: "layout 1 demo_files"
proof -
  have "b div 4096 = 0" if "b < 20" for b :: u32
    using that by (simp add: word_less_nat_alt word_unat_eq_iff unat_div)
  then have bb: "bitmap_blocks demo_files = {3}" unfolding bitmap_blocks_def BBLOCK_def
    by (auto simp: demo_files_def intro!: exI [of _ 0])
  have "i div 8 = 0" if "i < 8" for i :: u32 using that by (simp add: word_less_nat_alt word_unat_eq_iff unat_div)
  then have ib: "inode_blocks demo_files = {2}" unfolding inode_blocks_def IBLOCK_def
    by (auto simp: demo_files_def intro!: exI [of _ 0])
  have "sb_size (sb demo_files) = 20" by (simp add: demo_files_def)
  then show ?thesis using demo_in_use [of 0] demo_in_use [of 2] demo_in_use [of 3]
    by (simp add: layout_def meta_blocks_def bb ib free_blocks_def)
qed

lemma demo_file_ok:
  assumes "ip < 2"
  shows "file_ok ip demo_files" "file_blocks ip demo_files = {}" "i_dev (ino ip demo_files) = 1" "i_type (ino ip demo_files) = T_FILE"
    "i_size (ino ip demo_files) = 0"
proof -
  have i: "ino ip demo_files = demo_inode (word_of_nat ip + 1)"
    using assms by (cases ip) (auto simp: ino_def demo_files_def less_Suc_eq)
  have sl: "slot ip demo_files n = 0" if "n \<le> 140" for n using that by (auto simp: slot_def Let_def i demo_inode_def)
  show fb: "file_blocks ip demo_files = {}" "i_dev (ino ip demo_files) = 1" "i_type (ino ip demo_files) = T_FILE"
      "i_size (ino ip demo_files) = 0"
    using sl by (auto simp: file_blocks_def i demo_inode_def)
  have "word_of_nat ip + 1 < (8 :: u32)" using assms by (cases ip) (auto simp: less_Suc_eq)
  then have n: "i_num (ino ip demo_files) < ninodes (sb demo_files)" unfolding i demo_inode_def by (simp add: demo_files_def)
  have "length (icache demo_files) = 2" by (simp add: demo_files_def)
  moreover have "length (i_addrs (ino ip demo_files)) = 13" by (simp add: i demo_inode_def)
  ultimately show "file_ok ip demo_files" unfolding file_ok_def fb using n assms sl by auto
qed

theorem file_contents_witness:
  "\<exists>t. writei (\<lambda>_. None) 0 [104, 105] 0 demo_files = Inr (2, t) \<and> fdata 0 t = [104, 105] \<and> fdata 1 t = [] \<and>
    readi (\<lambda>_. None) 0 1 5 t = Inr ((1, [105]), t)"
proof -
  note d = demo_file_ok [of 0, simplified] demo_file_ok [of 1, simplified]
  have "{8, 9} \<subseteq> free_blocks 1 demo_files" using demo_in_use [of 8] demo_in_use [of 9] by (simp add: free_blocks_def demo_files_def)
  then have c: "2 \<le> card (free_blocks 1 demo_files)" using card_mono [of "free_blocks 1 demo_files" "{8, 9}"] by simp
  have l: "log_room 7 demo_files" by (simp add: log_room_def demo_files_def)
  have T: "turns 0 (Suc (Suc 0)) = 1" by (simp add: turns_def)
  have z: "fdata 0 demo_files = []" "fdata 1 demo_files = []" using d by (simp_all add: fdata_def)
  obtain t where t: "writei (\<lambda>_. None) 0 [104, 105] 0 demo_files = Inr (2, t)" "fdata 0 t = [104, 105]" "fdata 1 t = []"
    "\<forall>p n. p \<le> i_size (ino 0 t) \<and> unat p + unat n < 4294967296 \<longrightarrow>
       readi (\<lambda>_. None) 0 p n t = Inr ((int (min (unat n) (unat (i_size (ino 0 t)) - unat p)), take (unat n) (drop (unat p) (fdata 0 t))), t)"
    using file_contents [of 0 demo_files 1 0 "[104, 105]" "\<lambda>_. None"] d c l T z demo_layout by auto
  have z: "unat (i_size (ino 0 t)) = 2" using length_fdata [of 0 t] t(2) by simp
  then have "1 \<le> i_size (ino 0 t)" by (simp add: word_le_nat_alt)
  then show ?thesis using t(1-3) spec [OF spec [OF t(4), of 1], of 5] by (auto simp: z t(2))
qed

end
