(* ===== verification/Swapio.thy ===== *)
theory Swapio
  imports Swap Contents
begin

text \<open>
  Pages in the swap file. A process keeps pages that are not in memory in a file of its own, in slots of 4096 bytes. The lemmas follow a
  write through \<open>filewrite\<close>, which cuts it into transactions that fit the log, down to the contents of the file (theory \<open>Contents\<close>), and a
  read back up to \<open>writeToSwapFile\<close> and \<open>readFromSwapFile\<close>.
\<close>

unbundle bit_operations_syntax

section \<open>Writing and reading through an open file\<close>

text \<open>States with the same files: only locks and reference counts of inodes differ, and what is not part of the file system.\<close>

definition same_files :: "kernel \<Rightarrow> kernel \<Rightarrow> bool" where
  "same_files s t \<longleftrightarrow> blocks t = blocks s \<and> sb t = sb s \<and> length (icache t) = length (icache s) \<and>
     (\<forall>jp. i_dev (ino jp t) = i_dev (ino jp s) \<and> i_num (ino jp t) = i_num (ino jp s) \<and> i_size (ino jp t) = i_size (ino jp s) \<and>
       i_addrs (ino jp t) = i_addrs (ino jp s))"

lemma same_files_facts:
  assumes "same_files s t"
  shows "slot jp t = slot jp s" "fbyte jp t = fbyte jp s" "fdata jp t = fdata jp s" "file_blocks jp t = file_blocks jp s"
    "in_use dev t = in_use dev s" "free_blocks dev t = free_blocks dev s" "layout dev t = layout dev s" "file_ok jp t = file_ok jp s"
    "i_dev (ino jp t) = i_dev (ino jp s)" "i_size (ino jp t) = i_size (ino jp s)"
proof -
  note a = assms [unfolded same_files_def]
  show sl: "slot jp t = slot jp s" for jp by (rule ext) (use a in \<open>simp add: slot_def Let_def\<close>)
  show b: "fbyte jp t = fbyte jp s" by (rule ext) (use a sl in \<open>simp add: fbyte_def Let_def\<close>)
  show "fdata jp t = fdata jp s" using a by (simp add: fdata_def b)
  show fb: "file_blocks jp t = file_blocks jp s" by (simp add: file_blocks_def sl)
  show iu: "in_use dev t = in_use dev s" for dev by (rule ext) (use a in \<open>simp add: in_use_def\<close>)
  show "free_blocks dev t = free_blocks dev s" for dev using a by (simp add: free_blocks_def iu)
  moreover have mb: "bitmap_blocks t = bitmap_blocks s" "inode_blocks t = inode_blocks s" "meta_blocks t = meta_blocks s"
    using a by (simp_all add: bitmap_blocks_def inode_blocks_def meta_blocks_def)
  ultimately show "layout dev t = layout dev s" using a by (simp add: layout_def)
  show "file_ok jp t = file_ok jp s" using a by (simp add: file_ok_def sl fb iu mb)
  show "i_dev (ino jp t) = i_dev (ino jp s)" "i_size (ino jp t) = i_size (ino jp s)" using a by simp_all
qed

text \<open>An open file on a file system between two operations.\<close>

definition idle :: "kernel \<Rightarrow> bool" where
  "idle s \<longleftrightarrow> \<not> committing s \<and> outstanding s = 0 \<and> lh_block s = [] \<and> 30 \<le> log_size s"

definition open_file :: "nat \<Rightarrow> nat \<Rightarrow> kernel \<Rightarrow> bool" where
  "open_file f ip s \<longleftrightarrow> f < length (ftable s) \<and> f_type (fil f s) = FD_INODE \<and> f_ip (fil f s) = Some ip \<and>
     f_readable (fil f s) \<and> f_writable (fil f s) \<and>
     file_ok ip s \<and> i_type (ino ip s) = T_FILE \<and> \<not> i_lock (ino ip s) \<and> i_valid (ino ip s) \<and> 1 \<le> i_ref (ino ip s)"

text \<open>What writing \<open>bs\<close> at offset \<open>off\<close> through file \<open>f\<close> does; it may use up \<open>k\<close> free blocks.\<close>

definition stored :: "nat \<Rightarrow> nat \<Rightarrow> nat \<Rightarrow> u8 list \<Rightarrow> nat \<Rightarrow> kernel \<Rightarrow> kernel \<Rightarrow> bool" where
  "stored f ip off bs k s t \<longleftrightarrow>
     (\<exists>B I. t = s\<lparr>blocks := B, icache := I, ftable := (ftable s)[f := (fil f s)\<lparr>f_off := word_of_nat (off + length bs)\<rparr>]\<rparr>) \<and>
     fdata ip t = overwrite off bs (fdata ip s) \<and> layout (i_dev (ino ip s)) t \<and> file_ok ip t \<and>
     (\<exists>A z. ino ip t = (ino ip s)\<lparr>i_addrs := A, i_size := z\<rparr>) \<and>
     card (free_blocks (i_dev (ino ip s)) s) \<le> card (free_blocks (i_dev (ino ip s)) t) + k \<and>
     (\<forall>jp. jp \<noteq> ip \<longrightarrow> ino jp t = ino jp s) \<and>
     (\<forall>jp. jp \<noteq> ip \<and> file_ok jp s \<and> i_dev (ino jp s) = i_dev (ino ip s) \<and> file_blocks ip s \<inter> file_blocks jp s = {} \<longrightarrow>
        file_ok jp t \<and> fdata jp t = fdata jp s \<and> file_blocks ip t \<inter> file_blocks jp t = {})"

lemma turns_chunk: "r \<le> 1536 \<Longrightarrow> turns off r \<le> 4"
proof -
  assume r: "r \<le> 1536"
  have "off mod 512 \<le> 511" using mod_less_divisor [of 512 off] by linarith
  then have "off mod 512 + r + 511 \<le> 2558" using r by linarith
  then have "(off mod 512 + r + 511) div 512 \<le> 2558 div 512" by (rule div_le_mono)
  then show ?thesis by (simp add: turns_def)
qed

lemma same_filesI:
  assumes "blocks t = blocks s" "sb t = sb s" "length (icache t) = length (icache s)"
    "\<And>jp. \<exists>l r v. ino jp t = (ino jp s)\<lparr>i_lock := l, i_ref := r, i_valid := v\<rparr>"
  shows "same_files s t"
proof -
  have "i_dev (ino jp t) = i_dev (ino jp s) \<and> i_num (ino jp t) = i_num (ino jp s) \<and> i_size (ino jp t) = i_size (ino jp s) \<and>
      i_addrs (ino jp t) = i_addrs (ino jp s)" for jp
    using assms(4) [of jp] by auto
  then show ?thesis using assms(1-3) by (simp add: same_files_def)
qed

lemma locked_same:
  assumes "ip < length (icache s)"
  shows "same_files s (set_ino ip ((ino ip s)\<lparr>i_lock := b\<rparr>) s)"
  unfolding same_files_def using assms by simp

lemma same_files_trans: "same_files s t \<Longrightarrow> same_files t u \<Longrightarrow> same_files s u"
  by (simp add: same_files_def)

lemma same_files_sym: "same_files s t \<Longrightarrow> same_files t s"
  by (simp add: same_files_def)

lemma same_files_other:
  "same_files s (s\<lparr>outstanding := x\<rparr>)" "same_files s (s\<lparr>outstanding := x, lh_block := l\<rparr>)" "same_files s (upd_file f g s)"
  by (simp_all add: same_files_def ino_def upd_file_def)

lemma ino_frame [simp]:
  "ino ip (s\<lparr>outstanding := x\<rparr>) = ino ip s" "ino ip (s\<lparr>lh_block := l\<rparr>) = ino ip s" "ino ip (upd_file f g s) = ino ip s"
  by (simp_all add: ino_def upd_file_def)

lemma filewrite_chunk_ok:
  fixes s :: kernel
  assumes id: "idle s" and o: "open_file f ip s" and l: "layout (i_dev (ino ip s)) s"
    and b: "0 < length bs" "length bs \<le> 1536"
    and off: "unat (f_off (fil f s)) \<le> unat (i_size (ino ip s))" "unat (f_off (fil f s)) + length bs \<le> 71680"
    and fr: "8 \<le> card (free_blocks (i_dev (ino ip s)) s)"
  shows "\<exists>t. filewrite_chunk C f bs s = Inr (int (length bs), t) \<and> stored f ip (unat (f_off (fil f s))) bs 8 s t"
proof -
  let ?off = "unat (f_off (fil f s))"
  have ip: "ip < length (icache s)" and f: "f < length (ftable s)" using o file_okD(1) by (auto simp: open_file_def)
  define s1 where "s1 = s\<lparr>outstanding := 1\<rparr>"
  define s2 where "s2 = set_ino ip ((ino ip s)\<lparr>i_lock := True\<rparr>) s1"
  have b1: "begin_op s = Inr ((), s1)" using begin_op_idle(1) [of s] id by (simp add: idle_def s1_def)
  have k: "fil f s1 = fil f s" "ino ip s1 = ino ip s" "fil f s2 = fil f s" "icache s1 = icache s"
    by (simp_all add: s1_def s2_def fil_def set_ino_def)
  have b2: "ilock (f_ip (fil f s1)) s1 = Inr ((), s2)"
    using o ip unfolding k(1) by (simp add: ilock_def open_file_def k(2,4) s2_def Let_def)
  have sf: "same_files s s2"
    using same_files_trans [OF same_files_other(1) [of s 1] locked_same [of ip "s\<lparr>outstanding := 1\<rparr>" True]] ip by (simp add: s2_def s1_def)
  have i2: "ino ip s2 = (ino ip s)\<lparr>i_lock := True\<rparr>" using ip by (simp add: s2_def k(4))
  note T = turns_chunk [OF b(2), of ?off]
  have room: "log_room (6 * turns ?off (length bs) + Suc 0) s2"
    using id T by (simp add: log_room_def idle_def s2_def s1_def set_ino_def)
  have "\<exists>t. writei (conf_dev C) ip bs (f_off (fil f s)) s2 = Inr (int (length bs), t) \<and> overwritten ip ?off bs s2 t \<and>
      card (free_blocks (i_dev (ino ip s2)) s2) \<le> card (free_blocks (i_dev (ino ip s2)) t) + 2 * turns ?off (length bs)"
    by (rule writei_ok [OF _ _ _ _ _ room])
      (use o l off fr T in \<open>simp_all add: same_files_facts [OF sf] i2 open_file_def word_le_nat_alt\<close>)
  then obtain t2 where w: "writei (conf_dev C) ip bs (f_off (fil f s)) s2 = Inr (int (length bs), t2)" "overwritten ip ?off bs s2 t2"
    "card (free_blocks (i_dev (ino ip s)) s) \<le> card (free_blocks (i_dev (ino ip s)) t2) + 8"
    using T by (auto simp: same_files_facts [OF sf] i2)
  have g: "grows ip s2 t2" and ft: "file_ok ip t2" using w(2) by (simp_all add: overwritten_def)
  obtain B L I where B: "t2 = s2\<lparr>blocks := B, lh_block := L, icache := I\<rparr>" using g unfolding grows_def by blast
  obtain A z where A: "ino ip t2 = (ino ip s2)\<lparr>i_addrs := A, i_size := z\<rparr>" using g unfolding grows_def by blast
  define t3 where "t3 = upd_file f (\<lambda>x. x\<lparr>f_off := f_off x + word_of_nat (length bs)\<rparr>) t2"
  define t4 where "t4 = set_ino ip ((ino ip t3)\<lparr>i_lock := False\<rparr>) t3"
  define t where "t = t4\<lparr>outstanding := 0, lh_block := []\<rparr>"
  have il: "i_lock (ino ip t3)" "1 \<le> i_ref (ino ip t3)" using A i2 o by (simp_all add: t3_def open_file_def)
  have k3: "f_ip (fil f t3) = Some ip" using o B f by (simp add: t3_def upd_file_def fil_def s2_def s1_def set_ino_def open_file_def)
  have b3: "iunlock (f_ip (fil f t3)) t3 = Inr ((), t4)" unfolding k3 using il by (simp add: iunlock_def t4_def)
  have "\<not> committing t4" "outstanding t4 = 1" using id by (simp_all add: t4_def t3_def B s2_def s1_def upd_file_def set_ino_def idle_def)
  from end_op_last [OF this] have b4: "end_op t4 = Inr ((), t)" by (simp add: t_def)
  have "filewrite_chunk C f bs s = Inr (int (length bs), t)"
    using o b1 b2 w(1) b3 b4 b(1) unfolding filewrite_chunk_def
    by (simp add: k the_ip_def open_file_def Let_def t3_def [symmetric])
  moreover have "stored f ip ?off bs 8 s t" unfolding stored_def
  proof (intro conjI allI impI)
    have len: "length (icache t3) = length (icache s)" using growsD(2) [OF g] by (simp add: t3_def upd_file_def s2_def k(4))
    have it: "ino jp t = (if jp = ip then (ino ip t2)\<lparr>i_lock := False\<rparr> else ino jp t2)" for jp
      using ip len by (simp add: t_def t4_def) (simp add: t3_def)
    have il2: "\<not> i_lock (ino ip s)" using o by (simp add: open_file_def)
    have n: "ino jp t = ino jp s" if "jp \<noteq> ip" for jp
      using growsD(3) [OF g that] that by (simp add: it) (simp add: s2_def s1_def)
    have "same_files t2 t3" unfolding t3_def by (rule same_files_other)
    moreover have "same_files t3 t4" unfolding t4_def by (rule locked_same) (use ip len in simp)
    moreover have "same_files t4 t" unfolding t_def by (rule same_files_other)
    ultimately have st: "same_files t2 t" by (blast intro: same_files_trans)
    note S = same_files_facts [OF sf] and S' = same_files_facts [OF st]
    show "\<exists>B I. t = s\<lparr>blocks := B, icache := I, ftable := (ftable s)[f := (fil f s)\<lparr>f_off := word_of_nat (?off + length bs)\<rparr>]\<rparr>"
      using id by (intro exI [of _ B] exI [of _ "icache t"] kernel.equality)
        (simp_all add: t_def t4_def t3_def B s2_def s1_def upd_file_def set_ino_def fil_def idle_def)
    show "fdata ip t = overwrite ?off bs (fdata ip s)" "layout (i_dev (ino ip s)) t" "file_ok ip t"
      using w(2) by (simp_all add: overwritten_def S S' i2)
    show "\<exists>A z. ino ip t = (ino ip s)\<lparr>i_addrs := A, i_size := z\<rparr>"
      using il2 by (intro exI [of _ A] exI [of _ z]) (simp add: it A i2)
    show "card (free_blocks (i_dev (ino ip s)) s) \<le> card (free_blocks (i_dev (ino ip s)) t) + 8" using w(3) by (simp add: S')
    fix jp
    show "ino jp t = ino jp s" if "jp \<noteq> ip" using n [OF that] .
    assume j: "jp \<noteq> ip \<and> file_ok jp s \<and> i_dev (ino jp s) = i_dev (ino ip s) \<and> file_blocks ip s \<inter> file_blocks jp s = {}"
    show "file_ok jp t" "fdata jp t = fdata jp s" "file_blocks ip t \<inter> file_blocks jp t = {}"
      using other_file [OF _ _ _ _ _ g, of jp] j o unfolding S S' open_file_def by blast+
  qed
  ultimately show ?thesis by blast
qed

lemma overwrite_append:
  "off \<le> length xs \<Longrightarrow> overwrite (off + length bs) cs (overwrite off bs xs) = overwrite off (bs @ cs) xs"
  by (simp add: overwrite_def ac_simps)

lemma storedD:
  assumes "stored f ip off bs k s t" "f < length (ftable s)"
  shows "fil f t = (fil f s)\<lparr>f_off := word_of_nat (off + length bs)\<rparr>" "length (ftable t) = length (ftable s)"
    "idle t = idle s" "ptable t = ptable s" "pmem t = pmem s" "i_dev (ino ip t) = i_dev (ino ip s)"
    "fdata ip t = overwrite off bs (fdata ip s)" "layout (i_dev (ino ip s)) t" "file_ok ip t"
    "card (free_blocks (i_dev (ino ip s)) s) \<le> card (free_blocks (i_dev (ino ip s)) t) + k"
proof -
  obtain B I where B: "t = s\<lparr>blocks := B, icache := I, ftable := (ftable s)[f := (fil f s)\<lparr>f_off := word_of_nat (off + length bs)\<rparr>]\<rparr>"
    using assms(1) unfolding stored_def by blast
  then show "fil f t = (fil f s)\<lparr>f_off := word_of_nat (off + length bs)\<rparr>" "length (ftable t) = length (ftable s)"
      "idle t = idle s" "ptable t = ptable s" "pmem t = pmem s"
    using assms(2) by (simp_all add: fil_def idle_def)
  obtain A z where "ino ip t = (ino ip s)\<lparr>i_addrs := A, i_size := z\<rparr>" using assms(1) unfolding stored_def by blast
  then show "i_dev (ino ip t) = i_dev (ino ip s)" by simp
qed (use assms(1) in \<open>simp_all add: stored_def\<close>)

lemma stored_open:
  assumes "stored f ip off bs k s t" "open_file f ip s"
  shows "open_file f ip t"
proof -
  obtain A z where A: "ino ip t = (ino ip s)\<lparr>i_addrs := A, i_size := z\<rparr>" using assms(1) unfolding stored_def by blast
  have f: "f < length (ftable s)" using assms(2) by (simp add: open_file_def)
  show ?thesis using assms(2) storedD(1,2,9) [OF assms(1) f] by (simp add: open_file_def A)
qed

lemma stored_trans:
  assumes a: "stored f ip off bs k s t" and b: "stored f ip (off + length bs) cs k' t u"
    and o: "open_file f ip s" "off \<le> length (fdata ip s)"
  shows "stored f ip off (bs @ cs) (k + k') s u"
proof -
  have f: "f < length (ftable s)" using o(1) by (simp add: open_file_def)
  note d = storedD [OF a f]
  have ft: "f < length (ftable t)" using f d(2) by simp
  note e = storedD [OF b ft]
  obtain B I where t: "t = s\<lparr>blocks := B, icache := I, ftable := (ftable s)[f := (fil f s)\<lparr>f_off := word_of_nat (off + length bs)\<rparr>]\<rparr>"
    using a unfolding stored_def by blast
  obtain B' I' where u: "u = t\<lparr>blocks := B', icache := I', ftable := (ftable t)[f := (fil f t)\<lparr>f_off := word_of_nat (off + length bs + length cs)\<rparr>]\<rparr>"
    using b unfolding stored_def by blast
  obtain A z where A: "ino ip t = (ino ip s)\<lparr>i_addrs := A, i_size := z\<rparr>" using a unfolding stored_def by blast
  obtain A' z' where A': "ino ip u = (ino ip t)\<lparr>i_addrs := A', i_size := z'\<rparr>" using b unfolding stored_def by blast
  show ?thesis unfolding stored_def
  proof (intro conjI)
    have "u = s\<lparr>blocks := B', icache := I', ftable := (ftable s)[f := (fil f s)\<lparr>f_off := word_of_nat (off + length (bs @ cs))\<rparr>]\<rparr>"
      using f unfolding u d(1) by (simp add: t add.assoc)
    then show "\<exists>B I. u = s\<lparr>blocks := B, icache := I, ftable := (ftable s)[f := (fil f s)\<lparr>f_off := word_of_nat (off + length (bs @ cs))\<rparr>]\<rparr>"
      by (intro exI)
    show "fdata ip u = overwrite off (bs @ cs) (fdata ip s)" using overwrite_append [OF o(2), of bs cs] d(7) e(7) by simp
    show "\<exists>A z. ino ip u = (ino ip s)\<lparr>i_addrs := A, i_size := z\<rparr>" by (intro exI [of _ A'] exI [of _ z']) (simp add: A A')
    show "\<forall>jp. jp \<noteq> ip \<longrightarrow> ino jp u = ino jp s" using a b by (simp add: stored_def)
    show "\<forall>jp. jp \<noteq> ip \<and> file_ok jp s \<and> i_dev (ino jp s) = i_dev (ino ip s) \<and> file_blocks ip s \<inter> file_blocks jp s = {} \<longrightarrow>
        file_ok jp u \<and> fdata jp u = fdata jp s \<and> file_blocks ip u \<inter> file_blocks jp u = {}"
    proof (intro allI impI)
      fix jp assume j: "jp \<noteq> ip \<and> file_ok jp s \<and> i_dev (ino jp s) = i_dev (ino ip s) \<and> file_blocks ip s \<inter> file_blocks jp s = {}"
      then have "file_ok jp t \<and> fdata jp t = fdata jp s \<and> file_blocks ip t \<inter> file_blocks jp t = {}" "ino jp t = ino jp s"
        using a unfolding stored_def by blast+
      then show "file_ok jp u \<and> fdata jp u = fdata jp s \<and> file_blocks ip u \<inter> file_blocks jp u = {}"
        using b j d(6) unfolding stored_def by metis
    qed
  qed (use d(6,10) e(8,9,10) in simp_all)
qed

definition chunks :: "nat \<Rightarrow> nat" where
  "chunks n = (n + 1535) div 1536"

lemma chunks_step: "0 < n \<Longrightarrow> chunks n = Suc (chunks (n - 1536))"
proof (cases "n \<le> 1536")
  case True
  assume "0 < n"
  then have "(n + 1535) div 1536 = 1" using True by (intro div_nat_eqI) simp_all
  then show ?thesis using True by (simp add: chunks_def)
next
  case False
  then have "n + 1535 = (n - 1536 + 1535) + 1536" by simp
  then show ?thesis by (simp add: chunks_def)
qed

lemma filewrite_loop_ok:
  assumes "idle s" "open_file f ip s" "layout (i_dev (ino ip s)) s" "unat (f_off (fil f s)) = off"
    and "off \<le> length (fdata ip s)" "off + length bs \<le> 71680" "8 * chunks (length bs) \<le> card (free_blocks (i_dev (ino ip s)) s)" "bs \<noteq> []"
  shows "\<exists>t. filewrite_loop C f bs s = Inr (True, t) \<and> stored f ip off bs (8 * chunks (length bs)) s t"
  using assms
proof (induction "length bs" arbitrary: bs off s rule: less_induct)
  case less
  define n1 where "n1 = min (length bs) 1536"
  have f: "f < length (ftable s)" using less.prems(2) by (simp add: open_file_def)
  have len: "0 < length bs" using less.prems(8) by simp
  note cs = chunks_step [OF len]
  obtain t where t: "filewrite_chunk C f (take n1 bs) s = Inr (int (length (take n1 bs)), t)" "stored f ip off (take n1 bs) 8 s t"
  proof -
    have "unat (f_off (fil f s)) + length (take n1 bs) \<le> 71680" using less.prems(4,6) by simp
    then show ?thesis using that filewrite_chunk_ok [OF less.prems(1-3), of "take n1 bs" C] less.prems(4,5,7) len cs by (auto simp: n1_def)
  qed
  have l1: "length (take n1 bs) = n1" by (simp add: n1_def)
  have step: "filewrite_loop C f bs s = filewrite_loop C f (drop n1 bs) t"
    using t(1) [unfolded l1] less.prems(8) by (subst filewrite_loop.simps) (simp add: Let_def n1_def [symmetric])
  note d = storedD [OF t(2) f]
  show ?case
  proof (cases "drop n1 bs = []")
    case True
    then have "filewrite_loop C f (drop n1 bs) t = Inr (True, t)" by (subst filewrite_loop.simps) simp
    moreover have "stored f ip off bs (8 * chunks (length bs)) s t" using t(2) True cs by (simp add: stored_def)
    ultimately show ?thesis using step by auto
  next
    case False
    then have big: "n1 = 1536" "1536 < length bs" by (auto simp: n1_def)
    have "\<exists>u. filewrite_loop C f (drop n1 bs) t = Inr (True, u) \<and> stored f ip (off + n1) (drop n1 bs) (8 * chunks (length (drop n1 bs))) t u"
    proof (rule less.hyps)
      have "unat (word_of_nat (off + n1) :: u32) = off + n1" unfolding unat_of_nat by (rule mod_less) (use less.prems(6) big in simp)
      then show "unat (f_off (fil f t)) = off + n1" unfolding d(1) l1 by simp
      show "off + n1 \<le> length (fdata ip t)" using d(7) overwrite_nth(1) [OF less.prems(5), of "take n1 bs"] l1 by simp
    qed (use False big less.prems d stored_open [OF t(2)] cs in simp_all)
    then obtain u where u: "filewrite_loop C f (drop n1 bs) t = Inr (True, u)" "stored f ip (off + length (take n1 bs)) (drop n1 bs) (8 * chunks (length (drop n1 bs))) t u"
      unfolding l1 by blast
    have "stored f ip off (take n1 bs @ drop n1 bs) (8 + 8 * chunks (length (drop n1 bs))) s u"
      by (rule stored_trans [OF t(2) u(2) less.prems(2,5)])
    then show ?thesis using step u(1) cs big by simp
  qed
qed

section \<open>The swap file\<close>

text \<open>The page in slot \<open>k\<close> of a swap file.\<close>

definition swap_page :: "nat \<Rightarrow> nat \<Rightarrow> kernel \<Rightarrow> u8 list" where
  "swap_page ip k s = take 4096 (drop (4096 * k) (fdata ip s))"

lemma overwrite_page:
  assumes "length bs = 4096" "4096 * k \<le> length xs"
  shows "take 4096 (drop (4096 * k) (overwrite (4096 * k) bs xs)) = bs"
    and "j \<noteq> k \<Longrightarrow> 4096 * j + 4096 \<le> length xs \<Longrightarrow> take 4096 (drop (4096 * j) (overwrite (4096 * k) bs xs)) = take 4096 (drop (4096 * j) xs)"
proof -
  let ?ys = "overwrite (4096 * k) bs xs"
  have l: "length ?ys = max (length xs) (4096 * k + 4096)" using overwrite_nth(1) [OF assms(2), of bs] assms(1) by simp
  show "take 4096 (drop (4096 * k) ?ys) = bs"
    using assms by (simp add: overwrite_def)
  assume j: "j \<noteq> k" "4096 * j + 4096 \<le> length xs"
  show "take 4096 (drop (4096 * j) ?ys) = take 4096 (drop (4096 * j) xs)"
  proof (rule nth_equalityI)
    fix i assume "i < length (take 4096 (drop (4096 * j) ?ys))"
    then have i: "i < 4096" by simp
    have "\<not> (4096 * k \<le> 4096 * j + i \<and> 4096 * j + i < 4096 * k + 4096)"
    proof (cases "j < k")
      case True
      then have "4096 * j + 4096 \<le> 4096 * k" by linarith
      then show ?thesis using i by linarith
    next
      case False
      then have "4096 * k + 4096 \<le> 4096 * j" using j(1) by linarith
      then show ?thesis by linarith
    qed
    then have "?ys ! (4096 * j + i) = xs ! (4096 * j + i)"
      using overwrite_nth(2) [OF assms(2), of "4096 * j + i" bs] i j(2) assms(1) by auto
    then show "take 4096 (drop (4096 * j) ?ys) ! i = take 4096 (drop (4096 * j) xs) ! i" using i j(2) l by simp
  qed (use j(2) l in simp)
qed

lemma stored_seek:
  assumes "f < length (ftable s)" "stored f ip off bs k (upd_file f (\<lambda>x. x\<lparr>f_off := w\<rparr>) s) t"
  shows "stored f ip off bs k s t"
proof -
  note S = same_files_facts [OF same_files_other(3) [of s f "\<lambda>x. x\<lparr>f_off := w\<rparr>"]]
  have "(upd_file f (\<lambda>x. x\<lparr>f_off := w\<rparr>) s)\<lparr>blocks := B, icache := I,
      ftable := (ftable (upd_file f (\<lambda>x. x\<lparr>f_off := w\<rparr>) s))[f := (fil f (upd_file f (\<lambda>x. x\<lparr>f_off := w\<rparr>) s))\<lparr>f_off := v\<rparr>]\<rparr> =
    s\<lparr>blocks := B, icache := I, ftable := (ftable s)[f := (fil f s)\<lparr>f_off := v\<rparr>]\<rparr>" for B I v
    using assms(1) by (simp add: upd_file_def fil_def)
  then show ?thesis using assms(2) unfolding stored_def S ino_frame by simp
qed

lemma seek_ok:
  assumes "open_file f ip s"
  shows "open_file f ip (upd_file f (\<lambda>x. x\<lparr>f_off := w\<rparr>) s)" "fil f (upd_file f (\<lambda>x. x\<lparr>f_off := w\<rparr>) s) = (fil f s)\<lparr>f_off := w\<rparr>"
    "idle (upd_file f (\<lambda>x. x\<lparr>f_off := w\<rparr>) s) = idle s"
proof -
  note S = same_files_facts [OF same_files_other(3) [of s f "\<lambda>x. x\<lparr>f_off := w\<rparr>"]]
  show u: "fil f (upd_file f (\<lambda>x. x\<lparr>f_off := w\<rparr>) s) = (fil f s)\<lparr>f_off := w\<rparr>"
    using assms by (simp add: fil_def upd_file_def open_file_def)
  show "open_file f ip (upd_file f (\<lambda>x. x\<lparr>f_off := w\<rparr>) s)"
    using assms unfolding open_file_def u S ino_frame by (simp add: upd_file_def)
  show "idle (upd_file f (\<lambda>x. x\<lparr>f_off := w\<rparr>) s) = idle s" by (simp add: idle_def upd_file_def)
qed

lemma place_nat: "k < 17 \<Longrightarrow> unat (PGSIZE * word_of_nat k :: u32) = 4096 * k"
proof -
  assume "k < 17"
  then have "4096 * k < 4294967296" by simp
  then show ?thesis using unat_of_nat [where 'a = 32, of "4096 * k"] by simp
qed

lemma writeToSwapFile_ok:
  assumes p: "swapFile (prc p s) = Some f" and s: "idle s" "open_file f ip s" "layout (i_dev (ino ip s)) s"
    and b: "length bs = 4096" and k: "k < 17" "4096 * k \<le> length (fdata ip s)"
    and fr: "24 \<le> card (free_blocks (i_dev (ino ip s)) s)"
  shows "\<exists>t. writeToSwapFile C p bs (PGSIZE * word_of_nat k) s = Inr (4096, t) \<and> stored f ip (4096 * k) bs 24 s t"
proof -
  define u where "u = upd_file f (\<lambda>x. x\<lparr>f_off := PGSIZE * word_of_nat k\<rparr>) s"
  note q = seek_ok [OF s(2), where w = "PGSIZE * word_of_nat k", folded u_def]
  note S = same_files_facts [OF same_files_other(3) [of s f "\<lambda>x. x\<lparr>f_off := PGSIZE * word_of_nat k\<rparr>"], folded u_def]
  have c: "chunks 4096 = 3" by (simp add: chunks_def)
  have "\<exists>t. filewrite_loop C f bs u = Inr (True, t) \<and> stored f ip (4096 * k) bs (8 * chunks (length bs)) u t"
    by (rule filewrite_loop_ok) (use q s b k fr c in \<open>auto simp: S(3,6,7,9) place_nat\<close>)
  then obtain t where t: "filewrite_loop C f bs u = Inr (True, t)" "stored f ip (4096 * k) bs 24 u t" using b c by auto
  have "writeToSwapFile C p bs (PGSIZE * word_of_nat k) s = Inr (4096, t)"
    using p q(2) s(2) t(1) b unfolding writeToSwapFile_def filewrite_def by (simp add: u_def [symmetric] open_file_def)
  moreover have "stored f ip (4096 * k) bs 24 s t"
    using stored_seek [OF _ t(2) [unfolded u_def]] s(2) by (simp add: open_file_def)
  ultimately show ?thesis by blast
qed

lemma readFromSwapFile_ok:
  assumes p: "swapFile (prc p s) = Some f" and o: "open_file f ip s" and k: "k < 17" "4096 * k + 4096 \<le> length (fdata ip s)"
  shows "readFromSwapFile C p (PGSIZE * word_of_nat k) 4096 s =
    Inr ((4096, swap_page ip k s), upd_file f (\<lambda>x. x\<lparr>f_off := PGSIZE * word_of_nat k + PGSIZE\<rparr>) s)"
proof -
  define u where "u = upd_file f (\<lambda>x. x\<lparr>f_off := PGSIZE * word_of_nat k\<rparr>) s"
  note q = seek_ok [OF o, where w = "PGSIZE * word_of_nat k", folded u_def]
  note S = same_files_facts [OF same_files_other(3) [of s f "\<lambda>x. x\<lparr>f_off := PGSIZE * word_of_nat k\<rparr>"], folded u_def]
  have ip: "ip < length (icache u)" and fu: "f < length (ftable u)" using q(1) file_okD(1) by (auto simp: open_file_def)
  define v where "v = set_ino ip ((ino ip u)\<lparr>i_lock := True\<rparr>) u"
  have lk: "ilock (f_ip (fil f u)) u = Inr ((), v)" using q(1) ip by (simp add: ilock_def open_file_def v_def Let_def)
  note V = same_files_facts [OF locked_same [OF ip, of True, folded v_def]]
  have iv: "ino ip v = (ino ip u)\<lparr>i_lock := True\<rparr>" "fil f v = fil f u" using ip by (simp add: v_def, simp add: v_def fil_def set_ino_def)
  have "readi (conf_dev C) ip (PGSIZE * word_of_nat k) 4096 v =
    Inr ((int (min (unat (4096 :: u32)) (unat (i_size (ino ip v)) - unat (PGSIZE * word_of_nat k :: u32))),
      take (unat (4096 :: u32)) (drop (unat (PGSIZE * word_of_nat k :: u32)) (fdata ip v))), v)"
    by (rule readi_ok) (use q(1) k in \<open>simp_all add: V S iv(1) open_file_def place_nat word_le_nat_alt\<close>)
  then have r: "readi (conf_dev C) ip (PGSIZE * word_of_nat k) 4096 v = Inr ((4096, swap_page ip k s), v)"
    using k by (simp add: place_nat V S swap_page_def)
  have un: "iunlock (Some ip) (upd_file f g v) = Inr ((), upd_file f g u)" for g
  proof -
    have "\<not> i_lock (icache u ! ip)" using q(1) by (simp add: open_file_def ino_def)
    then have "(icache u ! ip)\<lparr>i_lock := False\<rparr> = icache u ! ip" by (cases "icache u ! ip") simp
    then have "(icache u)[ip := (icache u ! ip)\<lparr>i_lock := False\<rparr>] = icache u" by (simp only: list_update_id)
    then have "set_ino ip ((ino ip v)\<lparr>i_lock := False\<rparr>) (upd_file f g v) = upd_file f g u"
      using ip by (intro kernel.equality) (simp_all add: iv(1) v_def set_ino_def upd_file_def ino_def)
    then show ?thesis using q(1) ip by (simp add: iunlock_def iv(1) open_file_def)
  qed
  have "fil f (upd_file f (\<lambda>x. x\<lparr>f_off := f_off x + 4096\<rparr>) v) = (fil f u)\<lparr>f_off := f_off (fil f u) + 4096\<rparr>"
    using fu by (simp add: fil_def upd_file_def v_def set_ino_def)
  then have "fileread C f 4096 u = Inr ((4096, swap_page ip k s), upd_file f (\<lambda>x. x\<lparr>f_off := f_off x + 4096\<rparr>) u)"
    using q(1,2) lk r un unfolding fileread_def by (simp add: iv(2) the_ip_def open_file_def Let_def)
  moreover have "upd_file f (\<lambda>x. x\<lparr>f_off := f_off x + 4096\<rparr>) u = upd_file f (\<lambda>x. x\<lparr>f_off := PGSIZE * word_of_nat k + PGSIZE\<rparr>) s"
    using o by (simp add: u_def upd_file_def open_file_def)
  ultimately show ?thesis using p by (simp add: readFromSwapFile_def u_def)
qed

end
