(* ===== verification/Swapping.thy ===== *)
theory Swapping
  imports Cow Swapio
begin

text \<open>
  Paging out (\<open>moveToDisk\<close>, \<open>movePageToFile\<close> of \<open>vm.c\<close>): the page goes from the frame that the page table names to a slot of the swap
  file, across the page table, the allocator, the list of pages of the process and the file system. \<open>moveToDisk_ok\<close> says what has changed then.
\<close>

unbundle bit_operations_syntax

section \<open>Memory and file system apart\<close>

text \<open>States that agree on everything the allocator and the page tables use.\<close>

definition same_mem :: "kernel \<Rightarrow> kernel \<Rightarrow> bool" where
  "same_mem s t \<longleftrightarrow> pmem t = pmem s \<and> freelist t = freelist s \<and> use_lock t = use_lock s \<and> kmem_locked t = kmem_locked s \<and>
     referenceCounters t = referenceCounters s"

lemma same_mem_facts:
  assumes "same_mem s t"
  shows "kmem_ok E t xs = kmem_ok E s xs" "refs t = refs s" "pte_of d a t = pte_of d a s" "pt_frames d t = pt_frames d s"
    "uframe d a t = uframe d a s" "ubyte d a t = ubyte d a s" "tab d t = tab d s" "present d t = present d s"
    "pt_ok E d t = pt_ok E d s" "user_frames d t = user_frames d s" "space_ok E d t = space_ok E d s" "pde_of d i t = pde_of d i s"
proof -
  note a = assms [unfolded same_mem_def]
  have p: "pmem t = pmem s" using a by simp
  note v = view_cong [OF p]
  show r: "refs t = refs s" using a by (simp add: refs_def fun_eq_iff)
  show "kmem_ok E t xs = kmem_ok E s xs" using a r by (simp add: kmem_ok_def)
  show "pte_of d a t = pte_of d a s" "uframe d a t = uframe d a s" "ubyte d a t = ubyte d a s" for a by (simp_all add: v)
  show "pt_frames d t = pt_frames d s" "tab d t = tab d s" "present d t = present d s" by (simp_all add: v)
  show u: "user_frames d t = user_frames d s" by (simp add: user_frames_def v)
  show pt: "pt_ok E d t = pt_ok E d s" by (simp add: pt_ok_def v r)
  show "space_ok E d t = space_ok E d s" by (simp add: space_ok_def pt u r v)
  show "pde_of d i t = pde_of d i s" by (simp add: pde_of_def p)
qed

lemma same_mem_intros:
  "same_mem s (upd_proc p g s)" "same_mem s (upd_file f h s)" "stored f ip off bs k s t \<Longrightarrow> same_mem s t" "same_mem s (lcr3 v s)"
  "same_mem s (upd_page p i e s)"
  by (auto simp: same_mem_def upd_proc_def upd_file_def stored_def lcr3_def upd_page_def)

lemma same_mem_trans: "same_mem s t \<Longrightarrow> same_mem t u \<Longrightarrow> same_mem s u"
  by (simp add: same_mem_def)

text \<open>States with the same file system.\<close>

definition same_fs :: "kernel \<Rightarrow> kernel \<Rightarrow> bool" where
  "same_fs s t \<longleftrightarrow> blocks t = blocks s \<and> sb t = sb s \<and> icache t = icache s \<and> ftable t = ftable s \<and>
     log_size t = log_size s \<and> outstanding t = outstanding s \<and> committing t = committing s \<and> lh_block t = lh_block s"

lemma same_fs_facts:
  assumes "same_fs s t"
  shows "same_files s t" "open_file f ip t = open_file f ip s" "idle t = idle s" "fdata ip t = fdata ip s" "fil f t = fil f s"
    "ino ip t = ino ip s" "layout dev t = layout dev s" "free_blocks dev t = free_blocks dev s" "swap_page ip k t = swap_page ip k s"
proof -
  note a = assms [unfolded same_fs_def]
  show i: "ino ip t = ino ip s" for ip using a by (simp add: ino_def)
  show f: "fil f t = fil f s" using a by (simp add: fil_def)
  show m: "same_files s t" using a i by (simp add: same_files_def)
  note S = same_files_facts [OF m]
  show "open_file f ip t = open_file f ip s" using a by (simp add: open_file_def i f S)
  show "idle t = idle s" using a by (simp add: idle_def)
  show "fdata ip t = fdata ip s" "layout dev t = layout dev s" "free_blocks dev t = free_blocks dev s" by (simp_all add: S)
  show "swap_page ip k t = swap_page ip k s" by (simp add: swap_page_def S)
qed

lemma same_fs_intros:
  "same_fs s (upd_proc p g s)" "same_fs s (store r w s)" "same_fs s (lcr3 v s)" "same_fs s (upd_page p i e s)" "same_fs s (set_pte d a w s)"
  "same_fs s (s\<lparr>pmem := m\<rparr>)" "same_fs s (dropped v s)" "same_fs s (pushed v s)" "same_fs s (took v s)"
  by (simp_all add: same_fs_def upd_proc_def store_def lcr3_def upd_page_def set_pte_def dropped_def pushed_def took_def)

lemma same_fs_trans: "same_fs s t \<Longrightarrow> same_fs t u \<Longrightarrow> same_fs s u"
  by (simp add: same_fs_def)

text \<open>Giving back a frame, whether or not others still use it.\<close>

lemma kfree_ok:
  fixes s :: kernel
  assumes k: "kmem_ok E s xs" and v: "freeable E v" "0 < refs s v"
  shows "\<exists>t ys. kfree E v s = Inr ((), t) \<and> kmem_ok E t ys \<and> (refs s v = 1 \<longrightarrow> ys = v # xs) \<and> (1 < refs s v \<longrightarrow> ys = xs) \<and>
    (\<forall>w. freeable E w \<longrightarrow> refs t w = (if w = v then refs s v - 1 else refs s w)) \<and>
    (\<forall>w. w \<noteq> v \<longrightarrow> pmem t (V2P w) = pmem s (V2P w)) \<and> same_fs s t \<and> ptable t = ptable s \<and> curp t = curp s \<and>
    global_pgdir_flag t = global_pgdir_flag s \<and> cr3 t = cr3 s"
proof (cases "refs s v = 1")
  case True
  show ?thesis
    by (rule exI [of _ "pushed v (dropped v s)"], rule exI [of _ "v # xs"])
      (use True kfree_last [OF k v(1) True] pushed_ok [OF k v(1) True] same_fs_trans [OF same_fs_intros(7,8)]
        in \<open>auto simp: pushed_def dropped_def\<close>)
next
  case False
  then have r: "1 < refs s v" using v(2) by simp
  show ?thesis
    by (rule exI [of _ "dropped v s"], rule exI [of _ xs])
      (use r kfree_shared [OF k v(1) r] dropped_ok [OF k v(1) r] same_fs_intros(7) in \<open>auto simp: dropped_def\<close>)
qed

section \<open>Out\<close>

text \<open>What happens to the process when page \<open>i\<close> goes to slot \<open>k\<close>.\<close>

definition noted_out :: "nat \<Rightarrow> nat \<Rightarrow> proc \<Rightarrow> proc" where
  "noted_out i k q =
    (let q = upd_link i (\<lambda>l. l\<lparr>pl_page := (pl_page l)\<lparr>offset_in_file := PGSIZE * word_of_nat k\<rparr>\<rparr>) q;
         q = q\<lparr>available_Offsets := (available_Offsets q)[k := True]\<rparr>;
         q = upd_link i (\<lambda>l. l\<lparr>pl_page := (pl_page l)\<lparr>pstate := IN_DISK\<rparr>\<rparr>) q
     in q\<lparr>num_pages_disk := num_pages_disk q + 1\<rparr>)"

definition gone_out :: "nat \<Rightarrow> nat \<Rightarrow> proc \<Rightarrow> proc" where
  "gone_out i k q =
    (let q = noted_out i k q;
         q = q\<lparr>num_of_page_outs := num_of_page_outs q + 1\<rparr>;
         q = removePageFromList i q
     in q\<lparr>num_pages_ram := num_pages_ram q - 1\<rparr>)"

lemma upd_proc_twice: "p < length (ptable s) \<Longrightarrow> upd_proc p f (upd_proc p g s) = upd_proc p (\<lambda>q. f (g q)) s"
  by (simp add: upd_proc_def)

lemma walk_page: "bit (pte_of d va s) 0 \<Longrightarrow> walkpgdir d va al s = Inr (Some (V2P (tab d s (PDX va)), PTX va), s)"
  using pte_present [of d va s] by (simp add: present_PDX walk_found)

lemma movePageToFile_ok:
  assumes c: "curp s = Some p" "p < length (ptable s)" "\<not> global_pgdir_flag s" "cr3 s = V2P (pgdir (prc p s))"
    and va: "PGROUNDDOWN (vaddr p i s) = vaddr p i s" "bit (pte_of (pgdir (prc p s)) (vaddr p i s) s) 0"
    and k: "nextAvOffset (prc p s) = Some k" "k < 17"
    and f: "swapFile (prc p s) = Some f" "idle s" "open_file f ip s" "layout (i_dev (ino ip s)) s" "4096 * k \<le> length (fdata ip s)"
      "24 \<le> card (free_blocks (i_dev (ino ip s)) s)"
  shows "\<exists>t. movePageToFile C p i s = Inr (0, upd_proc p (noted_out i k) t) \<and>
    stored f ip (4096 * k) (map (get_byte (pmem s (PTE_ADDR (pte_of (pgdir (prc p s)) (vaddr p i s) s)))) [0..<4096]) 24 s t"
proof -
  let ?d = "pgdir (prc p s)" and ?va = "vaddr p i s"
  let ?bs = "map (get_byte (pmem s (PTE_ADDR (pte_of ?d ?va s)))) [0..<4096]"
  have r: "vread ?va 4096 s = Inr ?bs" using vread_page [OF c(4) va(2)] va(1) by simp
  obtain t where t: "writeToSwapFile C p ?bs (PGSIZE * word_of_nat k) s = Inr (4096, t)" "stored f ip (4096 * k) ?bs 24 s t"
    using writeToSwapFile_ok [OF f(1-4) _ k(2) f(5,6), of ?bs C] by auto
  have "ptable t = ptable s" using storedD(4) [OF t(2)] f(3) by (simp add: open_file_def)
  then have p: "p < length (ptable t)" using c(2) by simp
  have "load (V2P (tab ?d s (PDX ?va)), PTX ?va) s = pte_of ?d ?va s" by (rule load_pte [OF pte_present [OF va(2)]])
  then have "movePageToFile C p i s = Inr (0, upd_proc p (noted_out i k) t)"
    using c va(2) k(1) r t(1) walk_page [OF va(2)] p
    by (simp add: movePageToFile_def cur_pgdir_def myproc_def flag_bits upd_page_def upd_proc_twice noted_out_def [abs_def] Let_def)
  then show ?thesis using t(2) by blast
qed

definition swapped :: "u32 \<Rightarrow> u32" where
  "swapped w = (w AND NOT PTE_P) OR PTE_PG"

lemma swapped_bits: "PTE_ADDR (swapped w) = PTE_ADDR w" "\<not> bit (swapped w) 0" "bit (swapped w) 9"
proof -
  have b: "bit (swapped w) n \<longleftrightarrow> n = 9 \<or> n \<noteq> 0 \<and> bit w n" if "n < 32" for n
    using that unfolding swapped_def by (auto simp: flag_bits bit_or_iff bit_and_iff bit_NOT_u32)
  show "\<not> bit (swapped w) 0" "bit (swapped w) 9" by (simp_all add: b)
  show "PTE_ADDR (swapped w) = PTE_ADDR w"
    by (rule bit_word_eqI) (auto simp: flag_bits b)
qed

lemma noted_out_facts:
  assumes "i < length (pages_meta_data q)"
  shows "pl_page (link j (noted_out i k q)) =
      (if j = i then (pl_page (link i q))\<lparr>offset_in_file := PGSIZE * word_of_nat k, pstate := IN_DISK\<rparr> else pl_page (link j q))"
    "pgdir (noted_out i k q) = pgdir q" "swapFile (noted_out i k q) = swapFile q" "length (pages_meta_data (noted_out i k q)) = length (pages_meta_data q)"
    "available_Offsets (noted_out i k q) = (available_Offsets q)[k := True]"
  using assms by (auto simp: noted_out_def Let_def link_upd upd_link_def link_def nth_list_update)

lemma gone_out_facts:
  assumes "i < length (pages_meta_data q)"
  shows "pl_page (link j (gone_out i k q)) =
      (if j = i then (pl_page (link i q))\<lparr>offset_in_file := PGSIZE * word_of_nat k, pstate := IN_DISK\<rparr> else pl_page (link j q))"
    "pgdir (gone_out i k q) = pgdir q" "swapFile (gone_out i k q) = swapFile q" "length (pages_meta_data (gone_out i k q)) = length (pages_meta_data q)"
    "available_Offsets (gone_out i k q) = (available_Offsets q)[k := True]"
proof -
  let ?r = "(noted_out i k q)\<lparr>num_of_page_outs := num_of_page_outs (noted_out i k q) + 1\<rparr>"
  note n = noted_out_facts [OF assms] and l = removePageFromList_links [of ?r i]
  have lr: "link j ?r = link j (noted_out i k q)" "link j (x\<lparr>num_pages_ram := z\<rparr>) = link j x" for j x z by (simp_all add: link_def)
  show "pl_page (link j (gone_out i k q)) =
      (if j = i then (pl_page (link i q))\<lparr>offset_in_file := PGSIZE * word_of_nat k, pstate := IN_DISK\<rparr> else pl_page (link j q))"
    using links_onlyD(1) [OF l, of j] n(1) [of j] unfolding gone_out_def Let_def lr by simp
  show "pgdir (gone_out i k q) = pgdir q" "swapFile (gone_out i k q) = swapFile q"
      "available_Offsets (gone_out i k q) = (available_Offsets q)[k := True]"
    using links_onlyD [OF l] n(2,3,5) unfolding gone_out_def Let_def by simp_all
  show "length (pages_meta_data (gone_out i k q)) = length (pages_meta_data q)"
    using l n(4) unfolding gone_out_def Let_def links_only_def by simp
qed

text \<open>Page \<open>i\<close> of process \<open>p\<close>, at \<open>va\<close> in address space \<open>d\<close>, can be paged out to slot \<open>k\<close>.\<close>

definition can_page_out :: "u32 \<Rightarrow> nat \<Rightarrow> nat \<Rightarrow> nat \<Rightarrow> nat \<Rightarrow> nat \<Rightarrow> kernel \<Rightarrow> bool" where
  "can_page_out E p i k f ip s \<longleftrightarrow>
     (let d = pgdir (prc p s); va = vaddr p i s in
      curp s = Some p \<and> p < length (ptable s) \<and> \<not> global_pgdir_flag s \<and> cr3 s = V2P d \<and>
      i < length (pages_meta_data (prc p s)) \<and> space_ok E d s \<and>
      va < KERNBASE \<and> PGROUNDDOWN va = va \<and> bit (pte_of d va s) 0 \<and>
      (\<forall>a. a < KERNBASE \<and> bit (pte_of d a s) 0 \<and> uframe d a s = uframe d va s \<longrightarrow> unat a div 4096 = unat va div 4096) \<and>
      nextAvOffset (prc p s) = Some k \<and> k < 17 \<and>
      swapFile (prc p s) = Some f \<and> idle s \<and> open_file f ip s \<and> layout (i_dev (ino ip s)) s \<and>
      4096 * k \<le> length (fdata ip s) \<and> 24 \<le> card (free_blocks (i_dev (ino ip s)) s))"

definition page_bytes :: "u32 \<Rightarrow> u32 \<Rightarrow> kernel \<Rightarrow> u8 list" where
  "page_bytes d va s = map (get_byte (pmem s (PTE_ADDR (pte_of d va s)))) [0..<4096]"

text \<open>The states on the way: \<open>u\<close> with the page in the file, \<open>v\<close> with the process adjusted, \<open>t\<close> with the frame given back.\<close>

definition out_steps :: "u32 \<Rightarrow> u32 \<Rightarrow> u32 \<Rightarrow> nat \<Rightarrow> nat \<Rightarrow> nat \<Rightarrow> nat \<Rightarrow> nat \<Rightarrow> kernel \<Rightarrow> u32 list \<Rightarrow> kernel \<Rightarrow> kernel \<Rightarrow> kernel \<Rightarrow> u32 list \<Rightarrow> bool" where
  "out_steps E d va p i k f ip s xs u v t ys \<longleftrightarrow>
     stored f ip (4096 * k) (page_bytes d va s) 24 s u \<and> same_mem s v \<and>
     kmem_ok E t ys \<and> (refs s (uframe d va s) = 1 \<longrightarrow> ys = uframe d va s # xs) \<and> (1 < refs s (uframe d va s) \<longrightarrow> ys = xs) \<and>
     (\<forall>w. freeable E w \<longrightarrow> refs t w = (if w = uframe d va s then refs s w - 1 else refs s w)) \<and>
     (\<forall>w. w \<noteq> uframe d va s \<longrightarrow> pmem t (V2P w) = pmem (set_pte d va (swapped (pte_of d va s)) v) (V2P w)) \<and>
     same_fs u t \<and>
     ptable t = (ptable s)[p := removePageFromList i ((noted_out i k (prc p s))\<lparr>num_of_page_outs := num_of_page_outs (noted_out i k (prc p s)) + 1\<rparr>)] \<and>
     curp t = Some p \<and> \<not> global_pgdir_flag t"

lemma moveToDisk_steps:
  assumes can: "can_page_out E p i k f ip s" and E: "E = conf_end C" and km: "kmem_ok E s xs"
  defines "d \<equiv> pgdir (prc p s)" and "va \<equiv> vaddr p i s"
  shows "\<exists>u v t ys. out_steps E d va p i k f ip s xs u v t ys \<and>
    moveToDisk C (Some i) s = Inr (0, upd_proc p (\<lambda>q. q\<lparr>num_pages_ram := num_pages_ram q - 1\<rparr>) (lcr3 (V2P d) t))"
proof -
  note c = can [unfolded can_page_out_def Let_def, folded d_def va_def]
  have p: "p < length (ptable s)" and i: "i < length (pages_meta_data (prc p s))" and present: "bit (pte_of d va s) 0"
    and S: "space_ok E d s" and va: "va < KERNBASE" using c by auto
  obtain u where u: "movePageToFile C p i s = Inr (0, upd_proc p (noted_out i k) u)" "stored f ip (4096 * k) (page_bytes d va s) 24 s u"
    using movePageToFile_ok [of s p i k f ip C] c unfolding page_bytes_def d_def va_def by blast
  have pu: "ptable u = ptable s" using storedD(4) [OF u(2)] c by (simp add: open_file_def)
  obtain B I F where U: "u = s\<lparr>blocks := B, icache := I, ftable := F\<rparr>" using u(2) unfolding stored_def by blast
  let ?rm = "\<lambda>q. removePageFromList i ((noted_out i k q)\<lparr>num_of_page_outs := num_of_page_outs (noted_out i k q) + 1\<rparr>)"
  define v where "v = upd_proc p ?rm u"
  have sm: "same_mem s v" unfolding v_def by (rule same_mem_trans [OF same_mem_intros(3) [OF u(2)] same_mem_intros(1)])
  note M = same_mem_facts [OF sm]
  have fs: "same_fs u v" unfolding v_def by (rule same_fs_intros)
  have vv: "vaddr p i v = va"
  proof -
    let ?q = "(noted_out i k (prc p s))\<lparr>num_of_page_outs := num_of_page_outs (noted_out i k (prc p s)) + 1\<rparr>"
    have "prc p v = ?rm (prc p s)" using p by (simp add: v_def pu prc_def upd_proc_def)
    then have "pl_page (link i (prc p v)) = pl_page (link i ?q)" using links_onlyD(1) [OF removePageFromList_links] by simp
    also have "\<dots> = pl_page (link i (noted_out i k (prc p s)))" by (simp add: link_def)
    finally show ?thesis using noted_out_facts(1) [OF i, of i k] by (simp add: vaddr_def lnk_def va_def)
  qed
  let ?r = "(V2P (tab d s (PDX va)), PTX va)" and ?w = "pte_of d va s"
  have ld: "load ?r v = ?w" using load_pte [of va d v] pte_present [OF present] M(3,7,8) by simp
  have sf: "setFlagsOnSwap d va False v = Inr ((), set_pte d va (swapped ?w) v)"
    using walk_page [of d va v False] present M(3,7) ld by (simp add: setFlagsOnSwap_def Let_def set_pte_def swapped_def)
  let ?x = "set_pte d va (swapped ?w) v"
  have lx: "load ?r ?x = swapped ?w" by (simp add: set_pte_def M(7))
  have pt: "pt_ok E d v" and P: "PDX va \<in> present d v" using S M(8,9) pte_present [OF present] by (simp_all add: space_ok_def)
  have kx: "kmem_ok E ?x xs" by (rule set_pte_kmem [OF _ pt P]) (simp add: M(1) km)
  have fr: "freeable E (uframe d va s)" "0 < refs s (uframe d va s)" using S user_framesI [OF va present] by (auto simp: space_ok_def)
  have rx: "refs ?x = refs s" by (simp add: set_pte_def fun_eq_iff M(2))
  obtain t ys where t: "kfree E (uframe d va s) ?x = Inr ((), t)" "kmem_ok E t ys" "refs s (uframe d va s) = 1 \<longrightarrow> ys = uframe d va s # xs"
      "1 < refs s (uframe d va s) \<longrightarrow> ys = xs" "\<forall>w. freeable E w \<longrightarrow> refs t w = (if w = uframe d va s then refs s w - 1 else refs s w)"
      "\<forall>w. w \<noteq> uframe d va s \<longrightarrow> pmem t (V2P w) = pmem ?x (V2P w)" "same_fs ?x t" "ptable t = ptable ?x" "curp t = curp ?x"
      "global_pgdir_flag t = global_pgdir_flag ?x"
    using kfree_ok [OF kx fr(1)] fr(2) unfolding rx by auto
  have "moveToDisk C (Some i) s = Inr (0, upd_proc p (\<lambda>q. q\<lparr>num_pages_ram := num_pages_ram q - 1\<rparr>) (lcr3 (V2P d) t))"
    using c u(1) walk_page [OF present] sf lx t(1) p pu vv swapped_bits(1) [of ?w]
    by (simp add: moveToDisk_def cur_pgdir_def myproc_def va_def [symmetric] d_def [symmetric] Let_def upd_proc_twice v_def [symmetric] uframe_def E)
  moreover have "ptable ?x = (ptable s)[p := ?rm (prc p s)]" by (simp add: set_pte_def store_def v_def upd_proc_def pu prc_def)
  moreover have "curp ?x = Some p" "\<not> global_pgdir_flag ?x" using c by (simp_all add: set_pte_def store_def v_def U upd_proc_def)
  moreover have "same_fs u t" by (rule same_fs_trans [OF fs same_fs_trans [OF same_fs_intros(5) t(7)]])
  ultimately show ?thesis using u(2) sm t(2-6,8-10)
    by (intro exI [of _ u] exI [of _ v] exI [of _ t] exI [of _ ys]) (simp add: out_steps_def)
qed

text \<open>What paging out does.\<close>

definition paged_out :: "u32 \<Rightarrow> nat \<Rightarrow> nat \<Rightarrow> nat \<Rightarrow> nat \<Rightarrow> nat \<Rightarrow> kernel \<Rightarrow> kernel \<Rightarrow> bool" where
  "paged_out E p i k f ip s t \<longleftrightarrow>
     (let d = pgdir (prc p s); va = vaddr p i s in
      prc p t = gone_out i k (prc p s) \<and> length (ptable t) = length (ptable s) \<and> curp t = Some p \<and> \<not> global_pgdir_flag t \<and> cr3 t = V2P d \<and>
      (\<forall>a. pte_of d a t = (if unat a div 4096 = unat va div 4096 then swapped (pte_of d va s) else pte_of d a s)) \<and>
      space_ok E d t \<and>
      (\<forall>w. freeable E w \<longrightarrow> refs t w = (if w = uframe d va s then refs s w - 1 else refs s w)) \<and>
      (\<forall>a. a < KERNBASE \<and> bit (pte_of d a t) 0 \<longrightarrow> ubyte d a t = ubyte d a s) \<and>
      idle t \<and> open_file f ip t \<and> layout (i_dev (ino ip t)) t \<and>
      fdata ip t = overwrite (4096 * k) (page_bytes d va s) (fdata ip s) \<and>
      (\<forall>jp. jp \<noteq> ip \<and> file_ok jp s \<and> i_dev (ino jp s) = i_dev (ino ip s) \<and> file_blocks ip s \<inter> file_blocks jp s = {} \<longrightarrow>
         file_ok jp t \<and> fdata jp t = fdata jp s))"

lemma set_pte_other: "w \<noteq> tab d s (PDX va) \<Longrightarrow> pmem (set_pte d va x s) (V2P w) = pmem s (V2P w)"
  by (auto simp: set_pte_def store_def)

lemma data_frame_views:
  assumes "\<forall>w. w \<noteq> v \<longrightarrow> pmem t (V2P w) = pmem s (V2P w)" "v \<notin> pt_frames d s"
  shows "pte_of d a t = pte_of d a s" "pt_frames d t = pt_frames d s" "tab d t = tab d s" "present d t = present d s"
proof -
  have "v \<noteq> d" using assms(2) by (auto simp: pt_frames_def)
  then have pde: "pde_of d i t = pde_of d i s" for i using assms(1) by (auto simp: pde_of_def)
  then show t: "tab d t = tab d s" "present d t = present d s" by (auto simp: tab_def present_def fun_eq_iff)
  then show "pt_frames d t = pt_frames d s" by (simp add: pt_frames_def)
  have "tab d s (PDX a) \<noteq> v" if "bit (pde_of d (PDX a) s) 0" using that assms(2) by (auto simp: pt_frames_def present_PDX)
  then show "pte_of d a t = pte_of d a s" using assms(1) by (auto simp: pte_of_def pde tab_def)
qed

lemma moveToDisk_ok:
  assumes can: "can_page_out (conf_end C) p i k f ip s" and km: "kmem_ok (conf_end C) s xs"
  shows "\<exists>t ys. moveToDisk C (Some i) s = Inr (0, t) \<and> paged_out (conf_end C) p i k f ip s t \<and> kmem_ok (conf_end C) t ys \<and>
    (refs s (uframe (pgdir (prc p s)) (vaddr p i s) s) = 1 \<longrightarrow> ys \<noteq> []) \<and> (xs \<noteq> [] \<longrightarrow> ys \<noteq> [])"
proof -
  let ?E = "conf_end C" and ?d = "pgdir (prc p s)" and ?va = "vaddr p i s"
  let ?w = "pte_of ?d ?va s" and ?v = "uframe ?d ?va s"
  note c = can [unfolded can_page_out_def Let_def]
  obtain u v t ys where o: "out_steps ?E ?d ?va p i k f ip s xs u v t ys"
    and x: "moveToDisk C (Some i) s = Inr (0, upd_proc p (\<lambda>q. q\<lparr>num_pages_ram := num_pages_ram q - 1\<rparr>) (lcr3 (V2P ?d) t))"
    using moveToDisk_steps [OF can refl km] by (elim exE conjE) (rule that)
  note o = o [unfolded out_steps_def]
  note u = conjunct1 [OF o] and o = conjunct2 [OF o]
  note v = conjunct1 [OF o] and o = conjunct2 [OF o]
  note ys = conjunct1 [OF o] conjunct1 [OF conjunct2 [OF o]] conjunct1 [OF conjunct2 [OF conjunct2 [OF o]]] and o = conjunct2 [OF conjunct2 [OF conjunct2 [OF o]]]
  note refs = conjunct1 [OF o] and o = conjunct2 [OF o]
  note mem = conjunct1 [OF o] and o = conjunct2 [OF o]
  note fs = conjunct1 [OF o] and o = conjunct2 [OF o]
  note pt = conjunct1 [OF o] and ct = conjunct1 [OF conjunct2 [OF o]] conjunct2 [OF conjunct2 [OF o]]
  have p: "p < length (ptable s)" using c by (elim conjE)
  have present: "bit ?w 0" using c by (elim conjE)
  have S: "space_ok ?E ?d s" using c by (elim conjE)
  have va: "?va < KERNBASE" using c by (elim conjE)
  have "\<forall>a. a < KERNBASE \<and> bit (pte_of ?d a s) 0 \<and> uframe ?d a s = ?v \<longrightarrow> unat a div 4096 = unat ?va div 4096"
    using c by (elim conjE)
  then have sole: "unat a div 4096 = unat ?va div 4096" if "a < KERNBASE" "bit (pte_of ?d a s) 0" "uframe ?d a s = ?v" for a
    using that by simp
  define r where "r = upd_proc p (\<lambda>q. q\<lparr>num_pages_ram := num_pages_ram q - 1\<rparr>) (lcr3 (V2P ?d) t)"
  have rt: "same_mem t r" "same_fs t r" unfolding r_def
    by (rule same_mem_trans [OF same_mem_intros(4,1)], rule same_fs_trans [OF same_fs_intros(3,1)])
  note M = same_mem_facts [OF v] and R = same_mem_facts [OF rt(1)]
  let ?x = "set_pte ?d ?va (swapped ?w) v"
  have ptv: "pt_ok ?E ?d v" and P: "PDX ?va \<in> present ?d v" using S M(8,9) pte_present [OF present] by (simp_all add: space_ok_def)
  have px: "pte_of ?d a ?x = (if unat a div 4096 = unat ?va div 4096 then swapped ?w else pte_of ?d a s)" for a
    unfolding pte_of_set_pte [OF ptv P] M(3) ..
  have fx: "pt_frames ?d ?x = pt_frames ?d s" using set_pte_tree(3) [OF ptv P] M(4) by simp
  have vf: "?v \<notin> pt_frames ?d s" using S user_framesI [OF va present] by (simp add: space_ok_def)
  note D = data_frame_views [OF mem vf [folded fx]]
  have pr: "pte_of ?d a r = (if unat a div 4096 = unat ?va div 4096 then swapped ?w else pte_of ?d a s)" for a
    unfolding R(3) D(1) px ..
  have fr: "pt_frames ?d r = pt_frames ?d s" unfolding R(4) D(2) fx ..
  have old: "bit (pte_of ?d a s) 0 \<and> uframe ?d a s \<noteq> ?v \<and> uframe ?d a r = uframe ?d a s"
    if "a < KERNBASE" "bit (pte_of ?d a r) 0" for a
  proof -
    have n: "unat a div 4096 \<noteq> unat ?va div 4096" using that(2) swapped_bits(2) [of ?w] unfolding pr by auto
    then have b: "bit (pte_of ?d a s) 0" using that(2) unfolding pr by simp
    moreover have "uframe ?d a s \<noteq> ?v" using sole [OF that(1) b] n by blast
    ultimately show ?thesis using n by (simp add: uframe_def pr)
  qed
  have rr: "refs r w = (if w = ?v then refs s w - 1 else refs s w)" if "freeable ?E w" for w using refs that by (simp add: R(2))
  have sp: "space_ok ?E ?d r"
  proof -
    have "freeable ?E w \<and> 0 < refs r w" if "w \<in> pt_frames ?d r" for w
      using that S vf unfolding fr by (auto simp: space_ok_def pt_ok_def rr)
    moreover have "inj_on (tab ?d r) (present ?d r)" "?d \<notin> tab ?d r ` present ?d r"
      using ptv unfolding R(7,8) D(3,4) set_pte_tree(1,2) [OF ptv P] by (simp_all add: pt_ok_def)
    moreover have "freeable ?E w \<and> 0 < refs r w \<and> w \<notin> pt_frames ?d r" if w: "w \<in> user_frames ?d r" for w
    proof -
      obtain a where a: "w = uframe ?d a r" "a < KERNBASE" "bit (pte_of ?d a r) 0" using w by (auto simp: user_frames_def)
      note o = old [OF a(2,3)]
      have "w \<in> user_frames ?d s" using user_framesI [OF a(2), of ?d s] o a(1) by simp
      then show ?thesis using S o a(1) unfolding fr by (auto simp: space_ok_def rr)
    qed
    ultimately show ?thesis by (simp add: space_ok_def pt_ok_def)
  qed
  have ub: "ubyte ?d a r = ubyte ?d a s" if a: "a < KERNBASE" "bit (pte_of ?d a r) 0" for a
  proof -
    note o = old [OF a]
    have f: "uframe ?d a s \<notin> pt_frames ?d s" using S user_framesI [OF a(1), of ?d s] o by (simp add: space_ok_def)
    then have "uframe ?d a s \<noteq> tab ?d v (PDX ?va)" using P M(7,8) by (auto simp: pt_frames_def)
    then have "pmem ?x (V2P (uframe ?d a s)) = pmem s (V2P (uframe ?d a s))"
      using set_pte_other [of "uframe ?d a s" ?d v ?va "swapped ?w"] v by (simp add: same_mem_def)
    then have "pmem r (V2P (uframe ?d a s)) = pmem s (V2P (uframe ?d a s))" using mem o rt(1) by (simp add: same_mem_def)
    moreover have "PTE_ADDR (pte_of ?d a r) = PTE_ADDR (pte_of ?d a s)" using o by (simp add: uframe_def)
    ultimately show ?thesis by (rule ubyte_cong [rotated])
  qed
  have ur: "same_fs u r" by (rule same_fs_trans [OF fs rt(2)])
  note Fr = same_fs_facts [OF ur]
  have fl: "f < length (ftable s)" using c by (simp add: open_file_def)
  note sd = storedD [OF u fl]
  have dv: "i_dev (ino ip u) = i_dev (ino ip s)" by (rule sd(6))
  have pp: "prc p r = gone_out i k (prc p s)" using p by (simp add: r_def upd_proc_def prc_def lcr3_def pt gone_out_def Let_def)
  have "paged_out ?E p i k f ip s r" unfolding paged_out_def Let_def
  proof (intro conjI allI impI)
    show "length (ptable r) = length (ptable s)" by (simp add: r_def lcr3_def pt)
    show "curp r = Some p" "\<not> global_pgdir_flag r" "cr3 r = V2P ?d" using ct by (simp_all add: r_def upd_proc_def lcr3_def)
    show "idle r" "open_file f ip r" using c sd(3) stored_open [OF u] by (simp_all add: Fr)
    show "layout (i_dev (ino ip r)) r" using sd(8) by (simp add: Fr dv)
    show "fdata ip r = overwrite (4096 * k) (page_bytes ?d ?va s) (fdata ip s)" using sd(7) by (simp add: Fr)
    fix jp assume j: "jp \<noteq> ip \<and> file_ok jp s \<and> i_dev (ino jp s) = i_dev (ino ip s) \<and> file_blocks ip s \<inter> file_blocks jp s = {}"
    then show "file_ok jp r" "fdata jp r = fdata jp s"
      using u same_files_facts(8) [OF Fr(1)] unfolding stored_def by (auto simp: Fr(4))
  qed (use pp pr sp ub rr in auto)
  moreover have "kmem_ok ?E r ys" using ys(1) by (simp add: R(1))
  moreover have "xs \<noteq> [] \<longrightarrow> ys \<noteq> []"
  proof -
    have "0 < refs s ?v" using S user_framesI [OF va present] by (auto simp: space_ok_def)
    then show ?thesis using ys(2,3) by (cases "refs s ?v = 1") auto
  qed
  ultimately show ?thesis using x ys(2) unfolding r_def by blast
qed

end
