(* ===== verification/Swapin.thy ===== *)
theory Swapin
  imports Swapping
begin

text \<open>
  Paging in (\<open>getPageFromFile\<close> of \<open>vm.c\<close>) and the way of a page to the swap file and back.
\<close>

unbundle bit_operations_syntax

section \<open>In\<close>

text \<open>Mapping a page whose table exists takes no memory.\<close>

lemma PGROUNDDOWN_last:
  assumes "PGROUNDDOWN va = va"
  shows "PGROUNDDOWN (va + PGSIZE - 1) = va"
proof -
  have m: "unat va mod 4096 = 0" using unat_PGROUNDDOWN [of va] mod_less_eq_dividend [of "unat va" 4096] unfolding assms by linarith
  obtain q where q: "unat va = 4096 * q" using m by (metis dvd_def mod_0_imp_dvd)
  have "4096 * q < 4096 * 1048576" using unat_u32_bound [of va] q by simp
  then have "q < 1048576" by simp
  then have "unat va + 4095 < 4294967296" using q by linarith
  then have "unat (va + 4095) = unat va + 4095" using unat_add_nowrap [of va 4095] by simp
  moreover have "(unat va + 4095) mod 4096 = 4095" using q by simp
  ultimately have "unat (PGROUNDDOWN (va + 4095)) = unat va" by (simp add: unat_PGROUNDDOWN)
  then show ?thesis by (simp add: word_unat_eq_iff add.commute)
qed

lemma map_in_table:
  assumes "PDX va \<in> present d s" "\<not> bit (pte_of d va s) 0" "PGROUNDDOWN va = va"
  shows "mappages d va PGSIZE pa perm s = Inr (0, set_pte d va (pa OR perm OR PTE_P) s)"
proof -
  have "walkpgdir d va True s = Inr (Some (V2P (tab d s (PDX va)), PTX va), s)" using assms(1) by (simp add: present_PDX walk_found)
  moreover have "load (V2P (tab d s (PDX va)), PTX va) s AND PTE_P = 0" using load_pte [OF assms(1)] assms(2) by (simp add: flag_bits)
  ultimately show ?thesis
    unfolding mappages_def PGROUNDDOWN_last [OF assms(3)] assms(3)
    by (simp add: mappages_from.simps [of d va va] set_pte_def)
qed

text \<open>Page \<open>i\<close> of process \<open>p\<close>, in slot \<open>k\<close> of the swap file, can be brought in; \<open>ls\<close> are the pages in memory.\<close>

definition can_page_in :: "u32 \<Rightarrow> nat \<Rightarrow> nat \<Rightarrow> nat \<Rightarrow> nat \<Rightarrow> nat \<Rightarrow> nat list \<Rightarrow> kernel \<Rightarrow> bool" where
  "can_page_in E p i k f ip ls s \<longleftrightarrow>
     (let d = pgdir (prc p s); va = vaddr p i s in
      curp s = Some p \<and> p < length (ptable s) \<and> \<not> global_pgdir_flag s \<and> space_ok E d s \<and>
      PGROUNDDOWN va = va \<and> \<not> bit (pte_of d va s) 0 \<and> PDX va \<in> present d s \<and>
      i < 32 \<and> ram_list (prc p s) ls \<and> ls \<noteq> [] \<and> i \<notin> set ls \<and>
      offset_in_file (pl_page (lnk p i s)) = PGSIZE * word_of_nat k \<and> k < 17 \<and>
      swapFile (prc p s) = Some f \<and> open_file f ip s \<and> 4096 * k + 4096 \<le> length (fdata ip s))"

definition brought :: "nat \<Rightarrow> nat \<Rightarrow> proc \<Rightarrow> proc" where
  "brought i k q =
    upd_link i (\<lambda>l. l\<lparr>pl_page := (pl_page l)\<lparr>offset_in_file := -1, pstate := IN_MEMORY\<rparr>\<rparr>)
      (q\<lparr>available_Offsets := (available_Offsets q)[k := False], num_pages_ram := num_pages_ram q + 1, num_pages_disk := num_pages_disk q - 1\<rparr>)"

definition in_pte :: "u32 \<Rightarrow> u32" where
  "in_pte x = V2P x OR (PTE_W OR PTE_U) OR PTE_P"

lemma in_pte_facts:
  assumes "freeable E x"
  shows "PTE_ADDR (in_pte x) = V2P x" "bit (in_pte x) 0" "(in_pte x AND NOT PTE_PG) OR PTE_P = in_pte x" "\<not> bit (in_pte x) 9"
proof -
  have e: "in_pte x = V2P x OR 7" by (simp add: in_pte_def or.assoc)
  have f: "flags_only 7" by (simp add: flags_only_def)
  note g = frame_entry [OF assms f, folded e]
  show "PTE_ADDR (in_pte x) = V2P x" by (rule g)
  have low: "bit (in_pte x) 0" "\<not> bit (in_pte x) 9" using g(2) [of 0] g(2) [of 9] by simp_all
  then show "bit (in_pte x) 0" "\<not> bit (in_pte x) 9" by simp_all
  show "(in_pte x AND NOT PTE_PG) OR PTE_P = in_pte x"
    by (rule bit_word_eqI) (use low in \<open>auto simp: flag_bits bit_or_iff bit_and_iff bit_NOT_u32\<close>)
qed

text \<open>The memory after paging in: the frame \<open>x\<close> from the free list, with the slot's bytes, mapped at the page.\<close>

definition in_mem :: "u32 \<Rightarrow> u32 \<Rightarrow> u32 \<Rightarrow> u8 list \<Rightarrow> kernel \<Rightarrow> kernel" where
  "in_mem d va x bs s = set_pte d va (in_pte x) (filled x (put_bytes 0 bs (pmem s (V2P x))) s)"

lemma in_mem_facts:
  assumes k: "kmem_ok E s (x # xs)" and S: "pt_ok E d s" and P: "PDX va \<in> present d s"
  shows "pt_ok E d (in_mem d va x bs s)" "pt_frames d (in_mem d va x bs s) = pt_frames d s" "kmem_ok E (in_mem d va x bs s) xs"
    "pte_of d a (in_mem d va x bs s) = (if unat a div 4096 = unat va div 4096 then in_pte x else pte_of d a s)"
    "freeable E w \<Longrightarrow> refs (in_mem d va x bs s) w = (if w = x then 1 else refs s w)"
    "pmem (in_mem d va x bs s) (V2P x) = put_bytes 0 bs (pmem s (V2P x))"
    "w \<notin> pt_frames d s \<Longrightarrow> w \<noteq> x \<Longrightarrow> pmem (in_mem d va x bs s) (V2P w) = pmem s (V2P w)"
    "same_fs s (in_mem d va x bs s)" "prc p (in_mem d va x bs s) = prc p s" "ptable (in_mem d va x bs s) = ptable s"
    "curp (in_mem d va x bs s) = curp s" "global_pgdir_flag (in_mem d va x bs s) = global_pgdir_flag s" "x \<notin> pt_frames d s"
    "freeable E x" "refs s x = 0"
proof -
  let ?pg = "put_bytes 0 bs (pmem s (V2P x))"
  define m where "m = filled x ?pg s"
  note F = filled_evolves(1,2,3,5,6) [OF k S, where pg = ?pg, folded m_def] and K = filled_kmem [OF k, where pg = ?pg, folded m_def]
  have Pm: "PDX va \<in> present d m" using P F(5) by simp
  have e: "in_mem d va x bs s = set_pte d va (in_pte x) m" by (simp add: in_mem_def m_def)
  show "pt_ok E d (in_mem d va x bs s)" "kmem_ok E (in_mem d va x bs s) xs" "pt_frames d (in_mem d va x bs s) = pt_frames d s"
    unfolding e by (rule set_pte_ok [OF F(1) Pm], rule set_pte_kmem [OF K(1) F(1) Pm], simp add: set_pte_tree [OF F(1) Pm] F(3))
  show "pte_of d a (in_mem d va x bs s) = (if unat a div 4096 = unat va div 4096 then in_pte x else pte_of d a s)"
    unfolding e pte_of_set_pte [OF F(1) Pm] F(2) ..
  show fx: "freeable E x" "refs s x = 0" using kmem_okD(5,6) [OF k] by auto
  show xf: "x \<notin> pt_frames d s" using filled_evolves(4) [OF k S] by blast
  show "refs (in_mem d va x bs s) w = (if w = x then 1 else refs s w)" if "freeable E w"
    using K(2,3) that unfolding e by (auto simp: set_pte_def)
  have t: "tab d m (PDX va) \<in> pt_frames d s" using Pm F(4,5) by (auto simp: pt_frames_def)
  have o: "pmem (in_mem d va x bs s) (V2P w) = pmem m (V2P w)" if "w \<notin> pt_frames d s" for w
    unfolding e by (rule set_pte_other) (use t that in auto)
  show "pmem (in_mem d va x bs s) (V2P x) = ?pg" using o [OF xf] by (simp add: m_def filled_def)
  show "pmem (in_mem d va x bs s) (V2P w) = pmem s (V2P w)" if "w \<notin> pt_frames d s" "w \<noteq> x"
    using o [OF that(1)] that(2) by (simp add: m_def filled_def)
  show "same_fs s (in_mem d va x bs s)" "prc p (in_mem d va x bs s) = prc p s" "ptable (in_mem d va x bs s) = ptable s"
    "curp (in_mem d va x bs s) = curp s" "global_pgdir_flag (in_mem d va x bs s) = global_pgdir_flag s"
    unfolding e by (simp_all add: same_fs_def prc_def set_pte_def store_def m_def filled_def took_def)
qed

lemma swap_file_step:
  assumes k: "kmem_ok E s (x # xs)" and S: "pt_ok E d s" and P: "PDX va \<in> present d s"
  shows "(upd_file f g (set_pte d va w (took x s)))\<lparr>pmem := (pmem (upd_file f g (set_pte d va w (took x s))))(V2P x :=
      put_bytes 0 bs (pmem (upd_file f g (set_pte d va w (took x s))) (V2P x)))\<rparr> =
    upd_file f g (set_pte d va w (filled x (put_bytes 0 bs (pmem s (V2P x))) s))"
proof -
  have xf: "x \<notin> pt_frames d s" using filled_evolves(4) [OF k S] by blast
  have "tab d s (PDX va) \<in> pt_frames d s" using P by (simp add: pt_frames_def)
  then have n: "V2P (tab d s (PDX va)) \<noteq> V2P x" using xf by auto
  have t: "tab d (took x s) = tab d s" by (simp add: tab_def pde_of_def took_def fun_eq_iff)
  have u: "tab d (filled x (put_bytes 0 bs (pmem s (V2P x))) s) = tab d s" by (rule filled_evolves(5) [OF k S])
  show ?thesis unfolding set_pte_def t u
    by (intro kernel.equality) (use n in \<open>simp_all add: upd_file_def store_def took_def filled_def fun_upd_twist\<close>)
qed

lemma store_load: "store r (load r s) s = (s :: kernel)"
  by (intro kernel.equality) (simp_all add: load_def store_def)

lemma brought_ram:
  assumes "ram_list q ls" "i \<notin> set ls"
  shows "ram_list (brought i k q) ls"
  using assms dll_upd [OF assms(2)] by (simp add: ram_list_def brought_def upd_link_def)

lemma getPageFromFile_steps:
  assumes can: "can_page_in E p i k f ip ls s" and km: "kmem_ok E s (x # xs)"
  defines "d \<equiv> pgdir (prc p s)" and "va \<equiv> vaddr p i s"
  shows "\<exists>q. getPageFromFile C p i s = Inr (0, upd_proc p (\<lambda>_. q) (upd_file f (\<lambda>y. y\<lparr>f_off := PGSIZE * word_of_nat k + PGSIZE\<rparr>) (in_mem d va x (swap_page ip k s) s))) \<and>
    ram_list q (ls @ [i]) \<and> links_only (brought i k (prc p s)) q"
proof -
  note c = can [unfolded can_page_in_def Let_def, folded d_def va_def]
  have cp: "curp s = Some p" "p < length (ptable s)" "\<not> global_pgdir_flag s" using c by simp_all
  have S: "space_ok E d s" using c by (elim conjE)
  have pt: "pt_ok E d s" using S by (simp add: space_ok_def)
  have va: "PGROUNDDOWN va = va" using c by (elim conjE)
  have np: "\<not> bit (pte_of d va s) 0" using c by (elim conjE)
  have P: "PDX va \<in> present d s" using c by (elim conjE)
  have r: "ram_list (prc p s) ls" using c by (elim conjE)
  have i: "i < 32" "ls \<noteq> []" "i \<notin> set ls" using c by simp_all
  have off: "offset_in_file (pl_page (lnk p i s)) = PGSIZE * word_of_nat k" using c by (elim conjE)
  have k: "k < 17" "4096 * k + 4096 \<le> length (fdata ip s)" using c by simp_all
  have f: "swapFile (prc p s) = Some f" using c by (elim conjE)
  have o: "open_file f ip s" using c by (elim conjE)
  let ?g = "\<lambda>y. y\<lparr>f_off := PGSIZE * word_of_nat k + PGSIZE\<rparr>" and ?bs = "swap_page ip k s"
  define s1 where "s1 = took x s"
  define s2 where "s2 = set_pte d va (in_pte x) s1"
  define m where "m = in_mem d va x ?bs s"
  note F = in_mem_facts(1-12) [OF km pt P, where bs = ?bs, folded m_def] and X = in_mem_facts(13-15) [OF km pt P]
  note G = in_pte_facts [OF X(2)]
  have x: "x \<noteq> 0" by (rule freeable_nonzero [OF X(2)])
  have v1: "pte_of d va s1 = pte_of d va s" "present d s1 = present d s" "vaddr p i s1 = va" "lnk p j s1 = lnk p j s" for j
    by (simp_all add: s1_def took_def pte_of_def pde_of_def present_def vaddr_def lnk_def prc_def va_def)
  have mp: "mappages d va PGSIZE (V2P x) (PTE_W OR PTE_U) s1 = Inr (0, s2)"
    unfolding s2_def in_pte_def by (rule map_in_table) (use P np va v1 in simp_all)
  have fs: "same_fs s s2" unfolding s2_def s1_def by (rule same_fs_trans [OF same_fs_intros(9,5)])
  have p2: "prc p s2 = prc p s" by (simp add: s2_def s1_def set_pte_def store_def took_def prc_def)
  then have l2: "lnk p i s2 = lnk p i s" by (simp add: lnk_def)
  have rd: "readFromSwapFile C p (PGSIZE * word_of_nat k) 4096 s2 = Inr ((4096, ?bs), upd_file f ?g s2)"
    using readFromSwapFile_ok [of p s2 f ip k C] f o k unfolding p2 same_fs_facts [OF fs] by simp
  define s4 where "s4 = upd_file f ?g m"
  have s4: "(upd_file f ?g s2)\<lparr>pmem := (pmem (upd_file f ?g s2))(V2P x := put_bytes 0 ?bs (pmem (upd_file f ?g s2) (V2P x)))\<rparr> = s4"
    unfolding s4_def m_def in_mem_def s2_def s1_def by (rule swap_file_step [OF km pt P])
  have p4: "ptable s4 = ptable s" using F(10) by (simp add: s4_def upd_file_def)
  then have q4: "prc j s4 = prc j s" "vaddr j n s4 = vaddr j n s" "lnk j n s4 = lnk j n s" for j n by (simp_all add: prc_def vaddr_def lnk_def)
  have w4: "pte_of d va s4 = in_pte x" using F(4) [of va] view_cong(1) [of s4 m] by (simp add: s4_def upd_file_def)
  have sf: "setFlagsOnSwap d va True s4 = Inr ((), s4)"
  proof -
    let ?r = "(V2P (tab d s4 (PDX va)), PTX va)"
    have b: "bit (pte_of d va s4) 0" using w4 G(2) by simp
    have l: "load ?r s4 = in_pte x" using load_pte [OF pte_present [OF b]] w4 by simp
    then have "store ?r (in_pte x) s4 = s4" using store_load [of ?r s4] by simp
    then show ?thesis using walk_page [OF b] l G(3) by (simp add: setFlagsOnSwap_def Let_def)
  qed
  have slot: "unat (PGSIZE * word_of_nat k div PGSIZE :: u32) = k" using place_nat [OF k(1)] by (simp add: unat_div)
  obtain q where q: "addPageToList i (brought i k (prc p s)) = Inr q" "ram_list q (ls @ [i])" "links_only (brought i k (prc p s)) q"
    using addPageToList_ok [OF brought_ram [OF r i(3)] i(2) _ i(3)] i(1) by auto
  have "getPageFromFile C p i s = Inr (0, upd_proc p (\<lambda>_. q) s4)"
    using cp x kalloc_Cons [OF km] mp rd s4 sf slot k(1) off q(1)
    by (simp add: getPageFromFile_def cur_pgdir_def myproc_def d_def [symmetric] va_def [symmetric] s1_def [symmetric] v1 upd_page_def upd_proc_twice p4 q4 l2 Let_def brought_def)
  then show ?thesis using q(2,3) unfolding s4_def m_def by blast
qed

text \<open>What paging in does.\<close>

definition paged_in :: "u32 \<Rightarrow> nat \<Rightarrow> nat \<Rightarrow> nat \<Rightarrow> nat \<Rightarrow> nat list \<Rightarrow> kernel \<Rightarrow> kernel \<Rightarrow> bool" where
  "paged_in E p i k ip ls s t \<longleftrightarrow>
     (let d = pgdir (prc p s); va = vaddr p i s in
      ram_list (prc p t) (ls @ [i]) \<and> links_only (brought i k (prc p s)) (prc p t) \<and>
      (\<forall>a. unat a div 4096 = unat va div 4096 \<longrightarrow> bit (pte_of d a t) 0 \<and> ubyte d a t = swap_page ip k s ! (unat a mod 4096)) \<and>
      (\<forall>a. unat a div 4096 \<noteq> unat va div 4096 \<longrightarrow> pte_of d a t = pte_of d a s) \<and>
      (\<forall>a. a < KERNBASE \<and> bit (pte_of d a s) 0 \<longrightarrow> ubyte d a t = ubyte d a s) \<and>
      space_ok E d t \<and> same_files s t)"

lemma getPageFromFile_ok:
  assumes can: "can_page_in E p i k f ip ls s" and km: "kmem_ok E s (x # xs)"
  shows "\<exists>t. getPageFromFile C p i s = Inr (0, t) \<and> paged_in E p i k ip ls s t \<and> kmem_ok E t xs"
proof -
  let ?d = "pgdir (prc p s)" and ?va = "vaddr p i s" and ?bs = "swap_page ip k s"
  note c = can [unfolded can_page_in_def Let_def]
  define m where "m = in_mem ?d ?va x ?bs s"
  obtain q g where q: "getPageFromFile C p i s = Inr (0, upd_proc p (\<lambda>_. q) (upd_file f (\<lambda>y. y\<lparr>f_off := g\<rparr>) m))"
      "ram_list q (ls @ [i])" "links_only (brought i k (prc p s)) q"
    using getPageFromFile_steps [OF can km, of C] unfolding m_def by blast
  define t where "t = upd_proc p (\<lambda>_. q) (upd_file f (\<lambda>y. y\<lparr>f_off := g\<rparr>) m)"
  have S: "space_ok E ?d s" and P: "PDX ?va \<in> present ?d s" and np: "\<not> bit (pte_of ?d ?va s) 0" and p: "p < length (ptable s)"
    and k: "4096 * k + 4096 \<le> length (fdata ip s)" using c by simp_all
  have pt: "pt_ok E ?d s" using S by (simp add: space_ok_def)
  note F = in_mem_facts(1-12) [OF km pt P, where bs = ?bs, folded m_def] and X = in_mem_facts(13-15) [OF km pt P]
  note G = in_pte_facts [OF X(2)]
  have sm: "same_mem m t" unfolding t_def by (rule same_mem_trans [OF same_mem_intros(2,1)])
  note M = same_mem_facts [OF sm]
  have pp: "prc p t = q" using p F(10) by (simp add: t_def upd_proc_def upd_file_def prc_def)
  have pte: "pte_of ?d a t = (if unat a div 4096 = unat ?va div 4096 then in_pte x else pte_of ?d a s)" for a unfolding M(3) F(4) ..
  have page: "ubyte ?d a t = ?bs ! (unat a mod 4096)" if "unat a div 4096 = unat ?va div 4096" for a
  proof -
    have "length ?bs = 4096" using k by (simp add: swap_page_def)
    moreover have "ubyte ?d a t = get_byte (pmem m (V2P x)) (unat a mod 4096)"
      using sm that by (simp add: ubyte_def pte G(1) same_mem_def)
    ultimately show ?thesis unfolding F(6) get_put_bytes by simp
  qed
  have keep: "ubyte ?d a t = ubyte ?d a s \<and> uframe ?d a t = uframe ?d a s \<and> uframe ?d a s \<noteq> x \<and> unat a div 4096 \<noteq> unat ?va div 4096"
    if a: "a < KERNBASE" "bit (pte_of ?d a s) 0" for a
  proof -
    have n: "unat a div 4096 \<noteq> unat ?va div 4096" using np a(2) pte_of_same_page [of a ?va ?d s] by auto
    have u: "freeable E (uframe ?d a s)" "0 < refs s (uframe ?d a s)" "uframe ?d a s \<notin> pt_frames ?d s"
      using S user_framesI [OF a] by (simp_all add: space_ok_def)
    then have x: "uframe ?d a s \<noteq> x" using X(3) by auto
    have "pmem t (V2P (uframe ?d a s)) = pmem s (V2P (uframe ?d a s))" using F(7) [OF u(3) x] sm by (simp add: same_mem_def)
    moreover have "pte_of ?d a t = pte_of ?d a s" using n by (simp add: pte)
    ultimately show ?thesis using n x ubyte_cong [of ?d a t s] by (simp add: uframe_def)
  qed
  have sp: "space_ok E ?d t"
  proof -
    have "freeable E w \<and> 0 < refs m w \<and> w \<notin> pt_frames ?d m" if w: "w \<in> user_frames ?d t" for w
    proof -
      obtain a where a: "w = uframe ?d a t" "a < KERNBASE" "bit (pte_of ?d a t) 0" using w by (auto simp: user_frames_def)
      show ?thesis
      proof (cases "unat a div 4096 = unat ?va div 4096")
        case True
        then have "w = x" using a(1) G(1) by (simp add: uframe_def pte)
        then show ?thesis using X F(5) [OF X(2)] F(2) by simp
      next
        case False
        then have b: "bit (pte_of ?d a s) 0" using a(3) by (simp add: pte)
        then have "w = uframe ?d a s" "w \<noteq> x" using keep [OF a(2) b] a(1) by simp_all
        then show ?thesis using S user_framesI [OF a(2) b] F(5) [of w] F(2) by (simp add: space_ok_def)
      qed
    qed
    then show ?thesis using F(1) unfolding space_ok_def M(2,4,9) by simp
  qed
  have "same_files s t"
    using same_fs_facts(1) [OF F(8)] by (simp add: t_def same_files_def upd_proc_def upd_file_def ino_def)
  then have "paged_in E p i k ip ls s t" unfolding paged_in_def Let_def
    using q(2,3) page keep sp G(2) by (simp add: pp pte)
  then show ?thesis using q(1) F(3) M(1) unfolding t_def by blast
qed

section \<open>Out and in\<close>

lemma gone_out_ram: "ram_list q (as @ i # bs) \<Longrightarrow> ram_list (gone_out i k q) (as @ bs)"
proof -
  have n: "ram_list (noted_out i k q) xs = ram_list q xs" for xs
  proof -
    have d: "ram_list (q\<lparr>available_Offsets := z\<rparr>) xs = ram_list q xs" "ram_list (q\<lparr>num_pages_disk := n\<rparr>) xs = ram_list q xs" for q z n
      by (simp_all add: ram_list_def)
    show ?thesis unfolding noted_out_def Let_def d by (simp add: ram_list_data d)
  qed
  assume "ram_list q (as @ i # bs)"
  then have "ram_list (noted_out i k q) (as @ i # bs)" by (simp only: n)
  then have "ram_list ((noted_out i k q)\<lparr>num_of_page_outs := num_of_page_outs (noted_out i k q) + 1\<rparr>) (as @ i # bs)"
    by (simp add: ram_list_def)
  from removePageFromList_ok [OF this] show ?thesis by (simp add: gone_out_def Let_def ram_list_def)
qed

lemma paged_outD:
  assumes "paged_out E p i k f ip s t"
  shows "pte_of (pgdir (prc p s)) a t =
      (if unat a div 4096 = unat (vaddr p i s) div 4096 then swapped (pte_of (pgdir (prc p s)) (vaddr p i s) s) else pte_of (pgdir (prc p s)) a s)"
    "freeable E w \<Longrightarrow> refs t w = (if w = uframe (pgdir (prc p s)) (vaddr p i s) s then refs s w - 1 else refs s w)"
    "a < KERNBASE \<Longrightarrow> bit (pte_of (pgdir (prc p s)) a t) 0 \<Longrightarrow> ubyte (pgdir (prc p s)) a t = ubyte (pgdir (prc p s)) a s"
    "jp \<noteq> ip \<and> file_ok jp s \<and> i_dev (ino jp s) = i_dev (ino ip s) \<and> file_blocks ip s \<inter> file_blocks jp s = {} \<Longrightarrow>
      file_ok jp t \<and> fdata jp t = fdata jp s"
    "curp t = Some p"
proof -
  let ?d = "pgdir (prc p s)" and ?va = "vaddr p i s"
  note o = assms [unfolded paged_out_def Let_def]
  have pte: "\<forall>a. pte_of ?d a t = (if unat a div 4096 = unat ?va div 4096 then swapped (pte_of ?d ?va s) else pte_of ?d a s)" using o by (elim conjE)
  have rf: "\<forall>w. freeable E w \<longrightarrow> refs t w = (if w = uframe ?d ?va s then refs s w - 1 else refs s w)" using o by (elim conjE)
  have ob: "\<forall>a. a < KERNBASE \<and> bit (pte_of ?d a t) 0 \<longrightarrow> ubyte ?d a t = ubyte ?d a s" using o by (elim conjE)
  have fl: "\<forall>jp. jp \<noteq> ip \<and> file_ok jp s \<and> i_dev (ino jp s) = i_dev (ino ip s) \<and> file_blocks ip s \<inter> file_blocks jp s = {} \<longrightarrow>
         file_ok jp t \<and> fdata jp t = fdata jp s" using o by (elim conjE)
  show "pte_of ?d a t = (if unat a div 4096 = unat ?va div 4096 then swapped (pte_of ?d ?va s) else pte_of ?d a s)" by (rule pte [rule_format])
  show "freeable E w \<Longrightarrow> refs t w = (if w = uframe ?d ?va s then refs s w - 1 else refs s w)" by (rule rf [rule_format])
  show "a < KERNBASE \<Longrightarrow> bit (pte_of ?d a t) 0 \<Longrightarrow> ubyte ?d a t = ubyte ?d a s" by (rule ob [rule_format, OF conjI])
  show "jp \<noteq> ip \<and> file_ok jp s \<and> i_dev (ino jp s) = i_dev (ino ip s) \<and> file_blocks ip s \<inter> file_blocks jp s = {} \<Longrightarrow>
      file_ok jp t \<and> fdata jp t = fdata jp s" by (rule fl [rule_format])
  show "curp t = Some p" using o by (elim conjE)
qed

lemma paged_inD:
  assumes "paged_in E p i k ip ls s t"
  shows "ram_list (prc p t) (ls @ [i])"
    "unat a div 4096 = unat (vaddr p i s) div 4096 \<Longrightarrow>
       bit (pte_of (pgdir (prc p s)) a t) 0 \<and> ubyte (pgdir (prc p s)) a t = swap_page ip k s ! (unat a mod 4096)"
    "unat a div 4096 \<noteq> unat (vaddr p i s) div 4096 \<Longrightarrow> pte_of (pgdir (prc p s)) a t = pte_of (pgdir (prc p s)) a s"
    "a < KERNBASE \<Longrightarrow> bit (pte_of (pgdir (prc p s)) a s) 0 \<Longrightarrow> ubyte (pgdir (prc p s)) a t = ubyte (pgdir (prc p s)) a s"
    "space_ok E (pgdir (prc p s)) t" "same_files s t"
  using assms unfolding paged_in_def Let_def by simp_all

lemma paged_out_can_page_in:
  assumes can: "can_page_out E p i k f ip s" and out: "paged_out E p i k f ip s t" and r: "ram_list (prc p s) (as @ i # bs)" "as @ bs \<noteq> []"
  shows "can_page_in E p i k f ip (as @ bs) t" "pgdir (prc p t) = pgdir (prc p s)" "vaddr p i t = vaddr p i s"
    "swap_page ip k t = page_bytes (pgdir (prc p s)) (vaddr p i s) s" "ram_list (prc p t) (as @ bs)"
    "j \<noteq> k \<Longrightarrow> 4096 * j + 4096 \<le> length (fdata ip s) \<Longrightarrow> swap_page ip j t = swap_page ip j s"
proof -
  let ?d = "pgdir (prc p s)" and ?va = "vaddr p i s"
  note c = can [unfolded can_page_out_def Let_def] and o = out [unfolded paged_out_def Let_def]
  have i: "i < length (pages_meta_data (prc p s))" using c by (elim conjE)
  have va: "PGROUNDDOWN ?va = ?va" using c by (elim conjE)
  have k: "k < 17" using c by (elim conjE)
  have sz: "4096 * k \<le> length (fdata ip s)" using c by (elim conjE)
  have sw: "swapFile (prc p s) = Some f" using c by (elim conjE)
  have p: "p < length (ptable s)" using c by (elim conjE)
  note g = gone_out_facts [OF i]
  have pp: "prc p t = gone_out i k (prc p s)" using o by (elim conjE)
  have lt: "length (ptable t) = length (ptable s)" using o by (elim conjE)
  have cp: "curp t = Some p" using o by (elim conjE)
  have gf: "\<not> global_pgdir_flag t" using o by (elim conjE)
  have "\<forall>a. pte_of ?d a t = (if unat a div 4096 = unat ?va div 4096 then swapped (pte_of ?d ?va s) else pte_of ?d a s)" using o by (elim conjE)
  then have w: "pte_of ?d ?va t = swapped (pte_of ?d ?va s)" by simp
  have sp: "space_ok E ?d t" using o by (elim conjE)
  have fo: "open_file f ip t" using o by (elim conjE)
  have fd: "fdata ip t = overwrite (4096 * k) (page_bytes ?d ?va s) (fdata ip s)" using o by (elim conjE)
  have pb: "length (page_bytes ?d ?va s) = 4096" by (simp add: page_bytes_def)
  show d: "pgdir (prc p t) = ?d" and v: "vaddr p i t = ?va" using g by (simp_all add: pp vaddr_def lnk_def)
  show "swap_page ip k t = page_bytes ?d ?va s" unfolding swap_page_def fd by (rule overwrite_page(1) [OF pb sz])
  show "swap_page ip j t = swap_page ip j s" if "j \<noteq> k" "4096 * j + 4096 \<le> length (fdata ip s)"
    unfolding swap_page_def fd by (rule overwrite_page(2) [OF pb sz that])
  show rl: "ram_list (prc p t) (as @ bs)" unfolding pp by (rule gone_out_ram [OF r(1)])
  have "PDX ?va \<in> present ?d t"
  proof (rule ccontr)
    assume "PDX ?va \<notin> present ?d t"
    then have "pte_of ?d ?va t = 0" by (simp add: pte_of_def present_PDX)
    then show False using swapped_bits(3) [of "pte_of ?d ?va s"] by (simp add: w [symmetric])
  qed
  moreover have "\<not> bit (pte_of ?d ?va t) 0" unfolding w by (rule swapped_bits(2))
  moreover have "4096 * k + 4096 \<le> length (fdata ip t)" using overwrite_nth(1) [OF sz, of "page_bytes ?d ?va s"] pb by (simp add: fd)
  moreover have "offset_in_file (pl_page (lnk p i t)) = PGSIZE * word_of_nat k" using g(1) [of i k] by (simp add: lnk_def pp)
  moreover have "i < 32" "i \<notin> set (as @ bs)" using r(1) i by (auto simp: ram_list_def)
  ultimately show "can_page_in E p i k f ip (as @ bs) t"
    unfolding can_page_in_def Let_def d v using cp p lt gf sp va rl r(2) k sw g(3) fo by (simp add: pp)
qed

text \<open>
  Property C4. A page survives the way to the swap file and back. Take a process in whose address space no other page shares the frame
  of page \<open>i\<close>, with a free slot \<open>k\<close> in its swap file and room on the disk. Then \<open>moveToDisk\<close> returns: the page is no longer present and
  is marked as paged out, its frame has one user less, slot \<open>k\<close> holds the bytes of the page, every other slot keeps its page, and the
  page is off the list of pages in memory. If a frame is then free, \<open>getPageFromFile\<close> brings the page
  back: every byte of the address space that was present at first is present again with the same value, the page is the last of the list, the
  invariants of the allocator and of the address space hold, and every other file with blocks of its own keeps its contents.
\<close>

theorem swap_roundtrip:
  assumes "can_page_out (conf_end C) p i k f ip s" "kmem_ok (conf_end C) s xs"
    and "ram_list (prc p s) (as @ i # bs)" "as @ bs \<noteq> []"
    and "xs \<noteq> [] \<or> refs s (uframe (pgdir (prc p s)) (vaddr p i s) s) = 1"
  shows "\<exists>t u. moveToDisk C (Some i) s = Inr (0, t) \<and>
    \<not> bit (pte_of (pgdir (prc p s)) (vaddr p i s) t) 0 \<and> bit (pte_of (pgdir (prc p s)) (vaddr p i s) t) 9 \<and>
    refs t (uframe (pgdir (prc p s)) (vaddr p i s) s) = refs s (uframe (pgdir (prc p s)) (vaddr p i s) s) - 1 \<and>
    swap_page ip k t = page_bytes (pgdir (prc p s)) (vaddr p i s) s \<and>
    (\<forall>j. j \<noteq> k \<and> 4096 * j + 4096 \<le> length (fdata ip s) \<longrightarrow> swap_page ip j t = swap_page ip j s) \<and>
    ram_list (prc p t) (as @ bs) \<and>
    getPageFromFile C p i t = Inr (0, u) \<and> ram_list (prc p u) (as @ bs @ [i]) \<and>
    (\<forall>a. a < KERNBASE \<and> bit (pte_of (pgdir (prc p s)) a s) 0 \<longrightarrow>
       bit (pte_of (pgdir (prc p s)) a u) 0 \<and> ubyte (pgdir (prc p s)) a u = ubyte (pgdir (prc p s)) a s) \<and>
    kmem_inv (conf_end C) u \<and> space_ok (conf_end C) (pgdir (prc p s)) u \<and>
    (\<forall>jp. jp \<noteq> ip \<and> file_ok jp s \<and> i_dev (ino jp s) = i_dev (ino ip s) \<and> file_blocks ip s \<inter> file_blocks jp s = {} \<longrightarrow>
       file_ok jp u \<and> fdata jp u = fdata jp s)"
proof -
  let ?E = "conf_end C" and ?d = "pgdir (prc p s)" and ?va = "vaddr p i s"
  let ?v = "uframe ?d ?va s"
  note c = assms(1) [unfolded can_page_out_def Let_def]
  have S: "space_ok ?E ?d s" using c by (elim conjE)
  have va: "?va < KERNBASE" using c by (elim conjE)
  have w: "bit (pte_of ?d ?va s) 0" using c by (elim conjE)
  have fv: "freeable ?E ?v" using S user_framesI [OF va w] by (simp add: space_ok_def)
  obtain t ys where t: "moveToDisk C (Some i) s = Inr (0, t)" "paged_out ?E p i k f ip s t" "kmem_ok ?E t ys" "ys \<noteq> []"
    using moveToDisk_ok [OF assms(1,2)] assms(5) by blast
  then obtain y zs where y: "kmem_ok ?E t (y # zs)" by (cases ys) auto
  note I = paged_out_can_page_in [OF assms(1) t(2) assms(3,4)]
  obtain u where u: "getPageFromFile C p i t = Inr (0, u)" "paged_in ?E p i k ip (as @ bs) t u" "kmem_ok ?E u zs"
    using getPageFromFile_ok [OF I(1) y] by blast
  note o = paged_outD [OF t(2)] and n = paged_inD [OF u(2), unfolded I(2,3)]
  have bk: "bit (pte_of ?d a u) 0 \<and> ubyte ?d a u = ubyte ?d a s" if a: "a < KERNBASE" "bit (pte_of ?d a s) 0" for a
  proof (cases "unat a div 4096 = unat ?va div 4096")
    case True
    then have "ubyte ?d a u = page_bytes ?d ?va s ! (unat a mod 4096)" using n(2) I(4) by simp
    also have "\<dots> = ubyte ?d a s" using pte_of_same_page [OF True, of ?d s] by (simp add: page_bytes_def ubyte_def)
    finally show ?thesis using n(2) True by simp
  next
    case False
    then have e: "pte_of ?d a t = pte_of ?d a s" "pte_of ?d a u = pte_of ?d a t" using o(1) n(3) by simp_all
    then show ?thesis using a n(4) [of a] o(3) [of a] by simp
  qed
  have files: "file_ok jp u \<and> fdata jp u = fdata jp s"
    if "jp \<noteq> ip \<and> file_ok jp s \<and> i_dev (ino jp s) = i_dev (ino ip s) \<and> file_blocks ip s \<inter> file_blocks jp s = {}" for jp
    using o(4) [OF that] unfolding same_files_facts [OF n(6)] .
  have out: "\<not> bit (pte_of ?d ?va t) 0" "bit (pte_of ?d ?va t) 9" using o(1) swapped_bits(2,3) by simp_all
  have r: "refs t ?v = refs s ?v - 1" using o(2) [OF fv] by simp
  have inv: "kmem_inv ?E u" using u(3) by (auto simp: kmem_inv_def)
  have all: "\<forall>j. j \<noteq> k \<and> 4096 * j + 4096 \<le> length (fdata ip s) \<longrightarrow> swap_page ip j t = swap_page ip j s"
    "\<forall>a. a < KERNBASE \<and> bit (pte_of ?d a s) 0 \<longrightarrow> bit (pte_of ?d a u) 0 \<and> ubyte ?d a u = ubyte ?d a s"
    "\<forall>jp. jp \<noteq> ip \<and> file_ok jp s \<and> i_dev (ino jp s) = i_dev (ino ip s) \<and> file_blocks ip s \<inter> file_blocks jp s = {} \<longrightarrow>
       file_ok jp u \<and> fdata jp u = fdata jp s" using I(6) bk files by blast+
  show ?thesis using t(1) u(1) out r I(4,5) n(1) [unfolded append_assoc] all inv n(5)
    by (intro exI [of _ t] exI [of _ u] conjI) assumption+
qed

definition demo_swap :: kernel where
  "demo_swap = (demo_space 1 0xDFF2007)\<lparr>ptable := [demo_proc\<lparr>pgdir := 0x8DFF0000, swapFile := Some 0\<rparr>], curp := Some 0,
     blocks := \<lambda>_. (\<lambda>_. 0)(0 := -1),
     sb := \<lparr>sb_size = 40, nblocks = 32, ninodes = 8, nlog = 30, logstart = 4, inodestart = 2, bmapstart = 3\<rparr>,
     icache := [(demo_inode 1)\<lparr>i_lock := False\<rparr>],
     ftable := [\<lparr>f_type = FD_INODE, f_ref = 1, f_readable = True, f_writable = True, f_pipe = 0, f_ip = Some 0, f_off = 0\<rparr>]\<rparr>"

lemma demo_swap_fields:
  "prc 0 demo_swap = demo_proc\<lparr>pgdir := 0x8DFF0000, swapFile := Some 0\<rparr>" "length (ptable demo_swap) = 1" "curp demo_swap = Some 0"
  "ino 0 demo_swap = (demo_inode 1)\<lparr>i_lock := False\<rparr>" "length (icache demo_swap) = 1" "length (ftable demo_swap) = 1"
  "sb demo_swap = \<lparr>sb_size = 40, nblocks = 32, ninodes = 8, nlog = 30, logstart = 4, inodestart = 2, bmapstart = 3\<rparr>"
  "blocks demo_swap = (\<lambda>_. (\<lambda>_. 0)(0 := -1))" "cr3 demo_swap = V2P 0x8DFF0000" "\<not> global_pgdir_flag demo_swap" "idle demo_swap"
  by (simp_all add: demo_swap_def prc_def ino_def idle_def demo_space_def filled_def took_def V2P_def demo_kernel_def)

lemma demo_swap_in_use:
  assumes "b < 40"
  shows "in_use 1 demo_swap b \<longleftrightarrow> unat b < 8"
proof -
  have "unat b < 40" using assms by (simp add: word_less_nat_alt)
  then show ?thesis
    by (simp add: in_use_def demo_swap_fields bit_at_iff unat_mod bit_minus_1_iff possible_bit_word div_eq_0_iff)
qed

lemma demo_swap_layout: "layout 1 demo_swap" "24 \<le> card (free_blocks 1 demo_swap)"
proof -
  have "b div 4096 = 0" if "b < 40" for b :: u32
    using that by (simp add: word_less_nat_alt word_unat_eq_iff unat_div)
  then have bb: "bitmap_blocks demo_swap = {3}" unfolding bitmap_blocks_def BBLOCK_def
    by (auto simp: demo_swap_fields intro!: exI [of _ 0])
  have "i div 8 = 0" if "i < 8" for i :: u32 using that by (simp add: word_less_nat_alt word_unat_eq_iff unat_div)
  then have ib: "inode_blocks demo_swap = {2}" unfolding inode_blocks_def IBLOCK_def
    by (auto simp: demo_swap_fields intro!: exI [of _ 0])
  show "layout 1 demo_swap" using demo_swap_in_use [of 0] demo_swap_in_use [of 2] demo_swap_in_use [of 3]
    by (simp add: layout_def meta_blocks_def bb ib free_blocks_def demo_swap_fields)
  have u: "unat (word_of_nat n :: u32) = n" if "n < 40" for n using that by (simp add: unat_of_nat)
  have "word_of_nat ` {8..<40} \<subseteq> free_blocks 1 demo_swap"
    using u demo_swap_in_use by (auto simp: free_blocks_def demo_swap_fields word_less_nat_alt)
  moreover have "inj_on (word_of_nat :: nat \<Rightarrow> u32) {8..<40}" by (rule inj_on_inverseI [of _ unat]) (simp add: u)
  ultimately have "card {8..<40 :: nat} \<le> card (free_blocks 1 demo_swap)"
    using card_mono [of "free_blocks 1 demo_swap" "word_of_nat ` {8..<40}"] card_image [of "word_of_nat :: nat \<Rightarrow> u32" "{8..<40}"] by simp
  then show "24 \<le> card (free_blocks 1 demo_swap)" by simp
qed

lemma demo_swap_file: "open_file 0 0 demo_swap" "fdata 0 demo_swap = []"
proof -
  have sl: "slot 0 demo_swap n = 0" if "n \<le> 140" for n using that by (auto simp: slot_def Let_def demo_swap_fields demo_inode_def)
  then have fb: "file_blocks 0 demo_swap = {}" by (auto simp: file_blocks_def)
  have "file_ok 0 demo_swap" unfolding file_ok_def fb using sl by (auto simp: demo_swap_fields demo_inode_def)
  then show "open_file 0 0 demo_swap" unfolding open_file_def demo_swap_fields by (simp add: demo_inode_def fil_def demo_swap_def)
  show "fdata 0 demo_swap = []" by (simp add: fdata_def demo_swap_fields demo_inode_def)
qed

lemma demo_swap_mem: "kmem_ok demo_end demo_swap (drop 3 demo_pages)" "space_ok demo_end 0x8DFF0000 demo_swap"
  "pte_of 0x8DFF0000 a demo_swap = (if unat a div 4096 = 1 then 0xDFF2007 else 0)"
proof -
  have sm: "same_mem (demo_space 1 0xDFF2007) demo_swap" by (simp add: same_mem_def demo_swap_def)
  note M = same_mem_facts [OF sm] and P = demo_space_pte [where i = 1 and w = "0xDFF2007"] and R = demo_space_refs [of 1 "0xDFF2007"]
  show "kmem_ok demo_end demo_swap (drop 3 demo_pages)" using R(1) by (simp add: M(1))
  show "pte_of 0x8DFF0000 a demo_swap = (if unat a div 4096 = 1 then 0xDFF2007 else 0)" for a unfolding M(3) using P(1) by simp
  have "uframe 0x8DFF0000 a (demo_space 1 0xDFF2007) = 0x8DFF2000" if "unat a div 4096 = 1" for a
    using that P(1) by (simp add: uframe_def PTE_ADDR_def P2V_def)
  then have "user_frames 0x8DFF0000 (demo_space 1 0xDFF2007) \<subseteq> {0x8DFF2000}" using P(1) by (auto simp: user_frames_def split: if_splits)
  then have "space_ok demo_end 0x8DFF0000 (demo_space 1 0xDFF2007)"
    using P(2,3) R(4) by (auto simp: space_ok_def demo_freeable demo_pages_def)
  then show "space_ok demo_end 0x8DFF0000 demo_swap" by (simp add: M(11))
qed

lemma demo_swap_can: "can_page_out demo_end 0 1 0 0 0 demo_swap" "vaddr 0 1 demo_swap = 0x1000"
proof -
  show v: "vaddr 0 1 demo_swap = 0x1000" by (simp add: vaddr_def lnk_def demo_swap_fields link_def demo_proc_def demo_links_def)
  have "nextAvOffset (prc 0 demo_swap) = Some 0" by (simp add: demo_swap_fields nextAvOffset_def demo_proc_def numeral_eq_Suc)
  then show "can_page_out demo_end 0 1 0 0 0 demo_swap"
    unfolding can_page_out_def Let_def v
    using demo_swap_mem(2) demo_swap_file demo_swap_layout
    by (simp add: demo_swap_fields demo_swap_mem(3) demo_proc_def demo_links_def demo_inode_def PGROUNDDOWN_def split: if_splits)
qed

theorem swap_roundtrip_witness:
  "\<exists>t u. moveToDisk demo_conf (Some 1) demo_swap = Inr (0, t) \<and> swap_page 0 0 t = page_bytes 0x8DFF0000 0x1000 demo_swap \<and>
     getPageFromFile demo_conf 0 1 t = Inr (0, u) \<and> ubyte 0x8DFF0000 0x1004 u = 7"
proof -
  have E: "conf_end demo_conf = demo_end" by (simp add: demo_conf_def)
  have d: "pgdir (prc 0 demo_swap) = 0x8DFF0000" by (simp add: demo_swap_fields)
  have r: "ram_list (prc 0 demo_swap) ([0] @ 1 # [2])" using demo_list by (simp add: demo_swap_fields ram_list_def)
  have x: "drop 3 demo_pages \<noteq> []" by (simp add: demo_pages_def)
  obtain t u where a: "moveToDisk demo_conf (Some 1) demo_swap = Inr (0, t)" "swap_page 0 0 t = page_bytes 0x8DFF0000 0x1000 demo_swap"
      "getPageFromFile demo_conf 0 1 t = Inr (0, u)"
    and b: "\<forall>a. a < KERNBASE \<and> bit (pte_of 0x8DFF0000 a demo_swap) 0 \<longrightarrow> bit (pte_of 0x8DFF0000 a u) 0 \<and> ubyte 0x8DFF0000 a u = ubyte 0x8DFF0000 a demo_swap"
    using swap_roundtrip [of demo_conf 0 1 0 0 0 demo_swap, unfolded E d demo_swap_can(2), OF demo_swap_can(1) demo_swap_mem(1) r] x by blast
  have "pmem demo_swap 0xDFF2000 = (\<lambda>_. 7)" by (simp add: demo_swap_def demo_space_def filled_def V2P_def)
  then have "ubyte 0x8DFF0000 0x1004 demo_swap = 7" by (simp add: ubyte_def demo_swap_mem(3) PTE_ADDR_def get_byte_def)
  then show ?thesis using a spec [OF b, of "0x1004"] by (auto simp: demo_swap_mem(3))
qed

end
