(* ===== verification/Replacement.thy ===== *)
theory Replacement
  imports Policy
begin

text \<open>
  What the replacement policies of \<open>vm.c\<close> and the aging step of \<open>trap.c\<close> do. \<open>paging E p s xs\<close> says that the
  pages of process \<open>p\<close> in memory are the list \<open>xs\<close> and each has its entry in the page table;
  \<open>is_user\<close> and \<open>accessed\<close> read the flags of a page. The lemmas follow each loop along the list:
  the second-chance loop (\<open>scfifo\<close>), the pass of the advancing queue (\<open>aq_loop\<close>), the search for the smallest
  counter (\<open>nfua_from\<close>) and the aging of the counters (\<open>age_loop\<close>).
\<close>

unbundle bit_operations_syntax

section \<open>The pages of a process\<close>

text \<open>\<open>paging E p s xs\<close>: the pages of process \<open>p\<close> in memory are the sequence \<open>xs\<close>, each has an entry in the
  page table of the process, and different links stand for different pages.\<close>

definition paging :: "u32 \<Rightarrow> nat \<Rightarrow> kernel \<Rightarrow> nat list \<Rightarrow> bool" where
  "paging E p s xs \<longleftrightarrow> p < length (ptable s) \<and> ram_list (prc p s) xs \<and> pt_ok E (pgdir (prc p s)) s \<and>
     (\<forall>i \<in> set xs. PDX (vaddr p i s) \<in> present (pgdir (prc p s)) s) \<and>
     inj_on (\<lambda>i. unat (vaddr p i s) div 4096) (set xs)"

definition pflag :: "nat \<Rightarrow> nat \<Rightarrow> kernel \<Rightarrow> nat \<Rightarrow> bool" where
  "pflag k p s i = bit (pte_of (pgdir (prc p s)) (vaddr p i s) s) k"

abbreviation is_user :: "nat \<Rightarrow> kernel \<Rightarrow> nat \<Rightarrow> bool" where "is_user \<equiv> pflag 2"
abbreviation accessed :: "nat \<Rightarrow> kernel \<Rightarrow> nat \<Rightarrow> bool" where "accessed \<equiv> pflag 5"

lemma pagingD:
  assumes "paging E p s xs"
  shows "p < length (ptable s)" "ram_list (prc p s) xs" "pt_ok E (pgdir (prc p s)) s"
    "\<And>i. i \<in> set xs \<Longrightarrow> PDX (vaddr p i s) \<in> present (pgdir (prc p s)) s"
    "\<And>i j. i \<in> set xs \<Longrightarrow> j \<in> set xs \<Longrightarrow> unat (vaddr p i s) div 4096 = unat (vaddr p j s) div 4096 \<Longrightarrow> i = j"
  using assms by (auto simp: paging_def inj_on_def)

text \<open>Reading and clearing flags of a page on the list.\<close>

lemma page_reads:
  assumes "paging E p s xs" "i \<in> set xs"
  shows "user_page p (vaddr p i s) s = Inr (is_user p s i, s)"
    "is_PTE_A (pgdir (prc p s)) (vaddr p i s) s = Inr (if accessed p s i then 1 else 0, s)"
proof -
  have "bit (pde_of (pgdir (prc p s)) (PDX (vaddr p i s)) s) 0"
    using pagingD(4) [OF assms] by (simp add: present_PDX)
  then show "user_page p (vaddr p i s) s = Inr (is_user p s i, s)"
    "is_PTE_A (pgdir (prc p s)) (vaddr p i s) s = Inr (if accessed p s i then 1 else 0, s)"
    by (simp_all add: user_page_def is_PTE_A_def walk_found load_pte_of pflag_def flag_bits)
qed

definition cleared :: "nat \<Rightarrow> nat \<Rightarrow> kernel \<Rightarrow> kernel" where
  "cleared p i s = set_pte (pgdir (prc p s)) (vaddr p i s)
     (pte_of (pgdir (prc p s)) (vaddr p i s) s AND NOT PTE_A) s"

lemma kernel_set_pte [simp]:
  "ptable (set_pte d va w s) = ptable s" "prc p (set_pte d va w s) = prc p s"
  "curp (set_pte d va w s) = curp s" "lnk p i (set_pte d va w s) = lnk p i s"
  "vaddr p i (set_pte d va w s) = vaddr p i s"
  by (simp_all add: set_pte_def store_def prc_def lnk_def vaddr_def)

lemma page_clear:
  assumes P: "paging E p s xs" and i: "i \<in> set xs"
  shows "PTE_A_off (pgdir (prc p s)) (vaddr p i s) s = Inr ((), cleared p i s)"
    "paging E p (cleared p i s) xs"
    "j \<in> set xs \<Longrightarrow> pflag k p (cleared p i s) j = (pflag k p s j \<and> \<not> (k = 5 \<and> j = i))"
    "prc q (cleared p i s) = prc q s" "curp (cleared p i s) = curp s" "vaddr p j (cleared p i s) = vaddr p j s"
proof -
  note T = pagingD(3) [OF P] and pr = pagingD(4) [OF P i]
  have "bit (pde_of (pgdir (prc p s)) (PDX (vaddr p i s)) s) 0" using pr by (simp add: present_PDX)
  then show "PTE_A_off (pgdir (prc p s)) (vaddr p i s) s = Inr ((), cleared p i s)"
    by (simp add: PTE_A_off_def walk_found load_pte_of cleared_def set_pte_def)
  show "paging E p (cleared p i s) xs"
    using P set_pte_ok [OF T pr] set_pte_tree(2) [OF T pr] by (simp add: paging_def cleared_def)
  show "pflag k p (cleared p i s) j = (pflag k p s j \<and> \<not> (k = 5 \<and> j = i))" if "j \<in> set xs"
    using pagingD(5) [OF P that i] unfolding pflag_def cleared_def kernel_set_pte pte_of_set_pte [OF T pr]
    by (auto simp only: bit_and_clear bit_32 split: if_splits)
qed (simp_all add: cleared_def)

text \<open>Operations on the process that keep the addresses of its pages.\<close>

definition same_ids :: "proc \<Rightarrow> proc \<Rightarrow> bool" where
  "same_ids p q \<longleftrightarrow> pgdir q = pgdir p \<and> (\<forall>j. page_id (pl_page (link j q)) = page_id (pl_page (link j p)))"

lemma links_only_ids: "links_only p q \<Longrightarrow> same_ids p q"
  by (simp add: same_ids_def links_onlyD)

lemma paging_upd:
  assumes P: "paging E p s xs" and q: "ram_list q ys" "set ys = set xs" "same_ids (prc p s) q"
    and s': "s' = upd_proc p (\<lambda>_. q) s"
  shows "paging E p s' ys" "prc p s' = q" "pflag k p s' i = pflag k p s i"
proof -
  show p: "prc p s' = q" using pagingD(1) [OF P] by (simp add: s')
  have v: "vaddr p i s' = vaddr p i s" for i using q(3) p by (simp add: vaddr_def lnk_def same_ids_def)
  have d: "pgdir (prc p s') = pgdir (prc p s)" using q(3) p by (simp add: same_ids_def)
  have t: "pde_of x i s' = pde_of x i s" "refs s' x = refs s x" "pte_of x y s' = pte_of x y s" for x y i
    by (simp_all add: pde_of_def refs_def pte_of_def s')
  then have "tab x s' = tab x s" "present x s' = present x s" for x by (simp_all add: tab_def present_def fun_eq_iff)
  then have "pt_ok E x s' = pt_ok E x s" "present x s' = present x s" for x
    by (simp_all add: pt_ok_def pt_frames_def t)
  moreover have "length (ptable s') = length (ptable s)" by (simp add: s')
  ultimately show "paging E p s' ys" using P q p v d by (simp add: paging_def)
  show "pflag k p s' i = pflag k p s i" by (simp add: pflag_def v d t)
qed

text \<open>Moving the first page to the end.\<close>

lemma page_requeue:
  assumes P: "paging E p s xs" and n: "2 \<le> length xs"
  shows "\<exists>s'. requeue p (hd xs) s = Inr ((), s') \<and> paging E p s' (rotate1 xs) \<and> (\<forall>k i. pflag k p s' i = pflag k p s i) \<and>
    page_list_head_ram (prc p s') = Some (hd (rotate1 xs)) \<and> curp s' = curp s \<and> pgdir (prc p s') = pgdir (prc p s)"
proof -
  obtain q where q: "addPageToList (hd xs) (removePageFromList (hd xs) (prc p s)) = Inr q"
    "ram_list q (rotate1 xs)" "links_only (prc p s) q"
    using plist.rotation [OF pagingD(2) [OF P] n] by blast
  have "rotate1 xs \<noteq> []" using n by (cases xs) auto
  then have "page_list_head_ram q = Some (hd (rotate1 xs))" using q(2) by (cases "rotate1 xs") (auto simp: ram_list_def)
  then show ?thesis
    using paging_upd [OF P q(2) _ links_only_ids [OF q(3)] refl] q links_onlyD(2) [OF q(3)]
    by (intro exI [of _ "upd_proc p (\<lambda>_. q) s"]) (simp add: requeue_def)
qed

section \<open>Second chance\<close>

text \<open>One turn of the loop.\<close>

lemma scfifo_step:
  assumes P: "paging E p s xs" and n: "2 \<le> length xs" and x: "x = hd xs" and d: "d = pgdir (prc p s)"
    and again: "\<not> (is_user p s x \<and> \<not> accessed p s x)"
  shows "\<exists>s'. scfifo (Suc k) p d (Some x) s = scfifo k p d (Some (hd (rotate1 xs))) s' \<and>
    paging E p s' (rotate1 xs) \<and> pgdir (prc p s') = d \<and> curp s' = curp s \<and>
    (\<forall>i \<in> set xs. is_user p s' i = is_user p s i \<and> accessed p s' i = (accessed p s i \<and> \<not> (i = x \<and> is_user p s x)))"
proof -
  have xin: "x \<in> set xs" using n x by (cases xs) auto
  note R = page_reads [OF P xin] and C = page_clear [OF P xin]
  show ?thesis
  proof (cases "is_user p s x")
    case False
    obtain s' where s': "requeue p (hd xs) s = Inr ((), s')" "paging E p s' (rotate1 xs)" "\<forall>k i. pflag k p s' i = pflag k p s i"
      "page_list_head_ram (prc p s') = Some (hd (rotate1 xs))" "curp s' = curp s" "pgdir (prc p s') = pgdir (prc p s)"
      using page_requeue [OF P n] by blast
    have "scfifo (Suc k) p d (Some x) s = scfifo k p d (Some (hd (rotate1 xs))) s'"
      using False R(1) s'(1,4) x by simp
    then show ?thesis using s' d False by auto
  next
    case True
    then have a: "accessed p s x" using again by simp
    let ?c = "cleared p x s"
    obtain s' where s': "requeue p (hd xs) ?c = Inr ((), s')" "paging E p s' (rotate1 xs)" "\<forall>k i. pflag k p s' i = pflag k p ?c i"
      "page_list_head_ram (prc p s') = Some (hd (rotate1 xs))" "curp s' = curp ?c" "pgdir (prc p s') = pgdir (prc p ?c)"
      using page_requeue [OF C(2) n] by blast
    have "scfifo (Suc k) p d (Some x) s = scfifo k p d (Some (hd (rotate1 xs))) s'"
      using True a R C(1) s'(1,4) x d by simp
    moreover have "pflag m p s' i = (pflag m p s i \<and> \<not> (m = 5 \<and> i = x))" if "i \<in> set xs" for m i
      using s'(3) C(3) [OF that] by simp
    ultimately show ?thesis using s'(2,5,6) C(4,5) d True by auto
  qed
qed


text \<open>Pages that are not taken are passed over: the list turns and their accessed flags are cleared.\<close>

lemma scfifo_pass:
  assumes "paging E p s (as @ cs)" "2 \<le> length (as @ cs)" "d = pgdir (prc p s)"
    "\<forall>i \<in> set as. \<not> (is_user p s i \<and> \<not> accessed p s i)"
  shows "\<exists>s'. scfifo (length as + k) p d (Some (hd (as @ cs))) s = scfifo k p d (Some (hd (cs @ as))) s' \<and>
    paging E p s' (cs @ as) \<and> pgdir (prc p s') = d \<and> curp s' = curp s \<and>
    (\<forall>i \<in> set (as @ cs). is_user p s' i = is_user p s i \<and>
       accessed p s' i = (accessed p s i \<and> \<not> (i \<in> set as \<and> is_user p s i)))"
  using assms
proof (induction as arbitrary: s cs)
  case (Cons a as)
  let ?n = "length as + k"
  obtain t where t: "scfifo (Suc ?n) p d (Some a) s = scfifo ?n p d (Some (hd (rotate1 ((a # as) @ cs)))) t"
    "paging E p t (rotate1 ((a # as) @ cs))" "pgdir (prc p t) = d" "curp t = curp s"
    "\<forall>i \<in> set ((a # as) @ cs). is_user p t i = is_user p s i \<and> accessed p t i = (accessed p s i \<and> \<not> (i = a \<and> is_user p s a))"
    using scfifo_step [OF Cons.prems(1,2), of a d ?n] Cons.prems(3,4) by (auto simp del: scfifo.simps)
  have dist: "a \<notin> set as" using pagingD(2) [OF Cons.prems(1)] by (auto simp: ram_list_def)
  then have "\<forall>i \<in> set as. \<not> (is_user p t i \<and> \<not> accessed p t i)" using t(5) Cons.prems(4) by auto
  with Cons.IH [of t "cs @ [a]"] t(2,3) Cons.prems(2)
  obtain u where u: "scfifo ?n p d (Some (hd (as @ cs @ [a]))) t = scfifo k p d (Some (hd (cs @ a # as))) u"
    "paging E p u (cs @ a # as)" "pgdir (prc p u) = d" "curp u = curp t"
    "\<forall>i \<in> set (as @ cs @ [a]). is_user p u i = is_user p t i \<and> accessed p u i = (accessed p t i \<and> \<not> (i \<in> set as \<and> is_user p t i))"
    by auto
  have "scfifo (length (a # as) + k) p d (Some (hd ((a # as) @ cs))) s = scfifo k p d (Some (hd (cs @ a # as))) u"
    using t(1) u(1) by (simp del: scfifo.simps)
  then show ?case using t(4,5) u by (intro exI [of _ u]) auto
qed auto

text \<open>A page that is taken.\<close>

lemma scfifo_stop:
  assumes "paging E p s xs" "x \<in> set xs" "is_user p s x" "\<not> accessed p s x"
  shows "scfifo (Suc k) p (pgdir (prc p s)) (Some x) s = Inr (x, s)"
  using page_reads [OF assms(1,2)] assms(3,4) by simp

lemma scfifo_first:
  assumes P: "paging E p s xs" "2 \<le> length xs" and g: "\<exists>i \<in> set xs. is_user p s i \<and> \<not> accessed p s i" and k: "length xs \<le> k"
  shows "\<exists>s' n. scfifo k p (pgdir (prc p s)) (Some (hd xs)) s = Inr (hd (filter (\<lambda>i. is_user p s i \<and> \<not> accessed p s i) xs), s') \<and>
    paging E p s' (rotate n xs) \<and> hd (rotate n xs) = hd (filter (\<lambda>i. is_user p s i \<and> \<not> accessed p s i) xs) \<and>
    (\<forall>i \<in> set xs. is_user p s' i = is_user p s i \<and> (accessed p s' i \<longrightarrow> accessed p s i))"
proof -
  let ?G = "\<lambda>i. is_user p s i \<and> \<not> accessed p s i"
  obtain as x bs where xs: "xs = as @ x # bs" "?G x" "\<forall>y \<in> set as. \<not> ?G y"
    using split_list_first_prop [of xs ?G] g by auto
  obtain k' where k': "k = length as + Suc k'" using k xs(1) by (auto simp: le_iff_add)
  obtain t where t: "scfifo k p (pgdir (prc p s)) (Some (hd xs)) s = scfifo (Suc k') p (pgdir (prc p s)) (Some x) t"
    "paging E p t (x # bs @ as)" "pgdir (prc p t) = pgdir (prc p s)"
    "\<forall>i \<in> set xs. is_user p t i = is_user p s i \<and> accessed p t i = (accessed p s i \<and> \<not> (i \<in> set as \<and> is_user p s i))"
    using scfifo_pass [of E p s as "x # bs" "pgdir (prc p s)" "Suc k'"] P xs unfolding k' xs(1) by (auto simp del: scfifo.simps)
  have x: "is_user p t x" "\<not> accessed p t x" using t(4) xs by auto
  have "filter ?G as = []" using xs(3) by (simp add: filter_empty_conv)
  then have f: "hd (filter ?G xs) = x" using xs by simp
  moreover have "rotate (length as) xs = x # bs @ as" using rotate_append [of as "x # bs"] xs(1) by simp
  ultimately show ?thesis
    using t scfifo_stop [OF t(2) _ x, of k'] by (intro exI [of _ t] exI [of _ "length as"]) auto
qed

lemma scfifo_chooses:
  assumes P: "paging E p s xs" "2 \<le> length xs" and u: "\<exists>i \<in> set xs. is_user p s i" and k: "2 * length xs \<le> k"
  shows "\<exists>s' n. scfifo k p (pgdir (prc p s)) (Some (hd xs)) s =
      Inr (hd (filter (\<lambda>i. is_user p s i \<and> \<not> accessed p s i) xs @ filter (is_user p s) xs), s') \<and>
    paging E p s' (rotate n xs) \<and> hd (rotate n xs) = hd (filter (\<lambda>i. is_user p s i \<and> \<not> accessed p s i) xs @ filter (is_user p s) xs) \<and>
    (\<forall>i \<in> set xs. is_user p s' i = is_user p s i \<and> (accessed p s' i \<longrightarrow> accessed p s i))"
proof (cases "\<exists>i \<in> set xs. is_user p s i \<and> \<not> accessed p s i")
  case True
  then have "filter (\<lambda>i. is_user p s i \<and> \<not> accessed p s i) xs \<noteq> []" by (auto simp: filter_empty_conv)
  then show ?thesis using scfifo_first [OF P True, of k] k by auto
next
  case False
  obtain k' where k': "k = length xs + k'" "length xs \<le> k'" using k by (auto simp: le_iff_add)
  obtain t where t: "scfifo k p (pgdir (prc p s)) (Some (hd xs)) s = scfifo k' p (pgdir (prc p s)) (Some (hd xs)) t"
    "paging E p t xs" "pgdir (prc p t) = pgdir (prc p s)"
    "\<forall>i \<in> set xs. is_user p t i = is_user p s i \<and> accessed p t i = (accessed p s i \<and> \<not> is_user p s i)"
    using scfifo_pass [of E p s xs "[]" "pgdir (prc p s)" k'] P False unfolding k'(1) by auto
  have f: "filter (\<lambda>i. is_user p t i \<and> \<not> accessed p t i) xs = filter (is_user p s) xs"
    by (rule filter_cong) (use t(4) in auto)
  have "\<exists>i \<in> set xs. is_user p t i \<and> \<not> accessed p t i" using u t(4) by auto
  from scfifo_first [OF t(2) P(2) this k'(2)] obtain s' n where
    "scfifo k' p (pgdir (prc p t)) (Some (hd xs)) t = Inr (hd (filter (is_user p s) xs), s')"
    "paging E p s' (rotate n xs)" "hd (rotate n xs) = hd (filter (is_user p s) xs)"
    "\<forall>i \<in> set xs. is_user p s' i = is_user p t i \<and> (accessed p s' i \<longrightarrow> accessed p t i)"
    unfolding f by blast
  moreover have "filter (\<lambda>i. is_user p s i \<and> \<not> accessed p s i) xs = []" using False by (auto simp: filter_empty_conv)
  ultimately show ?thesis using t by (intro exI [of _ s'] exI [of _ n]) auto
qed

text \<open>Without a user page the loop turns for ever.\<close>

lemma scfifo_turns:
  assumes "paging E p s xs" "2 \<le> length xs" "\<forall>i \<in> set xs. \<not> is_user p s i" "d = pgdir (prc p s)"
  shows "scfifo k p d (Some (hd xs)) s = Inl Diverge"
  using assms
proof (induction k arbitrary: s xs)
  case (Suc k)
  have "hd xs \<in> set xs" using Suc.prems(2) by (cases xs) auto
  then obtain t where t: "scfifo (Suc k) p d (Some (hd xs)) s = scfifo k p d (Some (hd (rotate1 xs))) t"
    "paging E p t (rotate1 xs)" "pgdir (prc p t) = d" "\<forall>i \<in> set xs. is_user p t i = is_user p s i"
    using scfifo_step [OF Suc.prems(1,2) refl Suc.prems(4), of k] Suc.prems(3) by (auto simp del: scfifo.simps)
  show ?case unfolding t(1) by (rule Suc.IH) (use t(2-4) Suc.prems in auto)
qed simp


section \<open>The advancing queue\<close>

lemma aq_swap_ok:
  assumes r: "ram_list p (as @ x # y # bs)"
  shows "ram_list (aq_swap x y p) (as @ y # x # bs)" "links_only p (aq_swap x y p)"
proof -
  let ?pl = "pages_meta_data p"
  obtain pr c q where A: "seg ?pl None (page_list_head_ram p) as pr (Some x)"
    and X: "x < length ?pl" "pl_prev (?pl ! x) = pr" "pl_next (?pl ! x) = Some y"
    and Y: "y < length ?pl" "pl_prev (?pl ! y) = Some x" "pl_next (?pl ! y) = c" and B: "seg ?pl (Some y) c bs q None"
    using r by (auto simp: ram_list_def dll_seg seg_append)
  have len: "length ?pl = 32" and d: "distinct as" "distinct bs" "x \<notin> set as" "x \<notin> set bs" "y \<notin> set as" "y \<notin> set bs"
      "x \<noteq> y" "set as \<inter> set bs = {}"
    using r by (auto simp: ram_list_def)
  have pr: "pr = (if as = [] then None else Some (last as))" using seg_end [OF A] .
  have c: "c = (if bs = [] then None else Some (hd bs))" using seg_start [OF B] .
  define p0 where "p0 = (if pr = None then p\<lparr>page_list_head_ram := Some y\<rparr> else p)"
  define h where "h = (if as = [] then Some y else page_list_head_ram p)"
  have p0: "pages_meta_data p0 = ?pl" "page_list_head_ram p0 = h" "links_only p p0" "\<And>i. link i p0 = link i p"
    using pr by (auto simp: p0_def h_def)
  define p1 where "p1 = upd_link y (\<lambda>l. l\<lparr>pl_prev := pr, pl_next := Some x\<rparr>)
    (upd_link x (\<lambda>l. l\<lparr>pl_prev := Some y, pl_next := c\<rparr>) p0)"
  define p2 where "p2 = (case pr of None \<Rightarrow> p1 | Some t \<Rightarrow> upd_link t (\<lambda>l. l\<lparr>pl_next := Some y\<rparr>) p1)"
  define p3 where "p3 = (case c of None \<Rightarrow> p2 | Some t \<Rightarrow> upd_link t (\<lambda>l. l\<lparr>pl_prev := Some x\<rparr>) p2)"
  have L: "pl_prev (link x p) = pr" "pl_next (link y p) = c" using X Y by (simp_all add: link_def)
  have run: "aq_swap x y p = p3"
    unfolding aq_swap_def Let_def L p0_def [symmetric] p0(4) p3_def p2_def p1_def ..
  have h: "(page_list_head_ram p)  = h" if "as \<noteq> []" using that by (simp add: h_def)
  have A1: "seg (pages_meta_data p1) None (page_list_head_ram p) as pr (Some x)"
    using A d by (simp add: p1_def pages_upd_link p0)
  have A2: "seg (pages_meta_data p2) None h as pr (Some y)"
  proof (cases as rule: rev_cases)
    case Nil
    then show ?thesis using A1 pr by (simp add: p2_def h_def)
  next
    case (snoc zs k)
    then show ?thesis
      using A1 pr d(1) seg_relink_next [of "pages_meta_data p1" None "page_list_head_ram p" zs k pr "Some x"
          "(pages_meta_data p1 ! k)\<lparr>pl_next := Some y\<rparr>" "Some y"] h
      by (simp add: p2_def pages_upd_link)
  qed
  have B1: "seg (pages_meta_data p2) (Some y) c bs q None"
  proof (cases "as = []")
    case False
    then have "last as \<notin> set bs" using d(8) by (metis disjoint_iff last_in_set)
    then show ?thesis using B d pr False by (simp add: p2_def p1_def pages_upd_link p0)
  qed (use B d pr in \<open>simp add: p2_def p1_def pages_upd_link p0\<close>)
  have A3: "seg (pages_meta_data p3) None h as pr (Some y)"
  proof (cases "bs = []")
    case False
    then have "hd bs \<notin> set as" using d(8) by (metis disjoint_iff hd_in_set)
    then show ?thesis using A2 c False by (simp add: p3_def pages_upd_link)
  qed (use A2 c in \<open>simp add: p3_def\<close>)
  have B3: "\<exists>q'. seg (pages_meta_data p3) (Some x) c bs q' None"
  proof (cases "bs = []")
    case False
    then show ?thesis
      using seg_relink_prev [OF B1 d(2), of "(pages_meta_data p2 ! hd bs)\<lparr>pl_prev := Some x\<rparr>" "Some x"] c
      by (auto simp: p3_def pages_upd_link)
  qed (use B c in \<open>simp add: p3_def\<close>)
  have ne: "last as \<noteq> x \<and> last as \<noteq> y" if "as \<noteq> []" using that d last_in_set by metis
  have ne': "hd bs \<noteq> x \<and> hd bs \<noteq> y" if "bs \<noteq> []" using that d hd_in_set by metis
  have XY: "pages_meta_data p3 ! x = (?pl ! x)\<lparr>pl_prev := Some y, pl_next := c\<rparr>"
    "pages_meta_data p3 ! y = (?pl ! y)\<lparr>pl_prev := pr, pl_next := Some x\<rparr>" "length (pages_meta_data p3) = 32"
    using pr c ne ne' X(1) Y(1) d(7) len by (auto simp: p3_def p2_def p1_def pages_upd_link p0)
  have "page_list_head_ram p3 = h" by (auto simp: p3_def p2_def p1_def p0 split: option.splits)
  then show "ram_list (aq_swap x y p) (as @ y # x # bs)"
    unfolding run ram_list_def dll_seg seg_append using A3 B3 XY X(1) Y(1) len d by auto
  have s: "links_only q (upd_link n (\<lambda>l. l\<lparr>pl_prev := x\<rparr>) q)" "links_only q (upd_link n (\<lambda>l. l\<lparr>pl_next := x\<rparr>) q)"
    "links_only q (upd_link n (\<lambda>l. l\<lparr>pl_prev := x, pl_next := y\<rparr>) q)" for q n x y
    by (rule links_only_upd, simp)+
  have "links_only p p1" unfolding p1_def by (rule links_only_trans [OF links_only_trans [OF p0(3) s(3)] s(3)])
  then have "links_only p p2" unfolding p2_def by (auto split: option.splits intro: links_only_trans [OF _ s(2)])
  then show "links_only p (aq_swap x y p)"
    unfolding run p3_def by (auto split: option.splits intro: links_only_trans [OF _ s(1)])
qed


text \<open>The pass on sequences: an accessed page changes places with a page behind it that was not accessed.\<close>

fun advance :: "('a \<Rightarrow> bool) \<Rightarrow> 'a list \<Rightarrow> 'a list" where
  "advance A [] = []"
| "advance A [x] = [x]"
| "advance A (x # y # r) = (if A x \<and> \<not> A y then y # x # advance A r else x # advance A (y # r))"

lemma set_advance [simp]: "set (advance A xs) = set xs"
  by (induction A xs rule: advance.induct) auto

lemma advance_ne [simp]: "advance A xs = [] \<longleftrightarrow> xs = []"
  by (induction A xs rule: advance.induct) auto

lemma paging_next:
  assumes "paging E p s (as @ x # ys)"
  shows "pl_next (lnk p x s) = (case ys of [] \<Rightarrow> None | y # _ \<Rightarrow> Some y)" "x \<in> set (as @ x # ys)"
  using pagingD(2) [OF assms] by (auto simp: ram_list_def dll_seg seg_append lnk_def link_def split: list.split)

lemma aq_move:
  assumes P: "paging E p s (as @ x # y # r)" "\<not> accessed p s x"
  shows "aq_loop (Suc k) p (pgdir (prc p s)) (Some x) s = aq_loop k p (pgdir (prc p s)) (Some y) s"
  using page_reads(2) [OF P(1), of x] paging_next [OF P(1)] P(2) by simp

lemma aq_last:
  assumes "paging E p s (as @ [x])"
  shows "aq_loop (Suc k) p d (Some x) s = Inr (Some x, s)"
  using paging_next [OF assms] by simp

text \<open>Two turns at an accessed page.\<close>

lemma aq_clear:
  assumes P: "paging E p s (as @ x # y # r)" and A: "accessed p s x"
  shows "\<exists>s'. aq_loop (Suc k) p (pgdir (prc p s)) (Some x) s = aq_loop k p (pgdir (prc p s)) (Some x) s' \<and>
    paging E p s' (if accessed p s y then as @ x # y # r else as @ y # x # r) \<and> pgdir (prc p s') = pgdir (prc p s) \<and>
    (\<forall>j m. j \<in> set (as @ x # y # r) \<longrightarrow> pflag m p s' j = (pflag m p s j \<and> \<not> (m = 5 \<and> j = x)))"
proof -
  let ?c = "cleared p x s" and ?d = "pgdir (prc p s)"
  have ne: "x \<noteq> y" using pagingD(2) [OF P] by (auto simp: ram_list_def)
  have xin: "x \<in> set (as @ x # y # r)" and yin: "y \<in> set (as @ x # y # r)" by auto
  note C = page_clear [OF P xin]
  have acc: "accessed p ?c y = accessed p s y" using C(3) [OF yin] ne by simp
  have b: "is_PTE_A ?d (vaddr p y ?c) ?c = Inr (if accessed p s y then 1 else 0, ?c)"
    using page_reads(2) [OF C(2) yin] acc C(4) by simp
  have run: "aq_loop (Suc k) p ?d (Some x) s = aq_loop k p ?d (Some x) (if accessed p s y then ?c else upd_proc p (aq_swap x y) ?c)"
    using page_reads(2) [OF P xin] paging_next(1) [OF P] A C(1) b by simp
  show ?thesis
  proof (cases "accessed p s y")
    case True
    then show ?thesis using run C by (intro exI [of _ ?c]) auto
  next
    case False
    note S = aq_swap_ok [OF pagingD(2) [OF C(2)]]
    define t where "t = upd_proc p (\<lambda>_. aq_swap x y (prc p ?c)) ?c"
    have "upd_proc p (aq_swap x y) ?c = t" by (simp add: t_def upd_proc_def prc_def)
    moreover note paging_upd [OF C(2) S(1) _ links_only_ids [OF S(2)] t_def]
    moreover have "pgdir (prc p t) = ?d" using calculation(3) links_onlyD(2) [OF S(2)] C(4) by (simp add: insert_commute)
    ultimately show ?thesis using run C(3) False by (intro exI [of _ t]) (auto simp: insert_commute)
  qed
qed

text \<open>What the pass does from position \<open>length as\<close> on: the rest of the list advances and its flags are
  cleared up to its last page.\<close>

definition advanced :: "u32 \<Rightarrow> nat \<Rightarrow> (nat \<Rightarrow> bool) \<Rightarrow> nat list \<Rightarrow> nat list \<Rightarrow> kernel \<Rightarrow> nat option kres \<Rightarrow> bool" where
  "advanced E p A as xs s r \<longleftrightarrow> (\<exists>s'. r = Inr (Some (last (advance A xs)), s') \<and> paging E p s' (as @ advance A xs) \<and>
     pgdir (prc p s') = pgdir (prc p s) \<and> (\<forall>i \<in> set (as @ xs). is_user p s' i = is_user p s i \<and>
       (accessed p s' i \<longrightarrow> i = last (advance A xs) \<or> i \<in> set as \<and> accessed p s i)))"

lemma advanced_step:
  assumes "advanced E p A (as @ ws) r t R" "r \<noteq> []" "advance A xs = ws @ advance A r" "set xs = set ws \<union> set r"
    "pgdir (prc p t) = pgdir (prc p s)" "\<forall>i \<in> set (as @ xs). is_user p t i = is_user p s i"
    "\<forall>i \<in> set as. accessed p t i = accessed p s i" "\<forall>i \<in> set ws. \<not> accessed p t i"
  shows "advanced E p A as xs s R"
proof -
  obtain u where u: "R = Inr (Some (last (advance A r)), u)" "paging E p u ((as @ ws) @ advance A r)"
    "pgdir (prc p u) = pgdir (prc p t)"
    "\<forall>i \<in> set ((as @ ws) @ r). is_user p u i = is_user p t i \<and>
       (accessed p u i \<longrightarrow> i = last (advance A r) \<or> i \<in> set (as @ ws) \<and> accessed p t i)"
    using assms(1) unfolding advanced_def by blast
  have "last (advance A xs) = last (advance A r)" using assms(2,3) by simp
  moreover have "is_user p u i = is_user p s i \<and> (accessed p u i \<longrightarrow> i = last (advance A r) \<or> i \<in> set as \<and> accessed p s i)"
    if "i \<in> set (as @ xs)" for i
    using u(4) [rule_format, of i] assms(4,6-8) that by auto
  ultimately show ?thesis unfolding advanced_def using u(1-3) assms(3,5) by (intro exI [of _ u]) auto
qed

lemma aq_loop_advances:
  assumes "paging E p s (as @ xs)" "xs \<noteq> []" "\<forall>i \<in> set xs. A i = accessed p s i" "2 * length xs \<le> k" "d = pgdir (prc p s)"
  shows "advanced E p A as xs s (aq_loop k p d (Some (hd xs)) s)"
  using assms
proof (induction A xs arbitrary: s as k rule: advance.induct)
  case (3 A x y r)
  then obtain k' where k: "k = Suc (Suc k')" "2 * length (y # r) \<le> k'" by (auto simp: numeral_2_eq_2 Suc_le_eq dest: less_imp_Suc_add)
  note P = 3(3) and AE = 3(5) and d = 3(7)
  have dist: "x \<notin> set (y # r)" "y \<notin> set r" "x \<notin> set as" using pagingD(2) [OF P] by (auto simp: ram_list_def)
  show ?case
  proof (cases "A x")
    case False
    then have m: "aq_loop k p d (Some (hd (x # y # r))) s = aq_loop (Suc k') p d (Some (hd (y # r))) s"
      using aq_move [OF P, of "Suc k'"] AE d k(1) by simp
    have "advanced E p A (as @ [x]) (y # r) s (aq_loop (Suc k') p d (Some (hd (y # r))) s)"
      by (rule 3(2)) (use False P AE d k(2) in auto)
    then show ?thesis unfolding m by (rule advanced_step) (use False AE in auto)
  next
    case True
    then obtain t where t: "aq_loop k p d (Some x) s = aq_loop (Suc k') p d (Some x) t"
      "paging E p t (if accessed p s y then as @ x # y # r else as @ y # x # r)" "pgdir (prc p t) = d"
      "\<forall>j m. j \<in> set (as @ x # y # r) \<longrightarrow> pflag m p t j = (pflag m p s j \<and> \<not> (m = 5 \<and> j = x))"
      using aq_clear [OF P, of "Suc k'"] AE d unfolding k(1) by (auto simp del: aq_loop.simps)
    have AT: "\<forall>i \<in> set (y # r). A i = accessed p t i" and as: "\<forall>i \<in> set as. accessed p t i = accessed p s i"
      and us: "\<forall>i \<in> set (as @ x # y # r). is_user p t i = is_user p s i" and xy: "\<not> accessed p t x"
      using t(4) AE dist by auto
    show ?thesis
    proof (cases "A y")
      case Ay: True
      then have pt: "paging E p t (as @ x # y # r)" using t(2) AE by simp
      have m: "aq_loop k p d (Some (hd (x # y # r))) s = aq_loop k' p d (Some (hd (y # r))) t"
        using aq_move [OF pt, of k'] t(1,3,4) by (simp del: aq_loop.simps)
      have "advanced E p A (as @ [x]) (y # r) t (aq_loop k' p d (Some (hd (y # r))) t)"
        by (rule 3(2)) (use Ay pt AT t(3) k(2) in auto)
      then show ?thesis unfolding m by (rule advanced_step) (use Ay t(3) d as us xy in auto)
    next
      case Ay: False
      then have pt: "paging E p t (as @ y # x # r)" using t(2) AE by simp
      show ?thesis
      proof (cases r)
        case Nil
        then show ?thesis
          using aq_last [of E p t "as @ [y]" x k' d] pt t(1,3,4) d True Ay AE unfolding advanced_def by (auto simp del: aq_loop.simps)
      next
        case (Cons z r')
        then have m: "aq_loop k p d (Some (hd (x # y # r))) s = aq_loop k' p d (Some (hd r)) t"
          using aq_move [of E p t "as @ [y]" x z r' k'] pt t(1,3,4) by (simp del: aq_loop.simps)
        have "advanced E p A (as @ [y, x]) r t (aq_loop k' p d (Some (hd r)) t)"
          by (rule 3(1)) (use True Ay Cons pt AT t(3) k(2) in auto)
        then show ?thesis unfolding m by (rule advanced_step) (use True Ay Cons AT t(3) d as us xy in auto)
      qed
    qed
  qed
next
  case (2 A x)
  then obtain k' where "k = Suc k'" by (cases k) auto
  then show ?case using aq_last [of E p s as x k' d] 2 by (auto simp: advanced_def)
qed auto

section \<open>Counters\<close>

definition counter :: "nat \<Rightarrow> kernel \<Rightarrow> nat \<Rightarrow> u32" where
  "counter p s i = shiftCounter (pl_page (lnk p i s))"

text \<open>The search keeps the first page with the smallest counter among its start and the user pages behind it.\<close>

lemma nfua_least:
  assumes "paging E p s (as @ x # bs)" "length bs < k"
  shows "\<exists>v. nfua_from k p x best s = Inr (v, s) \<and> v \<in> set (best # filter (is_user p s) bs) \<and>
    (\<forall>j \<in> set (best # filter (is_user p s) bs). counter p s v \<le> counter p s j)"
  using assms
proof (induction bs arbitrary: as x k best)
  case Nil
  then obtain k' where "k = Suc k'" by (cases k) auto
  then show ?case using paging_next(1) [OF Nil.prems(1)] by simp
next
  case (Cons y bs)
  then obtain k' where k: "k = Suc k'" "length bs < k'" by (cases k) auto
  have P: "paging E p s ((as @ [x]) @ y # bs)" using Cons.prems(1) by simp
  have n: "pl_next (lnk p x s) = Some y" using paging_next(1) [OF Cons.prems(1)] by simp
  have u: "user_page p (vaddr p y s) s = Inr (is_user p s y, s)" using page_reads(1) [OF P] by simp
  show ?case
  proof (cases "is_user p s y")
    case False
    then show ?thesis using Cons.IH [OF P k(2), of best] n u k(1) by auto
  next
    case True
    define b where "b = (if counter p s y < counter p s best then y else best)"
    have step: "nfua_from k p x best s = nfua_from k' p y b s"
      using n u True unfolding k(1) b_def counter_def by simp
    obtain v where v: "nfua_from k' p y b s = Inr (v, s)" "v \<in> set (b # filter (is_user p s) bs)"
      "\<forall>j \<in> set (b # filter (is_user p s) bs). counter p s v \<le> counter p s j"
      using Cons.IH [OF P k(2), of b] by blast
    have le: "counter p s b \<le> counter p s y" "counter p s b \<le> counter p s best" by (auto simp: b_def)
    have "counter p s v \<le> counter p s b" using v(3) by simp
    then have "counter p s v \<le> counter p s y" "counter p s v \<le> counter p s best" using le order_trans by blast+
    moreover have "v \<in> set (best # y # filter (is_user p s) bs)" using v(2) by (auto simp: b_def split: if_splits)
    ultimately show ?thesis using v(1,3) step True by auto
  qed
qed

text \<open>The test that was to skip the first pages skips all of them.\<close>

lemma lapa_head:
  assumes "paging E p s (as @ x # bs)" "length bs < k"
  shows "lapa_from k p x best m s = Inr (best, s)"
  using assms
proof (induction bs arbitrary: as x k)
  case Nil
  then obtain k' where "k = Suc k'" by (cases k) auto
  then show ?case using paging_next(1) [OF Nil.prems(1)] by simp
next
  case (Cons y bs)
  then obtain k' where k: "k = Suc k'" "length bs < k'" by (cases k) auto
  have "pl_next (lnk p x s) = Some y" using paging_next(1) [OF Cons.prems(1)] by simp
  then show ?case using Cons.IH [of "as @ [x]" y k'] Cons.prems(1) k by simp
qed

section \<open>Aging\<close>

text \<open>Changing the data of one page.\<close>

lemma page_data:
  assumes P: "paging E p s xs" and i: "i \<in> set xs"
    and f: "\<And>l. pl_next (f l) = pl_next l" "\<And>l. pl_prev (f l) = pl_prev l" "\<And>l. page_id (pl_page (f l)) = page_id (pl_page l)"
  shows "paging E p (upd_proc p (upd_link i f) s) xs" "pflag k p (upd_proc p (upd_link i f) s) j = pflag k p s j"
    "lnk p j (upd_proc p (upd_link i f) s) = (if j = i then f (lnk p i s) else lnk p j s)"
    "pgdir (prc p (upd_proc p (upd_link i f) s)) = pgdir (prc p s)"
    "vaddr p j (upd_proc p (upd_link i f) s) = vaddr p j s"
proof -
  let ?q = "upd_link i f (prc p s)" and ?t = "upd_proc p (upd_link i f) s"
  have il: "i < length (pages_meta_data (prc p s))"
    using pagingD(2) [OF P] i plist.queue_bound [OF pagingD(2) [OF P] i] by (simp add: ram_list_def)
  have t: "?t = upd_proc p (\<lambda>_. ?q) s" by (simp add: upd_proc_def prc_def)
  have r: "ram_list ?q xs" using ram_list_data [of f i "prc p s" xs] f pagingD(2) [OF P] by simp
  have e: "same_ids (prc p s) ?q" using f(3) il by (simp add: same_ids_def link_upd)
  note U = paging_upd [OF P r refl e t]
  show "paging E p ?t xs" "pflag k p ?t j = pflag k p s j" by (fact U(1), fact U(3))
  show l: "lnk p j ?t = (if j = i then f (lnk p i s) else lnk p j s)" for j using U(2) il by (simp add: lnk_def link_upd)
  show "pgdir (prc p ?t) = pgdir (prc p s)" using U(2) by simp
  show "vaddr p j ?t = vaddr p j s" using f(3) by (simp add: vaddr_def l)
qed

definition aged :: "bool \<Rightarrow> u32 \<Rightarrow> u32" where
  "aged a c = (if a then drop_bit 1 c OR 0x80000000 else drop_bit 1 c)"

lemma counter_cleared [simp]: "counter p (cleared q i s) j = counter p s j"
  by (simp add: counter_def cleared_def)

lemma age_step:
  assumes P: "paging E p s (as @ x # bs)"
  shows "\<exists>s'. age_loop (Suc k) p (pgdir (prc p s)) (Some x) s =
      age_loop k p (pgdir (prc p s)) (case bs of [] \<Rightarrow> None | y # _ \<Rightarrow> Some y) s' \<and>
    paging E p s' (as @ x # bs) \<and> pgdir (prc p s') = pgdir (prc p s) \<and>
    (\<forall>i \<in> set (as @ x # bs). is_user p s' i = is_user p s i \<and> accessed p s' i = (accessed p s i \<and> i \<noteq> x)) \<and>
    (\<forall>i. counter p s' i = (if i = x then aged (accessed p s x) (counter p s x) else counter p s i))"
proof -
  let ?f = "\<lambda>l :: page_link. l\<lparr>pl_page := (pl_page l)\<lparr>shiftCounter := drop_bit 1 (shiftCounter (pl_page l))\<rparr>\<rparr>"
  let ?g = "\<lambda>l :: page_link. l\<lparr>pl_page := (pl_page l)\<lparr>shiftCounter := shiftCounter (pl_page l) OR 0x80000000\<rparr>\<rparr>"
  let ?d = "pgdir (prc p s)"
  have x: "x \<in> set (as @ x # bs)" by simp
  define t where "t = upd_proc p (upd_link x ?f) s"
  have T: "paging E p t (as @ x # bs)" "\<And>k j. pflag k p t j = pflag k p s j" "pgdir (prc p t) = ?d"
    "\<And>j. lnk p j t = (if j = x then ?f (lnk p x s) else lnk p j s)"
    unfolding t_def using page_data [OF P x, of ?f] by simp_all
  have ct: "counter p t j = (if j = x then drop_bit 1 (counter p s x) else counter p s j)" for j
    by (simp add: counter_def T(4))
  note R = page_reads(2) [OF T(1) x] and C = page_clear [OF T(1) x]
  show ?thesis
  proof (cases "accessed p s x")
    case False
    then have "age_loop (Suc k) p ?d (Some x) s = age_loop k p ?d (case bs of [] \<Rightarrow> None | y # _ \<Rightarrow> Some y) t"
      using R T(2,3) paging_next(1) [OF T(1)] unfolding age_loop.simps Let_def t_def [symmetric] by simp
    then show ?thesis using T(1-3) ct False by (intro exI [of _ t]) (auto simp: aged_def)
  next
    case True
    define u where "u = upd_proc p (upd_link x ?g) (cleared p x t)"
    have U: "paging E p u (as @ x # bs)" "\<And>k j. pflag k p u j = pflag k p (cleared p x t) j" "pgdir (prc p u) = ?d"
      "\<And>j. lnk p j u = (if j = x then ?g (lnk p x (cleared p x t)) else lnk p j (cleared p x t))"
      unfolding u_def using page_data [OF C(2) x, of ?g] C(4) T(3) by simp_all
    have "counter p u j = (if j = x then aged True (counter p s x) else counter p s j)" for j
      using ct [of j] counter_cleared [of p p x t j] by (auto simp: counter_def U(4) aged_def)
    moreover have "age_loop (Suc k) p ?d (Some x) s = age_loop k p ?d (case bs of [] \<Rightarrow> None | y # _ \<Rightarrow> Some y) u"
      using R C(1) T(2,3) True paging_next(1) [OF U(1)] unfolding age_loop.simps Let_def t_def [symmetric] u_def by simp
    ultimately show ?thesis using U(1-3) C(3) T(2) True by (intro exI [of _ u]) auto
  qed
qed

lemma age_loop_ages:
  assumes "paging E p s (as @ xs)" "length xs \<le> k" "d = pgdir (prc p s)"
  shows "\<exists>s'. age_loop k p d (case xs of [] \<Rightarrow> None | y # _ \<Rightarrow> Some y) s = Inr ((), s') \<and> paging E p s' (as @ xs) \<and>
    (\<forall>i \<in> set (as @ xs). is_user p s' i = is_user p s i \<and> accessed p s' i = (accessed p s i \<and> i \<notin> set xs)) \<and>
    (\<forall>i. counter p s' i = (if i \<in> set xs then aged (accessed p s i) (counter p s i) else counter p s i))"
  using assms
proof (induction xs arbitrary: s as k)
  case (Cons x xs)
  then obtain k' where k: "k = Suc k'" "length xs \<le> k'" by (cases k) auto
  obtain t where t: "age_loop k p d (Some x) s = age_loop k' p d (case xs of [] \<Rightarrow> None | y # _ \<Rightarrow> Some y) t"
    "paging E p t (as @ x # xs)" "pgdir (prc p t) = d"
    "\<forall>i \<in> set (as @ x # xs). is_user p t i = is_user p s i \<and> accessed p t i = (accessed p s i \<and> i \<noteq> x)"
    "\<forall>i. counter p t i = (if i = x then aged (accessed p s x) (counter p s x) else counter p s i)"
    using age_step [OF Cons.prems(1), of k'] Cons.prems(3) unfolding k(1) by blast
  have x: "x \<notin> set xs" using pagingD(2) [OF t(2)] by (auto simp: ram_list_def)
  have "\<exists>u. age_loop k' p d (case xs of [] \<Rightarrow> None | y # _ \<Rightarrow> Some y) t = Inr ((), u) \<and> paging E p u ((as @ [x]) @ xs) \<and>
    (\<forall>i \<in> set ((as @ [x]) @ xs). is_user p u i = is_user p t i \<and> accessed p u i = (accessed p t i \<and> i \<notin> set xs)) \<and>
    (\<forall>i. counter p u i = (if i \<in> set xs then aged (accessed p t i) (counter p t i) else counter p t i))"
    by (rule Cons.IH) (use t(2,3) k(2) in simp_all)
  then obtain u where u: "age_loop k' p d (case xs of [] \<Rightarrow> None | y # _ \<Rightarrow> Some y) t = Inr ((), u)" "paging E p u (as @ x # xs)"
    "\<forall>i \<in> set (as @ x # xs). is_user p u i = is_user p t i \<and> accessed p u i = (accessed p t i \<and> i \<notin> set xs)"
    "\<forall>i. counter p u i = (if i \<in> set xs then aged (accessed p t i) (counter p t i) else counter p t i)"
    by auto
  have "age_loop k p d (Some x) s = Inr ((), u)" unfolding t(1) by (rule u(1))
  moreover have "counter p u i = (if i \<in> set (x # xs) then aged (accessed p s i) (counter p s i) else counter p s i)" for i
    using u(4) t(4,5) x by auto
  ultimately show ?case using u(2,3) t(4) by (intro exI [of _ u]) auto
qed simp

section \<open>Properties\<close>

text \<open>A process with three pages in memory: the first and the third were accessed.\<close>

definition demo_paging :: kernel where
  "demo_paging = demo_kernel\<lparr>pmem := (\<lambda>pa i.
       if pa = 0xDFF0000 \<and> i = 0 then 0xDFF1007
       else if pa = 0xDFF1000 \<and> i = 0 then 0xDFF2027
       else if pa = 0xDFF1000 \<and> i = 1 then 0xDFF3007
       else if pa = 0xDFF1000 \<and> i = 2 then 0xDFF4027 else 0),
     referenceCounters := (\<lambda>_. 1), curp := Some 0,
     ptable := replicate 64 (demo_proc\<lparr>pgdir := 0x8DFF0000\<rparr>)\<rparr>"

lemma demo_paging_simps:
  "prc 0 demo_paging = demo_proc\<lparr>pgdir := 0x8DFF0000\<rparr>" "curp demo_paging = Some 0" "global_pgdir_flag demo_paging = False"
  by (simp_all add: demo_paging_def prc_def demo_kernel_def)

lemma demo_vaddr: "i < 3 \<Longrightarrow> vaddr 0 i demo_paging = of_nat i * 4096"
  by (simp add: vaddr_def lnk_def demo_paging_simps link_def demo_proc_def demo_links_def)

lemma demo_pflag:
  "pflag k 0 demo_paging 0 = bit (0xDFF2027 :: u32) k" "pflag k 0 demo_paging (Suc 0) = bit (0xDFF3007 :: u32) k"
  "pflag k 0 demo_paging 2 = bit (0xDFF4027 :: u32) k"
  using demo_vaddr [of 0] demo_vaddr [of 1] demo_vaddr [of 2]
  by (simp_all add: pflag_def demo_paging_simps pte_of_def pde_of_def PDX_def PTX_def)
    (simp_all add: demo_paging_def V2P_def PTE_ADDR_def)

lemma demo_pt_tree: "pt_ok 0x8DFF0000 0x8DFF0000 demo_paging" "present 0x8DFF0000 demo_paging = {0}"
proof -
  show p: "present 0x8DFF0000 demo_paging = {0}"
    by (auto simp: present_def pde_of_def demo_paging_def V2P_def)
  have "tab 0x8DFF0000 demo_paging 0 = 0x8DFF1000"
    by (simp add: tab_def pde_of_def demo_paging_def V2P_def P2V_def PTE_ADDR_def)
  moreover have "refs demo_paging v = 1" for v by (simp add: refs_def demo_paging_def)
  ultimately show "pt_ok 0x8DFF0000 0x8DFF0000 demo_paging"
    by (simp add: pt_ok_def pt_frames_def p freeable_def V2P_def)
qed

lemma demo_paging_ok: "paging 0x8DFF0000 0 demo_paging [0, 1, 2]"
  using demo_list demo_pt_tree demo_vaddr [of 0] demo_vaddr [of 1] demo_vaddr [of 2]
  by (simp add: paging_def demo_paging_simps ram_list_def PDX_def) (simp add: demo_paging_def demo_kernel_def)

text \<open>
  Property C16 (second chance). When at least two pages are in memory and one of them is a user page, \<open>choosePageToSwap\<close>
  under SCFIFO returns: it takes the first user page of the list that was not accessed, or, when all
  user pages were accessed, the first user page. The list is only turned, with the chosen page at its
  head, and accessed flags are only ever cleared.
\<close>

theorem scfifo_second_chance:
  assumes "paging E p s xs" "2 \<le> length xs" "\<exists>i \<in> set xs. is_user p s i" "curp s = Some p"
    "\<not> global_pgdir_flag s" "SELECTION C = SCFIFO"
  shows "\<exists>v s' n. choosePageToSwap C s = Inr (Some v, s') \<and>
    v = hd (filter (\<lambda>i. is_user p s i \<and> \<not> accessed p s i) xs @ filter (is_user p s) xs) \<and>
    paging E p s' (rotate n xs) \<and> hd (rotate n xs) = v \<and>
    (\<forall>i \<in> set xs. is_user p s' i = is_user p s i \<and> (accessed p s' i \<longrightarrow> accessed p s i))"
proof -
  have "page_list_head_ram (prc p s) = Some (hd xs)"
    using pagingD(2) [OF assms(1)] assms(2) by (cases xs) (auto simp: ram_list_def)
  moreover have "2 * length xs \<le> 65" using ram_list_length [OF pagingD(2) [OF assms(1)]] by simp
  ultimately show ?thesis
    using scfifo_chooses [OF assms(1-3), of 65] assms(4-6)
    by (auto simp: choosePageToSwap_def myproc_def cur_pgdir_def simp del: scfifo.simps)
qed

theorem scfifo_second_chance_witness:
  "\<exists>s' n. choosePageToSwap demo_conf demo_paging = Inr (Some 1, s') \<and> hd (rotate n [0 :: nat, 1, 2]) = 1"
  using scfifo_second_chance [OF demo_paging_ok, of demo_conf]
  by (auto simp: demo_paging_simps demo_pflag demo_conf_def)

text \<open>
  Property C18 (when the second-chance loop ends). On a list of at least two pages the loop ends if and only if one of
  them is a user page; on a process without user pages in memory the kernel turns the list for ever.
\<close>

theorem scfifo_terminates:
  assumes "paging E p s xs" "2 \<le> length xs"
  shows "(\<exists>k. scfifo k p (pgdir (prc p s)) (Some (hd xs)) s \<noteq> Inl Diverge) \<longleftrightarrow> (\<exists>i \<in> set xs. is_user p s i)"
proof (cases "\<exists>i \<in> set xs. is_user p s i")
  case True
  then have "scfifo (2 * length xs) p (pgdir (prc p s)) (Some (hd xs)) s \<noteq> Inl Diverge"
    using scfifo_chooses [OF assms True order_refl] by auto
  then show ?thesis using True by blast
next
  case False
  then show ?thesis using scfifo_turns [OF assms _ refl] by blast
qed

theorem scfifo_terminates_witness: "\<exists>k. scfifo k 0 0x8DFF0000 (Some 0) demo_paging \<noteq> Inl Diverge"
  using scfifo_terminates [OF demo_paging_ok] demo_pflag [of 2] by (simp add: demo_paging_simps)

text \<open>
  Property C17 (the advancing queue). \<open>switchQueueAQ\<close> on the pages of the current process ends and refines
  one pass on the sequence: each accessed page changes places with the page behind it if that page
  was not accessed, so that of several accessed pages in a row only the last one moves. (The comment above the
  function announces an exchange for every accessed page.) All accessed flags of the list are cleared, and whether
  a page is a user page does not change.
\<close>

theorem aq_refines:
  assumes "paging E p s xs" "xs \<noteq> []" "curp s = Some p"
  shows "\<exists>s'. switchQueueAQ (pgdir (prc p s)) s = Inr ((), s') \<and> paging E p s' (advance (accessed p s) xs) \<and>
    (\<forall>i \<in> set xs. \<not> accessed p s' i \<and> is_user p s' i = is_user p s i)"
proof -
  have h: "page_list_head_ram (prc p s) = Some (hd xs)"
    using pagingD(2) [OF assms(1)] assms(2) by (cases xs) (auto simp: ram_list_def)
  have k: "2 * length xs \<le> 65" using ram_list_length [OF pagingD(2) [OF assms(1)]] by simp
  let ?l = "last (advance (accessed p s) xs)"
  have "advanced E p (accessed p s) [] xs s (aq_loop 65 p (pgdir (prc p s)) (Some (hd xs)) s)"
    by (rule aq_loop_advances) (use assms k in simp_all)
  then obtain t where t: "aq_loop 65 p (pgdir (prc p s)) (Some (hd xs)) s = Inr (Some ?l, t)"
    "paging E p t (advance (accessed p s) xs)" "pgdir (prc p t) = pgdir (prc p s)"
    "\<forall>i \<in> set xs. is_user p t i = is_user p s i \<and> (accessed p t i \<longrightarrow> i = ?l)"
    unfolding advanced_def by auto
  have "?l \<in> set (advance (accessed p s) xs)" using assms(2) by (simp del: set_advance)
  note C = page_clear [OF t(2) this]
  have "switchQueueAQ (pgdir (prc p s)) s = Inr ((), cleared p ?l t)"
    using h t(1,3) C(1) assms(3) by (simp add: switchQueueAQ_def myproc_def del: aq_loop.simps)
  then show ?thesis using C(2,3) t(4) by auto
qed

theorem aq_refines_witness:
  "\<exists>s'. switchQueueAQ 0x8DFF0000 demo_paging = Inr ((), s') \<and> paging 0x8DFF0000 0 s' [1, 0, 2]"
proof -
  have "advance (accessed 0 demo_paging) [0, 1, 2] = [1, 0, 2]" by (simp add: demo_pflag)
  then show ?thesis using aq_refines [OF demo_paging_ok] by (auto simp: demo_paging_simps)
qed

text \<open>
  Property C19 (aging). Under NFUA and LAPA \<open>update_meta_data\<close> shifts the counter of every page in memory one to
  the right, enters the accessed flag of the page as the top bit and clears that flag; the list, the user flags and
  the counters of all other links stay.
\<close>

theorem aging_step:
  assumes "paging E p s xs" "curp s = Some p" "SELECTION C = NFUA \<or> SELECTION C = LAPA"
  shows "\<exists>s'. update_meta_data C s = Inr ((), s') \<and> paging E p s' xs \<and>
    (\<forall>i \<in> set xs. \<not> accessed p s' i \<and> is_user p s' i = is_user p s i) \<and>
    (\<forall>i. counter p s' i = (if i \<in> set xs then drop_bit 1 (counter p s i) OR (if accessed p s i then 0x80000000 else 0)
      else counter p s i))"
proof -
  have h: "page_list_head_ram (prc p s) = (case xs of [] \<Rightarrow> None | y # _ \<Rightarrow> Some y)"
    using pagingD(2) [OF assms(1)] by (cases xs) (auto simp: ram_list_def)
  obtain s' where "age_loop 32 p (pgdir (prc p s)) (case xs of [] \<Rightarrow> None | y # _ \<Rightarrow> Some y) s = Inr ((), s')" "paging E p s' xs"
    "\<forall>i \<in> set xs. is_user p s' i = is_user p s i \<and> accessed p s' i = (accessed p s i \<and> i \<notin> set xs)"
    "\<forall>i. counter p s' i = (if i \<in> set xs then aged (accessed p s i) (counter p s i) else counter p s i)"
    using age_loop_ages [of E p s "[]" xs 32 "pgdir (prc p s)"] assms(1) ram_list_length [OF pagingD(2) [OF assms(1)]] by auto
  then show ?thesis using h assms(2,3) by (auto simp: update_meta_data_def myproc_def aged_def simp del: age_loop.simps)
qed

theorem aging_step_witness:
  "\<exists>s'. update_meta_data (demo_conf\<lparr>SELECTION := NFUA\<rparr>) demo_paging = Inr ((), s') \<and>
     counter 0 s' 0 = 0x80000000 \<and> counter 0 s' 1 = 0"
proof -
  have "counter 0 demo_paging 0 = 0" "counter 0 demo_paging 1 = 0"
    by (simp_all add: counter_def lnk_def demo_paging_simps link_def demo_proc_def demo_links_def)
  then show ?thesis
    using aging_step [OF demo_paging_ok, of "demo_conf\<lparr>SELECTION := NFUA\<rparr>"] by (auto simp: demo_paging_simps demo_pflag)
qed

text \<open>
  Property C20 (the other policies). LIFO takes the last page of the list. NFUA takes a page whose counter is
  smallest among the head of the list, user page or not, and the user pages behind it. LAPA takes the head of the
  list whatever the counters are, because its test for the first pages is true of every page. All three return and
  change nothing.
\<close>

theorem choosePageToSwap_picks:
  assumes "paging E p s xs" "xs \<noteq> []" "curp s = Some p" "\<not> global_pgdir_flag s"
  shows "(SELECTION C = LIFO \<longrightarrow> choosePageToSwap C s = Inr (Some (last xs), s)) \<and>
    (SELECTION C = NFUA \<longrightarrow> (\<exists>v. choosePageToSwap C s = Inr (Some v, s) \<and> v \<in> set (hd xs # filter (is_user p s) (tl xs)) \<and>
       (\<forall>j \<in> set (hd xs # filter (is_user p s) (tl xs)). counter p s v \<le> counter p s j))) \<and>
    (SELECTION C = LAPA \<longrightarrow> choosePageToSwap C s = Inr (Some (hd xs), s))"
proof -
  obtain x bs where xs: "xs = x # bs" using assms(2) by (cases xs) auto
  have P: "paging E p s ([] @ x # bs)" using assms(1) xs by simp
  have l: "dll (pages_meta_data (prc p s)) None (Some x) xs" and h: "page_list_head_ram (prc p s) = Some x"
    using pagingD(2) [OF assms(1)] xs by (auto simp: ram_list_def)
  have n: "length xs \<le> 32" "length bs < 32" using ram_list_length [OF pagingD(2) [OF assms(1)]] xs by simp_all
  have ch: "choosePageToSwap C s = bindr (case SELECTION C of
      LIFO \<Rightarrow> bindr (last_link (pages_meta_data (prc p s)) 32 x) (\<lambda>i. Inr (i, s))
    | NFUA \<Rightarrow> nfua_from 32 p x x s
    | LAPA \<Rightarrow> lapa_from 32 p x x (numOfOnes (shiftCounter (pl_page (lnk p x s)))) s
    | SCFIFO \<Rightarrow> scfifo 65 p (pgdir (prc p s)) (Some x) s
    | AQ \<Rightarrow> Inr (x, s) | NONE \<Rightarrow> Inr (x, s)) (\<lambda>(i, s). Inr (Some i, s))"
    unfolding choosePageToSwap_def using assms(3,4) h by (simp add: myproc_def cur_pgdir_def)
  obtain v where v: "nfua_from 32 p x x s = Inr (v, s)" "v \<in> set (x # filter (is_user p s) bs)"
    "\<forall>j \<in> set (x # filter (is_user p s) bs). counter p s v \<le> counter p s j"
    using nfua_least [OF P n(2), of x] by blast
  show ?thesis
  proof (intro conjI impI)
    assume "SELECTION C = LIFO"
    then show "choosePageToSwap C s = Inr (Some (last xs), s)"
      unfolding ch using last_link_dll [OF l n(1)] by simp
  next
    assume "SELECTION C = NFUA"
    then have "choosePageToSwap C s = Inr (Some v, s)" unfolding ch using v(1) by simp
    then show "\<exists>v. choosePageToSwap C s = Inr (Some v, s) \<and> v \<in> set (hd xs # filter (is_user p s) (tl xs)) \<and>
       (\<forall>j \<in> set (hd xs # filter (is_user p s) (tl xs)). counter p s v \<le> counter p s j)"
      using v(2,3) xs by auto
  next
    assume "SELECTION C = LAPA"
    then show "choosePageToSwap C s = Inr (Some (hd xs), s)" unfolding ch using lapa_head [OF P n(2)] xs by simp
  qed
qed

theorem choosePageToSwap_picks_witness:
  "choosePageToSwap (demo_conf\<lparr>SELECTION := LIFO\<rparr>) demo_paging = Inr (Some 2, demo_paging)"
  using choosePageToSwap_picks [OF demo_paging_ok, of "demo_conf\<lparr>SELECTION := LIFO\<rparr>"] by (simp add: demo_paging_simps)

end
