(* ===== verification/Demand.thy ===== *)
theory Demand
  imports Swapin Replacement
begin

text \<open>
  Demand paging (\<open>swapPages\<close> of \<open>vm.c\<close>, called for a fault on a page in the swap file): one page goes out, the wanted one comes in.
\<close>

unbundle bit_operations_syntax

text \<open>Page \<open>j\<close> of process \<open>p\<close> is in slot \<open>h\<close> of the swap file.\<close>

definition on_disk :: "nat \<Rightarrow> nat \<Rightarrow> nat \<Rightarrow> nat \<Rightarrow> nat list \<Rightarrow> kernel \<Rightarrow> bool" where
  "on_disk p j h ip ls s \<longleftrightarrow>
     (let d = pgdir (prc p s); va = vaddr p j s in
      PGROUNDDOWN va = va \<and> \<not> bit (pte_of d va s) 0 \<and> bit (pte_of d va s) 9 \<and> j < 32 \<and> j \<notin> set ls \<and>
      offset_in_file (pl_page (lnk p j s)) = PGSIZE * word_of_nat h \<and> h < 17 \<and> 4096 * h + 4096 \<le> length (fdata ip s))"

lemma paged_out_waiting:
  assumes can: "can_page_out E p i k f ip s" and out: "paged_out E p i k f ip s t" and r: "ram_list (prc p s) (as @ i # bs)" "as @ bs \<noteq> []"
    and j: "on_disk p j h ip (as @ i # bs) s" "h \<noteq> k"
  shows "can_page_in E p j h f ip (as @ bs) t" "vaddr p j t = vaddr p j s" "swap_page ip h t = swap_page ip h s"
    "unat (vaddr p j s) div 4096 \<noteq> unat (vaddr p i s) div 4096"
proof -
  let ?d = "pgdir (prc p s)" and ?va = "vaddr p j s"
  note c = can [unfolded can_page_out_def Let_def] and o = out [unfolded paged_out_def Let_def] and D = j(1) [unfolded on_disk_def Let_def]
  note I = paged_out_can_page_in [OF can out r, unfolded can_page_in_def Let_def]
  have i: "i < length (pages_meta_data (prc p s))" using c by (elim conjE)
  have w: "bit (pte_of ?d (vaddr p i s) s) 0" using c by (elim conjE)
  have ji: "j \<noteq> i" using D by auto
  have pp: "prc p t = gone_out i k (prc p s)" using o by (elim conjE)
  have lj: "pl_page (lnk p j t) = pl_page (lnk p j s)" using gone_out_facts(1) [OF i, of j k] ji by (simp add: lnk_def pp)
  then show v: "vaddr p j t = ?va" by (simp add: vaddr_def)
  show n: "unat ?va div 4096 \<noteq> unat (vaddr p i s) div 4096" using D w pte_of_same_page [of ?va "vaddr p i s" ?d s] by auto
  have "\<forall>a. pte_of ?d a t = (if unat a div 4096 = unat (vaddr p i s) div 4096 then swapped (pte_of ?d (vaddr p i s) s) else pte_of ?d a s)" using o by (elim conjE)
  then have pt: "pte_of ?d ?va t = pte_of ?d ?va s" using n by simp
  have P: "PDX ?va \<in> present ?d t"
  proof (rule ccontr)
    assume "PDX ?va \<notin> present ?d t"
    then have "pte_of ?d ?va t = 0" by (simp add: pte_of_def present_PDX)
    then show False using D by (simp add: pt)
  qed
  show sw: "swap_page ip h t = swap_page ip h s" using I(6) [of h] j(2) D by simp
  have "fdata ip t = overwrite (4096 * k) (page_bytes ?d (vaddr p i s) s) (fdata ip s)" using o by (elim conjE)
  moreover have "4096 * k \<le> length (fdata ip s)" using c by (elim conjE)
  ultimately have fl: "length (fdata ip s) \<le> length (fdata ip t)" using overwrite_nth(1) by simp
  note J = I(1)
  have "curp t = Some p" "p < length (ptable t)" "\<not> global_pgdir_flag t" "space_ok E ?d t" "ram_list (prc p t) (as @ bs)"
    "swapFile (prc p t) = Some f" "open_file f ip t" using J I(2) by simp_all
  then show "can_page_in E p j h f ip (as @ bs) t"
    unfolding can_page_in_def Let_def I(2) v lj pt using D P fl r(2) by simp
qed

text \<open>One page out and one in, once the victim is chosen.\<close>

lemma swapPages_chosen:
  assumes "choosePageToSwap C s0 = Inr (Some i, s)"
    and "can_page_out (conf_end C) p i k f ip s" "kmem_ok (conf_end C) s xs"
    and "ram_list (prc p s) (as @ i # bs)" "as @ bs \<noteq> []"
    and "xs \<noteq> [] \<or> refs s (uframe (pgdir (prc p s)) (vaddr p i s) s) = 1"
    and "find_page addr (prc p s) = Some j" "on_disk p j h ip (as @ i # bs) s" "h \<noteq> k"
  shows "\<exists>u. swapPages C addr s0 = Inr (0, u) \<and>
    (\<forall>a. unat a div 4096 = unat addr div 4096 \<longrightarrow>
       bit (pte_of (pgdir (prc p s)) a u) 0 \<and> ubyte (pgdir (prc p s)) a u = swap_page ip h s ! (unat a mod 4096)) \<and>
    \<not> bit (pte_of (pgdir (prc p s)) (vaddr p i s) u) 0 \<and> bit (pte_of (pgdir (prc p s)) (vaddr p i s) u) 9 \<and>
    swap_page ip k u = page_bytes (pgdir (prc p s)) (vaddr p i s) s \<and>
    (\<forall>a. a < KERNBASE \<and> bit (pte_of (pgdir (prc p s)) a s) 0 \<and> unat a div 4096 \<noteq> unat (vaddr p i s) div 4096 \<longrightarrow>
       bit (pte_of (pgdir (prc p s)) a u) 0 \<and> ubyte (pgdir (prc p s)) a u = ubyte (pgdir (prc p s)) a s) \<and>
    ram_list (prc p u) (as @ bs @ [j]) \<and> kmem_inv (conf_end C) u \<and> space_ok (conf_end C) (pgdir (prc p s)) u"
proof -
  let ?E = "conf_end C" and ?d = "pgdir (prc p s)" and ?va = "vaddr p i s"
  have v: "vaddr p j s = addr" using find_page_Some [OF assms(7)] by (simp add: vaddr_def lnk_def)
  have cp: "curp s = Some p" using assms(2) [unfolded can_page_out_def Let_def] by (elim conjE)
  obtain t ys where t: "moveToDisk C (Some i) s = Inr (0, t)" "paged_out ?E p i k f ip s t" "kmem_ok ?E t ys" "ys \<noteq> []"
    using moveToDisk_ok [OF assms(2,3)] assms(6) by blast
  then obtain y zs where y: "kmem_ok ?E t (y # zs)" by (cases ys) auto
  note I = paged_out_can_page_in [OF assms(2) t(2) assms(4,5)] and W = paged_out_waiting [OF assms(2) t(2) assms(4,5,8,9), unfolded v]
  obtain u where u: "getPageFromFile C p j t = Inr (0, u)" "paged_in ?E p j h ip (as @ bs) t u" "kmem_ok ?E u zs"
    using getPageFromFile_ok [OF W(1) y] by blast
  note o = paged_outD [OF t(2)] and n = paged_inD [OF u(2), unfolded I(2) W(2)]
  have run: "swapPages C addr s0 = Inr (0, u)"
    using assms(1,7) cp t(1) u(1) by (simp add: swapPages_def myproc_def)
  have new: "\<forall>a. unat a div 4096 = unat addr div 4096 \<longrightarrow> bit (pte_of ?d a u) 0 \<and> ubyte ?d a u = swap_page ip h s ! (unat a mod 4096)"
    using n(2) W(3) by simp
  have out: "\<not> bit (pte_of ?d ?va u) 0" "bit (pte_of ?d ?va u) 9" using o(1) [of ?va] n(3) [of ?va] W(4) swapped_bits(2,3) by simp_all
  have sl: "swap_page ip k u = page_bytes ?d ?va s" using I(4) same_files_facts(3) [OF n(6)] by (simp add: swap_page_def)
  have old: "bit (pte_of ?d a u) 0 \<and> ubyte ?d a u = ubyte ?d a s"
    if a: "a < KERNBASE" "bit (pte_of ?d a s) 0" "unat a div 4096 \<noteq> unat ?va div 4096" for a
  proof -
    have e: "pte_of ?d a t = pte_of ?d a s" using o(1) a(3) by simp
    have "\<not> bit (pte_of ?d addr s) 0" using assms(8) by (simp add: on_disk_def v Let_def)
    then have "unat a div 4096 \<noteq> unat addr div 4096" using a(2) pte_of_same_page [of a addr ?d s] by auto
    then show ?thesis using n(3) [of a] n(4) [of a] o(3) [of a] e a by simp
  qed
  have inv: "kmem_inv ?E u" using u(3) by (auto simp: kmem_inv_def)
  show ?thesis using run new out sl old n(1) [unfolded append_assoc] inv n(5)
    by (intro exI [of _ u] conjI allI impI) (assumption | elim conjE allE impE | blast)+
qed

section \<open>Choosing the victim\<close>

text \<open>What the choice of a victim may change: the order of the list and the accessed flags.\<close>

definition kept :: "u32 \<Rightarrow> nat \<Rightarrow> kernel \<Rightarrow> kernel \<Rightarrow> bool" where
  "kept E p s t \<longleftrightarrow>
     (let d = pgdir (prc p s) in
      same_fs s t \<and> curp t = curp s \<and> global_pgdir_flag t = global_pgdir_flag s \<and> cr3 t = cr3 s \<and> length (ptable t) = length (ptable s) \<and>
      links_only (prc p s) (prc p t) \<and> refs t = refs s \<and> (\<forall>xs. kmem_ok E s xs \<longrightarrow> kmem_ok E t xs) \<and>
      pt_frames d t = pt_frames d s \<and> tab d t = tab d s \<and> present d t = present d s \<and>
      (\<forall>w. w \<notin> pt_frames d s \<longrightarrow> pmem t (V2P w) = pmem s (V2P w)) \<and>
      (\<forall>a n. n \<noteq> 5 \<longrightarrow> bit (pte_of d a t) n = bit (pte_of d a s) n))"

lemma kept_refl: "kept E p s s"
  by (simp add: kept_def same_fs_def)

lemma keptD:
  assumes "kept E p s t"
  shows "same_fs s t" "links_only (prc p s) (prc p t)" "kmem_ok E s xs \<Longrightarrow> kmem_ok E t xs"
    "w \<notin> pt_frames (pgdir (prc p s)) s \<Longrightarrow> pmem t (V2P w) = pmem s (V2P w)"
    "n \<noteq> 5 \<Longrightarrow> bit (pte_of (pgdir (prc p s)) a t) n = bit (pte_of (pgdir (prc p s)) a s) n"
    "pgdir (prc p t) = pgdir (prc p s)"
    "curp t = curp s" "global_pgdir_flag t = global_pgdir_flag s" "cr3 t = cr3 s" "length (ptable t) = length (ptable s)" "refs t = refs s"
    "pt_frames (pgdir (prc p s)) t = pt_frames (pgdir (prc p s)) s" "tab (pgdir (prc p s)) t = tab (pgdir (prc p s)) s"
    "present (pgdir (prc p s)) t = present (pgdir (prc p s)) s"
  using assms links_onlyD(2) [of "prc p s" "prc p t"] unfolding kept_def Let_def by simp_all

lemma kept_trans:
  assumes "kept E p s t" "kept E p t u"
  shows "kept E p s u"
proof -
  note a = keptD [OF assms(1)] and b = keptD [OF assms(2)]
  have "same_fs s u" by (rule same_fs_trans [OF a(1) b(1)])
  moreover have "links_only (prc p s) (prc p u)" by (rule links_only_trans [OF a(2) b(2)])
  moreover have "\<forall>xs. kmem_ok E s xs \<longrightarrow> kmem_ok E u xs" using a(3) b(3) by simp
  moreover have "\<forall>w. w \<notin> pt_frames (pgdir (prc p s)) s \<longrightarrow> pmem u (V2P w) = pmem s (V2P w)"
    using a(4) b(4) [unfolded a(6) a(12)] by simp
  moreover have "\<forall>v n. n \<noteq> 5 \<longrightarrow> bit (pte_of (pgdir (prc p s)) v u) n = bit (pte_of (pgdir (prc p s)) v s) n"
    using a(5) b(5) [unfolded a(6)] by simp
  ultimately show ?thesis unfolding kept_def Let_def
    by (intro conjI) (assumption | simp only: a(7-14) b(7-14) [unfolded a(6)])+
qed

lemma kept_cleared:
  assumes P: "paging E p s xs" and i: "i \<in> set xs"
  shows "kept E p s (cleared p i s)"
proof -
  let ?d = "pgdir (prc p s)" and ?va = "vaddr p i s"
  let ?w = "pte_of ?d ?va s AND NOT PTE_A"
  note T = pagingD(3) [OF P] pagingD(4) [OF P i]
  have e: "cleared p i s = set_pte ?d ?va ?w s" by (simp add: cleared_def)
  have t: "tab ?d s (PDX ?va) \<in> pt_frames ?d s" using T(2) by (simp add: pt_frames_def)
  have "pmem (set_pte ?d ?va ?w s) (V2P w) = pmem s (V2P w)" if "w \<notin> pt_frames ?d s" for w
    by (rule set_pte_other) (use t that in auto)
  moreover have "bit (pte_of ?d a (set_pte ?d ?va ?w s)) n = bit (pte_of ?d a s) n" if "n \<noteq> 5" for a n
    unfolding pte_of_set_pte [OF T] using that pte_of_same_page [of a ?va ?d s] by (auto simp only: bit_and_clear bit_32 split: if_splits)
  moreover have "refs (set_pte ?d ?va ?w s) = refs s" by (simp add: fun_eq_iff set_pte_def)
  moreover have "cr3 (set_pte ?d ?va ?w s) = cr3 s" "global_pgdir_flag (set_pte ?d ?va ?w s) = global_pgdir_flag s"
    by (simp_all add: set_pte_def store_def)
  ultimately show ?thesis unfolding kept_def Let_def e
    using same_fs_intros(5) set_pte_tree [OF T] set_pte_kmem [OF _ T] by simp
qed

lemma kept_requeue:
  assumes P: "paging E p s xs" and n: "2 \<le> length xs" and r: "requeue p (hd xs) s = Inr ((), t)"
  shows "kept E p s t"
proof -
  obtain q where q: "addPageToList (hd xs) (removePageFromList (hd xs) (prc p s)) = Inr q" "links_only (prc p s) q"
    using plist.rotation [OF pagingD(2) [OF P] n] by blast
  then have t: "t = upd_proc p (\<lambda>_. q) s" using r by (simp add: requeue_def)
  have sm: "same_mem s t" unfolding t by (rule same_mem_intros)
  have "prc p t = q" "length (ptable t) = length (ptable s)" using pagingD(1) [OF P] by (simp_all add: t)
  moreover have "curp t = curp s" "cr3 t = cr3 s" "global_pgdir_flag t = global_pgdir_flag s" by (simp_all add: t upd_proc_def)
  moreover have "same_fs s t" unfolding t by (rule same_fs_intros)
  moreover have "pmem t = pmem s" using sm by (simp add: same_mem_def)
  ultimately show ?thesis using q(2) same_mem_facts [OF sm] by (simp add: kept_def)
qed

lemma scfifo_keeps:
  assumes "paging E p s xs" "2 \<le> length xs" "scfifo k p (pgdir (prc p s)) (Some (hd xs)) s = Inr (i, t)"
  shows "kept E p s t \<and> i \<in> set xs"
  using assms
proof (induction k arbitrary: s xs)
  case (Suc k)
  let ?d = "pgdir (prc p s)" and ?x = "hd xs"
  have x: "?x \<in> set xs" using Suc.prems(2) by (cases xs) auto
  note P = Suc.prems(1) and R = page_reads [OF P x] and C = page_clear [OF P x]
  have turn: "kept E p v t \<and> i \<in> set xs"
    if v: "paging E p v xs" "pgdir (prc p v) = ?d"
      and run: "bindr (requeue p ?x v) (\<lambda>(_, s). scfifo k p ?d (page_list_head_ram (prc p s)) s) = Inr (i, t)" for v
  proof -
    obtain u where u: "requeue p ?x v = Inr ((), u)" "paging E p u (rotate1 xs)" "page_list_head_ram (prc p u) = Some (hd (rotate1 xs))"
      "pgdir (prc p u) = pgdir (prc p v)" using page_requeue [OF v(1) Suc.prems(2)] by blast
    have "scfifo k p (pgdir (prc p u)) (Some (hd (rotate1 xs))) u = Inr (i, t)" using run u v(2) by simp
    from Suc.IH [OF u(2) _ this] have "kept E p u t" "i \<in> set xs" using Suc.prems(2) by simp_all
    then show ?thesis using kept_trans [OF kept_requeue [OF v(1) Suc.prems(2) u(1)]] by simp
  qed
  show ?case
  proof (cases "is_user p s ?x \<and> \<not> accessed p s ?x")
    case True
    then show ?thesis using Suc.prems(3) R x by (simp add: kept_refl)
  next
    case False
    then show ?thesis
    proof (cases "is_user p s ?x")
      case True
      then have "bindr (requeue p ?x (cleared p ?x s)) (\<lambda>(_, s). scfifo k p ?d (page_list_head_ram (prc p s)) s) = Inr (i, t)"
        using False Suc.prems(3) R C(1) by simp
      from turn [OF C(2) _ this] show ?thesis using C(4) kept_trans [OF kept_cleared [OF P x]] by simp
    next
      case False
      then have "bindr (requeue p ?x s) (\<lambda>(_, s). scfifo k p ?d (page_list_head_ram (prc p s)) s) = Inr (i, t)"
        using Suc.prems(3) R by simp
      from turn [OF P refl this] show ?thesis .
    qed
  qed
qed simp


text \<open>Every policy chooses a page of the list.\<close>

lemma chosen_page:
  assumes P: "paging E p s ls" and n: "2 \<le> length ls" and u: "SELECTION C = SCFIFO \<longrightarrow> (\<exists>i \<in> set ls. is_user p s i)"
    and c: "curp s = Some p" "\<not> global_pgdir_flag s"
  shows "\<exists>i t m. choosePageToSwap C s = Inr (Some i, t) \<and> i \<in> set ls \<and> kept E p s t \<and> paging E p t (rotate m ls)"
proof -
  obtain x bs where xs: "ls = x # bs" using n by (cases ls) auto
  have P': "paging E p s ([] @ x # bs)" using P xs by simp
  have l: "dll (pages_meta_data (prc p s)) None (Some x) ls" and h: "page_list_head_ram (prc p s) = Some x"
    using pagingD(2) [OF P] xs by (auto simp: ram_list_def)
  have k: "length ls \<le> 32" "length bs < 32" using ram_list_length [OF pagingD(2) [OF P]] xs by simp_all
  have ch: "choosePageToSwap C s = bindr (case SELECTION C of
      LIFO \<Rightarrow> bindr (last_link (pages_meta_data (prc p s)) 32 x) (\<lambda>i. Inr (i, s))
    | NFUA \<Rightarrow> nfua_from 32 p x x s
    | LAPA \<Rightarrow> lapa_from 32 p x x (numOfOnes (shiftCounter (pl_page (lnk p x s)))) s
    | SCFIFO \<Rightarrow> scfifo 65 p (pgdir (prc p s)) (Some x) s
    | AQ \<Rightarrow> Inr (x, s) | NONE \<Rightarrow> Inr (x, s)) (\<lambda>(i, s). Inr (Some i, s))"
    unfolding choosePageToSwap_def using c h by (simp add: myproc_def cur_pgdir_def)
  have here: ?thesis if "choosePageToSwap C s = Inr (Some i, s)" "i \<in> set ls" for i
    using that P kept_refl by (intro exI [of _ i] exI [of _ s] exI [of _ 0]) simp
  show ?thesis
  proof (cases "SELECTION C")
    case SCFIFO
    then obtain t m where t: "scfifo 65 p (pgdir (prc p s)) (Some (hd ls)) s =
        Inr (hd (filter (\<lambda>i. is_user p s i \<and> \<not> accessed p s i) ls @ filter (is_user p s) ls), t)" "paging E p t (rotate m ls)"
      using scfifo_chooses [OF P n, of 65] u k by auto
    then have "choosePageToSwap C s = Inr (Some (hd (filter (\<lambda>i. is_user p s i \<and> \<not> accessed p s i) ls @ filter (is_user p s) ls)), t)"
      unfolding ch using SCFIFO xs by (simp del: scfifo.simps filter.simps)
    then show ?thesis using scfifo_keeps [OF P n t(1)] t(2) by blast
  next
    case LIFO
    then have "choosePageToSwap C s = Inr (Some (last ls), s)" unfolding ch using last_link_dll [OF l k(1)] by simp
    then show ?thesis using here xs by simp
  next
    case NFUA
    obtain v where "nfua_from 32 p x x s = Inr (v, s)" "v \<in> set (x # filter (is_user p s) bs)"
      using nfua_least [OF P' k(2), of x] by blast
    then show ?thesis using here [of v] NFUA xs unfolding ch by auto
  next
    case LAPA
    then have "choosePageToSwap C s = Inr (Some x, s)" unfolding ch using lapa_head [OF P' k(2)] by simp
    then show ?thesis using here xs by simp
  qed (use here xs in \<open>simp_all add: ch\<close>)
qed

text \<open>What is still true after the choice.\<close>

lemma find_page_links: "links_only p q \<Longrightarrow> find_page a q = find_page a p"
proof -
  assume l: "links_only p q"
  have e: "find_from (\<lambda>l. page_id (pl_page l) = a) xs n = find_from (\<lambda>x. x = a) (map (\<lambda>l. page_id (pl_page l)) xs) n" for xs n
    by (induction xs arbitrary: n) simp_all
  have "map (\<lambda>l. page_id (pl_page l)) (pages_meta_data q) = map (\<lambda>l. page_id (pl_page l)) (pages_meta_data p)"
    using l by (intro nth_equalityI) (simp_all add: links_only_def link_def)
  then show ?thesis unfolding find_page_def e [of "pages_meta_data q"] e [of "pages_meta_data p"] by (rule arg_cong)
qed

lemma kept_views:
  assumes K: "kept E p s t"
  defines "d \<equiv> pgdir (prc p s)"
  shows "vaddr p j t = vaddr p j s" "pl_page (lnk p j t) = pl_page (lnk p j s)" "uframe d a t = uframe d a s"
    "user_frames d t = user_frames d s" "space_ok E d t = space_ok E d s"
    "uframe d a s \<notin> pt_frames d s \<Longrightarrow> pmem t (PTE_ADDR (pte_of d a t)) = pmem s (PTE_ADDR (pte_of d a s))"
proof -
  note k = keptD [OF K, folded d_def]
  show v: "pl_page (lnk p j t) = pl_page (lnk p j s)" for j using links_onlyD(1) [OF k(2)] by (simp add: lnk_def)
  then show "vaddr p j t = vaddr p j s" by (simp add: vaddr_def)
  have a: "PTE_ADDR (pte_of d a t) = PTE_ADDR (pte_of d a s)" for a
    by (rule bit_eqI) (auto simp: bit_PTE_ADDR k(5))
  then show f: "uframe d a t = uframe d a s" for a by (simp add: uframe_def)
  show u: "user_frames d t = user_frames d s" by (simp add: user_frames_def f k(5))
  show "space_ok E d t = space_ok E d s" by (simp add: space_ok_def pt_ok_def u k(11-14))
  assume "uframe d a s \<notin> pt_frames d s"
  then show "pmem t (PTE_ADDR (pte_of d a t)) = pmem s (PTE_ADDR (pte_of d a s))" using k(4) [of "uframe d a s"] a by (simp add: uframe_def)
qed

lemma kept_waiting:
  assumes K: "kept E p s t"
  shows "can_page_out E p i k f ip s \<Longrightarrow> can_page_out E p i k f ip t" "on_disk p j h ip ls s \<Longrightarrow> set ls' = set ls \<Longrightarrow> on_disk p j h ip ls' t"
    "find_page addr (prc p t) = find_page addr (prc p s)" "swap_page ip h t = swap_page ip h s"
proof -
  note k = keptD [OF K] and V = kept_views [OF K] and F = same_fs_facts [OF keptD(1) [OF K]] and L = links_onlyD [OF keptD(2) [OF K]]
  have n: "nextAvOffset (prc p t) = nextAvOffset (prc p s)" by (simp add: nextAvOffset_def L)
  have l: "length (pages_meta_data (prc p t)) = length (pages_meta_data (prc p s))" using k(2) by (simp add: links_only_def)
  have b: "bit (pte_of (pgdir (prc p s)) a t) 0 = bit (pte_of (pgdir (prc p s)) a s) 0"
    "bit (pte_of (pgdir (prc p s)) a t) 9 = bit (pte_of (pgdir (prc p s)) a s) 9" for a by (simp_all add: k(5))
  show "can_page_out E p i k f ip s \<Longrightarrow> can_page_out E p i k f ip t"
    unfolding can_page_out_def Let_def L(2,6) V(1,3,5) F(2-4,6-8) n l k(7-10) b by assumption
  assume "on_disk p j h ip ls s" "set ls' = set ls"
  then show "on_disk p j h ip ls' t" unfolding on_disk_def Let_def L(2) V(1,2) F(4) b by simp
next
  note k = keptD [OF K] and F = same_fs_facts [OF keptD(1) [OF K]]
  show "find_page addr (prc p t) = find_page addr (prc p s)" by (rule find_page_links [OF k(2)])
  show "swap_page ip h t = swap_page ip h s" by (rule F(9))
qed

lemma can_page_outD:
  assumes "can_page_out E p i k f ip s"
  shows "curp s = Some p" "\<not> global_pgdir_flag s" "space_ok E (pgdir (prc p s)) s" "vaddr p i s < KERNBASE"
    "bit (pte_of (pgdir (prc p s)) (vaddr p i s) s) 0"
  using assms unfolding can_page_out_def Let_def by - (elim conjE, assumption)+

text \<open>
  Property C5 (demand paging). A fault on a page that is in slot \<open>h\<close> of the swap file, in a process with at least two
  pages in memory that can all be written out and with one slot free: the policy chooses a page \<open>i\<close> of the list, and
  \<open>swapPages\<close> returns 0 with the wanted page present and holding the bytes of its slot, page \<open>i\<close> marked as paged out
  with its bytes in the free slot, and every other page of the process still mapped with the bytes it had before the fault, whatever
  pages the policy passed over. The wanted page is last in the list and the others keep their cyclic order. The allocator and
  the page table stay well formed.
\<close>

theorem swapPages_exchanges:
  assumes "paging (conf_end C) p s ls" "2 \<le> length ls" "SELECTION C = SCFIFO \<longrightarrow> (\<exists>i \<in> set ls. is_user p s i)"
    and "\<forall>i \<in> set ls. can_page_out (conf_end C) p i k f ip s" "kmem_ok (conf_end C) s xs"
    and "xs \<noteq> [] \<or> (\<forall>i \<in> set ls. refs s (uframe (pgdir (prc p s)) (vaddr p i s) s) = 1)"
    and "find_page addr (prc p s) = Some j" "on_disk p j h ip ls s" "h \<noteq> k"
  shows "\<exists>i t u m as bs. choosePageToSwap C s = Inr (Some i, t) \<and> rotate m ls = as @ i # bs \<and> swapPages C addr s = Inr (0, u) \<and>
    (\<forall>a. unat a div 4096 = unat addr div 4096 \<longrightarrow>
       bit (pte_of (pgdir (prc p s)) a u) 0 \<and> ubyte (pgdir (prc p s)) a u = swap_page ip h s ! (unat a mod 4096)) \<and>
    \<not> bit (pte_of (pgdir (prc p s)) (vaddr p i s) u) 0 \<and> bit (pte_of (pgdir (prc p s)) (vaddr p i s) u) 9 \<and>
    swap_page ip k u = page_bytes (pgdir (prc p s)) (vaddr p i s) s \<and>
    (\<forall>a. a < KERNBASE \<and> bit (pte_of (pgdir (prc p s)) a s) 0 \<and> unat a div 4096 \<noteq> unat (vaddr p i s) div 4096 \<longrightarrow>
       bit (pte_of (pgdir (prc p s)) a u) 0 \<and> ubyte (pgdir (prc p s)) a u = ubyte (pgdir (prc p s)) a s) \<and>
    ram_list (prc p u) (as @ bs @ [j]) \<and> kmem_inv (conf_end C) u \<and> space_ok (conf_end C) (pgdir (prc p s)) u"
proof -
  let ?E = "conf_end C" and ?d = "pgdir (prc p s)"
  have "hd ls \<in> set ls" using assms(2) by (cases ls) auto
  with assms(4) have "can_page_out ?E p (hd ls) k f ip s" by blast
  then have c: "curp s = Some p" "\<not> global_pgdir_flag s" "space_ok ?E ?d s"
    by (rule can_page_outD)+
  obtain i t m where t: "choosePageToSwap C s = Inr (Some i, t)" "i \<in> set ls" "kept ?E p s t" "paging ?E p t (rotate m ls)"
    using chosen_page [OF assms(1-3) c(1,2)] by blast
  note k = keptD [OF t(3)] and V = kept_views [OF t(3)] and W = kept_waiting [OF t(3)]
  obtain as bs where ab: "rotate m ls = as @ i # bs" using t(2) split_list [of i "rotate m ls"] by auto
  have ne: "as @ bs \<noteq> []" using arg_cong [OF ab, of length] assms(2) by auto
  have out: "can_page_out ?E p i k f ip t" by (rule W(1)) (use assms(4) t(2) in blast)
  have fr: "xs \<noteq> [] \<or> refs t (uframe (pgdir (prc p t)) (vaddr p i t) t) = 1"
    unfolding k(6) k(11) V(1) V(3) using assms(6) t(2) by blast
  have od: "on_disk p j h ip (as @ i # bs) t" by (rule W(2) [OF assms(8)]) (simp add: ab [symmetric])
  have rl: "ram_list (prc p t) (as @ i # bs)" using pagingD(2) [OF t(4)] by (simp add: ab)
  note R = swapPages_chosen [OF t(1) out k(3) [OF assms(5)] rl ne fr _ od assms(9), unfolded W(3,4) k(6) V(1), OF assms(7)]
  have here: "uframe ?d a s \<notin> pt_frames ?d s" if "a < KERNBASE" "bit (pte_of ?d a s) 0" for a
    using user_framesI [OF that] c(3) by (auto simp: space_ok_def)
  have ub: "ubyte ?d a t = ubyte ?d a s" if "a < KERNBASE" "bit (pte_of ?d a s) 0" for a
    using V(6) [OF here [OF that]] by (simp add: ubyte_def)
  have "can_page_out ?E p i k f ip s" using assms(4) t(2) by blast
  then have "vaddr p i s < KERNBASE" "bit (pte_of ?d (vaddr p i s) s) 0" by (rule can_page_outD)+
  from V(6) [OF here [OF this]] have pb: "page_bytes ?d (vaddr p i s) t = page_bytes ?d (vaddr p i s) s" by (simp add: page_bytes_def)
  obtain u where u: "swapPages C addr s = Inr (0, u)"
    and n: "\<forall>a. unat a div 4096 = unat addr div 4096 \<longrightarrow> bit (pte_of ?d a u) 0 \<and> ubyte ?d a u = swap_page ip h s ! (unat a mod 4096)"
    and o: "\<not> bit (pte_of ?d (vaddr p i s) u) 0" "bit (pte_of ?d (vaddr p i s) u) 9" "swap_page ip k u = page_bytes ?d (vaddr p i s) s"
    and r: "\<forall>a. a < KERNBASE \<and> bit (pte_of ?d a t) 0 \<and> unat a div 4096 \<noteq> unat (vaddr p i s) div 4096 \<longrightarrow>
      bit (pte_of ?d a u) 0 \<and> ubyte ?d a u = ubyte ?d a t"
    and e: "ram_list (prc p u) (as @ bs @ [j])" "kmem_inv ?E u" "space_ok ?E ?d u"
    using R [unfolded pb] by (elim exE conjE) (rule that)
  have r': "\<forall>a. a < KERNBASE \<and> bit (pte_of ?d a s) 0 \<and> unat a div 4096 \<noteq> unat (vaddr p i s) div 4096 \<longrightarrow>
      bit (pte_of ?d a u) 0 \<and> ubyte ?d a u = ubyte ?d a s" using r ub k(5) [of 0] by simp
  show ?thesis using t(1) ab u n o r' e by (intro exI conjI) assumption+
qed

text \<open>A process with pages 0, 1 and 2 in memory, page 0 accessed, and page 3 in slot 0 of its swap file.\<close>

definition fault_proc :: proc where
  "fault_proc = demo_proc\<lparr>pgdir := 0x8DFF0000, swapFile := Some 0, num_pages_disk := 1, available_Offsets := True # replicate 16 False,
     pages_meta_data := demo_links[3 := (demo_links ! 3)\<lparr>pl_page := (pl_page (demo_links ! 3))\<lparr>offset_in_file := 0, pstate := IN_DISK\<rparr>\<rparr>]\<rparr>"

definition fault_inode :: inode where
  "fault_inode = (demo_inode 1)\<lparr>i_lock := False, i_size := 4096, i_addrs := [8, 9, 10, 11, 12, 13, 14, 15, 0, 0, 0, 0, 0]\<rparr>"

definition three_frames :: kernel where
  "three_frames = filled 0x8DFF4000 (\<lambda>_. 9) (filled 0x8DFF3000 (\<lambda>_. 8) (demo_space 0 0xDFF2027))"

definition three_pages :: kernel where
  "three_pages = set_pte 0x8DFF0000 0x2000 0xDFF4007 (set_pte 0x8DFF0000 0x1000 0xDFF3007 three_frames)"

definition demo_fault :: kernel where
  "demo_fault = (set_pte 0x8DFF0000 0x3000 0x206 three_pages)\<lparr>ptable := [fault_proc], curp := Some 0,
     blocks := \<lambda>_. (\<lambda>_. 0)(0 := -1, 1 := -1),
     sb := \<lparr>sb_size = 60, nblocks = 52, ninodes = 8, nlog = 30, logstart = 4, inodestart = 2, bmapstart = 3\<rparr>,
     icache := [fault_inode],
     ftable := [\<lparr>f_type = FD_INODE, f_ref = 1, f_readable = True, f_writable = True, f_pipe = 0, f_ip = Some 0, f_off = 0\<rparr>]\<rparr>"

lemma demo_fault_fields:
  "prc 0 demo_fault = fault_proc" "length (ptable demo_fault) = 1" "curp demo_fault = Some 0"
  "ino 0 demo_fault = fault_inode" "length (icache demo_fault) = 1" "length (ftable demo_fault) = 1"
  "sb demo_fault = \<lparr>sb_size = 60, nblocks = 52, ninodes = 8, nlog = 30, logstart = 4, inodestart = 2, bmapstart = 3\<rparr>"
  "blocks demo_fault = (\<lambda>_. (\<lambda>_. 0)(0 := -1, 1 := -1))" "cr3 demo_fault = V2P 0x8DFF0000" "\<not> global_pgdir_flag demo_fault" "idle demo_fault"
  by (simp_all add: demo_fault_def prc_def ino_def idle_def three_pages_def three_frames_def set_pte_def store_def demo_space_def filled_def took_def V2P_def demo_kernel_def)

lemma demo_fault_in_use:
  assumes "b < 60"
  shows "in_use 1 demo_fault b \<longleftrightarrow> unat b < 16"
proof -
  have u: "unat b < 60" using assms by (simp add: word_less_nat_alt)
  have "unat b div 8 = 0 \<longleftrightarrow> unat b < 8" "unat b div 8 = 1 \<longleftrightarrow> 8 \<le> unat b \<and> unat b < 16" by auto
  then show ?thesis using u
    by (auto simp: in_use_def demo_fault_fields bit_at_iff unat_mod bit_minus_1_iff possible_bit_word)
qed

lemma demo_fault_layout: "layout 1 demo_fault" "meta_blocks demo_fault = {0, 2, 3}" "24 \<le> card (free_blocks 1 demo_fault)"
proof -
  have "b div 4096 = 0" if "b < 60" for b :: u32
    using that by (simp add: word_less_nat_alt word_unat_eq_iff unat_div)
  then have bb: "bitmap_blocks demo_fault = {3}" unfolding bitmap_blocks_def BBLOCK_def
    by (auto simp: demo_fault_fields intro!: exI [of _ 0])
  have "i div 8 = 0" if "i < 8" for i :: u32 using that by (simp add: word_less_nat_alt word_unat_eq_iff unat_div)
  then have ib: "inode_blocks demo_fault = {2}" unfolding inode_blocks_def IBLOCK_def
    by (auto simp: demo_fault_fields intro!: exI [of _ 0])
  show "layout 1 demo_fault" "meta_blocks demo_fault = {0, 2, 3}"
    using demo_fault_in_use [of 0] demo_fault_in_use [of 2] demo_fault_in_use [of 3]
    by (auto simp: layout_def meta_blocks_def bb ib free_blocks_def demo_fault_fields)
  have u: "unat (word_of_nat n :: u32) = n" if "n < 60" for n using that by (simp add: unat_of_nat)
  have "word_of_nat ` {16..<60} \<subseteq> free_blocks 1 demo_fault"
    using u demo_fault_in_use by (auto simp: free_blocks_def demo_fault_fields word_less_nat_alt)
  moreover have "inj_on (word_of_nat :: nat \<Rightarrow> u32) {16..<60}" by (rule inj_on_inverseI [of _ unat]) (simp add: u)
  ultimately have "card {16..<60 :: nat} \<le> card (free_blocks 1 demo_fault)"
    using card_mono [of "free_blocks 1 demo_fault" "word_of_nat ` {16..<60}"] card_image [of "word_of_nat :: nat \<Rightarrow> u32" "{16..<60}"] by simp
  then show "24 \<le> card (free_blocks 1 demo_fault)" by simp
qed

lemma demo_fault_slot: "n \<le> 140 \<Longrightarrow> slot 0 demo_fault n = (if n < 8 then 8 + word_of_nat n else 0)"
  by (auto simp: slot_def Let_def demo_fault_fields fault_inode_def less_Suc_eq numeral_eq_Suc)

lemma demo_fault_file: "open_file 0 0 demo_fault" "length (fdata 0 demo_fault) = 4096"
proof -
  note sl = demo_fault_slot
  have u: "unat (8 + word_of_nat n :: u32) = 8 + n" if "n < 8" for n
    using that unat_add_nowrap [of 8 "word_of_nat n"] by (simp add: unat_of_nat)
  have fb: "file_blocks 0 demo_fault \<subseteq> word_of_nat ` {8..<16}"
  proof
    fix b assume "b \<in> file_blocks 0 demo_fault"
    then obtain n where "n \<le> 140" "b = slot 0 demo_fault n" "b \<noteq> 0" by (auto simp: file_blocks_def)
    then have "b = 8 + word_of_nat n" "n < 8" using sl by (auto split: if_splits)
    then show "b \<in> word_of_nat ` {8..<16}" by (intro image_eqI [of _ _ "8 + n"]) auto
  qed
  have bs: "b < 60 \<and> in_use 1 demo_fault b \<and> b \<notin> {0, 2, 3}" if b: "b \<in> file_blocks 0 demo_fault" for b
  proof -
    obtain m where "b = word_of_nat m" "8 \<le> m" "m < 16" using fb b by auto
    then have "unat b = m" by (simp add: unat_of_nat)
    then show ?thesis using \<open>8 \<le> m\<close> \<open>m < 16\<close> demo_fault_in_use [of b] by (auto simp: word_less_nat_alt)
  qed
  have inj: "m = n" if "m \<le> 140" "n \<le> 140" "slot 0 demo_fault m = slot 0 demo_fault n" "slot 0 demo_fault m \<noteq> 0" for m n
  proof -
    have e: "m < 8" "n < 8" "8 + word_of_nat m = (8 + word_of_nat n :: u32)" using that sl [of m] sl [of n] by (auto split: if_splits)
    then have "unat (8 + word_of_nat m :: u32) = unat (8 + word_of_nat n :: u32)" by (simp only:)
    then show ?thesis unfolding u [OF e(1)] u [OF e(2)] by simp
  qed
  have nz: "slot 0 demo_fault n \<noteq> 0" if "512 * n < 4096" for n
  proof -
    have "n < 8" using that by simp
    then have "slot 0 demo_fault n = 8 + word_of_nat n" using sl [of n] by simp
    then show ?thesis using u [OF \<open>n < 8\<close>] by (metis add_is_0 unat_0 zero_neq_numeral)
  qed
  have "file_ok 0 demo_fault"
    unfolding file_ok_def demo_fault_layout(2) using bs inj nz by (auto simp: demo_fault_fields fault_inode_def demo_inode_def)
  then show "open_file 0 0 demo_fault" unfolding open_file_def demo_fault_fields by (simp add: fault_inode_def demo_inode_def fil_def demo_fault_def)
  show "length (fdata 0 demo_fault) = 4096" by (simp add: length_fdata demo_fault_fields fault_inode_def)
qed

lemma three_frames_ok:
  "kmem_ok demo_end three_frames (drop 5 demo_pages)" "pt_ok demo_end 0x8DFF0000 three_frames" "pt_frames 0x8DFF0000 three_frames = {0x8DFF0000, 0x8DFF1000}"
  "pte_of 0x8DFF0000 a three_frames = (if unat a div 4096 = 0 then 0xDFF2027 else 0)" "v \<in> {0x8DFF2000, 0x8DFF3000, 0x8DFF4000} \<Longrightarrow> refs three_frames v = 1"
proof -
  let ?s = "demo_space 0 0xDFF2027"
  let ?t = "filled 0x8DFF3000 (\<lambda>_. 8) ?s"
  note P = demo_space_pte [where i = 0 and w = "0xDFF2027"] and R = demo_space_refs [of 0 "0xDFF2027"]
  have k: "kmem_ok demo_end ?s (0x8DFF3000 # 0x8DFF4000 # drop 5 demo_pages)" using R(1) by (simp add: demo_pages_def)
  note A = filled_kmem [OF k, where pg = "\<lambda>_. 8"] and B = filled_evolves(1-3) [OF k P(3), where pg = "\<lambda>_. 8"]
  note A' = filled_kmem [OF A(1), where pg = "\<lambda>_. 9", folded three_frames_def]
    and B' = filled_evolves(1-3) [OF A(1) B(1), where pg = "\<lambda>_. 9", folded three_frames_def]
  have f: "freeable demo_end 0x8DFF2000" "freeable demo_end 0x8DFF3000" by (simp_all add: demo_freeable demo_pages_def)
  show "kmem_ok demo_end three_frames (drop 5 demo_pages)" "pt_ok demo_end 0x8DFF0000 three_frames" by (rule A' B')+
  show "pt_frames 0x8DFF0000 three_frames = {0x8DFF0000, 0x8DFF1000}" using B(3) B'(3) P(2) by simp
  show "pte_of 0x8DFF0000 a three_frames = (if unat a div 4096 = 0 then 0xDFF2027 else 0)" using B(2) B'(2) P(1) by simp
  show "v \<in> {0x8DFF2000, 0x8DFF3000, 0x8DFF4000} \<Longrightarrow> refs three_frames v = 1"
    using A'(2) A'(3) [OF f(1)] A'(3) [OF f(2)] A(2) A(3) [OF f(1)] R(4) by auto
qed

lemma demo_fault_mem:
  "kmem_ok demo_end demo_fault (drop 5 demo_pages)" "space_ok demo_end 0x8DFF0000 demo_fault"
  "pte_of 0x8DFF0000 a demo_fault = (if unat a div 4096 = 3 then 0x206 else if unat a div 4096 = 2 then 0xDFF4007
     else if unat a div 4096 = 1 then 0xDFF3007 else if unat a div 4096 = 0 then 0xDFF2027 else 0)"
  "PDX 0 \<in> present 0x8DFF0000 demo_fault"
proof -
  let ?t = "set_pte 0x8DFF0000 0x1000 0xDFF3007 three_frames"
  let ?u = "set_pte 0x8DFF0000 0x3000 0x206 three_pages"
  have sm: "same_mem ?u demo_fault" by (simp add: same_mem_def demo_fault_def)
  note M = same_mem_facts [OF sm] and T = three_frames_ok
  have "bit (pte_of 0x8DFF0000 0 three_frames) 0" using T(4) [of 0] by simp
  from pte_present [OF this] have z: "PDX 0 \<in> present 0x8DFF0000 three_frames" .
  have e: "PDX 0x1000 = PDX 0" "PDX 0x2000 = PDX 0" "PDX 0x3000 = PDX 0" by (simp_all add: PDX_def)
  have W1: "PDX 0x1000 \<in> present 0x8DFF0000 three_frames" using z by (simp only: e)
  note S1 = set_pte_tree [OF T(2) W1, where w = "0xDFF3007"] and O1 = set_pte_ok [OF T(2) W1, where w = "0xDFF3007"]
  have W2: "PDX 0x2000 \<in> present 0x8DFF0000 ?t" using z by (simp only: e S1)
  note S2 = set_pte_tree [OF O1 W2, where w = "0xDFF4007", folded three_pages_def]
    and O2 = set_pte_ok [OF O1 W2, where w = "0xDFF4007", folded three_pages_def]
  have W3: "PDX 0x3000 \<in> present 0x8DFF0000 three_pages" using z by (simp only: e S1 S2)
  note S3 = set_pte_tree [OF O2 W3, where w = "0x206"] and O3 = set_pte_ok [OF O2 W3, where w = "0x206"]
  show "PDX 0 \<in> present 0x8DFF0000 demo_fault" using z by (simp only: M S1 S2 S3)
  show "kmem_ok demo_end demo_fault (drop 5 demo_pages)"
    using set_pte_kmem [OF set_pte_kmem [OF set_pte_kmem [OF T(1,2) W1] O1 W2, where w = "0xDFF4007", folded three_pages_def] O2 W3] by (simp only: M)
  show p: "pte_of 0x8DFF0000 a demo_fault = (if unat a div 4096 = 3 then 0x206 else if unat a div 4096 = 2 then 0xDFF4007
     else if unat a div 4096 = 1 then 0xDFF3007 else if unat a div 4096 = 0 then 0xDFF2027 else 0)" for a
    unfolding M(3) pte_of_set_pte [OF O2 W3] unfolding three_pages_def pte_of_set_pte [OF O1 W2] pte_of_set_pte [OF T(2) W1] T(4) by simp
  have "uframe 0x8DFF0000 a demo_fault \<in> {0x8DFF2000, 0x8DFF3000, 0x8DFF4000}" if "bit (pte_of 0x8DFF0000 a demo_fault) 0" for a
    using that p [of a] by (auto simp: uframe_def PTE_ADDR_def P2V_def split: if_splits)
  then have "user_frames 0x8DFF0000 demo_fault \<subseteq> {0x8DFF2000, 0x8DFF3000, 0x8DFF4000}" by (auto simp: user_frames_def)
  moreover have "refs demo_fault v = refs three_frames v" for v by (simp add: M(2) set_pte_def three_pages_def)
  moreover have "pt_frames 0x8DFF0000 demo_fault = {0x8DFF0000, 0x8DFF1000}" "pt_ok demo_end 0x8DFF0000 demo_fault"
    using T(3) O3 by (simp_all add: M S1 S2 S3)
  ultimately show "space_ok demo_end 0x8DFF0000 demo_fault" using T(5) by (auto simp: space_ok_def demo_freeable demo_pages_def)
qed

lemma demo_fault_vaddr: "vaddr 0 0 demo_fault = 0" "vaddr 0 1 demo_fault = 0x1000" "vaddr 0 (Suc 0) demo_fault = 0x1000"
  "vaddr 0 2 demo_fault = 0x2000" "vaddr 0 3 demo_fault = 0x3000"
  by (simp_all add: vaddr_def lnk_def demo_fault_fields fault_proc_def link_def demo_links_def)

lemma demo_fault_can: "i \<in> {0, 1, 2} \<Longrightarrow> can_page_out demo_end 0 i 1 0 0 demo_fault" "on_disk 0 3 0 0 [0, 1, 2] demo_fault"
proof -
  have n: "nextAvOffset (prc 0 demo_fault) = Some 1" by (simp add: demo_fault_fields nextAvOffset_def fault_proc_def numeral_eq_Suc)
  have d: "pgdir (prc 0 demo_fault) = 0x8DFF0000" by (simp add: demo_fault_fields fault_proc_def)
  have u: "unat a div 4096 = unat b div 4096"
    if "bit (pte_of 0x8DFF0000 a demo_fault) 0" "bit (pte_of 0x8DFF0000 b demo_fault) 0" "uframe 0x8DFF0000 a demo_fault = uframe 0x8DFF0000 b demo_fault" for a b
    using that by (auto simp: demo_fault_mem(3) uframe_def PTE_ADDR_def P2V_def split: if_splits)
  have v: "vaddr 0 i demo_fault < KERNBASE \<and> PGROUNDDOWN (vaddr 0 i demo_fault) = vaddr 0 i demo_fault \<and>
      bit (pte_of 0x8DFF0000 (vaddr 0 i demo_fault) demo_fault) 0 \<and> i < length (pages_meta_data (prc 0 demo_fault))" if "i \<in> {0, 1, 2}" for i
    using that by (auto simp: demo_fault_vaddr demo_fault_mem(3) PGROUNDDOWN_def demo_fault_fields fault_proc_def demo_links_def)
  show "can_page_out demo_end 0 i 1 0 0 demo_fault" if i: "i \<in> {0, 1, 2}"
    unfolding can_page_out_def Let_def d n
    using demo_fault_mem(2) demo_fault_file demo_fault_layout v [OF i] u
    by (simp add: demo_fault_fields fault_proc_def fault_inode_def demo_inode_def)
  show "on_disk 0 3 0 0 [0, 1, 2] demo_fault"
    unfolding on_disk_def Let_def demo_fault_vaddr d using demo_fault_file(2)
    by (simp add: demo_fault_mem(3) PGROUNDDOWN_def lnk_def demo_fault_fields fault_proc_def link_def demo_links_def)
qed

lemma demo_fault_paging: "paging demo_end 0 demo_fault [0, 1, 2]"
proof -
  have "pt_ok demo_end 0x8DFF0000 demo_fault" using demo_fault_mem(2) by (simp add: space_ok_def)
  moreover have "PDX 0x1000 = PDX 0" "PDX 0x2000 = PDX 0" by (simp_all add: PDX_def)
  moreover have "ram_list fault_proc [0, 1, 2]" by (simp add: fault_proc_def ram_list_def demo_proc_def demo_links_def)
  moreover have "pgdir fault_proc = 0x8DFF0000" by (simp add: fault_proc_def)
  ultimately show ?thesis using demo_fault_mem(4) by (simp add: paging_def demo_fault_fields(1,2) demo_fault_vaddr)
qed

theorem swapPages_exchanges_witness:
  "\<exists>i u. i \<in> {0, 1, 2} \<and> swapPages demo_conf 0x3000 demo_fault = Inr (0, u) \<and> bit (pte_of 0x8DFF0000 0x3004 u) 0 \<and>
     \<not> bit (pte_of 0x8DFF0000 (vaddr 0 i demo_fault) u) 0 \<and> swap_page 0 1 u = page_bytes 0x8DFF0000 (vaddr 0 i demo_fault) demo_fault"
proof -
  have E: "conf_end demo_conf = demo_end" by (simp add: demo_conf_def)
  have d: "pgdir (prc 0 demo_fault) = 0x8DFF0000" by (simp add: demo_fault_fields fault_proc_def)
  have f: "find_page 0x3000 (prc 0 demo_fault) = Some 3"
    by (simp add: find_page_def demo_fault_fields fault_proc_def demo_links_def upt_rec)
  have x: "drop 5 demo_pages \<noteq> []" by (simp add: demo_pages_def)
  have us: "\<exists>i \<in> set [0, 1, 2]. is_user 0 demo_fault i"
    by (simp add: pflag_def d demo_fault_vaddr demo_fault_mem(3))
  have c: "\<forall>i \<in> set [0, 1, 2]. can_page_out demo_end 0 i 1 0 0 demo_fault" using demo_fault_can(1) by simp
  obtain i t u m as bs where u: "rotate m [0, 1, 2] = as @ i # bs" "swapPages demo_conf 0x3000 demo_fault = Inr (0, u)"
    "\<not> bit (pte_of 0x8DFF0000 (vaddr 0 i demo_fault) u) 0" "swap_page 0 1 u = page_bytes 0x8DFF0000 (vaddr 0 i demo_fault) demo_fault"
    and n: "\<forall>a. unat a div 4096 = unat (0x3000 :: u32) div 4096 \<longrightarrow> bit (pte_of 0x8DFF0000 a u) 0 \<and> ubyte 0x8DFF0000 a u = swap_page 0 0 demo_fault ! (unat a mod 4096)"
    using swapPages_exchanges [of demo_conf 0 demo_fault "[0, 1, 2]" 1 0 0 "drop 5 demo_pages" "0x3000" 3 0, unfolded E d,
        OF demo_fault_paging _ _ c demo_fault_mem(1) _ f demo_fault_can(2)] x us by auto
  have "i \<in> {0, 1, 2}" using arg_cong [OF u(1), of set] by auto
  then show ?thesis using u(2-) spec [OF n, of "0x3004"] by auto
qed

end
