(* ===== verification/Grep.thy ===== *)
theory Grep
  imports Prelude
begin

text \<open>
  The pattern matcher and the line loop of \<open>grep.c\<close>. A C string is the list of its bytes without the terminating zero.
\<close>

section \<open>Operations\<close>

definition ch :: "u8 list \<Rightarrow> nat \<Rightarrow> u8" where
  "ch s i = (if i < length s then s ! i else 0)"

function matchhere :: "u8 list \<Rightarrow> u8 list \<Rightarrow> bool" and matchstar :: "u8 \<Rightarrow> u8 list \<Rightarrow> u8 list \<Rightarrow> bool" where
  "matchhere re tx =
    (if ch re 0 = 0 then True
     else if ch re 1 = 42 then matchstar (ch re 0) (drop 2 re) tx
     else if ch re 0 = 36 \<and> ch re 1 = 0 then ch tx 0 = 0
     else if ch tx 0 \<noteq> 0 \<and> (ch re 0 = 46 \<or> ch re 0 = ch tx 0) then matchhere (drop 1 re) (drop 1 tx)
     else False)"
| "matchstar c re tx =
    (if matchhere re tx then True
     else if ch tx 0 \<noteq> 0 \<and> (ch tx 0 = c \<or> c = 46) then matchstar c re (drop 1 tx)
     else False)"
  by pat_completeness auto
termination
  by (relation "measure (\<lambda>x. case x of Inl (re, tx) \<Rightarrow> 2 * (length re + length tx)
                              | Inr (c, re, tx) \<Rightarrow> 2 * (length re + length tx) + 1)")
    (auto simp: ch_def neq_Nil_conv split: if_splits)

declare matchhere.simps [simp del] matchstar.simps [simp del]

fun match_from :: "u8 list \<Rightarrow> u8 list \<Rightarrow> bool" where
  "match_from re [] = matchhere re []"
| "match_from re (c # tx) = (if matchhere re (c # tx) then True else if c \<noteq> 0 then match_from re tx else False)"

definition match_re :: "u8 list \<Rightarrow> u8 list \<Rightarrow> bool" where
  "match_re re tx = (if ch re 0 = 94 then matchhere (drop 1 re) tx else match_from re tx)"

text \<open>\<open>strchr\<close> for a newline, up to a zero byte.\<close>

fun newline_at :: "u8 list \<Rightarrow> nat option" where
  "newline_at [] = None"
| "newline_at (c # s) = (if c = 10 then Some 0 else if c = 0 then None else map_option Suc (newline_at s))"

lemma newline_at_less: "newline_at s = Some i \<Longrightarrow> i < length s"
  by (induction s arbitrary: i) (auto split: if_splits)

text \<open>The inner loop: what is printed, and what is left from \<open>p\<close> on.\<close>

function grep_lines :: "u8 list \<Rightarrow> u8 list \<Rightarrow> u8 list \<times> u8 list" where
  "grep_lines re p =
    (case newline_at p of
       None \<Rightarrow> ([], p)
     | Some i \<Rightarrow>
         let (out, rest) = grep_lines re (drop (Suc i) p)
         in ((if match_re re (take i p) then take (Suc i) p else []) @ out, rest))"
  by pat_completeness auto
termination
  by (relation "measure (\<lambda>(re, p). length p)") (auto dest: newline_at_less)

declare grep_lines.simps [simp del]

text \<open>The outer loop. \<open>held\<close> are the \<open>m\<close> bytes in the buffer, the list has what the file delivers: a read returns the next element, or
  as much of it as fits; an empty one or none at all is the end.\<close>

function grep :: "u8 list \<Rightarrow> u8 list \<Rightarrow> u8 list list \<Rightarrow> u8 list" where
  "grep re held [] = []"
| "grep re held (c # cs) =
    (let n = 1023 - length held in
     if c = [] \<or> n = 0 then []
     else let b = held @ take n c;
              cs = (if length c \<le> n then cs else drop n c # cs);
              (out, p) = grep_lines re b
          in out @ grep re (if length p = length b then [] else p) cs)"
  by pat_completeness auto
termination
  by (relation "measure (\<lambda>(re, held, cs). length (concat cs) + length cs)") (auto split: if_splits)

section \<open>What a pattern means\<close>

datatype item = One u8 | Star u8 | Eol

fun parse_re :: "u8 list \<Rightarrow> item list" where
  "parse_re [] = []"
| "parse_re [c] = [if c = 36 then Eol else One c]"
| "parse_re (c # d # re) = (if d = 42 then Star c # parse_re re else One c # parse_re (d # re))"

definition fits :: "u8 \<Rightarrow> u8 \<Rightarrow> bool" where
  "fits c x \<longleftrightarrow> c = 46 \<or> x = c"

fun in_lang :: "item list \<Rightarrow> u8 list \<Rightarrow> bool" where
  "in_lang [] b \<longleftrightarrow> b = []"
| "in_lang (One c # is) b \<longleftrightarrow> (\<exists>x b'. b = x # b' \<and> fits c x \<and> in_lang is b')"
| "in_lang (Star c # is) b \<longleftrightarrow> (\<exists>b1 b2. b = b1 @ b2 \<and> (\<forall>x \<in> set b1. fits c x) \<and> in_lang is b2)"
| "in_lang (Eol # is) b \<longleftrightarrow> in_lang is b"

definition here :: "u8 list \<Rightarrow> u8 list \<Rightarrow> bool" where
  "here re tx \<longleftrightarrow> (\<exists>b r. tx = b @ r \<and> in_lang (parse_re re) b \<and> (Eol \<in> set (parse_re re) \<longrightarrow> r = []))"

lemma ch_Nil [simp]: "ch [] i = 0"
  by (simp add: ch_def)

lemma ch_Cons [simp]: "ch (c # s) 0 = c" "ch (c # s) (Suc i) = ch s i"
  by (simp_all add: ch_def)

lemma here_one:
  assumes "c \<noteq> 36 \<or> re \<noteq> []" "ch re 0 \<noteq> 42"
  shows "here (c # re) tx \<longleftrightarrow> (\<exists>x t. tx = x # t \<and> fits c x \<and> here re t)"
proof -
  have p: "parse_re (c # re) = One c # parse_re re" using assms by (cases re) auto
  show ?thesis unfolding here_def p by (auto simp: Cons_eq_append_conv) blast+
qed

lemma here_star: "here (c # 42 # re) tx \<longleftrightarrow> (\<exists>a t. tx = a @ t \<and> (\<forall>x \<in> set a. fits c x) \<and> here re t)"
proof
  assume "here (c # 42 # re) tx"
  then obtain d r where d: "tx = d @ r" "in_lang (Star c # parse_re re) d" "Eol \<in> set (parse_re re) \<longrightarrow> r = []"
    by (auto simp: here_def simp del: in_lang.simps)
  then obtain a b where "d = a @ b" "\<forall>x \<in> set a. fits c x" "in_lang (parse_re re) b" by auto
  with d(1,3) show "\<exists>a t. tx = a @ t \<and> (\<forall>x \<in> set a. fits c x) \<and> here re t"
    unfolding here_def by (intro exI [of _ a] exI [of _ "b @ r"]) auto
next
  assume "\<exists>a t. tx = a @ t \<and> (\<forall>x \<in> set a. fits c x) \<and> here re t"
  then obtain a b r where "tx = a @ b @ r" "\<forall>x \<in> set a. fits c x" "in_lang (parse_re re) b" "Eol \<in> set (parse_re re) \<longrightarrow> r = []"
    by (auto simp: here_def)
  then show "here (c # 42 # re) tx" unfolding here_def by (intro exI [of _ "a @ b"] exI [of _ r]) auto
qed

lemma star_step:
  "(\<exists>a t. tx = a @ t \<and> (\<forall>x \<in> set a. fits c x) \<and> P t) \<longleftrightarrow>
   P tx \<or> (\<exists>x t. tx = x # t \<and> fits c x \<and> (\<exists>a u. t = a @ u \<and> (\<forall>x \<in> set a. fits c x) \<and> P u))"
proof
  assume "\<exists>a t. tx = a @ t \<and> (\<forall>x \<in> set a. fits c x) \<and> P t"
  then obtain a t where "tx = a @ t" "\<forall>x \<in> set a. fits c x" "P t" by blast
  then show "P tx \<or> (\<exists>x t. tx = x # t \<and> fits c x \<and> (\<exists>a u. t = a @ u \<and> (\<forall>x \<in> set a. fits c x) \<and> P u))"
    by (cases a) auto
next
  assume "P tx \<or> (\<exists>x t. tx = x # t \<and> fits c x \<and> (\<exists>a u. t = a @ u \<and> (\<forall>x \<in> set a. fits c x) \<and> P u))"
  then show "\<exists>a t. tx = a @ t \<and> (\<forall>x \<in> set a. fits c x) \<and> P t"
  proof (elim disjE exE conjE)
    assume "P tx"
    then show ?thesis by (intro exI [of _ "[]"] exI [of _ tx]) simp
  next
    fix x t a u assume "tx = x # t" "fits c x" "t = a @ u" "\<forall>x \<in> set a. fits c x" "P u"
    then show ?thesis by (intro exI [of _ "x # a"] exI [of _ u]) simp
  qed
qed

lemma matchhere_Cons:
  "c \<noteq> 0 \<Longrightarrow> matchhere (c # r) tx =
    (if ch r 0 = 42 then matchstar c (drop 1 r) tx
     else if c = 36 \<and> ch r 0 = 0 then ch tx 0 = 0
     else ch tx 0 \<noteq> 0 \<and> (c = 46 \<or> c = ch tx 0) \<and> matchhere r (drop 1 tx))"
  by (subst matchhere.simps) (simp add: numeral_2_eq_2)

lemma matchhere_here:
  "0 \<notin> set re \<Longrightarrow> 0 \<notin> set tx \<Longrightarrow> matchhere re tx = here re tx"
  "0 \<notin> set re \<Longrightarrow> 0 \<notin> set tx \<Longrightarrow> c \<noteq> 0 \<Longrightarrow>
     matchstar c re tx = (\<exists>a t. tx = a @ t \<and> (\<forall>x \<in> set a. fits c x) \<and> here re t)"
proof (induction re tx and c re tx rule: matchhere_matchstar.induct)
  case (1 re tx)
  show ?case
  proof (cases re)
    case Nil
    then show ?thesis by (simp add: matchhere.simps here_def)
  next
    case (Cons c r)
    then have c: "c \<noteq> 0" using "1.prems" by auto
    show ?thesis
    proof (cases "ch r 0 = 42")
      case True
      then obtain q where r: "r = 42 # q" by (cases r) auto
      have "matchstar c q tx = (\<exists>a t. tx = a @ t \<and> (\<forall>x \<in> set a. fits c x) \<and> here q t)"
        using "1.IH"(1) "1.prems" c by (simp add: Cons r)
      then show ?thesis using c by (simp add: matchhere_Cons Cons r here_star)
    next
      case n: False
      show ?thesis
      proof (cases "c = 36 \<and> r = []")
        case True
        then have "here re tx \<longleftrightarrow> tx = []" by (auto simp: here_def Cons)
        then show ?thesis using True "1.prems"(2) by (cases tx) (auto simp: matchhere_Cons Cons)
      next
        case False
        then have h: "here re tx \<longleftrightarrow> (\<exists>x t. tx = x # t \<and> fits c x \<and> here r t)" unfolding Cons using n by (intro here_one) auto
        have z: "ch r 0 = 0 \<longleftrightarrow> r = []" using "1.prems"(1) Cons by (cases r) auto
        show ?thesis
        proof (cases tx)
          case Nil
          then show ?thesis using h False c n z by (auto simp: matchhere_Cons Cons)
        next
          case t: (Cons x xs)
          then have "x \<noteq> 0" using "1.prems" by auto
          then show ?thesis using h False c n z "1.IH"(2) "1.prems"
            by (auto simp: matchhere_Cons Cons t fits_def)
        qed
      qed
    qed
  qed
next
  case (2 c re tx)
  have h: "matchhere re tx = here re tx" using "2.IH"(1) "2.prems" by simp
  show ?case
  proof (cases tx)
    case Nil
    then show ?thesis using h by (subst matchstar.simps) auto
  next
    case (Cons x t)
    then have x: "x \<noteq> 0" using "2.prems" by auto
    have "matchstar c re t = (\<exists>a u. t = a @ u \<and> (\<forall>x \<in> set a. fits c x) \<and> here re u)" if "\<not> here re tx" "fits c x"
      using "2.IH"(2) "2.prems" that h x by (auto simp: Cons fits_def)
    then show ?thesis unfolding star_step [of tx] using h x
      by (subst matchstar.simps) (auto simp: Cons fits_def)
  qed
qed

lemma match_from_here:
  assumes "0 \<notin> set re" "0 \<notin> set tx"
  shows "match_from re tx \<longleftrightarrow> (\<exists>a t. tx = a @ t \<and> here re t)"
  using assms(2)
proof (induction tx)
  case Nil
  then show ?case using assms(1) by (simp add: matchhere_here)
next
  case (Cons x tx)
  then show ?case using assms(1) by (auto simp: matchhere_here Cons_eq_append_conv)
qed

text \<open>
  Property C30. \<open>match\<close> decides the language of the pattern: for C strings, it answers yes exactly if some part of the text belongs to the language of the
  pattern, where \<open>.\<close> stands for any character, \<open>c*\<close> for any number of \<open>c\<close>, a leading \<open>^\<close> ties the part to the beginning and a final \<open>$\<close> to the
  end of the text. In particular it always returns.
\<close>

theorem match_decides:
  assumes "0 \<notin> set re" "0 \<notin> set tx"
  shows "match_re re tx \<longleftrightarrow>
    (let q = parse_re (if ch re 0 = 94 then drop 1 re else re) in
     \<exists>a b r. tx = a @ b @ r \<and> in_lang q b \<and> (ch re 0 = 94 \<longrightarrow> a = []) \<and> (Eol \<in> set q \<longrightarrow> r = []))"
proof -
  have "0 \<notin> set (drop 1 re)" using assms(1) by (meson in_set_dropD)
  then show ?thesis
    using assms by (auto simp: match_re_def matchhere_here match_from_here here_def Let_def)
qed

theorem match_decides_witness:
  "match_re [94, 97, 42, 98, 36] [97, 97, 98] \<and> in_lang [Star 97, One 98, Eol] [97, 97, 98]"
proof -
  have "in_lang [Star 97, One 98, Eol] [97, 97, 98]"
    by (simp, intro exI [of _ "[97, 97]"] exI [of _ "[98]"]) (simp add: fits_def)
  then show ?thesis
    using match_decides [of "[94, 97, 42, 98, 36]" "[97, 97, 98]"] by (fastforce simp: Let_def)
qed

section \<open>Lines\<close>

function complete_lines :: "u8 list \<Rightarrow> u8 list list" where
  "complete_lines s = (if 10 \<in> set s then takeWhile (\<lambda>c. c \<noteq> 10) s # complete_lines (tl (dropWhile (\<lambda>c. c \<noteq> 10) s)) else [])"
  by pat_completeness auto
termination
proof (relation "measure length")
  fix s :: "u8 list" assume "10 \<in> set s"
  then have "0 < length s" by (rule length_pos_if_in_set)
  then show "(tl (dropWhile (\<lambda>c. c \<noteq> 10) s), s) \<in> measure length"
    using length_dropWhile_le [of "\<lambda>c. c \<noteq> 10" s] unfolding in_measure length_tl by linarith
qed simp

declare complete_lines.simps [simp del]

definition printed :: "u8 list \<Rightarrow> u8 list list \<Rightarrow> u8 list" where
  "printed re ls = concat (map (\<lambda>l. l @ [10]) (filter (match_re re) ls))"

lemma printed_simps [simp]:
  "printed re [] = []" "printed re (l # ls) = (if match_re re l then l @ [10] else []) @ printed re ls" "printed re (xs @ ys) = printed re xs @ printed re ys"
  by (simp_all add: printed_def)

lemma complete_none: "10 \<notin> set s \<Longrightarrow> complete_lines s = []"
  by (simp add: complete_lines.simps)

lemma complete_line: "10 \<notin> set l \<Longrightarrow> complete_lines (l @ 10 # s) = l # complete_lines s"
proof -
  assume "10 \<notin> set l"
  then have "takeWhile (\<lambda>c. c \<noteq> 10) (l @ 10 # s) = l" "dropWhile (\<lambda>c. c \<noteq> 10) (l @ 10 # s) = 10 # s"
    by (induction l) auto
  then show ?thesis by (subst complete_lines.simps) simp
qed

lemma newline_at_none: "0 \<notin> set s \<Longrightarrow> newline_at s = None \<longleftrightarrow> 10 \<notin> set s"
  by (induction s) auto

lemma newline_at_line: "10 \<notin> set l \<Longrightarrow> 0 \<notin> set l \<Longrightarrow> newline_at (l @ 10 # s) = Some (length l)"
  by (induction l) auto

lemma grep_lines_spec:
  assumes "0 \<notin> set p"
  shows "\<exists>z. grep_lines re p = (printed re (complete_lines p), z) \<and> 10 \<notin> set z \<and> length z \<le> length p \<and> (length z = length p \<longleftrightarrow> 10 \<notin> set p) \<and>
    (\<forall>s. complete_lines (p @ s) = complete_lines p @ complete_lines (z @ s)) \<and> set z \<subseteq> set p"
  using assms
proof (induction p rule: length_induct)
  case (1 p)
  show ?case
  proof (cases "10 \<in> set p")
    case False
    then show ?thesis using newline_at_none [OF 1(2)] by (simp add: grep_lines.simps [of re p] complete_none)
  next
    case True
    then obtain l s where p: "p = l @ 10 # s" "10 \<notin> set l" by (meson split_list_first)
    then have "length s < length p" "0 \<notin> set s" using 1(2) by simp_all
    from 1(1) [rule_format, OF this] obtain z where z: "grep_lines re s = (printed re (complete_lines s), z)" "10 \<notin> set z" "length z \<le> length s"
      "\<forall>u. complete_lines (s @ u) = complete_lines s @ complete_lines (z @ u)" "set z \<subseteq> set s"
      by (elim exE conjE)
    have "newline_at p = Some (length l)" unfolding p(1) using p 1(2) by (intro newline_at_line) auto
    then have "grep_lines re p = (printed re (complete_lines p), z)"
      using z(1) by (simp add: grep_lines.simps [of re p]) (simp add: p complete_line)
    then show ?thesis using z(2-5) p by (intro exI [of _ z]) (auto simp: complete_line)
  qed
qed

lemma full_buffer:
  assumes "length b = 1023" "10 \<notin> set b" "\<forall>l \<in> set (complete_lines (b @ s)). length l \<le> 1022"
  shows "10 \<notin> set (b @ s)"
proof
  assume "10 \<in> set (b @ s)"
  then obtain l r where l: "b @ s = l @ 10 # r" "10 \<notin> set l" by (meson split_list_first)
  then have "length l \<le> 1022" using assms(3) by (simp add: complete_line)
  then have "10 \<in> set (take 1023 (b @ s))" unfolding l(1) by (auto simp: take_Cons')
  then show False using assms(1,2) by simp
qed

lemma grep_held:
  assumes "0 \<notin> set (held @ c)" "10 \<notin> set held" "length held \<le> 1022" "\<forall>l \<in> set (complete_lines (held @ c)). length l \<le> 1022"
  shows "grep re held [c] = printed re (complete_lines (held @ c))"
  using assms
proof (induction c arbitrary: held rule: length_induct)
  case (1 c)
  let ?n = "1023 - length held"
  define b where "b = held @ take ?n c"
  have sp: "held @ c = b @ drop ?n c" by (simp add: b_def)
  have "0 \<notin> set b" using 1(2) unfolding sp by simp
  then obtain z where z: "grep_lines re b = (printed re (complete_lines b), z)" "10 \<notin> set z" "length z \<le> length b" "length z = length b \<longleftrightarrow> 10 \<notin> set b"
    "\<And>s. complete_lines (b @ s) = complete_lines b @ complete_lines (z @ s)" "set z \<subseteq> set b" using grep_lines_spec by blast
  show ?case
  proof (cases "c = [] \<or> length c \<le> ?n")
    case True
    then show ?thesis using 1(3,4) z(1) complete_none [of held] by (cases "c = []") (simp_all add: b_def Let_def)
  next
    case False
    then have lb: "length b = 1023" and lc: "length (drop ?n c) < length c" using 1(4) by (auto simp: b_def)
    let ?h = "if length z = length b then [] else z"
    have run: "grep re held [c] = printed re (complete_lines b) @ grep re ?h [drop ?n c]"
      using False z(1) 1(4) by (simp add: b_def [symmetric] Let_def)
    have lines: "complete_lines (held @ c) = complete_lines b @ complete_lines (?h @ drop ?n c)"
    proof (cases "10 \<in> set b")
      case True
      then show ?thesis using z(4,5) unfolding sp by simp
    next
      case no: False
      have "10 \<notin> set (held @ c)" unfolding sp by (rule full_buffer [OF lb no]) (use 1(5) sp in simp)
      moreover from this have "10 \<notin> set (drop ?n c)" unfolding sp by simp
      ultimately show ?thesis using z(4) no by (simp add: complete_none)
    qed
    have "grep re ?h [drop ?n c] = printed re (complete_lines (?h @ drop ?n c))"
    proof (rule 1(1) [rule_format, OF lc])
      show "0 \<notin> set (?h @ drop ?n c)" using 1(2) z(6) unfolding sp by auto
      show "10 \<notin> set ?h" "length ?h \<le> 1022" using z(2,3) lb by auto
      show "length l \<le> 1022" if "l \<in> set (complete_lines (?h @ drop ?n c))" for l using 1(5) that unfolding lines by simp
    qed
    then show ?thesis unfolding run lines by simp
  qed
qed

text \<open>
  Property C31. \<open>grep\<close> on a file: if the file has no zero bytes and no line of more than 1022 characters, what is printed are the complete lines that match, each
  once, in order and with its newline, however the lines lie across the 1024-byte buffer. A last line without newline is not looked at.
\<close>

theorem grep_prints:
  assumes "0 \<notin> set c" "\<forall>l \<in> set (complete_lines c). length l \<le> 1022"
  shows "grep re [] [c] = concat (map (\<lambda>l. l @ [10]) (filter (match_re re) (complete_lines c)))"
  using grep_held [of "[]" c re] assms by (simp add: printed_def)

lemma demo_lines: "complete_lines [97, 98, 10, 99, 10, 97] = [[97, 98], [99]]"
  using complete_line [of "[97, 98]" "[99, 10, 97]"] complete_line [of "[99]" "[97]"] complete_none [of "[97]"] by simp

theorem grep_prints_witness: "grep [97] [] [[97, 98, 10, 99, 10, 97]] = [97, 98, 10]"
proof -
  have "match_re [97] [97, 98]" "\<not> match_re [97] [99]"
    by (simp_all add: match_re_def matchhere_Cons, simp_all add: matchhere.simps)
  then show ?thesis using grep_prints [of "[97, 98, 10, 99, 10, 97]" "[97]"] by (simp add: demo_lines)
qed

text \<open>A line that arrives in two reads, the first of which completes no line, loses its beginning.\<close>

lemma grep_loses: "grep [94, 97] [] [[97], [98, 10]] = []" "grep [94, 97] [] [[97, 98, 10]] = [97, 98, 10]"
  by (simp_all add: grep_lines.simps match_re_def matchhere_Cons, simp_all add: matchhere.simps)

end
