(* ===== verification/Spec2Isabelle.thy ===== *)
theory Spec2Isabelle
  imports Trap Log Copyuvm Sleepwake Sleeplock Demand Grep
begin

text \<open>
  Verification of an xv6 kernel with copy-on-write and demand paging.

  \<^bold>\<open>The program.\<close> The kernel under \<open>src/\<close> is xv6 for the x86, extended by memory management: \<open>fork\<close> shares the pages of the parent
  copy-on-write with a reference count per physical page; every process keeps at most 16 pages in memory and up to 16 more in a swap file of its own; when a
  page is needed, a policy selected at compile time (LIFO, NFUA, LAPA, SCFIFO, AQ or none) chooses the page that has to go. The parts build on each other
  as follows. \<open>kalloc.c\<close> hands out physical pages. \<open>vm.c\<close> arranges them into page tables and address spaces and moves pages to the swap
  file and back. The swap file is a file of the file system (\<open>fs.c\<close>, \<open>file.c\<close>), which writes blocks through the log (\<open>log.c\<close>), the buffer
  cache (\<open>bio.c\<close>) and the disk driver (\<open>ide.c\<close>). \<open>proc.c\<close> has the processes and the scheduler, \<open>trap.c\<close> and \<open>syscall.c\<close> the ways into
  the kernel, and \<open>exec.c\<close>, \<open>pipe.c\<close>, \<open>console.c\<close> and the locks the rest.

  \<^bold>\<open>Conventions.\<close> A C integer is a word of its width (\<open>u8\<close>, \<open>u16\<close>, \<open>u32\<close>), so that wrap-around is that of the machine; results that the code
  compares with \<open>-1\<close> are \<open>int\<close>. A routine that can stop is a function into \<open>'a res\<close>, with a \<open>fault\<close> on the left: a panic with its message,
  a null dereference, an index out of bounds, a sleep at a named place, a page fault of the kernel, a loop that does not end. A pointer into an array
  is an index, a null pointer is \<open>None\<close>. Definitions have the names of the C functions. The state grows by record extension:
  \<open>phys\<close> (memory and allocator), \<open>fsys\<close> (and blocks, log, inodes), \<open>kernel\<close> (and processes, files, pipes, console, registers); the disk stack below the log
  has its own records \<open>buf\<close>, \<open>disks\<close>, \<open>logsys\<close>, since a transaction of the file system is atomic for the parts above it; \<open>log_refines\<close> is the
  bridge between the two views.

  \<^bold>\<open>Theories.\<close>
  \<^item> \<open>Prelude\<close>: types, results, lemmas on words and lists. \<open>Ring\<close>: the ring buffer that pipe and console share, as a locale.
  \<^item> \<open>Mmu\<close> (\<open>mmu.h\<close>, \<open>memlayout.h\<close>): address arithmetic, flags of page-table entries, descriptors.
  \<^item> \<open>Kalloc\<close> (\<open>kalloc.c\<close>): \<open>kalloc\<close>, \<open>kfree\<close>, reference counts, boot. The invariant \<open>kmem_ok E s xs\<close> says that the free list is \<open>xs\<close> and that a page is on it
    exactly if its count is 0. The locale \<open>frame_store\<close> is the interface for clients; \<open>kalloc_client_safe\<close> is proved in it.
  \<^item> \<open>Pagetable\<close> (\<open>vm.c\<close>, first half): \<open>walkpgdir\<close>, \<open>mappages\<close>, \<open>copyout\<close> and single entries, with \<open>pte_of\<close> and \<open>ubyte\<close> as the abstract view of a page table.
  \<^item> \<open>Strings\<close> (\<open>string.c\<close>), \<open>Blocks\<close>, \<open>Fs\<close> (\<open>fs.c\<close>): block allocator, inodes, contents, directories, paths. \<open>Contents\<close>: the invariants of files and bitmap and the theorem that
    \<open>writei\<close> and \<open>readi\<close> treat a file as a sequence of bytes.
  \<^item> \<open>Ide\<close> (\<open>ide.c\<close>, \<open>memide.c\<close>), \<open>Bio\<close> (\<open>bio.c\<close>), \<open>Log\<close> (\<open>log.c\<close>): the request queue with its interrupts, the buffer cache as a refinement of a store of
    blocks (locale \<open>block_store\<close>), commit and recovery with a crash at any point.
  \<^item> \<open>Kstate\<close> (\<open>proc.h\<close>, \<open>file.h\<close>), \<open>Pagelist\<close> (the list of pages of \<open>vm.c\<close> and \<open>proc.c\<close>, locale \<open>page_queue\<close>), \<open>Sched\<close> (\<open>proc.c\<close>: sleeping, waking, scheduling), \<open>Sleepwake\<close> (the same with the locks, on several processors),
    \<open>Policy\<close> (\<open>vm.c\<close>, \<open>trap.c\<close>: choosing pages, aging) and \<open>Replacement\<close> with what the policies do.
  \<^item> \<open>Pipe\<close> (\<open>pipe.c\<close>), \<open>File\<close> (\<open>file.c\<close>), \<open>Swapfile\<close> (\<open>fs.c\<close>, \<open>sysfile.c\<close>), \<open>Console\<close> (\<open>console.c\<close>), \<open>Spinlock\<close>, \<open>Sleeplock\<close>.
  \<^item> \<open>Swap\<close> (\<open>moveToDisk\<close>, \<open>getPageFromFile\<close>, \<open>swapPages\<close>), \<open>Uvm\<close> (\<open>allocuvm\<close>, \<open>deallocuvm\<close>, \<open>copyuvm\<close> and the rest of \<open>vm.c\<close>), \<open>Pgfault\<close> (the page-fault branch of \<open>trap.c\<close>).
    \<open>Cow\<close> and \<open>Copyuvm\<close> have the theorems on copy-on-write; \<open>Swapio\<close>, \<open>Swapping\<close>, \<open>Swapin\<close> and \<open>Demand\<close> follow a page through the file system and back.
  \<^item> \<open>Proc\<close> (\<open>proc.c\<close>: \<open>fork\<close>, \<open>exit\<close>, \<open>wait\<close>), \<open>Exec\<close> (\<open>exec.c\<close>), \<open>Syscall\<close> (\<open>syscall.c\<close>, \<open>sysproc.c\<close>, \<open>sysfile.c\<close>), \<open>Trap\<close> (\<open>trap.c\<close>).
  \<^item> \<open>Grep\<close> (\<open>grep.c\<close>): the matcher and the line loop of one user program.

  \<^bold>\<open>What is shown.\<close> Memory: no client that respects ownership makes the allocator panic; \<open>mappages\<close> and \<open>copyout\<close> do exactly what they should; \<open>fork\<close> shares
  every page with one more reference, and a later write by one process is not seen by any other (\<open>copyuvm_shares\<close>, \<open>cow_fault_isolates\<close>). Paging: a page
  survives the way to the swap file and back, on a fault the wanted page comes in and the victim chosen by the policy goes out with all bytes intact and all other
  pages untouched (\<open>swap_roundtrip\<close>, \<open>swapPages_exchanges\<close>), the list of pages refines a sequence, and each policy chooses the page that its code chooses, with termination of the second-chance
  loop characterised exactly. Disk: files are sequences of bytes, the cache is a store of blocks, the driver serves requests in order, a commit is atomic
  under crashes. Concurrency: spin locks and sleep locks exclude, pipes are first-in first-out under all interleavings, the scheduler is fair, no wakeup
  is lost between \<open>sleep\<close> and \<open>wakeup\<close> on several processors (\<open>sleep_no_lost_wakeup\<close>). Some properties state what goes wrong: a copy-on-write fault without free memory, a killed writer of a pipe, a read error of the disk, the removal of
  the only page of a list.

  \<^bold>\<open>Bounds and fuel.\<close> Loops that always end are recursive functions with a termination proof. Walks along linked structures have fuel and give \<open>Diverge\<close> when it
  runs out: 32 steps for the list of pages (the array has 32 links, so a list without cycle fits), 65 for second chance (each page is passed at most twice),
  31 for the 30 buffers of the cache and their head. Theorems that such a loop returns show that this is enough. \<open>mappages\<close>, \<open>balloc\<close> and the directory
  searches give \<open>Diverge\<close> where their counter would wrap around for ever. An access of the kernel to user memory follows three page faults.

  \<^bold>\<open>Concurrency in the model.\<close> Operations that sleep are cut at the sleep; the theorems on pipes, sleep locks, disk requests and scheduling quantify over all
  interleavings of the pieces. Spin locks are modelled at the level of single atomic instructions over any number of processors; \<open>sleep\<close> and \<open>wakeup\<close> in pieces with at
  most one \<open>acquire\<close> or \<open>release\<close> each; elsewhere a critical section is one step, which \<open>spinlock_mutex\<close> justifies.

  \<^bold>\<open>Parameters.\<close> The linker's \<open>end\<close>, \<open>data\<close>, the address of the task segment, the addresses of assembler labels, the device switch and the selected policy are fields of
  \<open>conf\<close>; the contents of memory that is not initialised are arguments of the definitions that read them. The disk drive is a small model in \<open>Ide\<close>: it carries out
  one command at a time and reports errors for an arbitrary set of blocks. What a process does while it has the processor is an argument of the scheduler; the lock that
  goes with a channel is an argument of the steps of \<open>Sleepwake\<close>.

  \<^bold>\<open>Not modelled.\<close> The boot loader and the assembler files (register saving and stack switching), the interrupt controllers, the serial line and the
  keyboard (port input and output), the start of further processors, \<open>mkfs.c\<close> and the build scripts, the other user programs and the tests.
\<close>

end
